(* ===== verification/Prelude.thy ===== *)
theory Prelude
  imports Complex_Main "HOL-Library.Word" "HOL-Library.Monad_Syntax"
begin

text \<open>
  What every component theory shares: the computations that may fail, the loops of the source as
  combinators with their proof rules, bounds-checked vectors, and the lemmas on machine words.

  A computation of the C++ sources is a value of type \<open>'a option\<close>. \<open>None\<close> is every way
  in which the source stops without a result: a failed \<open>ASSERT\<close>, \<open>UNREACHABLE()\<close> or
  \<open>UNIMPLEMENTED()\<close>, an access outside a \<open>Vector\<close>, a shift by a negative amount, a sum of the type \<open>int\<close>
  that leaves its 32 bits (\<open>as_int32\<close>), and a loop that runs forever. \<open>Some x\<close> is a normal return. A theorem that says that an operation returns
  \<open>Some\<close> therefore says that no assertion of the operation fails, so that a build with and a
  build without assertions behave the same.
\<close>

unbundle bit_operations_syntax

named_theorems wp \<open>equations for returns, one for each way of building a computation\<close>

named_theorems word_nat \<open>machine words read as natural numbers\<close>

type_synonym 'a result = "'a option"
type_synonym uint8 = "8 word"
type_synonym uint16 = "16 word"
type_synonym uint32 = "32 word"
type_synonym uint64 = "64 word"

section \<open>Computations that may fail\<close>

text \<open>\<open>ASSERT(b)\<close>: the computation goes on only where \<open>b\<close> holds.\<close>

definition check :: "bool \<Rightarrow> unit result" where
  "check b = (if b then Some () else None)"

text \<open>
  Total correctness: the computation returns, and its result satisfies \<open>P\<close>. The equations
  collected in \<open>wp\<close> compute the weakest precondition of a straight-line computation.
\<close>

definition returns :: "'a result \<Rightarrow> ('a \<Rightarrow> bool) \<Rightarrow> bool" where
  "returns m P \<longleftrightarrow> (\<exists>x. m = Some x \<and> P x)"

lemma returns_Some [wp, simp]: "returns (Some x) P \<longleftrightarrow> P x"
  by (simp add: returns_def)

lemma returns_None [wp, simp]: "returns None P \<longleftrightarrow> False"
  by (simp add: returns_def)

lemma returns_bind [wp]: "returns (Option.bind m f) P \<longleftrightarrow> returns m (\<lambda>x. returns (f x) P)"
  by (cases m) (simp_all add: returns_def)

lemma returns_check [wp]: "returns (check b) P \<longleftrightarrow> b \<and> P ()"
  by (simp add: returns_def check_def)

text \<open>
  The type \<open>int\<close> of the source has 32 bits and an overflow of it is undefined: a sum whose operands the code does not limit
  goes through \<open>as_int32\<close>.
\<close>

definition in_int32 :: "int \<Rightarrow> bool" where
  "in_int32 x \<longleftrightarrow> - (2 ^ 31) \<le> x \<and> x < 2 ^ 31"

definition as_int32 :: "int \<Rightarrow> int result" where
  "as_int32 x = (if in_int32 x then Some x else None)"

lemma returns_as_int32 [wp]: "returns (as_int32 x) P \<longleftrightarrow> in_int32 x \<and> P x"
  by (simp add: returns_def as_int32_def)

lemma as_int32_Some [simp]: "in_int32 x \<Longrightarrow> as_int32 x = Some x"
  by (simp add: as_int32_def)

lemma in_int32_between: "in_int32 x \<Longrightarrow> in_int32 y \<Longrightarrow> x \<le> z \<Longrightarrow> z \<le> y \<Longrightarrow> in_int32 z"
  by (simp add: in_int32_def)

lemma returns_if [wp]:
  "returns (if b then m else n) P \<longleftrightarrow> (if b then returns m P else returns n P)"
  by simp

lemma returns_case_prod [wp]:
  "returns (case p of (x, y) \<Rightarrow> f x y) P \<longleftrightarrow> (case p of (x, y) \<Rightarrow> returns (f x y) P)"
  by (cases p) simp

lemma returns_Let [wp]: "returns (Let x f) P \<longleftrightarrow> (let y = x in returns (f y) P)"
  by (simp add: Let_def)

lemma returns_mono: "returns m P \<Longrightarrow> (\<And>x. m = Some x \<Longrightarrow> P x \<Longrightarrow> Q x) \<Longrightarrow> returns m Q"
  by (auto simp: returns_def)

lemma returns_conj: "returns m P \<Longrightarrow> returns m Q \<Longrightarrow> returns m (\<lambda>x. P x \<and> Q x)"
  by (auto simp: returns_def)

lemma returnsE: "returns m P \<Longrightarrow> (\<And>x. m = Some x \<Longrightarrow> P x \<Longrightarrow> R) \<Longrightarrow> R"
  by (auto simp: returns_def)

lemma returns_bindI: "returns m P \<Longrightarrow> (\<And>x. P x \<Longrightarrow> returns (f x) Q) \<Longrightarrow> returns (Option.bind m f) Q"
  by (auto simp: returns_bind elim!: returns_mono)

lemma returns_checkI: "b \<Longrightarrow> returns (f ()) Q \<Longrightarrow> returns (Option.bind (check b) f) Q"
  by (simp add: returns_bind returns_check)

lemma returns_ex: "returns m P \<Longrightarrow> \<exists>x. m = Some x \<and> P x"
  by (simp add: returns_def)

section \<open>Vectors\<close>

text \<open>
  \<open>Vector<T>::operator[]\<close> of \<open>utils.h\<close> asserts \<open>0 <= index && index < length_\<close>. The
  backing store is the list of its elements.
\<close>

definition vget :: "'a list \<Rightarrow> nat \<Rightarrow> 'a result" where
  "vget xs i = (if i < length xs then Some (xs ! i) else None)"

definition vset :: "'a list \<Rightarrow> nat \<Rightarrow> 'a \<Rightarrow> 'a list result" where
  "vset xs i v = (if i < length xs then Some (xs[i := v]) else None)"

lemma returns_vget [wp]: "returns (vget xs i) P \<longleftrightarrow> i < length xs \<and> P (xs ! i)"
  by (simp add: returns_def vget_def)

lemma returns_vset [wp]: "returns (vset xs i v) P \<longleftrightarrow> i < length xs \<and> P (xs[i := v])"
  by (simp add: returns_def vset_def)

section \<open>Loops\<close>

text \<open>
  \<open>for_up lo hi body s\<close> is \<open>for (i = lo; i < hi; ++i) s = body(i, s)\<close> and
  \<open>for_down hi lo body s\<close> is \<open>for (i = hi - 1; i >= lo; --i) s = body(i, s)\<close>.
\<close>

function for_up :: "nat \<Rightarrow> nat \<Rightarrow> (nat \<Rightarrow> 's \<Rightarrow> 's result) \<Rightarrow> 's \<Rightarrow> 's result" where
  "for_up lo hi body s =
     (if lo < hi then do { s' \<leftarrow> body lo s; for_up (Suc lo) hi body s' } else Some s)"
  by pat_completeness auto
termination
  by (relation "measure (\<lambda>(lo, hi, body, s). hi - lo)") auto

function for_down :: "nat \<Rightarrow> nat \<Rightarrow> (nat \<Rightarrow> 's \<Rightarrow> 's result) \<Rightarrow> 's \<Rightarrow> 's result" where
  "for_down hi lo body s =
     (if lo < hi then do { s' \<leftarrow> body (hi - 1) s; for_down (hi - 1) lo body s' } else Some s)"
  by pat_completeness auto
termination
  by (relation "measure (\<lambda>(hi, lo, body, s). hi - lo)") auto

declare for_up.simps [simp del] for_down.simps [simp del]

lemma for_up_stop [simp]: "hi \<le> lo \<Longrightarrow> for_up lo hi body s = Some s"
  by (subst for_up.simps) simp

lemma for_down_stop [simp]: "hi \<le> lo \<Longrightarrow> for_down hi lo body s = Some s"
  by (subst for_down.simps) simp

text \<open>
  The rule of a counting loop: an invariant indexed by the counter, and what the invariant gives
  at the end.
\<close>

lemma returns_for_up:
  assumes "lo \<le> hi" and "I lo s"
    and step: "\<And>i s. lo \<le> i \<Longrightarrow> i < hi \<Longrightarrow> I i s \<Longrightarrow> returns (body i s) (I (Suc i))"
    and post: "\<And>s. I hi s \<Longrightarrow> P s"
  shows "returns (for_up lo hi body s) P"
  using assms(1,2) step post
proof (induction lo hi body s rule: for_up.induct)
  case (1 lo hi body s)
  show ?case
  proof (cases "lo < hi")
    case True
    obtain s' where s': "body lo s = Some s'" "I (Suc lo) s'"
      using "1.prems"(3)[of lo s] "1.prems"(2) True by (auto elim: returnsE)
    have "returns (for_up (Suc lo) hi body s') P"
      by (rule "1.IH"[OF True s'(1)]) (use True s' "1.prems"(3,4) in auto)
    with True s' show ?thesis by (subst for_up.simps) simp
  next
    case False
    with "1.prems" have "lo = hi" by simp
    with "1.prems"(2) show ?thesis by (subst for_up.simps) (simp add: "1.prems"(4))
  qed
qed

lemma returns_for_down:
  assumes "lo \<le> hi" and "I hi s"
    and step: "\<And>i s. lo \<le> i \<Longrightarrow> i < hi \<Longrightarrow> I (Suc i) s \<Longrightarrow> returns (body i s) (I i)"
    and post: "\<And>s. I lo s \<Longrightarrow> P s"
  shows "returns (for_down hi lo body s) P"
  using assms(1,2) step post
proof (induction hi lo body s rule: for_down.induct)
  case (1 hi lo body s)
  show ?case
  proof (cases "lo < hi")
    case True
    obtain s' where s': "body (hi - 1) s = Some s'" "I (hi - 1) s'"
      using "1.prems"(3)[of "hi - 1" s] "1.prems"(2) True
      by (metis Suc_diff_1 Suc_leI diff_less gr_implies_not0 less_Suc_eq_le not_gr_zero
          returns_def zero_less_one)
    have "returns (for_down (hi - 1) lo body s') P"
      by (rule "1.IH"[OF True s'(1)]) (use True s' "1.prems"(3,4) in auto)
    with True s' show ?thesis by (subst for_down.simps) simp
  next
    case False
    with "1.prems" have "lo = hi" by simp
    with "1.prems"(2) show ?thesis by (subst for_down.simps) (simp add: "1.prems"(4))
  qed
qed

text \<open>
  \<open>while_loop b c s\<close> is \<open>while (b(s)) s = c(s)\<close>; the test may fail too, since it may read a
  vector. A loop that does not end is \<open>None\<close>.
\<close>

partial_function (option) while_loop ::
  "('s \<Rightarrow> bool option) \<Rightarrow> ('s \<Rightarrow> 's option) \<Rightarrow> 's \<Rightarrow> 's option" where
  "while_loop b c s =
     Option.bind (b s) (\<lambda>t. if t then Option.bind (c s) (while_loop b c) else Some s)"

lemma returns_while:
  assumes "I s"
    and test: "\<And>s. I s \<Longrightarrow> returns (b s) (\<lambda>t. if t then returns (c s) (\<lambda>s'. I s' \<and> (m s' :: nat) < m s) else P s)"
  shows "returns (while_loop b c s) P"
  using \<open>I s\<close>
proof (induction "m s" arbitrary: s rule: less_induct)
  case less
  from test[OF less.prems] obtain t where t: "b s = Some t"
    "if t then returns (c s) (\<lambda>s'. I s' \<and> m s' < m s) else P s" by (auto elim: returnsE)
  show ?case
  proof (cases t)
    case True
    with t obtain s' where "c s = Some s'" "I s'" "m s' < m s" by (auto elim: returnsE)
    with less.hyps[of s'] t True show ?thesis by (subst while_loop.simps) simp
  next
    case False
    with t show ?thesis by (subst while_loop.simps) simp
  qed
qed

lemma while_loop_stop: "b s = Some False \<Longrightarrow> while_loop b c s = Some s"
  by (subst while_loop.simps) simp

lemma while_loop_step: "b s = Some True \<Longrightarrow> c s = Some s' \<Longrightarrow> while_loop b c s = while_loop b c s'"
  by (subst while_loop.simps) simp

section \<open>Integers\<close>

text \<open>The division of \<open>int\<close> in the source rounds toward zero.\<close>

definition cdiv :: "int \<Rightarrow> int \<Rightarrow> int" where
  "cdiv a b = (if 0 \<le> a then a div b else - ((- a) div b))"

text \<open>\<open>static_cast<int>\<close> of a 64-bit number keeps its low 32 bits as a signed number.\<close>

definition to_int :: "uint64 \<Rightarrow> int" where
  "to_int w = sint (ucast w :: uint32)"

section \<open>Machine words\<close>

text \<open>A word is read as a natural number first and as a real number from there.\<close>

declare of_nat_unat [simp del]

lemma unat_and_mask: "unat (w AND mask n) = unat w mod 2 ^ n"
  for w :: "'a::len word"
  by (simp only: take_bit_eq_mask [symmetric] unsigned_take_bit_eq) (simp only: take_bit_eq_mod)

lemma unat_drop_bit: "unat (drop_bit n w) = unat w div 2 ^ n"
  for w :: "'a::len word"
  by (simp only: unsigned_drop_bit_eq) (simp add: drop_bit_eq_div take_bit_eq_mod)

lemma unat_add_small: "unat a + unat b < 2 ^ LENGTH('a) \<Longrightarrow> unat (a + b) = unat a + unat b"
  for a b :: "'a::len word"
  by (simp add: unat_word_ariths)

lemma unat_add4_small:
  "unat a + unat b + unat c + unat d < 2 ^ LENGTH('a) \<Longrightarrow>
   unat (a + b + c + d) = unat a + unat b + unat c + unat d"
  for a b c d :: "'a::len word"
  by (simp add: unat_add_small)

lemma unat_mult_small: "unat a * unat b < 2 ^ LENGTH('a) \<Longrightarrow> unat (a * b) = unat a * unat b"
  for a b :: "'a::len word"
  by (simp add: unat_word_ariths)

lemma unat_sub_small: "unat b \<le> unat a \<Longrightarrow> unat (a - b) = unat a - unat b"
  for a b :: "'a::len word"
  by (simp add: unat_sub word_le_nat_alt)

lemma unat_push_bit_small:
  "unat w * 2 ^ n < 2 ^ LENGTH('a) \<Longrightarrow> unat (push_bit n w) = unat w * 2 ^ n"
  for w :: "'a::len word"
  by (simp only: unsigned_push_bit_eq) (simp add: push_bit_eq_mult take_bit_eq_mod)

text \<open>A field of a word, and words that have no bit above a mask.\<close>

lemma and_field: "w AND push_bit n (mask m) = push_bit n (drop_bit n w AND mask m)" for w :: "'a::len word"
  by (rule bit_eqI) (auto simp: bit_simps)

lemma unat_and_field:
  "n + m \<le> LENGTH('a) \<Longrightarrow> unat (w AND push_bit n (mask m)) = unat w div 2 ^ n mod 2 ^ m * 2 ^ n"
  for w :: "'a::len word"
proof -
  assume le: "n + m \<le> LENGTH('a)"
  have u: "unat (drop_bit n w AND mask m) = unat w div 2 ^ n mod 2 ^ m"
    by (simp only: unat_and_mask unat_drop_bit)
  have "unat w div 2 ^ n mod 2 ^ m * 2 ^ n < 2 ^ m * 2 ^ n" by simp
  also have "(2 :: nat) ^ m * 2 ^ n \<le> 2 ^ LENGTH('a)"
    using le by (simp add: power_add [symmetric] add.commute)
  finally show ?thesis unfolding and_field by (subst unat_push_bit_small) (simp_all only: u)
qed

lemma and_not_mask_iff: "w AND NOT (mask n) = 0 \<longleftrightarrow> unat w < 2 ^ n" for w :: "'a::len word"
proof
  assume zero: "w AND NOT (mask n) = 0"
  have "w AND mask n = w"
  proof (rule bit_eqI)
    fix k assume "possible_bit TYPE('a word) k"
    moreover have "bit (w AND NOT (mask n)) k = False" by (simp add: zero)
    ultimately show "bit (w AND mask n) k = bit w k" by (auto simp: bit_simps)
  qed
  then have "unat w = unat w mod 2 ^ n" by (metis unat_and_mask)
  also have "\<dots> < 2 ^ n" by simp
  finally show "unat w < 2 ^ n" .
next
  assume "unat w < 2 ^ n"
  then have "w AND mask n = w" by (simp add: word_unat_eq_iff unat_and_mask)
  then have "w AND NOT (mask n) = w AND (mask n AND NOT (mask n))" by (simp only: and.assoc [symmetric])
  then show "w AND NOT (mask n) = 0" by simp
qed

lemma length_64: "LENGTH(64) = 64"
  by simp

lemma unat_less_32: "unat w < 2 ^ 32" for w :: "32 word"
  using unsigned_less [of w, where ?'a = nat] by (simp del: unsigned_less)

lemma unat_less_64: "unat w < 2 ^ 64" for w :: "64 word"
  using unsigned_less [of w, where ?'a = nat] by (simp del: unsigned_less)

lemma unat_eq_0_iff: "unat w = 0 \<longleftrightarrow> w = 0" for w :: "'a::len word"
  by (rule unat_eq_zero)

text \<open>Words as signed integers.\<close>

lemma sint_small: "unat w < 2 ^ 31 \<Longrightarrow> sint w = int (unat w)" for w :: uint32
proof -
  assume w: "unat w < 2 ^ 31"
  have "uint w = int (unat w)" by (rule of_nat_unat [symmetric])
  with w show ?thesis by (simp add: sint_uint signed_take_bit_int_eq_self)
qed

lemma to_int_small: "unat w < 2 ^ 31 \<Longrightarrow> to_int w = int (unat w)"
proof -
  assume w: "unat w < 2 ^ 31"
  then have "unat (ucast w :: uint32) = unat w" by (simp add: unsigned_ucast_eq take_bit_nat_eq_self)
  with w show ?thesis by (simp add: to_int_def sint_small)
qed

end
