(* ===== verification/Bignum.thy ===== *)
theory Bignum
  imports Prelude
begin

text \<open>
  The class \<open>Bignum\<close> of \<open>double-conversion/bignum.h\<close> and \<open>bignum.cc\<close>: a natural number
  kept as 28-bit digits (``bigits'') in a fixed array of 128 chunks of 32 bits, of which the first
  \<open>used_digits\<close> count, and scaled by \<open>2 ^ (28 * exponent)\<close>. Every member function is one
  definition, in the order of the source file; \<open>this\<close> is the first argument and the updated
  object is (part of) the result. An \<open>int\<close> of the source that is never negative is a \<open>nat\<close>.
  What the operations compute is proved in the theories \<open>Bignum_Laws\<close>, \<open>Bignum_Mult\<close> and
  \<open>Bignum_Div\<close>.
\<close>

section \<open>State\<close>

abbreviation kChunkSize :: nat where "kChunkSize \<equiv> 32"
abbreviation kBigitSize :: nat where "kBigitSize \<equiv> 28"
abbreviation kBigitCapacity :: nat where "kBigitCapacity \<equiv> 128"

type_synonym Chunk = uint32
type_synonym DoubleChunk = uint64

definition kBigitMask :: Chunk where
  "kBigitMask = push_bit kBigitSize 1 - 1"

record bignum =
  bigits :: "Chunk list"
  used_digits :: nat
  exponent :: nat

definition new_bignum :: bignum where
  "new_bignum = \<lparr>bigits = replicate kBigitCapacity 0, used_digits = 0, exponent = 0\<rparr>"

definition EnsureCapacity :: "nat \<Rightarrow> unit result" where
  "EnsureCapacity n = check (\<not> n > kBigitCapacity)"

definition BigitLength :: "bignum \<Rightarrow> nat" where
  "BigitLength a = used_digits a + exponent a"

definition IsClamped :: "bignum \<Rightarrow> bool result" where
  "IsClamped a =
     (if used_digits a = 0 then Some True
      else do { x \<leftarrow> vget (bigits a) (used_digits a - 1); Some (x \<noteq> 0) })"

definition assert_clamped :: "bignum \<Rightarrow> unit result" where
  "assert_clamped a = do { c \<leftarrow> IsClamped a; check c }"

definition Clamp :: "bignum \<Rightarrow> bignum result" where
  "Clamp a = do {
     n \<leftarrow> while_loop
       (\<lambda>n. if n > 0 then do { x \<leftarrow> vget (bigits a) (n - 1); Some (x = 0) } else Some False)
       (\<lambda>n. Some (n - 1)) (used_digits a);
     Some (if n = 0 then a\<lparr>used_digits := 0, exponent := 0\<rparr> else a\<lparr>used_digits := n\<rparr>)
   }"

definition Zero :: "bignum \<Rightarrow> bignum result" where
  "Zero a = do {
     xs \<leftarrow> for_up 0 (used_digits a) (\<lambda>i xs. vset xs i 0) (bigits a);
     Some (a\<lparr>bigits := xs, used_digits := 0, exponent := 0\<rparr>)
   }"

definition Align :: "bignum \<Rightarrow> bignum \<Rightarrow> bignum result" where
  "Align a other =
     (if exponent a > exponent other then do {
        let zero_digits = exponent a - exponent other;
        EnsureCapacity (used_digits a + zero_digits);
        xs \<leftarrow> for_down (used_digits a) 0
          (\<lambda>i xs. do { x \<leftarrow> vget xs i; vset xs (i + zero_digits) x }) (bigits a);
        xs \<leftarrow> for_up 0 zero_digits (\<lambda>i xs. vset xs i 0) xs;
        Some (a\<lparr>bigits := xs, used_digits := used_digits a + zero_digits,
                exponent := exponent a - zero_digits\<rparr>)
      } else Some a)"

section \<open>Assignment\<close>

definition AssignUInt16 :: "bignum \<Rightarrow> uint16 \<Rightarrow> bignum result" where
  "AssignUInt16 a value = do {
     check (kBigitSize \<ge> 16);
     a \<leftarrow> Zero a;
     if value = 0 then Some a
     else do {
       EnsureCapacity 1;
       xs \<leftarrow> vset (bigits a) 0 (ucast value);
       Some (a\<lparr>bigits := xs, used_digits := 1\<rparr>)
     }
   }"

definition AssignUInt64 :: "bignum \<Rightarrow> uint64 \<Rightarrow> bignum result" where
  "AssignUInt64 a value = do {
     a \<leftarrow> Zero a;
     if value = 0 then Some a
     else do {
       let needed_bigits = 64 div kBigitSize + 1;
       EnsureCapacity needed_bigits;
       (xs, _) \<leftarrow> for_up 0 needed_bigits
         (\<lambda>i (xs, value). do {
            xs \<leftarrow> vset xs i (ucast (value AND ucast kBigitMask));
            Some (xs, drop_bit kBigitSize value) }) (bigits a, value);
       Clamp (a\<lparr>bigits := xs, used_digits := needed_bigits\<rparr>)
     }
   }"

definition AssignBignum :: "bignum \<Rightarrow> bignum \<Rightarrow> bignum result" where
  "AssignBignum a other = do {
     xs \<leftarrow> for_up 0 (used_digits other)
       (\<lambda>i xs. do { x \<leftarrow> vget (bigits other) i; vset xs i x }) (bigits a);
     xs \<leftarrow> for_up (used_digits other) (used_digits a) (\<lambda>i xs. vset xs i 0) xs;
     Some (a\<lparr>bigits := xs, used_digits := used_digits other, exponent := exponent other\<rparr>)
   }"

definition digit_of_char :: "char \<Rightarrow> int" where
  "digit_of_char c = of_char c - of_char CHR ''0''"

definition ReadUInt64 :: "string \<Rightarrow> nat \<Rightarrow> nat \<Rightarrow> uint64 result" where
  "ReadUInt64 buffer from digits_to_read =
     for_up from (from + digits_to_read)
       (\<lambda>i result. do {
          c \<leftarrow> vget buffer i;
          let digit = digit_of_char c;
          check (0 \<le> digit \<and> digit \<le> 9);
          Some (result * 10 + of_int digit) }) 0"

definition HexCharValue :: "char \<Rightarrow> uint32 result" where
  "HexCharValue c =
     (let v = (of_char c :: nat) in
      if of_char CHR ''0'' \<le> v \<and> v \<le> of_char CHR ''9'' then Some (of_nat v - of_char CHR ''0'')
      else if of_char CHR ''a'' \<le> v \<and> v \<le> of_char CHR ''f''
      then Some (10 + of_nat v - of_char CHR ''a'')
      else do {
        check (of_char CHR ''A'' \<le> v \<and> v \<le> of_char CHR ''F'');
        Some (10 + of_nat v - of_char CHR ''A'')
      })"

definition AssignHexString :: "bignum \<Rightarrow> string \<Rightarrow> bignum result" where
  "AssignHexString a value = do {
     a \<leftarrow> Zero a;
     let needed_bigits = length value * 4 div kBigitSize + 1;
     EnsureCapacity needed_bigits;
     \<comment> \<open>the number of characters not yet read, string_index + 1\<close>
     (xs, n) \<leftarrow> for_up 0 (needed_bigits - 1)
       (\<lambda>i (xs, n). do {
          (current_bigit, n) \<leftarrow> for_up 0 (kBigitSize div 4)
            (\<lambda>j (current_bigit, n). do {
               check (n > 0);
               c \<leftarrow> vget value (n - 1);
               v \<leftarrow> HexCharValue c;
               Some (current_bigit + push_bit (j * 4) v, n - 1) }) (0, n);
          xs \<leftarrow> vset xs i current_bigit;
          Some (xs, n) }) (bigits a, length value);
     most_significant_bigit \<leftarrow> for_up 0 n
       (\<lambda>j m. do {
          c \<leftarrow> vget value j;
          v \<leftarrow> HexCharValue c;
          Some (push_bit 4 m + v) }) 0;
     if most_significant_bigit \<noteq> 0 then do {
       xs \<leftarrow> vset xs (needed_bigits - 1) most_significant_bigit;
       Clamp (a\<lparr>bigits := xs, used_digits := needed_bigits\<rparr>)
     } else Clamp (a\<lparr>bigits := xs, used_digits := needed_bigits - 1\<rparr>)
   }"

section \<open>Addition\<close>

definition AddBignum :: "bignum \<Rightarrow> bignum \<Rightarrow> bignum result" where
  "AddBignum a other = do {
     assert_clamped a;
     assert_clamped other;
     a \<leftarrow> Align a other;
     EnsureCapacity (1 + max (BigitLength a) (BigitLength other) - exponent a);
     check (exponent other \<ge> exponent a);
     (xs, carry, bigit_pos) \<leftarrow> for_up 0 (used_digits other)
       (\<lambda>i (xs, carry, bigit_pos). do {
          x \<leftarrow> vget xs bigit_pos;
          y \<leftarrow> vget (bigits other) i;
          let sum = x + y + carry;
          xs \<leftarrow> vset xs bigit_pos (sum AND kBigitMask);
          Some (xs, drop_bit kBigitSize sum, bigit_pos + 1) })
       (bigits a, 0, exponent other - exponent a);
     (xs, carry, bigit_pos) \<leftarrow> while_loop (\<lambda>(xs, carry, bigit_pos). Some (carry \<noteq> 0))
       (\<lambda>(xs, carry, bigit_pos). do {
          x \<leftarrow> vget xs bigit_pos;
          let sum = x + carry;
          xs \<leftarrow> vset xs bigit_pos (sum AND kBigitMask);
          Some (xs, drop_bit kBigitSize sum, bigit_pos + 1) })
       (xs, carry, bigit_pos);
     let a = a\<lparr>bigits := xs, used_digits := max bigit_pos (used_digits a)\<rparr>;
     assert_clamped a;
     Some a
   }"

definition AddUInt64 :: "bignum \<Rightarrow> uint64 \<Rightarrow> bignum result" where
  "AddUInt64 a operand =
     (if operand = 0 then Some a
      else do { other \<leftarrow> AssignUInt64 new_bignum operand; AddBignum a other })"

section \<open>Comparison\<close>

definition BigitAt :: "bignum \<Rightarrow> nat \<Rightarrow> Chunk result" where
  "BigitAt a index =
     (if index \<ge> BigitLength a then Some 0
      else if index < exponent a then Some 0
      else vget (bigits a) (index - exponent a))"

text \<open>The loop of \<open>Compare\<close>, which looks at the digits \<open>n - 1\<close> down to \<open>lo\<close>.\<close>

function Compare_loop :: "bignum \<Rightarrow> bignum \<Rightarrow> nat \<Rightarrow> nat \<Rightarrow> int result" where
  "Compare_loop a b n lo =
     (if lo < n then do {
        bigit_a \<leftarrow> BigitAt a (n - 1);
        bigit_b \<leftarrow> BigitAt b (n - 1);
        if bigit_a < bigit_b then Some (-1)
        else if bigit_a > bigit_b then Some 1
        else Compare_loop a b (n - 1) lo
      } else Some 0)"
  by pat_completeness auto
termination
  by (relation "measure (\<lambda>(a, b, n, lo). n - lo)") auto

definition Compare :: "bignum \<Rightarrow> bignum \<Rightarrow> int result" where
  "Compare a b = do {
     assert_clamped a;
     assert_clamped b;
     if BigitLength a < BigitLength b then Some (-1)
     else if BigitLength a > BigitLength b then Some 1
     else Compare_loop a b (BigitLength a) (min (exponent a) (exponent b))
   }"

definition Equal :: "bignum \<Rightarrow> bignum \<Rightarrow> bool result" where
  "Equal a b = do { c \<leftarrow> Compare a b; Some (c = 0) }"

definition LessEqual :: "bignum \<Rightarrow> bignum \<Rightarrow> bool result" where
  "LessEqual a b = do { c \<leftarrow> Compare a b; Some (c \<le> 0) }"

definition Less :: "bignum \<Rightarrow> bignum \<Rightarrow> bool result" where
  "Less a b = do { c \<leftarrow> Compare a b; Some (c < 0) }"

function PlusCompare_loop :: "bignum \<Rightarrow> bignum \<Rightarrow> bignum \<Rightarrow> nat \<Rightarrow> nat \<Rightarrow> Chunk \<Rightarrow> int result" where
  "PlusCompare_loop a b c n lo borrow =
     (if lo < n then do {
        chunk_a \<leftarrow> BigitAt a (n - 1);
        chunk_b \<leftarrow> BigitAt b (n - 1);
        chunk_c \<leftarrow> BigitAt c (n - 1);
        let sum = chunk_a + chunk_b;
        if sum > chunk_c + borrow then Some 1
        else (let borrow = chunk_c + borrow - sum in
          if borrow > 1 then Some (-1)
          else PlusCompare_loop a b c (n - 1) lo (push_bit kBigitSize borrow))
      } else Some (if borrow = 0 then 0 else -1))"
  by pat_completeness auto
termination
  by (relation "measure (\<lambda>(a, b, c, n, lo, borrow). n - lo)") auto

function PlusCompare :: "bignum \<Rightarrow> bignum \<Rightarrow> bignum \<Rightarrow> int result" where
  "PlusCompare a b c = do {
     assert_clamped a;
     assert_clamped b;
     assert_clamped c;
     if BigitLength a < BigitLength b then PlusCompare b a c
     else if BigitLength a + 1 < BigitLength c then Some (-1)
     else if BigitLength a > BigitLength c then Some 1
     else if exponent a \<ge> BigitLength b \<and> BigitLength a < BigitLength c then Some (-1)
     else PlusCompare_loop a b c (BigitLength c)
            (min (min (exponent a) (exponent b)) (exponent c)) 0
   }"
  by pat_completeness auto
termination
  by (relation "measure (\<lambda>(a, b, c). if BigitLength a < BigitLength b then 1 else 0)") auto

definition PlusEqual :: "bignum \<Rightarrow> bignum \<Rightarrow> bignum \<Rightarrow> bool result" where
  "PlusEqual a b c = do { r \<leftarrow> PlusCompare a b c; Some (r = 0) }"

definition PlusLessEqual :: "bignum \<Rightarrow> bignum \<Rightarrow> bignum \<Rightarrow> bool result" where
  "PlusLessEqual a b c = do { r \<leftarrow> PlusCompare a b c; Some (r \<le> 0) }"

definition PlusLess :: "bignum \<Rightarrow> bignum \<Rightarrow> bignum \<Rightarrow> bool result" where
  "PlusLess a b c = do { r \<leftarrow> PlusCompare a b c; Some (r < 0) }"

declare Compare_loop.simps [simp del] PlusCompare_loop.simps [simp del] PlusCompare.simps [simp del]

section \<open>Subtraction\<close>

definition SubtractBignum :: "bignum \<Rightarrow> bignum \<Rightarrow> bignum result" where
  "SubtractBignum a other = do {
     assert_clamped a;
     assert_clamped other;
     le \<leftarrow> LessEqual other a;
     check le;
     a \<leftarrow> Align a other;
     let offset = exponent other - exponent a;
     (xs, borrow) \<leftarrow> for_up 0 (used_digits other)
       (\<lambda>i (xs, borrow). do {
          check (borrow = 0 \<or> borrow = 1);
          x \<leftarrow> vget xs (i + offset);
          y \<leftarrow> vget (bigits other) i;
          let difference = x - y - borrow;
          xs \<leftarrow> vset xs (i + offset) (difference AND kBigitMask);
          Some (xs, drop_bit (kChunkSize - 1) difference) })
       (bigits a, 0);
     (xs, borrow, i) \<leftarrow> while_loop (\<lambda>(xs, borrow, i). Some (borrow \<noteq> 0))
       (\<lambda>(xs, borrow, i). do {
          x \<leftarrow> vget xs (i + offset);
          let difference = x - borrow;
          xs \<leftarrow> vset xs (i + offset) (difference AND kBigitMask);
          Some (xs, drop_bit (kChunkSize - 1) difference, i + 1) })
       (xs, borrow, used_digits other);
     Clamp (a\<lparr>bigits := xs\<rparr>)
   }"

section \<open>Shifts and multiplication\<close>

definition BigitsShiftLeft :: "bignum \<Rightarrow> nat \<Rightarrow> bignum result" where
  "BigitsShiftLeft a shift_amount = do {
     check (shift_amount < kBigitSize);
     (xs, carry) \<leftarrow> for_up 0 (used_digits a)
       (\<lambda>i (xs, carry). do {
          x \<leftarrow> vget xs i;
          let new_carry = drop_bit (kBigitSize - shift_amount) x;
          xs \<leftarrow> vset xs i ((push_bit shift_amount x + carry) AND kBigitMask);
          Some (xs, new_carry) })
       (bigits a, 0);
     if carry \<noteq> 0 then do {
       xs \<leftarrow> vset xs (used_digits a) carry;
       Some (a\<lparr>bigits := xs, used_digits := used_digits a + 1\<rparr>)
     } else Some (a\<lparr>bigits := xs\<rparr>)
   }"

definition ShiftLeft :: "bignum \<Rightarrow> nat \<Rightarrow> bignum result" where
  "ShiftLeft a shift_amount =
     (if used_digits a = 0 then Some a
      else do {
        let a = a\<lparr>exponent := exponent a + shift_amount div kBigitSize\<rparr>;
        EnsureCapacity (used_digits a + 1);
        BigitsShiftLeft a (shift_amount mod kBigitSize)
      })"

text \<open>The loop that ends both multiplications: the carry becomes new digits.\<close>

definition append_carry :: "bignum \<Rightarrow> Chunk list \<Rightarrow> DoubleChunk \<Rightarrow> bignum result" where
  "append_carry a xs carry = do {
     (a, carry) \<leftarrow> while_loop (\<lambda>(a, carry). Some (carry \<noteq> 0))
       (\<lambda>(a, carry). do {
          EnsureCapacity (used_digits a + 1);
          xs \<leftarrow> vset (bigits a) (used_digits a) (ucast (carry AND ucast kBigitMask));
          Some (a\<lparr>bigits := xs, used_digits := used_digits a + 1\<rparr>, drop_bit kBigitSize carry) })
       (a\<lparr>bigits := xs\<rparr>, carry);
     Some a
   }"

definition MultiplyByUInt32 :: "bignum \<Rightarrow> uint32 \<Rightarrow> bignum result" where
  "MultiplyByUInt32 a factor =
     (if factor = 1 then Some a
      else if factor = 0 then Zero a
      else if used_digits a = 0 then Some a
      else do {
        (xs, carry) \<leftarrow> for_up 0 (used_digits a)
          (\<lambda>i (xs, carry). do {
             x \<leftarrow> vget xs i;
             let product = (ucast factor :: DoubleChunk) * ucast x + carry;
             xs \<leftarrow> vset xs i (ucast (product AND ucast kBigitMask));
             Some (xs, drop_bit kBigitSize product) })
          (bigits a, 0);
        append_carry a xs carry
      })"

definition MultiplyByUInt64 :: "bignum \<Rightarrow> uint64 \<Rightarrow> bignum result" where
  "MultiplyByUInt64 a factor =
     (if factor = 1 then Some a
      else if factor = 0 then Zero a
      else do {
        let low = factor AND 0xFFFFFFFF;
        let high = drop_bit 32 factor;
        (xs, carry) \<leftarrow> for_up 0 (used_digits a)
          (\<lambda>i (xs, carry). do {
             x \<leftarrow> vget xs i;
             let product_low = low * ucast x;
             let product_high = high * ucast x;
             let tmp = (carry AND ucast kBigitMask) + product_low;
             xs \<leftarrow> vset xs i (ucast (tmp AND ucast kBigitMask));
             Some (xs, drop_bit kBigitSize carry + drop_bit kBigitSize tmp
                       + push_bit (32 - kBigitSize) product_high) })
          (bigits a, 0);
        append_carry a xs carry
      })"

definition Times10 :: "bignum \<Rightarrow> bignum result" where
  "Times10 a = MultiplyByUInt32 a 10"

definition kFive27 :: uint64 where
  "kFive27 = 0x6765c793fa10079d"

definition kFive13 :: uint32 where
  "kFive13 = 244140625 * 5"

definition kFive1_to_12 :: "uint32 list" where
  "kFive1_to_12 =
     [5, 25, 125, 625, 3125, 15625, 78125, 390625, 1953125, 9765625, 48828125, 244140625]"

definition MultiplyByPowerOfTen :: "bignum \<Rightarrow> nat \<Rightarrow> bignum result" where
  "MultiplyByPowerOfTen a e =
     (if e = 0 then Some a
      else if used_digits a = 0 then Some a
      else do {
        (a, remaining_exponent) \<leftarrow> while_loop
          (\<lambda>(a, remaining_exponent). Some (remaining_exponent \<ge> 27))
          (\<lambda>(a, remaining_exponent). do {
             a \<leftarrow> MultiplyByUInt64 a kFive27; Some (a, remaining_exponent - 27) })
          (a, e);
        (a, remaining_exponent) \<leftarrow> while_loop
          (\<lambda>(a, remaining_exponent). Some (remaining_exponent \<ge> 13))
          (\<lambda>(a, remaining_exponent). do {
             a \<leftarrow> MultiplyByUInt32 a kFive13; Some (a, remaining_exponent - 13) })
          (a, remaining_exponent);
        a \<leftarrow> (if remaining_exponent > 0 then do {
                f \<leftarrow> vget kFive1_to_12 (remaining_exponent - 1);
                MultiplyByUInt32 a f
              } else Some a);
        ShiftLeft a e
      })"

text \<open>
  The two column loops of \<open>Square\<close>, each with the inner loop that sums the products of one
  column. The digits were copied to \<open>copy_offset\<close> before.
\<close>

definition square_product :: "Chunk list \<Rightarrow> nat \<Rightarrow> nat \<Rightarrow> nat \<Rightarrow> DoubleChunk result" where
  "square_product xs copy_offset bigit_index1 bigit_index2 = do {
     chunk1 \<leftarrow> vget xs (copy_offset + bigit_index1);
     chunk2 \<leftarrow> vget xs (copy_offset + bigit_index2);
     Some (ucast chunk1 * ucast chunk2)
   }"

definition square_low_column :: "nat \<Rightarrow> Chunk list \<Rightarrow> nat \<Rightarrow> DoubleChunk \<Rightarrow> DoubleChunk result" where
  "square_low_column copy_offset xs i accumulator =
     \<comment> \<open>\<open>while (bigit_index1 >= 0)\<close>, with \<open>bigit_index1 = i - bigit_index2\<close>\<close>
     for_up 0 (i + 1)
       (\<lambda>bigit_index2 accumulator. do {
          p \<leftarrow> square_product xs copy_offset (i - bigit_index2) bigit_index2;
          Some (accumulator + p) }) accumulator"

definition square_high_column ::
  "nat \<Rightarrow> nat \<Rightarrow> Chunk list \<Rightarrow> nat \<Rightarrow> DoubleChunk \<Rightarrow> DoubleChunk result" where
  "square_high_column used copy_offset xs i accumulator =
     \<comment> \<open>\<open>while (bigit_index2 < used_digits_)\<close>, with \<open>bigit_index1 = i - bigit_index2\<close>\<close>
     for_up (i - (used - 1)) used
       (\<lambda>bigit_index2 accumulator. do {
          p \<leftarrow> square_product xs copy_offset (i - bigit_index2) bigit_index2;
          Some (accumulator + p) }) accumulator"

definition store_column ::
  "(Chunk list \<Rightarrow> nat \<Rightarrow> DoubleChunk \<Rightarrow> DoubleChunk result) \<Rightarrow> nat \<Rightarrow> Chunk list \<times> DoubleChunk \<Rightarrow>
   (Chunk list \<times> DoubleChunk) result" where
  "store_column column i = (\<lambda>(xs, accumulator). do {
     accumulator \<leftarrow> column xs i accumulator;
     xs \<leftarrow> vset xs i (ucast accumulator AND kBigitMask);
     Some (xs, drop_bit kBigitSize accumulator) })"

definition Square :: "bignum \<Rightarrow> bignum result" where
  "Square a = do {
     assert_clamped a;
     let used = used_digits a;
     let product_length = 2 * used;
     EnsureCapacity product_length;
     check (\<not> 2 ^ (2 * (kChunkSize - kBigitSize)) \<le> used);
     let copy_offset = used;
     xs \<leftarrow> for_up 0 used
       (\<lambda>i xs. do { x \<leftarrow> vget xs i; vset xs (copy_offset + i) x }) (bigits a);
     (xs, accumulator) \<leftarrow> for_up 0 used
       (store_column (square_low_column copy_offset)) (xs, 0);
     (xs, accumulator) \<leftarrow> for_up used product_length
       (store_column (square_high_column used copy_offset)) (xs, accumulator);
     check (accumulator = 0);
     Clamp (a\<lparr>bigits := xs, used_digits := product_length, exponent := exponent a * 2\<rparr>)
   }"

section \<open>Powers\<close>

text \<open>
  \<open>AssignPowerUInt16\<close> keeps \<open>mask\<close> and \<open>tmp_base\<close> in an \<open>int\<close>. Shifting \<open>mask\<close> past
  the range of \<open>int\<close> would be undefined, so each such shift is checked.
\<close>

definition power_odd_part :: "uint16 \<Rightarrow> (uint16 \<times> nat) result" where
  "power_odd_part base = while_loop (\<lambda>(base, shifts). Some (base AND 1 = 0))
     (\<lambda>(base, shifts). Some (drop_bit 1 base, shifts + 1)) (base, 0)"

definition power_bit_size :: "uint16 \<Rightarrow> nat result" where
  "power_bit_size base = do {
     (tmp_base, bit_size) \<leftarrow> while_loop (\<lambda>(tmp_base, bit_size). Some (tmp_base \<noteq> 0))
       (\<lambda>(tmp_base, bit_size). Some (tmp_base div 2, bit_size + 1)) (unat base, 0);
     Some bit_size
   }"

definition power_top_mask :: "nat \<Rightarrow> nat result" where
  "power_top_mask power_exponent = while_loop (\<lambda>mask. Some (power_exponent \<ge> mask))
     (\<lambda>mask. do { check (mask * 2 < 2 ^ 31); Some (mask * 2) }) 1"

definition power_uint64_step ::
  "uint16 \<Rightarrow> nat \<Rightarrow> nat \<Rightarrow> uint64 \<times> bool \<times> nat \<Rightarrow> uint64 \<times> bool \<times> nat" where
  "power_uint64_step base bit_size power_exponent = (\<lambda>(this_value, delayed, mask).
     let this_value = this_value * this_value in
     if power_exponent AND mask \<noteq> 0 then
       (let base_bits_mask = NOT (push_bit (64 - bit_size) (1 :: uint64) - 1) in
        if this_value AND base_bits_mask = 0 then (this_value * ucast base, delayed, mask div 2)
        else (this_value, True, mask div 2))
     else (this_value, delayed, mask div 2))"

definition AssignPowerUInt16 :: "bignum \<Rightarrow> uint16 \<Rightarrow> nat \<Rightarrow> bignum result" where
  "AssignPowerUInt16 a base power_exponent = do {
     check (base \<noteq> 0);
     if power_exponent = 0 then AssignUInt16 a 1
     else do {
       a \<leftarrow> Zero a;
       (base, shifts) \<leftarrow> power_odd_part base;
       bit_size \<leftarrow> power_bit_size base;
       let final_size = bit_size * power_exponent;
       EnsureCapacity (final_size div kBigitSize + 2);
       mask \<leftarrow> power_top_mask power_exponent;
       let mask = mask div 4;
       (this_value, delayed_multipliciation, mask) \<leftarrow> while_loop
         (\<lambda>(this_value, delayed, mask). Some (mask \<noteq> 0 \<and> this_value \<le> 0xFFFFFFFF))
         (\<lambda>s. Some (power_uint64_step base bit_size power_exponent s))
         (ucast base, False, mask);
       a \<leftarrow> AssignUInt64 a this_value;
       a \<leftarrow> (if delayed_multipliciation then MultiplyByUInt32 a (ucast base) else Some a);
       (a, mask) \<leftarrow> while_loop (\<lambda>(a, mask). Some (mask \<noteq> 0))
         (\<lambda>(a, mask). do {
            a \<leftarrow> Square a;
            a \<leftarrow> (if power_exponent AND mask \<noteq> 0 then MultiplyByUInt32 a (ucast base)
                  else Some a);
            Some (a, mask div 2) }) (a, mask);
       ShiftLeft a (shifts * power_exponent)
     }
   }"

section \<open>Division\<close>

definition SubtractTimes :: "bignum \<Rightarrow> bignum \<Rightarrow> nat \<Rightarrow> bignum result" where
  "SubtractTimes a other factor = do {
     check (exponent a \<le> exponent other);
     if factor < 3 then for_up 0 factor (\<lambda>i a. SubtractBignum a other) a
     else do {
       let exponent_diff = exponent other - exponent a;
       (xs, borrow) \<leftarrow> for_up 0 (used_digits other)
         (\<lambda>i (xs, borrow). do {
            y \<leftarrow> vget (bigits other) i;
            let product = (of_nat factor :: DoubleChunk) * ucast y;
            let remove = ucast borrow + product;
            x \<leftarrow> vget xs (i + exponent_diff);
            let difference = x - ucast (remove AND ucast kBigitMask);
            xs \<leftarrow> vset xs (i + exponent_diff) (difference AND kBigitMask);
            Some (xs, ucast (ucast (drop_bit (kChunkSize - 1) difference)
                             + drop_bit kBigitSize remove)) })
         (bigits a, 0 :: Chunk);
       \<comment> \<open>the second loop returns at once when \<open>borrow\<close> is zero\<close>
       (xs, borrow, i) \<leftarrow> while_loop
         (\<lambda>(xs, borrow, i). Some (i < used_digits a \<and> borrow \<noteq> 0))
         (\<lambda>(xs, borrow, i). do {
            x \<leftarrow> vget xs i;
            let difference = x - borrow;
            xs \<leftarrow> vset xs i (difference AND kBigitMask);
            Some (xs, drop_bit (kChunkSize - 1) difference, i + 1) })
         (xs, borrow, used_digits other + exponent_diff);
       if i < used_digits a then Some (a\<lparr>bigits := xs\<rparr>) else Clamp (a\<lparr>bigits := xs\<rparr>)
     }
   }"

definition DivideModuloIntBignum :: "bignum \<Rightarrow> bignum \<Rightarrow> (uint16 \<times> bignum) result" where
  "DivideModuloIntBignum a other = do {
     assert_clamped a;
     assert_clamped other;
     check (used_digits other > 0);
     if BigitLength a < BigitLength other then Some (0, a)
     else do {
       a \<leftarrow> Align a other;
       other_bigit \<leftarrow> vget (bigits other) (used_digits other - 1);
       (a, result) \<leftarrow> while_loop (\<lambda>(a, result). Some (BigitLength a > BigitLength other))
         (\<lambda>(a, result). do {
            check (other_bigit \<ge> push_bit kBigitSize 1 div 16);
            check (used_digits a > 0);
            x \<leftarrow> vget (bigits a) (used_digits a - 1);
            check (x < 0x10000);
            a \<leftarrow> SubtractTimes a other (unat x);
            Some (a, result + ucast x) }) (a, 0);
       check (BigitLength a = BigitLength other);
       check (used_digits a > 0);
       this_bigit \<leftarrow> vget (bigits a) (used_digits a - 1);
       if used_digits other = 1 then do {
         let quotient = this_bigit div other_bigit;
         xs \<leftarrow> vset (bigits a) (used_digits a - 1) (this_bigit - other_bigit * quotient);
         check (quotient < 0x10000);
         a \<leftarrow> Clamp (a\<lparr>bigits := xs\<rparr>);
         Some (result + ucast quotient, a)
       } else do {
         let division_estimate = this_bigit div (other_bigit + 1);
         check (division_estimate < 0x10000);
         let result = result + ucast division_estimate;
         a \<leftarrow> SubtractTimes a other (unat division_estimate);
         if other_bigit * (division_estimate + 1) > this_bigit then Some (result, a)
         else do {
           (a, result) \<leftarrow> while_loop (\<lambda>(a, result). LessEqual other a)
             (\<lambda>(a, result). do { a \<leftarrow> SubtractBignum a other; Some (a, result + 1) })
             (a, result);
           Some (result, a)
         }
       }
     }
   }"

section \<open>Decimal and hexadecimal strings\<close>

definition AssignDecimalString :: "bignum \<Rightarrow> string \<Rightarrow> bignum result" where
  "AssignDecimalString a value = do {
     a \<leftarrow> Zero a;
     (a, pos, len) \<leftarrow> while_loop (\<lambda>(a, pos, len). Some (len \<ge> 19))
       (\<lambda>(a, pos, len). do {
          digits \<leftarrow> ReadUInt64 value pos 19;
          a \<leftarrow> MultiplyByPowerOfTen a 19;
          a \<leftarrow> AddUInt64 a digits;
          Some (a, pos + 19, len - 19) }) (a, 0, length value);
     digits \<leftarrow> ReadUInt64 value pos len;
     a \<leftarrow> MultiplyByPowerOfTen a len;
     a \<leftarrow> AddUInt64 a digits;
     Clamp a
   }"

definition SizeInHexChars :: "Chunk \<Rightarrow> nat result" where
  "SizeInHexChars number = do {
     check (number > 0);
     (_, result) \<leftarrow> while_loop (\<lambda>(number, result). Some (number \<noteq> 0))
       (\<lambda>(number, result). Some (drop_bit 4 number, result + 1)) (number, 0);
     Some result
   }"

definition HexCharOfValue :: "uint32 \<Rightarrow> char result" where
  "HexCharOfValue value = do {
     check (value \<le> 16);
     Some (if value < 10 then char_of (unat value + of_char CHR ''0'')
           else char_of (unat value - 10 + of_char CHR ''A''))
   }"

text \<open>
  \<open>buffer[string_index--] = c\<close>: the model keeps \<open>string_index + 1\<close>, and a write at index
  \<open>-1\<close> or past the end of the caller's buffer fails.
\<close>

definition put_hex :: "char \<Rightarrow> string \<times> nat \<Rightarrow> (string \<times> nat) result" where
  "put_hex c = (\<lambda>(buffer, n). do {
     check (n > 0);
     buffer \<leftarrow> vset buffer (n - 1) c;
     Some (buffer, n - 1) })"

definition ToHexString :: "bignum \<Rightarrow> string \<Rightarrow> (bool \<times> string) result" where
  "ToHexString a buffer = do {
     assert_clamped a;
     let kHexCharsPerBigit = kBigitSize div 4;
     let buffer_size = length buffer;
     if used_digits a = 0 then
       (if buffer_size < 2 then Some (False, buffer)
        else do {
          buffer \<leftarrow> vset buffer 0 CHR ''0'';
          buffer \<leftarrow> vset buffer 1 CHR 0x00;
          Some (True, buffer)
        })
     else do {
       top \<leftarrow> vget (bigits a) (used_digits a - 1);
       n \<leftarrow> SizeInHexChars top;
       let needed_chars = (BigitLength a - 1) * kHexCharsPerBigit + n + 1;
       if needed_chars > buffer_size then Some (False, buffer)
       else do {
         s \<leftarrow> put_hex CHR 0x00 (buffer, needed_chars);
         s \<leftarrow> for_up 0 (exponent a)
           (\<lambda>i s. for_up 0 kHexCharsPerBigit (\<lambda>j s. put_hex CHR ''0'' s) s) s;
         s \<leftarrow> for_up 0 (used_digits a - 1)
           (\<lambda>i s. do {
              current_bigit \<leftarrow> vget (bigits a) i;
              (_, s) \<leftarrow> for_up 0 kHexCharsPerBigit
                (\<lambda>j (current_bigit, s). do {
                   c \<leftarrow> HexCharOfValue (current_bigit AND 0xF);
                   s \<leftarrow> put_hex c s;
                   Some (drop_bit 4 current_bigit, s) }) (current_bigit, s);
              Some s }) s;
         (_, buffer, _) \<leftarrow> while_loop (\<lambda>(most_significant_bigit, s). Some (most_significant_bigit \<noteq> 0))
           (\<lambda>(most_significant_bigit, s). do {
              c \<leftarrow> HexCharOfValue (most_significant_bigit AND 0xF);
              s \<leftarrow> put_hex c s;
              Some (drop_bit 4 most_significant_bigit, s) }) (top, s);
         Some (True, buffer)
       }
     }
   }"

end
