(* ===== verification/Bignum_Laws.thy ===== *)
theory Bignum_Laws
  imports Bignum
begin

text \<open>
  What a \<open>Bignum\<close> represents, the representation invariant, and the operations that assign, align, clamp,
  compare, add, subtract and shift: each returns without a failed assertion, keeps the invariant
  and computes the operation on natural numbers that its name says.
\<close>

section \<open>The value of a digit vector\<close>

definition bbase :: nat where
  "bbase = 2 ^ 28"

lemma bbase_pos [simp]: "0 < bbase" and bbase_gt_1 [simp]: "1 < bbase" and bbase_ge_2: "2 \<le> bbase"
  and bbase_not_0 [simp]: "bbase \<noteq> 0" and Suc_0_le_bbase [simp]: "Suc 0 \<le> bbase"
  and Suc_0_less_bbase: "Suc 0 < bbase"
  by (simp_all add: bbase_def)

fun bigits_val :: "Chunk list \<Rightarrow> nat" where
  "bigits_val [] = 0"
| "bigits_val (x # xs) = unat x + bbase * bigits_val xs"

definition is_bigits :: "Chunk list \<Rightarrow> bool" where
  "is_bigits xs \<longleftrightarrow> (\<forall>x \<in> set xs. unat x < bbase)"

definition zero_from :: "nat \<Rightarrow> Chunk list \<Rightarrow> bool" where
  "zero_from n xs \<longleftrightarrow> (\<forall>i. n \<le> i \<longrightarrow> i < length xs \<longrightarrow> xs ! i = 0)"

lemma is_bigits_nth: "is_bigits xs \<Longrightarrow> i < length xs \<Longrightarrow> unat (xs ! i) < bbase"
  by (simp add: is_bigits_def)

lemma is_bigits_update: "is_bigits xs \<Longrightarrow> unat v < bbase \<Longrightarrow> is_bigits (xs[i := v])"
  by (auto simp: is_bigits_def dest!: set_update_subset_insert [THEN subsetD])

lemma zero_from_update:
  "zero_from n xs \<Longrightarrow> n \<le> m \<Longrightarrow> i < m \<or> v = 0 \<Longrightarrow> zero_from m (xs[i := v])"
  unfolding zero_from_def
  by (metis length_list_update linorder_not_less nth_list_update_eq nth_list_update_neq order_trans)

lemma zero_from_mono: "zero_from n xs \<Longrightarrow> n \<le> m \<Longrightarrow> zero_from m xs"
  by (auto simp: zero_from_def)

lemma zero_from_shrink: "zero_from (Suc n) xs \<Longrightarrow> xs ! n = 0 \<Longrightarrow> zero_from n xs"
  unfolding zero_from_def by (metis Suc_leI le_neq_implies_less)

lemma bigits_val_append: "bigits_val (xs @ ys) = bigits_val xs + bbase ^ length xs * bigits_val ys"
  by (induction xs) (auto simp: algebra_simps)

lemma bigits_val_replicate [simp]: "bigits_val (replicate n 0) = 0"
  by (induction n) auto

lemma bigits_val_bound: "is_bigits xs \<Longrightarrow> bigits_val xs < bbase ^ length xs"
proof (induction xs)
  case (Cons x xs)
  then have "unat x + 1 \<le> bbase" "bigits_val xs + 1 \<le> bbase ^ length xs"
    by (auto simp: is_bigits_def)
  then have "unat x + 1 + bbase * bigits_val xs \<le> bbase * (bigits_val xs + 1)"
    and "bbase * (bigits_val xs + 1) \<le> bbase * bbase ^ length xs"
    by (simp, simp only: mult_le_mono2)
  then show ?case by simp
qed simp

lemma bigits_val_update:
  "i < length xs \<Longrightarrow>
   bigits_val (xs[i := v]) + unat (xs ! i) * bbase ^ i = bigits_val xs + unat v * bbase ^ i"
proof (induction xs arbitrary: i)
  case (Cons x xs)
  show ?case
  proof (cases i)
    case (Suc j)
    with Cons.prems Cons.IH[of j]
    have "bbase * (bigits_val (xs[j := v]) + unat (xs ! j) * bbase ^ j)
        = bbase * (bigits_val xs + unat v * bbase ^ j)" by simp
    with Suc show ?thesis by (simp add: algebra_simps)
  qed simp
qed simp

lemma bigits_val_zero_from: "zero_from n xs \<Longrightarrow> bigits_val xs = bigits_val (take n xs)"
proof -
  assume z: "zero_from n xs"
  have "drop n xs = replicate (length xs - n) 0"
    using z by (auto simp: zero_from_def intro!: nth_equalityI)
  then have "bigits_val xs = bigits_val (take n xs @ replicate (length xs - n) 0)"
    by (metis append_take_drop_id)
  then show ?thesis by (simp add: bigits_val_append)
qed

lemma is_bigits_take: "is_bigits xs \<Longrightarrow> is_bigits (take n xs)"
  by (auto simp: is_bigits_def dest: in_set_takeD)

lemma is_bigits_drop: "is_bigits xs \<Longrightarrow> is_bigits (drop n xs)"
  by (auto simp: is_bigits_def dest: in_set_dropD)

lemma bigits_val_less: "is_bigits xs \<Longrightarrow> zero_from n xs \<Longrightarrow> bigits_val xs < bbase ^ n"
  using bigits_val_bound [of "take n xs"]
  by (simp add: bigits_val_zero_from is_bigits_take)
    (meson bbase_gt_1 le_less_trans less_imp_le less_le_trans min.cobounded2 power_increasing
      nat_less_le)

lemma bigits_val_take_Suc:
  "n < length xs \<Longrightarrow> bigits_val (take (Suc n) xs) = bigits_val (take n xs) + unat (xs ! n) * bbase ^ n"
  by (simp add: take_Suc_conv_app_nth bigits_val_append algebra_simps)

lemma bigits_val_ge: "n < length xs \<Longrightarrow> unat (xs ! n) * bbase ^ n \<le> bigits_val xs"
proof -
  assume n: "n < length xs"
  have "bigits_val xs = bigits_val (take (Suc n) xs @ drop (Suc n) xs)" by simp
  then show ?thesis
    using n by (simp only: bigits_val_append bigits_val_take_Suc)
qed

lemma zero_from_top:
  assumes "is_bigits xs" "zero_from (Suc n) xs" "n < length xs" "bbase ^ n \<le> bigits_val xs"
  shows "xs ! n \<noteq> 0"
proof
  assume "xs ! n = 0"
  with assms have "bigits_val xs < bbase ^ n"
    by (intro bigits_val_less) (auto intro: zero_from_shrink)
  with assms show False by simp
qed

section \<open>The invariant\<close>

text \<open>
  \<open>bignum_raw\<close> is what every operation relies on: all 128 chunks hold bigits, and the ones that are
  not used are zero (addition and multiplication write into them without clearing them first).
  \<open>bignum_inv\<close> adds that the number is clamped, and that zero has the exponent zero.
\<close>

definition bignum_raw :: "bignum \<Rightarrow> bool" where
  "bignum_raw a \<longleftrightarrow> length (bigits a) = kBigitCapacity \<and> used_digits a \<le> kBigitCapacity \<and>
     is_bigits (bigits a) \<and> zero_from (used_digits a) (bigits a)"

definition bignum_inv :: "bignum \<Rightarrow> bool" where
  "bignum_inv a \<longleftrightarrow> bignum_raw a \<and>
     (if used_digits a = 0 then exponent a = 0 else bigits a ! (used_digits a - 1) \<noteq> 0)"

definition bignum_val :: "bignum \<Rightarrow> nat" where
  "bignum_val a = bigits_val (bigits a) * bbase ^ exponent a"

lemma bignum_inv_raw: "bignum_inv a \<Longrightarrow> bignum_raw a"
  by (simp add: bignum_inv_def)

lemma bignum_raw_bound: "bignum_raw a \<Longrightarrow> bigits_val (bigits a) < bbase ^ used_digits a"
  by (simp add: bignum_raw_def bigits_val_less)

lemma bignum_inv_ge:
  assumes "bignum_inv a" "0 < used_digits a"
  shows "bbase ^ (used_digits a - 1) \<le> bigits_val (bigits a)"
proof -
  have "bigits a ! (used_digits a - 1) \<noteq> 0" "used_digits a - 1 < length (bigits a)"
    using assms by (auto simp: bignum_inv_def bignum_raw_def)
  then have "1 * bbase ^ (used_digits a - 1) \<le> unat (bigits a ! (used_digits a - 1)) * bbase ^ (used_digits a - 1)"
    by (intro mult_le_mono1) (simp add: Suc_leI unat_gt_0)
  then show ?thesis
    using bigits_val_ge [of "used_digits a - 1" "bigits a"] \<open>used_digits a - 1 < length (bigits a)\<close>
    by linarith
qed

lemma bignum_val_less: "bignum_raw a \<Longrightarrow> bignum_val a < bbase ^ BigitLength a"
  by (simp add: bignum_val_def BigitLength_def power_add bignum_raw_bound)

lemma bignum_val_ge: "bignum_inv a \<Longrightarrow> 0 < used_digits a \<Longrightarrow> bbase ^ (BigitLength a - 1) \<le> bignum_val a"
  using bignum_inv_ge [of a]
  by (simp add: bignum_val_def BigitLength_def power_add [symmetric])
    (metis (no_types, lifting) Nat.add_diff_assoc2 Suc_leI One_nat_def mult_le_mono1 power_add)

lemma used_digits_0_iff: "bignum_inv a \<Longrightarrow> used_digits a = 0 \<longleftrightarrow> bignum_val a = 0"
proof
  assume "bignum_inv a" "used_digits a = 0"
  then show "bignum_val a = 0"
    using bignum_raw_bound [of a] by (simp add: bignum_val_def bignum_inv_def)
next
  assume a: "bignum_inv a" "bignum_val a = 0"
  show "used_digits a = 0"
  proof (rule ccontr)
    assume "used_digits a \<noteq> 0"
    with a have "bbase ^ (BigitLength a - 1) \<le> 0" using bignum_val_ge [of a] by simp
    then show False by simp
  qed
qed

lemma bignum_inv_new [simp]: "bignum_inv new_bignum" and bignum_val_new [simp]: "bignum_val new_bignum = 0"
  by (simp_all add: bignum_inv_def bignum_raw_def new_bignum_def bignum_val_def is_bigits_def
      zero_from_def)

lemma returns_EnsureCapacity [wp]: "returns (EnsureCapacity n) P \<longleftrightarrow> n \<le> 128 \<and> P ()"
  by (auto simp: EnsureCapacity_def wp)

lemma returns_assert_clamped: "bignum_inv a \<Longrightarrow> returns (assert_clamped a) P \<longleftrightarrow> P ()"
  by (auto simp: assert_clamped_def IsClamped_def bignum_inv_def bignum_raw_def wp)

lemma kBigitMask_mask: "kBigitMask = mask 28"
  by (simp add: kBigitMask_def mask_eq_exp_minus_1)

lemma unat_and_kBigitMask [word_nat]: "unat (w AND kBigitMask) = unat w mod bbase"
  by (simp only: kBigitMask_mask unat_and_mask bbase_def)

lemma unat_drop_bigit [word_nat]: "unat (drop_bit 28 w) = unat w div bbase"
  for w :: "'a::len word"
  by (simp only: unat_drop_bit bbase_def)

lemma ucast_kBigitMask: "ucast kBigitMask = (mask 28 :: uint64)"
  by (simp add: kBigitMask_def mask_eq_exp_minus_1)

lemma unat_and_ucast_mask [word_nat]: "unat (w AND ucast kBigitMask) = unat w mod bbase" for w :: uint64
  by (simp only: ucast_kBigitMask unat_and_mask bbase_def)

lemma unat_ucast_chunk [word_nat]: "unat (ucast x :: uint64) = unat x" for x :: uint32
  using unsigned_less [of x, where ?'a = nat] by (simp add: unsigned_ucast_eq take_bit_eq_mod)

lemma unat_ucast_mask [word_nat]:
  "unat (ucast (w AND ucast kBigitMask) :: Chunk) = unat w mod bbase" for w :: uint64
proof -
  have "unat w mod bbase < 2 ^ 32"
    using mod_less_divisor [OF bbase_pos, of "unat w"] by (simp add: bbase_def)
  then show ?thesis by (simp add: unsigned_ucast_eq take_bit_eq_mod word_nat)
qed

section \<open>Zero, Clamp, Align\<close>

text \<open>Clearing a range of a vector.\<close>

lemma returns_clear:
  assumes "lo \<le> hi" "hi \<le> length xs"
    and "\<And>ys. length ys = length xs \<Longrightarrow>
      (\<And>j. j < length xs \<Longrightarrow> ys ! j = (if lo \<le> j \<and> j < hi then 0 else xs ! j)) \<Longrightarrow> P ys"
  shows "returns (for_up lo hi (\<lambda>i xs. vset xs i 0) xs) P"
proof (rule returns_for_up [where I = "\<lambda>i ys. length ys = length xs \<and>
    (\<forall>j < length xs. ys ! j = (if lo \<le> j \<and> j < i then 0 else xs ! j))"], goal_cases)
  case (3 i ys)
  with assms show ?case by (auto simp: wp nth_list_update less_Suc_eq)
qed (use assms in auto)

lemma Zero_new: "bignum_raw a \<Longrightarrow> returns (Zero a) (\<lambda>r. r = new_bignum)"
  unfolding Zero_def returns_bind
  by (rule returns_clear)
    (auto simp: bignum_raw_def new_bignum_def zero_from_def wp intro!: bignum.equality nth_equalityI)

text \<open>Any \<open>Bignum\<close> that meets \<open>bignum_raw\<close> is reset by an assignment.\<close>

lemma Clamp_correct:
  assumes "bignum_raw a"
  shows "returns (Clamp a) (\<lambda>r. bignum_inv r \<and> bignum_val r = bignum_val a
     \<and> used_digits r \<le> used_digits a \<and> (used_digits r \<noteq> 0 \<longrightarrow> exponent r = exponent a))"
  unfolding Clamp_def returns_bind
proof (rule returns_while [where I = "\<lambda>n. n \<le> used_digits a \<and> zero_from n (bigits a)"
      and m = "\<lambda>n. n"], goal_cases)
  case 1
  show ?case using assms by (simp add: bignum_raw_def)
next
  case (2 n)
  show ?case
  proof (cases "0 < n \<and> bigits a ! (n - 1) = 0")
    case True
    moreover have "zero_from (n - 1) (bigits a)"
      using True 2 zero_from_shrink [of "n - 1" "bigits a"] by simp
    ultimately show ?thesis using 2 assms by (auto simp: wp bignum_raw_def)
  next
    case False
    have "bigits_val (bigits a) = 0" if "n = 0"
      using that 2 bigits_val_zero_from [of 0 "bigits a"] by simp
    with False 2 assms show ?thesis
      by (auto simp: wp bignum_raw_def bignum_inv_def bignum_val_def)
  qed
qed

lemma Align_shift:
  assumes "length xs = kBigitCapacity" "n + z \<le> kBigitCapacity"
    and "\<And>ys. length ys = kBigitCapacity \<Longrightarrow>
      (\<And>j. j < kBigitCapacity \<Longrightarrow> ys ! j = (if z \<le> j \<and> j < n + z then xs ! (j - z) else xs ! j)) \<Longrightarrow> P ys"
  shows "returns (for_down n 0 (\<lambda>i xs. do { x \<leftarrow> vget xs i; vset xs (i + z) x }) xs) P"
proof (rule returns_for_down [where I = "\<lambda>i ys. length ys = kBigitCapacity \<and>
    (\<forall>j < kBigitCapacity. ys ! j = (if i + z \<le> j \<and> j < n + z then xs ! (j - z) else xs ! j))"], goal_cases)
  case (3 i ys)
  with assms show ?case by (auto simp: wp nth_list_update less_Suc_eq)
qed (use assms in auto)

lemma Align_vector:
  assumes "length xs = kBigitCapacity" "n + z \<le> kBigitCapacity" "zero_from n xs"
  shows "returns (for_down n 0 (\<lambda>i xs. do { x \<leftarrow> vget xs i; vset xs (i + z) x }) xs)
    (\<lambda>xs'. returns (for_up 0 z (\<lambda>i xs. vset xs i 0) xs')
      (\<lambda>ys. ys = replicate z 0 @ take (kBigitCapacity - z) xs))"
proof (rule Align_shift)
  fix xs' :: "Chunk list"
  assume len: "length xs' = kBigitCapacity" and nth: "\<And>j. j < kBigitCapacity \<Longrightarrow>
    xs' ! j = (if z \<le> j \<and> j < n + z then xs ! (j - z) else xs ! j)"
  show "returns (for_up 0 z (\<lambda>i xs. vset xs i 0) xs')
      (\<lambda>ys. ys = replicate z 0 @ take (kBigitCapacity - z) xs)"
  proof (rule returns_clear)
    fix ys :: "Chunk list"
    assume "length ys = length xs'" "\<And>j. j < length xs' \<Longrightarrow> ys ! j = (if 0 \<le> j \<and> j < z then 0 else xs' ! j)"
    with assms len show "ys = replicate z 0 @ take (kBigitCapacity - z) xs"
      by (intro nth_equalityI) (auto simp: nth nth_append zero_from_def)
  qed (use assms len in auto)
qed (use assms in auto)

lemma Align_correct:
  assumes inv: "bignum_inv a" and cap: "exponent a > exponent b \<Longrightarrow> BigitLength a - exponent b \<le> kBigitCapacity"
  shows "returns (Align a b) (\<lambda>r. bignum_inv r \<and> bignum_val r = bignum_val a \<and>
     exponent r = min (exponent a) (exponent b) \<and> BigitLength r = BigitLength a)"
proof (cases "exponent a > exponent b")
  case True
  define z where "z = exponent a - exponent b"
  have used: "0 < used_digits a" "used_digits a + z \<le> 128"
    using True inv cap by (auto simp: bignum_inv_def z_def BigitLength_def split: if_splits)
  have len: "length (bigits a) = 128" and bg: "is_bigits (bigits a)"
    and zero: "zero_from (used_digits a) (bigits a)" and top: "bigits a ! (used_digits a - 1) \<noteq> 0"
    using inv used by (auto simp: bignum_inv_def bignum_raw_def)
  define res where "res = replicate z 0 @ take (128 - z) (bigits a)"
  have res_nth: "res ! j = (if j < z then 0 else bigits a ! (j - z))" if "j < 128" for j
    using that used len by (auto simp: res_def nth_append)
  have len_res: "length res = 128" using used len by (simp add: res_def)
  have bg_res: "is_bigits res"
    using is_bigits_take [OF bg, of "128 - z"] by (auto simp: res_def is_bigits_def)
  have zero_res: "zero_from (used_digits a + z) res"
    using zero len by (auto simp: zero_from_def len_res res_nth)
  have "bigits_val (take (128 - z) (bigits a)) = bigits_val (bigits a)"
    using used zero_from_mono [OF zero, of "128 - z"] bigits_val_zero_from [of "128 - z" "bigits a"]
    by simp
  then have "bigits_val res * bbase ^ (exponent a - z) = bignum_val a"
    using True by (simp add: res_def bigits_val_append bignum_val_def z_def power_add [symmetric])
  moreover have "bignum_inv (a\<lparr>bigits := res, used_digits := used_digits a + z, exponent := exponent a - z\<rparr>)"
    using len_res bg_res zero_res top used by (simp add: bignum_inv_def bignum_raw_def res_nth)
  ultimately have res: "let r = a\<lparr>bigits := res, used_digits := used_digits a + z, exponent := exponent a - z\<rparr> in
    bignum_inv r \<and> bignum_val r = bignum_val a \<and> exponent r = min (exponent a) (exponent b) \<and>
    BigitLength r = BigitLength a" (is "?Q res")
    using True by (simp add: Let_def bignum_val_def BigitLength_def z_def)
  have "returns (for_down (used_digits a) 0 (\<lambda>i xs. do { x \<leftarrow> vget xs i; vset xs (i + z) x }) (bigits a))
    (\<lambda>xs'. returns (for_up 0 z (\<lambda>i xs. vset xs i 0) xs') ?Q)"
    by (rule returns_mono [OF Align_vector [OF len used(2) zero]], erule returns_mono)
      (use res in \<open>simp add: res_def\<close>)
  with True used show ?thesis
    unfolding Align_def by (simp only: if_True wp Let_def z_def [symmetric])
next
  case False
  with inv show ?thesis by (simp add: Align_def wp)
qed

section \<open>Digits of the value, and comparison\<close>

lemma bigits_val_div: "is_bigits xs \<Longrightarrow> j \<le> length xs \<Longrightarrow> bigits_val xs div bbase ^ j = bigits_val (drop j xs)"
proof -
  assume "is_bigits xs" and j: "j \<le> length xs"
  then have "bigits_val (take j xs) < bbase ^ j"
    using bigits_val_bound [of "take j xs"] by (simp add: is_bigits_take)
  moreover have "bigits_val xs = bigits_val (take j xs) + bbase ^ j * bigits_val (drop j xs)"
    using j bigits_val_append [of "take j xs" "drop j xs"] by simp
  ultimately show ?thesis by simp
qed

lemma bigits_val_digit:
  assumes "is_bigits xs" "j < length xs"
  shows "bigits_val xs div bbase ^ j mod bbase = unat (xs ! j)"
proof -
  have "drop j xs = xs ! j # drop (Suc j) xs" using assms by (simp add: Cons_nth_drop_Suc)
  with assms show ?thesis by (simp add: bigits_val_div is_bigits_nth)
qed

lemma bignum_val_dvd: "n \<le> exponent a \<Longrightarrow> bbase ^ n dvd bignum_val a"
  by (simp add: bignum_val_def le_imp_power_dvd)

lemma BigitAt_correct:
  assumes "bignum_inv a"
  shows "returns (BigitAt a i) (\<lambda>x. unat x = bignum_val a div bbase ^ i mod bbase)"
proof -
  have raw: "bignum_raw a" using assms by (rule bignum_inv_raw)
  consider "BigitLength a \<le> i" | "i < exponent a" | "exponent a \<le> i" "i < BigitLength a" by linarith
  then show ?thesis
  proof cases
    case 1
    then have "bbase ^ BigitLength a \<le> bbase ^ i" by (intro power_increasing) auto
    with bignum_val_less [OF raw] 1 show ?thesis by (simp add: BigitAt_def)
  next
    case 2
    then have "bbase ^ Suc i dvd bignum_val a" by (intro bignum_val_dvd) simp
    then obtain k where "bignum_val a = bbase ^ i * (bbase * k)" by (auto simp: dvd_def ac_simps)
    with 2 show ?thesis by (simp add: BigitAt_def)
  next
    case 3
    define j where "j = i - exponent a"
    have "bignum_val a div bbase ^ i = bigits_val (bigits a) div bbase ^ j"
      using 3 by (simp add: bignum_val_def j_def power_add [symmetric] flip: div_mult2_eq)
        (metis bbase_not_0 div_mult_mult2 le_add_diff_inverse2 power_add power_not_zero)
    with 3 raw show ?thesis
      by (auto simp: BigitAt_def wp bignum_raw_def BigitLength_def j_def bigits_val_digit)
  qed
qed

lemma div_power_Suc_split: "n div b ^ m = n div b ^ Suc m * b + n div b ^ m mod b" for n b :: nat
  by (simp only: power_Suc2 div_mult2_eq div_mult_mod_eq)

lemma div_less_imp_less: "m div k < n div k \<Longrightarrow> m < n" for m n k :: nat
  by (meson div_le_mono leD leI)

lemma Compare_loop_correct:
  assumes "bignum_inv a" "bignum_inv b" "lo \<le> n"
    and "bignum_val a div bbase ^ n = bignum_val b div bbase ^ n"
    and "bbase ^ lo dvd bignum_val a" "bbase ^ lo dvd bignum_val b"
  shows "Compare_loop a b n lo = Some (sgn (int (bignum_val a) - int (bignum_val b)))"
  using assms(3,4)
proof (induction n rule: dec_induct)
  case base
  then have "bignum_val a = bignum_val b"
    using assms(5,6) by (metis dvd_div_eq_cancel)
  then show ?case by (simp add: Compare_loop.simps)
next
  case (step m)
  obtain x y where x: "BigitAt a m = Some x" "unat x = bignum_val a div bbase ^ m mod bbase"
    and y: "BigitAt b m = Some y" "unat y = bignum_val b div bbase ^ m mod bbase"
    using BigitAt_correct [OF assms(1), of m] BigitAt_correct [OF assms(2), of m] by (auto simp: returns_def)
  obtain q where split: "bignum_val a div bbase ^ m = q * bbase + unat x"
    "bignum_val b div bbase ^ m = q * bbase + unat y"
    using step.prems x(2) y(2) div_power_Suc_split by metis
  show ?case
  proof (cases x y rule: linorder_cases)
    case less
    then have "bignum_val a div bbase ^ m < bignum_val b div bbase ^ m"
      by (simp add: split word_less_nat_alt)
    then have "bignum_val a < bignum_val b" by (rule div_less_imp_less)
    with less x(1) y(1) step.hyps show ?thesis by (subst Compare_loop.simps) simp
  next
    case equal
    then have "bignum_val a div bbase ^ m = bignum_val b div bbase ^ m"
      by (metis split)
    then have "Compare_loop a b m lo = Some (sgn (int (bignum_val a) - int (bignum_val b)))"
      by (rule step.IH)
    with equal x(1) y(1) step.hyps show ?thesis by (subst Compare_loop.simps) simp
  next
    case greater
    then have "bignum_val b div bbase ^ m < bignum_val a div bbase ^ m"
      by (simp add: split word_less_nat_alt)
    then have "bignum_val b < bignum_val a" by (rule div_less_imp_less)
    with greater x(1) y(1) step.hyps show ?thesis by (subst Compare_loop.simps) (simp add: not_less_iff_gr_or_eq)
  qed
qed

lemma BigitLength_less_imp:
  assumes "bignum_inv a" "bignum_inv b" "BigitLength a < BigitLength b"
  shows "bignum_val a < bignum_val b"
proof -
  have "0 < used_digits b" using assms by (auto simp: bignum_inv_def BigitLength_def split: if_splits)
  then have "bbase ^ (BigitLength b - 1) \<le> bignum_val b" using assms by (intro bignum_val_ge)
  moreover have "bbase ^ BigitLength a \<le> bbase ^ (BigitLength b - 1)"
    using assms(3) by (intro power_increasing) auto
  ultimately show ?thesis
    using bignum_val_less [OF bignum_inv_raw [OF assms(1)]] by linarith
qed

lemma BigitLength_mono:
  "bignum_inv a \<Longrightarrow> bignum_inv b \<Longrightarrow> bignum_val a \<le> bignum_val b \<Longrightarrow> BigitLength a \<le> BigitLength b"
  using BigitLength_less_imp [of b a] by (meson leD not_le_imp_less)

lemma Compare_correct:
  assumes "bignum_inv a" "bignum_inv b"
  shows "Compare a b = Some (sgn (int (bignum_val a) - int (bignum_val b)))"
proof -
  have asserts: "assert_clamped a = Some ()" "assert_clamped b = Some ()"
    using assms returns_assert_clamped [of _ "\<lambda>_. True"] by (auto simp: returns_def)
  have less: "bignum_val x div bbase ^ BigitLength x = 0" if "bignum_inv x" for x
    using bignum_val_less [OF bignum_inv_raw [OF that]] by simp
  consider "BigitLength a < BigitLength b" | "BigitLength a > BigitLength b"
    | "BigitLength a = BigitLength b" by linarith
  then show ?thesis
  proof cases
    case 3
    have "min (exponent a) (exponent b) \<le> BigitLength a" by (simp add: BigitLength_def)
    with 3 assms less [of a] less [of b]
    have "Compare_loop a b (BigitLength a) (min (exponent a) (exponent b))
      = Some (sgn (int (bignum_val a) - int (bignum_val b)))"
      by (intro Compare_loop_correct) (auto intro: bignum_val_dvd)
    with 3 show ?thesis by (simp add: Compare_def asserts)
  qed (use assms BigitLength_less_imp [of a b] BigitLength_less_imp [of b a]
        in \<open>simp_all add: Compare_def asserts\<close>)
qed

lemma LessEqual_correct:
  "bignum_inv a \<Longrightarrow> bignum_inv b \<Longrightarrow> LessEqual a b = Some (bignum_val a \<le> bignum_val b)"
  by (simp add: LessEqual_def Compare_correct sgn_if)

lemma Less_correct:
  "bignum_inv a \<Longrightarrow> bignum_inv b \<Longrightarrow> Less a b = Some (bignum_val a < bignum_val b)"
  by (simp add: Less_def Compare_correct sgn_if)

lemma Equal_correct:
  "bignum_inv a \<Longrightarrow> bignum_inv b \<Longrightarrow> Equal a b = Some (bignum_val a = bignum_val b)"
  by (simp add: Equal_def Compare_correct sgn_if)

lemma less_Suc_div_mult: "n < (n div k + 1) * k" if "0 < k" for n k :: nat
  using that dividend_less_div_times [of k n] by (simp add: algebra_simps)

text \<open>
  What one digit of \<open>PlusCompare\<close> decides: above digit \<open>m\<close> the number \<open>c\<close> exceeds the sum by
  \<open>r\<close>, and \<open>borrow\<close> is \<open>r\<close> as seen from digit \<open>m\<close>.
\<close>

lemma plus_digit_greater:
  fixes A B C k :: nat
  assumes "A div k + B div k > C div k" "0 < k"
  shows "A + B > C"
proof -
  have "(C div k + 1) * k \<le> (A div k + B div k) * k" using assms(1) by (intro mult_le_mono1) simp
  moreover have "A div k * k \<le> A" "B div k * k \<le> B" by simp_all
  ultimately show ?thesis using less_Suc_div_mult [OF assms(2), of C]
    by (simp only: add_mult_distrib)
qed

lemma plus_digit_less:
  fixes A B C k :: nat
  assumes "A div k + B div k + 2 \<le> C div k" "0 < k"
  shows "A + B < C"
proof -
  have "(A div k + B div k + 2) * k \<le> C div k * k" using assms(1) by (rule mult_le_mono1)
  moreover have "C div k * k \<le> C" by simp
  ultimately show ?thesis
    using less_Suc_div_mult [OF assms(2), of A] less_Suc_div_mult [OF assms(2), of B]
    by (simp only: add_mult_distrib)
qed

lemma PlusCompare_loop_correct:
  assumes inv: "bignum_inv a" "bignum_inv b" "bignum_inv c" and "lo \<le> n"
    and "bignum_val c div bbase ^ n = bignum_val a div bbase ^ n + bignum_val b div bbase ^ n + r"
    and "r \<le> 1" and "unat borrow = r * bbase"
    and dvd: "bbase ^ lo dvd bignum_val a" "bbase ^ lo dvd bignum_val b" "bbase ^ lo dvd bignum_val c"
  shows "PlusCompare_loop a b c n lo borrow
    = Some (sgn (int (bignum_val a) + int (bignum_val b) - int (bignum_val c)))"
  using assms(4-7)
proof (induction n arbitrary: r borrow rule: dec_induct)
  case base
  have "bignum_val c = bignum_val a + bignum_val b + r * bbase ^ lo"
    using base.prems(1) dvd by (metis (no_types, lifting) add_mult_distrib dvd_div_mult_self)
  moreover have "borrow = 0 \<longleftrightarrow> r = 0" using base.prems by (auto simp flip: unat_eq_0_iff)
  moreover have "r = 0 \<or> r = 1" using base.prems(2) by auto
  ultimately show ?case by (subst PlusCompare_loop.simps) (auto simp: sgn_if)
next
  case (step m)
  let ?A = "bignum_val a div bbase ^ m" and ?B = "bignum_val b div bbase ^ m"
    and ?C = "bignum_val c div bbase ^ m"
  obtain x y z where xyz: "BigitAt a m = Some x" "unat x = ?A mod bbase"
    "BigitAt b m = Some y" "unat y = ?B mod bbase" "BigitAt c m = Some z" "unat z = ?C mod bbase"
    using BigitAt_correct [OF inv(1), of m] BigitAt_correct [OF inv(2), of m]
      BigitAt_correct [OF inv(3), of m] by (auto simp: returns_def)
  have "?A = bignum_val a div bbase ^ Suc m * bbase + unat x"
    "?B = bignum_val b div bbase ^ Suc m * bbase + unat y"
    "?C = bignum_val c div bbase ^ Suc m * bbase + unat z"
    using div_power_Suc_split xyz by metis+
  then have eq: "?C + unat x + unat y = ?A + ?B + unat z + unat borrow"
    using step.prems(1,3) by (simp only: add_mult_distrib)
  have small: "unat x < bbase" "unat y < bbase" "unat z < bbase" "unat borrow \<le> bbase"
    using xyz step.prems by auto
  have sum: "unat (x + y) = unat x + unat y" and cb: "unat (z + borrow) = unat z + unat borrow"
    using small by (intro unat_add_small; simp add: bbase_def)+
  show ?case
  proof (cases "x + y > z + borrow")
    case True
    then have "?A + ?B > ?C" using eq sum cb by (simp add: word_less_nat_alt)
    then have "bignum_val a + bignum_val b > bignum_val c" by (rule plus_digit_greater) simp
    with True xyz step.hyps show ?thesis by (subst PlusCompare_loop.simps) (simp add: Let_def)
  next
    case False
    let ?d = "z + borrow - (x + y)"
    have d: "unat ?d = unat z + unat borrow - (unat x + unat y)"
      using False sum cb unat_sub_small [of "x + y" "z + borrow"] by (simp add: word_less_nat_alt)
    with eq False sum cb have Cd: "?C = ?A + ?B + unat ?d" by (simp add: word_less_nat_alt)
    show ?thesis
    proof (cases "?d > 1")
      case True
      then have "?A + ?B + 2 \<le> ?C" using Cd by (simp add: word_less_nat_alt)
      then have "bignum_val a + bignum_val b < bignum_val c" by (rule plus_digit_less) simp
      with True False xyz step.hyps show ?thesis by (subst PlusCompare_loop.simps) (simp add: Let_def)
    next
      case d1: False
      then have "unat ?d \<le> 1" by (simp add: word_less_nat_alt)
      moreover from this have "unat (push_bit 28 ?d) = unat ?d * bbase"
        by (subst unat_push_bit_small) (auto simp: bbase_def)
      ultimately have "PlusCompare_loop a b c m lo (push_bit 28 ?d)
        = Some (sgn (int (bignum_val a) + int (bignum_val b) - int (bignum_val c)))"
        using Cd by (intro step.IH)
      with d1 False xyz step.hyps show ?thesis by (subst PlusCompare_loop.simps) (simp add: Let_def)
    qed
  qed
qed

lemma PlusCompare_correct:
  assumes "bignum_inv a" "bignum_inv b" "bignum_inv c"
  shows "PlusCompare a b c = Some (sgn (int (bignum_val a) + int (bignum_val b) - int (bignum_val c)))"
  using assms
proof (induction a b c rule: PlusCompare.induct)
  case (1 a b c)
  note inv = "1.prems"
  have asserts: "assert_clamped a = Some ()" "assert_clamped b = Some ()" "assert_clamped c = Some ()"
    using inv returns_assert_clamped [of _ "\<lambda>_. True"] by (auto simp: returns_def)
  have less: "bignum_val x < bbase ^ n" if "bignum_inv x" "BigitLength x \<le> n" for x n
    using bignum_val_less [OF bignum_inv_raw [OF that(1)]] power_increasing [OF that(2), of bbase]
    by simp
  have c_ge: "bbase ^ (BigitLength c - 1) \<le> bignum_val c" if "BigitLength c > 0"
    using that inv by (intro bignum_val_ge) (auto simp: bignum_inv_def BigitLength_def split: if_splits)
  show ?case
  proof (cases "BigitLength a < BigitLength b")
    case True
    with "1.IH" [of "()" "()" "()"] inv asserts show ?thesis
      by (subst PlusCompare.simps) (simp add: add.commute)
  next
    case ab: False
    consider "BigitLength a + 1 < BigitLength c" | "BigitLength a > BigitLength c"
      | "exponent a \<ge> BigitLength b" "BigitLength a < BigitLength c" "\<not> BigitLength a + 1 < BigitLength c"
      | "\<not> BigitLength a + 1 < BigitLength c" "\<not> BigitLength a > BigitLength c"
        "\<not> (exponent a \<ge> BigitLength b \<and> BigitLength a < BigitLength c)" by linarith
    then show ?thesis
    proof cases
      case 1
      then have "bbase ^ (BigitLength a + 1) \<le> bignum_val c"
        using c_ge power_increasing [of "BigitLength a + 1" "BigitLength c - 1" bbase]
        by (simp del: power_Suc) linarith
      moreover have "2 * bbase ^ BigitLength a \<le> bbase ^ (BigitLength a + 1)"
        by (simp add: bbase_ge_2)
      moreover have "bignum_val a < bbase ^ BigitLength a" "bignum_val b < bbase ^ BigitLength a"
        using ab by (auto intro: less inv)
      ultimately have "bignum_val a + bignum_val b < bignum_val c" by linarith
      with 1 ab asserts show ?thesis by (subst PlusCompare.simps) simp
    next
      case 2
      then have "bignum_val c < bignum_val a" by (intro BigitLength_less_imp inv)
      with 2 ab asserts show ?thesis by (subst PlusCompare.simps) simp
    next
      case 3
      have "bignum_val b < bbase ^ exponent a" using 3 by (intro less inv)
      moreover have "(bigits_val (bigits a) + 1) * bbase ^ exponent a \<le> bbase ^ used_digits a * bbase ^ exponent a"
        using bignum_raw_bound [OF bignum_inv_raw [OF inv(1)]] by (intro mult_le_mono1) simp
      ultimately have "bignum_val a + bignum_val b < bbase ^ BigitLength a"
        by (simp add: bignum_val_def BigitLength_def power_add)
      also have "\<dots> \<le> bignum_val c"
        using 3 c_ge power_increasing [of "BigitLength a" "BigitLength c - 1" bbase] by simp linarith
      finally have "bignum_val a + bignum_val b < bignum_val c" .
      with 3 ab asserts show ?thesis by (subst PlusCompare.simps) simp
    next
      case 4
      have "PlusCompare_loop a b c (BigitLength c) (min (min (exponent a) (exponent b)) (exponent c)) 0
        = Some (sgn (int (bignum_val a) + int (bignum_val b) - int (bignum_val c)))"
        using 4 ab less [OF inv(1), of "BigitLength c"] less [OF inv(2), of "BigitLength c"]
          less [OF inv(3), of "BigitLength c"]
        by (intro PlusCompare_loop_correct [where r = 0] inv bignum_val_dvd)
          (auto simp: BigitLength_def)
      with 4 ab asserts show ?thesis by (subst PlusCompare.simps) (auto simp del: not_less)
    qed
  qed
qed

end
