(* ===== verification/Bignum_Arith.thy ===== *)
theory Bignum_Arith
  imports Bignum_Laws
begin

text \<open>
  The linear arithmetic of \<open>Bignum\<close>: assignment of machine words, addition, subtraction and shifts.
  Each loop is proved with one invariant, an equation between the value of the whole vector, the
  carry or borrow at the current digit, and the number computed.
\<close>

section \<open>One digit of a carry loop\<close>

lemma bigits_val_carry:
  assumes "p < length xs" "unat d = (unat (xs ! p) + t) mod bbase"
  shows "bigits_val (xs[p := d]) + (unat (xs ! p) + t) div bbase * bbase ^ Suc p
    = bigits_val xs + t * bbase ^ p"
proof -
  let ?s = "unat (xs ! p) + t"
  have "(unat d + ?s div bbase * bbase) * bbase ^ p = ?s * bbase ^ p"
    using assms(2) by simp
  then have "unat d * bbase ^ p + ?s div bbase * bbase ^ Suc p = ?s * bbase ^ p"
    by (simp only: add_mult_distrib mult.assoc power_Suc)
  moreover have "?s * bbase ^ p = unat (xs ! p) * bbase ^ p + t * bbase ^ p"
    by (rule add_mult_distrib)
  ultimately show ?thesis
    using bigits_val_update [OF assms(1), of d] by linarith
qed

lemma bigits_val_borrow:
  assumes "p < length xs" "unat d + t = unat (xs ! p) + b * bbase"
  shows "bigits_val (xs[p := d]) + t * bbase ^ p = bigits_val xs + b * bbase ^ Suc p"
proof -
  have "unat d * bbase ^ p + t * bbase ^ p = unat (xs ! p) * bbase ^ p + b * bbase ^ Suc p"
    using assms(2) by (metis add_mult_distrib mult.assoc power_Suc)
  then show ?thesis using bigits_val_update [OF assms(1), of d] by linarith
qed

lemma pow_bbase_le_iff: "bbase ^ m \<le> bbase ^ n \<longleftrightarrow> m \<le> n"
  by (rule power_increasing_iff) (rule bbase_gt_1)

lemma pow_bbase_less_iff: "bbase ^ m < bbase ^ n \<longleftrightarrow> m < n"
  by (rule power_strict_increasing_iff) (rule bbase_gt_1)

lemma bigits_val_pos_bound:
  assumes "is_bigits xs" "length xs = kBigitCapacity" "bbase ^ p \<le> bigits_val xs"
  shows "p < kBigitCapacity"
proof -
  have "bbase ^ p < bbase ^ kBigitCapacity" using assms bigits_val_bound [of xs] by simp
  then show ?thesis by (simp only: pow_bbase_less_iff)
qed

text \<open>What the number of used digits says about the digits, and back.\<close>

lemma used_digits_le:
  assumes "bignum_inv a" "bigits_val (bigits a) < bbase ^ k"
  shows "used_digits a \<le> k"
proof (rule ccontr)
  assume "\<not> used_digits a \<le> k"
  then have "bbase ^ k \<le> bigits_val (bigits a)"
    using bignum_inv_ge [OF assms(1)] pow_bbase_le_iff [of k "used_digits a - 1"] by linarith
  with assms(2) show False by simp
qed

lemma bignum_inv_intro:
  assumes "length (bigits a) = kBigitCapacity" "is_bigits (bigits a)"
    and "zero_from (used_digits a) (bigits a)" "used_digits a \<le> kBigitCapacity"
    and "used_digits a = 0 \<Longrightarrow> exponent a = 0"
    and "0 < used_digits a \<Longrightarrow> bbase ^ (used_digits a - 1) \<le> bigits_val (bigits a)"
  shows "bignum_inv a"
  using assms zero_from_top [of "bigits a" "used_digits a - 1"]
  by (simp add: bignum_inv_def bignum_raw_def)

section \<open>Assignment of machine words\<close>

lemma AssignUInt16_correct:
  assumes "bignum_raw a"
  shows "returns (AssignUInt16 a v) (\<lambda>r. bignum_inv r \<and> bignum_val r = unat v \<and> exponent r = 0)"
proof -
  define w :: Chunk where "w = ucast v"
  have w: "unat w = unat v" "unat w < bbase" "v \<noteq> 0 \<Longrightarrow> w \<noteq> 0"
    using unsigned_less [of v, where ?'a = nat]
    by (auto simp: w_def unsigned_ucast_eq take_bit_eq_mod bbase_def simp flip: unat_eq_0_iff)
  let ?xs = "(bigits new_bignum)[0 := w]"
  have "is_bigits ?xs"
    by (rule is_bigits_update) (use w in \<open>simp_all add: new_bignum_def is_bigits_def\<close>)
  moreover have "zero_from 1 ?xs" "length ?xs = 128" "bigits_val ?xs = unat v"
    using w bigits_val_update [of 0 "bigits new_bignum" w]
    by (auto simp: new_bignum_def zero_from_def nth_Cons')
  ultimately have "bigits_val ?xs = unat v"
    "v \<noteq> 0 \<Longrightarrow> bignum_inv (new_bignum\<lparr>bigits := ?xs, used_digits := 1\<rparr>)"
    using w by (auto intro!: bignum_inv_intro simp: Suc_leI unat_gt_0 new_bignum_def)
  then show ?thesis
    unfolding AssignUInt16_def wp w_def [symmetric]
    by (auto intro!: returns_mono [OF Zero_new [OF assms]] simp: wp bignum_val_def)
      (auto simp: new_bignum_def)
qed

lemma AssignUInt64_correct:
  assumes "bignum_raw a"
  shows "returns (AssignUInt64 a v) (\<lambda>r. bignum_inv r \<and> bignum_val r = unat v \<and> exponent r = 0
    \<and> used_digits r \<le> 3)"
proof -
  have v: "unat v < bbase ^ 3" using unsigned_less [of v, where ?'a = nat] by (simp add: bbase_def)
  have "returns (for_up 0 (64 div kBigitSize + 1)
         (\<lambda>i (xs, value). do {
            xs \<leftarrow> vset xs i (ucast (value AND ucast kBigitMask));
            Some (xs, drop_bit kBigitSize value) }) (bigits new_bignum, v))
       (\<lambda>(xs, value). returns (Clamp (new_bignum\<lparr>bigits := xs, used_digits := 64 div kBigitSize + 1\<rparr>))
         (\<lambda>r. bignum_inv r \<and> bignum_val r = unat v \<and> exponent r = 0 \<and> used_digits r \<le> 3))"
  proof (rule returns_for_up [where I = "\<lambda>i (xs, value). length xs = 128 \<and> is_bigits xs \<and>
      zero_from i xs \<and> bigits_val xs + unat value * bbase ^ i = unat v"], goal_cases)
    case 2
    show ?case by (simp add: new_bignum_def is_bigits_def zero_from_def)
  next
    case (3 i s)
    obtain xs w where s: "s = (xs, w)" by (cases s)
    define d where "d = (ucast (w AND ucast kBigitMask) :: Chunk)"
    have d: "unat d = unat w mod bbase" by (simp add: d_def unat_ucast_mask)
    have "xs ! i = 0" using 3 s by (auto simp: zero_from_def)
    then have "bigits_val (xs[i := d]) + unat w div bbase * bbase ^ Suc i = bigits_val xs + unat w * bbase ^ i"
      using bigits_val_carry [of i xs d "unat w"] 3 s d by simp
    with 3 s d show ?case
      by (auto simp: wp word_nat d_def [symmetric] intro: is_bigits_update zero_from_update)
  next
    case (4 s)
    obtain xs w where s: "s = (xs, w)" by (cases s)
    let ?r = "new_bignum\<lparr>bigits := xs, used_digits := 64 div kBigitSize + 1\<rparr>"
    have sum: "bigits_val xs + unat w * bbase ^ 3 = unat v" using 4 s by simp
    have "unat w = 0"
    proof (rule ccontr)
      assume "unat w \<noteq> 0"
      then have "1 * bbase ^ 3 \<le> unat w * bbase ^ 3" by (intro mult_le_mono1) simp
      with sum v show False by linarith
    qed
    with sum have "bignum_val ?r = unat v" by (simp add: bignum_val_def new_bignum_def)
    moreover have "bignum_raw ?r" using 4 s by (simp add: bignum_raw_def)
    ultimately show ?case
      using s by (auto intro!: returns_mono [OF Clamp_correct] simp: new_bignum_def bignum_inv_def)
  qed simp
  moreover have "v = 0 \<Longrightarrow> unat v = 0" by simp
  ultimately show ?thesis
    unfolding AssignUInt64_def wp
    by (intro returns_mono [OF Zero_new [OF assms]]) (simp add: wp Let_def case_prod_beta, simp add: new_bignum_def)
qed

section \<open>Addition\<close>

text \<open>One digit of an addition: a bigit, an addend below \<open>2 * bbase\<close>, and the carry out.\<close>

lemma add_digit:
  fixes x t :: Chunk
  assumes "unat x < bbase" "unat t \<le> bbase"
  shows "unat (x + t) = unat x + unat t" "unat ((x + t) AND kBigitMask) = (unat x + unat t) mod bbase"
    "unat (drop_bit 28 (x + t)) = (unat x + unat t) div bbase" "(unat x + unat t) div bbase \<le> 1"
    "unat ((x + t) AND kBigitMask) < bbase"
proof -
  show s: "unat (x + t) = unat x + unat t"
    by (rule unat_add_small) (use assms in \<open>simp add: bbase_def\<close>)
  show "unat ((x + t) AND kBigitMask) = (unat x + unat t) mod bbase"
    "unat (drop_bit 28 (x + t)) = (unat x + unat t) div bbase" "unat ((x + t) AND kBigitMask) < bbase"
    by (simp_all only: word_nat s mod_less_divisor bbase_pos)
  have "unat x + unat t < 2 * bbase" using assms by linarith
  then show "(unat x + unat t) div bbase \<le> 1"
    using less_mult_imp_div_less [of "unat x + unat t" 2 bbase] by simp
qed

lemma add_loop:
  assumes "length xs = 128" "is_bigits xs" "zero_from u xs" "is_bigits ys" "n \<le> length ys" "d + n \<le> 128"
    and post: "\<And>zs c. length zs = 128 \<Longrightarrow> is_bigits zs \<Longrightarrow> zero_from (max u (d + n)) zs \<Longrightarrow> unat c \<le> 1 \<Longrightarrow>
      bigits_val zs + unat c * bbase ^ (d + n) = bigits_val xs + bigits_val (take n ys) * bbase ^ d \<Longrightarrow>
      P (zs, c, d + n)"
  shows "returns (for_up 0 n
       (\<lambda>i (xs, carry, bigit_pos). do {
          x \<leftarrow> vget xs bigit_pos;
          y \<leftarrow> vget ys i;
          let sum = x + y + carry;
          xs \<leftarrow> vset xs bigit_pos (sum AND kBigitMask);
          Some (xs, drop_bit kBigitSize sum, bigit_pos + 1) }) (xs, 0, d)) P"
proof (rule returns_for_up [where I = "\<lambda>i (zs, c, p). length zs = 128 \<and> is_bigits zs \<and> p = d + i \<and>
    zero_from (max u (d + i)) zs \<and> unat c \<le> 1 \<and>
    bigits_val zs + unat c * bbase ^ p = bigits_val xs + bigits_val (take i ys) * bbase ^ d"], goal_cases)
  case (3 i s)
  obtain zs c where s: "s = (zs, c, d + i)" using 3 by (cases s) auto
  from 3 s have I: "length zs = 128" "is_bigits zs" "zero_from (max u (d + i)) zs" "unat c \<le> 1"
    "bigits_val zs + unat c * bbase ^ (d + i) = bigits_val xs + bigits_val (take i ys) * bbase ^ d"
    by auto
  have pos: "d + i < 128" and i: "i < length ys" using 3 assms(5,6) by auto
  let ?x = "zs ! (d + i)" and ?y = "ys ! i"
  have y: "unat ?y < bbase" using i assms(4) by (simp add: is_bigits_nth)
  have yc: "unat (?y + c) = unat ?y + unat c" by (rule unat_add_small) (use y I in \<open>simp add: bbase_def\<close>)
  note dig = add_digit [of ?x "?y + c", unfolded yc]
  have x: "unat ?x < bbase" using pos I by (simp add: is_bigits_nth)
  have le: "unat ?y + unat c \<le> bbase" using y I by simp
  have "bigits_val (zs[d + i := (?x + (?y + c)) AND kBigitMask])
      + (unat ?x + (unat ?y + unat c)) div bbase * bbase ^ Suc (d + i)
    = bigits_val zs + (unat ?y + unat c) * bbase ^ (d + i)"
    using dig x le pos I by (intro bigits_val_carry) auto
  also have "\<dots> = bigits_val xs + bigits_val (take (Suc i) ys) * bbase ^ d"
    using I(5) i by (simp add: bigits_val_take_Suc algebra_simps power_add)
  finally show ?case
    using s I pos i dig x le
    by (auto simp: wp Let_def add.assoc intro: is_bigits_update zero_from_update)
qed (use assms in \<open>auto intro: zero_from_mono\<close>)

lemma add_carry_loop:
  assumes "length xs = 128" "is_bigits xs" "zero_from u xs" "p \<le> u" "unat c \<le> 1"
    and cap: "bigits_val xs + unat c * bbase ^ p < bbase ^ 128"
    and post: "\<And>zs q. length zs = 128 \<Longrightarrow> is_bigits zs \<Longrightarrow> zero_from (max q u) zs \<Longrightarrow> p \<le> q \<Longrightarrow> q \<le> 128 \<or> q \<le> u \<Longrightarrow>
      bigits_val zs = bigits_val xs + unat c * bbase ^ p \<Longrightarrow>
      q \<le> u \<or> bbase ^ (q - 1) \<le> bigits_val zs \<Longrightarrow> P (zs, 0, q)"
  shows "returns (while_loop (\<lambda>(xs, carry, bigit_pos). Some (carry \<noteq> 0))
       (\<lambda>(xs, carry, bigit_pos). do {
          x \<leftarrow> vget xs bigit_pos;
          let sum = x + carry;
          xs \<leftarrow> vset xs bigit_pos (sum AND kBigitMask);
          Some (xs, drop_bit kBigitSize sum, bigit_pos + 1) }) (xs, c, p)) P"
proof (rule returns_while [where I = "\<lambda>(zs, c', q). length zs = 128 \<and> is_bigits zs \<and>
    zero_from (max q u) zs \<and> unat c' \<le> 1 \<and> p \<le> q \<and> (q \<le> 128 \<or> q \<le> u) \<and>
    bigits_val zs + unat c' * bbase ^ q = bigits_val xs + unat c * bbase ^ p \<and>
    (q \<le> u \<or> bbase ^ (q - 1) \<le> bigits_val xs + unat c * bbase ^ p)" and m = "\<lambda>(zs, c, q). 128 - q"], goal_cases)
  case 1
  show ?case using assms by (simp add: max_absorb2)
next
  case (2 s)
  obtain zs c' q where s: "s = (zs, c', q)" by (cases s)
  let ?T = "bigits_val xs + unat c * bbase ^ p"
  from 2 s have I: "length zs = 128" "is_bigits zs" "zero_from (max q u) zs" "unat c' \<le> 1" "p \<le> q"
    "q \<le> 128 \<or> q \<le> u" "bigits_val zs + unat c' * bbase ^ q = ?T" "q \<le> u \<or> bbase ^ (q - 1) \<le> ?T" by auto
  show ?case
  proof (cases "c' = 0")
    case True
    then show ?thesis using s I by (auto intro!: post)
  next
    case False
    then have c1: "unat c' = 1" using I(4) by (simp add: le_Suc_eq unat_eq_0_iff)
    have T: "bbase ^ q \<le> ?T" using I(7) c1 by simp
    then have "bbase ^ q < bbase ^ 128" using cap by (rule le_less_trans)
    then have q: "q < 128" by (simp only: pow_bbase_less_iff)
    have x: "unat (zs ! q) < bbase" using q I by (simp add: is_bigits_nth)
    note dig = add_digit [of "zs ! q" c', OF x]
    have "bigits_val (zs[q := (zs ! q + c') AND kBigitMask]) + (unat (zs ! q) + unat c') div bbase * bbase ^ Suc q
      = bigits_val zs + unat c' * bbase ^ q"
      using dig q I c1 by (intro bigits_val_carry) auto
    with False s I q dig T c1 show ?thesis
      by (auto simp: wp Let_def intro: is_bigits_update zero_from_update)
  qed
qed

lemma AddBignum_correct:
  assumes inv: "bignum_inv a" "bignum_inv b"
    and cap: "Suc (max (BigitLength a) (BigitLength b)) - min (exponent a) (exponent b) \<le> 128"
  shows "returns (AddBignum a b) (\<lambda>r. bignum_inv r \<and> bignum_val r = bignum_val a + bignum_val b)"
proof -
  have "returns (Align a b) (\<lambda>a'. bignum_inv a' \<and> bignum_val a' = bignum_val a \<and>
     exponent a' = min (exponent a) (exponent b) \<and> BigitLength a' = BigitLength a)"
    by (rule Align_correct) (use inv cap in auto)
  then obtain a' where align: "Align a b = Some a'" and inv': "bignum_inv a'"
    and val': "bignum_val a' = bignum_val a" and exp': "exponent a' = min (exponent a) (exponent b)"
    and len': "BigitLength a' = BigitLength a" by (auto simp: returns_def)
  define d m where "d = exponent b - exponent a'" and "m = max (used_digits a') (d + used_digits b)"
  have dB: "d + used_digits b = BigitLength b - exponent a'" "exponent a' + d = exponent b"
    using exp' by (auto simp: d_def BigitLength_def)
  have m: "Suc m \<le> 128" using cap len' exp' dB(1) by (auto simp: m_def BigitLength_def)
  have raw: "length (bigits a') = 128" "is_bigits (bigits a')" "zero_from (used_digits a') (bigits a')"
    and rawb: "length (bigits b) = 128" "is_bigits (bigits b)" "zero_from (used_digits b) (bigits b)"
      "used_digits b \<le> 128"
    using inv inv' by (auto simp: bignum_inv_def bignum_raw_def)
  define T where "T = bigits_val (bigits a') + bigits_val (bigits b) * bbase ^ d"
  have takeb: "bigits_val (take (used_digits b) (bigits b)) = bigits_val (bigits b)"
    using rawb(3) by (simp add: bigits_val_zero_from)
  have T_less: "T < bbase ^ 128"
  proof -
    have "bigits_val (bigits a') < bbase ^ m"
      using bignum_raw_bound [OF bignum_inv_raw [OF inv']] pow_bbase_le_iff [of "used_digits a'" m]
      by (simp add: m_def)
    moreover have "bigits_val (bigits b) * bbase ^ d < bbase ^ used_digits b * bbase ^ d"
      using bignum_raw_bound [OF bignum_inv_raw [OF inv(2)]] by simp
    moreover have "bbase ^ used_digits b * bbase ^ d \<le> bbase ^ m"
      by (simp add: power_add [symmetric] pow_bbase_le_iff m_def)
    moreover have "2 * bbase ^ m \<le> bbase ^ Suc m" using bbase_ge_2 by simp
    moreover have "bbase ^ Suc m \<le> bbase ^ 128" using m by (simp only: pow_bbase_le_iff)
    ultimately show ?thesis unfolding T_def by linarith
  qed
  have T_ge: "bbase ^ (m - 1) \<le> T" if "0 < m"
  proof (cases "m = used_digits a'")
    case True
    then show ?thesis using that bignum_inv_ge [OF inv'] by (simp add: T_def trans_le_add1)
  next
    case False
    have "used_digits b \<noteq> 0"
    proof
      assume "used_digits b = 0"
      then have "d = 0" using inv(2) by (simp add: bignum_inv_def d_def)
      with \<open>used_digits b = 0\<close> False show False by (simp add: m_def)
    qed
    then have "bbase ^ (used_digits b - 1) * bbase ^ d \<le> bigits_val (bigits b) * bbase ^ d"
      using bignum_inv_ge [OF inv(2)] by (intro mult_le_mono1) simp
    moreover have "bbase ^ (used_digits b - 1) * bbase ^ d = bbase ^ (m - 1)"
      using False \<open>used_digits b \<noteq> 0\<close> by (auto simp: m_def power_add [symmetric] max_def add.commute split: if_splits)
    ultimately show ?thesis unfolding T_def by linarith
  qed
  have val: "T * bbase ^ exponent a' = bignum_val a + bignum_val b"
    using val' dB(2) by (simp add: T_def bignum_val_def algebra_simps flip: power_add)
  have final: "bignum_inv r \<and> bignum_val r = bignum_val a + bignum_val b"
    if r: "r = a'\<lparr>bigits := zs, used_digits := max q (used_digits a')\<rparr>"
      and zs: "length zs = 128" "is_bigits zs" "zero_from (max q m) zs" "bigits_val zs = T"
      and q: "d + used_digits b \<le> q" "q \<le> 128 \<or> q \<le> m" "q \<le> m \<or> bbase ^ (q - 1) \<le> T" for r zs q
  proof -
    have mx: "max q (used_digits a') = max q m" using q(1) by (auto simp: m_def)
    have "bignum_inv r"
      using zs q m T_ge inv' mx unfolding r
      by (intro bignum_inv_intro) (auto simp: max_def bignum_inv_def m_def split: if_splits)
    with zs val r show ?thesis by (simp add: bignum_val_def)
  qed
  show ?thesis
    unfolding AddBignum_def wp returns_assert_clamped [OF inv(1)] returns_assert_clamped [OF inv(2)] align
      d_def [symmetric]
  proof (intro conjI add_loop [where u = "used_digits a'"], goal_cases)
    case (9 zs c)
    note T = 9(5) [unfolded takeb, folded T_def] and zero = 9(3) [folded m_def]
    have "returns (assert_clamped r) (\<lambda>_. bignum_inv r \<and> bignum_val r = bignum_val a + bignum_val b)"
      if "bignum_inv r \<and> bignum_val r = bignum_val a + bignum_val b" for r
      using that by (simp add: returns_assert_clamped)
    with 9(1,2,4) zero T T_less final show ?case
      unfolding prod.case
      by (intro add_carry_loop [where u = m]) (auto simp: m_def Let_def)
  qed (use raw rawb m dB in \<open>auto simp: m_def BigitLength_def\<close>)
qed

section \<open>Subtraction\<close>

text \<open>
  One digit of a subtraction in 32-bit words: the difference may wrap around, its low 28 bits are
  the digit and its top bit is the borrow.
\<close>

lemma unat_sub_wrap:
  fixes x t :: Chunk
  assumes "unat x < unat t"
  shows "unat (x - t) + unat t = 2 ^ 32 + unat x"
  using assms unsigned_less [of t, where ?'a = nat] unsigned_less [of x, where ?'a = nat]
  by (simp add: unat_sub_if_size word_size)

lemma sub_digit:
  fixes x t :: Chunk
  assumes "unat x < bbase" "unat t \<le> bbase"
  shows "unat ((x - t) AND kBigitMask) + unat t = unat x + unat (drop_bit 31 (x - t)) * bbase"
    and "unat (drop_bit 31 (x - t)) \<le> 1" "unat ((x - t) AND kBigitMask) < bbase"
proof -
  have drop: "unat (drop_bit 31 (x - t)) = unat (x - t) div 2 ^ 31" by (rule unat_drop_bit)
  show "unat (drop_bit 31 (x - t)) \<le> 1"
    using unsigned_less [of "x - t", where ?'a = nat] unfolding drop by simp
  show "unat ((x - t) AND kBigitMask) < bbase" by (simp add: word_nat)
  show "unat ((x - t) AND kBigitMask) + unat t = unat x + unat (drop_bit 31 (x - t)) * bbase"
  proof (cases "unat t \<le> unat x")
    case True
    then have "unat (x - t) = unat x - unat t" by (rule unat_sub_small)
    with True assms show ?thesis
      by (simp add: word_nat drop bbase_def)
  next
    case False
    then obtain k where k: "unat t = unat x + Suc k" using less_imp_Suc_add by (metis add_Suc_right not_le)
    with False unat_sub_wrap [of x t] have "unat (x - t) = 2 ^ 32 - Suc k" by simp
    moreover have "Suc k \<le> 2 ^ 28" using k assms by (simp add: bbase_def)
    ultimately have eq: "unat (x - t) = (2 ^ 28 - Suc k) + 15 * 2 ^ 28" by simp
    have "unat (x - t) mod 2 ^ 28 = 2 ^ 28 - Suc k"
      unfolding eq mod_mult_self1 by (rule mod_less) simp
    moreover have "unat (x - t) div 2 ^ 31 = 1" unfolding eq by (rule div_nat_eqI) simp_all
    ultimately have "unat (x - t) mod 2 ^ 28 = 2 ^ 28 - Suc k" "unat (x - t) div 2 ^ 31 = 1" by auto
    with k \<open>Suc k \<le> 2 ^ 28\<close> show ?thesis by (simp add: word_nat drop bbase_def)
  qed
qed

lemma sub_loop:
  assumes "length xs = 128" "is_bigits xs" "zero_from u xs" "is_bigits ys" "n \<le> length ys" "d + n \<le> u" "u \<le> 128"
    and post: "\<And>zs b. length zs = 128 \<Longrightarrow> is_bigits zs \<Longrightarrow> zero_from u zs \<Longrightarrow> unat b \<le> 1 \<Longrightarrow>
      bigits_val zs + bigits_val (take n ys) * bbase ^ d = bigits_val xs + unat b * bbase ^ (d + n) \<Longrightarrow>
      P (zs, b)"
  shows "returns (for_up 0 n
       (\<lambda>i (xs, borrow). do {
          check (borrow = 0 \<or> borrow = 1);
          x \<leftarrow> vget xs (i + d);
          y \<leftarrow> vget ys i;
          let difference = x - y - borrow;
          xs \<leftarrow> vset xs (i + d) (difference AND kBigitMask);
          Some (xs, drop_bit (kChunkSize - 1) difference) }) (xs, 0)) P"
proof (rule returns_for_up [where I = "\<lambda>i (zs, b). length zs = 128 \<and> is_bigits zs \<and>
    zero_from u zs \<and> unat b \<le> 1 \<and>
    bigits_val zs + bigits_val (take i ys) * bbase ^ d = bigits_val xs + unat b * bbase ^ (d + i)"], goal_cases)
  case (3 i s)
  obtain zs b where s: "s = (zs, b)" by (cases s)
  from 3 s have I: "length zs = 128" "is_bigits zs" "zero_from u zs" "unat b \<le> 1"
    "bigits_val zs + bigits_val (take i ys) * bbase ^ d = bigits_val xs + unat b * bbase ^ (d + i)"
    by auto
  have pos: "i + d < u" and i: "i < length ys" using 3 assms by auto
  let ?x = "zs ! (i + d)" and ?y = "ys ! i"
  have y: "unat ?y < bbase" using i assms(4) by (simp add: is_bigits_nth)
  have yb: "unat (?y + b) = unat ?y + unat b" by (rule unat_add_small) (use y I in \<open>simp add: bbase_def\<close>)
  have x: "unat ?x < bbase" using pos I assms(7) by (simp add: is_bigits_nth)
  have le: "unat (?y + b) \<le> bbase" using y yb I by simp
  note dig = sub_digit [OF x le, unfolded yb]
  have "bigits_val (zs[i + d := (?x - (?y + b)) AND kBigitMask]) + (unat ?y + unat b) * bbase ^ (i + d)
    = bigits_val zs + unat (drop_bit 31 (?x - (?y + b))) * bbase ^ Suc (i + d)"
    using dig pos I assms(7) by (intro bigits_val_borrow) auto
  then have "bigits_val (zs[i + d := (?x - (?y + b)) AND kBigitMask]) + bigits_val (take (Suc i) ys) * bbase ^ d
    = bigits_val xs + unat (drop_bit 31 (?x - (?y + b))) * bbase ^ (d + Suc i)"
    using I(5) i by (simp add: bigits_val_take_Suc add_mult_distrib algebra_simps power_add)
  moreover have "b = 0 \<or> b = 1" using I(4) by (metis le_Suc_eq le_zero_eq One_nat_def unat_1 unat_eq_zero word_unat_eq_iff)
  ultimately show ?case
    using s I pos i dig assms(7)
    by (auto simp: wp Let_def diff_diff_eq intro: is_bigits_update zero_from_update)
qed (use assms in auto)

lemma sub_borrow_loop:
  assumes "length xs = 128" "is_bigits xs" "zero_from u xs" "u \<le> 128" "unat b \<le> 1"
    and "bigits_val xs = R + unat b * bbase ^ (n + d)"
    and post: "\<And>zs i. length zs = 128 \<Longrightarrow> is_bigits zs \<Longrightarrow> zero_from u zs \<Longrightarrow> bigits_val zs = R \<Longrightarrow> P (zs, 0, i)"
  shows "returns (while_loop (\<lambda>(xs, borrow, i). Some (borrow \<noteq> 0))
       (\<lambda>(xs, borrow, i). do {
          x \<leftarrow> vget xs (i + d);
          let difference = x - borrow;
          xs \<leftarrow> vset xs (i + d) (difference AND kBigitMask);
          Some (xs, drop_bit (kChunkSize - 1) difference, i + 1) }) (xs, b, n)) P"
proof (rule returns_while [where I = "\<lambda>(zs, b', i). length zs = 128 \<and> is_bigits zs \<and>
    zero_from u zs \<and> unat b' \<le> 1 \<and> bigits_val zs = R + unat b' * bbase ^ (i + d)"
    and m = "\<lambda>(zs, b, i). 128 - i"], goal_cases)
  case 1
  show ?case using assms by simp
next
  case (2 s)
  obtain zs b' i where s: "s = (zs, b', i)" by (cases s)
  from 2 s have I: "length zs = 128" "is_bigits zs" "zero_from u zs" "unat b' \<le> 1"
    "bigits_val zs = R + unat b' * bbase ^ (i + d)" by auto
  show ?case
  proof (cases "b' = 0")
    case True
    then show ?thesis using s I by (auto intro!: post)
  next
    case False
    then have b1: "unat b' = 1" using I(4) by (simp add: le_Suc_eq unat_eq_0_iff)
    then have "bbase ^ (i + d) \<le> bigits_val zs" using I(5) by simp
    moreover have "bigits_val zs < bbase ^ u" using I by (intro bigits_val_less)
    ultimately have pos: "i + d < u" using pow_bbase_less_iff by (metis le_less_trans)
    have x: "unat (zs ! (i + d)) < bbase" using pos I assms(4) by (simp add: is_bigits_nth)
    note dig = sub_digit [of "zs ! (i + d)" b', OF x]
    have "bigits_val (zs[i + d := (zs ! (i + d) - b') AND kBigitMask]) + unat b' * bbase ^ (i + d)
      = bigits_val zs + unat (drop_bit 31 (zs ! (i + d) - b')) * bbase ^ Suc (i + d)"
      using dig pos I b1 assms(4) by (intro bigits_val_borrow) auto
    with False s I pos dig b1 assms(4) show ?thesis
      by (auto simp: wp Let_def intro: is_bigits_update zero_from_update)
  qed
qed

lemma SubtractBignum_correct:
  assumes inv: "bignum_inv a" "bignum_inv b" and le: "bignum_val b \<le> bignum_val a"
    and cap: "exponent a > exponent b \<Longrightarrow> BigitLength a - exponent b \<le> 128"
  shows "returns (SubtractBignum a b) (\<lambda>r. bignum_inv r \<and> bignum_val r = bignum_val a - bignum_val b \<and>
    (used_digits r \<noteq> 0 \<longrightarrow> exponent r = min (exponent a) (exponent b)))"
proof -
  obtain a' where align: "Align a b = Some a'" and inv': "bignum_inv a'"
    and val': "bignum_val a' = bignum_val a" and exp': "exponent a' = min (exponent a) (exponent b)"
    and len': "BigitLength a' = BigitLength a"
    using Align_correct [OF inv(1), of b] cap by (auto simp: returns_def)
  define d where "d = exponent b - exponent a'"
  have expb: "exponent b = d + exponent a'" using exp' by (simp add: d_def)
  have raw: "length (bigits a') = 128" "is_bigits (bigits a')" "zero_from (used_digits a') (bigits a')"
      "used_digits a' \<le> 128"
    and rawb: "length (bigits b) = 128" "is_bigits (bigits b)" "zero_from (used_digits b) (bigits b)"
      "used_digits b \<le> 128"
    using inv inv' by (auto simp: bignum_inv_def bignum_raw_def)
  have "BigitLength b \<le> BigitLength a" using inv le by (intro BigitLength_mono)
  then have len: "d + used_digits b \<le> used_digits a'" using len' expb by (simp add: BigitLength_def)
  have takeb: "bigits_val (take (used_digits b) (bigits b)) = bigits_val (bigits b)"
    using rawb(3) by (simp add: bigits_val_zero_from)
  define R where "R = bigits_val (bigits a') - bigits_val (bigits b) * bbase ^ d"
  have "bigits_val (bigits b) * bbase ^ d * bbase ^ exponent a' \<le> bigits_val (bigits a') * bbase ^ exponent a'"
    using le val' expb by (simp add: bignum_val_def power_add mult.assoc)
  then have R: "R + bigits_val (bigits b) * bbase ^ d = bigits_val (bigits a')" by (simp add: R_def)
  have Rval: "R * bbase ^ exponent a' = bignum_val a - bignum_val b"
    using val' expb by (simp add: R_def bignum_val_def diff_mult_distrib power_add mult.assoc)
  have le_bool: "LessEqual b a = Some True" using inv le by (simp add: LessEqual_correct)
  show ?thesis
    unfolding SubtractBignum_def wp returns_assert_clamped [OF inv(1)] returns_assert_clamped [OF inv(2)]
      align le_bool d_def [symmetric] Let_def [of d]
  proof (intro conjI TrueI sub_loop [where u = "used_digits a'"], goal_cases)
    case (8 zs c)
    have "bigits_val zs = R + unat c * bbase ^ (used_digits b + d)"
      using 8(5) R by (simp add: takeb add.commute)
    with 8 raw(4) show ?case
      unfolding prod.case
    proof (intro sub_borrow_loop [where u = "used_digits a'" and R = R], goal_cases)
      case (7 ys i)
      let ?r = "a'\<lparr>bigits := ys\<rparr>"
      have "bignum_raw ?r" "bignum_val ?r = bignum_val a - bignum_val b"
        using 7 raw Rval by (auto simp: bignum_raw_def bignum_val_def)
      then show ?case
        unfolding prod.case using exp' by (auto intro!: returns_mono [OF Clamp_correct])
    qed
  qed (use raw rawb len in auto)
qed

section \<open>Shifts\<close>

lemma shift_digit:
  fixes x :: Chunk
  assumes "unat x < bbase" "s < 28" "unat c < 2 ^ s"
  shows "unat ((push_bit s x + c) AND kBigitMask) + unat (drop_bit (28 - s) x) * bbase = unat x * 2 ^ s + unat c"
    and "unat (drop_bit (28 - s) x) < 2 ^ s"
proof -
  define q r where "q = unat x div 2 ^ (28 - s)" and "r = unat x mod 2 ^ (28 - s)"
  have pw: "2 ^ (28 - s) * 2 ^ s = bbase" using assms(2) by (simp add: bbase_def power_add [symmetric])
  have x: "unat x = q * 2 ^ (28 - s) + r" unfolding q_def r_def by (rule div_mult_mod_eq [symmetric])
  have r: "r < 2 ^ (28 - s)" by (simp add: r_def)
  have new: "unat (drop_bit (28 - s) x) = q" by (simp add: unat_drop_bit q_def)
  have "unat x < 2 ^ s * 2 ^ (28 - s)" using assms(1) pw by (simp add: mult.commute)
  then have q: "q < 2 ^ s" unfolding q_def by (rule less_mult_imp_div_less)
  then show "unat (drop_bit (28 - s) x) < 2 ^ s" by (simp add: new)
  have low: "r * 2 ^ s + unat c < bbase"
  proof -
    have "r * 2 ^ s + unat c < (r + 1) * 2 ^ s" using assms(3) by simp
    also have "\<dots> \<le> 2 ^ (28 - s) * 2 ^ s" using r by (intro mult_le_mono1) simp
    finally show ?thesis by (simp add: pw)
  qed
  have eq: "unat x * 2 ^ s + unat c = (r * 2 ^ s + unat c) + q * bbase"
    by (simp add: x add_mult_distrib mult.assoc pw)
  have "unat (push_bit s x) = (unat x * 2 ^ s) mod 2 ^ 32"
    by (simp only: unsigned_push_bit_eq) (simp add: push_bit_eq_mult take_bit_eq_mod)
  then have "unat (push_bit s x + c) = (unat x * 2 ^ s + unat c) mod 2 ^ 32"
    by (simp only: unat_word_ariths) (simp add: mod_add_left_eq)
  then have "unat ((push_bit s x + c) AND kBigitMask) = (unat x * 2 ^ s + unat c) mod bbase"
    by (simp add: word_nat bbase_def mod_mod_cancel)
  also have "\<dots> = r * 2 ^ s + unat c" unfolding eq mod_mult_self1 using low by (rule mod_less)
  finally show "unat ((push_bit s x + c) AND kBigitMask) + unat (drop_bit (28 - s) x) * bbase
      = unat x * 2 ^ s + unat c"
    by (simp add: new eq)
qed

text \<open>
  The loops of \<open>BigitsShiftLeft\<close> and of the multiplications replace the digits one by one:
  the first \<open>i\<close> digits and the carry are \<open>f\<close> times the first \<open>i\<close> digits of the original.
\<close>

definition scaled :: "nat \<Rightarrow> nat \<Rightarrow> Chunk list \<Rightarrow> Chunk list \<Rightarrow> nat \<Rightarrow> bool" where
  "scaled f i orig xs carry \<longleftrightarrow> length xs = length orig \<and> is_bigits xs \<and> drop i xs = drop i orig \<and>
     bigits_val (take i xs) + carry * bbase ^ i = f * bigits_val (take i orig)"

lemma scaled_0: "is_bigits orig \<Longrightarrow> scaled f 0 orig orig 0"
  by (simp add: scaled_def)

lemma scaled_nth: "scaled f i orig xs c \<Longrightarrow> i < length orig \<Longrightarrow> xs ! i = orig ! i"
  by (metis scaled_def nth_via_drop Cons_nth_drop_Suc)

lemma scaled_Suc:
  assumes "scaled f i orig xs c" "i < length orig" "unat d < bbase" "unat d + c' * bbase = f * unat (orig ! i) + c"
  shows "scaled f (Suc i) orig (xs[i := d]) c'"
proof -
  from assms have I: "length xs = length orig" "is_bigits xs" "drop i xs = drop i orig"
    "bigits_val (take i xs) + c * bbase ^ i = f * bigits_val (take i orig)"
    by (auto simp: scaled_def)
  have "bigits_val (take (Suc i) (xs[i := d])) + c' * bbase ^ Suc i
      = bigits_val (take i xs) + (unat d + c' * bbase) * bbase ^ i"
    using I(1) assms(2) by (simp add: bigits_val_take_Suc add_mult_distrib)
  also have "\<dots> = f * bigits_val (take (Suc i) orig)"
    unfolding assms(4) bigits_val_take_Suc [OF assms(2)] add_mult_distrib add_mult_distrib2
      I(4) [symmetric] by simp
  finally show ?thesis
    using I assms(2,3) by (simp add: scaled_def is_bigits_update) (metis drop_Suc tl_drop)
qed

lemma scaled_end:
  assumes "scaled f n orig xs c" "zero_from n orig"
  shows "bigits_val xs + c * bbase ^ n = f * bigits_val orig" "zero_from n xs" "is_bigits xs"
    "length xs = length orig"
proof -
  from assms(1) have I: "length xs = length orig" "is_bigits xs" "drop n xs = drop n orig"
    "bigits_val (take n xs) + c * bbase ^ n = f * bigits_val (take n orig)"
    by (auto simp: scaled_def)
  show z: "zero_from n xs"
    unfolding zero_from_def
  proof (intro allI impI)
    fix i assume i: "n \<le> i" "i < length xs"
    then have "xs ! i = drop n xs ! (i - n)" by simp
    also have "\<dots> = orig ! i" using i I(1,3) by simp
    finally show "xs ! i = 0" using assms(2) i I(1) by (simp add: zero_from_def)
  qed
  show "bigits_val xs + c * bbase ^ n = f * bigits_val orig"
    using I(4) bigits_val_zero_from [OF z] bigits_val_zero_from [OF assms(2)] by simp
qed (use assms(1) in \<open>auto simp: scaled_def\<close>)

lemma shift_loop:
  assumes "length orig = 128" "is_bigits orig" "n \<le> 128" "s < 28"
  shows "returns (for_up 0 n
       (\<lambda>i (xs, carry). do {
          x \<leftarrow> vget xs i;
          let new_carry = drop_bit (kBigitSize - s) x;
          xs \<leftarrow> vset xs i ((push_bit s x + carry) AND kBigitMask);
          Some (xs, new_carry) }) (orig, 0))
     (\<lambda>(xs, carry). scaled (2 ^ s) n orig xs (unat carry) \<and> unat carry < 2 ^ s)"
proof (rule returns_for_up [where I = "\<lambda>i (xs, carry). scaled (2 ^ s) i orig xs (unat carry) \<and>
    unat carry < 2 ^ s"], goal_cases)
  case (3 i st)
  obtain xs c where st: "st = (xs, c)" by (cases st)
  with 3 have I: "scaled (2 ^ s) i orig xs (unat c)" "unat c < 2 ^ s" by auto
  have i: "i < length orig" using 3 assms by simp
  have x: "xs ! i = orig ! i" "unat (xs ! i) < bbase" "length xs = 128"
    using I i assms scaled_nth [OF I(1) i] by (auto simp: is_bigits_nth scaled_def)
  note dig = shift_digit [OF x(2) assms(4) I(2)]
  have "scaled (2 ^ s) (Suc i) orig (xs[i := (push_bit s (xs ! i) + c) AND kBigitMask])
      (unat (drop_bit (28 - s) (xs ! i)))"
    using dig x by (intro scaled_Suc [OF I(1) i]) (simp_all add: word_nat mult.commute)
  with st dig x i assms show ?case by (auto simp: wp Let_def)
qed (use assms in \<open>auto simp: scaled_0\<close>)

lemma BigitsShiftLeft_correct:
  assumes inv: "bignum_inv a" and used: "0 < used_digits a" "used_digits a < 128" and l: "l < 28"
  shows "returns (BigitsShiftLeft a l) (\<lambda>r. bignum_inv r \<and> bignum_val r = bignum_val a * 2 ^ l \<and>
    used_digits r \<le> used_digits a + 1)"
proof -
  have raw: "length (bigits a) = 128" "is_bigits (bigits a)" "zero_from (used_digits a) (bigits a)"
    using inv by (auto simp: bignum_inv_def bignum_raw_def)
  have ge: "bbase ^ (used_digits a - 1) \<le> bigits_val (bigits a)"
    using bignum_inv_ge [OF inv] used by simp
  have fin: "returns (if carry \<noteq> 0 then do {
       xs \<leftarrow> vset xs (used_digits a) carry;
       Some (a\<lparr>bigits := xs, used_digits := used_digits a + 1\<rparr>)
     } else Some (a\<lparr>bigits := xs\<rparr>))
     (\<lambda>r. bignum_inv r \<and> bignum_val r = bignum_val a * 2 ^ l \<and> used_digits r \<le> used_digits a + 1)"
    if sc: "scaled (2 ^ l) (used_digits a) (bigits a) xs (unat carry)" and c: "unat carry < 2 ^ l" for xs carry
  proof -
    note e = scaled_end [OF sc raw(3)]
    have len: "length xs = 128" using e(4) raw(1) by simp
    have top: "xs ! used_digits a = 0" using e(2) len used by (simp add: zero_from_def)
    have ge': "bbase ^ (used_digits a - 1) \<le> 2 ^ l * bigits_val (bigits a)"
      using ge by (metis le_trans mult_1 mult_le_mono1 one_le_numeral one_le_power)
    have "2 ^ l \<le> bbase" unfolding bbase_def by (rule power_increasing) (use l in auto)
    then have cb: "unat carry < bbase" using c by simp
    show ?thesis
    proof (cases "carry = 0")
      case True
      then have v: "bigits_val xs = 2 ^ l * bigits_val (bigits a)" using e(1) by simp
      then have "bignum_inv (a\<lparr>bigits := xs\<rparr>)"
        using e len used ge' by (intro bignum_inv_intro) auto
      with True v show ?thesis by (simp add: bignum_val_def)
    next
      case cnz: False
      let ?xs = "xs[used_digits a := carry]"
      have v: "bigits_val ?xs = 2 ^ l * bigits_val (bigits a)"
        using e(1) top bigits_val_update [of "used_digits a" xs carry] len used by simp
      have "1 * bbase ^ used_digits a \<le> unat carry * bbase ^ used_digits a"
        using cnz by (intro mult_le_mono1) (simp add: Suc_leI unat_gt_0)
      then have "bbase ^ used_digits a \<le> bigits_val ?xs" using e(1) v by linarith
      then have "bignum_inv (a\<lparr>bigits := ?xs, used_digits := used_digits a + 1\<rparr>)"
        using e len cb used v
        by (intro bignum_inv_intro) (auto intro: is_bigits_update zero_from_update)
      with cnz v len used show ?thesis by (simp add: bignum_val_def wp)
    qed
  qed
  show ?thesis
    unfolding BigitsShiftLeft_def returns_bind returns_check using fin l used
    by (intro conjI returns_mono [OF shift_loop [OF raw(1,2)]]) auto
qed

lemma ShiftLeft_correct:
  assumes inv: "bignum_inv a" and cap: "used_digits a < 128"
  shows "returns (ShiftLeft a s) (\<lambda>r. bignum_inv r \<and> bignum_val r = bignum_val a * 2 ^ s \<and>
    used_digits r \<le> used_digits a + 1)"
proof (cases "used_digits a = 0")
  case True
  then show ?thesis using inv used_digits_0_iff [OF inv] by (simp add: ShiftLeft_def)
next
  case False
  have pow: "2 ^ s = 2 ^ (s mod 28) * bbase ^ (s div 28)"
    by (simp only: bbase_def power_mult [symmetric] power_add [symmetric] mod_mult_div_eq)
  let ?a = "a\<lparr>exponent := exponent a + s div 28\<rparr>"
  have "bignum_inv ?a" "bignum_val ?a * 2 ^ (s mod 28) = bignum_val a * 2 ^ s"
    using inv False by (simp_all add: bignum_inv_def bignum_raw_def bignum_val_def pow power_add)
  with BigitsShiftLeft_correct [of ?a "s mod 28"] False cap show ?thesis
    by (simp add: ShiftLeft_def wp Let_def)
qed

end
