(* ===== verification/Bignum_Mult.thy ===== *)
theory Bignum_Mult
  imports Bignum_Arith
begin

text \<open>
  The multiplications of \<open>Bignum\<close>: by machine words, by powers of ten, squaring (the column-wise
  multiplication that works inside one buffer), and the powers and decimal strings built on them.
\<close>

section \<open>Multiplication by a machine word\<close>

lemma append_carry_correct:
  assumes "length xs = 128" "is_bigits xs" "zero_from (used_digits a) xs" "0 < used_digits a" "used_digits a \<le> 128"
    and "bigits_val xs + unat carry * bbase ^ used_digits a = T" "T < bbase ^ 128" "bbase ^ (used_digits a - 1) \<le> T"
  shows "returns (append_carry a xs carry) (\<lambda>r. bignum_inv r \<and> bigits_val (bigits r) = T \<and> exponent r = exponent a)"
  unfolding append_carry_def returns_bind
proof (rule returns_while [where I = "\<lambda>(b, c). length (bigits b) = 128 \<and> is_bigits (bigits b) \<and>
    zero_from (used_digits b) (bigits b) \<and> 0 < used_digits b \<and> used_digits b \<le> 128 \<and> exponent b = exponent a \<and>
    bigits_val (bigits b) + unat c * bbase ^ used_digits b = T \<and> bbase ^ (used_digits b - 1) \<le> T"
    and m = "\<lambda>(b, c). 128 - used_digits b"], goal_cases)
  case 1
  show ?case using assms by simp
next
  case (2 s)
  obtain b c where s: "s = (b, c)" by (cases s)
  from 2 s have I: "length (bigits b) = 128" "is_bigits (bigits b)" "zero_from (used_digits b) (bigits b)"
    "0 < used_digits b" "used_digits b \<le> 128" "exponent b = exponent a"
    "bigits_val (bigits b) + unat c * bbase ^ used_digits b = T" "bbase ^ (used_digits b - 1) \<le> T" by auto
  show ?case
  proof (cases "c = 0")
    case True
    with I have "bignum_inv b" by (intro bignum_inv_intro) auto
    with True I s show ?thesis by simp
  next
    case False
    then have "1 * bbase ^ used_digits b \<le> unat c * bbase ^ used_digits b"
      by (intro mult_le_mono1) (simp add: Suc_leI unat_gt_0)
    then have T: "bbase ^ used_digits b \<le> T" using I(7) by linarith
    then have "bbase ^ used_digits b < bbase ^ 128" using assms(7) by (rule le_less_trans)
    then have used: "used_digits b < 128" by (simp only: pow_bbase_less_iff)
    define d where "d = (ucast (c AND ucast kBigitMask) :: Chunk)"
    have d: "unat d = unat c mod bbase" by (simp add: d_def word_nat)
    have "bigits b ! used_digits b = 0" using I(1,3) used by (simp add: zero_from_def)
    then have "bigits_val ((bigits b)[used_digits b := d]) + unat c div bbase * bbase ^ Suc (used_digits b) = T"
      using bigits_val_carry [of "used_digits b" "bigits b" d "unat c"] used I d by simp
    with False s I T used d show ?thesis
      by (auto simp: wp word_nat d_def [symmetric] intro: is_bigits_update zero_from_update)
  qed
qed

lemma scaled_append_carry:
  assumes inv: "bignum_inv a" "0 < used_digits a" and f: "0 < f" "bigits_val (bigits a) * f < bbase ^ 128"
    and sc: "scaled f (used_digits a) (bigits a) xs (unat carry)"
  shows "returns (append_carry a xs carry) (\<lambda>r. bignum_inv r \<and> bigits_val (bigits r) = bigits_val (bigits a) * f \<and>
    exponent r = exponent a)"
proof -
  have raw: "length (bigits a) = 128" "zero_from (used_digits a) (bigits a)" "used_digits a \<le> 128"
    using inv(1) by (auto simp: bignum_inv_def bignum_raw_def)
  have "bbase ^ (used_digits a - 1) \<le> bigits_val (bigits a) * f"
    using bignum_inv_ge [OF inv] f(1) by (metis le_trans mult.right_neutral mult_le_mono2 Suc_leI One_nat_def)
  with scaled_end [OF sc raw(2)] raw f inv(2) show ?thesis
    by (intro append_carry_correct) (auto simp: mult.commute)
qed

lemma mult32_loop:
  fixes factor :: uint32
  assumes "length orig = 128" "is_bigits orig" "n \<le> 128" "0 < unat factor"
  shows "returns (for_up 0 n
          (\<lambda>i (xs, carry). do {
             x \<leftarrow> vget xs i;
             let product = (ucast factor :: DoubleChunk) * ucast x + carry;
             xs \<leftarrow> vset xs i (ucast (product AND ucast kBigitMask));
             Some (xs, drop_bit kBigitSize product) }) (orig, 0))
     (\<lambda>(xs, carry). scaled (unat factor) n orig xs (unat carry))"
proof (rule returns_for_up [where I = "\<lambda>i (xs, carry). scaled (unat factor) i orig xs (unat carry) \<and>
    unat carry < unat factor"], goal_cases)
  case (3 i st)
  obtain xs c where st: "st = (xs, c)" by (cases st)
  with 3 have I: "scaled (unat factor) i orig xs (unat c)" "unat c < unat factor" by auto
  have i: "i < length orig" using 3 assms by simp
  have x: "xs ! i = orig ! i" "unat (xs ! i) < bbase" "length xs = 128"
    using I i assms scaled_nth [OF I(1) i] by (auto simp: is_bigits_nth scaled_def)
  define w where "w = (ucast factor :: DoubleChunk) * ucast (xs ! i) + c"
  have "unat factor * unat (xs ! i) + unat c < unat factor * (unat (xs ! i) + 1)" using I(2) by simp
  also have le: "\<dots> \<le> unat factor * bbase" using x(2) by (intro mult_le_mono2) simp
  finally have bound: "unat factor * unat (xs ! i) + unat c < unat factor * bbase" .
  have "unat factor * bbase < 2 ^ 64"
    using unat_less_32 [of factor] by (simp add: bbase_def del: unsigned_less)
  then have w: "unat w = unat factor * unat (xs ! i) + unat c"
    using bound unfolding w_def
    by (subst unat_add_small; subst unat_mult_small) (auto simp: word_nat)
  then have "unat w div bbase < unat factor" using bound by (simp add: less_mult_imp_div_less)
  moreover have "scaled (unat factor) (Suc i) orig (xs[i := ucast (w AND ucast kBigitMask)]) (unat w div bbase)"
    using x w by (intro scaled_Suc [OF I(1) i]) (simp_all add: word_nat)
  ultimately show ?case
    using st x(2,3) i assms by (auto simp: wp Let_def word_nat w_def [symmetric])
qed (use assms in \<open>auto simp: scaled_0\<close>)

lemma MultiplyByUInt32_correct:
  assumes inv: "bignum_inv a" and cap: "bigits_val (bigits a) * unat factor < bbase ^ 128"
  shows "returns (MultiplyByUInt32 a factor) (\<lambda>r. bignum_inv r \<and> bignum_val r = bignum_val a * unat factor \<and>
    (used_digits r \<noteq> 0 \<longrightarrow> exponent r = exponent a \<and> bigits_val (bigits r) = bigits_val (bigits a) * unat factor))"
proof -
  have raw: "bignum_raw a" using inv by (rule bignum_inv_raw)
  consider "factor = 1" | "factor = 0" | "used_digits a = 0" "factor \<noteq> 1" "factor \<noteq> 0"
    | "factor \<noteq> 1" "factor \<noteq> 0" "0 < used_digits a" by blast
  then show ?thesis
  proof cases
    case 2
    then show ?thesis
      using raw by (auto simp: MultiplyByUInt32_def new_bignum_def intro!: returns_mono [OF Zero_new])
        (simp_all add: new_bignum_def [symmetric])
  next
    case 4
    then have f: "0 < unat factor" by (simp add: unat_gt_0)
    have "returns (for_up 0 (used_digits a) (\<lambda>i (xs, carry). do {
             x \<leftarrow> vget xs i;
             let product = (ucast factor :: DoubleChunk) * ucast x + carry;
             xs \<leftarrow> vset xs i (ucast (product AND ucast kBigitMask));
             Some (xs, drop_bit kBigitSize product) }) (bigits a, 0))
       (\<lambda>(xs, carry). scaled (unat factor) (used_digits a) (bigits a) xs (unat carry))"
      using raw f by (intro mult32_loop) (auto simp: bignum_raw_def)
    with 4 show ?thesis
      unfolding MultiplyByUInt32_def
      by (auto simp: returns_bind bignum_val_def elim!: returns_mono
          intro!: returns_mono [OF scaled_append_carry [OF inv 4(3) f cap]])
  qed (use inv used_digits_0_iff [OF inv] in \<open>auto simp: MultiplyByUInt32_def\<close>)
qed

text \<open>
  One digit of \<open>MultiplyByUInt64\<close>: the 92-bit product is never formed, its two halves are added
  to the carry separately and no addition overflows.
\<close>

lemma mult64_digit:
  fixes factor carry :: uint64 and x :: Chunk
  assumes x: "unat x < bbase" and c: "unat carry < unat factor"
  defines "tmp \<equiv> (carry AND ucast kBigitMask) + (factor AND 0xFFFFFFFF) * ucast x"
  defines "carry' \<equiv> drop_bit kBigitSize carry + drop_bit kBigitSize tmp
    + push_bit (32 - kBigitSize) (drop_bit 32 factor * ucast x)"
  shows "unat (ucast (tmp AND ucast kBigitMask) :: Chunk) + unat carry' * bbase = unat factor * unat x + unat carry"
    and "unat carry' < unat factor"
proof -
  define l h where "l = unat factor mod 2 ^ 32" and "h = unat factor div 2 ^ 32"
  have f: "unat factor = h * 2 ^ 32 + l" unfolding l_def h_def by (rule div_mult_mod_eq [symmetric])
  have l: "l < 2 ^ 32" by (simp add: l_def)
  have h: "h < 2 ^ 32" unfolding h_def using unat_less_64 [of factor] by (intro less_mult_imp_div_less) simp
  have low: "unat (factor AND 0xFFFFFFFF) = l"
    using unat_and_mask [of factor 32] by (simp add: mask_eq_exp_minus_1 l_def)
  have high: "unat (drop_bit 32 factor) = h" by (simp add: unat_drop_bit h_def)
  have xb: "unat x < 2 ^ 28" using x by (simp add: bbase_def)
  have lx: "l * unat x < 2 ^ 60" using mult_strict_mono [OF l xb] by simp
  have hx: "h * unat x < 2 ^ 60" using mult_strict_mono [OF h xb] by simp
  have plow: "unat ((factor AND 0xFFFFFFFF) * ucast x) = l * unat x"
    using lx by (subst unat_mult_small) (simp_all add: low word_nat)
  have phigh: "unat (drop_bit 32 factor * ucast x) = h * unat x"
    using hx by (subst unat_mult_small) (simp_all add: high word_nat)
  have cm: "unat carry mod bbase < 2 ^ 28" by (simp add: bbase_def)
  have tmp: "unat tmp = unat carry mod bbase + l * unat x"
    using lx cm unfolding tmp_def by (subst unat_add_small) (simp_all add: plow word_nat)
  have push: "unat (push_bit 4 (drop_bit 32 factor * ucast x)) = h * unat x * 16"
    using hx by (subst unat_push_bit_small) (simp_all add: phigh)
  define N where "N = unat carry div bbase + unat tmp div bbase + h * unat x * 16"
  have "unat tmp mod bbase + N * bbase
      = (unat tmp mod bbase + unat tmp div bbase * bbase) + unat carry div bbase * bbase + h * unat x * (16 * bbase)"
    by (simp add: N_def algebra_simps)
  also have "\<dots> = (unat carry mod bbase + unat carry div bbase * bbase) + (h * 2 ^ 32 + l) * unat x"
    by (simp only: mod_div_mult_eq) (simp add: tmp bbase_def algebra_simps)
  finally have N: "unat tmp mod bbase + N * bbase = unat factor * unat x + unat carry"
    by (simp add: f)
  have "unat factor * unat x + unat carry < unat factor * (unat x + 1)" using c by simp
  also have "\<dots> \<le> unat factor * bbase" using x by (intro mult_le_mono2) simp
  finally have "N * bbase < unat factor * bbase" using N by linarith
  then have less: "N < unat factor" by simp
  then have "N < 2 ^ 64" using unat_less_64 [of factor] by simp
  then have "unat carry' = N"
    unfolding carry'_def by (subst unat_add_small; (subst unat_add_small)?) (simp_all add: word_nat push N_def)
  with N less show "unat (ucast (tmp AND ucast kBigitMask) :: Chunk) + unat carry' * bbase
      = unat factor * unat x + unat carry" "unat carry' < unat factor"
    by (simp_all add: word_nat)
qed

lemma mult64_loop:
  fixes factor :: uint64
  assumes "length orig = 128" "is_bigits orig" "n \<le> 128" "0 < unat factor"
  shows "returns (for_up 0 n
          (\<lambda>i (xs, carry). do {
             x \<leftarrow> vget xs i;
             let product_low = (factor AND 0xFFFFFFFF) * ucast x;
             let product_high = drop_bit 32 factor * ucast x;
             let tmp = (carry AND ucast kBigitMask) + product_low;
             xs \<leftarrow> vset xs i (ucast (tmp AND ucast kBigitMask));
             Some (xs, drop_bit kBigitSize carry + drop_bit kBigitSize tmp
                       + push_bit (32 - kBigitSize) product_high) }) (orig, 0))
     (\<lambda>(xs, carry). scaled (unat factor) n orig xs (unat carry))"
proof (rule returns_for_up [where I = "\<lambda>i (xs, carry). scaled (unat factor) i orig xs (unat carry) \<and>
    unat carry < unat factor"], goal_cases)
  case (3 i st)
  obtain xs c where st: "st = (xs, c)" by (cases st)
  with 3 have I: "scaled (unat factor) i orig xs (unat c)" "unat c < unat factor" by auto
  have i: "i < length orig" using 3 assms by simp
  have x: "unat (xs ! i) < bbase" "length xs = 128"
    using I i assms scaled_nth [OF I(1) i] by (auto simp: is_bigits_nth scaled_def)
  note dig = mult64_digit [OF x(1) I(2)]
  note sc = scaled_Suc [OF I(1) i _ dig(1) [unfolded scaled_nth [OF I(1) i]], folded scaled_nth [OF I(1) i]]
  show ?case
    using sc st dig(2) x i assms by (auto simp: wp Let_def word_nat)
qed (use assms in \<open>auto simp: scaled_0\<close>)

lemma MultiplyByUInt64_correct:
  assumes inv: "bignum_inv a" and cap: "bigits_val (bigits a) * unat factor < bbase ^ 128"
  shows "returns (MultiplyByUInt64 a factor) (\<lambda>r. bignum_inv r \<and> bignum_val r = bignum_val a * unat factor \<and>
    (used_digits r \<noteq> 0 \<longrightarrow> exponent r = exponent a \<and> bigits_val (bigits r) = bigits_val (bigits a) * unat factor))"
proof -
  have raw: "bignum_raw a" using inv by (rule bignum_inv_raw)
  consider "factor = 1" | "factor = 0" | "used_digits a = 0" "factor \<noteq> 1" "factor \<noteq> 0"
    | "factor \<noteq> 1" "factor \<noteq> 0" "0 < used_digits a" by blast
  then show ?thesis
  proof cases
    case 2
    then show ?thesis
      using raw by (auto simp: MultiplyByUInt64_def new_bignum_def intro!: returns_mono [OF Zero_new])
        (simp_all add: new_bignum_def [symmetric])
  next
    case 3
    have "append_carry a (bigits a) 0 = Some a"
      by (simp add: append_carry_def while_loop.simps)
    with 3 show ?thesis using inv used_digits_0_iff [OF inv] by (simp add: MultiplyByUInt64_def Let_def)
  next
    case 4
    then have f: "0 < unat factor" by (simp add: unat_gt_0)
    note loop = mult64_loop [of "bigits a" "used_digits a" factor]
    have "length (bigits a) = 128" "is_bigits (bigits a)" "used_digits a \<le> 128"
      using raw by (auto simp: bignum_raw_def)
    with f have "returns (MultiplyByUInt64 a factor) (\<lambda>r. bignum_inv r \<and>
        bigits_val (bigits r) = bigits_val (bigits a) * unat factor \<and> exponent r = exponent a)"
      unfolding MultiplyByUInt64_def if_not_P [OF 4(1)] if_not_P [OF 4(2)] Let_def [of "factor AND 0xFFFFFFFF"]
        Let_def [of "drop_bit 32 factor"] returns_bind
      by (intro returns_mono [OF loop]) (auto intro!: scaled_append_carry [OF inv 4(3) f cap])
    then show ?thesis by (rule returns_mono) (simp add: bignum_val_def)
  qed (use inv in \<open>auto simp: MultiplyByUInt64_def\<close>)
qed

text \<open>The same for a factor and a number that are not zero: the exponent stays.\<close>

lemma nonzero_product:
  assumes "bignum_inv r" "bignum_val r = bignum_val a * f" "bignum_inv a" "0 < used_digits a" "0 < f"
  shows "0 < used_digits r"
  using assms used_digits_0_iff [OF assms(1)] used_digits_0_iff [OF assms(3)] by (metis less_not_refl3 mult_is_0 not_gr_zero)

lemma MultiplyByUInt32_nonzero:
  assumes "bignum_inv a" "0 < used_digits a" "0 < unat factor" "bigits_val (bigits a) * unat factor < bbase ^ 128"
  shows "returns (MultiplyByUInt32 a factor) (\<lambda>r. bignum_inv r \<and> 0 < used_digits r \<and> exponent r = exponent a \<and>
    bigits_val (bigits r) = bigits_val (bigits a) * unat factor)"
  by (rule returns_mono [OF MultiplyByUInt32_correct [OF assms(1,4)]])
    (use assms nonzero_product in \<open>metis less_numeral_extra(3)\<close>)

lemma MultiplyByUInt64_nonzero:
  assumes "bignum_inv a" "0 < used_digits a" "0 < unat factor" "bigits_val (bigits a) * unat factor < bbase ^ 128"
  shows "returns (MultiplyByUInt64 a factor) (\<lambda>r. bignum_inv r \<and> 0 < used_digits r \<and> exponent r = exponent a \<and>
    bigits_val (bigits r) = bigits_val (bigits a) * unat factor)"
  by (rule returns_mono [OF MultiplyByUInt64_correct [OF assms(1,4)]])
    (use assms nonzero_product in \<open>metis less_numeral_extra(3)\<close>)

section \<open>Powers of ten\<close>

lemma unat_kFive27: "unat kFive27 = 5 ^ 27" and unat_kFive13: "unat kFive13 = 5 ^ 13"
  by (simp_all add: kFive27_def kFive13_def)

lemma kFive1_to_12_nth: "0 < n \<Longrightarrow> n \<le> 12 \<Longrightarrow> n - 1 < length kFive1_to_12 \<and> unat (kFive1_to_12 ! (n - 1)) = 5 ^ n"
proof -
  assume "0 < n" "n \<le> 12"
  then have "n \<in> {1, 2, 3, 4, 5, 6, 7, 8, 9, 10, 11, 12}"
    by (simp only: insert_iff empty_iff) presburger
  then show ?thesis by (auto simp: kFive1_to_12_def)
qed

text \<open>
  What the two loops keep: \<open>rem\<close> of the \<open>e\<close> factors of five are still missing.
\<close>

definition five_inv :: "bignum \<Rightarrow> nat \<Rightarrow> bignum \<times> nat \<Rightarrow> bool" where
  "five_inv a e = (\<lambda>(b, rem). bignum_inv b \<and> 0 < used_digits b \<and> exponent b = exponent a \<and>
     bigits_val (bigits b) * 5 ^ rem = bigits_val (bigits a) * 5 ^ e)"

lemma five_inv_cap:
  assumes "five_inv a e (b, rem)" "k \<le> rem" "bigits_val (bigits a) * 5 ^ e < bbase ^ 127"
  shows "bigits_val (bigits b) * 5 ^ k < bbase ^ 128"
proof -
  have "bigits_val (bigits b) * 5 ^ k \<le> bigits_val (bigits b) * 5 ^ rem"
    using assms(2) by (intro mult_le_mono2 power_increasing) auto
  also have "\<dots> < bbase ^ 127" using assms(1,3) by (simp add: five_inv_def)
  also have "\<dots> < bbase ^ 128" by (simp only: pow_bbase_less_iff)
  finally show ?thesis .
qed

lemma five_inv_mult:
  assumes "five_inv a e (b, rem)" "k \<le> rem" "bignum_inv r" "0 < used_digits r" "exponent r = exponent b"
    "bigits_val (bigits r) = bigits_val (bigits b) * 5 ^ k"
  shows "five_inv a e (r, rem - k)"
  using assms by (simp add: five_inv_def mult.assoc power_add [symmetric])

lemma five_loop:
  assumes mul: "\<And>b. bignum_inv b \<Longrightarrow> 0 < used_digits b \<Longrightarrow> bigits_val (bigits b) * 5 ^ k < bbase ^ 128 \<Longrightarrow>
      returns (mul b) (\<lambda>r. bignum_inv r \<and> 0 < used_digits r \<and> exponent r = exponent b \<and>
        bigits_val (bigits r) = bigits_val (bigits b) * 5 ^ k)"
    and "0 < k" "five_inv a e (b, rem)" and cap: "bigits_val (bigits a) * 5 ^ e < bbase ^ 127"
    and post: "\<And>b rem. five_inv a e (b, rem) \<Longrightarrow> rem < k \<Longrightarrow> P (b, rem)"
  shows "returns (while_loop (\<lambda>(a, remaining_exponent). Some (remaining_exponent \<ge> k))
    (\<lambda>(a, remaining_exponent). do { a \<leftarrow> mul a; Some (a, remaining_exponent - k) }) (b, rem)) P"
proof (rule returns_while [where I = "five_inv a e" and m = snd], goal_cases)
  case (2 s)
  obtain b rem where s: "s = (b, rem)" by (cases s)
  show ?case
  proof (cases "k \<le> rem")
    case True
    have b: "bignum_inv b" "0 < used_digits b" using 2 s by (auto simp: five_inv_def)
    have "five_inv a e (b, rem)" using 2 s by simp
    note five_inv_mult [OF this True] five_inv_cap [OF this True cap]
    with True s b \<open>0 < k\<close> show ?thesis by (auto simp: returns_bind intro!: returns_mono [OF mul])
  next
    case False
    with 2 s show ?thesis by (simp add: post)
  qed
qed (use assms in auto)

lemma MultiplyByPowerOfTen_correct:
  assumes inv: "bignum_inv a" and cap: "bigits_val (bigits a) * 5 ^ e < bbase ^ 127"
  shows "returns (MultiplyByPowerOfTen a e) (\<lambda>r. bignum_inv r \<and> bignum_val r = bignum_val a * 10 ^ e \<and>
    (\<forall>k. bigits_val (bigits a) * 5 ^ e < bbase ^ k \<longrightarrow> used_digits r \<le> Suc k))"
proof (cases "e = 0 \<or> used_digits a = 0")
  case True
  then show ?thesis
    using inv used_digits_0_iff [OF inv] used_digits_le [OF inv]
    by (auto simp: MultiplyByPowerOfTen_def le_SucI)
next
  case False
  then have "e \<noteq> 0" "used_digits a \<noteq> 0" by auto
  have ten: "(10::nat) ^ e = 5 ^ e * 2 ^ e" by (simp add: power_mult_distrib [symmetric])
  have fin: "returns (ShiftLeft b e) (\<lambda>r. bignum_inv r \<and> bignum_val r = bignum_val a * 10 ^ e \<and>
    (\<forall>k. bigits_val (bigits a) * 5 ^ e < bbase ^ k \<longrightarrow> used_digits r \<le> Suc k))" if "five_inv a e (b, 0)" for b
  proof -
    have b: "bignum_inv b" "exponent b = exponent a" "bigits_val (bigits b) = bigits_val (bigits a) * 5 ^ e"
      using that by (auto simp: five_inv_def)
    have "used_digits b < 128" using used_digits_le [OF b(1), of 127] cap b(3) by simp
    from ShiftLeft_correct [OF b(1) this, of e] show ?thesis
      by (rule returns_mono)
        (use used_digits_le [OF b(1)] b in \<open>fastforce simp: bignum_val_def ten algebra_simps\<close>)
  qed
  show ?thesis
    unfolding MultiplyByPowerOfTen_def if_not_P [OF \<open>e \<noteq> 0\<close>] if_not_P [OF \<open>used_digits a \<noteq> 0\<close>] returns_bind
  proof (rule five_loop [OF _ _ _ cap], goal_cases)
    case (1 b)
    then show ?case using MultiplyByUInt64_nonzero [of b kFive27] by (simp add: unat_kFive27)
  next
    case 3
    show ?case using inv False by (simp add: five_inv_def)
  next
    case (4 b rem)
    show ?case
      unfolding prod.case returns_bind
    proof (rule five_loop [OF _ _ 4(1) cap], goal_cases)
      case (1 b)
      then show ?case using MultiplyByUInt32_nonzero [of b kFive13] by (simp add: unat_kFive13)
    next
      case (3 b rem)
      show ?case
      proof (cases "0 < rem")
        case True
        have b: "bignum_inv b" "0 < used_digits b" using 3(1) by (auto simp: five_inv_def)
        have f: "rem - 1 < length kFive1_to_12 \<and> unat (kFive1_to_12 ! (rem - 1)) = 5 ^ rem"
          using True 3(2) by (intro kFive1_to_12_nth) auto
        with True five_inv_cap [OF 3(1) order.refl cap] five_inv_mult [OF 3(1) order.refl] b show ?thesis
          unfolding prod.case
          by (auto simp: wp intro!: returns_mono [OF MultiplyByUInt32_nonzero] fin)
      qed (use 3 in \<open>auto intro: fin\<close>)
    qed simp
  qed simp
qed

end
