(* ===== verification/Bignum_Square.thy ===== *)
theory Bignum_Square
  imports Bignum_Mult
begin

text \<open>
  \<open>Bignum::Square\<close>, which multiplies column by column inside one buffer, and
  \<open>AssignPowerUInt16\<close>, the square-and-multiply loop built on it.
\<close>

section \<open>The columns of a square\<close>

text \<open>The digits as a function that is zero from the end on.\<close>

definition digit :: "Chunk list \<Rightarrow> nat \<Rightarrow> nat" where
  "digit xs i = (if i < length xs then unat (xs ! i) else 0)"

definition column :: "Chunk list \<Rightarrow> nat \<Rightarrow> nat" where
  "column xs i = (\<Sum>j\<le>i. digit xs (i - j) * digit xs j)"

lemma bigits_val_sum: "bigits_val xs = (\<Sum>i<length xs. digit xs i * bbase ^ i)"
proof (induction xs rule: rev_induct)
  case (snoc x xs)
  have "(\<Sum>i<length xs. digit (xs @ [x]) i * bbase ^ i) = (\<Sum>i<length xs. digit xs i * bbase ^ i)"
    by (intro sum.cong) (auto simp: digit_def nth_append)
  with snoc show ?case by (simp add: bigits_val_append digit_def)
qed simp

lemma square_columns: "bigits_val xs * bigits_val xs = (\<Sum>i<2 * length xs. column xs i * bbase ^ i)"
proof -
  let ?n = "length xs"
  have v: "bigits_val xs = (\<Sum>i\<le>?n. digit xs i * bbase ^ i)"
    by (simp add: bigits_val_sum lessThan_Suc_atMost [symmetric] digit_def)
  have "bigits_val xs * bigits_val xs = (\<Sum>r\<le>?n + ?n. (\<Sum>k\<le>r. digit xs k * digit xs (r - k)) * bbase ^ r)"
    unfolding v by (rule polynomial_product_nat) (auto simp: digit_def)
  also have "\<dots> = (\<Sum>r\<le>2 * ?n. column xs r * bbase ^ r)"
    by (intro sum.cong) (auto simp: column_def mult.commute)
  also have "column xs (2 * ?n) = 0"
    by (auto simp: column_def digit_def)
  then have "(\<Sum>r\<le>2 * ?n. column xs r * bbase ^ r) = (\<Sum>r<2 * ?n. column xs r * bbase ^ r)"
    by (simp add: lessThan_Suc_atMost [symmetric])
  finally show ?thesis .
qed

text \<open>A column of at most 64 products of bigits leaves room for the carry in 64 bits.\<close>

lemma column_bound:
  assumes "is_bigits xs" "length xs \<le> 64"
  shows "column xs i \<le> 64 * ((bbase - 1) * (bbase - 1))"
proof -
  have d: "digit xs j \<le> bbase - 1" for j
    using is_bigits_nth [OF assms(1), of j] by (auto simp: digit_def)
  have "column xs i = (\<Sum>j\<in>{..i} \<inter> {..<length xs}. digit xs (i - j) * digit xs j)"
    unfolding column_def by (intro sum.mono_neutral_right) (auto simp: digit_def)
  also have "\<dots> \<le> (\<Sum>j\<in>{..i} \<inter> {..<length xs}. (bbase - 1) * (bbase - 1))"
    by (intro sum_mono mult_le_mono d)
  also have "\<dots> \<le> 64 * ((bbase - 1) * (bbase - 1))"
    using assms(2) card_mono [of "{..<length xs}" "{..i} \<inter> {..<length xs}"]
    by simp
  finally show ?thesis .
qed

text \<open>The loop over one column.\<close>

lemma column_loop:
  assumes "lo \<le> hi" "\<And>j. lo \<le> j \<Longrightarrow> j < hi \<Longrightarrow> off + (i - j) < length xs \<and> off + j < length xs"
    and "unat acc + (\<Sum>j\<in>{lo..<hi}. unat (xs ! (off + (i - j))) * unat (xs ! (off + j))) < 2 ^ 64"
  shows "returns (for_up lo hi (\<lambda>bigit_index2 accumulator. do {
            p \<leftarrow> square_product xs off (i - bigit_index2) bigit_index2;
            Some (accumulator + p) }) acc)
     (\<lambda>r. unat r = unat acc + (\<Sum>j\<in>{lo..<hi}. unat (xs ! (off + (i - j))) * unat (xs ! (off + j))))"
proof -
  define f where "f j = unat (xs ! (off + (i - j))) * unat (xs ! (off + j))" for j
  show ?thesis
    unfolding f_def [symmetric]
  proof (rule returns_for_up [where I = "\<lambda>k r. unat r = unat acc + (\<Sum>j\<in>{lo..<k}. f j)"], goal_cases)
    case (3 k r)
    have "(\<Sum>j\<in>{lo..<Suc k}. f j) \<le> (\<Sum>j\<in>{lo..<hi}. f j)"
      using 3 by (intro sum_mono2) auto
    then have small: "unat acc + (\<Sum>j\<in>{lo..<k}. f j) + f k < 2 ^ 64"
      using assms(3) 3 by (simp add: f_def [symmetric])
    have "unat ((ucast (xs ! (off + (i - k))) :: DoubleChunk) * ucast (xs ! (off + k))) = f k"
      using small by (subst unat_mult_small) (simp_all add: f_def word_nat)
    with 3 small assms(2) [of k] show ?case
      by (simp add: wp square_product_def) (subst unat_add_small; simp)
  qed (use assms in auto)
qed

text \<open>
  The invariant of both column loops of \<open>Square\<close>. The digits still to be read were copied to
  \<open>used\<close> and are above the ones already written.
\<close>

definition square_inv :: "Chunk list \<Rightarrow> nat \<Rightarrow> Chunk list \<times> DoubleChunk \<Rightarrow> bool" where
  "square_inv ds i = (\<lambda>(xs, acc). length xs = 128 \<and> is_bigits xs \<and> zero_from (2 * length ds) xs \<and>
     (\<forall>k < length ds. i \<le> length ds + k \<longrightarrow> xs ! (length ds + k) = ds ! k) \<and>
     unat acc \<le> 64 * bbase \<and>
     bigits_val (take i xs) + unat acc * bbase ^ i = (\<Sum>j<i. column ds j * bbase ^ j))"

lemma square_step:
  assumes ds: "is_bigits ds" "length ds \<le> 64" and i: "i < 2 * length ds" and I: "square_inv ds i (xs, acc)"
    and col: "returns (col xs i acc) (\<lambda>r. unat r = unat acc + column ds i)"
  shows "returns (store_column col i (xs, acc)) (square_inv ds (Suc i))"
proof -
  from col obtain r where r: "col xs i acc = Some r" "unat r = unat acc + column ds i" by (auto elim: returnsE)
  let ?d = "ucast r AND kBigitMask :: Chunk"
  have xs: "length xs = 128" "is_bigits xs" using I by (auto simp: square_inv_def)
  have d: "unat ?d = unat r mod bbase"
    by (simp add: word_nat unsigned_ucast_eq take_bit_eq_mod bbase_def mod_mod_cancel)
  have "bigits_val (take (Suc i) (xs[i := ?d])) + unat r div bbase * bbase ^ Suc i
      = bigits_val (take i xs) + unat r * bbase ^ i"
  proof -
    have "unat r mod bbase * bbase ^ i + unat r div bbase * bbase ^ Suc i
        = (unat r mod bbase + unat r div bbase * bbase) * bbase ^ i"
      by (simp only: add_mult_distrib power_Suc mult.assoc)
    then show ?thesis
      using xs i ds by (simp add: bigits_val_take_Suc d del: power_Suc)
  qed
  also have "\<dots> = (bigits_val (take i xs) + unat acc * bbase ^ i) + column ds i * bbase ^ i"
    by (simp only: r(2) add_mult_distrib)
  also have "\<dots> = (\<Sum>j<Suc i. column ds j * bbase ^ j)"
    using I by (simp add: square_inv_def)
  finally have val: "bigits_val (take (Suc i) (xs[i := ?d])) + unat r div bbase * bbase ^ Suc i
      = (\<Sum>j<Suc i. column ds j * bbase ^ j)" .
  have "unat r \<le> 64 * bbase + 64 * ((bbase - 1) * (bbase - 1))"
    using column_bound [OF ds, of i] I r(2) by (auto simp: square_inv_def)
  then have "unat r div bbase \<le> 64 * bbase"
    by (simp add: bbase_def)
  with val r xs I i ds d show ?thesis
    unfolding square_inv_def store_column_def
    by (auto simp: wp word_nat intro!: is_bigits_update zero_from_update)
qed

lemma column_low:
  assumes ds: "is_bigits ds" "length ds \<le> 64" and i: "i < length ds" and I: "square_inv ds i (xs, acc)"
  shows "returns (square_low_column (length ds) xs i acc) (\<lambda>r. unat r = unat acc + column ds i)"
proof -
  have len: "length xs = 128" "unat acc \<le> 64 * bbase" using I by (auto simp: square_inv_def)
  have "(\<Sum>j\<in>{0..<i + 1}. unat (xs ! (length ds + (i - j))) * unat (xs ! (length ds + j))) = column ds i"
    unfolding column_def using I i
    by (intro sum.cong) (auto simp: square_inv_def digit_def atLeast0LessThan lessThan_Suc_atMost)
  moreover have "unat acc + column ds i < 2 ^ 64"
    using column_bound [OF ds, of i] len by (simp add: bbase_def)
  ultimately show ?thesis
    unfolding square_low_column_def
    using column_loop [of 0 "i + 1" "length ds" i xs acc] len i ds by auto
qed

lemma column_high:
  assumes ds: "is_bigits ds" "length ds \<le> 64" and i: "length ds \<le> i" "i < 2 * length ds"
    and I: "square_inv ds i (xs, acc)"
  shows "returns (square_high_column (length ds) (length ds) xs i acc) (\<lambda>r. unat r = unat acc + column ds i)"
proof -
  let ?n = "length ds"
  have len: "length xs = 128" "unat acc \<le> 64 * bbase" using I by (auto simp: square_inv_def)
  have nth: "xs ! (?n + k) = ds ! k" if "k < ?n" "i \<le> ?n + k" for k using that I by (auto simp: square_inv_def)
  have "column ds i = (\<Sum>j\<in>{i - (?n - 1)..<?n}. digit ds (i - j) * digit ds j)"
    unfolding column_def using i by (intro sum.mono_neutral_right) (auto simp: digit_def)
  also have "\<dots> = (\<Sum>j\<in>{i - (?n - 1)..<?n}. unat (xs ! (?n + (i - j))) * unat (xs ! (?n + j)))"
  proof (intro sum.cong refl, goal_cases)
    case (1 j)
    then show ?case using nth [of j] nth [of "i - j"] i by (auto simp: digit_def)
  qed
  finally have "(\<Sum>j\<in>{i - (?n - 1)..<?n}. unat (xs ! (?n + (i - j))) * unat (xs ! (?n + j))) = column ds i" ..
  moreover have "unat acc + column ds i < 2 ^ 64"
    using column_bound [OF ds, of i] len by (simp add: bbase_def)
  ultimately show ?thesis
    unfolding square_high_column_def
    using column_loop [of "i - (?n - 1)" ?n ?n i xs acc] len i ds by auto
qed

lemma square_copy:
  assumes "length xs = 128" "is_bigits xs" "zero_from n xs" "n \<le> 64"
  shows "returns (for_up 0 n (\<lambda>i xs. do { x \<leftarrow> vget xs i; vset xs (n + i) x }) xs)
    (\<lambda>ys. square_inv (take n xs) 0 (ys, 0))"
proof (rule returns_for_up [where I = "\<lambda>i ys. length ys = 128 \<and> is_bigits ys \<and> zero_from (n + i) ys \<and>
    (\<forall>k < n. ys ! k = xs ! k) \<and> (\<forall>k < i. ys ! (n + k) = xs ! k)"], goal_cases)
  case (3 i ys)
  with assms show ?case
    by (auto simp: wp is_bigits_nth nth_list_update less_Suc_eq intro!: is_bigits_update zero_from_update)
qed (use assms in \<open>auto simp: square_inv_def min_def mult_2\<close>)

lemma Square_correct:
  assumes inv: "bignum_inv a" and cap: "used_digits a \<le> 64"
  shows "returns (Square a) (\<lambda>r. bignum_inv r \<and> bignum_val r = bignum_val a * bignum_val a \<and>
    (used_digits r \<noteq> 0 \<longrightarrow> exponent r = 2 * exponent a))"
proof -
  let ?n = "used_digits a"
  define ds where "ds = take ?n (bigits a)"
  have raw: "length (bigits a) = 128" "is_bigits (bigits a)" "zero_from ?n (bigits a)"
    using inv by (auto simp: bignum_inv_def bignum_raw_def)
  have ds: "length ds = ?n" "is_bigits ds" "bigits_val ds = bigits_val (bigits a)"
    using raw cap by (simp_all add: ds_def is_bigits_take bigits_val_zero_from)
  have fin: "returns (Option.bind (check (acc = 0)) (\<lambda>_. Clamp (a\<lparr>bigits := xs, used_digits := 2 * ?n,
      exponent := exponent a * 2\<rparr>))) (\<lambda>r. bignum_inv r \<and> bignum_val r = bignum_val a * bignum_val a \<and>
      (used_digits r \<noteq> 0 \<longrightarrow> exponent r = 2 * exponent a))"
    if I: "square_inv ds (2 * ?n) (xs, acc)" for xs acc
  proof -
    have xs: "length xs = 128" "is_bigits xs" "zero_from (2 * ?n) xs"
      using I ds by (auto simp: square_inv_def)
    have sq: "bigits_val xs + unat acc * bbase ^ (2 * ?n) = bigits_val (bigits a) * bigits_val (bigits a)"
      using I square_columns [of ds] ds bigits_val_zero_from [OF xs(3)] by (simp add: square_inv_def)
    also have "\<dots> < bbase ^ ?n * bbase ^ ?n"
      using bignum_raw_bound [OF bignum_inv_raw [OF inv]] by (intro mult_strict_mono) auto
    also have "\<dots> = 1 * bbase ^ (2 * ?n)" by (simp add: mult_2 power_add)
    finally have "unat acc * bbase ^ (2 * ?n) < 1 * bbase ^ (2 * ?n)" by linarith
    then have acc: "acc = 0" by (simp add: unat_eq_0_iff)
    let ?r = "a\<lparr>bigits := xs, used_digits := 2 * ?n, exponent := exponent a * 2\<rparr>"
    have "bignum_raw ?r" "bignum_val ?r = bignum_val a * bignum_val a"
      using xs sq acc cap by (auto simp: bignum_raw_def bignum_val_def mult_2_right power_add)
    with acc show ?thesis by (auto simp: wp intro!: returns_mono [OF Clamp_correct])
  qed
  have high: "returns (for_up ?n (2 * ?n) (store_column (square_high_column ?n ?n)) (xs, acc))
      (square_inv ds (2 * ?n))" if "square_inv ds ?n (xs, acc)" for xs acc
  proof (rule returns_for_up [where I = "square_inv ds"], goal_cases)
    case (3 i s)
    with column_high [OF ds(2), of i "fst s" "snd s"] square_step [OF ds(2), of i "fst s" "snd s"] ds cap
    show ?case by simp
  qed (use that in auto)
  have low: "returns (for_up 0 ?n (store_column (square_low_column ?n)) (xs, 0)) (square_inv ds ?n)"
    if "square_inv ds 0 (xs, 0)" for xs
  proof (rule returns_for_up [where I = "square_inv ds"], goal_cases)
    case (3 i s)
    with column_low [OF ds(2), of i "fst s" "snd s"] square_step [OF ds(2), of i "fst s" "snd s"] ds cap
    show ?case by simp
  qed (use that in auto)
  show ?thesis
    unfolding Square_def Let_def returns_bind returns_assert_clamped [OF inv] returns_EnsureCapacity returns_check
  proof (intro conjI, goal_cases)
    case 3
    show ?case
    proof (rule returns_mono [OF square_copy [OF raw cap]], goal_cases)
      case (1 xs)
      then have "square_inv ds 0 (xs, 0)" by (simp add: ds_def)
      from low [OF this] show ?case
      proof (rule returns_mono, goal_cases)
        case (1 s)
        with high [of "fst s" "snd s"] fin show ?case
          by (auto simp: returns_bind split: prod.splits elim!: returns_mono)
      qed
    qed
  qed (use cap in auto)
qed

section \<open>Powers\<close>

lemma power_odd_part_correct:
  assumes "unat base = q * 2 ^ t" "odd q"
  shows "returns (power_odd_part base) (\<lambda>(b, s). unat b = q \<and> s = t)"
  unfolding power_odd_part_def
proof (rule returns_while [where I = "\<lambda>(b, s). s \<le> t \<and> unat b = q * 2 ^ (t - s)" and m = "\<lambda>(b, s). t - s"], goal_cases)
  case (2 x)
  obtain b s where x: "x = (b, s)" "s \<le> t" "unat b = q * 2 ^ (t - s)" using 2 by (cases x) auto
  have "unat (b AND 1) = unat b mod 2" using unat_and_mask [of b 1] by simp
  then have low: "b AND 1 = 0 \<longleftrightarrow> even (unat b)" by (metis even_iff_mod_2_eq_zero unat_eq_zero)
  show ?case
  proof (cases "s < t")
    case True
    then have "q * 2 ^ (t - s) = 2 * (q * 2 ^ (t - Suc s))"
      by (metis Suc_diff_Suc mult.left_commute power_Suc)
    with True x low show ?thesis by (simp add: unat_drop_bit)
  next
    case False
    with x low assms(2) show ?thesis by simp
  qed
qed (use assms in auto)

lemma power_bit_size_correct:
  assumes "unat base < 2 ^ n"
  shows "returns (power_bit_size base) (\<lambda>s. unat base < 2 ^ s \<and> s \<le> n)"
  unfolding power_bit_size_def returns_bind
proof (rule returns_while [where I = "\<lambda>(b, s). b = unat base div 2 ^ s \<and> s \<le> n" and m = "\<lambda>(b, s). n - s"], goal_cases)
  case (2 x)
  obtain b s where x: "x = (b, s)" "b = unat base div 2 ^ s" "s \<le> n" using 2 by (cases x) auto
  show ?case
  proof (cases "b = 0")
    case True
    with x show ?thesis by (simp add: div_eq_0_iff)
  next
    case False
    with x assms have "s \<noteq> n" by (auto simp: div_eq_0_iff)
    with x False show ?thesis by (auto simp: div_mult2_eq [symmetric] mult.commute)
  qed
qed (use assms in auto)

lemma power_top_mask_correct:
  assumes "0 < e" "e < 2 ^ 30"
  shows "returns (power_top_mask e) (\<lambda>m. \<exists>k. m = 2 * 2 ^ k \<and> 2 ^ k \<le> e \<and> e < 2 * 2 ^ k)"
  unfolding power_top_mask_def
proof (rule returns_while [where I = "\<lambda>m. \<exists>k. m = 2 ^ k \<and> m \<le> 2 * e" and m = "\<lambda>m. 2 * e - m"], goal_cases)
  case 1
  show ?case using assms by (intro exI [of _ 0]) simp
next
  case (2 m)
  then obtain k where k: "m = 2 ^ k" "m \<le> 2 * e" by auto
  show ?case
  proof (cases "m \<le> e")
    case True
    then have "\<exists>j. m * 2 = 2 ^ j \<and> m * 2 \<le> 2 * e" using k by (intro exI [of _ "Suc k"]) simp
    moreover have "0 < m" using k(1) by simp
    then have "2 * e - m * 2 < 2 * e - m" using True by linarith
    ultimately show ?thesis using True k assms by (simp add: wp)
  next
    case False
    with k assms(1) obtain j where "k = Suc j" by (cases k) auto
    with k False show ?thesis by auto
  qed
qed

text \<open>
  The exponent is read from its top bit down. After the bit of weight \<open>2 ^ k\<close> the value is the power with the
  exponent \<open>e div 2 ^ k\<close>, and the mask is the next bit.
\<close>

lemma power_next_bit:
  "(e::nat) div 2 ^ k = 2 * (e div 2 ^ Suc k) + (if e AND 2 ^ k \<noteq> 0 then 1 else 0)"
proof -
  have "e AND 2 ^ k \<noteq> 0 \<longleftrightarrow> odd (e div 2 ^ k)"
    by (simp add: and_exp_eq_0_iff_not_bit bit_iff_odd)
  moreover have "e div 2 ^ Suc k = e div 2 ^ k div 2" by (simp add: div_mult2_eq [symmetric] mult.commute)
  ultimately show ?thesis by (cases "odd (e div 2 ^ k)") (simp_all del: power_Suc)
qed

lemma power_square_step:
  "b ^ (e div 2 ^ k) = b ^ (e div 2 ^ Suc k) * b ^ (e div 2 ^ Suc k) * (if e AND 2 ^ k \<noteq> 0 then b else 1)"
  for b e :: nat
  unfolding power_next_bit [of e k] by (simp add: power_add mult_2 del: power_Suc)

definition power_mask :: "nat \<Rightarrow> nat" where
  "power_mask k = 2 ^ k div 2"

lemma power_mask_simps [simp]: "power_mask 0 = 0" "power_mask (Suc k) = 2 ^ k" "2 ^ k div 2 = power_mask k"
  by (simp_all add: power_mask_def)

lemma power_mask_less: "power_mask k < 2 ^ k"
  unfolding power_mask_def by (rule div_less_dividend) auto

lemma power_mask_not_0: "0 < power_mask k \<Longrightarrow> (\<And>j. k = Suc j \<Longrightarrow> P) \<Longrightarrow> P"
  by (cases k) auto

definition power_word_inv :: "uint16 \<Rightarrow> nat \<Rightarrow> uint64 \<times> bool \<times> nat \<Rightarrow> bool" where
  "power_word_inv base e = (\<lambda>(v, delayed, mask). \<exists>k. mask = power_mask k \<and>
     unat v * (if delayed then unat base else 1) = unat base ^ (e div 2 ^ k) \<and> (delayed \<longrightarrow> 0xFFFFFFFF < v))"

lemma fits_high_mask:
  fixes v :: uint64
  shows "v AND NOT (push_bit (64 - s) 1 - 1) = 0 \<longleftrightarrow> unat v < 2 ^ (64 - s)"
proof -
  have "push_bit (64 - s) 1 - 1 = (mask (64 - s) :: uint64)" by (simp add: mask_eq_exp_minus_1 push_bit_of_1)
  then show ?thesis by (simp only: and_not_mask_iff)
qed

lemma power_word_step:
  assumes size: "unat base < 2 ^ s" "s \<le> 16" and pos: "0 < unat base"
    and I: "power_word_inv base e (v, delayed, m)" and go: "m \<noteq> 0" "v \<le> 0xFFFFFFFF"
  shows "power_word_inv base e (power_uint64_step base s e (v, delayed, m))"
    and "snd (snd (power_uint64_step base s e (v, delayed, m))) < m"
proof -
  from I go obtain k where k: "m = 2 ^ k" "\<not> delayed" "unat v = unat base ^ (e div 2 ^ Suc k)"
    by (auto simp: power_word_inv_def elim!: power_mask_not_0)
  have "unat v < 2 ^ 32" using go(2) by (simp add: word_le_nat_alt)
  then have "unat v * unat v < 2 ^ 32 * 2 ^ 32" by (intro mult_strict_mono) auto
  then have sq: "unat (v * v) = unat v * unat v" by (simp add: unat_mult_small)
  have b: "unat (ucast base :: uint64) = unat base"
    using unsigned_less [of base, where ?'a = nat] by (simp add: unsigned_ucast_eq take_bit_eq_mod)
  note step = power_square_step [of "unat base" e k]
  have small: "unat (v * v * ucast base) = unat v * unat v * unat base"
    if "v * v AND NOT (push_bit (64 - s) 1 - 1) = 0"
  proof -
    have "unat (v * v) < 2 ^ (64 - s)" using that by (simp only: fits_high_mask)
    then have "unat (v * v) * unat base < 2 ^ (64 - s) * 2 ^ s" using size(1) by (intro mult_strict_mono) auto
    also have "(2::nat) ^ (64 - s) * 2 ^ s = 2 ^ 64" using size(2) by (simp add: power_add [symmetric])
    finally show ?thesis by (subst unat_mult_small) (simp_all add: b sq)
  qed
  have large: "0xFFFFFFFF < v * v" if "v * v AND NOT (push_bit (64 - s) 1 - 1) \<noteq> 0"
  proof (rule ccontr)
    assume "\<not> 0xFFFFFFFF < v * v"
    then have "unat (v * v) < 2 ^ 32" by (simp add: not_less word_le_nat_alt)
    moreover have "(2::nat) ^ 32 \<le> 2 ^ (64 - s)" using size(2) by (intro power_increasing) auto
    ultimately show False using that unfolding fits_high_mask by linarith
  qed
  show "power_word_inv base e (power_uint64_step base s e (v, delayed, m))"
  proof (cases "e AND 2 ^ k = 0")
    case True
    then show ?thesis
      using k(1,2) sq step [folded k(3)]
      by (simp add: power_word_inv_def power_uint64_step_def) (rule exI [of _ k], simp)
  next
    case False
    then have pow: "unat base ^ (e div 2 ^ k) = unat v * unat v * unat base" using step [folded k(3)] by simp
    define fits where "fits \<longleftrightarrow> v * v AND NOT (push_bit (64 - s) 1 - 1) = 0"
    have st: "power_uint64_step base s e (v, delayed, m)
      = (if fits then (v * v * ucast base, delayed, power_mask k) else (v * v, True, power_mask k))"
      using False k(1) by (simp add: power_uint64_step_def Let_def fits_def)
    show ?thesis
    proof (cases fits)
      case True
      then show ?thesis
        unfolding st power_word_inv_def using k(2) small [folded fits_def] pow by (auto intro!: exI [of _ k])
    next
      case False
      then show ?thesis
        unfolding st power_word_inv_def using large [folded fits_def] pow sq by (auto intro!: exI [of _ k])
    qed
  qed
  show "snd (snd (power_uint64_step base s e (v, delayed, m))) < m"
    using k(1) by (simp add: power_uint64_step_def Let_def power_mask_less)
qed

lemma power_word_loop:
  assumes size: "unat base < 2 ^ s" "s \<le> 16" and pos: "0 < unat base" and e: "2 ^ k \<le> e" "e < 2 * 2 ^ k"
    and post: "\<And>v delayed j. unat v * (if delayed then unat base else 1) = unat base ^ (e div 2 ^ j) \<Longrightarrow>
      P (v, delayed, power_mask j)"
  shows "returns (while_loop (\<lambda>(this_value, delayed, mask). Some (mask \<noteq> 0 \<and> this_value \<le> 0xFFFFFFFF))
         (\<lambda>s'. Some (power_uint64_step base s e s')) (ucast base, False, power_mask k)) P"
proof (rule returns_while [where I = "power_word_inv base e" and m = "\<lambda>(v, d, m). m"], goal_cases)
  case 1
  have b: "unat (ucast base :: uint64) = unat base"
    using unsigned_less [of base, where ?'a = nat] by (simp add: unsigned_ucast_eq take_bit_eq_mod)
  have "e div 2 ^ k = 1" using e by (intro div_nat_eqI) auto
  then show ?case using b by (auto simp: power_word_inv_def intro!: exI [of _ k])
next
  case (2 x)
  obtain v d m where x: "x = (v, d, m)" by (cases x)
  show ?case
  proof (cases "m \<noteq> 0 \<and> v \<le> 0xFFFFFFFF")
    case True
    with 2 x power_word_step [OF size pos, of e v d m] show ?thesis by (auto split: prod.splits)
  next
    case False
    with 2 x show ?thesis by (auto simp: power_word_inv_def intro!: post)
  qed
qed

text \<open>The loop on the \<open>Bignum\<close>: every intermediate power fits, since the last one does.\<close>

lemma pow_le_pow_div: "0 < b \<Longrightarrow> b ^ (e div 2 ^ k) \<le> b ^ e" for b e :: nat
  by (intro power_increasing) auto

lemma power_big_step:
  assumes b: "unat f = b" "0 < b" and cap: "b ^ e < bbase ^ 127"
    and inv: "bignum_inv a" "exponent a = 0" "bignum_val a = b ^ (e div 2 ^ Suc k)"
  shows "returns (do { a \<leftarrow> Square a; if e AND 2 ^ k \<noteq> 0 then MultiplyByUInt32 a f else Some a })
    (\<lambda>r. bignum_inv r \<and> exponent r = 0 \<and> bignum_val r = b ^ (e div 2 ^ k))"
proof -
  note step = power_square_step [of b e k, folded inv(3)]
  have lim: "b ^ (e div 2 ^ k) < bbase ^ 127" using pow_le_pow_div [OF b(2), of e k] cap by simp
  have pos: "0 < bignum_val a" using inv(3) b(2) by simp
  have "bignum_val a * bignum_val a * 1 \<le> b ^ (e div 2 ^ k)" unfolding step using b(2) by (intro mult_le_mono2) auto
  then have sq: "bignum_val a * bignum_val a < bbase ^ 127" using lim by simp
  also have "bbase ^ 127 \<le> bbase ^ 64 * bbase ^ 64" by (simp only: power_add [symmetric] pow_bbase_le_iff)
  finally have "bignum_val a < bbase ^ 64"
    by (meson leI mult_le_mono not_le)
  then have used: "used_digits a \<le> 64" using inv by (intro used_digits_le) (auto simp: bignum_val_def)
  show ?thesis
    unfolding returns_bind
  proof (rule returns_mono [OF Square_correct [OF inv(1) used]], goal_cases)
    case (1 r)
    then have r: "bignum_inv r" "bignum_val r = bignum_val a * bignum_val a" by auto
    have ur: "0 < used_digits r" using used_digits_0_iff [OF r(1)] r(2) pos by simp
    with 1 inv(2) have er: "exponent r = 0" by simp
    show ?case
    proof (cases "e AND 2 ^ k = 0")
      case True
      with r er step show ?thesis by simp
    next
      case False
      then have v: "bigits_val (bigits r) * unat f = b ^ (e div 2 ^ k)"
        using r(2) er step b(1) by (simp add: bignum_val_def)
      also have "\<dots> < bbase ^ 128" using lim pow_bbase_less_iff [of 127 128] by simp
      finally have "bigits_val (bigits r) * unat f < bbase ^ 128" .
      from MultiplyByUInt32_nonzero [OF r(1) ur _ this] b False v er show ?thesis
        by (auto simp: bignum_val_def elim!: returns_mono)
    qed
  qed
qed

lemma power_big_loop:
  assumes b: "unat f = b" "0 < b" and cap: "b ^ e < bbase ^ 127"
    and inv: "bignum_inv a" "exponent a = 0" "bignum_val a = b ^ (e div 2 ^ k)"
    and post: "\<And>r m. bignum_inv r \<Longrightarrow> exponent r = 0 \<Longrightarrow> bignum_val r = b ^ e \<Longrightarrow> P (r, m)"
  shows "returns (while_loop (\<lambda>(a, mask). Some (mask \<noteq> 0))
         (\<lambda>(a, mask). do {
            a \<leftarrow> Square a;
            a \<leftarrow> (if e AND mask \<noteq> 0 then MultiplyByUInt32 a f else Some a);
            Some (a, mask div 2) }) (a, power_mask k)) P"
proof (rule returns_while [where m = snd and I = "\<lambda>(r, m). \<exists>j. m = power_mask j \<and> bignum_inv r \<and> exponent r = 0 \<and>
    bignum_val r = b ^ (e div 2 ^ j)"], goal_cases)
  case (2 x)
  then obtain r j where x: "x = (r, power_mask j)" "bignum_inv r" "exponent r = 0" "bignum_val r = b ^ (e div 2 ^ j)"
    by (cases x) auto
  show ?case
  proof (cases j)
    case 0
    with x show ?thesis by (auto intro!: post)
  next
    case (Suc i)
    have "returns (do { a \<leftarrow> Square r; if e AND 2 ^ i \<noteq> 0 then MultiplyByUInt32 a f else Some a })
      (\<lambda>r. \<exists>j. power_mask i = power_mask j \<and> bignum_inv r \<and> exponent r = 0 \<and> bignum_val r = b ^ (e div 2 ^ j))"
      by (rule returns_mono [OF power_big_step [OF b cap]]) (use x Suc in auto)
    with x Suc show ?thesis
      by (simp add: returns_bind power_mask_less)
  qed
qed (use inv in auto)

lemma power_delayed:
  assumes b: "unat f = b" "0 < b" and cap: "b ^ e < bbase ^ 127"
    and v: "unat v * (if delayed then b else 1) = b ^ (e div 2 ^ j)"
  shows "returns (do {
         a \<leftarrow> AssignUInt64 new_bignum v;
         if delayed then MultiplyByUInt32 a f else Some a })
    (\<lambda>r. bignum_inv r \<and> exponent r = 0 \<and> bignum_val r = b ^ (e div 2 ^ j))"
  unfolding returns_bind
proof (rule returns_mono [OF AssignUInt64_correct], goal_cases)
  case 1
  show ?case by (rule bignum_inv_raw) simp
next
  case (2 r)
  then have r: "bignum_inv r" "bignum_val r = unat v" "exponent r = 0" by auto
  show ?case
  proof (cases delayed)
    case False
    with r v show ?thesis by simp
  next
    case True
    have "0 < b ^ (e div 2 ^ j)" using b(2) by simp
    then have "0 < unat v" using v True by (metis mult_0 not_gr_zero)
    then have ur: "0 < used_digits r" using used_digits_0_iff [OF r(1)] r(2) by simp
    have val: "bigits_val (bigits r) * unat f = b ^ (e div 2 ^ j)"
      using r v True b(1) by (simp add: bignum_val_def)
    also have "\<dots> < bbase ^ 127" using pow_le_pow_div [OF b(2), of e j] cap by simp
    also have "\<dots> < bbase ^ 128" by (simp only: pow_bbase_less_iff)
    finally have "bigits_val (bigits r) * unat f < bbase ^ 128" .
    from MultiplyByUInt32_nonzero [OF r(1) ur _ this] b True val r(3) show ?thesis
      by (auto simp: bignum_val_def elim!: returns_mono)
  qed
qed

lemma power_tail:
  assumes b: "unat f = b" "0 < b" and cap: "b ^ e < bbase ^ 127"
    and v: "unat v * (if delayed then b else 1) = b ^ (e div 2 ^ j)"
  shows "returns (do {
         a \<leftarrow> AssignUInt64 new_bignum v;
         a \<leftarrow> (if delayed then MultiplyByUInt32 a f else Some a);
         (a, mask) \<leftarrow> while_loop (\<lambda>(a, mask). Some (mask \<noteq> 0))
           (\<lambda>(a, mask). do {
              a \<leftarrow> Square a;
              a \<leftarrow> (if e AND mask \<noteq> 0 then MultiplyByUInt32 a f else Some a);
              Some (a, mask div 2) }) (a, power_mask j);
         ShiftLeft a l }) (\<lambda>r. bignum_inv r \<and> bignum_val r = b ^ e * 2 ^ l)"
proof -
  have shift: "returns (ShiftLeft r l) (\<lambda>r. bignum_inv r \<and> bignum_val r = b ^ e * 2 ^ l)"
    if "bignum_inv r" "exponent r = 0" "bignum_val r = b ^ e" for r
  proof -
    have "used_digits r < 128" using used_digits_le [OF that(1), of 127] that cap by (simp add: bignum_val_def)
    from ShiftLeft_correct [OF that(1) this, of l] show ?thesis
      by (rule returns_mono) (use that in auto)
  qed
  show ?thesis
    using power_delayed [OF b cap v]
    unfolding returns_bind
    by (elim returns_mono, intro power_big_loop [OF b cap]) (auto intro: shift)
qed

lemma AssignPowerUInt16_correct:
  assumes raw: "bignum_raw a" and base: "unat base = q * 2 ^ t" "odd q" "q < 2 ^ n" "n \<le> 16"
    and cap: "n * e div 28 + 2 \<le> 128" "e < 2 ^ 30"
  shows "returns (AssignPowerUInt16 a base e) (\<lambda>r. bignum_inv r \<and> bignum_val r = unat base ^ e)"
proof (cases "e = 0")
  case True
  have "base \<noteq> 0" using base(1,2) by (auto simp: odd_pos)
  with True show ?thesis
    using AssignUInt16_correct [OF raw, of 1]
    by (auto simp: AssignPowerUInt16_def wp elim!: returns_mono)
next
  case False
  have "base \<noteq> 0" using base(1,2) by (auto simp: odd_pos)
  have q: "0 < q" using base(2) by (rule odd_pos)
  have "q ^ e \<le> (2 ^ n) ^ e" using base(3) by (intro power_mono) auto
  also have "\<dots> = 2 ^ (n * e)" by (simp add: power_mult)
  also have "\<dots> < 2 ^ (28 * 127)"
    using cap(1) by (intro power_strict_increasing) auto
  finally have lim: "q ^ e < bbase ^ 127" by (simp only: bbase_def power_mult)
  obtain b where b: "power_odd_part base = Some (b, t)" "unat b = q"
    using power_odd_part_correct [OF base(1,2)] by (auto elim: returnsE)
  obtain s where s: "power_bit_size b = Some s" "unat b < 2 ^ s" "s \<le> n"
    using power_bit_size_correct [of b n] b(2) base(3) by (auto elim: returnsE)
  obtain k where k: "power_top_mask e = Some (2 * 2 ^ k)" "2 ^ k \<le> e" "e < 2 * 2 ^ k"
    using power_top_mask_correct [of e] False cap(2) by (auto elim: returnsE)
  have f: "unat (ucast b :: uint32) = q"
    using b(2) unsigned_less [of b, where ?'a = nat] by (simp add: unsigned_ucast_eq take_bit_eq_mod)
  have sz: "s * e div 28 + 2 \<le> 128"
    using cap(1) s(3) by (meson add_le_mono1 div_le_mono le_trans mult_le_mono1)
  have mask: "2 * 2 ^ k div 4 = power_mask k" using div_mult_mult1 [of 2 "2 ^ k" "2 :: nat"] by simp
  show ?thesis
    unfolding AssignPowerUInt16_def returns_bind returns_check if_not_P [OF False]
  proof (intro conjI returns_mono [OF Zero_new [OF raw]] \<open>base \<noteq> 0\<close>, goal_cases)
    case (1 z)
    have pow: "unat base ^ e = q ^ e * 2 ^ (t * e)" by (simp add: base(1) power_mult_distrib power_mult)
    have "returns (while_loop (\<lambda>(this_value, delayed, mask). Some (mask \<noteq> 0 \<and> this_value \<le> 0xFFFFFFFF))
         (\<lambda>s'. Some (power_uint64_step b s e s')) (ucast b, False, power_mask k))
      (\<lambda>(v, delayed, m). \<exists>j. m = power_mask j \<and> unat v * (if delayed then q else 1) = q ^ (e div 2 ^ j))"
      by (rule power_word_loop [OF s(2) _ _ k(2,3)]) (use s(3) base(4) b(2) q in auto)
    then have "returns (while_loop (\<lambda>(this_value, delayed, mask). Some (mask \<noteq> 0 \<and> this_value \<le> 0xFFFFFFFF))
         (\<lambda>s'. Some (power_uint64_step b s e s')) (ucast b, False, power_mask k))
      (\<lambda>(v, delayed, m). returns (do {
         a \<leftarrow> AssignUInt64 z v;
         a \<leftarrow> (if delayed then MultiplyByUInt32 a (ucast b) else Some a);
         (a, mask) \<leftarrow> while_loop (\<lambda>(a, mask). Some (mask \<noteq> 0))
           (\<lambda>(a, mask). do {
              a \<leftarrow> Square a;
              a \<leftarrow> (if e AND mask \<noteq> 0 then MultiplyByUInt32 a (ucast b) else Some a);
              Some (a, mask div 2) }) (a, m);
         ShiftLeft a (t * e) }) (\<lambda>r. bignum_inv r \<and> bignum_val r = unat base ^ e))"
      by (rule returns_mono) (use power_tail [OF f q lim] 1 in \<open>auto simp: pow\<close>)
    then show ?case
      unfolding b(1) returns_Some prod.case returns_bind s(1) k(1) Let_def [of "s * e"]
        mask Let_def [of "power_mask k"] returns_case_prod returns_EnsureCapacity
      by (intro conjI sz)
  qed
qed

end
