(* ===== verification/Bignum_Div.thy ===== *)
theory Bignum_Div
  imports Bignum_Square
begin

text \<open>
  \<open>SubtractTimes\<close> and \<open>DivideModuloIntBignum\<close>: the division with a small quotient that produces
  the decimal digits. The quotient is estimated from the top bigits and corrected.
\<close>

section \<open>Subtracting a multiple\<close>

lemma subtimes_digit:
  fixes x y :: Chunk and b :: Chunk and f :: nat
  assumes x: "unat x < bbase" and y: "unat y < bbase" and b: "unat b \<le> f" and f: "f < 2 ^ 28"
  defines "remove \<equiv> (ucast b :: DoubleChunk) + (of_nat f :: DoubleChunk) * ucast y"
  defines "difference \<equiv> x - (ucast (remove AND ucast kBigitMask) :: Chunk)"
  defines "b' \<equiv> (ucast (ucast (drop_bit 31 difference) + drop_bit 28 remove :: DoubleChunk) :: Chunk)"
  shows "unat (difference AND kBigitMask) + (f * unat y + unat b) = unat x + unat b' * bbase"
    and "unat b' \<le> f"
proof -
  have fw: "unat (of_nat f :: DoubleChunk) = f" using f by (simp add: unsigned_of_nat take_bit_eq_mod)
  have fy: "f * unat y + f \<le> f * bbase" using y by (metis Suc_leI add.commute mult_Suc_right mult_le_mono2)
  have lim: "f * bbase < 2 ^ 56" using f by (simp add: bbase_def)
  have p: "unat ((of_nat f :: DoubleChunk) * ucast y) = f * unat y"
    using fy lim by (subst unat_mult_small) (simp_all add: fw word_nat)
  have r: "unat remove = f * unat y + unat b"
    unfolding remove_def using fy lim b by (subst unat_add_small) (simp_all add: p word_nat)
  let ?t = "ucast (remove AND ucast kBigitMask) :: Chunk"
  have t: "unat ?t = unat remove mod bbase" by (simp add: word_nat)
  then have "unat ?t \<le> bbase" by (simp add: less_imp_le)
  note dig = sub_digit [OF x this, folded difference_def]
  let ?h = "unat (drop_bit 31 difference)"
  have rem_le: "unat remove \<le> f * bbase" using r fy b by linarith
  have q: "unat remove div bbase \<le> f" using div_le_mono [OF rem_le, of bbase] by simp
  have bound: "?h + unat remove div bbase \<le> f"
  proof (cases "unat remove div bbase = f")
    case True
    then have "f * bbase + unat remove mod bbase = unat remove" using div_mult_mod_eq [of "unat remove" bbase] by simp
    then have "unat remove mod bbase = 0" using rem_le by linarith
    then have "?t = 0" using t by (simp add: unat_eq_0_iff)
    then have "difference = x" by (simp add: difference_def)
    then have "?h = unat x div 2 ^ 31" by (simp only: unat_drop_bit)
    with x have "?h = 0" by (simp add: bbase_def)
    with True show ?thesis by simp
  next
    case False
    with q dig(2) show ?thesis by linarith
  qed
  have "unat (ucast (drop_bit 31 difference) + drop_bit 28 remove :: DoubleChunk) = ?h + unat remove div bbase"
    using bound f by (subst unat_add_small) (simp_all add: word_nat)
  then have b': "unat b' = ?h + unat remove div bbase"
    unfolding b'_def using bound f by (simp add: unsigned_ucast_eq take_bit_eq_mod)
  with bound show "unat b' \<le> f" by simp
  have "unat (difference AND kBigitMask) + (unat remove mod bbase + unat remove div bbase * bbase)
      = unat x + (?h + unat remove div bbase) * bbase"
    using dig(1) t by (simp only: add_mult_distrib)
  then show "unat (difference AND kBigitMask) + (f * unat y + unat b) = unat x + unat b' * bbase"
    by (simp only: mod_div_mult_eq b' r)
qed

lemma subtimes_loop:
  assumes "length xs = 128" "is_bigits xs" "zero_from u xs" "is_bigits ys" "n \<le> length ys" "d + n \<le> u" "u \<le> 128"
    and f: "f < 2 ^ 28"
    and post: "\<And>zs b. length zs = 128 \<Longrightarrow> is_bigits zs \<Longrightarrow> zero_from u zs \<Longrightarrow> unat b \<le> f \<Longrightarrow>
      drop (d + n) zs = drop (d + n) xs \<Longrightarrow>
      bigits_val zs + f * bigits_val (take n ys) * bbase ^ d = bigits_val xs + unat b * bbase ^ (d + n) \<Longrightarrow>
      P (zs, b)"
  shows "returns (for_up 0 n
         (\<lambda>i (xs, borrow). do {
            y \<leftarrow> vget ys i;
            let product = (of_nat f :: DoubleChunk) * ucast y;
            let remove = ucast borrow + product;
            x \<leftarrow> vget xs (i + d);
            let difference = x - ucast (remove AND ucast kBigitMask);
            xs \<leftarrow> vset xs (i + d) (difference AND kBigitMask);
            Some (xs, ucast (ucast (drop_bit (kChunkSize - 1) difference)
                             + drop_bit kBigitSize remove)) })
         (xs, 0 :: Chunk)) P"
proof (rule returns_for_up [where I = "\<lambda>i (zs, b). length zs = 128 \<and> is_bigits zs \<and>
    zero_from u zs \<and> unat b \<le> f \<and> drop (d + i) zs = drop (d + i) xs \<and>
    bigits_val zs + f * bigits_val (take i ys) * bbase ^ d = bigits_val xs + unat b * bbase ^ (d + i)"], goal_cases)
  case (3 i s)
  obtain zs b where s: "s = (zs, b)" by (cases s)
  from 3 s have I: "length zs = 128" "is_bigits zs" "zero_from u zs" "unat b \<le> f" "drop (d + i) zs = drop (d + i) xs"
    "bigits_val zs + f * bigits_val (take i ys) * bbase ^ d = bigits_val xs + unat b * bbase ^ (d + i)"
    by auto
  have pos: "i + d < u" and i: "i < length ys" using 3 assms by auto
  have y: "unat (ys ! i) < bbase" using i assms(4) by (simp add: is_bigits_nth)
  have x: "unat (zs ! (i + d)) < bbase" using pos I assms(7) by (simp add: is_bigits_nth)
  define remove where "remove = ucast b + (of_nat f :: DoubleChunk) * ucast (ys ! i)"
  define diff where "diff = zs ! (i + d) - ucast (remove AND ucast kBigitMask)"
  define b' where "b' = (ucast (ucast (drop_bit 31 diff) + drop_bit 28 remove) :: Chunk)"
  note dig = subtimes_digit [OF x y I(4) f, folded remove_def, folded diff_def, folded b'_def]
  have "bigits_val (zs[i + d := diff AND kBigitMask]) + (f * unat (ys ! i) + unat b) * bbase ^ (i + d)
    = bigits_val zs + unat b' * bbase ^ Suc (i + d)"
    using dig pos I assms(7) by (intro bigits_val_borrow) auto
  then have "bigits_val (zs[i + d := diff AND kBigitMask]) + f * bigits_val (take (Suc i) ys) * bbase ^ d
    = bigits_val xs + unat b' * bbase ^ (d + Suc i)"
    using I(6) i by (simp add: bigits_val_take_Suc add_mult_distrib algebra_simps power_add)
  moreover have "drop (d + Suc i) (zs[i + d := diff AND kBigitMask]) = drop (d + Suc i) xs"
    using I(5) by (simp add: add.commute) (metis drop_Suc tl_drop)
  ultimately show ?case
    using s I pos i dig assms(7) unfolding s prod.case
    by (simp add: wp Let_def remove_def [symmetric] diff_def [symmetric] b'_def [symmetric])
      (intro conjI is_bigits_update zero_from_update [OF I(3)]; simp add: word_nat)
qed (use assms in auto)

text \<open>The loop that takes the last borrow through the digits above.\<close>

lemma subtimes_borrow_loop:
  assumes "length xs = 128" "is_bigits xs" "zero_from u xs" "u \<le> 128" "unat b < bbase" "n \<le> u"
    and "bigits_val xs = R + unat b * bbase ^ n"
    and post: "\<And>zs i. length zs = 128 \<Longrightarrow> is_bigits zs \<Longrightarrow> zero_from u zs \<Longrightarrow> bigits_val zs = R \<Longrightarrow>
      n \<le> i \<Longrightarrow> i \<le> u \<Longrightarrow> drop i zs = drop i xs \<Longrightarrow> P (zs, 0, i)"
  shows "returns (while_loop (\<lambda>(xs, borrow, i). Some (i < u \<and> borrow \<noteq> 0))
         (\<lambda>(xs, borrow, i). do {
            x \<leftarrow> vget xs i;
            let difference = x - borrow;
            xs \<leftarrow> vset xs i (difference AND kBigitMask);
            Some (xs, drop_bit (kChunkSize - 1) difference, i + 1) }) (xs, b, n)) P"
proof (rule returns_while [where I = "\<lambda>(zs, b', i). length zs = 128 \<and> is_bigits zs \<and>
    zero_from u zs \<and> unat b' < bbase \<and> n \<le> i \<and> i \<le> u \<and> drop i zs = drop i xs \<and>
    bigits_val zs = R + unat b' * bbase ^ i"
    and m = "\<lambda>(zs, b, i). u - i"], goal_cases)
  case (2 s)
  obtain zs b' i where s: "s = (zs, b', i)" by (cases s)
  from 2 s have I: "length zs = 128" "is_bigits zs" "zero_from u zs" "unat b' < bbase" "n \<le> i" "i \<le> u"
    "drop i zs = drop i xs" "bigits_val zs = R + unat b' * bbase ^ i" by auto
  consider "b' = 0" | "b' \<noteq> 0" "i < u" | "b' \<noteq> 0" "i = u" using I(6) by linarith
  then show ?case
  proof cases
    case 1
    with s I show ?thesis by (auto intro!: post)
  next
    case 2
    have x: "unat (zs ! i) < bbase" using 2 I assms(4) by (simp add: is_bigits_nth)
    note dig = sub_digit [OF x less_imp_le [OF I(4)]]
    have "bigits_val (zs[i := (zs ! i - b') AND kBigitMask]) + unat b' * bbase ^ i
      = bigits_val zs + unat (drop_bit 31 (zs ! i - b')) * bbase ^ Suc i"
      using dig 2 I assms(4) by (intro bigits_val_borrow) auto
    moreover have "unat (drop_bit 31 (zs ! i - b')) < bbase" using dig(2) Suc_0_less_bbase by linarith
    moreover have "drop (Suc i) zs = drop (Suc i) xs" using I(7) by (metis drop_Suc tl_drop)
    ultimately show ?thesis
      using 2 s I dig(3) assms(4) by (auto simp: wp Let_def intro: is_bigits_update zero_from_update)
  next
    case 3
    have "1 * bbase ^ u \<le> unat b' * bbase ^ u" using 3 by (intro mult_le_mono1) (simp add: Suc_leI unat_gt_0)
    then have "bbase ^ u \<le> bigits_val zs" using I(8) unfolding 3(2) by linarith
    moreover have "bigits_val zs < bbase ^ u" using I by (intro bigits_val_less)
    ultimately show ?thesis by simp
  qed
qed (use assms in auto)

lemma SubtractBignum_low:
  assumes inv: "bignum_inv a" "bignum_inv b" "bignum_val b \<le> bignum_val a" "exponent a \<le> exponent b"
  shows "returns (SubtractBignum a b) (\<lambda>r. bignum_inv r \<and> bignum_val r = bignum_val a - bignum_val b \<and>
    exponent r \<le> exponent b)"
  by (rule returns_mono [OF SubtractBignum_correct]) (use assms in \<open>auto simp: bignum_inv_def split: if_splits\<close>)

lemma SubtractTimes_correct:
  assumes inv: "bignum_inv a" "bignum_inv b" and le: "f * bignum_val b \<le> bignum_val a" "exponent a \<le> exponent b"
    and f: "f < 2 ^ 28"
  shows "returns (SubtractTimes a b f) (\<lambda>r. bignum_inv r \<and> bignum_val r = bignum_val a - f * bignum_val b \<and>
    exponent r \<le> exponent b)"
proof (cases "f < 3")
  case True
  have "returns (for_up 0 f (\<lambda>i a. SubtractBignum a b) a)
    (\<lambda>r. bignum_inv r \<and> bignum_val r = bignum_val a - f * bignum_val b \<and> exponent r \<le> exponent b)"
  proof (rule returns_for_up [where I = "\<lambda>i r. bignum_inv r \<and> bignum_val r = bignum_val a - i * bignum_val b \<and>
      exponent r \<le> exponent b"], goal_cases)
    case (3 i r)
    have "Suc i * bignum_val b \<le> f * bignum_val b" using 3 by (intro mult_le_mono1) simp
    with 3 le show ?case
      by (intro returns_mono [OF SubtractBignum_low [OF _ inv(2)]]) auto
  qed (use inv le in auto)
  with True le show ?thesis by (simp add: SubtractTimes_def wp)
next
  case False
  define d where "d = exponent b - exponent a"
  have expb: "exponent b = d + exponent a" using le(2) by (simp add: d_def)
  have raw: "length (bigits a) = 128" "is_bigits (bigits a)" "zero_from (used_digits a) (bigits a)"
      "used_digits a \<le> 128"
    and rawb: "length (bigits b) = 128" "is_bigits (bigits b)" "zero_from (used_digits b) (bigits b)"
      "used_digits b \<le> 128"
    using inv by (auto simp: bignum_inv_def bignum_raw_def)
  have "1 * bignum_val b \<le> f * bignum_val b" using False by (intro mult_le_mono1) simp
  then have "bignum_val b \<le> bignum_val a" using le(1) by linarith
  then have "BigitLength b \<le> BigitLength a" using inv by (intro BigitLength_mono)
  then have len: "d + used_digits b \<le> used_digits a" using expb by (simp add: BigitLength_def)
  have takeb: "bigits_val (take (used_digits b) (bigits b)) = bigits_val (bigits b)"
    using rawb(3) by (simp add: bigits_val_zero_from)
  define R where "R = bigits_val (bigits a) - f * bigits_val (bigits b) * bbase ^ d"
  have "f * bigits_val (bigits b) * bbase ^ d * bbase ^ exponent a \<le> bigits_val (bigits a) * bbase ^ exponent a"
    using le(1) expb by (simp add: bignum_val_def power_add mult.assoc)
  then have R: "R + f * bigits_val (bigits b) * bbase ^ d = bigits_val (bigits a)" by (simp add: R_def)
  have Rval: "R * bbase ^ exponent a = bignum_val a - f * bignum_val b"
    using expb by (simp add: R_def bignum_val_def diff_mult_distrib power_add mult.assoc)
  have fin: "returns (if i < used_digits a then Some (a\<lparr>bigits := zs\<rparr>) else Clamp (a\<lparr>bigits := zs\<rparr>))
      (\<lambda>r. bignum_inv r \<and> bignum_val r = bignum_val a - f * bignum_val b \<and> exponent r \<le> exponent b)"
    if zs: "length zs = 128" "is_bigits zs" "zero_from (used_digits a) zs" "bigits_val zs = R"
      and dr: "drop i zs = drop i (bigits a)" for zs i
  proof -
    let ?r = "a\<lparr>bigits := zs\<rparr>"
    have r: "bignum_raw ?r" "bignum_val ?r = bignum_val a - f * bignum_val b"
      using zs raw Rval by (auto simp: bignum_raw_def bignum_val_def)
    have "zs ! (used_digits a - 1) = bigits a ! (used_digits a - 1)" if "i < used_digits a"
      using arg_cong [OF dr, of "\<lambda>l. l ! (used_digits a - 1 - i)"] that zs(1) raw by simp
    then have "bignum_inv ?r" if "i < used_digits a"
      using r(1) inv(1) that by (simp add: bignum_inv_def)
    with r le show ?thesis
      by (auto intro!: returns_mono [OF Clamp_correct] simp: bignum_inv_def split: if_splits)
  qed
  show ?thesis
    unfolding SubtractTimes_def d_def [symmetric] Let_def [of d] returns_bind returns_check if_not_P [OF False]
  proof (intro conjI le subtimes_loop [where u = "used_digits a"], goal_cases)
    case (9 zs c)
    have "unat c < bbase" using 9(4) f by (simp add: bbase_def)
    moreover have "bigits_val zs = R + unat c * bbase ^ (used_digits b + d)"
      using 9(6) R by (simp add: takeb add.commute)
    ultimately show ?case
      unfolding prod.case returns_bind
    proof (intro subtimes_borrow_loop [where R = R], goal_cases)
      case (8 ys i)
      let ?e = "i - (d + used_digits b)"
      have "drop ?e (drop (d + used_digits b) zs) = drop ?e (drop (d + used_digits b) (bigits a))"
        by (simp only: 9(5))
      then have "drop i zs = drop i (bigits a)" using 8(7) by (simp add: add.commute)
      with 8 show ?case unfolding prod.case by (intro fin) auto
    qed (use 9 raw(4) len in auto)
  qed (use raw rawb len f in auto)
qed

section \<open>Division with a small quotient\<close>

text \<open>The top bigit bounds a number from both sides.\<close>

lemma top_bigit:
  assumes inv: "bignum_inv a" "0 < used_digits a"
  defines "t \<equiv> unat (bigits a ! (used_digits a - 1))" and "n \<equiv> BigitLength a - 1"
  shows "t * bbase ^ n \<le> bignum_val a" "bignum_val a < (t + 1) * bbase ^ n" "0 < t" "t < bbase"
proof -
  let ?u = "used_digits a - 1"
  have raw: "length (bigits a) = 128" "is_bigits (bigits a)" "zero_from (used_digits a) (bigits a)"
      "used_digits a \<le> 128"
    using inv by (auto simp: bignum_inv_def bignum_raw_def)
  have n: "n = ?u + exponent a" using inv(2) by (simp add: n_def BigitLength_def)
  have "bigits_val (bigits a) = bigits_val (take (Suc ?u) (bigits a))"
    using inv(2) raw(3) by (simp add: bigits_val_zero_from)
  also have "\<dots> = bigits_val (take ?u (bigits a)) + t * bbase ^ ?u"
    using inv(2) raw by (subst bigits_val_take_Suc) (auto simp: t_def)
  finally have v: "bigits_val (bigits a) = bigits_val (take ?u (bigits a)) + t * bbase ^ ?u" .
  have low: "bigits_val (take ?u (bigits a)) < bbase ^ ?u"
    using bigits_val_bound [OF is_bigits_take [OF raw(2)], of ?u] raw by (simp add: min_absorb2)
  have "t * bbase ^ ?u * bbase ^ exponent a \<le> bigits_val (bigits a) * bbase ^ exponent a"
    using v by (intro mult_le_mono1) simp
  then show "t * bbase ^ n \<le> bignum_val a" by (simp add: bignum_val_def n power_add mult.assoc)
  have "bigits_val (bigits a) < (t + 1) * bbase ^ ?u" using v low by (simp add: add_mult_distrib)
  then have "bigits_val (bigits a) * bbase ^ exponent a < (t + 1) * bbase ^ ?u * bbase ^ exponent a" by simp
  then show "bignum_val a < (t + 1) * bbase ^ n" by (simp only: bignum_val_def n power_add mult.assoc)
  show "0 < t" "t < bbase" using inv raw by (auto simp: t_def bignum_inv_def unat_gt_0 is_bigits_nth)
qed

text \<open>
  The loop that removes multiples while the dividend has more digits than the divisor. It keeps the length only
  because the top bigit of the divisor is not the largest one.
\<close>

definition div_inv :: "nat \<Rightarrow> bignum \<Rightarrow> bignum \<times> uint16 \<Rightarrow> bool" where
  "div_inv A b = (\<lambda>(a, q). bignum_inv a \<and> exponent a \<le> exponent b \<and> bignum_val a + unat q * bignum_val b = A)"

lemma div_inv_add:
  assumes "div_inv A b (a, q)" "A < 16 * bignum_val b" "bignum_inv a'" "exponent a' \<le> exponent b"
    and "unat d = k" "k * bignum_val b \<le> bignum_val a" "bignum_val a' = bignum_val a - k * bignum_val b"
  shows "div_inv A b (a', q + d)" "k < 16" "unat (q + d) = unat q + k"
proof -
  have A: "bignum_val a + unat q * bignum_val b = A" using assms(1) by (simp add: div_inv_def)
  then have "(k + unat q) * bignum_val b < 16 * bignum_val b"
    using assms(2,6) by (simp only: add_mult_distrib)
  then have small: "k + unat q < 16" by simp
  then show "k < 16" by simp
  show q: "unat (q + d) = unat q + k" using small assms(5) by (subst unat_add_small) auto
  have "bignum_val a' + (unat q + k) * bignum_val b = A"
    using A assms(6,7) by (simp only: add_mult_distrib)
  with assms q show "div_inv A b (a', q + d)" by (simp add: div_inv_def)
qed

lemma div_length_step:
  assumes I: "div_inv A b (a, q)" and A: "A < 16 * bignum_val b" and b: "bignum_inv b" "0 < used_digits b"
    and top: "bignum_val b \<le> (bbase - 1) * bbase ^ (BigitLength b - 1)" and len: "BigitLength b < BigitLength a"
  defines "x \<equiv> bigits a ! (used_digits a - 1)"
  shows "0 < used_digits a" "unat x < 16" "bbase div 16 \<le> unat (bigits b ! (used_digits b - 1))"
    and "returns (SubtractTimes a b (unat x)) (\<lambda>r. div_inv A b (r, q + ucast x) \<and>
      BigitLength b \<le> BigitLength r \<and> bignum_val r < bignum_val a)"
proof -
  let ?n = "BigitLength b"
  have inv: "bignum_inv a" "exponent a \<le> exponent b" and val: "bignum_val a \<le> A" using I by (auto simp: div_inv_def)
  show ua: "0 < used_digits a" using inv len by (auto simp: bignum_inv_def BigitLength_def intro!: gr0I)
  note ta = top_bigit [OF inv(1) ua, folded x_def] and tb = top_bigit [OF b]
  have pn: "bbase ^ ?n = bbase * bbase ^ (?n - 1)" using b(2) by (simp add: BigitLength_def power_eq_if)
  have bn: "bignum_val b < bbase ^ ?n" using b(1) by (intro bignum_val_less bignum_inv_raw)
  have "bbase ^ ?n \<le> bbase ^ (BigitLength a - 1)" using len by (simp only: pow_bbase_le_iff)
  then have "unat x * bbase ^ ?n \<le> bignum_val a" using ta(1) by (meson le_trans mult_le_mono2)
  also have "\<dots> < 16 * bignum_val b" using val A by simp
  finally have xb: "unat x * bbase ^ ?n \<le> bignum_val a" "unat x * bbase ^ ?n < 16 * bbase ^ ?n"
    using bn \<open>unat x * bbase ^ ?n \<le> bignum_val a\<close> by linarith+
  then show x16: "unat x < 16" by simp
  have "1 * bbase ^ ?n \<le> unat x * bbase ^ ?n" using ta(3) by (intro mult_le_mono1) simp
  then have big: "bbase ^ ?n < 16 * bignum_val b" using xb(1) val A by linarith
  let ?o = "unat (bigits b ! (used_digits b - 1))"
  have "bbase * bbase ^ (?n - 1) < 16 * (?o + 1) * bbase ^ (?n - 1)" using big tb(2) by (simp only: pn)
  then have "bbase < 16 * (?o + 1)" by simp
  then show "bbase div 16 \<le> ?o" by (simp add: bbase_def)
  have le: "unat x * bignum_val b \<le> bignum_val a"
    using xb(1) bn by (meson le_trans less_imp_le mult_le_mono2)
  have xd: "unat (ucast x :: uint16) = unat x" using x16 by (simp add: unsigned_ucast_eq take_bit_eq_mod)
  have len': "?n \<le> BigitLength r" if r: "bignum_inv r" "bignum_val r = bignum_val a - unat x * bignum_val b" for r
  proof (rule ccontr)
    assume "\<not> ?n \<le> BigitLength r"
    then have "bbase ^ BigitLength r \<le> bbase ^ (?n - 1)" by (simp only: pow_bbase_le_iff)
    moreover have "bignum_val r < bbase ^ BigitLength r" using r(1) by (intro bignum_val_less bignum_inv_raw)
    moreover have "bbase ^ (?n - 1) \<le> bignum_val r"
    proof -
      have "(bbase - 1) * bbase ^ (?n - 1) + bbase ^ (?n - 1) = bbase ^ ?n"
        by (simp add: pn diff_mult_distrib)
      then have "bignum_val b + bbase ^ (?n - 1) \<le> bbase ^ ?n" using top by linarith
      then have "unat x * (bignum_val b + bbase ^ (?n - 1)) \<le> bignum_val a"
        using xb(1) by (meson le_trans mult_le_mono2)
      moreover have "1 * bbase ^ (?n - 1) \<le> unat x * bbase ^ (?n - 1)" using ta(3) by (intro mult_le_mono1) simp
      ultimately show ?thesis using r(2) by (simp only: add_mult_distrib2)
    qed
    ultimately show False by linarith
  qed
  have "0 < unat x * bignum_val b" using ta(3) b used_digits_0_iff [OF b(1)] by simp
  then have pos: "bignum_val a - unat x * bignum_val b < bignum_val a" using le by linarith
  show "returns (SubtractTimes a b (unat x)) (\<lambda>r. div_inv A b (r, q + ucast x) \<and>
      BigitLength b \<le> BigitLength r \<and> bignum_val r < bignum_val a)"
    using x16 le pos len' div_inv_add(1) [OF I A _ _ xd le]
    by (intro returns_mono [OF SubtractTimes_correct [OF inv(1) b(1) le inv(2)]]) auto
qed

lemma div_length_loop:
  assumes I: "div_inv A b (a, q)" "BigitLength b \<le> BigitLength a" and A: "A < 16 * bignum_val b"
    and b: "bignum_inv b" "0 < used_digits b"
    and top: "bignum_val b \<le> (bbase - 1) * bbase ^ (BigitLength b - 1)"
    and post: "\<And>a q. div_inv A b (a, q) \<Longrightarrow> BigitLength a = BigitLength b \<Longrightarrow> P (a, q)"
  shows "returns (while_loop (\<lambda>(a, result). Some (BigitLength a > BigitLength b))
         (\<lambda>(a, result). do {
            check (bigits b ! (used_digits b - 1) \<ge> push_bit kBigitSize 1 div 16);
            check (used_digits a > 0);
            x \<leftarrow> vget (bigits a) (used_digits a - 1);
            check (x < 0x10000);
            a \<leftarrow> SubtractTimes a b (unat x);
            Some (a, result + ucast x) }) (a, q)) P"
proof (rule returns_while [where I = "\<lambda>(a, q). div_inv A b (a, q) \<and> BigitLength b \<le> BigitLength a"
      and m = "\<lambda>(a, q). bignum_val a"], goal_cases)
  case (2 s)
  obtain a q where s: "s = (a, q)" and I: "div_inv A b (a, q)" "BigitLength b \<le> BigitLength a"
    using 2 by (cases s) auto
  show ?case
  proof (cases "BigitLength b < BigitLength a")
    case True
    note st = div_length_step [OF I(1) A b top True]
    have "used_digits a \<le> 128" "length (bigits a) = 128"
      using I(1) by (auto simp: div_inv_def bignum_inv_def bignum_raw_def)
    moreover have "push_bit kBigitSize 1 div 16 \<le> bigits b ! (used_digits b - 1)"
      using st(3) by (simp add: word_le_nat_alt bbase_def)
    moreover have "bigits a ! (used_digits a - 1) < 0x10000" using st(2) by (simp add: word_less_nat_alt)
    ultimately show ?thesis
      using True st(1,4) unfolding s prod.case
      by (simp add: wp)
  next
    case False
    with I s show ?thesis by (auto intro!: post)
  qed
qed (use I in auto)

text \<open>The end of the division, on numbers of the same length.\<close>

lemma div_inv_result:
  assumes "div_inv A b (a, q)" "bignum_val a < bignum_val b"
  shows "unat q = A div bignum_val b" "bignum_val a = A mod bignum_val b" "bignum_inv a"
proof -
  have "A = bignum_val a + unat q * bignum_val b" "bignum_inv a" using assms(1) by (auto simp: div_inv_def)
  with assms(2) show "unat q = A div bignum_val b" "bignum_val a = A mod bignum_val b" "bignum_inv a" by auto
qed

lemma div_single_digit:
  assumes I: "div_inv A b (a, q)" and len: "BigitLength a = BigitLength b" and A: "A < 16 * bignum_val b"
    and b: "bignum_inv b" "used_digits b = 1"
  defines "t \<equiv> bigits a ! (used_digits a - 1)" and "o' \<equiv> bigits b ! (used_digits b - 1)"
  shows "t div o' < 0x10000"
    and "returns (Clamp (a\<lparr>bigits := (bigits a)[used_digits a - 1 := t - o' * (t div o')]\<rparr>))
      (\<lambda>r. div_inv A b (r, q + ucast (t div o')) \<and> bignum_val r < bignum_val b)"
proof -
  let ?k = "unat t div unat o'" and ?n = "BigitLength b - 1"
  have inv: "bignum_inv a" "exponent a \<le> exponent b" and val: "bignum_val a \<le> A" using I by (auto simp: div_inv_def)
  have ua: "0 < used_digits a" using inv len b by (auto simp: bignum_inv_def BigitLength_def intro!: gr0I split: if_splits)
  have ub: "0 < used_digits b" using b by simp
  note ta = top_bigit [OF inv(1) ua, folded t_def] and tb = top_bigit [OF b(1) ub, folded o'_def]
  have raw: "length (bigits a) = 128" "is_bigits (bigits a)" "zero_from (used_digits a) (bigits a)"
      "used_digits a \<le> 128" using inv by (auto simp: bignum_inv_def bignum_raw_def)
  have rawb: "length (bigits b) = 128" "zero_from 1 (bigits b)" using b by (auto simp: bignum_inv_def bignum_raw_def)
  have "bigits_val (bigits b) = unat o'"
    using bigits_val_zero_from [OF rawb(2)] rawb(1) b(2) bigits_val_take_Suc [of 0 "bigits b"] by (simp add: o'_def)
  then have bval: "bignum_val b = unat o' * bbase ^ ?n" using b(2) by (simp add: bignum_val_def BigitLength_def)
  have n: "?n = used_digits a - 1 + exponent a" using ua len by (simp add: BigitLength_def)
  have q: "unat (t div o') = ?k" by (simp add: unat_div)
  have "?k * unat o' \<le> unat t" by simp
  moreover have "unat t < 2 ^ 32" by (rule unat_less_32)
  ultimately have "unat o' * unat (t div o') < 2 ^ 32" unfolding q by (metis le_less_trans mult.commute)
  then have ok: "unat (o' * (t div o')) = ?k * unat o'" by (simp add: unat_mult_small q mult.commute)
  have digit: "unat (t - o' * (t div o')) = unat t mod unat o'"
    by (subst unat_sub_small) (simp_all add: ok minus_div_mult_eq_mod)
  have le: "?k * bignum_val b \<le> bignum_val a"
  proof -
    have "?k * unat o' * bbase ^ ?n \<le> unat t * bbase ^ ?n" by (intro mult_le_mono1) simp
    also have "\<dots> \<le> bignum_val a" using ta(1) len by simp
    finally show ?thesis by (simp only: bval mult.assoc)
  qed
  let ?r = "a\<lparr>bigits := (bigits a)[used_digits a - 1 := t - o' * (t div o')]\<rparr>"
  have "unat t mod unat o' < bbase" using ta(4) by (meson le_less_trans mod_less_eq_dividend)
  then have rawr: "bignum_raw ?r"
    using raw ua digit by (auto simp: bignum_raw_def intro!: is_bigits_update zero_from_update)
  have "bigits_val (bigits ?r) + unat t * bbase ^ (used_digits a - 1)
      = bigits_val (bigits a) + unat t mod unat o' * bbase ^ (used_digits a - 1)"
    using bigits_val_update [of "used_digits a - 1" "bigits a"] ua raw digit by (simp add: t_def)
  then have "(bigits_val (bigits ?r) + unat t * bbase ^ (used_digits a - 1)) * bbase ^ exponent a
      = (bigits_val (bigits a) + unat t mod unat o' * bbase ^ (used_digits a - 1)) * bbase ^ exponent a" by simp
  then have "bignum_val ?r + unat t * bbase ^ ?n = bignum_val a + unat t mod unat o' * bbase ^ ?n"
    unfolding n power_add bignum_val_def by (simp add: add_mult_distrib mult.assoc)
  moreover have "unat t * bbase ^ ?n = ?k * bignum_val b + unat t mod unat o' * bbase ^ ?n"
    unfolding bval mult.assoc [symmetric] add_mult_distrib [symmetric] by simp
  ultimately have vr: "bignum_val ?r = bignum_val a - ?k * bignum_val b" by linarith
  have "bignum_val ?r < (unat t mod unat o' + 1) * bbase ^ ?n"
    using ta(2) len vr \<open>unat t * bbase ^ ?n = ?k * bignum_val b + unat t mod unat o' * bbase ^ ?n\<close>
      le less_imp_diff_less by (simp add: add_mult_distrib)
  also have "\<dots> \<le> bignum_val b" unfolding bval using tb(3) by (intro mult_le_mono1) (simp add: Suc_leI)
  finally have less: "bignum_val ?r < bignum_val b" .
  have k16: "?k < 16"
  proof -
    have "?k * bignum_val b < 16 * bignum_val b" using le val A by linarith
    then show ?thesis by simp
  qed
  then show "t div o' < 0x10000" by (simp add: word_less_nat_alt q)
  have qd: "unat (ucast (t div o') :: uint16) = ?k"
    using k16 q by (simp add: unsigned_ucast_eq take_bit_eq_mod)
  show "returns (Clamp ?r) (\<lambda>r. div_inv A b (r, q + ucast (t div o')) \<and> bignum_val r < bignum_val b)"
    using vr less inv(2) div_inv_add(1) [OF I A _ _ qd le]
    by (intro returns_mono [OF Clamp_correct [OF rawr]]) (auto simp: bignum_inv_def split: if_splits)
qed

lemma div_estimate:
  assumes I: "div_inv A b (a, q)" and len: "BigitLength a = BigitLength b" and A: "A < 16 * bignum_val b"
    and b: "bignum_inv b" "0 < used_digits b"
  defines "t \<equiv> bigits a ! (used_digits a - 1)" and "o' \<equiv> bigits b ! (used_digits b - 1)"
  defines "est \<equiv> t div (o' + 1)"
  shows "est < 0x10000"
    and "returns (SubtractTimes a b (unat est)) (\<lambda>r. div_inv A b (r, q + ucast est) \<and>
      (t < o' * (est + 1) \<longrightarrow> bignum_val r < bignum_val b))"
proof -
  let ?n = "BigitLength b - 1"
  have inv: "bignum_inv a" "exponent a \<le> exponent b" and val: "bignum_val a \<le> A" using I by (auto simp: div_inv_def)
  have ua: "0 < used_digits a"
    using inv len b by (auto simp: bignum_inv_def BigitLength_def intro!: gr0I split: if_splits)
  note ta = top_bigit [OF inv(1) ua, folded t_def] and tb = top_bigit [OF b, folded o'_def]
  have o1: "unat (o' + 1) = unat o' + 1" using tb(4) by (subst unat_add_small) (simp_all add: bbase_def)
  have est: "unat est = unat t div (unat o' + 1)" by (simp add: est_def unat_div o1)
  have est_le: "unat est * (unat o' + 1) \<le> unat t" unfolding est by (rule div_times_less_eq_dividend)
  have "unat est * bignum_val b \<le> unat est * ((unat o' + 1) * bbase ^ ?n)"
    using tb(2) by (intro mult_le_mono2) simp
  also have "\<dots> \<le> unat t * bbase ^ ?n" unfolding mult.assoc [symmetric] using est_le by (rule mult_le_mono1)
  also have "\<dots> \<le> bignum_val a" using ta(1) len by simp
  finally have le: "unat est * bignum_val b \<le> bignum_val a" .
  then have "unat est * bignum_val b < 16 * bignum_val b" using val A by linarith
  then have e16: "unat est < 16" by simp
  then show "est < 0x10000" by (simp add: word_less_nat_alt)
  have ed: "unat (ucast est :: uint16) = unat est" using e16 by (simp add: unsigned_ucast_eq take_bit_eq_mod)
  have e1: "unat (est + 1) = unat est + 1" using e16 by (subst unat_add_small) simp_all
  have "unat o' * (unat est + 1) \<le> unat o' * 16" using e16 by (intro mult_le_mono2) simp
  also have "\<dots> < bbase * 16" using tb(4) by simp
  finally have "unat o' * (unat est + 1) < bbase * 16" .
  then have prod: "unat (o' * (est + 1)) = unat o' * (unat est + 1)"
    by (subst unat_mult_small) (simp_all add: e1 bbase_def)
  have fin: "bignum_val a - unat est * bignum_val b < bignum_val b" if "t < o' * (est + 1)"
  proof -
    have "unat t + 1 \<le> unat o' * (unat est + 1)" using that by (simp add: word_less_nat_alt prod)
    then have "(unat t + 1) * bbase ^ ?n \<le> unat o' * (unat est + 1) * bbase ^ ?n" by (rule mult_le_mono1)
    also have "\<dots> \<le> (unat est + 1) * bignum_val b"
      using mult_le_mono2 [OF tb(1), of "unat est + 1"] by (simp only: mult.assoc mult.left_commute)
    finally have "bignum_val a < (unat est + 1) * bignum_val b" using ta(2) len by simp
    then show ?thesis using le by (simp add: add_mult_distrib)
  qed
  show "returns (SubtractTimes a b (unat est)) (\<lambda>r. div_inv A b (r, q + ucast est) \<and>
      (t < o' * (est + 1) \<longrightarrow> bignum_val r < bignum_val b))"
    using e16 fin div_inv_add(1) [OF I A _ _ ed le]
    by (intro returns_mono [OF SubtractTimes_correct [OF inv(1) b(1) le inv(2)]]) auto
qed

lemma div_subtract_loop:
  assumes I: "div_inv A b (a, q)" and A: "A < 16 * bignum_val b" and b: "bignum_inv b" "0 < used_digits b"
    and post: "\<And>a q. div_inv A b (a, q) \<Longrightarrow> bignum_val a < bignum_val b \<Longrightarrow> P (a, q)"
  shows "returns (while_loop (\<lambda>(a, result). LessEqual b a)
             (\<lambda>(a, result). do { a \<leftarrow> SubtractBignum a b; Some (a, result + 1) }) (a, q)) P"
proof (rule returns_while [where I = "div_inv A b" and m = "\<lambda>(a, q). bignum_val a"], goal_cases)
  case (2 s)
  obtain a q where s: "s = (a, q)" and I: "div_inv A b (a, q)" using 2 by (cases s) auto
  have inv: "bignum_inv a" "exponent a \<le> exponent b" using I by (auto simp: div_inv_def)
  show ?case
  proof (cases "bignum_val b \<le> bignum_val a")
    case True
    have "0 < bignum_val b" using used_digits_0_iff [OF b(1)] b(2) by simp
    then have "bignum_val a - bignum_val b < bignum_val a" using True by linarith
    then have "returns (SubtractBignum a b) (\<lambda>r. div_inv A b (r, q + 1) \<and> bignum_val r < bignum_val a)"
      using True div_inv_add(1) [OF I A, of _ 1 1]
      by (intro returns_mono [OF SubtractBignum_low [OF inv(1) b(1) _ inv(2)]]) auto
    with True show ?thesis unfolding s prod.case by (simp add: LessEqual_correct inv b returns_bind)
  next
    case False
    with I s show ?thesis by (auto simp: LessEqual_correct inv b intro!: post)
  qed
qed (use I in auto)

text \<open>
  The quotient and the remainder, with every assertion of the source checked on the way. The quotient may be at
  most 15 and the top bigit of the divisor must not be \<open>2 ^ 28 - 1\<close>.
\<close>

lemma DivideModuloIntBignum_correct:
  assumes inv: "bignum_inv a" "bignum_inv b" and pos: "0 < bignum_val b" and small: "bignum_val a < 16 * bignum_val b"
    and top: "bignum_val b \<le> (bbase - 1) * bbase ^ (BigitLength b - 1)"
    and cap: "exponent a > exponent b \<Longrightarrow> BigitLength a - exponent b \<le> 128"
  shows "returns (DivideModuloIntBignum a b) (\<lambda>(q, r). unat q = bignum_val a div bignum_val b \<and>
    bignum_inv r \<and> bignum_val r = bignum_val a mod bignum_val b)"
proof -
  let ?A = "bignum_val a"
  have ub: "0 < used_digits b" using used_digits_0_iff [OF inv(2)] pos by (intro gr0I) simp
  have raw: "length (bigits b) = 128" "used_digits b \<le> 128" using inv(2) by (auto simp: bignum_inv_def bignum_raw_def)
  note asserts = returns_bind returns_assert_clamped [OF inv(1)] returns_assert_clamped [OF inv(2)] returns_check
  show ?thesis
  proof (cases "BigitLength a < BigitLength b")
    case True
    then have "?A < bignum_val b" using inv by (intro BigitLength_less_imp)
    with True ub inv show ?thesis by (simp add: DivideModuloIntBignum_def asserts)
  next
    case False
    obtain a' where al: "Align a b = Some a'" and a': "bignum_inv a'" "bignum_val a' = ?A"
      "exponent a' = min (exponent a) (exponent b)" "BigitLength a' = BigitLength a"
      using Align_correct [OF inv(1), of b] cap by (auto elim: returnsE)
    have I: "div_inv ?A b (a', 0)" using a' by (simp add: div_inv_def)
    have res: "unat q = ?A div bignum_val b \<and> bignum_inv r \<and> bignum_val r = ?A mod bignum_val b"
      if "div_inv ?A b (r, q)" "bignum_val r < bignum_val b" for q r
      using div_inv_result [OF that] by simp
    have lt: "used_digits b - 1 < length (bigits b)" using raw ub by simp
    show ?thesis
      unfolding DivideModuloIntBignum_def asserts if_not_P [OF False] al returns_Some returns_vget
    proof (intro conjI ub lt div_length_loop [OF I _ small inv(2) ub top], goal_cases)
      case 1
      show ?case using False a' by simp
    next
      case (2 c q)
      have ic: "bignum_inv c" using 2 by (simp add: div_inv_def)
      then have uc: "0 < used_digits c" "used_digits c - 1 < length (bigits c)"
        using 2(2) ub by (auto simp: bignum_inv_def bignum_raw_def BigitLength_def intro!: gr0I split: if_splits)
      show ?case
      proof (cases "used_digits b = 1")
        case True
        from div_single_digit [OF 2 small inv(2) True] True uc 2(2) show ?thesis
          by (auto simp: wp Let_def elim!: returns_mono intro!: res)
      next
        case nf: False
        note est = div_estimate [OF 2 small inv(2) ub]
        show ?thesis
          unfolding prod.case returns_bind returns_check returns_vget if_not_P [OF nf] Let_def
        proof (intro conjI uc(1,2) 2(2) est(1) returns_mono [OF est(2)], goal_cases)
          case (1 r)
          then show ?case
            by (auto simp: returns_bind intro!: res div_subtract_loop [OF _ small inv(2) ub])
        qed
      qed
    qed
  qed
qed

end
