(* ===== verification/Bignum_Properties.thy ===== *)
theory Bignum_Properties
  imports Bignum_Div
begin

text \<open>
  The contract of \<open>Bignum\<close>, operation by operation: each operation returns (so none of its
  assertions fails, no access leaves the buffer and every loop ends), keeps the representation
  invariant, and computes on the represented natural numbers what its name says.
\<close>

section \<open>Sample numbers\<close>

text \<open>One-digit numbers, for the concrete instances.\<close>

definition sample :: "Chunk \<Rightarrow> bignum" where
  "sample v = \<lparr>bigits = v # replicate 127 0, used_digits = 1, exponent = 0\<rparr>"

lemma sample_inv: "0 < unat v \<Longrightarrow> unat v < bbase \<Longrightarrow> bignum_inv (sample v)"
  and sample_val: "bignum_val (sample v) = unat v"
proof -
  have "zero_from 1 (v # replicate 127 0)" by (simp add: zero_from_def nth_Cons')
  then show "0 < unat v \<Longrightarrow> unat v < bbase \<Longrightarrow> bignum_inv (sample v)"
    by (auto simp: sample_def bignum_inv_def bignum_raw_def is_bigits_def)
  show "bignum_val (sample v) = unat v"
    by (simp add: sample_def bignum_val_def)
qed

lemma sample_simps: "exponent (sample v) = 0" "used_digits (sample v) = 1" "BigitLength (sample v) = 1"
  "bigits_val (bigits (sample v)) = unat v"
  using sample_val [of v] by (simp_all add: sample_def BigitLength_def bignum_val_def)

lemmas sample_facts = sample_inv sample_val sample_simps bbase_def

section \<open>Properties\<close>

text \<open>
  C37: dividing by a number that is not zero, with a quotient below 16 and a divisor whose top bigit is not
  \<open>2 ^ 28 - 1\<close>, gives the quotient as the result and leaves the remainder in \<open>this\<close>.
\<close>

theorem divide_modulo_is_div_mod:
  assumes "bignum_inv a" "bignum_inv b" "0 < bignum_val b" "bignum_val a < 16 * bignum_val b"
    and "bignum_val b \<le> (bbase - 1) * bbase ^ (BigitLength b - 1)"
    and "exponent a > exponent b \<Longrightarrow> BigitLength a - exponent b \<le> kBigitCapacity"
  shows "returns (DivideModuloIntBignum a b) (\<lambda>(q, r). unat q = bignum_val a div bignum_val b \<and>
    bignum_inv r \<and> bignum_val r = bignum_val a mod bignum_val b)"
  by (rule DivideModuloIntBignum_correct) (use assms in auto)

theorem divide_modulo_is_div_mod_witness:
  "returns (DivideModuloIntBignum (sample 47) (sample 5)) (\<lambda>(q, r). unat q = 9 \<and> bignum_inv r \<and> bignum_val r = 2)"
  using divide_modulo_is_div_mod [of "sample 47" "sample 5"] by (simp add: sample_facts)

text \<open>
  C38: the assertion that both numbers have the same length after the first loop of the division does fail when the
  top bigit of the divisor is \<open>2 ^ 28 - 1\<close>: for \<open>2 ^ 56\<close> divided by \<open>2 ^ 56 - 1\<close>, with the quotient 1.
\<close>

theorem divide_modulo_assertion_fails:
  "\<exists>a b. bignum_inv a \<and> bignum_inv b \<and> bignum_val a = 2 ^ 56 \<and> bignum_val b = 2 ^ 56 - 1 \<and>
     DivideModuloIntBignum a b = None"
proof -
  define a where "a = \<lparr>bigits = 0 # 0 # 1 # replicate 125 0, used_digits = 3, exponent = 0\<rparr>"
  define b where "b = \<lparr>bigits = 0xFFFFFFF # 0xFFFFFFF # replicate 126 0, used_digits = 2, exponent = 0\<rparr>"
  have a: "bignum_inv a" "bignum_val a = 2 ^ 56"
    by (auto simp: a_def bignum_inv_def bignum_raw_def is_bigits_def zero_from_def nth_Cons' bignum_val_def bbase_def)
  have b: "bignum_inv b" "bignum_val b = 2 ^ 56 - 1"
    by (auto simp: b_def bignum_inv_def bignum_raw_def is_bigits_def zero_from_def nth_Cons' bignum_val_def bbase_def)
  have "returns (SubtractTimes a b 1) (\<lambda>r. bignum_inv r \<and> bignum_val r = 1 \<and> exponent r \<le> 0)"
    using SubtractTimes_correct [OF a(1) b(1), of 1] a(2) b(2) by (simp add: a_def b_def)
  then obtain r where r: "SubtractTimes a b 1 = Some r" "bignum_inv r" "bignum_val r = 1" "exponent r = 0"
    by (auto elim: returnsE)
  have "used_digits r \<le> 1" using r by (intro used_digits_le) (auto simp: bignum_val_def bbase_def)
  then have len: "BigitLength r \<le> 1" using r(4) by (simp add: BigitLength_def)
  have clamped: "assert_clamped a = Some ()" "assert_clamped b = Some ()"
    using returns_assert_clamped [OF a(1), of "\<lambda>_. True"] returns_assert_clamped [OF b(1), of "\<lambda>_. True"]
    by (auto elim: returnsE)
  have fields: "used_digits a = 3" "exponent a = 0" "BigitLength a = 3" "vget (bigits a) 2 = Some 1"
    "used_digits b = 2" "exponent b = 0" "BigitLength b = 2" "vget (bigits b) 1 = Some 0xFFFFFFF"
    by (simp_all add: a_def b_def BigitLength_def vget_def)
  have "DivideModuloIntBignum a b = None"
    using r(1) len
    by (simp add: DivideModuloIntBignum_def clamped check_def Align_def fields
        while_loop.simps [of _ _ "(a, _)"] while_loop.simps [of _ _ "(r, _)"])
  with a b show ?thesis by blast
qed

text \<open>
  C39: \<open>PlusCompare\<close>, which compares \<open>a + b\<close> with \<open>c\<close> from the top digits down and without forming the
  sum, returns the sign of \<open>a + b - c\<close>.
\<close>

theorem plus_compare_is_sign:
  assumes "bignum_inv a" "bignum_inv b" "bignum_inv c"
  shows "PlusCompare a b c = Some (sgn (int (bignum_val a) + int (bignum_val b) - int (bignum_val c)))"
  using assms by (rule PlusCompare_correct)

theorem plus_compare_is_sign_witness: "PlusCompare (sample 3) (sample 4) (sample 8) = Some (-1)"
  using plus_compare_is_sign [of "sample 3" "sample 4" "sample 8"] by (simp add: sample_facts)

text \<open>
  Addition keeps the invariant and adds, whenever the digits of the sum have room in the buffer.
\<close>

theorem add_bignum_adds:
  assumes "bignum_inv a" "bignum_inv b"
    and "Suc (max (BigitLength a) (BigitLength b)) - min (exponent a) (exponent b) \<le> kBigitCapacity"
  shows "returns (AddBignum a b) (\<lambda>r. bignum_inv r \<and> bignum_val r = bignum_val a + bignum_val b)"
  using assms by (rule AddBignum_correct)

theorem add_bignum_adds_witness:
  "returns (AddBignum (sample 0xFFFFFFF) (sample 1)) (\<lambda>r. bignum_inv r \<and> bignum_val r = 2 ^ 28)"
  using add_bignum_adds [of "sample 0xFFFFFFF" "sample 1"] by (simp add: sample_facts)

text \<open>
  Subtraction of a number that is not larger keeps the invariant, clamps the result and subtracts.
\<close>

theorem subtract_bignum_subtracts:
  assumes "bignum_inv a" "bignum_inv b" "bignum_val b \<le> bignum_val a"
    and "exponent a > exponent b \<Longrightarrow> BigitLength a - exponent b \<le> kBigitCapacity"
  shows "returns (SubtractBignum a b) (\<lambda>r. bignum_inv r \<and> bignum_val r = bignum_val a - bignum_val b)"
  by (rule returns_mono [OF SubtractBignum_correct]) (use assms in auto)

theorem subtract_bignum_subtracts_witness:
  "returns (SubtractBignum (sample 9) (sample 4)) (\<lambda>r. bignum_inv r \<and> bignum_val r = 5)"
  using subtract_bignum_subtracts [of "sample 9" "sample 4"] by (simp add: sample_facts)

text \<open>
  Multiplication by a 64-bit factor, which adds the two halves of every 92-bit digit product separately,
  multiplies, whenever the product fits.
\<close>

theorem multiply_by_uint64_multiplies:
  assumes "bignum_inv a" "bigits_val (bigits a) * unat factor < bbase ^ kBigitCapacity"
  shows "returns (MultiplyByUInt64 a factor) (\<lambda>r. bignum_inv r \<and> bignum_val r = bignum_val a * unat factor)"
  by (rule returns_mono [OF MultiplyByUInt64_correct]) (use assms in auto)

theorem multiply_by_uint64_multiplies_witness:
  "returns (MultiplyByUInt64 (sample 7) 0xFFFFFFFFFFFFFFFF) (\<lambda>r. bignum_inv r \<and> bignum_val r = 7 * (2 ^ 64 - 1))"
  using multiply_by_uint64_multiplies [of "sample 7" "0xFFFFFFFFFFFFFFFF"] by (simp add: sample_facts)

text \<open>
  Multiplication by a power of ten, done by the factors 5 ^ 27, 5 ^ 13, one smaller power of five and a
  shift, multiplies by \<open>10 ^ e\<close>.
\<close>

theorem multiply_by_power_of_ten_multiplies:
  assumes "bignum_inv a" "bigits_val (bigits a) * 5 ^ e < bbase ^ 127"
  shows "returns (MultiplyByPowerOfTen a e) (\<lambda>r. bignum_inv r \<and> bignum_val r = bignum_val a * 10 ^ e)"
  by (rule returns_mono [OF MultiplyByPowerOfTen_correct]) (use assms in auto)

theorem multiply_by_power_of_ten_multiplies_witness:
  "returns (MultiplyByPowerOfTen (sample 3) 41) (\<lambda>r. bignum_inv r \<and> bignum_val r = 3 * 10 ^ 41)"
  using multiply_by_power_of_ten_multiplies [of "sample 3" 41] by (simp add: sample_facts)

text \<open>
  Squaring, the column-wise multiplication inside one buffer with a 64-bit accumulator that never
  overflows, gives the square.
\<close>

theorem square_squares:
  assumes "bignum_inv a" "used_digits a \<le> 64"
  shows "returns (Square a) (\<lambda>r. bignum_inv r \<and> bignum_val r = bignum_val a * bignum_val a)"
  by (rule returns_mono [OF Square_correct]) (use assms in auto)

theorem square_squares_witness:
  "returns (Square (sample 0xFFFFFFF)) (\<lambda>r. bignum_inv r \<and> bignum_val r = (2 ^ 28 - 1) * (2 ^ 28 - 1))"
  using square_squares [of "sample 0xFFFFFFF"] by (simp add: sample_facts)

text \<open>
  C40: \<open>AssignPowerUInt16\<close> computes \<open>base ^ e\<close>: the trailing zero bits of the base become one shift, the top
  bits of the exponent are done in a machine word without overflow, the rest by squaring and multiplying. Here
  \<open>base = q * 2 ^ t\<close> with \<open>q\<close> odd and below \<open>2 ^ n\<close>, and the result fits the buffer.
\<close>

theorem assign_power_is_power:
  assumes "bignum_raw a" "unat base = q * 2 ^ t" "odd q" "q < 2 ^ n" "n \<le> 16"
    and "n * e div kBigitSize + 2 \<le> kBigitCapacity" "e < 2 ^ 30"
  shows "returns (AssignPowerUInt16 a base e) (\<lambda>r. bignum_inv r \<and> bignum_val r = unat base ^ e)"
  using assms by (rule AssignPowerUInt16_correct)

theorem assign_power_is_power_witness:
  "returns (AssignPowerUInt16 new_bignum 10 300) (\<lambda>r. bignum_inv r \<and> bignum_val r = 10 ^ 300)"
  using assign_power_is_power [of new_bignum 10 5 1 3 300] bignum_inv_raw [OF bignum_inv_new] by simp

end
