(* ===== verification/Digits.thy ===== *)
theory Digits
  imports Prelude
begin

text \<open>
  Decimal digits as characters, the buffers that the conversions write them to, and the number that a sequence of
  digits stands for. A conversion keeps a buffer, the number of characters written so far and the position of the
  decimal point, as the three out-parameters of the source.
\<close>

section \<open>Characters\<close>

text \<open>\<open>'0' + n\<close> and \<open>c - '0'\<close>, and the increment of a character in a buffer.\<close>

definition digit_char :: "nat \<Rightarrow> char" where
  "digit_char n = char_of (n + 48)"

definition char_digit :: "char \<Rightarrow> nat" where
  "char_digit c = of_char c - 48"

definition incr_char :: "char \<Rightarrow> char" where
  "incr_char c = char_of (of_char c + 1 :: nat)"

definition vincr :: "string \<Rightarrow> nat \<Rightarrow> string result" where
  "vincr buffer i = do { c \<leftarrow> vget buffer i; vset buffer i (incr_char c) }"

definition decr_char :: "char \<Rightarrow> char" where
  "decr_char c = char_of (of_char c + 255 :: nat)"

definition vdecr :: "string \<Rightarrow> nat \<Rightarrow> string result" where
  "vdecr buffer i = do { c \<leftarrow> vget buffer i; vset buffer i (decr_char c) }"

definition is_decimal :: "char \<Rightarrow> bool" where
  "is_decimal c \<longleftrightarrow> (of_char c :: int) \<ge> of_char CHR ''0'' \<and> (of_char c :: int) \<le> of_char CHR ''9''"

lemma of_char_digit_char: "n \<le> 10 \<Longrightarrow> (of_char (digit_char n) :: nat) = n + 48"
  by (simp add: digit_char_def)

lemma char_digit_char [simp]: "n \<le> 10 \<Longrightarrow> char_digit (digit_char n) = n"
  by (simp add: char_digit_def of_char_digit_char)

lemma incr_digit_char [simp]: "n \<le> 9 \<Longrightarrow> incr_char (digit_char n) = digit_char (Suc n)"
  by (simp add: incr_char_def of_char_digit_char) (simp add: digit_char_def)

lemma digit_char_eq_iff: "m \<le> 10 \<Longrightarrow> n \<le> 10 \<Longrightarrow> digit_char m = digit_char n \<longleftrightarrow> m = n"
  by (metis char_digit_char)

lemma digit_char_0: "digit_char 0 = CHR ''0''" and digit_char_1: "digit_char (Suc 0) = CHR ''1''"
  by (simp_all add: digit_char_def char_of_eq_iff)

lemma returns_vincr [wp]: "returns (vincr xs i) P \<longleftrightarrow> i < length xs \<and> P (xs[i := incr_char (xs ! i)])"
  by (simp add: vincr_def wp)

lemma decr_digit_char [simp]: "n \<le> 9 \<Longrightarrow> decr_char (digit_char (Suc n)) = digit_char n"
proof -
  assume "n \<le> 9"
  then have "decr_char (digit_char (Suc n)) = char_of (n + 48 + 256)"
    by (simp add: decr_char_def of_char_digit_char)
  also have "\<dots> = char_of ((n + 48 + 256) mod 256)" by (simp only: char_of_mod_256)
  also have "(n + 48 + 256) mod 256 = (n + 48) mod 256" by (rule mod_add_self2)
  finally show ?thesis by (simp only: digit_char_def char_of_mod_256)
qed

lemma returns_vdecr [wp]: "returns (vdecr xs i) P \<longleftrightarrow> i < length xs \<and> P (xs[i := decr_char (xs ! i)])"
  by (simp add: vdecr_def wp)

lemma is_decimal_nat: "is_decimal c \<longleftrightarrow> 48 \<le> (of_char c :: nat) \<and> (of_char c :: nat) \<le> 57"
proof -
  have "(of_char c :: int) = int (of_char c)" by (rule of_nat_of_char [symmetric])
  then show ?thesis by (simp add: is_decimal_def)
qed

lemma is_decimal_digit_char [simp]: "n \<le> 9 \<Longrightarrow> is_decimal (digit_char n)"
  by (simp add: is_decimal_nat of_char_digit_char)

lemma is_decimal_iff: "is_decimal c \<longleftrightarrow> (\<exists>n \<le> 9. c = digit_char n)"
proof
  assume c: "is_decimal c"
  let ?m = "of_char c :: nat"
  have "?m - 48 \<le> 9" "?m - 48 + 48 = ?m" using c unfolding is_decimal_nat by linarith+
  then have "?m - 48 \<le> 9 \<and> c = digit_char (?m - 48)" by (simp add: digit_char_def)
  then show "\<exists>n \<le> 9. c = digit_char n" ..
qed auto

lemma char_digit_le: "is_decimal c \<Longrightarrow> char_digit c \<le> 9"
  by (auto simp: is_decimal_iff)

lemma digit_char_char_digit: "is_decimal c \<Longrightarrow> digit_char (char_digit c) = c"
  by (auto simp: is_decimal_iff)

section \<open>The number of a sequence of digits\<close>

definition digits_val :: "nat list \<Rightarrow> nat" where
  "digits_val ds = foldl (\<lambda>n d. 10 * n + d) 0 ds"

lemma foldl_digits: "foldl (\<lambda>n d. 10 * n + d) a ds = a * 10 ^ length ds + digits_val ds"
proof (induction ds arbitrary: a)
  case (Cons d ds)
  show ?case
    using Cons [of "10 * a + d"] Cons [of d] by (simp add: digits_val_def algebra_simps)
qed (simp add: digits_val_def)

lemma digits_val_Nil [simp]: "digits_val [] = 0"
  by (simp add: digits_val_def)

lemma digits_val_append: "digits_val (xs @ ys) = digits_val xs * 10 ^ length ys + digits_val ys"
  using foldl_digits [of "digits_val xs" ys] by (simp add: digits_val_def)

lemma digits_val_Cons [simp]: "digits_val (d # ds) = d * 10 ^ length ds + digits_val ds"
  using digits_val_append [of "[d]" ds] by (simp add: digits_val_def)

lemma digits_val_snoc: "digits_val (ds @ [d]) = 10 * digits_val ds + d"
  by (simp add: digits_val_append)

lemma digits_val_less: "(\<forall>d \<in> set ds. d \<le> 9) \<Longrightarrow> digits_val ds < 10 ^ length ds"
proof (induction ds)
  case (Cons d ds)
  then have "d * 10 ^ length ds \<le> 9 * 10 ^ length ds" "digits_val ds < 10 ^ length ds" by simp_all
  then show ?case by (simp only: digits_val_Cons length_Cons power_Suc)
qed simp

lemma digits_val_replicate_0 [simp]: "digits_val (replicate n 0) = 0"
  by (induction n) simp_all

lemma digits_val_replicate_end: "digits_val (ds @ replicate n 0) = digits_val ds * 10 ^ n"
  by (simp add: digits_val_append)

lemma digits_val_replicate_start: "digits_val (replicate n 0 @ ds) = digits_val ds"
  by (simp add: digits_val_append)

text \<open>The number that a text of digits stands for.\<close>

definition text_digits :: "string \<Rightarrow> nat" where
  "text_digits s = digits_val (map char_digit s)"

lemma char_digit_0 [simp]: "char_digit CHR ''0'' = 0"
  by (simp add: char_digit_def)

lemma text_digits_simps [simp]: "text_digits [] = 0"
  "text_digits (c # s) = char_digit c * 10 ^ length s + text_digits s"
  "text_digits (replicate n CHR ''0'') = 0"
  by (simp_all add: text_digits_def)

lemma text_digits_append: "text_digits (s @ t) = text_digits s * 10 ^ length t + text_digits t"
  by (simp add: text_digits_def digits_val_append)

end
