(* ===== verification/Bignum_Numbers.thy ===== *)
theory Bignum_Numbers
  imports Bignum_Mult Bignum_Div Bignum_Square Digits
begin

text \<open>
  The operations of \<open>Bignum\<close> as arithmetic on natural numbers, for the clients: \<open>stands_for a n\<close> says that \<open>a\<close> satisfies
  the invariant and stands for \<open>n\<close>. Every law asks for one limit on the numbers instead of a condition on bigits, so
  that the clients never look into a \<open>bignum\<close>. The reading of decimal strings is proved here too.
\<close>

definition stands_for :: "bignum \<Rightarrow> nat \<Rightarrow> bool" where
  "stands_for a n \<longleftrightarrow> bignum_inv a \<and> bignum_val a = n"

lemma stands_for_new [simp]: "stands_for new_bignum 0"
  by (simp add: stands_for_def)

lemma bbase_power: "bbase ^ k = 2 ^ (28 * k)"
  by (simp only: bbase_def power_mult)

lemma bigits_val_le: "bigits_val (bigits a) \<le> bignum_val a"
  by (simp add: bignum_val_def)

lemma stands_for_raw: "stands_for a n \<Longrightarrow> bignum_raw a"
  by (simp add: stands_for_def bignum_inv_raw)

lemma BigitLength_le:
  assumes "bignum_inv a" "bignum_val a < bbase ^ k"
  shows "BigitLength a \<le> k"
proof (cases "used_digits a = 0")
  case True
  with assms(1) show ?thesis by (simp add: BigitLength_def bignum_inv_def)
next
  case False
  then have "bbase ^ (BigitLength a - 1) < bbase ^ k" using bignum_val_ge [OF assms(1)] assms(2) by simp
  then have "BigitLength a - 1 < k" by (rule power_less_imp_less_exp [OF bbase_gt_1])
  then show ?thesis by simp
qed

lemma used_digits_le_BigitLength: "used_digits a \<le> BigitLength a"
  by (simp add: BigitLength_def)

section \<open>Laws\<close>

lemma num_AssignUInt64: "bignum_raw a \<Longrightarrow> returns (AssignUInt64 a v) (\<lambda>r. stands_for r (unat v))"
  by (rule returns_mono [OF AssignUInt64_correct]) (simp_all add: stands_for_def)

lemma num_AssignUInt16: "bignum_raw a \<Longrightarrow> returns (AssignUInt16 a v) (\<lambda>r. stands_for r (unat v))"
  by (rule returns_mono [OF AssignUInt16_correct]) (simp_all add: stands_for_def)

lemma num_Compare: "stands_for a m \<Longrightarrow> stands_for b n \<Longrightarrow> Compare a b = Some (sgn (int m - int n))"
  by (simp add: stands_for_def Compare_correct)

lemma num_MultiplyByPowerOfTen:
  assumes "stands_for a n" "n * 5 ^ e < bbase ^ 126"
  shows "returns (MultiplyByPowerOfTen a e) (\<lambda>r. stands_for r (n * 10 ^ e) \<and> used_digits r < 128)"
proof -
  have "bigits_val (bigits a) * 5 ^ e \<le> n * 5 ^ e"
    using assms(1) bigits_val_le [of a] by (intro mult_le_mono1) (simp add: stands_for_def)
  then have lt: "bigits_val (bigits a) * 5 ^ e < bbase ^ 126" using assms(2) by (rule le_less_trans)
  moreover have "bbase ^ 126 < bbase ^ 127" by (rule power_strict_increasing) (simp_all add: Suc_0_less_bbase)
  ultimately have "bigits_val (bigits a) * 5 ^ e < bbase ^ 127" by simp
  from MultiplyByPowerOfTen_correct [OF _ this] assms(1) lt show ?thesis
    by (auto simp: stands_for_def elim!: returns_mono dest: spec [of _ 126])
qed

lemma num_ShiftLeft:
  assumes "stands_for a n" "used_digits a < 128"
  shows "returns (ShiftLeft a s) (\<lambda>r. stands_for r (n * 2 ^ s) \<and> used_digits r \<le> used_digits a + 1)"
  using ShiftLeft_correct [OF _ assms(2)] assms(1) by (auto simp: stands_for_def elim!: returns_mono)

lemma num_AddUInt64:
  assumes "stands_for a n" "n < bbase ^ 126"
  shows "returns (AddUInt64 a w) (\<lambda>r. stands_for r (n + unat w))"
proof (cases "w = 0")
  case True
  with assms(1) show ?thesis by (simp add: AddUInt64_def)
next
  case False
  have len: "BigitLength a \<le> 126" using assms by (intro BigitLength_le) (auto simp: stands_for_def)
  have inv: "bignum_inv a" "bignum_val a = n" using assms(1) by (simp_all add: stands_for_def)
  have add: "returns (AddBignum a b) (\<lambda>r. stands_for r (n + unat w))"
    if b: "bignum_inv b" "bignum_val b = unat w" "exponent b = 0" "used_digits b \<le> 3" for b
  proof -
    have "Suc (max (BigitLength a) (BigitLength b)) - min (exponent a) (exponent b) \<le> 128"
      using len b(3,4) by (simp add: BigitLength_def)
    from AddBignum_correct [OF inv(1) b(1) this] inv(2) b(2) show ?thesis by (simp add: stands_for_def)
  qed
  have "bignum_raw new_bignum" using bignum_inv_new by (rule bignum_inv_raw)
  from AssignUInt64_correct [OF this, of w] False show ?thesis
    by (auto simp: AddUInt64_def returns_bind elim!: returns_mono intro: add)
qed

section \<open>Decimal strings\<close>

text \<open>The invariant of the loop of \<open>ReadUInt64\<close>.\<close>

lemma text_digits_less: "list_all is_decimal s \<Longrightarrow> text_digits s < 10 ^ length s"
  unfolding text_digits_def using digits_val_less [of "map char_digit s"] char_digit_le
  by (auto simp: list_all_iff)

lemma digit_of_char_decimal: "is_decimal c \<Longrightarrow> digit_of_char c = int (char_digit c)"
proof -
  assume c: "is_decimal c"
  have "(of_char c :: int) = int (of_char c)" by (rule of_nat_of_char [symmetric])
  with c show ?thesis by (simp add: digit_of_char_def char_digit_def is_decimal_nat of_nat_diff)
qed

lemma text_digits_take_Suc:
  "i < length s \<Longrightarrow> text_digits (take (Suc i) s) = 10 * text_digits (take i s) + char_digit (s ! i)"
  by (simp add: take_Suc_conv_app_nth text_digits_append)

lemma ReadUInt64_correct:
  assumes s: "list_all is_decimal s" and k: "k \<le> 19" "from + k \<le> length s"
  shows "returns (ReadUInt64 s from k) (\<lambda>w. unat w = text_digits (take k (drop from s)))"
  unfolding ReadUInt64_def
proof (rule returns_for_up [where I = "\<lambda>i w. unat w = text_digits (take (i - from) (drop from s))"], goal_cases)
  case (3 i w)
  let ?t = "drop from s" and ?j = "i - from"
  have j: "?j < length ?t" "?j < 19" "s ! i = ?t ! ?j" "i < length s" using 3 k by auto
  have c: "is_decimal (s ! i)" using s j(4) by (simp add: list_all_iff)
  have lt: "text_digits (take (Suc ?j) ?t) < 10 ^ 19"
  proof -
    have "list_all is_decimal (take (Suc ?j) ?t)"
      using s by (auto simp: list_all_iff dest!: in_set_takeD in_set_dropD)
    from text_digits_less [OF this] have "text_digits (take (Suc ?j) ?t) < 10 ^ Suc ?j" using j by simp
    also have "(10 :: nat) ^ Suc ?j \<le> 10 ^ 19" using j(2) by (intro power_increasing) simp_all
    finally show ?thesis .
  qed
  have suc: "Suc i - from = Suc ?j" using 3 by simp
  have eq: "unat w * 10 + char_digit (s ! i) = text_digits (take (Suc ?j) ?t)"
    using 3(3) j by (simp add: text_digits_take_Suc)
  have d: "unat (of_int (digit_of_char (s ! i)) :: uint64) = char_digit (s ! i)"
    using char_digit_le [OF c] by (simp add: digit_of_char_decimal [OF c] unat_of_nat)
  have u10: "unat (10 :: uint64) = 10" by simp
  have "(10 :: nat) ^ 19 < 2 ^ 64" by simp
  then have lim: "unat w * 10 + char_digit (s ! i) < 2 ^ 64" unfolding eq using lt by linarith
  have m: "unat (w * 10) = unat w * 10" using lim by (subst unat_mult_small) (simp_all only: u10 length_64)
  have "unat (w * 10 + of_int (digit_of_char (s ! i))) = unat w * 10 + char_digit (s ! i)"
    using lim by (subst unat_add_small) (simp_all only: m d length_64)
  then show ?case
    using j(4) char_digit_le [OF c] unfolding suc eq [symmetric]
    by (simp add: wp Let_def digit_of_char_decimal [OF c])
qed simp_all

lemma AssignDecimalString_correct:
  assumes s: "list_all is_decimal s" "length s \<le> 800" and raw: "bignum_raw a"
  shows "returns (AssignDecimalString a s) (\<lambda>r. stands_for r (text_digits s))"
proof -
  have step: "returns (do {
        digits \<leftarrow> ReadUInt64 s pos k;
        b \<leftarrow> MultiplyByPowerOfTen b k;
        AddUInt64 b digits }) (\<lambda>r. stands_for r (text_digits (take (pos + k) s)))"
    if b: "stands_for b (text_digits (take pos s))" and k: "k \<le> 19" "pos + k \<le> length s" for b pos k
  proof -
    have "list_all is_decimal (take pos s)" using s(1) by (auto simp: list_all_iff dest: in_set_takeD)
    then have "text_digits (take pos s) < 10 ^ pos" using text_digits_less [of "take pos s"] k by simp
    then have "text_digits (take pos s) * 10 ^ k < 10 ^ pos * 10 ^ k" by simp
    also have "\<dots> = 10 ^ (pos + k)" by (simp add: power_add)
    also have "(10 :: nat) ^ (pos + k) \<le> 10 ^ 800" using k s(2) by (intro power_increasing) simp_all
    also have "(10 :: nat) ^ 800 \<le> (2 ^ 4) ^ 800" by (intro power_mono) simp_all
    also have "((2 :: nat) ^ 4) ^ 800 = 2 ^ 3200" unfolding power_mult [symmetric] by (rule arg_cong [of _ _ "power 2"]) simp
    also have "(2 :: nat) ^ 3200 \<le> 2 ^ (28 * 126)" by (intro power_increasing) simp_all
    also have "\<dots> = bbase ^ 126" by (simp only: bbase_def power_mult)
    finally have lim: "text_digits (take pos s) * 10 ^ k < bbase ^ 126" .
    have "text_digits (take pos s) * 5 ^ k \<le> text_digits (take pos s) * 10 ^ k"
      by (intro mult_le_mono2 power_mono) simp_all
    with lim have lim5: "text_digits (take pos s) * 5 ^ k < bbase ^ 126" by linarith
    have split: "text_digits (take pos s) * 10 ^ k + text_digits (take k (drop pos s)) = text_digits (take (pos + k) s)"
      using k by (simp add: take_add text_digits_append)
    show ?thesis
      unfolding returns_bind
      by (rule returns_mono [OF ReadUInt64_correct [OF s(1) k]],
          rule returns_mono [OF num_MultiplyByPowerOfTen [OF b lim5]],
          rule returns_mono [OF num_AddUInt64 [OF _ lim]]) (auto simp: split)
  qed
  have fin: "returns (Clamp b) (\<lambda>r. stands_for r n)" if "stands_for b n" for b n
    using Clamp_correct [OF stands_for_raw [OF that]] that by (auto simp: stands_for_def elim!: returns_mono)
  show ?thesis
    unfolding AssignDecimalString_def returns_bind
  proof (rule returns_mono [OF Zero_new [OF raw]], simp only:,
      rule returns_while [where I = "\<lambda>(b, pos, len). stands_for b (text_digits (take pos s)) \<and> pos + len = length s"
        and m = "\<lambda>(b, pos, len). len"], goal_cases)
    case 1
    then show ?case by simp
  next
    case (2 x st)
    then obtain b pos len where st: "st = (b, pos, len)" "stands_for b (text_digits (take pos s))" "pos + len = length s"
      by (cases st) auto
    show ?case
    proof (cases "len \<ge> 19")
      case True
      with step [OF st(2), of 19] st show ?thesis
        by (auto simp: returns_bind st elim!: returns_mono)
    next
      case False
      with step [OF st(2), of len] st show ?thesis
        by (auto simp: returns_bind st elim!: returns_mono intro!: fin)
    qed
  qed
qed

end
