(* ===== verification/Rounding.thy ===== *)
theory Rounding
  imports Prelude
begin

text \<open>
  The arithmetic of \<open>double\<close> in two places of the library that estimate a logarithm, \<open>EstimatePower\<close> and
  \<open>GetCachedPowerForBinaryExponentRange\<close>. The operands and results there are multiples of a fixed power of two,
  so that a \<open>double\<close> is an integer times that power and an operation is the exact one followed by rounding to 53
  significant bits, ties to even. The last section has the bounds on the logarithm of two that make the estimates
  right.
\<close>

section \<open>Rounding to 53 bits\<close>

fun bit_length :: "nat \<Rightarrow> nat" where
  "bit_length n = (if n = 0 then 0 else Suc (bit_length (n div 2)))"

declare bit_length.simps [simp del]

definition round_half_even :: "nat \<Rightarrow> nat \<Rightarrow> nat" where
  "round_half_even n d =
     (let q = n div d; r = n mod d in
      if 2 * r > d \<or> (2 * r = d \<and> odd q) then q + 1 else q)"

definition round53_nat :: "nat \<Rightarrow> nat" where
  "round53_nat n = (let s = bit_length n - 53 in round_half_even n (2 ^ s) * 2 ^ s)"

definition round53 :: "int \<Rightarrow> int" where
  "round53 x = (if x < 0 then - int (round53_nat (nat (- x))) else int (round53_nat (nat x)))"

lemma bit_length_bounds: "0 < n \<Longrightarrow> 2 ^ (bit_length n - 1) \<le> n \<and> n < 2 ^ bit_length n"
proof (induction n rule: bit_length.induct)
  case (1 n)
  show ?case
  proof (cases "n = 1")
    case True
    then show ?thesis by (simp add: bit_length.simps [of "Suc 0"] bit_length.simps [of 0])
  next
    case False
    with 1 have IH: "2 ^ (bit_length (n div 2) - 1) \<le> n div 2" "n div 2 < 2 ^ bit_length (n div 2)" by auto
    have "0 < n div 2" using False 1 by auto
    then have "0 < bit_length (n div 2)" by (subst bit_length.simps) simp
    then obtain k where k: "bit_length (n div 2) = Suc k" by (cases "bit_length (n div 2)") auto
    have "bit_length n = Suc (Suc k)" using 1(2) k by (subst bit_length.simps) simp
    with IH k show ?thesis by auto
  qed
qed

lemma round_half_even_bounds:
  assumes "0 < d"
  shows "2 * round_half_even n d * d \<le> 2 * n + d" "2 * n \<le> 2 * round_half_even n d * d + d"
proof -
  let ?q = "n div d" and ?r = "n mod d"
  have n: "n = ?q * d + ?r" and r: "?r < d" using assms by (simp_all add: div_mult_mod_eq)
  have "2 * round_half_even n d * d \<le> 2 * n + d \<and> 2 * n \<le> 2 * round_half_even n d * d + d"
  proof (cases "round_half_even n d = ?q + 1")
    case True
    then have "d \<le> 2 * ?r" by (auto simp: round_half_even_def Let_def split: if_splits)
    moreover have "2 * (?q + 1) * d = 2 * (?q * d) + 2 * d" by (simp add: algebra_simps)
    ultimately show ?thesis unfolding True using n r by linarith
  next
    case False
    then have q: "round_half_even n d = ?q" and "2 * ?r \<le> d" by (auto simp: round_half_even_def Let_def split: if_splits)
    moreover have "2 * ?q * d = 2 * (?q * d)" by simp
    ultimately show ?thesis unfolding q using n r by linarith
  qed
  then show "2 * round_half_even n d * d \<le> 2 * n + d" "2 * n \<le> 2 * round_half_even n d * d + d" by auto
qed

text \<open>The rounding error is at most \<open>2 ^ -53\<close> of the number.\<close>

lemma round53_nat_error:
  assumes "n < 2 ^ k" "53 \<le> k"
  shows "\<bar>int (round53_nat n) - int n\<bar> \<le> 2 ^ (k - 53)"
proof -
  let ?s = "bit_length n - 53"
  have "2 * round53_nat n \<le> 2 * n + 2 ^ ?s" "2 * n \<le> 2 * round53_nat n + 2 ^ ?s"
    using round_half_even_bounds [of "2 ^ ?s" n] by (simp_all add: round53_nat_def Let_def)
  then have "int (2 * round53_nat n) \<le> int (2 * n + 2 ^ ?s)" "int (2 * n) \<le> int (2 * round53_nat n + 2 ^ ?s)"
    by (simp_all only: of_nat_le_iff)
  then have "\<bar>int (round53_nat n) - int n\<bar> * 2 \<le> 2 ^ ?s" by (simp add: abs_if)
  moreover have "(2 :: int) ^ ?s \<le> 2 ^ (k - 53)"
  proof (cases "n = 0")
    case True
    then show ?thesis by (simp add: bit_length.simps)
  next
    case False
    then have "2 ^ (bit_length n - 1) < (2 :: nat) ^ k" using bit_length_bounds [of n] assms(1) by linarith
    then have "bit_length n - 1 < k" by simp
    then show ?thesis by (intro power_increasing) auto
  qed
  moreover have "d \<le> D" if "d * 2 \<le> e" "e \<le> D" "0 \<le> d" for d e D :: int using that by linarith
  ultimately show ?thesis by (meson abs_ge_zero)
qed

lemma round53_error:
  assumes "\<bar>x\<bar> < 2 ^ k" "53 \<le> k"
  shows "\<bar>round53 x - x\<bar> \<le> 2 ^ (k - 53)"
proof -
  have "nat \<bar>x\<bar> < 2 ^ k" using assms(1) by (simp add: nat_less_iff)
  from round53_nat_error [OF this assms(2)] show ?thesis
    by (auto simp: round53_def abs_if split: if_splits)
qed

section \<open>The logarithm of two\<close>

text \<open>
  The double closest to 0.30102999566398114 is \<open>log10_2_num * 2 ^ -53\<close>. Both sides of the exact logarithm of two are
  fractions with a small denominator, and no fraction with a denominator below 1166 lies between them.
\<close>

definition log10_2_num :: int where
  "log10_2_num = 2711437152599295"

lemma log10_2_num_literal: "\<bar>log10_2_num * 10 ^ 17 - 30102999566398114 * 2 ^ 53\<bar> * 2 \<le> 10 ^ 17"
  by (simp add: log10_2_num_def)

lemma two_ten_powers: "(10 :: nat) ^ 205 < 2 ^ 681" "(2 :: nat) ^ 485 < 10 ^ 146"
proof -
  have "(5 :: nat) ^ 205 < 2 ^ 476" "(2 :: nat) ^ 339 < 5 ^ 146" by simp_all
  then have "2 ^ 205 * (5 :: nat) ^ 205 < 2 ^ 205 * 2 ^ 476" "2 ^ 146 * (2 :: nat) ^ 339 < 2 ^ 146 * 5 ^ 146"
    by (simp_all only: mult_less_cancel1 zero_less_power zero_less_numeral)
  then show "(10 :: nat) ^ 205 < 2 ^ 681" "(2 :: nat) ^ 485 < 10 ^ 146"
    by (simp_all only: power_mult_distrib [symmetric] power_add [symmetric]) (simp_all only: numeral_times_numeral
        numeral_plus_numeral semiring_norm)
qed

lemma farey_gap:
  fixes p x :: int
  assumes "x < 1166" "485 * p < 146 * x"
  shows "681 * p \<le> 205 * x"
  using assms by linarith

lemma log10_2_bounds: "205 / 681 < log 10 (2 :: real)" "log 10 (2 :: real) < 146 / 485"
proof -
  have "real (10 ^ 205) < real (2 ^ 681)" using two_ten_powers(1) by (simp only: of_nat_less_iff)
  then have "(10 :: real) ^ 205 < 2 ^ 681" by (simp only: of_nat_power of_nat_numeral)
  then have "log 10 ((10 :: real) ^ 205) < log 10 (2 ^ 681)" by (subst log_less_cancel_iff) (auto simp del: power_numeral)
  then have "205 * log 10 10 < 681 * log 10 (2 :: real)" by (simp only: log_nat_power zero_less_numeral of_nat_numeral)
  then show "205 / 681 < log 10 (2 :: real)" by simp
  have "real (2 ^ 485) < real (10 ^ 146)" using two_ten_powers(2) by (simp only: of_nat_less_iff)
  then have "(2 :: real) ^ 485 < 10 ^ 146" by (simp only: of_nat_power of_nat_numeral)
  then have "log 10 ((2 :: real) ^ 485) < log 10 (10 ^ 146)" by (subst log_less_cancel_iff) (auto simp del: power_numeral)
  then have "485 * log 10 (2 :: real) < 146 * log 10 10" by (simp only: log_nat_power zero_less_numeral of_nat_numeral)
  then show "log 10 (2 :: real) < 146 / 485" by simp
qed

text \<open>
  An integer below the product of \<open>x\<close> with a number that lies between the two fractions is below the product with the
  exact logarithm.
\<close>

lemma below_log10_2:
  fixes p x :: int
  assumes x: "\<bar>x\<bar> < 1166" and pos: "0 < x \<Longrightarrow> 485 * p < 146 * x" and neg: "x < 0 \<Longrightarrow> 681 * p < 205 * x"
    and zero: "x = 0 \<Longrightarrow> p < 0"
  shows "real_of_int p < x * log 10 2"
proof -
  consider "0 < x" | "x = 0" | "x < 0" by linarith
  then show ?thesis
  proof cases
    case 1
    then have "681 * p \<le> 205 * x" using x pos by (intro farey_gap) auto
    then have "real_of_int (681 * p) \<le> real_of_int (205 * x)" by (simp only: of_int_le_iff)
    then have "real_of_int p \<le> x * (205 / 681)" by simp
    also have "\<dots> < x * log 10 2" using 1 log10_2_bounds(1) by (intro mult_strict_left_mono) auto
    finally show ?thesis .
  next
    case 2
    with zero show ?thesis by simp
  next
    case 3
    have "146 * (- x) \<le> 485 * (- p)"
    proof (rule ccontr)
      assume "\<not> 146 * (- x) \<le> 485 * (- p)"
      then have "681 * (- p) \<le> 205 * (- x)" using x by (intro farey_gap) auto
      then show False using neg [OF 3] by linarith
    qed
    then have "real_of_int (485 * p) \<le> real_of_int (146 * x)" by (simp only: of_int_le_iff)
    then have "real_of_int p \<le> x * (146 / 485)" by simp
    also have "\<dots> < x * log 10 2" using 3 log10_2_bounds(2) by (intro mult_strict_left_mono_neg) auto
    finally show ?thesis .
  qed
qed

lemma powi_less_log: "real_of_int p < x * log 10 2 \<longleftrightarrow> (10 :: real) powi p < 2 powi x" for p x :: int
proof -
  have ten: "(10 :: real) powi p = 10 powr p" by (simp add: powr_real_of_int')
  have "(2 :: real) powi x = (10 powr log 10 2) powr x" by (simp add: powr_real_of_int')
  then have two: "(2 :: real) powi x = 10 powr (x * log 10 2)" by (simp only: powr_powr mult.commute)
  show ?thesis unfolding ten two by simp
qed

end
