(* ===== verification/Bignum_Interface.thy ===== *)
theory Bignum_Interface
  imports Bignum_Numbers Rounding
begin

text \<open>
  What the conversions to digits rely on: the operations of \<open>Bignum\<close> as arithmetic on natural numbers below a limit, as a
  locale, with the lemmas on one decimal digit that its clients share. The interpretation discharges the laws for
  the bigit arithmetic. The divisors are products of powers of ten and two: no power of ten below \<open>10 ^ 340\<close> is so close
  to a power of two that the top bigit of such a product has all its bits set.
\<close>

section \<open>The interface\<close>

locale big_numbers =
  fixes stands :: "'b \<Rightarrow> nat \<Rightarrow> bool" and limit :: nat and divisor :: "nat \<Rightarrow> bool"
    and times10 :: "'b \<Rightarrow> 'b result" and divide_modulo :: "'b \<Rightarrow> 'b \<Rightarrow> (uint16 \<times> 'b) result"
    and plus_compare :: "'b \<Rightarrow> 'b \<Rightarrow> 'b \<Rightarrow> int result"
  assumes times10_law: "stands a n \<Longrightarrow> n < limit \<Longrightarrow> returns (times10 a) (\<lambda>r. stands r (10 * n))"
    and divide_modulo_law: "stands a m \<Longrightarrow> stands b n \<Longrightarrow> divisor n \<Longrightarrow> m < 16 * n \<Longrightarrow> m < limit \<Longrightarrow>
      returns (divide_modulo a b) (\<lambda>(q, r). unat q = m div n \<and> stands r (m mod n))"
    and plus_compare_law: "stands a l \<Longrightarrow> stands b m \<Longrightarrow> stands c n \<Longrightarrow>
      plus_compare a b c = Some (sgn (int l + int m - int n))"
    and divisor_pos: "divisor n \<Longrightarrow> 0 < n"
begin

text \<open>The next digit of \<open>m / n\<close>.\<close>

lemma next_digit:
  assumes "stands a m" "stands b n" "divisor n" "m < 10 * n" "m < limit"
  shows "returns (divide_modulo a b) (\<lambda>(q, r). unat q = m div n \<and> q \<le> 9 \<and> stands r (m mod n))"
proof -
  have "m div n \<le> 9" using assms(4) by (simp add: less_mult_imp_div_less Suc_leI less_Suc_eq_le [symmetric])
  moreover have "m < 16 * n" using assms(4) by simp
  ultimately show ?thesis
    by (intro returns_mono [OF divide_modulo_law [OF assms(1-3) _ assms(5)]]) (auto simp: word_le_nat_alt)
qed

text \<open>The comparison of a remainder with half of the divisor.\<close>

lemma half_compare:
  assumes "stands r m" "stands b n"
  obtains c where "plus_compare r r b = Some c" "c < 0 \<longleftrightarrow> 2 * m < n" "c > 0 \<longleftrightarrow> n < 2 * m"
  using that plus_compare_law [OF assms(1,1,2)] by (auto simp: sgn_if)

end

section \<open>Powers of ten beside powers of two\<close>

lemma ten_below_two:
  fixes p x :: nat
  assumes lt: "(10 :: real) ^ p < 2 ^ x" and x: "0 < x" "x < 1166"
  shows "(10 :: real) ^ p * 2 ^ 28 \<le> (2 ^ 28 - 1) * 2 ^ x"
proof (rule ccontr)
  define t where "t = (10 :: real) ^ p / 2 ^ x"
  have t0: "0 < t" by (simp add: t_def)
  assume "\<not> (10 :: real) ^ p * 2 ^ 28 \<le> (2 ^ 28 - 1) * 2 ^ x"
  then have t: "1 + (- 1 / 2 ^ 28) < t" by (simp add: t_def field_simps)
  have "(10 :: real) powi int p < 2 powi int x" using lt by simp
  then have "real p < x * log 10 2" using powi_less_log [of "int p" "int x"] by simp
  also have "\<dots> < x * (146 / 485)" using x(1) log10_2_bounds(2) by (intro mult_strict_left_mono) auto
  finally have "485 * real p < 146 * real x" by simp
  then have "485 * p < 146 * x" by linarith
  then have le: "681 * p \<le> 205 * x" using x farey_gap [of "int x" "int p"] by linarith
  have "1000 * (5 :: real) ^ 205 \<le> 997 * 2 ^ 476" by simp
  moreover have "(10 :: real) ^ 205 / 2 ^ 681 = 5 ^ 205 / 2 ^ 476"
  proof -
    have "(10 :: real) ^ 205 = 5 ^ 205 * 2 ^ 205" unfolding power_mult_distrib [symmetric] by simp
    moreover have "(2 :: real) ^ 681 = 2 ^ 476 * 2 ^ 205" unfolding power_add [symmetric] by simp
    ultimately show ?thesis by (simp only: mult_divide_mult_cancel_right power_not_zero zero_neq_numeral not_False_eq_True)
  qed
  ultimately have ratio: "(10 :: real) ^ 205 / 2 ^ 681 \<le> 997 / 1000" "(10 :: real) ^ 205 / 2 ^ 681 \<le> 1" by simp_all
  have "1 + real 681 * (- 1 / 2 ^ 28) \<le> (1 + (- 1 / 2 ^ 28)) ^ 681" by (rule Bernoulli_inequality) simp
  also have "\<dots> \<le> t ^ 681" using t by (intro power_mono) simp_all
  also have "\<dots> = 10 ^ (681 * p) / 2 ^ (681 * x)" by (simp add: t_def power_divide power_mult [symmetric] mult.commute del: power_numeral)
  also have "\<dots> \<le> 10 ^ (205 * x) / 2 ^ (681 * x)" using le by (intro divide_right_mono power_increasing) auto
  also have "\<dots> = (10 ^ 205 / 2 ^ 681) ^ x" by (simp add: power_divide power_mult del: power_numeral)
  also have "\<dots> \<le> (10 ^ 205 / 2 ^ 681) ^ 1" using x(1) ratio by (intro power_decreasing) simp_all
  finally have "1 + real 681 * (- 1 / 2 ^ 28) \<le> 997 / 1000" using ratio(1) by simp
  then show False by simp
qed

definition divisor_ok :: "nat \<Rightarrow> bool" where
  "divisor_ok n \<longleftrightarrow> (\<exists>p s. p \<le> 340 \<and> n = 10 ^ p * 2 ^ s)"

lemma divisor_top:
  assumes n: "divisor_ok n" "n < bbase ^ l"
  shows "n \<le> (bbase - 1) * bbase ^ (l - 1)"
proof -
  obtain p s where p: "p \<le> 340" and n': "n = 10 ^ p * 2 ^ s" using n(1) by (auto simp: divisor_ok_def)
  have "n \<noteq> 0" using n' by simp
  then have l: "0 < l" using n(2) by (cases l) auto
  show ?thesis
  proof (rule ccontr)
    assume "\<not> n \<le> (bbase - 1) * bbase ^ (l - 1)"
    then have gt: "(bbase - 1) * bbase ^ (l - 1) < n" by simp
    note bl = bbase_power [of l]
    have bl2: "bbase * bbase ^ (l - 1) = bbase ^ l" using l by (cases l) simp_all
    have b28: "bbase = 2 ^ 28" by (simp only: bbase_def)
    have s: "s < 28 * l"
    proof (rule ccontr)
      assume "\<not> s < 28 * l"
      then have "(2 :: nat) ^ (28 * l) \<le> 2 ^ s" by (intro power_increasing) simp_all
      also have "\<dots> \<le> n" using n' by simp
      finally show False using n(2) bl by linarith
    qed
    define x where "x = 28 * l - s"
    have sx: "28 * l = s + x" "0 < x" using s by (simp_all add: x_def)
    have "10 ^ p * 2 ^ s < (2 :: nat) ^ x * 2 ^ s" using n(2) unfolding n' bl sx by (simp add: power_add mult.commute)
    then have lt: "(10 :: nat) ^ p < 2 ^ x" by simp
    then have lt': "(10 :: real) ^ p < 2 ^ x" by (metis of_nat_less_iff of_nat_numeral of_nat_power)
    have "(bbase - 1) * bbase ^ (l - 1) * bbase < n * bbase" using gt by simp
    also have "(bbase - 1) * bbase ^ (l - 1) * bbase = (bbase - 1) * bbase ^ l" unfolding bl2 [symmetric] by (simp only: mult_ac)
    finally have "(2 ^ 28 - 1) * (2 :: nat) ^ x * 2 ^ s < 10 ^ p * 2 ^ 28 * 2 ^ s"
      unfolding n' bl sx unfolding b28 by (simp only: power_add mult_ac)
    then have gt': "(2 ^ 28 - 1) * (2 :: nat) ^ x < 10 ^ p * 2 ^ 28" by (simp only: mult_less_cancel2)
    have "x < 1166"
    proof (rule ccontr)
      assume "\<not> x < 1166"
      have "(10 :: nat) ^ p \<le> 10 ^ (3 * 114)" using p by (intro power_increasing) simp_all
      also have "\<dots> = (10 ^ 3) ^ 114" by (rule power_mult)
      also have "\<dots> \<le> (2 ^ 10) ^ 114" by (intro power_mono) simp_all
      also have "\<dots> = 2 ^ (10 * 114)" by (rule power_mult [symmetric])
      also have "\<dots> \<le> (2 :: nat) ^ (x - 1)" using \<open>\<not> x < 1166\<close> by (intro power_increasing) simp_all
      finally have "10 ^ p * 2 ^ 28 \<le> (2 :: nat) ^ (x - 1) * 2 ^ 28" by (rule mult_le_mono1)
      also have "\<dots> = 2 ^ 27 * 2 ^ x" using sx(2) by (cases x) simp_all
      also have "\<dots> \<le> (2 ^ 28 - 1) * (2 :: nat) ^ x" by (rule mult_le_mono1) simp
      finally show False using gt' by linarith
    qed
    from ten_below_two [OF lt' sx(2) this] have "real (10 ^ p * 2 ^ 28) \<le> real ((2 ^ 28 - 1) * 2 ^ x)" by simp
    then show False using gt' by (simp only: of_nat_le_iff)
  qed
qed

section \<open>The laws for bigits\<close>

definition big_limit :: nat where
  "big_limit = bbase ^ 100"

lemma big_limit_less: "n < big_limit \<Longrightarrow> k * n < bbase ^ 126" if "k \<le> bbase ^ 26"
proof -
  assume n: "n < big_limit"
  have "k * n \<le> bbase ^ 26 * n" using that by (rule mult_le_mono1)
  also have "\<dots> < bbase ^ 26 * bbase ^ 100"
    using n unfolding big_limit_def by (rule mult_strict_left_mono) (rule zero_less_power, rule bbase_pos)
  also have "\<dots> = bbase ^ 126" by (simp flip: power_add)
  finally show ?thesis .
qed

lemma big_length:
  assumes "stands_for a n" "n < big_limit"
  shows "BigitLength a \<le> 100" "used_digits a \<le> 100"
proof -
  show "BigitLength a \<le> 100" using assms by (intro BigitLength_le) (simp_all add: stands_for_def big_limit_def)
  then show "used_digits a \<le> 100" using used_digits_le_BigitLength [of a] by simp
qed

lemma num_times:
  assumes "stands_for a n" "n < big_limit"
  shows "returns (MultiplyByUInt32 a w) (\<lambda>r. stands_for r (n * unat w))"
    "returns (MultiplyByUInt64 a v) (\<lambda>r. stands_for r (n * unat v))"
proof -
  have inv: "bignum_inv a" "bignum_val a = n" using assms(1) by (simp_all add: stands_for_def)
  have lim: "bigits_val (bigits a) * k < bbase ^ 128" if "k < 2 ^ 64" for k
  proof -
    have "bigits_val (bigits a) \<le> n" using bigits_val_le [of a] inv by simp
    then have "bigits_val (bigits a) * k \<le> k * n" by (simp add: mult.commute)
    also have "\<dots> < bbase ^ 126"
    proof (rule big_limit_less [OF _ assms(2)])
      have "k \<le> bbase ^ 3" using that by (simp add: bbase_power)
      also have "\<dots> \<le> bbase ^ 26" by (intro power_increasing) simp_all
      finally show "k \<le> bbase ^ 26" .
    qed
    also have "\<dots> \<le> bbase ^ 128" by (intro power_increasing) simp_all
    finally show ?thesis .
  qed
  have "unat w < 2 ^ 64" using unat_less_32 [of w] by simp
  from MultiplyByUInt32_correct [OF inv(1) lim [OF this]] MultiplyByUInt64_correct [OF inv(1) lim [OF unat_less_64 [of v]]] inv(2)
  show "returns (MultiplyByUInt32 a w) (\<lambda>r. stands_for r (n * unat w))"
    "returns (MultiplyByUInt64 a v) (\<lambda>r. stands_for r (n * unat v))"
    by (auto simp: stands_for_def elim!: returns_mono)
qed

lemma num_shift:
  assumes "stands_for a n" "n < big_limit"
  shows "returns (ShiftLeft a s) (\<lambda>r. stands_for r (n * 2 ^ s))"
  using num_ShiftLeft [OF assms(1), of s] big_length [OF assms] by (auto elim!: returns_mono)

lemma num_power_ten:
  assumes "bignum_raw a" "e \<le> 1000"
  shows "returns (AssignPowerUInt16 a 10 e) (\<lambda>r. stands_for r (10 ^ e))"
proof (rule returns_mono [OF AssignPowerUInt16_correct [where q = 5 and t = 1 and n = 3]])
qed (use assms in \<open>simp_all add: stands_for_def\<close>)

lemma num_copy:
  assumes a: "bignum_raw a" and b: "stands_for b n"
  shows "AssignBignum a b = Some b"
proof -
  have raw: "length (bigits a) = 128" "length (bigits b) = 128" "used_digits b \<le> 128" "used_digits a \<le> 128"
    "zero_from (used_digits a) (bigits a)" "zero_from (used_digits b) (bigits b)"
    using a stands_for_raw [OF b] by (auto simp: bignum_raw_def)
  have "returns (AssignBignum a b) (\<lambda>r. r = b)"
    unfolding AssignBignum_def
  proof (rule returns_bindI [where P = "\<lambda>xs. length xs = 128 \<and> (\<forall>i < used_digits b. xs ! i = bigits b ! i) \<and> zero_from (max (used_digits a) (used_digits b)) xs"], goal_cases)
    case 1
    show ?case
    proof (rule returns_for_up [where I = "\<lambda>j xs. length xs = 128 \<and> (\<forall>i < j. xs ! i = bigits b ! i) \<and> zero_from (max (used_digits a) (used_digits b)) xs"], goal_cases)
      case 2
      show ?case using raw by (auto simp: zero_from_def)
    next
      case (3 i xs)
      then show ?case using raw by (auto simp: wp nth_list_update less_Suc_eq zero_from_def)
    qed auto
  next
    case (2 xs)
    show ?case
    proof (cases "used_digits b \<le> used_digits a")
      case True
      have "returns (for_up (used_digits b) (used_digits a) (\<lambda>i xs. vset xs i 0) xs) (\<lambda>xs. xs = bigits b)"
      proof (rule returns_for_up [where I = "\<lambda>j xs. length xs = 128 \<and> (\<forall>i < used_digits b. xs ! i = bigits b ! i) \<and>
          (\<forall>i. used_digits b \<le> i \<and> i < j \<longrightarrow> xs ! i = 0) \<and> zero_from (used_digits a) xs"], goal_cases)
        case 2
        show ?case using \<open>length xs = 128 \<and> _ \<and> _\<close> True by (auto simp: max_absorb1)
      next
        case (3 i xs)
        then show ?case using raw by (auto simp: wp nth_list_update less_Suc_eq zero_from_def)
      next
        case (4 xs)
        show ?case
        proof (rule nth_equalityI)
          fix i assume "i < length xs"
          with 4 raw show "xs ! i = bigits b ! i" by (cases "i < used_digits b"; cases "i < used_digits a") (auto simp: zero_from_def)
        qed (use 4 raw in simp)
      qed (use True in simp)
      then show ?thesis by (rule returns_bindI) simp
    next
      case False
      have "xs = bigits b"
      proof (rule nth_equalityI)
        fix i assume "i < length xs"
        with 2 raw False show "xs ! i = bigits b ! i"
          by (cases "i < used_digits b") (auto simp: zero_from_def max_absorb2)
      qed (use 2 raw in simp)
      then show ?thesis using False by (simp add: wp for_up_stop)
    qed
  qed
  then show ?thesis by (auto simp: returns_def)
qed

lemma num_divide:
  assumes a: "stands_for a m" "m < big_limit" and b: "stands_for b n" "divisor_ok n" and lt: "m < 16 * n"
  shows "returns (DivideModuloIntBignum a b) (\<lambda>(q, r). unat q = m div n \<and> stands_for r (m mod n))"
proof (rule returns_mono [OF DivideModuloIntBignum_correct], goal_cases)
  case 5
  have "n < bbase ^ BigitLength b" using bignum_val_less [OF stands_for_raw [OF b(1)]] b(1) by (simp add: stands_for_def)
  from divisor_top [OF b(2) this] show ?case using b(1) by (simp add: stands_for_def)
next
  case 6
  show ?case using big_length [OF a] by simp
qed (use a b lt in \<open>auto simp: stands_for_def divisor_ok_def\<close>)

lemma num_compare:
  assumes "stands_for a m" "stands_for b n"
  shows "LessEqual a b = Some (m \<le> n)" "Less a b = Some (m < n)" "Equal a b = Some (m = n)"
  using assms by (simp_all add: stands_for_def LessEqual_correct Less_correct Equal_correct)

interpretation bigit: big_numbers stands_for big_limit divisor_ok Times10 DivideModuloIntBignum PlusCompare
proof (unfold_locales, goal_cases)
  case (1 a n)
  from num_times(1) [OF this, of 10] show ?case by (simp add: Times10_def mult.commute)
next
  case (2 a m b n)
  then show ?case by (intro num_divide)
next
  case (3 a l b m c n)
  then show ?case by (simp add: stands_for_def PlusCompare_correct)
next
  case (4 n)
  then show ?case by (auto simp: divisor_ok_def)
qed

end
