(* ===== verification/Bignum_Machine.thy ===== *)
theory Bignum_Machine
  imports Bignum_Interface
begin

text \<open>
  Programs over several \<open>Bignum\<close> objects, as the conversions run them, against the same programs over natural numbers. A register
  holds one object; an operation on two objects takes two different registers, since the code never passes an object to itself.
\<close>

section \<open>Programs\<close>

datatype big_call =
    Call_AssignUInt64 nat uint64
  | Call_AssignBignum nat nat
  | Call_AddUInt64 nat uint64
  | Call_AddBignum nat nat
  | Call_SubtractBignum nat nat
  | Call_ShiftLeft nat nat
  | Call_MultiplyByUInt32 nat uint32
  | Call_MultiplyByUInt64 nat uint64
  | Call_MultiplyByPowerOfTen nat nat
  | Call_Times10 nat
  | Call_Square nat

type_synonym 'a registers = "nat \<Rightarrow> 'a"

definition update :: "'a registers \<Rightarrow> nat \<Rightarrow> 'a result \<Rightarrow> 'a registers result" where
  "update f r m = do { x \<leftarrow> m; Some (f(r := x)) }"

fun run_big :: "big_call \<Rightarrow> bignum registers \<Rightarrow> bignum registers result" where
  "run_big (Call_AssignUInt64 r w) f = update f r (AssignUInt64 (f r) w)"
| "run_big (Call_AssignBignum r s) f = update f r (AssignBignum (f r) (f s))"
| "run_big (Call_AddUInt64 r w) f = update f r (AddUInt64 (f r) w)"
| "run_big (Call_AddBignum r s) f = update f r (AddBignum (f r) (f s))"
| "run_big (Call_SubtractBignum r s) f = update f r (SubtractBignum (f r) (f s))"
| "run_big (Call_ShiftLeft r k) f = update f r (ShiftLeft (f r) k)"
| "run_big (Call_MultiplyByUInt32 r w) f = update f r (MultiplyByUInt32 (f r) w)"
| "run_big (Call_MultiplyByUInt64 r w) f = update f r (MultiplyByUInt64 (f r) w)"
| "run_big (Call_MultiplyByPowerOfTen r e) f = update f r (MultiplyByPowerOfTen (f r) e)"
| "run_big (Call_Times10 r) f = update f r (Times10 (f r))"
| "run_big (Call_Square r) f = update f r (Square (f r))"

fun run_bigs :: "big_call list \<Rightarrow> bignum registers \<Rightarrow> bignum registers result" where
  "run_bigs [] f = Some f"
| "run_bigs (c # cs) f = do { f \<leftarrow> run_big c f; run_bigs cs f }"

section \<open>The same on natural numbers\<close>

definition machine_limit :: nat where
  "machine_limit = bbase ^ 126"

definition store :: "nat registers \<Rightarrow> nat \<Rightarrow> nat \<Rightarrow> nat registers result" where
  "store v r n = (if n < machine_limit then Some (v(r := n)) else None)"

fun run_nat :: "big_call \<Rightarrow> nat registers \<Rightarrow> nat registers result" where
  "run_nat (Call_AssignUInt64 r w) v = store v r (unat w)"
| "run_nat (Call_AssignBignum r s) v = (if r = s then None else store v r (v s))"
| "run_nat (Call_AddUInt64 r w) v = store v r (v r + unat w)"
| "run_nat (Call_AddBignum r s) v = (if r = s then None else store v r (v r + v s))"
| "run_nat (Call_SubtractBignum r s) v = (if r = s \<or> v r < v s then None else store v r (v r - v s))"
| "run_nat (Call_ShiftLeft r k) v = store v r (v r * 2 ^ k)"
| "run_nat (Call_MultiplyByUInt32 r w) v = store v r (v r * unat w)"
| "run_nat (Call_MultiplyByUInt64 r w) v = store v r (v r * unat w)"
| "run_nat (Call_MultiplyByPowerOfTen r e) v = store v r (v r * 10 ^ e)"
| "run_nat (Call_Times10 r) v = store v r (v r * 10)"
| "run_nat (Call_Square r) v = store v r (v r * v r)"

fun run_nats :: "big_call list \<Rightarrow> nat registers \<Rightarrow> nat registers result" where
  "run_nats [] v = Some v"
| "run_nats (c # cs) v = do { v \<leftarrow> run_nat c v; run_nats cs v }"

definition registers_stand :: "bignum registers \<Rightarrow> nat registers \<Rightarrow> bool" where
  "registers_stand f v \<longleftrightarrow> (\<forall>r. stands_for (f r) (v r) \<and> v r < machine_limit)"

section \<open>Simulation\<close>

lemma machine_length:
  assumes "stands_for a n" "n < machine_limit"
  shows "BigitLength a \<le> 126" "used_digits a \<le> 126"
proof -
  show "BigitLength a \<le> 126" using assms by (intro BigitLength_le) (simp_all add: stands_for_def machine_limit_def)
  then show "used_digits a \<le> 126" using used_digits_le_BigitLength [of a] by simp
qed

lemma machine_mult:
  assumes "stands_for a n" "n * k < machine_limit"
  shows "bigits_val (bigits a) * k < bbase ^ 128"
proof -
  have "bigits_val (bigits a) * k \<le> n * k" using bigits_val_le [of a] assms(1) by (intro mult_le_mono1) (simp add: stands_for_def)
  also have "\<dots> < bbase ^ 126" using assms(2) by (simp only: machine_limit_def)
  also have "\<dots> \<le> bbase ^ 128" by (intro power_increasing) simp_all
  finally show ?thesis .
qed

lemma machine_times:
  assumes "stands_for a n" "n * unat w < machine_limit"
  shows "returns (MultiplyByUInt32 a w) (\<lambda>r. stands_for r (n * unat w))"
  using MultiplyByUInt32_correct [OF _ machine_mult [OF assms]] assms(1) by (auto simp: stands_for_def elim!: returns_mono)

lemma machine_times64:
  assumes "stands_for a n" "n * unat w < machine_limit"
  shows "returns (MultiplyByUInt64 a w) (\<lambda>r. stands_for r (n * unat w))"
  using MultiplyByUInt64_correct [OF _ machine_mult [OF assms]] assms(1) by (auto simp: stands_for_def elim!: returns_mono)

lemma machine_power_of_ten:
  assumes "stands_for a n" "n * 10 ^ e < machine_limit"
  shows "returns (MultiplyByPowerOfTen a e) (\<lambda>r. stands_for r (n * 10 ^ e))"
proof -
  have "n * 5 ^ e \<le> n * 10 ^ e" by (intro mult_le_mono2 power_mono) simp_all
  then have "n * 5 ^ e < bbase ^ 126" using assms(2) unfolding machine_limit_def by (rule le_less_trans)
  from num_MultiplyByPowerOfTen [OF assms(1) this] show ?thesis by (auto elim!: returns_mono)
qed

lemma machine_square:
  assumes "stands_for a n" "n * n < machine_limit"
  shows "returns (Square a) (\<lambda>r. stands_for r (n * n))"
proof -
  have "n < bbase ^ 63"
  proof (rule ccontr)
    assume "\<not> n < bbase ^ 63"
    then have "bbase ^ 63 * bbase ^ 63 \<le> n * n" by (intro mult_le_mono) simp_all
    then have "bbase ^ 126 \<le> n * n" by (simp only: power_add [symmetric]) simp
    with assms(2) show False unfolding machine_limit_def by simp
  qed
  then have "BigitLength a \<le> 63" using assms(1) by (intro BigitLength_le) (simp_all add: stands_for_def)
  then have "used_digits a \<le> 64" using used_digits_le_BigitLength [of a] by simp
  from Square_correct [OF _ this] assms(1) show ?thesis by (auto simp: stands_for_def elim!: returns_mono)
qed

lemma machine_add:
  assumes "stands_for a m" "stands_for b n" "m < machine_limit" "n < machine_limit"
  shows "returns (AddBignum a b) (\<lambda>r. stands_for r (m + n))"
proof -
  have "Suc (max (BigitLength a) (BigitLength b)) - min (exponent a) (exponent b) \<le> 128"
    using machine_length(1) [OF assms(1,3)] machine_length(1) [OF assms(2,4)] by simp
  from AddBignum_correct [OF _ _ this] assms(1,2) show ?thesis by (auto simp: stands_for_def elim!: returns_mono)
qed

lemma machine_subtract:
  assumes "stands_for a m" "stands_for b n" "m < machine_limit" "n \<le> m"
  shows "returns (SubtractBignum a b) (\<lambda>r. stands_for r (m - n))"
proof -
  have "BigitLength a - exponent b \<le> 128" using machine_length(1) [OF assms(1,3)] by simp
  from SubtractBignum_correct [of a b, OF _ _ _ this] assms(1,2,4) show ?thesis by (auto simp: stands_for_def elim!: returns_mono)
qed

lemma update_store:
  assumes "returns m (\<lambda>x. stands_for x n)" "registers_stand f v" "store v r n = Some v'"
  shows "returns (update f r m) (\<lambda>f'. registers_stand f' v')"
  using assms by (auto simp: update_def store_def registers_stand_def returns_bind split: if_splits elim!: returns_mono)

lemma store_limit: "store v r n = Some v' \<Longrightarrow> n < machine_limit"
  by (simp add: store_def split: if_splits)

lemma call_refines:
  assumes st: "registers_stand f v" and run: "run_nat c v = Some v'"
  shows "returns (run_big c f) (\<lambda>f'. registers_stand f' v')"
proof -
  have f: "stands_for (f r) (v r)" "v r < machine_limit" for r using st by (simp_all add: registers_stand_def)
  note up = update_store [OF _ st]
  show ?thesis
  proof (cases c)
    case (Call_AssignUInt64 r w)
    then show ?thesis using run num_AssignUInt64 [OF stands_for_raw [OF f(1)]] by (auto intro!: up)
  next
    case (Call_AssignBignum r s)
    then show ?thesis using run num_copy [OF stands_for_raw [OF f(1)] f(1)] f(1) by (auto intro!: up split: if_splits)
  next
    case (Call_AddUInt64 r w)
    then show ?thesis using run num_AddUInt64 [OF f(1) f(2) [unfolded machine_limit_def]] by (auto intro!: up)
  next
    case (Call_AddBignum r s)
    then show ?thesis using run machine_add [OF f(1) f(1) f(2) f(2)] by (auto intro!: up split: if_splits)
  next
    case (Call_SubtractBignum r s)
    then show ?thesis using run machine_subtract [OF f(1) f(1) f(2)] by (auto intro!: up split: if_splits)
  next
    case (Call_ShiftLeft r k)
    have "used_digits (f r) < 128" using machine_length(2) [OF f, of r] by simp
    then have "returns (ShiftLeft (f r) k) (\<lambda>x. stands_for x (v r * 2 ^ k))"
      using num_ShiftLeft [OF f(1), of r k] by (auto elim!: returns_mono)
    then show ?thesis using run Call_ShiftLeft by (auto intro!: up)
  next
    case (Call_MultiplyByUInt32 r w)
    then show ?thesis using run machine_times [OF f(1) store_limit] by (auto intro!: up)
  next
    case (Call_MultiplyByUInt64 r w)
    then show ?thesis using run machine_times64 [OF f(1) store_limit] by (auto intro!: up)
  next
    case (Call_MultiplyByPowerOfTen r e)
    then show ?thesis using run machine_power_of_ten [OF f(1) store_limit] by (auto intro!: up)
  next
    case (Call_Times10 r)
    then have s: "store v r (v r * 10) = Some v'" using run by simp
    have "returns (Times10 (f r)) (\<lambda>x. stands_for x (v r * 10))"
      using machine_times [OF f(1), of r 10] store_limit [OF s] by (simp add: Times10_def)
    then show ?thesis using s Call_Times10 by (auto intro!: up)
  next
    case (Call_Square r)
    then show ?thesis using run machine_square [OF f(1) store_limit] by (auto intro!: up)
  qed
qed

lemma calls_refine:
  "registers_stand f v \<Longrightarrow> run_nats cs v = Some v' \<Longrightarrow> returns (run_bigs cs f) (\<lambda>f'. registers_stand f' v')"
proof (induction cs arbitrary: f v)
  case (Cons c cs)
  from Cons.prems(2) obtain v1 where v1: "run_nat c v = Some v1" "run_nats cs v1 = Some v'" by (auto simp: bind_eq_Some_conv)
  from call_refines [OF Cons.prems(1) v1(1)] show ?case
    using Cons.IH [OF _ v1(2)] by (auto simp: returns_bind elim!: returns_mono)
qed simp

lemma registers_new: "registers_stand (\<lambda>_. new_bignum) (\<lambda>_. 0)"
  by (simp add: registers_stand_def machine_limit_def)

section \<open>Properties\<close>

text \<open>
  C24: \<open>Bignum\<close> refines the natural numbers: every program of assignments, additions, subtractions, shifts, multiplications and
  squarings over any number of new \<open>Bignum\<close> objects whose numbers stay below \<open>2 ^ 3528\<close> (126 of the 128 bigits) and never subtracts
  a larger number from a smaller one runs without a failed assertion, and each object ends up standing for the number that the program
  computes.
\<close>

theorem bignum_refines_naturals:
  assumes "run_nats cs (\<lambda>_. 0) = Some v"
  shows "\<exists>f. run_bigs cs (\<lambda>_. new_bignum) = Some f \<and> (\<forall>r. bignum_inv (f r) \<and> bignum_val (f r) = v r)"
  using returns_ex [OF calls_refine [OF registers_new assms]] by (auto simp: registers_stand_def stands_for_def)

theorem bignum_refines_naturals_witness:
  "\<exists>f. run_bigs [Call_AssignUInt64 0 7, Call_Square 0, Call_MultiplyByPowerOfTen 0 2, Call_AssignUInt64 1 900, Call_SubtractBignum 0 1]
      (\<lambda>_. new_bignum) = Some f \<and> bignum_inv (f 0) \<and> bignum_val (f 0) = 4000"
proof -
  let ?cs = "[Call_AssignUInt64 0 7, Call_Square 0, Call_MultiplyByPowerOfTen 0 2, Call_AssignUInt64 1 900, Call_SubtractBignum 0 1]"
  have "(5000 :: nat) < bbase ^ 1" by (simp add: bbase_def)
  also have "\<dots> \<le> bbase ^ 126" by (intro power_increasing) simp_all
  finally have lim: "n \<le> 5000 \<Longrightarrow> n < machine_limit" for n by (simp add: machine_limit_def)
  have run: "run_nats ?cs (\<lambda>_. 0) = Some (((\<lambda>_. 0)(0 := 4000))(1 := 900))" by (auto simp: store_def lim fun_eq_iff)
  show ?thesis using bignum_refines_naturals [OF run] by auto
qed

end
