(* ===== verification/DiyFp.thy ===== *)
theory DiyFp
  imports Prelude
begin

text \<open>
  The class \<open>DiyFp\<close> of \<open>double-conversion/diy-fp.h\<close> and \<open>diy-fp.cc\<close>: a floating-point number with a
  64-bit significand \<open>f\<close> and an exponent \<open>e\<close>, with the value \<open>f * 2 ^ e\<close>. The lemmas say that
  subtraction and normalization are exact and that multiplication is the product rounded to the nearest
  multiple of its last place, ties upward.
\<close>

section \<open>The class\<close>

record diy_fp =
  diy_f :: uint64
  diy_e :: int

definition mk_diy :: "uint64 \<Rightarrow> int \<Rightarrow> diy_fp" where
  "mk_diy f e = \<lparr>diy_f = f, diy_e = e\<rparr>"

definition Subtract :: "diy_fp \<Rightarrow> diy_fp \<Rightarrow> diy_fp result" where
  "Subtract a other = do {
     check (diy_e a = diy_e other);
     check (diy_f a \<ge> diy_f other);
     Some (a\<lparr>diy_f := diy_f a - diy_f other\<rparr>)
   }"

definition Minus :: "diy_fp \<Rightarrow> diy_fp \<Rightarrow> diy_fp result" where
  "Minus a b = Subtract a b"

definition Multiply :: "diy_fp \<Rightarrow> diy_fp \<Rightarrow> diy_fp" where
  "Multiply x other =
     (let kM32 = 0xFFFFFFFF;
          a = drop_bit 32 (diy_f x); b = diy_f x AND kM32;
          c = drop_bit 32 (diy_f other); d = diy_f other AND kM32;
          ac = a * c; bc = b * c; ad = a * d; bd = b * d;
          tmp = drop_bit 32 bd + (ad AND kM32) + (bc AND kM32);
          tmp = tmp + push_bit 31 1
      in \<lparr>diy_f = ac + drop_bit 32 ad + drop_bit 32 bc + drop_bit 32 tmp,
          diy_e = diy_e x + (diy_e other + 64)\<rparr>)"

definition Times :: "diy_fp \<Rightarrow> diy_fp \<Rightarrow> diy_fp" where
  "Times a b = Multiply a b"

definition kUint64MSB :: uint64 where
  "kUint64MSB = 0x8000000000000000"

definition Normalize :: "diy_fp \<Rightarrow> diy_fp result" where
  "Normalize a = do {
     check (diy_f a \<noteq> 0);
     let k10MSBits = 0xFFC0000000000000;
     (f, e) \<leftarrow> while_loop (\<lambda>(f, e). Some (f AND k10MSBits = 0))
       (\<lambda>(f, e). Some (push_bit 10 f, e - 10)) (diy_f a, diy_e a);
     (f, e) \<leftarrow> while_loop (\<lambda>(f, e). Some (f AND kUint64MSB = 0))
       (\<lambda>(f, e). Some (push_bit 1 f, e - 1)) (f, e);
     Some \<lparr>diy_f = f, diy_e = e\<rparr>
   }"

section \<open>Values\<close>

definition diy_val :: "diy_fp \<Rightarrow> real" where
  "diy_val a = real (unat (diy_f a)) * 2 powi diy_e a"

definition normalized :: "diy_fp \<Rightarrow> bool" where
  "normalized a \<longleftrightarrow> 2 ^ 63 \<le> unat (diy_f a)"

lemma Minus_correct:
  assumes "diy_e a = diy_e b" "diy_f b \<le> diy_f a"
  shows "returns (Minus a b) (\<lambda>r. diy_val r = diy_val a - diy_val b \<and> diy_e r = diy_e a \<and>
    unat (diy_f r) = unat (diy_f a) - unat (diy_f b))"
  using assms
  by (simp add: Minus_def Subtract_def wp unat_sub_small word_le_nat_alt diy_val_def of_nat_diff left_diff_distrib)

section \<open>Multiplication\<close>

lemma unat_and_M32: "unat (w AND 0xFFFFFFFF) = unat w mod 2 ^ 32" for w :: uint64
  using unat_and_mask [of w 32] by (simp add: mask_eq_exp_minus_1)

text \<open>
  The high half of a 128-bit product from four 64-bit products, rounded: none of the sums wraps.
\<close>

lemma mult_high_nat:
  fixes a b c d :: nat
  assumes "a < 2 ^ 32" "b < 2 ^ 32" "c < 2 ^ 32" "d < 2 ^ 32"
  shows "a * c + a * d div 2 ^ 32 + b * c div 2 ^ 32 +
      (b * d div 2 ^ 32 + a * d mod 2 ^ 32 + b * c mod 2 ^ 32 + 2 ^ 31) div 2 ^ 32
    = ((a * 2 ^ 32 + b) * (c * 2 ^ 32 + d) + 2 ^ 63) div 2 ^ 64"
proof -
  let ?M = "2 ^ 32 :: nat"
  define ad1 ad0 bc1 bc0 bd1 bd0 where "ad1 = a * d div ?M" and "ad0 = a * d mod ?M" and "bc1 = b * c div ?M"
    and "bc0 = b * c mod ?M" and "bd1 = b * d div ?M" and "bd0 = b * d mod ?M"
  note defs = ad1_def ad0_def bc1_def bc0_def bd1_def bd0_def
  have e: "a * d = ad1 * ?M + ad0" "b * c = bc1 * ?M + bc0" "b * d = bd1 * ?M + bd0"
    unfolding defs by (simp_all only: div_mult_mod_eq)
  have bd0: "bd0 < ?M" by (simp add: bd0_def)
  let ?t = "bd1 + ad0 + bc0 + 2 ^ 31"
  have "(a * ?M + b) * (c * ?M + d) + 2 ^ 63
      = (a * c) * 2 ^ 64 + (a * d) * ?M + (b * c) * ?M + b * d + 2 ^ 63"
    by (simp add: algebra_simps)
  also have "\<dots> = (a * c + ad1 + bc1) * 2 ^ 64 + (?t * ?M + bd0)"
    unfolding e by (simp add: algebra_simps)
  finally have eq: "(a * ?M + b) * (c * ?M + d) + 2 ^ 63 = (?t * ?M + bd0) + (a * c + ad1 + bc1) * 2 ^ 64" by simp
  have "(?t * ?M + bd0) div 2 ^ 64 = (?t * ?M + bd0) div ?M div ?M" by (simp add: div_mult2_eq [symmetric])
  also have "(?t * ?M + bd0) div ?M = ?t" using bd0 by (simp add: div_mult_self3)
  finally show ?thesis
    unfolding eq defs [symmetric] by simp
qed

lemma Multiply_f: "unat (diy_f (Multiply x y)) = (unat (diy_f x) * unat (diy_f y) + 2 ^ 63) div 2 ^ 64"
  and Multiply_e: "diy_e (Multiply x y) = diy_e x + diy_e y + 64"
proof -
  define f g a b c d where "f = diy_f x" and "g = diy_f y" and "a = drop_bit 32 f" and "b = f AND 0xFFFFFFFF"
    and "c = drop_bit 32 g" and "d = g AND 0xFFFFFFFF"
  have nat: "unat a = unat f div 2 ^ 32" "unat b = unat f mod 2 ^ 32" "unat c = unat g div 2 ^ 32"
    "unat d = unat g mod 2 ^ 32"
    by (simp_all add: a_def b_def c_def d_def unat_drop_bit unat_and_M32)
  have lt: "unat a < 2 ^ 32" "unat b < 2 ^ 32" "unat c < 2 ^ 32" "unat d < 2 ^ 32"
    using unat_less_64 [of f] unat_less_64 [of g] unfolding nat by (simp_all add: less_mult_imp_div_less)
  have bound: "m * n \<le> (2 ^ 32 - 1) * (2 ^ 32 - 1)" if "m < 2 ^ 32" "n < 2 ^ 32" for m n :: nat
    using that by (intro mult_le_mono) auto
  have prod: "unat (p * q) = unat p * unat q" if "unat p < 2 ^ 32" "unat q < 2 ^ 32" for p q :: uint64
    using bound [OF that] by (intro unat_mult_small) simp
  let ?t0 = "drop_bit 32 (b * d) + (a * d AND 0xFFFFFFFF) + (b * c AND 0xFFFFFFFF)"
  let ?t = "?t0 + push_bit 31 1"
  have bd: "unat (b * d) div 2 ^ 32 < 2 ^ 32" using unat_less_64 [of "b * d"] by (intro less_mult_imp_div_less) simp
  have t: "unat ?t = unat b * unat d div 2 ^ 32 + unat a * unat d mod 2 ^ 32 + unat b * unat c mod 2 ^ 32 + 2 ^ 31"
    using bd lt by (subst unat_add4_small) (simp_all add: unat_drop_bit unat_and_M32 prod)
  define F where "F = ((unat a * 2 ^ 32 + unat b) * (unat c * 2 ^ 32 + unat d) + 2 ^ 63) div 2 ^ 64"
  note F = mult_high_nat [OF lt, folded F_def]
  have "unat f = unat a * 2 ^ 32 + unat b" "unat g = unat c * 2 ^ 32 + unat d"
    unfolding nat by (simp_all only: div_mult_mod_eq)
  then have Ffg: "F = (unat f * unat g + 2 ^ 63) div 2 ^ 64" by (simp add: F_def)
  have "unat f * unat g \<le> (2 ^ 64 - 1) * (2 ^ 64 - 1)"
    using unat_less_64 [of f] unat_less_64 [of g] by (intro mult_le_mono) auto
  then have Flim: "F < 2 ^ 64" unfolding Ffg by (intro less_mult_imp_div_less) simp
  have "unat (a * c + drop_bit 32 (a * d) + drop_bit 32 (b * c) + drop_bit 32 ?t) = F"
    using Flim unfolding F [symmetric]
    by (subst unat_add4_small) (simp_all only: unat_drop_bit t prod lt length_64)
  then show "unat (diy_f (Multiply x y)) = (unat (diy_f x) * unat (diy_f y) + 2 ^ 63) div 2 ^ 64"
    unfolding Ffg by (simp add: Multiply_def Let_def a_def b_def c_def d_def f_def g_def)
  show "diy_e (Multiply x y) = diy_e x + diy_e y + 64" by (simp add: Multiply_def Let_def)
qed

text \<open>The product is off by at most half a unit of the result's last place.\<close>

lemma div_round_bounds:
  fixes p n :: nat
  assumes "0 < n"
  shows "real ((p + n) div (2 * n)) * (2 * n) \<le> p + n" "real p \<le> real ((p + n) div (2 * n)) * (2 * n) + n"
proof -
  let ?q = "(p + n) div (2 * n)"
  have "?q * (2 * n) \<le> p + n" by (rule div_times_less_eq_dividend)
  then show "real ?q * (2 * n) \<le> p + n" by (metis of_nat_le_iff of_nat_mult)
  have "p + n < (?q + 1) * (2 * n)" using assms dividend_less_div_times [of "2 * n" "p + n"] by (simp add: algebra_simps)
  then have "p \<le> ?q * (2 * n) + n" by (simp add: algebra_simps)
  then show "real p \<le> real ?q * (2 * n) + n" by (metis of_nat_le_iff of_nat_mult of_nat_add)
qed

lemma Times_error:
  "\<bar>diy_val (Times x y) - diy_val x * diy_val y\<bar> \<le> 2 powi (diy_e (Times x y) - 1)"
proof -
  define p where "p = unat (diy_f x) * unat (diy_f y)"
  define q where "q = (p + 2 ^ 63) div 2 ^ 64"
  define s where "s = (2 :: real) powi (diy_e x + diy_e y)"
  have e: "diy_e (Times x y) = diy_e x + diy_e y + 64" by (simp add: Times_def Multiply_e)
  have "diy_val (Times x y) = real q * 2 powi (diy_e x + diy_e y + 64)"
    by (simp add: diy_val_def Times_def Multiply_f Multiply_e q_def p_def)
  then have v: "diy_val (Times x y) = (real q * 2 ^ 64) * s" by (simp add: power_int_add s_def)
  have w: "diy_val x * diy_val y = real p * s"
    by (simp add: diy_val_def p_def s_def power_int_add)
  have b: "real q * 2 ^ 64 \<le> real p + 2 ^ 63" "real p \<le> real q * 2 ^ 64 + 2 ^ 63"
    using div_round_bounds [of "2 ^ 63" p] by (simp_all add: q_def)
  have "\<bar>real q * 2 ^ 64 - real p\<bar> \<le> 2 ^ 63" using b by (simp add: abs_le_iff)
  moreover have "0 \<le> s" by (simp add: s_def)
  ultimately have "\<bar>(real q * 2 ^ 64 - real p) * s\<bar> \<le> 2 ^ 63 * s"
    by (simp add: abs_mult mult_right_mono)
  also have "2 ^ 63 * s = 2 powi (diy_e x + diy_e y + 63)" by (simp add: s_def power_int_add)
  finally show ?thesis unfolding v w e by (simp add: algebra_simps)
qed

section \<open>Normalization\<close>

lemma shift_top_clear:
  fixes f :: uint64
  assumes "n \<le> 64" "f AND NOT (mask (64 - n)) = 0"
  shows "unat (push_bit n f) = unat f * 2 ^ n"
proof -
  have "unat f < 2 ^ (64 - n)" using assms(2) by (simp only: and_not_mask_iff)
  then have "unat f * 2 ^ n < 2 ^ (64 - n) * 2 ^ n" by simp
  also have "(2 :: nat) ^ (64 - n) * 2 ^ n = 2 ^ 64" using assms(1) by (simp add: power_add [symmetric])
  finally show ?thesis by (simp add: unat_push_bit_small)
qed

lemma top_bit_set: "f AND kUint64MSB \<noteq> 0 \<longleftrightarrow> 2 ^ 63 \<le> unat f"
proof -
  have "kUint64MSB = NOT (mask 63)" by (simp add: kUint64MSB_def mask_eq_exp_minus_1)
  then show ?thesis using and_not_mask_iff [of f 63] by (simp only: not_less)
qed

lemma normalize_loop:
  fixes f m :: uint64
  assumes n: "0 < n" "n \<le> 64" and m: "m = NOT (mask (64 - n))" and f: "f \<noteq> 0"
    and post: "\<And>g k. g \<noteq> 0 \<Longrightarrow> g AND m \<noteq> 0 \<Longrightarrow> unat g = unat f * 2 ^ k \<Longrightarrow> P (g, e - int k)"
  shows "returns (while_loop (\<lambda>(f, e). Some (f AND m = 0))
       (\<lambda>(f, e). Some (push_bit n f, e - int n)) (f, e)) P"
proof (rule returns_while [where I = "\<lambda>(g, e'). g \<noteq> 0 \<and> (\<exists>k. unat g = unat f * 2 ^ k \<and> e' = e - int k)"
      and m = "\<lambda>(g, e'). 2 ^ 64 - unat g"], goal_cases)
  case 1
  show ?case using f by (auto intro: exI [of _ 0])
next
  case (2 s)
  then obtain g k where s: "s = (g, e - int k)" "g \<noteq> 0" "unat g = unat f * 2 ^ k" by (cases s) auto
  show ?case
  proof (cases "g AND m = 0")
    case True
    then have u: "unat (push_bit n g) = unat g * 2 ^ n" using n m by (intro shift_top_clear) auto
    have "0 < unat g" using s(2) by (simp add: unat_gt_0)
    moreover have "unat g * 2 \<le> unat g * 2 ^ n" using n by (intro mult_le_mono2) (metis One_nat_def Suc_leI power_increasing power_one_right one_le_numeral)
    ultimately have gt: "unat g < unat (push_bit n g)" using u by linarith
    then have "push_bit n g \<noteq> 0" by auto
    moreover have "2 ^ 64 - unat (push_bit n g) < 2 ^ 64 - unat g" using gt unat_less_64 [of g] by linarith
    moreover have "\<exists>j. unat (push_bit n g) = unat f * 2 ^ j \<and> e - int k - int n = e - int j"
      using u s(3) by (intro exI [of _ "k + n"]) (simp add: power_add)
    ultimately show ?thesis using True s(1) by simp
  next
    case False
    with s post show ?thesis by simp
  qed
qed

lemma Normalize_correct:
  assumes "diy_f a \<noteq> 0"
  shows "returns (Normalize a) (\<lambda>r. normalized r \<and> diy_val r = diy_val a \<and>
    (\<exists>k. unat (diy_f r) = unat (diy_f a) * 2 ^ k \<and> diy_e r = diy_e a - int k))"
proof -
  have m: "0xFFC0000000000000 = (NOT (mask (64 - 10)) :: uint64)" "kUint64MSB = (NOT (mask (64 - 1)) :: uint64)"
    by (simp_all add: mask_eq_exp_minus_1 kUint64MSB_def)
  have fin: "normalized r \<and> diy_val r = diy_val a \<and>
      (\<exists>k. unat (diy_f r) = unat (diy_f a) * 2 ^ k \<and> diy_e r = diy_e a - int k)"
    if "r = \<lparr>diy_f = h, diy_e = diy_e a - int k - int j\<rparr>" "h AND kUint64MSB \<noteq> 0" "unat h = unat g * 2 ^ j"
      "unat g = unat (diy_f a) * 2 ^ k" for r h g k j
  proof -
    have u: "unat h = unat (diy_f a) * 2 ^ (k + j)" using that(3,4) by (simp add: power_add)
    have "diy_val r = real (unat (diy_f a)) * 2 ^ (k + j) * 2 powi (diy_e a - int (k + j))"
      using that(1) u by (simp add: diy_val_def diff_diff_eq)
    also have "\<dots> = diy_val a" by (simp add: diy_val_def power_int_diff power_int_add power_add)
    finally show ?thesis
      using that(1,2) u top_bit_set [of h] by (auto simp: normalized_def intro!: exI [of _ "k + j"])
  qed
  show ?thesis
    unfolding Normalize_def returns_bind returns_check Let_def
  proof (intro conjI assms, rule normalize_loop [where n = 10, OF _ _ m(1) assms, simplified of_nat_numeral], goal_cases)
    case (3 g k)
    show ?case
      unfolding prod.case returns_bind
    proof (rule normalize_loop [where n = 1, OF _ _ m(2) 3(1), simplified of_nat_1], goal_cases)
      case (3 h j)
      show ?case
        unfolding prod.case returns_Some by (rule fin [OF refl 3(2,3) \<open>unat g = unat (diy_f a) * 2 ^ k\<close>])
    qed auto
  qed auto
qed

section \<open>Properties\<close>

text \<open>
  C31: \<open>Times\<close>, which builds a 128-bit product from four 64-bit ones, returns its upper half rounded with ties upward:
  no partial sum wraps, and the result is off from the exact product by at most half a unit of its last place.
\<close>

theorem times_rounds_the_product:
  "unat (diy_f (Times x y)) = (unat (diy_f x) * unat (diy_f y) + 2 ^ 63) div 2 ^ 64 \<and>
   diy_e (Times x y) = diy_e x + diy_e y + 64 \<and>
   \<bar>diy_val (Times x y) - diy_val x * diy_val y\<bar> \<le> 2 powi (diy_e (Times x y) - 1)"
  using Times_error [of x y] by (simp add: Times_def Multiply_f Multiply_e)

end
