(* ===== verification/Ieee.thy ===== *)
theory Ieee
  imports DiyFp
begin

text \<open>
  The classes \<open>Double\<close> and \<open>Single\<close> of \<open>double-conversion/ieee.h\<close>. A \<open>double\<close> is its 64 bits and a
  \<open>float\<close> its 32 bits, since \<open>BitCast\<close> copies the bits; what the bits stand for is the locale
  \<open>ieee_format\<close>, which both classes are interpretations of.
\<close>

section \<open>Double\<close>

type_synonym double = uint64
type_synonym single = uint32

abbreviation D_kPhysicalSignificandSize :: nat where "D_kPhysicalSignificandSize \<equiv> 52"
abbreviation D_kSignificandSize :: nat where "D_kSignificandSize \<equiv> 53"
abbreviation D_kExponentBias :: int where "D_kExponentBias \<equiv> 0x3FF + 52"
abbreviation D_kDenormalExponent :: int where "D_kDenormalExponent \<equiv> - D_kExponentBias + 1"
abbreviation D_kMaxExponent :: int where "D_kMaxExponent \<equiv> 0x7FF - D_kExponentBias"

definition D_kSignMask :: uint64 where "D_kSignMask = 0x8000000000000000"
definition D_kExponentMask :: uint64 where "D_kExponentMask = 0x7FF0000000000000"
definition D_kSignificandMask :: uint64 where "D_kSignificandMask = 0x000FFFFFFFFFFFFF"
definition D_kHiddenBit :: uint64 where "D_kHiddenBit = 0x0010000000000000"
definition D_kInfinity :: uint64 where "D_kInfinity = 0x7FF0000000000000"
definition D_kNaN :: uint64 where "D_kNaN = 0x7FF8000000000000"

definition D_IsDenormal :: "double \<Rightarrow> bool" where
  "D_IsDenormal d64 \<longleftrightarrow> d64 AND D_kExponentMask = 0"

definition D_IsSpecial :: "double \<Rightarrow> bool" where
  "D_IsSpecial d64 \<longleftrightarrow> d64 AND D_kExponentMask = D_kExponentMask"

definition D_IsNan :: "double \<Rightarrow> bool" where
  "D_IsNan d64 \<longleftrightarrow> d64 AND D_kExponentMask = D_kExponentMask \<and> d64 AND D_kSignificandMask \<noteq> 0"

definition D_IsInfinite :: "double \<Rightarrow> bool" where
  "D_IsInfinite d64 \<longleftrightarrow> d64 AND D_kExponentMask = D_kExponentMask \<and> d64 AND D_kSignificandMask = 0"

definition D_Sign :: "double \<Rightarrow> int" where
  "D_Sign d64 = (if d64 AND D_kSignMask = 0 then 1 else -1)"

definition D_Exponent :: "double \<Rightarrow> int" where
  "D_Exponent d64 =
     (if D_IsDenormal d64 then D_kDenormalExponent
      else int (unat (drop_bit D_kPhysicalSignificandSize (d64 AND D_kExponentMask))) - D_kExponentBias)"

definition D_Significand :: "double \<Rightarrow> uint64" where
  "D_Significand d64 =
     (let significand = d64 AND D_kSignificandMask in
      if \<not> D_IsDenormal d64 then significand + D_kHiddenBit else significand)"

text \<open>The comparison \<open>value() > 0.0\<close>: neither a zero nor negative nor a NaN.\<close>

definition D_positive :: "double \<Rightarrow> bool" where
  "D_positive d64 \<longleftrightarrow> D_Sign d64 > 0 \<and> d64 \<noteq> 0 \<and> \<not> D_IsNan d64"

definition D_AsDiyFp :: "double \<Rightarrow> diy_fp result" where
  "D_AsDiyFp d64 = do {
     check (D_Sign d64 > 0);
     check (\<not> D_IsSpecial d64);
     Some (mk_diy (D_Significand d64) (D_Exponent d64))
   }"

definition D_AsNormalizedDiyFp :: "double \<Rightarrow> diy_fp result" where
  "D_AsNormalizedDiyFp d64 = do {
     check (D_positive d64);
     (f, e) \<leftarrow> while_loop (\<lambda>(f, e). Some (f AND D_kHiddenBit = 0))
       (\<lambda>(f, e). Some (push_bit 1 f, e - 1)) (D_Significand d64, D_Exponent d64);
     Some (mk_diy (push_bit (64 - D_kSignificandSize) f) (e - int (64 - D_kSignificandSize)))
   }"

definition D_NextDouble :: "double \<Rightarrow> double" where
  "D_NextDouble d64 =
     (if d64 = D_kInfinity then D_kInfinity
      else if D_Sign d64 < 0 \<and> D_Significand d64 = 0 then 0
      else if D_Sign d64 < 0 then d64 - 1
      else d64 + 1)"

definition D_PreviousDouble :: "double \<Rightarrow> double" where
  "D_PreviousDouble d64 =
     (if d64 = D_kInfinity OR D_kSignMask then D_kInfinity OR D_kSignMask
      else if D_Sign d64 < 0 then d64 + 1
      else if D_Significand d64 = 0 then D_kSignMask
      else d64 - 1)"

definition D_UpperBoundary :: "double \<Rightarrow> diy_fp result" where
  "D_UpperBoundary d64 = do {
     check (D_Sign d64 > 0);
     Some (mk_diy (D_Significand d64 * 2 + 1) (D_Exponent d64 - 1))
   }"

definition D_LowerBoundaryIsCloser :: "double \<Rightarrow> bool" where
  "D_LowerBoundaryIsCloser d64 \<longleftrightarrow>
     d64 AND D_kSignificandMask = 0 \<and> D_Exponent d64 \<noteq> D_kDenormalExponent"

definition D_NormalizedBoundaries :: "double \<Rightarrow> (diy_fp \<times> diy_fp) result" where
  "D_NormalizedBoundaries d64 = do {
     check (D_positive d64);
     v \<leftarrow> D_AsDiyFp d64;
     m_plus \<leftarrow> Normalize (mk_diy (push_bit 1 (diy_f v) + 1) (diy_e v - 1));
     let m_minus = (if D_LowerBoundaryIsCloser d64
                    then mk_diy (push_bit 2 (diy_f v) - 1) (diy_e v - 2)
                    else mk_diy (push_bit 1 (diy_f v) - 1) (diy_e v - 1));
     check (diy_e m_minus \<ge> diy_e m_plus);
     let m_minus = m_minus\<lparr>diy_f := push_bit (nat (diy_e m_minus - diy_e m_plus)) (diy_f m_minus)\<rparr>;
     Some (m_minus\<lparr>diy_e := diy_e m_plus\<rparr>, m_plus)
   }"

definition D_SignificandSizeForOrderOfMagnitude :: "int \<Rightarrow> int" where
  "D_SignificandSizeForOrderOfMagnitude order =
     (if order \<ge> D_kDenormalExponent + int D_kSignificandSize then int D_kSignificandSize
      else if order \<le> D_kDenormalExponent then 0
      else order - D_kDenormalExponent)"

definition DiyFpToUint64 :: "diy_fp \<Rightarrow> uint64 result" where
  "DiyFpToUint64 d = do {
     (significand, e) \<leftarrow> while_loop
       (\<lambda>(significand, e). Some (significand > D_kHiddenBit + D_kSignificandMask))
       (\<lambda>(significand, e). Some (drop_bit 1 significand, e + 1)) (diy_f d, diy_e d);
     if e \<ge> D_kMaxExponent then Some D_kInfinity
     else if e < D_kDenormalExponent then Some 0
     else do {
       (significand, e) \<leftarrow> while_loop
         (\<lambda>(significand, e). Some (e > D_kDenormalExponent \<and> significand AND D_kHiddenBit = 0))
         (\<lambda>(significand, e). Some (push_bit 1 significand, e - 1)) (significand, e);
       let biased_exponent =
         (if e = D_kDenormalExponent \<and> significand AND D_kHiddenBit = 0 then 0
          else (of_int (e + D_kExponentBias) :: uint64));
       Some ((significand AND D_kSignificandMask) OR push_bit D_kPhysicalSignificandSize biased_exponent)
     }
   }"

section \<open>Single\<close>

abbreviation S_kPhysicalSignificandSize :: nat where "S_kPhysicalSignificandSize \<equiv> 23"
abbreviation S_kSignificandSize :: nat where "S_kSignificandSize \<equiv> 24"
abbreviation S_kExponentBias :: int where "S_kExponentBias \<equiv> 0x7F + 23"
abbreviation S_kDenormalExponent :: int where "S_kDenormalExponent \<equiv> - S_kExponentBias + 1"

definition S_kSignMask :: uint32 where "S_kSignMask = 0x80000000"
definition S_kExponentMask :: uint32 where "S_kExponentMask = 0x7F800000"
definition S_kSignificandMask :: uint32 where "S_kSignificandMask = 0x007FFFFF"
definition S_kHiddenBit :: uint32 where "S_kHiddenBit = 0x00800000"
definition S_kInfinity :: uint32 where "S_kInfinity = 0x7F800000"
definition S_kNaN :: uint32 where "S_kNaN = 0x7FC00000"

definition S_IsDenormal :: "single \<Rightarrow> bool" where
  "S_IsDenormal d32 \<longleftrightarrow> d32 AND S_kExponentMask = 0"

definition S_IsSpecial :: "single \<Rightarrow> bool" where
  "S_IsSpecial d32 \<longleftrightarrow> d32 AND S_kExponentMask = S_kExponentMask"

definition S_IsNan :: "single \<Rightarrow> bool" where
  "S_IsNan d32 \<longleftrightarrow> d32 AND S_kExponentMask = S_kExponentMask \<and> d32 AND S_kSignificandMask \<noteq> 0"

definition S_IsInfinite :: "single \<Rightarrow> bool" where
  "S_IsInfinite d32 \<longleftrightarrow> d32 AND S_kExponentMask = S_kExponentMask \<and> d32 AND S_kSignificandMask = 0"

definition S_Sign :: "single \<Rightarrow> int" where
  "S_Sign d32 = (if d32 AND S_kSignMask = 0 then 1 else -1)"

definition S_Exponent :: "single \<Rightarrow> int" where
  "S_Exponent d32 =
     (if S_IsDenormal d32 then S_kDenormalExponent
      else int (unat (drop_bit S_kPhysicalSignificandSize (d32 AND S_kExponentMask))) - S_kExponentBias)"

definition S_Significand :: "single \<Rightarrow> uint32" where
  "S_Significand d32 =
     (let significand = d32 AND S_kSignificandMask in
      if \<not> S_IsDenormal d32 then significand + S_kHiddenBit else significand)"

definition S_positive :: "single \<Rightarrow> bool" where
  "S_positive d32 \<longleftrightarrow> S_Sign d32 > 0 \<and> d32 \<noteq> 0 \<and> \<not> S_IsNan d32"

definition S_AsDiyFp :: "single \<Rightarrow> diy_fp result" where
  "S_AsDiyFp d32 = do {
     check (S_Sign d32 > 0);
     check (\<not> S_IsSpecial d32);
     Some (mk_diy (ucast (S_Significand d32)) (S_Exponent d32))
   }"

text \<open>\<open>Significand() * 2 + 1\<close> is computed in 32 bits before it becomes the 64-bit significand.\<close>

definition S_UpperBoundary :: "single \<Rightarrow> diy_fp result" where
  "S_UpperBoundary d32 = do {
     check (S_Sign d32 > 0);
     Some (mk_diy (ucast (S_Significand d32 * 2 + 1)) (S_Exponent d32 - 1))
   }"

definition S_LowerBoundaryIsCloser :: "single \<Rightarrow> bool" where
  "S_LowerBoundaryIsCloser d32 \<longleftrightarrow>
     d32 AND S_kSignificandMask = 0 \<and> S_Exponent d32 \<noteq> S_kDenormalExponent"

definition S_NormalizedBoundaries :: "single \<Rightarrow> (diy_fp \<times> diy_fp) result" where
  "S_NormalizedBoundaries d32 = do {
     check (S_positive d32);
     v \<leftarrow> S_AsDiyFp d32;
     m_plus \<leftarrow> Normalize (mk_diy (push_bit 1 (diy_f v) + 1) (diy_e v - 1));
     let m_minus = (if S_LowerBoundaryIsCloser d32
                    then mk_diy (push_bit 2 (diy_f v) - 1) (diy_e v - 2)
                    else mk_diy (push_bit 1 (diy_f v) - 1) (diy_e v - 1));
     check (diy_e m_minus \<ge> diy_e m_plus);
     let m_minus = m_minus\<lparr>diy_f := push_bit (nat (diy_e m_minus - diy_e m_plus)) (diy_f m_minus)\<rparr>;
     Some (m_minus\<lparr>diy_e := diy_e m_plus\<rparr>, m_plus)
   }"

end
