(* ===== verification/Ieee_Laws.thy ===== *)
theory Ieee_Laws
  imports Ieee
begin

text \<open>
  What the bits of a \<open>Double\<close> and of a \<open>Single\<close> stand for. Read as a number, the bits of a float that is
  not negative and not special are its position (``rank'') among these floats: the value is strictly monotone in the
  rank, one step of the rank is one unit in the last place, and the boundaries that the classes compute are the
  midpoints between neighbours. All of this is proved once, in the locale \<open>ieee_format\<close>.
\<close>

section \<open>The value of a rank\<close>

text \<open>\<open>p\<close> is the number of stored significand bits, \<open>emin\<close> the exponent of the denormals.\<close>

definition rank_sig :: "nat \<Rightarrow> nat \<Rightarrow> nat" where
  "rank_sig p n = (if n < 2 ^ p then n else 2 ^ p + n mod 2 ^ p)"

definition rank_exp :: "nat \<Rightarrow> int \<Rightarrow> nat \<Rightarrow> int" where
  "rank_exp p emin n = (if n < 2 ^ p then emin else emin + int (n div 2 ^ p) - 1)"

definition rank_val :: "nat \<Rightarrow> int \<Rightarrow> nat \<Rightarrow> real" where
  "rank_val p emin n = real (rank_sig p n) * 2 powi rank_exp p emin n"

lemma Suc_div_mod_cases:
  fixes n m :: nat
  assumes "0 < m"
  obtains "Suc n div m = n div m" "Suc n mod m = Suc (n mod m)"
    | "Suc n div m = Suc (n div m)" "Suc n mod m = 0" "n mod m = m - 1"
proof (cases "Suc (n mod m) = m")
  case True
  then have "Suc n mod m = 0" "Suc n div m = Suc (n div m)" by (auto simp: mod_Suc div_Suc)
  with True that(2) show thesis by simp
next
  case False
  then have "Suc n mod m = Suc (n mod m)" "Suc n div m = n div m" using assms by (auto simp: mod_Suc div_Suc)
  with that(1) show thesis by simp
qed

text \<open>One step of the rank is one unit in the last place, across the binades and into the normal numbers.\<close>

lemma rank_val_Suc: "rank_val p emin (Suc n) = rank_val p emin n + 2 powi rank_exp p emin n"
proof -
  let ?m = "2 ^ p :: nat"
  consider "Suc n < ?m" | "Suc n = ?m" | "?m \<le> n" by linarith
  then show ?thesis
  proof cases
    case 1
    then show ?thesis by (simp add: rank_val_def rank_sig_def rank_exp_def algebra_simps)
  next
    case 2
    then have "n < ?m" by simp
    moreover have "real n + 1 = 2 ^ p" using arg_cong [OF 2, of real] by simp
    then have "2 ^ p * 2 powi emin = (real n + 1) * 2 powi emin" by simp
    ultimately show ?thesis
      using 2 by (simp add: rank_val_def rank_sig_def rank_exp_def distrib_right)
  next
    case 3
    then have ge: "\<not> n < ?m" "\<not> Suc n < ?m" by auto
    have "0 < ?m" by simp
    then show ?thesis
    proof (cases rule: Suc_div_mod_cases [of ?m n])
      case 1
      with ge show ?thesis by (simp add: rank_val_def rank_sig_def rank_exp_def algebra_simps)
    next
      case 2
      let ?e = "emin + int (n div ?m) - 1"
      have "?m + n mod ?m + 1 = 2 * ?m" using 2(3) \<open>0 < ?m\<close> by linarith
      then have "real (?m + n mod ?m + 1) = real (2 * ?m)" by (rule arg_cong)
      then have "real (?m + n mod ?m) + 1 = 2 * 2 ^ p" by simp
      then have "(real (?m + n mod ?m) + 1) * 2 powi ?e = 2 ^ p * (2 powi ?e * 2)" by simp
      also have "2 powi ?e * 2 = (2 :: real) powi (?e + 1)" using power_int_add [of "2 :: real" ?e 1] by simp
      finally show ?thesis
        using ge 2 by (simp add: rank_val_def rank_sig_def rank_exp_def algebra_simps)
    qed
  qed
qed

lemma rank_val_less: "m < n \<Longrightarrow> rank_val p emin m < rank_val p emin n"
  by (rule lift_Suc_mono_less) (simp_all add: rank_val_Suc)

lemma rank_val_less_iff: "rank_val p emin m < rank_val p emin n \<longleftrightarrow> m < n"
  using rank_val_less [of m n p emin] rank_val_less [of n m p emin] by (cases m n rule: linorder_cases) auto

lemma rank_val_0 [simp]: "rank_val p emin 0 = 0"
  by (simp add: rank_val_def rank_sig_def)

lemma rank_val_nonneg: "0 \<le> rank_val p emin n"
  by (simp add: rank_val_def)

lemma rank_exp_pred:
  assumes "0 < n"
  shows "rank_exp p emin (n - 1) = rank_exp p emin n - (if n mod 2 ^ p = 0 \<and> 2 * 2 ^ p \<le> n then 1 else 0)"
proof -
  let ?m = "2 ^ p :: nat"
  obtain k where k: "n = Suc k" using assms by (cases n) auto
  consider "n < ?m" | "n = ?m" | "?m < n" by linarith
  then show ?thesis
  proof cases
    case 1
    with k show ?thesis by (simp add: rank_exp_def)
  next
    case 2
    with k show ?thesis by (auto simp: rank_exp_def)
  next
    case 3
    with k have ge: "\<not> k < ?m" "\<not> n < ?m" by auto
    have "0 < ?m" by simp
    then show ?thesis
    proof (cases rule: Suc_div_mod_cases [of ?m k])
      case 1
      with ge k show ?thesis by (simp add: rank_exp_def)
    next
      case 2
      have "1 \<le> k div ?m" using ge by (metis div_greater_zero_iff not_less One_nat_def Suc_leI \<open>0 < ?m\<close>)
      then have "2 * ?m \<le> Suc (k div ?m) * ?m" by (intro mult_le_mono1) simp
      also have "\<dots> = n" using 2 k by (metis add.right_neutral div_mult_mod_eq)
      finally show ?thesis using ge 2 k by (simp add: rank_exp_def)
    qed
  qed
qed

section \<open>The interface of a format\<close>

locale ieee_format =
  fixes p :: nat and emin :: int and inf_rank :: nat
    and rank :: "'w \<Rightarrow> nat" and sig :: "'w \<Rightarrow> nat" and expo :: "'w \<Rightarrow> int" and closer :: "'w \<Rightarrow> bool"
  assumes sig_rank: "rank w < inf_rank \<Longrightarrow> sig w = rank_sig p (rank w)"
    and expo_rank: "rank w < inf_rank \<Longrightarrow> expo w = rank_exp p emin (rank w)"
    and closer_rank: "rank w < inf_rank \<Longrightarrow> closer w \<longleftrightarrow> rank w mod 2 ^ p = 0 \<and> 2 * 2 ^ p \<le> rank w"
begin

lemma val_rank: "rank w < inf_rank \<Longrightarrow> real (sig w) * 2 powi expo w = rank_val p emin (rank w)"
  by (simp add: sig_rank expo_rank rank_val_def)

lemma val_less_iff:
  "rank v < inf_rank \<Longrightarrow> rank w < inf_rank \<Longrightarrow>
   real (sig v) * 2 powi expo v < real (sig w) * 2 powi expo w \<longleftrightarrow> rank v < rank w"
  by (simp add: val_rank rank_val_less_iff)

lemma sig_less: "rank w < inf_rank \<Longrightarrow> sig w < 2 * 2 ^ p"
  using mod_less_divisor [of "2 ^ p" "rank w"] by (simp add: sig_rank rank_sig_def)

lemma upper_midpoint:
  assumes "rank w < inf_rank"
  shows "real (2 * sig w + 1) * 2 powi (expo w - 1)
    = (rank_val p emin (rank w) + rank_val p emin (Suc (rank w))) / 2"
  using val_rank [OF assms]
  by (simp add: rank_val_Suc expo_rank [OF assms, symmetric] power_int_diff field_simps)

lemma lower_midpoint:
  assumes "rank w < inf_rank" "0 < rank w"
  shows "(if closer w then real (4 * sig w - 1) * 2 powi (expo w - 2) else real (2 * sig w - 1) * 2 powi (expo w - 1))
    = (rank_val p emin (rank w - 1) + rank_val p emin (rank w)) / 2"
proof -
  have s: "0 < sig w" using assms by (simp add: sig_rank rank_sig_def)
  have prev: "rank_val p emin (rank w - 1) = rank_val p emin (rank w) - 2 powi rank_exp p emin (rank w - 1)"
    using rank_val_Suc [of p emin "rank w - 1"] assms(2) by simp
  have e: "rank_exp p emin (rank w - 1) = expo w - (if closer w then 1 else 0)"
    using rank_exp_pred [OF assms(2)] closer_rank [OF assms(1)] expo_rank [OF assms(1)] by simp
  show ?thesis
    unfolding prev e val_rank [OF assms(1), symmetric] using s
    by (auto simp: power_int_diff field_simps of_nat_diff)
qed

end

section \<open>The fields of the two formats\<close>

lemma D_masks:
  "D_kExponentMask = push_bit 52 (mask 11)" "D_kSignificandMask = mask 52" "D_kSignMask = push_bit 63 (mask 1)"
  "D_kHiddenBit = push_bit 52 (mask 1)"
  by (simp_all add: D_kExponentMask_def D_kSignificandMask_def D_kSignMask_def D_kHiddenBit_def mask_eq_exp_minus_1)

lemma S_masks:
  "S_kExponentMask = push_bit 23 (mask 8)" "S_kSignificandMask = mask 23" "S_kSignMask = push_bit 31 (mask 1)"
  by (simp_all add: S_kExponentMask_def S_kSignificandMask_def S_kSignMask_def mask_eq_exp_minus_1)

lemma D_fields:
  "unat (d AND D_kExponentMask) = unat d div 2 ^ 52 mod 2 ^ 11 * 2 ^ 52"
  "unat (d AND D_kSignificandMask) = unat d mod 2 ^ 52"
  "unat (d AND D_kSignMask) = unat d div 2 ^ 63 mod 2 * 2 ^ 63"
  "unat (d AND D_kHiddenBit) = unat d div 2 ^ 52 mod 2 * 2 ^ 52"
  unfolding D_masks using unat_and_field [of 52 11 d] unat_and_field [of 63 1 d] unat_and_field [of 52 1 d]
  by (simp_all add: unat_and_mask)

lemma S_fields:
  "unat (d AND S_kExponentMask) = unat d div 2 ^ 23 mod 2 ^ 8 * 2 ^ 23"
  "unat (d AND S_kSignificandMask) = unat d mod 2 ^ 23"
  "unat (d AND S_kSignMask) = unat d div 2 ^ 31 mod 2 * 2 ^ 31"
  unfolding S_masks using unat_and_field [of 23 8 d] unat_and_field [of 31 1 d]
  by (simp_all add: unat_and_mask)

section \<open>The two formats\<close>

abbreviation D_inf_rank :: nat where "D_inf_rank \<equiv> 0x7FF * 2 ^ 52"
abbreviation S_inf_rank :: nat where "S_inf_rank \<equiv> 0xFF * 2 ^ 23"

lemma D_rank:
  assumes "unat d < D_inf_rank"
  shows "D_Sign d = 1" "\<not> D_IsSpecial d" "D_IsDenormal d \<longleftrightarrow> unat d < 2 ^ 52"
    and "unat (d AND D_kExponentMask) = unat d div 2 ^ 52 * 2 ^ 52"
proof -
  have div: "unat d div 2 ^ 52 < 0x7FF" using assms by (intro less_mult_imp_div_less)
  then have e: "unat (d AND D_kExponentMask) = unat d div 2 ^ 52 * 2 ^ 52" by (simp add: D_fields)
  then show "unat (d AND D_kExponentMask) = unat d div 2 ^ 52 * 2 ^ 52" .
  have "unat d div 2 ^ 63 = 0" using assms by simp
  then have "unat (d AND D_kSignMask) = 0" by (simp only: D_fields mod_0 mult_zero_left)
  then show "D_Sign d = 1" by (simp add: D_Sign_def unat_eq_0_iff)
  have "unat D_kExponentMask = 0x7FF * 2 ^ 52" by (simp add: D_kExponentMask_def)
  then show "\<not> D_IsSpecial d" using div e by (auto simp: D_IsSpecial_def)
  show "D_IsDenormal d \<longleftrightarrow> unat d < 2 ^ 52"
    using e by (auto simp: D_IsDenormal_def unat_eq_0_iff [symmetric] div_eq_0_iff)
qed

lemma D_sig_rank: "unat d < D_inf_rank \<Longrightarrow> unat (D_Significand d) = rank_sig 52 (unat d)"
proof -
  assume d: "unat d < D_inf_rank"
  have "unat (D_kHiddenBit) = 2 ^ 52" by (simp add: D_kHiddenBit_def)
  moreover have "unat d mod 2 ^ 52 + 2 ^ 52 < 2 ^ 64"
    using mod_less_divisor [of "2 ^ 52" "unat d"] by simp
  ultimately show ?thesis
    using D_rank [OF d] by (auto simp: D_Significand_def rank_sig_def D_fields Let_def unat_add_small)
qed

lemma D_expo_rank: "unat d < D_inf_rank \<Longrightarrow> D_Exponent d = rank_exp 52 (-1074) (unat d)"
proof -
  assume d: "unat d < D_inf_rank"
  have "unat (drop_bit 52 (d AND D_kExponentMask)) = unat d div 2 ^ 52"
    unfolding unat_drop_bit D_rank(4) [OF d] by simp
  then show ?thesis
    unfolding D_Exponent_def rank_exp_def D_rank(3) [OF d] by simp
qed

lemma D_closer_rank:
  "unat d < D_inf_rank \<Longrightarrow> D_LowerBoundaryIsCloser d \<longleftrightarrow> unat d mod 2 ^ 52 = 0 \<and> 2 * 2 ^ 52 \<le> unat d"
proof -
  assume d: "unat d < D_inf_rank"
  have "d AND D_kSignificandMask = 0 \<longleftrightarrow> unat d mod 2 ^ 52 = 0"
    by (simp only: unat_eq_0_iff [symmetric] D_fields)
  moreover have "rank_exp 52 (-1074) (unat d) \<noteq> -1074 \<longleftrightarrow> 2 * 2 ^ 52 \<le> unat d"
    by (auto simp: rank_exp_def) 
  ultimately show ?thesis
    using D_expo_rank [OF d] by (simp add: D_LowerBoundaryIsCloser_def)
qed

interpretation double: ieee_format 52 "-1074" D_inf_rank unat "\<lambda>d. unat (D_Significand d)" D_Exponent D_LowerBoundaryIsCloser
  by unfold_locales (rule D_sig_rank D_expo_rank D_closer_rank, assumption)+

lemma S_rank:
  assumes "unat d < S_inf_rank"
  shows "S_Sign d = 1" "\<not> S_IsSpecial d" "S_IsDenormal d \<longleftrightarrow> unat d < 2 ^ 23"
    and "unat (d AND S_kExponentMask) = unat d div 2 ^ 23 * 2 ^ 23"
proof -
  have div: "unat d div 2 ^ 23 < 0xFF" using assms by (intro less_mult_imp_div_less)
  then have e: "unat (d AND S_kExponentMask) = unat d div 2 ^ 23 * 2 ^ 23" by (simp add: S_fields)
  then show "unat (d AND S_kExponentMask) = unat d div 2 ^ 23 * 2 ^ 23" .
  have "unat d div 2 ^ 31 = 0" using assms by simp
  then have "unat (d AND S_kSignMask) = 0" by (simp only: S_fields mod_0 mult_zero_left)
  then show "S_Sign d = 1" by (simp add: S_Sign_def unat_eq_0_iff)
  have "unat S_kExponentMask = 0xFF * 2 ^ 23" by (simp add: S_kExponentMask_def)
  then show "\<not> S_IsSpecial d" using div e by (auto simp: S_IsSpecial_def)
  show "S_IsDenormal d \<longleftrightarrow> unat d < 2 ^ 23"
    using e by (auto simp: S_IsDenormal_def unat_eq_0_iff [symmetric] div_eq_0_iff)
qed

lemma S_sig_rank: "unat d < S_inf_rank \<Longrightarrow> unat (S_Significand d) = rank_sig 23 (unat d)"
proof -
  assume d: "unat d < S_inf_rank"
  have "unat (S_kHiddenBit) = 2 ^ 23" by (simp add: S_kHiddenBit_def)
  moreover have "unat d mod 2 ^ 23 + 2 ^ 23 < 2 ^ 32"
    using mod_less_divisor [of "2 ^ 23" "unat d"] by simp
  ultimately show ?thesis
    using S_rank [OF d] by (auto simp: S_Significand_def rank_sig_def S_fields Let_def unat_add_small)
qed

lemma S_expo_rank: "unat d < S_inf_rank \<Longrightarrow> S_Exponent d = rank_exp 23 (-149) (unat d)"
proof -
  assume d: "unat d < S_inf_rank"
  have "unat (drop_bit 23 (d AND S_kExponentMask)) = unat d div 2 ^ 23"
    unfolding unat_drop_bit S_rank(4) [OF d] by simp
  then show ?thesis
    unfolding S_Exponent_def rank_exp_def S_rank(3) [OF d] by simp
qed

lemma S_closer_rank:
  "unat d < S_inf_rank \<Longrightarrow> S_LowerBoundaryIsCloser d \<longleftrightarrow> unat d mod 2 ^ 23 = 0 \<and> 2 * 2 ^ 23 \<le> unat d"
proof -
  assume d: "unat d < S_inf_rank"
  have "d AND S_kSignificandMask = 0 \<longleftrightarrow> unat d mod 2 ^ 23 = 0"
    by (simp only: unat_eq_0_iff [symmetric] S_fields)
  moreover have "rank_exp 23 (-149) (unat d) \<noteq> -149 \<longleftrightarrow> 2 * 2 ^ 23 \<le> unat d"
    by (auto simp: rank_exp_def)
  ultimately show ?thesis
    using S_expo_rank [OF d] by (simp add: S_LowerBoundaryIsCloser_def)
qed

interpretation single: ieee_format 23 "-149" S_inf_rank unat "\<lambda>d. unat (S_Significand d)" S_Exponent S_LowerBoundaryIsCloser
  by unfold_locales (rule S_sig_rank S_expo_rank S_closer_rank, assumption)+

end
