(* ===== verification/Ieee_Properties.thy ===== *)
theory Ieee_Properties
  imports Ieee_Laws
begin

text \<open>
  The operations of \<open>Double\<close> and \<open>Single\<close>, most of them on floats that are not negative and not special: neighbours,
  boundaries, and the conversion from and to \<open>DiyFp\<close>.
\<close>

abbreviation D_val :: "nat \<Rightarrow> real" where "D_val \<equiv> rank_val 52 (-1074)"
abbreviation S_val :: "nat \<Rightarrow> real" where "S_val \<equiv> rank_val 23 (-149)"

section \<open>Conversion from \<open>DiyFp\<close>\<close>

lemma hidden_bit_clear:
  assumes "unat s < 2 ^ 53"
  shows "s AND D_kHiddenBit = 0 \<longleftrightarrow> unat s < 2 ^ 52"
proof -
  have "unat s div 2 ^ 52 < 2" using assms by (intro less_mult_imp_div_less) simp
  then have "unat s div 2 ^ 52 mod 2 = unat s div 2 ^ 52" by (rule mod_less)
  then have "s AND D_kHiddenBit = 0 \<longleftrightarrow> unat s div 2 ^ 52 = 0"
    using D_fields(4) [of s] by (simp add: unat_eq_0_iff [symmetric])
  then show ?thesis by (simp add: div_eq_0_iff)
qed

lemma diy_to_uint64_scale:
  assumes "unat s < 2 ^ 53" "-1074 \<le> e" "e < 972"
    and post: "\<And>s' k. unat s' = unat s * 2 ^ k \<Longrightarrow> unat s' < 2 ^ 53 \<Longrightarrow> -1074 \<le> e - int k \<Longrightarrow>
      e - int k = -1074 \<or> 2 ^ 52 \<le> unat s' \<Longrightarrow> P (s', e - int k)"
  shows "returns (while_loop
         (\<lambda>(significand, e). Some (e > D_kDenormalExponent \<and> significand AND D_kHiddenBit = 0))
         (\<lambda>(significand, e). Some (push_bit 1 significand, e - 1)) (s, e)) P"
proof (rule returns_while [where m = "\<lambda>(s, e). nat (e + 1074)" and I = "\<lambda>(s', e'). \<exists>k. unat s' = unat s * 2 ^ k \<and>
    unat s' < 2 ^ 53 \<and> e' = e - int k \<and> -1074 \<le> e'"], goal_cases)
  case 1
  show ?case using assms by (auto intro: exI [of _ 0])
next
  case (2 x)
  then obtain s' k where x: "x = (s', e - int k)" "unat s' = unat s * 2 ^ k" "unat s' < 2 ^ 53" "-1074 \<le> e - int k"
    by (cases x) auto
  note hidden = hidden_bit_clear [OF x(3)]
  show ?case
  proof (cases "e - int k > -1074 \<and> unat s' < 2 ^ 52")
    case True
    then have "unat (push_bit 1 s') = unat s' * 2" by (subst unat_push_bit_small) simp_all
    then have "unat (push_bit 1 s') = unat s * 2 ^ Suc k" "unat (push_bit 1 s') < 2 ^ 53" using x(2) True by simp_all
    then have "\<exists>j. unat (push_bit 1 s') = unat s * 2 ^ j \<and> unat (push_bit 1 s') < 2 ^ 53 \<and> e - int k - 1 = e - int j \<and>
        -1074 \<le> e - int k - 1"
      using True by (intro exI [of _ "Suc k"]) auto
    then show ?thesis using True x(1) hidden by simp
  next
    case False
    then have "e - int k = -1074 \<or> 2 ^ 52 \<le> unat s'" using x(4) by linarith
    with False x post show ?thesis by (auto simp: hidden)
  qed
qed

lemma unat_or_disjoint: "a AND b = 0 \<Longrightarrow> unat a + unat b < 2 ^ 64 \<Longrightarrow> unat (a OR b) = unat a + unat b"
  for a b :: uint64
  by (simp add: disjunctive_add_eq_or [symmetric] unat_add_small)

lemma assemble_fields:
  fixes s b :: uint64
  assumes "unat b < 2 ^ 11"
  shows "unat ((s AND D_kSignificandMask) OR push_bit 52 b) = unat s mod 2 ^ 52 + unat b * 2 ^ 52"
proof -
  have pb: "unat (push_bit 52 b) = unat b * 2 ^ 52" using assms by (intro unat_push_bit_small) simp
  have "(s AND mask 52) AND push_bit 52 b = 0" by (rule bit_eqI) (auto simp: bit_simps)
  moreover have "unat s mod 2 ^ 52 + unat b * 2 ^ 52 < 2 ^ 64"
    using assms mod_less_divisor [of "2 ^ 52" "unat s"] by simp
  ultimately show ?thesis
    unfolding D_masks by (subst unat_or_disjoint) (simp_all only: pb unat_and_mask)
qed

text \<open>The bits put together from a significand and an exponent that are in range.\<close>

lemma assemble_rank:
  assumes s: "unat s < 2 ^ 53" and e: "-1074 \<le> e" "e < 972" "e = -1074 \<or> 2 ^ 52 \<le> unat s"
  defines "b \<equiv> (if e = D_kDenormalExponent \<and> s AND D_kHiddenBit = 0 then 0 else (of_int (e + D_kExponentBias) :: uint64))"
  defines "r \<equiv> (s AND D_kSignificandMask) OR push_bit D_kPhysicalSignificandSize b"
  shows "unat r < D_inf_rank" "D_val (unat r) = real (unat s) * 2 powi e"
proof -
  note hidden = hidden_bit_clear [OF s]
  have "unat r < D_inf_rank \<and> D_val (unat r) = real (unat s) * 2 powi e"
  proof (cases "unat s < 2 ^ 52")
    case True
    then have "e = -1074" using e by auto
    then have "unat r = unat s" using True hidden assemble_fields [of b s] by (simp add: r_def b_def)
    with True \<open>e = -1074\<close> show ?thesis by (simp add: rank_val_def rank_sig_def rank_exp_def)
  next
    case False
    define n where "n = nat (e + 1075)"
    have n: "e + 1075 = int n" "1 \<le> n" "n < 2047" using e by (auto simp: n_def)
    have "b = of_nat n" using False hidden n(1) unfolding b_def by simp
    then have ub: "unat b = n" using n by (simp add: unsigned_of_nat take_bit_eq_mod)
    then have r: "unat r = unat s mod 2 ^ 52 + n * 2 ^ 52" using n assemble_fields [of b s] by (simp add: r_def)
    have "unat s = 2 ^ 52 + unat s mod 2 ^ 52"
    proof -
      have "unat s div 2 ^ 52 = 1" using False s by (intro div_nat_eqI) auto
      then show ?thesis using div_mult_mod_eq [of "unat s" "2 ^ 52"] by simp
    qed
    then have sig: "rank_sig 52 (unat r) = unat s" using n r by (simp add: rank_sig_def)
    have "unat r div 2 ^ 52 = n" using r by simp
    then have "rank_exp 52 (-1074) (unat r) = e" using n r by (simp add: rank_exp_def)
    moreover have "unat r < D_inf_rank"
    proof -
      have "unat r < (n + 1) * 2 ^ 52" using r mod_less_divisor [of "2 ^ 52" "unat s"] by simp
      also have "\<dots> \<le> 2047 * 2 ^ 52" using n by (intro mult_le_mono1) simp
      finally show ?thesis .
    qed
    ultimately show ?thesis using sig by (simp add: rank_val_def)
  qed
  then show "unat r < D_inf_rank" "D_val (unat r) = real (unat s) * 2 powi e" by auto
qed

lemma DiyFpToUint64_exact_small:
  assumes f: "unat (diy_f d) < 2 ^ 53" and e: "-1074 \<le> diy_e d" "diy_e d < 972"
  shows "returns (DiyFpToUint64 d) (\<lambda>r. unat r < D_inf_rank \<and> D_val (unat r) = diy_val d)"
proof -
  have "\<not> D_kHiddenBit + D_kSignificandMask < diy_f d"
    using f by (simp add: word_less_nat_alt D_kHiddenBit_def D_kSignificandMask_def)
  then have stop: "while_loop (\<lambda>(significand, e). Some (significand > D_kHiddenBit + D_kSignificandMask))
       (\<lambda>(significand, e). Some (drop_bit 1 significand, e + 1)) (diy_f d, diy_e d) = Some (diy_f d, diy_e d)"
    by (intro while_loop_stop) simp
  have lim: "\<not> D_kMaxExponent \<le> diy_e d" "\<not> diy_e d < D_kDenormalExponent" using e by auto
  have val: "real (unat s) * 2 powi (diy_e d - int k) = diy_val d" if "unat s = unat (diy_f d) * 2 ^ k" for s :: uint64 and k
    using that by (simp add: diy_val_def power_int_diff)
  show ?thesis
    unfolding DiyFpToUint64_def returns_bind stop returns_Some prod.case if_not_P [OF lim(1)] if_not_P [OF lim(2)]
  proof (rule diy_to_uint64_scale [OF f e], goal_cases)
    case (1 s k)
    have "diy_e d - int k < 972" using e by simp
    from assemble_rank [OF 1(2,3) this 1(4)] val [OF 1(1)] show ?case
      unfolding prod.case Let_def returns_Some by simp
  qed
qed

text \<open>A significand that was rounded up to \<open>2 ^ 53\<close> is one step of the first loop away.\<close>

lemma DiyFpToUint64_carry:
  assumes "unat (diy_f d) = 2 ^ 53"
  shows "DiyFpToUint64 d = DiyFpToUint64 \<lparr>diy_f = 2 ^ 52, diy_e = diy_e d + 1\<rparr>"
proof -
  have f: "diy_f d = 2 ^ 53" using assms by (simp add: word_unat_eq_iff)
  then have "while_loop (\<lambda>(significand, e). Some (significand > D_kHiddenBit + D_kSignificandMask))
       (\<lambda>(significand, e). Some (drop_bit 1 significand, e + 1)) (diy_f d, diy_e d)
     = while_loop (\<lambda>(significand, e). Some (significand > D_kHiddenBit + D_kSignificandMask))
       (\<lambda>(significand, e). Some (drop_bit 1 significand, e + 1)) (2 ^ 52, diy_e d + 1)"
    by (intro while_loop_step) (simp_all add: D_kHiddenBit_def D_kSignificandMask_def drop_bit_eq_div)
  then show ?thesis by (simp add: DiyFpToUint64_def)
qed

lemma D_AsDiyFp_eq: "unat d < D_inf_rank \<Longrightarrow> D_AsDiyFp d = Some (mk_diy (D_Significand d) (D_Exponent d))"
  using D_rank(1,2) [of d] by (simp add: D_AsDiyFp_def check_def)

lemma D_diy_val: "unat d < D_inf_rank \<Longrightarrow> diy_val (mk_diy (D_Significand d) (D_Exponent d)) = D_val (unat d)"
  using double.val_rank [of d] by (simp add: diy_val_def mk_diy_def)

lemma D_exponent_bounds: "unat d < D_inf_rank \<Longrightarrow> -1074 \<le> D_Exponent d \<and> D_Exponent d < 972"
proof -
  assume d: "unat d < D_inf_rank"
  then have "unat d div 2 ^ 52 < 2047" by (intro less_mult_imp_div_less)
  moreover have "1 \<le> unat d div 2 ^ 52" if "\<not> unat d < 2 ^ 52" using that by (simp add: Suc_leI div_greater_zero_iff)
  ultimately show ?thesis by (auto simp: D_expo_rank [OF d] rank_exp_def)
qed

section \<open>Boundaries\<close>

text \<open>What both classes compute from the significand and the exponent of a float.\<close>

lemma boundaries_exact:
  assumes f: "0 < unat (diy_f v)" "unat (diy_f v) < 2 ^ 53"
  shows "returns (do {
     m_plus \<leftarrow> Normalize (mk_diy (push_bit 1 (diy_f v) + 1) (diy_e v - 1));
     let m_minus = (if closer
                    then mk_diy (push_bit 2 (diy_f v) - 1) (diy_e v - 2)
                    else mk_diy (push_bit 1 (diy_f v) - 1) (diy_e v - 1));
     check (diy_e m_minus \<ge> diy_e m_plus);
     let m_minus = m_minus\<lparr>diy_f := push_bit (nat (diy_e m_minus - diy_e m_plus)) (diy_f m_minus)\<rparr>;
     Some (m_minus\<lparr>diy_e := diy_e m_plus\<rparr>, m_plus) })
   (\<lambda>(m_minus, m_plus). normalized m_plus \<and> diy_e m_minus = diy_e m_plus \<and>
     diy_val m_plus = real (2 * unat (diy_f v) + 1) * 2 powi (diy_e v - 1) \<and>
     diy_val m_minus = (if closer then real (4 * unat (diy_f v) - 1) * 2 powi (diy_e v - 2)
                        else real (2 * unat (diy_f v) - 1) * 2 powi (diy_e v - 1)))"
proof -
  let ?f = "unat (diy_f v)"
  have p1: "unat (push_bit 1 (diy_f v)) = ?f * 2" and p2: "unat (push_bit 2 (diy_f v)) = ?f * 4"
    using f(2) unat_push_bit_small [of "diy_f v" 1] unat_push_bit_small [of "diy_f v" 2] by simp_all
  have up: "unat (push_bit 1 (diy_f v) + 1) = 2 * ?f + 1"
    using f(2) by (subst unat_add_small) (simp_all only: p1, simp_all)
  have lo1: "unat (push_bit 1 (diy_f v) - 1) = 2 * ?f - 1" and lo2: "unat (push_bit 2 (diy_f v) - 1) = 4 * ?f - 1"
    using f(1) p1 p2 by (simp_all add: unat_sub_small)
  define m where "m = mk_diy (push_bit 1 (diy_f v) + 1) (diy_e v - 1)"
  have m: "unat (diy_f m) = 2 * ?f + 1" "diy_e m = diy_e v - 1"
    unfolding m_def mk_diy_def diy_fp.simps by (rule up refl)+
  have "diy_f m \<noteq> 0" using m(1) by (metis add_is_0 unat_0 zero_neq_one)
  from Normalize_correct [OF this] obtain r k where r: "Normalize m = Some r"
    "normalized r" "unat (diy_f r) = (2 * ?f + 1) * 2 ^ k" "diy_e r = diy_e v - 1 - int k"
    "diy_val r = real (2 * ?f + 1) * 2 powi (diy_e v - 1)"
    unfolding diy_val_def [of m] m by (auto elim: returnsE)
  have lim: "(2 * ?f + 1) * 2 ^ k < 2 ^ 64" using unat_less_64 [of "diy_f r"] r(3) by simp
  have "1 \<le> k"
  proof (rule ccontr)
    assume "\<not> 1 \<le> k"
    then have "k = 0" by simp
    then have "unat (diy_f r) = 2 * ?f + 1" using r(3) by simp
    then show False using r(2) f(2) by (simp add: normalized_def)
  qed
  then obtain j where j: "k = Suc j" by (cases k) auto
  have a: "(2 * ?f - 1) * 2 ^ k \<le> (2 * ?f + 1) * 2 ^ k" by (intro mult_le_mono1) simp
  have b: "(4 * ?f - 1) * 2 ^ j \<le> (2 * ?f + 1) * 2 ^ k" unfolding j power_Suc
    using mult_le_mono1 [of "4 * ?f - 1" "(2 * ?f + 1) * 2" "2 ^ j"] by (simp add: mult.assoc)
  have s1: "unat (push_bit k (push_bit 1 (diy_f v) - 1)) = (2 * ?f - 1) * 2 ^ k"
    using a lim by (subst unat_push_bit_small) (simp_all only: lo1 length_64 le_less_trans)
  have s2: "unat (push_bit j (push_bit 2 (diy_f v) - 1)) = (4 * ?f - 1) * 2 ^ j"
    using b lim by (subst unat_push_bit_small) (simp_all only: lo2 length_64 le_less_trans)
  have v1: "real ((2 * ?f - 1) * 2 ^ k) * 2 powi (diy_e v - 1 - int k) = real (2 * ?f - 1) * 2 powi (diy_e v - 1)"
    by (simp add: power_int_diff)
  have v2: "real ((4 * ?f - 1) * 2 ^ j) * 2 powi (diy_e v - 1 - int k) = real (4 * ?f - 1) * 2 powi (diy_e v - 2)"
    unfolding j by (simp add: power_int_diff power_int_add field_simps)
  have minus: "diy_e (mk_diy x y) = y" "(mk_diy x y)\<lparr>diy_f := z, diy_e := w\<rparr> = mk_diy z w" "diy_f (mk_diy x y) = x"
    for x y z w by (simp_all add: mk_diy_def)
  show ?thesis
  proof (cases closer)
    case True
    have n: "nat (diy_e v - 2 - diy_e r) = j" "diy_e r \<le> diy_e v - 2" using r(4) j by simp_all
    show ?thesis
      unfolding m_def [symmetric] returns_bind r(1) returns_Some if_P [OF True] Let_def minus returns_check prod.case n(1)
      unfolding diy_val_def [of "mk_diy _ _"] minus s2 r(4) v2 using n(2) r by simp
  next
    case False
    have n: "nat (diy_e v - 1 - diy_e r) = k" "diy_e r \<le> diy_e v - 1" using r(4) by simp_all
    show ?thesis
      unfolding m_def [symmetric] returns_bind r(1) returns_Some if_not_P [OF False] Let_def minus returns_check prod.case n(1)
      unfolding diy_val_def [of "mk_diy _ _"] minus s1 r(4) v1 using n(2) r by simp
  qed
qed

lemma D_significand_pos: "0 < unat d \<Longrightarrow> unat d < D_inf_rank \<Longrightarrow> 0 < unat (D_Significand d)"
  by (simp add: D_sig_rank rank_sig_def del: unat_gt_0)

lemma S_significand_pos: "0 < unat d \<Longrightarrow> unat d < S_inf_rank \<Longrightarrow> 0 < unat (S_Significand d)"
  by (simp add: S_sig_rank rank_sig_def del: unat_gt_0)

lemma D_positive_iff: "unat d < D_inf_rank \<Longrightarrow> D_positive d \<longleftrightarrow> 0 < unat d"
  using D_rank(1,2) [of d] by (auto simp: D_positive_def D_IsNan_def D_IsSpecial_def unat_gt_0)

lemma S_positive_iff: "unat d < S_inf_rank \<Longrightarrow> S_positive d \<longleftrightarrow> 0 < unat d"
  using S_rank(1,2) [of d] by (auto simp: S_positive_def S_IsNan_def S_IsSpecial_def unat_gt_0)

lemma D_NormalizedBoundaries_correct:
  assumes "0 < unat d" "unat d < D_inf_rank"
  shows "returns (D_NormalizedBoundaries d) (\<lambda>(m_minus, m_plus). normalized m_plus \<and> diy_e m_minus = diy_e m_plus \<and>
    diy_val m_plus = (D_val (unat d) + D_val (Suc (unat d))) / 2 \<and>
    diy_val m_minus = (D_val (unat d - 1) + D_val (unat d)) / 2)"
proof -
  let ?v = "mk_diy (D_Significand d) (D_Exponent d)"
  have f: "0 < unat (diy_f ?v)" "unat (diy_f ?v) < 2 ^ 53"
    using double.sig_less [OF assms(2)] D_significand_pos [OF assms] by (simp_all add: mk_diy_def)
  show ?thesis
    unfolding D_NormalizedBoundaries_def D_AsDiyFp_eq [OF assms(2)]
      double.upper_midpoint [OF assms(2), symmetric] double.lower_midpoint [OF assms(2,1), symmetric]
      returns_bind [of "check _"] returns_check Option.bind.bind_lunit
    using assms D_positive_iff [OF assms(2)]
    by (intro conjI returns_mono [OF boundaries_exact [OF f]]) (auto simp: mk_diy_def split: if_splits)
qed

lemma S_NormalizedBoundaries_correct:
  assumes "0 < unat d" "unat d < S_inf_rank"
  shows "returns (S_NormalizedBoundaries d) (\<lambda>(m_minus, m_plus). normalized m_plus \<and> diy_e m_minus = diy_e m_plus \<and>
    diy_val m_plus = (S_val (unat d) + S_val (Suc (unat d))) / 2 \<and>
    diy_val m_minus = (S_val (unat d - 1) + S_val (unat d)) / 2)"
proof -
  let ?v = "mk_diy (ucast (S_Significand d)) (S_Exponent d)"
  have u: "unat (ucast (S_Significand d) :: uint64) = unat (S_Significand d)"
    using unat_less_32 [of "S_Significand d"] by (simp add: unsigned_ucast_eq take_bit_eq_mod)
  have f: "0 < unat (diy_f ?v)" "unat (diy_f ?v) < 2 ^ 53"
    using single.sig_less [OF assms(2)] S_significand_pos [OF assms] u by (simp_all add: mk_diy_def)
  have v: "S_AsDiyFp d = Some ?v" using S_rank(1,2) [OF assms(2)] by (simp add: S_AsDiyFp_def check_def)
  show ?thesis
    unfolding S_NormalizedBoundaries_def v
      single.upper_midpoint [OF assms(2), symmetric] single.lower_midpoint [OF assms(2,1), symmetric]
      returns_bind [of "check _"] returns_check Option.bind.bind_lunit
    using assms S_positive_iff [OF assms(2)]
    by (intro conjI returns_mono [OF boundaries_exact [OF f]]) (auto simp: mk_diy_def u split: if_splits)
qed

section \<open>All doubles in order\<close>

text \<open>
  The number that a \<open>double\<close> stands for, where the infinities are \<open>\<plusminus>2 ^ 1024\<close>, and the order of the doubles, in which the two zeros
  are different.
\<close>

definition D_real :: "double \<Rightarrow> real" where
  "D_real d = (if D_Sign d < 0 then - D_val (unat (d AND NOT D_kSignMask)) else D_val (unat (d AND NOT D_kSignMask)))"

definition D_before :: "double \<Rightarrow> double \<Rightarrow> bool" where
  "D_before a b \<longleftrightarrow> D_real a < D_real b \<or> a = D_kSignMask \<and> b = 0"

lemma D_abs: "unat (d AND NOT D_kSignMask) = unat d mod 2 ^ 63"
proof -
  have "NOT D_kSignMask = mask 63" by (simp add: D_kSignMask_def mask_eq_exp_minus_1)
  then show ?thesis by (simp only: unat_and_mask)
qed

lemma D_negative: "D_Sign d < 0 \<longleftrightarrow> 2 ^ 63 \<le> unat d"
proof -
  have "unat d div 2 ^ 63 < 2" using unat_less_64 [of d] by (intro less_mult_imp_div_less) simp
  then have "unat d div 2 ^ 63 mod 2 = unat d div 2 ^ 63" by (rule mod_less)
  then have "d AND D_kSignMask = 0 \<longleftrightarrow> unat d div 2 ^ 63 = 0"
    using D_fields(3) [of d] by (simp add: unat_eq_0_iff [symmetric])
  then show ?thesis by (auto simp: D_Sign_def div_eq_0_iff)
qed

lemma D_fields_abs: "unat d mod 2 ^ 63 = unat d div 2 ^ 52 mod 2 ^ 11 * 2 ^ 52 + unat d mod 2 ^ 52"
  using mod_mult2_eq [of "unat d" "2 ^ 52" "2 ^ 11"] by simp

lemma D_IsNan_rank: "D_IsNan d \<longleftrightarrow> D_inf_rank < unat d mod 2 ^ 63"
proof -
  have "d AND D_kExponentMask = D_kExponentMask \<longleftrightarrow> unat d div 2 ^ 52 mod 2 ^ 11 * 2 ^ 52 = 0x7FF * 2 ^ 52"
    unfolding word_unat_eq_iff D_fields(1) by (simp add: D_kExponentMask_def)
  then have e: "d AND D_kExponentMask = D_kExponentMask \<longleftrightarrow> unat d div 2 ^ 52 mod 2 ^ 11 = 0x7FF" by simp
  have m: "d AND D_kSignificandMask = 0 \<longleftrightarrow> unat d mod 2 ^ 52 = 0" by (simp only: unat_eq_0_iff [symmetric] D_fields)
  have "unat d div 2 ^ 52 mod 2 ^ 11 < 2 ^ 11" "unat d mod 2 ^ 52 < 2 ^ 52" by simp_all
  then show ?thesis unfolding D_IsNan_def e m D_fields_abs by simp linarith
qed

lemma D_Significand_zero: "D_Significand d = 0 \<longleftrightarrow> unat d mod 2 ^ 63 = 0"
proof -
  have m: "unat (d AND D_kSignificandMask) = unat d mod 2 ^ 52" "unat d mod 2 ^ 52 < 2 ^ 52" by (simp_all only: D_fields) simp
  have "unat D_kHiddenBit = 2 ^ 52" by (simp add: D_kHiddenBit_def)
  then have "unat ((d AND D_kSignificandMask) + D_kHiddenBit) = unat d mod 2 ^ 52 + 2 ^ 52" using m by (subst unat_add_small) simp_all
  then have normal: "(d AND D_kSignificandMask) + D_kHiddenBit \<noteq> 0" by (auto simp: unat_eq_0_iff [symmetric])
  have den: "D_IsDenormal d \<longleftrightarrow> unat d div 2 ^ 52 mod 2 ^ 11 = 0"
    unfolding D_IsDenormal_def unat_eq_0_iff [symmetric] D_fields by simp
  have sig: "d AND D_kSignificandMask = 0 \<longleftrightarrow> unat d mod 2 ^ 52 = 0" by (simp only: unat_eq_0_iff [symmetric] D_fields)
  show ?thesis unfolding D_fields_abs using normal den sig by (auto simp: D_Significand_def Let_def)
qed

text \<open>The doubles that are not NaNs: rank and sign.\<close>

lemma D_rank_cases:
  assumes "\<not> D_IsNan d"
  obtains (pos) "unat d \<le> D_inf_rank" "D_real d = D_val (unat d)" "\<not> D_Sign d < 0"
  | (neg) r where "unat d = 2 ^ 63 + r" "r \<le> D_inf_rank" "D_real d = - D_val r" "D_Sign d < 0"
proof (cases "2 ^ 63 \<le> unat d")
  case True
  define r where "r = unat d - 2 ^ 63"
  have r: "unat d = 2 ^ 63 + r" "r < 2 ^ 63" using True unat_less_64 [of d] by (simp_all add: r_def)
  then have "unat d mod 2 ^ 63 = r" by simp
  then show thesis using assms r True unfolding D_IsNan_rank by (intro neg [of r]) (simp_all add: D_real_def D_negative D_abs)
next
  case False
  then have "unat d mod 2 ^ 63 = unat d" by simp
  then show thesis using assms False unfolding D_IsNan_rank by (intro pos) (simp_all add: D_real_def D_negative D_abs)
qed

lemma D_real_rank:
  "unat d \<le> D_inf_rank \<Longrightarrow> D_real d = D_val (unat d)"
  "unat d = 2 ^ 63 + r \<Longrightarrow> r \<le> D_inf_rank \<Longrightarrow> D_real d = - D_val r"
proof -
  assume "unat d \<le> D_inf_rank"
  then have "unat d < 2 ^ 63" by simp
  then show "D_real d = D_val (unat d)" by (simp add: D_real_def D_negative D_abs)
next
  assume d: "unat d = 2 ^ 63 + r" "r \<le> D_inf_rank"
  then have "unat d mod 2 ^ 63 = r" "2 ^ 63 \<le> unat d" by simp_all
  then show "D_real d = - D_val r" by (simp only: D_real_def D_negative D_abs if_True)
qed

lemma NextDouble_order:
  assumes d: "\<not> D_IsNan d" "d \<noteq> D_kInfinity"
  shows "\<not> D_IsNan (D_NextDouble d)" "D_before d (D_NextDouble d)"
    and "unat d < D_inf_rank \<and> unat (D_NextDouble d) = Suc (unat d) \<or> d = D_kSignMask \<and> D_NextDouble d = 0 \<or>
      (\<exists>r. r < D_inf_rank \<and> unat d = 2 ^ 63 + Suc r \<and> unat (D_NextDouble d) = 2 ^ 63 + r)"
proof -
  have inf: "unat d \<noteq> D_inf_rank" using d(2) by (auto simp: word_unat_eq_iff D_kInfinity_def)
  have sm: "unat D_kSignMask = 2 ^ 63" by (simp add: D_kSignMask_def)
  show "unat d < D_inf_rank \<and> unat (D_NextDouble d) = Suc (unat d) \<or> d = D_kSignMask \<and> D_NextDouble d = 0 \<or>
      (\<exists>r. r < D_inf_rank \<and> unat d = 2 ^ 63 + Suc r \<and> unat (D_NextDouble d) = 2 ^ 63 + r)"
  proof (rule D_rank_cases [OF d(1)], goal_cases)
    case 1
    then have lt: "unat d < D_inf_rank" using inf by simp
    have "unat (d + 1) = Suc (unat d)" using lt by (subst unat_add_small) simp_all
    then show ?case using lt 1 d(2) by (simp add: D_NextDouble_def)
  next
    case (2 r)
    have m: "unat d mod 2 ^ 63 = r" using 2(1,2) by simp
    show ?case
    proof (cases r)
      case 0
      then have "d = D_kSignMask" using 2(1) sm by (simp add: word_unat_eq_iff)
      then show ?thesis using 0 m 2(4) d(2) D_Significand_zero [of d] by (simp add: D_NextDouble_def)
    next
      case (Suc q)
      have "unat (d - 1) = 2 ^ 63 + q" using 2(1) Suc by (subst unat_sub_small) simp_all
      moreover have "D_NextDouble d = d - 1" using m Suc 2(4) d(2) D_Significand_zero [of d] by (simp add: D_NextDouble_def)
      ultimately show ?thesis using 2(1,2) Suc by (intro disjI2 exI [of _ q]) simp
    qed
  qed
  note cases = this
  show "\<not> D_IsNan (D_NextDouble d)" unfolding D_IsNan_rank using cases by auto
  consider "unat d < D_inf_rank" "unat (D_NextDouble d) = Suc (unat d)" | "d = D_kSignMask" "D_NextDouble d = 0"
    | r where "r < D_inf_rank" "unat d = 2 ^ 63 + Suc r" "unat (D_NextDouble d) = 2 ^ 63 + r" using cases by blast
  then show "D_before d (D_NextDouble d)"
  proof cases
    case 1
    then show ?thesis using D_real_rank(1) [of d] D_real_rank(1) [of "D_NextDouble d"] by (simp add: D_before_def rank_val_less_iff)
  next
    case 2
    then show ?thesis by (simp add: D_before_def)
  next
    case (3 r)
    have "D_real d = - D_val (Suc r)" "D_real (D_NextDouble d) = - D_val r"
      using D_real_rank(2) [OF 3(2)] D_real_rank(2) [OF 3(3)] 3(1) by simp_all
    then show ?thesis by (simp add: D_before_def rank_val_less_iff)
  qed
qed

lemma NextDouble_between:
  assumes d: "\<not> D_IsNan d" "d \<noteq> D_kInfinity" and w: "\<not> D_IsNan w"
  shows "\<not> (D_before d w \<and> D_before w (D_NextDouble d))"
proof -
  have pos: "\<not> D_val n < - D_val m" "\<not> D_val n < 0" "\<not> 0 < - D_val n" for m n
    using rank_val_nonneg [of 52 "-1074" n] rank_val_nonneg [of 52 "-1074" m] by simp_all
  have sm: "unat D_kSignMask = 2 ^ 63" by (simp add: D_kSignMask_def)
  have zero: "D_real D_kSignMask = 0" "D_real 0 = 0" using D_real_rank(2) [of D_kSignMask 0] D_real_rank(1) [of 0] sm by simp_all
  from NextDouble_order(3) [OF d] consider "unat d < D_inf_rank" "unat (D_NextDouble d) = Suc (unat d)" |
    "d = D_kSignMask" "D_NextDouble d = 0" |
    r where "r < D_inf_rank" "unat d = 2 ^ 63 + Suc r" "unat (D_NextDouble d) = 2 ^ 63 + r" by blast
  then show ?thesis
  proof cases
    case 1
    have n: "D_real d = D_val (unat d)" "D_real (D_NextDouble d) = D_val (Suc (unat d))" "d \<noteq> D_kSignMask" "D_NextDouble d \<noteq> 0"
      using 1 D_real_rank(1) [of d] D_real_rank(1) [of "D_NextDouble d"] sm by auto
    show ?thesis using w by (rule D_rank_cases) (use n pos in \<open>auto simp: D_before_def rank_val_less_iff\<close>)
  next
    case 2
    then show ?thesis using zero by (auto simp: D_before_def D_kSignMask_def)
  next
    case (3 r)
    have n: "D_real d = - D_val (Suc r)" "D_real (D_NextDouble d) = - D_val r" "d \<noteq> D_kSignMask" "D_NextDouble d \<noteq> 0"
      using D_real_rank(2) [OF 3(2)] D_real_rank(2) [OF 3(3)] 3 sm by auto
    show ?thesis using w by (rule D_rank_cases) (use n pos in \<open>auto simp: D_before_def rank_val_less_iff\<close>)
  qed
qed

lemma NextDouble_ulp:
  assumes "\<not> D_IsNan d" "d \<noteq> D_kInfinity" "D_Sign d > 0"
  shows "D_real (D_NextDouble d) = D_real d + 2 powi D_Exponent d"
proof -
  have "\<not> 2 ^ 63 \<le> unat d" using assms(3) D_negative [of d] by simp
  then have n: "unat d < D_inf_rank" "unat (D_NextDouble d) = Suc (unat d)"
    using NextDouble_order(3) [OF assms(1,2)] by (auto simp: D_kSignMask_def)
  then show ?thesis by (simp add: D_real_def D_negative D_abs rank_val_Suc D_expo_rank)
qed

section \<open>Properties\<close>

text \<open>
  C32: converting a finite \<open>double\<close> that is not negative to a \<open>DiyFp\<close> and back gives the same bits.
\<close>

theorem double_diy_round_trip:
  assumes "unat d < D_inf_rank"
  shows "Option.bind (D_AsDiyFp d) DiyFpToUint64 = Some d"
proof -
  let ?v = "mk_diy (D_Significand d) (D_Exponent d)"
  have f: "unat (diy_f ?v) < 2 ^ 53" using double.sig_less [OF assms] by (simp add: mk_diy_def)
  have e: "-1074 \<le> diy_e ?v" "diy_e ?v < 972" using D_exponent_bounds [OF assms] by (simp_all add: mk_diy_def)
  from DiyFpToUint64_exact_small [OF f e] obtain r where
    r: "DiyFpToUint64 ?v = Some r" "unat r < D_inf_rank" "D_val (unat r) = D_val (unat d)"
    by (auto simp: D_diy_val [OF assms] elim: returnsE)
  then have "unat r = unat d" using rank_val_less_iff [of 52 "-1074"] by (metis linorder_neqE_nat less_irrefl)
  then have "r = d" by (simp add: word_unat_eq_iff)
  with r(1) show ?thesis by (simp add: D_AsDiyFp_eq [OF assms])
qed

theorem double_diy_round_trip_witness: "Option.bind (D_AsDiyFp 0x3FF8000000000000) DiyFpToUint64 = Some 0x3FF8000000000000"
  using double_diy_round_trip [of "0x3FF8000000000000"] by simp

text \<open>
  C33: \<open>NextDouble\<close> of any \<open>double\<close> that is not a NaN is the next one in the order of the numbers, with \<open>-0.0\<close> before \<open>0.0\<close> and
  the infinities at the ends: infinity stays as it is; otherwise the result is not a NaN, it comes behind the given number, and no
  \<open>double\<close> lies between. For numbers that are not negative the difference is one unit in the last place.
\<close>

theorem next_double_is_successor:
  assumes "\<not> D_IsNan d"
  shows "if d = D_kInfinity then D_NextDouble d = D_kInfinity
    else \<not> D_IsNan (D_NextDouble d) \<and> D_before d (D_NextDouble d) \<and>
      (\<forall>w. \<not> D_IsNan w \<longrightarrow> \<not> (D_before d w \<and> D_before w (D_NextDouble d))) \<and>
      (D_Sign d > 0 \<longrightarrow> D_real (D_NextDouble d) = D_real d + 2 powi D_Exponent d)"
proof (cases "d = D_kInfinity")
  case True
  then show ?thesis by (simp add: D_NextDouble_def)
next
  case False
  then show ?thesis using NextDouble_order(1,2) [OF assms False] NextDouble_between [OF assms False] NextDouble_ulp [OF assms False] by auto
qed

theorem next_double_is_successor_witness:
  "\<not> D_IsNan (D_NextDouble 0x8000000000000000) \<and> D_before 0x8000000000000000 (D_NextDouble 0x8000000000000000)"
proof -
  have "\<not> D_IsNan 0x8000000000000000" "(0x8000000000000000 :: double) \<noteq> D_kInfinity"
    by (simp_all add: D_IsNan_def D_kExponentMask_def D_kInfinity_def)
  then show ?thesis using next_double_is_successor [of "0x8000000000000000"] by simp
qed

text \<open>
  C34: the boundaries of a positive finite \<open>double\<close> are the midpoints to its two neighbours; the upper one is
  normalized and both have the same exponent. No significand overflows, and no assertion fails.
\<close>

theorem double_boundaries_are_midpoints:
  assumes "0 < unat d" "unat d < D_inf_rank"
  shows "returns (D_NormalizedBoundaries d) (\<lambda>(m_minus, m_plus). normalized m_plus \<and> diy_e m_minus = diy_e m_plus \<and>
    diy_val m_plus = (D_val (unat d) + D_val (Suc (unat d))) / 2 \<and>
    diy_val m_minus = (D_val (unat d - 1) + D_val (unat d)) / 2)"
  using assms by (rule D_NormalizedBoundaries_correct)

theorem double_boundaries_are_midpoints_witness:
  "returns (D_NormalizedBoundaries 3) (\<lambda>(m_minus, m_plus). normalized m_plus \<and> diy_e m_minus = diy_e m_plus \<and>
    diy_val m_plus = (D_val 3 + D_val 4) / 2 \<and> diy_val m_minus = (D_val 2 + D_val 3) / 2)"
  using double_boundaries_are_midpoints [of 3] by simp

text \<open>
  The same for \<open>Single\<close>, whose boundaries are computed in the 64-bit \<open>DiyFp\<close> too.
\<close>

theorem single_boundaries_are_midpoints:
  assumes "0 < unat d" "unat d < S_inf_rank"
  shows "returns (S_NormalizedBoundaries d) (\<lambda>(m_minus, m_plus). normalized m_plus \<and> diy_e m_minus = diy_e m_plus \<and>
    diy_val m_plus = (S_val (unat d) + S_val (Suc (unat d))) / 2 \<and>
    diy_val m_minus = (S_val (unat d - 1) + S_val (unat d)) / 2)"
  using assms by (rule S_NormalizedBoundaries_correct)

theorem single_boundaries_are_midpoints_witness:
  "returns (S_NormalizedBoundaries 3) (\<lambda>(m_minus, m_plus). normalized m_plus \<and> diy_e m_minus = diy_e m_plus \<and>
    diy_val m_plus = (S_val 3 + S_val 4) / 2 \<and> diy_val m_minus = (S_val 2 + S_val 3) / 2)"
  using single_boundaries_are_midpoints [of 3] by simp

end
