(* ===== verification/FixedDtoa.thy ===== *)
theory FixedDtoa
  imports Ieee Digits
begin

text \<open>
  \<open>double-conversion/fixed-dtoa.cc\<close>: the conversion of a \<open>double\<close> to a fixed number of digits after the point with
  64-bit and 128-bit integers. Every function is one definition; the buffer, its length and the decimal point are
  passed and returned.
\<close>

section \<open>UInt128\<close>

record uint128 =
  high_bits :: uint64
  low_bits :: uint64

definition kMask32 :: uint64 where
  "kMask32 = 0xFFFFFFFF"

definition U128_Multiply :: "uint128 \<Rightarrow> uint32 \<Rightarrow> uint128 result" where
  "U128_Multiply u multiplicand = do {
     let m = ucast multiplicand;
     let accumulator = (low_bits u AND kMask32) * m;
     let part = accumulator AND kMask32;
     let accumulator = drop_bit 32 accumulator;
     let accumulator = accumulator + drop_bit 32 (low_bits u) * m;
     let low = push_bit 32 accumulator + part;
     let accumulator = drop_bit 32 accumulator;
     let accumulator = accumulator + (high_bits u AND kMask32) * m;
     let part = accumulator AND kMask32;
     let accumulator = drop_bit 32 accumulator;
     let accumulator = accumulator + drop_bit 32 (high_bits u) * m;
     let high = push_bit 32 accumulator + part;
     check (drop_bit 32 accumulator = 0);
     Some \<lparr>high_bits = high, low_bits = low\<rparr>
   }"

definition U128_Shift :: "uint128 \<Rightarrow> int \<Rightarrow> uint128 result" where
  "U128_Shift u shift_amount = do {
     check (-64 \<le> shift_amount \<and> shift_amount \<le> 64);
     if shift_amount = 0 then Some u
     else if shift_amount = -64 then Some \<lparr>high_bits = low_bits u, low_bits = 0\<rparr>
     else if shift_amount = 64 then Some \<lparr>high_bits = 0, low_bits = high_bits u\<rparr>
     else if shift_amount \<le> 0 then
       Some \<lparr>high_bits = push_bit (nat (- shift_amount)) (high_bits u)
                         + drop_bit (nat (64 + shift_amount)) (low_bits u),
             low_bits = push_bit (nat (- shift_amount)) (low_bits u)\<rparr>
     else
       Some \<lparr>high_bits = drop_bit (nat shift_amount) (high_bits u),
             low_bits = drop_bit (nat shift_amount) (low_bits u)
                        + push_bit (nat (64 - shift_amount)) (high_bits u)\<rparr>
   }"

definition U128_DivModPowerOf2 :: "uint128 \<Rightarrow> nat \<Rightarrow> (int \<times> uint128) result" where
  "U128_DivModPowerOf2 u pow =
     (if pow \<ge> 64 then do {
        check (pow < 128);
        let r = to_int (drop_bit (pow - 64) (high_bits u));
        Some (r, u\<lparr>high_bits := high_bits u - push_bit (pow - 64) (of_int r)\<rparr>)
      } else do {
        check (pow > 0);
        let part_low = drop_bit pow (low_bits u);
        let part_high = push_bit (64 - pow) (high_bits u);
        let r = to_int (part_low + part_high);
        Some (r, \<lparr>high_bits = 0, low_bits = low_bits u - push_bit pow part_low\<rparr>)
      })"

definition U128_IsZero :: "uint128 \<Rightarrow> bool" where
  "U128_IsZero u \<longleftrightarrow> high_bits u = 0 \<and> low_bits u = 0"

definition U128_BitAt :: "uint128 \<Rightarrow> nat \<Rightarrow> uint64" where
  "U128_BitAt u position =
     (if position \<ge> 64 then drop_bit (position - 64) (high_bits u) AND 1
      else drop_bit position (low_bits u) AND 1)"

section \<open>Digits of integers\<close>

definition FillDigits32FixedLength :: "uint32 \<Rightarrow> nat \<Rightarrow> string \<times> nat \<Rightarrow> (string \<times> nat) result" where
  "FillDigits32FixedLength number requested_length = (\<lambda>(buffer, length). do {
     (buffer, number) \<leftarrow> for_down requested_length 0
       (\<lambda>i (buffer, number). do {
          buffer \<leftarrow> vset buffer (length + i) (digit_char (unat (number mod 10)));
          Some (buffer, number div 10) }) (buffer, number);
     Some (buffer, length + requested_length) })"

definition FillDigits32 :: "uint32 \<Rightarrow> string \<times> nat \<Rightarrow> (string \<times> nat) result" where
  "FillDigits32 number = (\<lambda>(buffer, length). do {
     (buffer, number, number_length) \<leftarrow> while_loop (\<lambda>(buffer, number, number_length). Some (number \<noteq> 0))
       (\<lambda>(buffer, number, number_length). do {
          let digit = number mod 10;
          buffer \<leftarrow> vset buffer (length + number_length) (digit_char (unat digit));
          Some (buffer, number div 10, number_length + 1) }) (buffer, number, 0);
     \<comment> \<open>\<open>j + 1\<close> is kept in place of \<open>j\<close>, which may be \<open>-1\<close>\<close>
     (buffer, i, j1) \<leftarrow> while_loop (\<lambda>(buffer, i, j1). Some (i + 1 < j1))
       (\<lambda>(buffer, i, j1). do {
          tmp \<leftarrow> vget buffer i;
          c \<leftarrow> vget buffer (j1 - 1);
          buffer \<leftarrow> vset buffer i c;
          buffer \<leftarrow> vset buffer (j1 - 1) tmp;
          Some (buffer, i + 1, j1 - 1) }) (buffer, length, length + number_length);
     Some (buffer, length + number_length) })"

definition kTen7 :: uint64 where
  "kTen7 = 10000000"

definition FillDigits64FixedLength :: "uint64 \<Rightarrow> string \<times> nat \<Rightarrow> (string \<times> nat) result" where
  "FillDigits64FixedLength number s = do {
     let part2 = ucast (number mod kTen7);
     let number = number div kTen7;
     let part1 = ucast (number mod kTen7);
     let part0 = ucast (number div kTen7);
     s \<leftarrow> FillDigits32FixedLength part0 3 s;
     s \<leftarrow> FillDigits32FixedLength part1 7 s;
     FillDigits32FixedLength part2 7 s
   }"

definition FillDigits64 :: "uint64 \<Rightarrow> string \<times> nat \<Rightarrow> (string \<times> nat) result" where
  "FillDigits64 number s = do {
     let part2 = ucast (number mod kTen7);
     let number = number div kTen7;
     let part1 = ucast (number mod kTen7);
     let part0 = ucast (number div kTen7);
     if part0 \<noteq> (0 :: uint32) then do {
       s \<leftarrow> FillDigits32 part0 s;
       s \<leftarrow> FillDigits32FixedLength part1 7 s;
       FillDigits32FixedLength part2 7 s
     } else if part1 \<noteq> (0 :: uint32) then do {
       s \<leftarrow> FillDigits32 part1 s;
       FillDigits32FixedLength part2 7 s
     } else FillDigits32 part2 s
   }"

section \<open>Rounding and fractions\<close>


definition RoundUp :: "string \<times> nat \<times> int \<Rightarrow> (string \<times> nat \<times> int) result" where
  "RoundUp = (\<lambda>(buffer, length, decimal_point).
     if length = 0 then do {
       buffer \<leftarrow> vset buffer 0 CHR ''1'';
       Some (buffer, 1, 1)
     } else do {
       buffer \<leftarrow> vincr buffer (length - 1);
       (buffer, i) \<leftarrow> while_loop
         (\<lambda>(buffer, i). if i > 0 then do { c \<leftarrow> vget buffer i; Some (c = digit_char 10) } else Some False)
         (\<lambda>(buffer, i). do {
            buffer \<leftarrow> vset buffer i CHR ''0'';
            buffer \<leftarrow> vincr buffer (i - 1);
            Some (buffer, i - 1) }) (buffer, length - 1);
       if i > 0 then Some (buffer, length, decimal_point)
       else do {
         c \<leftarrow> vget buffer 0;
         if c = digit_char 10 then do {
           buffer \<leftarrow> vset buffer 0 CHR ''1'';
           Some (buffer, length, decimal_point + 1)
         } else Some (buffer, length, decimal_point)
       }
     })"

text \<open>
  The digits of a fraction of at most 64 bits. The loop ends when the fraction is zero or all digits are written.
\<close>

definition fractional_loop ::
  "nat \<Rightarrow> uint64 \<times> int \<times> string \<times> nat \<Rightarrow> (uint64 \<times> int \<times> string \<times> nat) result" where
  "fractional_loop fractional_count = (\<lambda>(fractionals, point, buffer, length). do {
     (i, fractionals, point, buffer, length) \<leftarrow> while_loop
       (\<lambda>(i, fractionals, point, buffer, length). Some (i < fractional_count \<and> fractionals \<noteq> 0))
       (\<lambda>(i, fractionals, point, buffer, length). do {
          let fractionals = fractionals * 5;
          let point = point - 1;
          check (0 \<le> point \<and> point < 64);
          let digit = to_int (drop_bit (nat point) fractionals);
          check (digit \<le> 9);
          check (digit \<ge> 0);
          buffer \<leftarrow> vset buffer length (digit_char (nat digit));
          Some (i + 1, fractionals - push_bit (nat point) (of_int digit), point, buffer, length + 1) })
       (0, fractionals, point, buffer, length);
     Some (fractionals, point, buffer, length) })"

definition fractional_loop128 ::
  "nat \<Rightarrow> uint128 \<times> nat \<times> string \<times> nat \<Rightarrow> (uint128 \<times> nat \<times> string \<times> nat) result" where
  "fractional_loop128 fractional_count = (\<lambda>(fractionals128, point, buffer, length). do {
     (i, fractionals128, point, buffer, length) \<leftarrow> while_loop
       (\<lambda>(i, fractionals128, point, buffer, length). Some (i < fractional_count \<and> \<not> U128_IsZero fractionals128))
       (\<lambda>(i, fractionals128, point, buffer, length). do {
          fractionals128 \<leftarrow> U128_Multiply fractionals128 5;
          check (point > 0);
          let point = point - 1;
          (digit, fractionals128) \<leftarrow> U128_DivModPowerOf2 fractionals128 point;
          check (digit \<le> 9);
          check (digit \<ge> 0);
          buffer \<leftarrow> vset buffer length (digit_char (nat digit));
          Some (i + 1, fractionals128, point, buffer, length + 1) })
       (0, fractionals128, point, buffer, length);
     Some (fractionals128, point, buffer, length) })"

text \<open>
  The last test shifts by \<open>point - 1\<close>, which is \<open>-1\<close> where the digits use the fraction up to its last bit. The language
  does not define such a shift.
\<close>

definition FillFractionals ::
  "uint64 \<Rightarrow> int \<Rightarrow> nat \<Rightarrow> string \<times> nat \<times> int \<Rightarrow> (string \<times> nat \<times> int) result" where
  "FillFractionals fractionals exponent fractional_count = (\<lambda>(buffer, length, decimal_point). do {
     check (-128 \<le> exponent \<and> exponent \<le> 0);
     if - exponent \<le> 64 then do {
       check (drop_bit 56 fractionals = 0);
       (fractionals, point, buffer, length) \<leftarrow>
         fractional_loop fractional_count (fractionals, - exponent, buffer, length);
       check (0 \<le> point - 1 \<and> point - 1 < 64);
       if drop_bit (nat (point - 1)) fractionals AND 1 = 1
       then RoundUp (buffer, length, decimal_point)
       else Some (buffer, length, decimal_point)
     } else do {
       check (64 < - exponent \<and> - exponent \<le> 128);
       fractionals128 \<leftarrow> U128_Shift \<lparr>high_bits = fractionals, low_bits = 0\<rparr> (- exponent - 64);
       (fractionals128, point, buffer, length) \<leftarrow>
         fractional_loop128 fractional_count (fractionals128, 128, buffer, length);
       check (point > 0);
       if U128_BitAt fractionals128 (point - 1) = 1
       then RoundUp (buffer, length, decimal_point)
       else Some (buffer, length, decimal_point)
     } })"

definition TrimZeros :: "string \<times> nat \<times> int \<Rightarrow> (string \<times> nat \<times> int) result" where
  "TrimZeros = (\<lambda>(buffer, length, decimal_point). do {
     length \<leftarrow> while_loop
       (\<lambda>length. if length > 0 then do { c \<leftarrow> vget buffer (length - 1); Some (c = CHR ''0'') } else Some False)
       (\<lambda>length. Some (length - 1)) length;
     first_non_zero \<leftarrow> while_loop
       (\<lambda>first_non_zero. if first_non_zero < length
          then do { c \<leftarrow> vget buffer first_non_zero; Some (c = CHR ''0'') } else Some False)
       (\<lambda>first_non_zero. Some (first_non_zero + 1)) 0;
     if first_non_zero \<noteq> 0 then do {
       buffer \<leftarrow> for_up first_non_zero length
         (\<lambda>i buffer. do { c \<leftarrow> vget buffer i; vset buffer (i - first_non_zero) c }) buffer;
       Some (buffer, length - first_non_zero, decimal_point - int first_non_zero)
     } else Some (buffer, length, decimal_point) })"

section \<open>The conversion\<close>

definition kFive17 :: uint64 where
  "kFive17 = 0xB1A2BC2EC5"

definition fixed_large :: "uint64 \<Rightarrow> int \<Rightarrow> string \<Rightarrow> (string \<times> nat \<times> int) result" where
  "fixed_large significand exponent buffer = do {
     let divisor_power = 17;
     (quotient, remainder) \<leftarrow>
       (if exponent > divisor_power then do {
          let dividend = push_bit (nat (exponent - divisor_power)) significand;
          Some (ucast (dividend div kFive17) :: uint32, push_bit 17 (dividend mod kFive17))
        } else do {
          let divisor = push_bit (nat (divisor_power - exponent)) kFive17;
          Some (ucast (significand div divisor), push_bit (nat exponent) (significand mod divisor))
        });
     (buffer, length) \<leftarrow> FillDigits32 quotient (buffer, 0);
     (buffer, length) \<leftarrow> FillDigits64FixedLength remainder (buffer, length);
     Some (buffer, length, int length)
   }"

definition FastFixedDtoa :: "double \<Rightarrow> int \<Rightarrow> string \<Rightarrow> (bool \<times> string \<times> nat \<times> int) result" where
  "FastFixedDtoa v fractional_count buffer =
     (let significand = D_Significand v; exponent = D_Exponent v in
      if exponent > 20 then Some (False, buffer, 0, 0)
      else if fractional_count > 20 then Some (False, buffer, 0, 0)
      else do {
        (buffer, length, decimal_point) \<leftarrow>
          (if exponent + int D_kSignificandSize > 64 then fixed_large significand exponent buffer
           else if exponent \<ge> 0 then do {
             (buffer, length) \<leftarrow> FillDigits64 (push_bit (nat exponent) significand) (buffer, 0);
             Some (buffer, length, int length)
           } else if exponent > - int D_kSignificandSize then do {
             let integrals = drop_bit (nat (- exponent)) significand;
             let fractionals = significand - push_bit (nat (- exponent)) integrals;
             (buffer, length) \<leftarrow> (if integrals > 0xFFFFFFFF then FillDigits64 integrals (buffer, 0)
                                 else FillDigits32 (ucast integrals) (buffer, 0));
             FillFractionals fractionals exponent (nat fractional_count) (buffer, length, int length)
           } else if exponent < -128 then do {
             check (fractional_count \<le> 20);
             buffer \<leftarrow> vset buffer 0 (CHR 0x00);
             Some (buffer, 0, - fractional_count)
           } else FillFractionals significand exponent (nat fractional_count) (buffer, 0, 0));
        (buffer, length, decimal_point) \<leftarrow> TrimZeros (buffer, length, decimal_point);
        buffer \<leftarrow> vset buffer length (CHR 0x00);
        Some (True, buffer, length, if length = 0 then - fractional_count else decimal_point)
      })"

end
