(* ===== verification/FloatOps.thy ===== *)
theory FloatOps
  imports Ieee Rounding
begin

text \<open>
  The arithmetic and the conversions of \<open>double\<close> and \<open>float\<close> that the library leaves to the language: products,
  quotients, \<open>static_cast<float>\<close>, and integers as doubles. IEEE arithmetic returns the float nearest to the exact
  result, ties to even; \<open>round_rank\<close> computes it for a ratio of natural numbers, in a format with \<open>p\<close> stored
  significand bits, the smallest exponent \<open>emin\<close> and the bits \<open>inf_rank\<close> of infinity.
\<close>

definition ratio_exponent :: "nat \<Rightarrow> nat \<Rightarrow> int" where
  "ratio_exponent num den =
     (let k = int (bit_length num) - int (bit_length den) in
      if num * 2 ^ nat (- k) \<ge> den * 2 ^ nat k then k else k - 1)"

definition round_rank :: "nat \<Rightarrow> int \<Rightarrow> nat \<Rightarrow> nat \<Rightarrow> nat \<Rightarrow> nat" where
  "round_rank p emin inf_rank num den =
     (if num = 0 then 0
      else (let q = max emin (ratio_exponent num den - int p);
                m = round_half_even (num * 2 ^ nat (- q)) (den * 2 ^ nat q)
            in min inf_rank (nat (q - emin) * 2 ^ p + m)))"

definition round_double :: "nat \<Rightarrow> nat \<Rightarrow> double" where
  "round_double num den = of_nat (round_rank 52 (-1074) (0x7FF * 2 ^ 52) num den)"

definition round_single :: "nat \<Rightarrow> nat \<Rightarrow> single" where
  "round_single num den = of_nat (round_rank 23 (-149) (0xFF * 2 ^ 23) num den)"

text \<open>A finite \<open>double\<close> that is not negative, as a ratio.\<close>

definition D_num :: "double \<Rightarrow> nat" where
  "D_num d = unat (D_Significand d) * 2 ^ nat (D_Exponent d)"

definition D_den :: "double \<Rightarrow> nat" where
  "D_den d = 2 ^ nat (- D_Exponent d)"

text \<open>Products and quotients of finite doubles that are not negative; the divisor is not zero.\<close>

definition double_mult :: "double \<Rightarrow> double \<Rightarrow> double" where
  "double_mult a b = round_double (D_num a * D_num b) (D_den a * D_den b)"

definition double_divide :: "double \<Rightarrow> double \<Rightarrow> double" where
  "double_divide a b = round_double (D_num a * D_den b) (D_den a * D_num b)"

definition double_of_uint64 :: "uint64 \<Rightarrow> double" where
  "double_of_uint64 w = round_double (unat w) 1"

text \<open>\<open>static_cast<int64_t>(d)\<close> for a \<open>double\<close> that is not negative and below \<open>2 ^ 63\<close>: the fraction is cut off.\<close>

definition uint64_of_double :: "double \<Rightarrow> uint64" where
  "uint64_of_double d =
     (if D_Exponent d \<ge> 0 then push_bit (nat (D_Exponent d)) (D_Significand d)
      else drop_bit (nat (- D_Exponent d)) (D_Significand d))"

text \<open>\<open>static_cast<float>(d)\<close> and the exact conversion back.\<close>

definition double_to_single :: "double \<Rightarrow> single" where
  "double_to_single d =
     (let sign = (if D_Sign d < 0 then S_kSignMask else 0) in
      if D_IsNan d then sign OR S_kNaN
      else if D_IsInfinite d then sign OR S_kInfinity
      else sign OR round_single (D_num d) (D_den d))"

definition single_to_double :: "single \<Rightarrow> double" where
  "single_to_double f =
     (let sign = (if S_Sign f < 0 then D_kSignMask else 0) in
      if S_IsNan f then sign OR D_kNaN
      else if S_IsInfinite f then sign OR D_kInfinity
      else sign OR round_double (unat (S_Significand f) * 2 ^ nat (S_Exponent f)) (2 ^ nat (- S_Exponent f)))"

text \<open>
  Comparisons: a NaN is not equal to and not below anything, the zeros are equal, and other floats are ordered by their
  bits without the sign.
\<close>

definition double_order :: "double \<Rightarrow> int" where
  "double_order d = D_Sign d * int (unat (d AND NOT D_kSignMask))"

definition double_eq :: "double \<Rightarrow> double \<Rightarrow> bool" where
  "double_eq a b \<longleftrightarrow> \<not> D_IsNan a \<and> \<not> D_IsNan b \<and> double_order a = double_order b"

definition double_less :: "double \<Rightarrow> double \<Rightarrow> bool" where
  "double_less a b \<longleftrightarrow> \<not> D_IsNan a \<and> \<not> D_IsNan b \<and> double_order a < double_order b"

definition double_le :: "double \<Rightarrow> double \<Rightarrow> bool" where
  "double_le a b \<longleftrightarrow> \<not> D_IsNan a \<and> \<not> D_IsNan b \<and> double_order a \<le> double_order b"

definition single_order :: "single \<Rightarrow> int" where
  "single_order f = S_Sign f * int (unat (f AND NOT S_kSignMask))"

definition single_eq :: "single \<Rightarrow> single \<Rightarrow> bool" where
  "single_eq a b \<longleftrightarrow> \<not> S_IsNan a \<and> \<not> S_IsNan b \<and> single_order a = single_order b"

definition single_le :: "single \<Rightarrow> single \<Rightarrow> bool" where
  "single_le a b \<longleftrightarrow> \<not> S_IsNan a \<and> \<not> S_IsNan b \<and> single_order a \<le> single_order b"

text \<open>Unary minus flips the sign bit.\<close>

definition double_minus :: "double \<Rightarrow> double" where
  "double_minus d = d XOR D_kSignMask"

end
