(* ===== verification/BignumDtoa.thy ===== *)
theory BignumDtoa
  imports Bignum_Div FloatOps Digits
begin

text \<open>
  \<open>double-conversion/bignum-dtoa.cc\<close>: the conversion of a \<open>double\<close> to digits with \<open>Bignum\<close> arithmetic. Every
  function is one definition. The four numbers that the functions pass by pointer are the record \<open>scaled_start\<close>; the
  digits and the decimal point are returned.
\<close>

datatype BignumDtoaMode =
    BIGNUM_DTOA_SHORTEST
  | BIGNUM_DTOA_SHORTEST_SINGLE
  | BIGNUM_DTOA_FIXED
  | BIGNUM_DTOA_PRECISION

record scaled_start =
  numerator :: bignum
  denominator :: bignum
  delta_minus :: bignum
  delta_plus :: bignum

definition NormalizedExponent :: "uint64 \<Rightarrow> int \<Rightarrow> int result" where
  "NormalizedExponent significand e = do {
     check (significand \<noteq> 0);
     (significand, e) \<leftarrow> while_loop (\<lambda>(significand, e). Some (significand AND D_kHiddenBit = 0))
       (\<lambda>(significand, e). Some (push_bit 1 significand, e - 1)) (significand, e);
     Some e
   }"

text \<open>
  \<open>ceil((exponent + kSignificandSize - 1) * k1Log10 - 1e-10)\<close> in \<open>double\<close> arithmetic. The double closest to 1e-10 is
  \<open>one_e_minus_10 * 2 ^ -86\<close>; the product is a multiple of \<open>2 ^ -53\<close> and the difference one of \<open>2 ^ -86\<close>.
\<close>

definition one_e_minus_10 :: int where
  "one_e_minus_10 = 7737125245533627"

definition EstimatePower :: "int \<Rightarrow> int" where
  "EstimatePower e =
     (let product = round53 ((e + int D_kSignificandSize - 1) * log10_2_num);
          difference = round53 (product * 2 ^ 33 - one_e_minus_10)
      in - ((- difference) div 2 ^ 86))"

section \<open>The start values\<close>

definition InitialScaledStartValuesPositiveExponent ::
  "uint64 \<Rightarrow> int \<Rightarrow> int \<Rightarrow> bool \<Rightarrow> scaled_start \<Rightarrow> scaled_start result" where
  "InitialScaledStartValuesPositiveExponent significand e estimated_power need_boundary_deltas s = do {
     check (estimated_power \<ge> 0);
     num \<leftarrow> AssignUInt64 (numerator s) significand;
     num \<leftarrow> ShiftLeft num (nat e);
     den \<leftarrow> AssignPowerUInt16 (denominator s) 10 (nat estimated_power);
     if need_boundary_deltas then do {
       den \<leftarrow> ShiftLeft den 1;
       num \<leftarrow> ShiftLeft num 1;
       plus \<leftarrow> AssignUInt16 (delta_plus s) 1;
       plus \<leftarrow> ShiftLeft plus (nat e);
       minus \<leftarrow> AssignUInt16 (delta_minus s) 1;
       minus \<leftarrow> ShiftLeft minus (nat e);
       Some \<lparr>numerator = num, denominator = den, delta_minus = minus, delta_plus = plus\<rparr>
     } else Some (s\<lparr>numerator := num, denominator := den\<rparr>)
   }"

definition InitialScaledStartValuesNegativeExponentPositivePower ::
  "uint64 \<Rightarrow> int \<Rightarrow> int \<Rightarrow> bool \<Rightarrow> scaled_start \<Rightarrow> scaled_start result" where
  "InitialScaledStartValuesNegativeExponentPositivePower significand e estimated_power need_boundary_deltas s = do {
     num \<leftarrow> AssignUInt64 (numerator s) significand;
     den \<leftarrow> AssignPowerUInt16 (denominator s) 10 (nat estimated_power);
     den \<leftarrow> ShiftLeft den (nat (- e));
     if need_boundary_deltas then do {
       den \<leftarrow> ShiftLeft den 1;
       num \<leftarrow> ShiftLeft num 1;
       plus \<leftarrow> AssignUInt16 (delta_plus s) 1;
       minus \<leftarrow> AssignUInt16 (delta_minus s) 1;
       Some \<lparr>numerator = num, denominator = den, delta_minus = minus, delta_plus = plus\<rparr>
     } else Some (s\<lparr>numerator := num, denominator := den\<rparr>)
   }"

definition InitialScaledStartValuesNegativeExponentNegativePower ::
  "uint64 \<Rightarrow> int \<Rightarrow> int \<Rightarrow> bool \<Rightarrow> scaled_start \<Rightarrow> scaled_start result" where
  "InitialScaledStartValuesNegativeExponentNegativePower significand e estimated_power need_boundary_deltas s = do {
     power_ten \<leftarrow> AssignPowerUInt16 (numerator s) 10 (nat (- estimated_power));
     (plus, minus) \<leftarrow> (if need_boundary_deltas then do {
         plus \<leftarrow> AssignBignum (delta_plus s) power_ten;
         minus \<leftarrow> AssignBignum (delta_minus s) power_ten;
         Some (plus, minus)
       } else Some (delta_plus s, delta_minus s));
     num \<leftarrow> MultiplyByUInt64 power_ten significand;
     den \<leftarrow> AssignUInt16 (denominator s) 1;
     den \<leftarrow> ShiftLeft den (nat (- e));
     if need_boundary_deltas then do {
       num \<leftarrow> ShiftLeft num 1;
       den \<leftarrow> ShiftLeft den 1;
       Some \<lparr>numerator = num, denominator = den, delta_minus = minus, delta_plus = plus\<rparr>
     } else Some \<lparr>numerator = num, denominator = den, delta_minus = minus, delta_plus = plus\<rparr>
   }"

definition InitialScaledStartValues ::
  "uint64 \<Rightarrow> int \<Rightarrow> bool \<Rightarrow> int \<Rightarrow> bool \<Rightarrow> scaled_start \<Rightarrow> scaled_start result" where
  "InitialScaledStartValues significand e lower_boundary_is_closer estimated_power need_boundary_deltas s = do {
     s \<leftarrow> (if e \<ge> 0
           then InitialScaledStartValuesPositiveExponent significand e estimated_power need_boundary_deltas s
           else if estimated_power \<ge> 0
           then InitialScaledStartValuesNegativeExponentPositivePower significand e estimated_power need_boundary_deltas s
           else InitialScaledStartValuesNegativeExponentNegativePower significand e estimated_power
                  need_boundary_deltas s);
     if need_boundary_deltas \<and> lower_boundary_is_closer then do {
       den \<leftarrow> ShiftLeft (denominator s) 1;
       num \<leftarrow> ShiftLeft (numerator s) 1;
       plus \<leftarrow> ShiftLeft (delta_plus s) 1;
       Some (s\<lparr>numerator := num, denominator := den, delta_plus := plus\<rparr>)
     } else Some s
   }"

definition FixupMultiply10 :: "int \<Rightarrow> bool \<Rightarrow> scaled_start \<Rightarrow> (int \<times> scaled_start) result" where
  "FixupMultiply10 estimated_power is_even s = do {
     c \<leftarrow> PlusCompare (numerator s) (delta_plus s) (denominator s);
     let in_range = (if is_even then c \<ge> 0 else c > 0);
     if in_range then Some (estimated_power + 1, s)
     else do {
       num \<leftarrow> Times10 (numerator s);
       eq \<leftarrow> Equal (delta_minus s) (delta_plus s);
       if eq then do {
         minus \<leftarrow> Times10 (delta_minus s);
         plus \<leftarrow> AssignBignum (delta_plus s) minus;
         Some (estimated_power, s\<lparr>numerator := num, delta_minus := minus, delta_plus := plus\<rparr>)
       } else do {
         minus \<leftarrow> Times10 (delta_minus s);
         plus \<leftarrow> Times10 (delta_plus s);
         Some (estimated_power, s\<lparr>numerator := num, delta_minus := minus, delta_plus := plus\<rparr>)
       }
     }
   }"

section \<open>Digit generation\<close>

text \<open>
  The rounding step that ends \<open>GenerateShortestDigits\<close>: the last digit stays or is incremented.
\<close>

definition round_last_up :: "string \<times> nat \<Rightarrow> (string \<times> nat) result" where
  "round_last_up = (\<lambda>(buffer, length). do {
     check (length > 0);
     c \<leftarrow> vget buffer (length - 1);
     check (c \<noteq> CHR ''9'');
     buffer \<leftarrow> vincr buffer (length - 1);
     Some (buffer, length) })"

definition shortest_stop ::
  "bool \<Rightarrow> bool \<Rightarrow> bignum \<Rightarrow> bignum \<Rightarrow> string \<times> nat \<Rightarrow> (string \<times> nat) result" where
  "shortest_stop in_delta_room_minus in_delta_room_plus num den = (\<lambda>(buffer, length).
     if in_delta_room_minus \<and> in_delta_room_plus then do {
       compare \<leftarrow> PlusCompare num num den;
       if compare < 0 then Some (buffer, length)
       else if compare > 0 then round_last_up (buffer, length)
       else do {
         check (length > 0);
         c \<leftarrow> vget buffer (length - 1);
         if (of_char c - 48 :: int) mod 2 = 0 then Some (buffer, length)
         else round_last_up (buffer, length)
       }
     } else if in_delta_room_minus then Some (buffer, length)
     else round_last_up (buffer, length))"

text \<open>
  The state of the loop of \<open>GenerateShortestDigits\<close>: \<open>delta_plus\<close> is \<open>None\<close> when it is the same object as
  \<open>delta_minus\<close>. The loop ends through one of its \<open>return\<close> statements.
\<close>

record shortest_state =
  sh_numerator :: bignum
  sh_minus :: bignum
  sh_plus :: "bignum option"
  sh_buffer :: string
  sh_length :: nat
  sh_done :: bool

definition plus_of :: "shortest_state \<Rightarrow> bignum" where
  "plus_of s = (case sh_plus s of None \<Rightarrow> sh_minus s | Some b \<Rightarrow> b)"

definition shortest_step :: "bignum \<Rightarrow> bool \<Rightarrow> shortest_state \<Rightarrow> shortest_state result" where
  "shortest_step den is_even s = do {
     (digit, num) \<leftarrow> DivideModuloIntBignum (sh_numerator s) den;
     check (digit \<le> 9);
     buffer \<leftarrow> vset (sh_buffer s) (sh_length s) (digit_char (unat digit));
     let length = sh_length s + 1;
     in_delta_room_minus \<leftarrow> (if is_even then LessEqual num (sh_minus s) else Less num (sh_minus s));
     c \<leftarrow> PlusCompare num (plus_of s) den;
     let in_delta_room_plus = (if is_even then c \<ge> 0 else c > 0);
     if \<not> in_delta_room_minus \<and> \<not> in_delta_room_plus then do {
       num \<leftarrow> Times10 num;
       minus \<leftarrow> Times10 (sh_minus s);
       plus \<leftarrow> (case sh_plus s of None \<Rightarrow> Some None | Some b \<Rightarrow> do { b \<leftarrow> Times10 b; Some (Some b) });
       Some (s\<lparr>sh_numerator := num, sh_minus := minus, sh_plus := plus, sh_buffer := buffer, sh_length := length\<rparr>)
     } else do {
       (buffer, length) \<leftarrow> shortest_stop in_delta_room_minus in_delta_room_plus num den (buffer, length);
       Some (s\<lparr>sh_numerator := num, sh_buffer := buffer, sh_length := length, sh_done := True\<rparr>)
     }
   }"

definition GenerateShortestDigits :: "scaled_start \<Rightarrow> bool \<Rightarrow> string \<Rightarrow> (string \<times> nat) result" where
  "GenerateShortestDigits s is_even buffer = do {
     eq \<leftarrow> Equal (delta_minus s) (delta_plus s);
     let plus = (if eq then None else Some (delta_plus s));
     r \<leftarrow> while_loop (\<lambda>r. Some (\<not> sh_done r)) (shortest_step (denominator s) is_even)
       \<lparr>sh_numerator = numerator s, sh_minus = delta_minus s, sh_plus = plus, sh_buffer = buffer, sh_length = 0,
        sh_done = False\<rparr>;
     Some (sh_buffer r, sh_length r)
   }"

definition GenerateCountedDigits ::
  "int \<Rightarrow> int \<Rightarrow> bignum \<Rightarrow> bignum \<Rightarrow> string \<Rightarrow> (string \<times> nat \<times> int) result" where
  "GenerateCountedDigits count decimal_point num den buffer = do {
     check (count \<ge> 0);
     (buffer, num) \<leftarrow> for_up 0 (nat (count - 1))
       (\<lambda>i (buffer, num). do {
          (digit, num) \<leftarrow> DivideModuloIntBignum num den;
          check (digit \<le> 9);
          buffer \<leftarrow> vset buffer i (digit_char (unat digit));
          num \<leftarrow> Times10 num;
          Some (buffer, num) }) (buffer, num);
     (digit, num) \<leftarrow> DivideModuloIntBignum num den;
     c \<leftarrow> PlusCompare num num den;
     let digit = (if c \<ge> 0 then digit + 1 else digit);
     check (digit \<le> 10);
     check (count \<ge> 1);
     buffer \<leftarrow> vset buffer (nat (count - 1)) (digit_char (unat digit));
     (buffer, i) \<leftarrow> while_loop
       (\<lambda>(buffer, i). if i > 0 then do { c \<leftarrow> vget buffer i; Some (c = digit_char 10) } else Some False)
       (\<lambda>(buffer, i). do {
          buffer \<leftarrow> vset buffer i CHR ''0'';
          buffer \<leftarrow> vincr buffer (i - 1);
          Some (buffer, i - 1) }) (buffer, nat (count - 1));
     c \<leftarrow> vget buffer 0;
     if c = digit_char 10 then do {
       buffer \<leftarrow> vset buffer 0 CHR ''1'';
       Some (buffer, nat count, decimal_point + 1)
     } else Some (buffer, nat count, decimal_point)
   }"

definition BignumToFixed ::
  "int \<Rightarrow> int \<Rightarrow> bignum \<Rightarrow> bignum \<Rightarrow> string \<Rightarrow> (string \<times> nat \<times> int) result" where
  "BignumToFixed requested_digits decimal_point num den buffer =
     (if - decimal_point > requested_digits then Some (buffer, 0, - requested_digits)
      else if - decimal_point = requested_digits then do {
        check (decimal_point = - requested_digits);
        den \<leftarrow> Times10 den;
        c \<leftarrow> PlusCompare num num den;
        if c \<ge> 0 then do {
          buffer \<leftarrow> vset buffer 0 CHR ''1'';
          Some (buffer, 1, decimal_point + 1)
        } else Some (buffer, 0, decimal_point)
      } else GenerateCountedDigits (decimal_point + requested_digits) decimal_point num den buffer)"

section \<open>The conversion\<close>

definition new_start :: scaled_start where
  "new_start = \<lparr>numerator = new_bignum, denominator = new_bignum, delta_minus = new_bignum, delta_plus = new_bignum\<rparr>"

definition BignumDtoa ::
  "double \<Rightarrow> BignumDtoaMode \<Rightarrow> int \<Rightarrow> string \<Rightarrow> (string \<times> nat \<times> int) result" where
  "BignumDtoa v mode requested_digits buffer = do {
     check (D_positive v);
     check (\<not> D_IsSpecial v);
     (significand, e, lower_boundary_is_closer) \<leftarrow>
       (if mode = BIGNUM_DTOA_SHORTEST_SINGLE then do {
          let f = double_to_single v;
          check (single_to_double f = v);
          Some (ucast (S_Significand f), S_Exponent f, S_LowerBoundaryIsCloser f)
        } else Some (D_Significand v, D_Exponent v, D_LowerBoundaryIsCloser v));
     let need_boundary_deltas = (mode = BIGNUM_DTOA_SHORTEST \<or> mode = BIGNUM_DTOA_SHORTEST_SINGLE);
     let is_even = (significand AND 1 = 0);
     normalized_exponent \<leftarrow> NormalizedExponent significand e;
     let estimated_power = EstimatePower normalized_exponent;
     if mode = BIGNUM_DTOA_FIXED \<and> - estimated_power - 1 > requested_digits then do {
       buffer \<leftarrow> vset buffer 0 (CHR 0x00);
       Some (buffer, 0, - requested_digits)
     } else do {
       s \<leftarrow> InitialScaledStartValues significand e lower_boundary_is_closer estimated_power need_boundary_deltas new_start;
       (decimal_point, s) \<leftarrow> FixupMultiply10 estimated_power is_even s;
       (buffer, length, decimal_point) \<leftarrow>
         (case mode of
            BIGNUM_DTOA_FIXED \<Rightarrow> BignumToFixed requested_digits decimal_point (numerator s) (denominator s) buffer
          | BIGNUM_DTOA_PRECISION \<Rightarrow>
              GenerateCountedDigits requested_digits decimal_point (numerator s) (denominator s) buffer
          | _ \<Rightarrow> do {
              (buffer, length) \<leftarrow> GenerateShortestDigits s is_even buffer;
              Some (buffer, length, decimal_point) });
       buffer \<leftarrow> vset buffer length (CHR 0x00);
       Some (buffer, length, decimal_point)
     }
   }"

end
