(* ===== verification/Dtoa_Digits.thy ===== *)
theory Dtoa_Digits
  imports BignumDtoa Bignum_Interface
begin

text \<open>
  The digit generation of \<open>bignum-dtoa.cc\<close> on natural numbers: with the number \<open>a / t\<close> and the distances \<open>m / t\<close> and
  \<open>p / t\<close> to its two boundaries, \<open>GenerateShortestDigits\<close> returns the shortest sequence of digits inside the boundaries,
  and of those the closest; \<open>GenerateCountedDigits\<close> returns the number rounded to the digits asked for.
\<close>

section \<open>Inside the boundaries\<close>

text \<open>\<open>x\<close>, read with \<open>i\<close> digits, lies inside the boundaries; these belong to it when \<open>ev\<close> holds.\<close>

definition inside :: "bool \<Rightarrow> nat \<Rightarrow> nat \<Rightarrow> nat \<Rightarrow> nat \<Rightarrow> nat \<Rightarrow> nat \<Rightarrow> bool" where
  "inside ev a t m p x i \<longleftrightarrow>
     (if ev then a * 10 ^ i \<le> x * t + m * 10 ^ i \<and> x * t \<le> (a + p) * 10 ^ i
      else a * 10 ^ i < x * t + m * 10 ^ i \<and> x * t < (a + p) * 10 ^ i)"

definition off :: "nat \<Rightarrow> nat \<Rightarrow> nat \<Rightarrow> nat \<Rightarrow> int" where
  "off a t x i = \<bar>int (x * t) - int (a * 10 ^ i)\<bar>"

definition shortest_ok :: "bool \<Rightarrow> nat \<Rightarrow> nat \<Rightarrow> nat \<Rightarrow> nat \<Rightarrow> nat \<Rightarrow> nat \<Rightarrow> bool" where
  "shortest_ok ev a t m p x l \<longleftrightarrow> inside ev a t m p x l \<and> (\<forall>i < l. \<forall>y. \<not> inside ev a t m p y i) \<and>
     (\<forall>y. inside ev a t m p y l \<longrightarrow> off a t x l \<le> off a t y l)"

lemma inside_pad: "inside ev a t m p x i \<Longrightarrow> inside ev a t m p (x * 10 ^ j) (i + j)"
proof -
  assume i: "inside ev a t m p x i"
  show ?thesis
  proof (cases ev)
    case True
    with i have le: "a * 10 ^ i \<le> x * t + m * 10 ^ i" "x * t \<le> (a + p) * 10 ^ i" by (simp_all add: inside_def)
    from mult_le_mono1 [OF le(1), of "10 ^ j"] mult_le_mono1 [OF le(2), of "10 ^ j"] True show ?thesis
      by (simp add: inside_def power_add algebra_simps)
  next
    case False
    with i have lt: "a * 10 ^ i < x * t + m * 10 ^ i" "x * t < (a + p) * 10 ^ i" by (simp_all add: inside_def)
    from mult_strict_right_mono [OF lt(1), of "10 ^ j"] mult_strict_right_mono [OF lt(2), of "10 ^ j"] False show ?thesis
      by (simp add: inside_def power_add algebra_simps)
  qed
qed

lemma not_inside_below:
  assumes "\<forall>y. \<not> inside ev a t m p y j" "i \<le> j"
  shows "\<not> inside ev a t m p y i"
  using inside_pad [of ev a t m p y i "j - i"] assms by auto

text \<open>
  The state after \<open>j\<close> digits \<open>d\<close> with the remainder \<open>x\<close>: the numbers just below and just above \<open>a\<close> with that many digits
  are outside the boundaries.
\<close>

definition gap :: "bool \<Rightarrow> nat \<Rightarrow> nat \<Rightarrow> nat \<Rightarrow> nat \<Rightarrow> nat \<Rightarrow> nat \<Rightarrow> nat \<Rightarrow> bool" where
  "gap ev a t m p d j x \<longleftrightarrow> d * t + x = a * 10 ^ j \<and>
     (if ev then m * 10 ^ j < x \<and> x + p * 10 ^ j < t else m * 10 ^ j \<le> x \<and> x + p * 10 ^ j \<le> t)"

lemma gap_none:
  assumes "gap ev a t m p d j x"
  shows "\<not> inside ev a t m p y j"
proof (cases "y \<le> d")
  case True
  then have "y * t \<le> d * t" by (rule mult_le_mono1)
  with assms show ?thesis unfolding gap_def inside_def by (cases ev) (simp_all only: if_True if_False, linarith+)
next
  case False
  then have "Suc d * t \<le> y * t" by (intro mult_le_mono1) simp
  then have "d * t + t \<le> y * t" by simp
  with assms show ?thesis
    unfolding gap_def inside_def by (cases ev) (simp_all only: if_True if_False add_mult_distrib, linarith+)
qed

lemma off_below:
  assumes "d * t + x = a * 10 ^ l" "y < d"
  shows "int t + int x \<le> off a t y l"
proof -
  have "Suc y * t \<le> d * t" using assms(2) by (intro mult_le_mono1) simp
  then have "int t + int x \<le> int (a * 10 ^ l) - int (y * t)" unfolding assms(1) [symmetric] mult_Suc by linarith
  then show ?thesis unfolding off_def by linarith
qed

lemma off_above:
  assumes "d * t + x = a * 10 ^ l" "Suc (Suc d) \<le> y"
  shows "2 * int t - int x \<le> off a t y l"
proof -
  have "Suc (Suc d) * t \<le> y * t" using assms(2) by (intro mult_le_mono1) simp
  then have "2 * int t - int x \<le> int (y * t) - int (a * 10 ^ l)" unfolding assms(1) [symmetric] mult_Suc by linarith
  then show ?thesis unfolding off_def by linarith
qed

text \<open>The two candidates when the generation stops: \<open>d\<close> and \<open>d + 1\<close>.\<close>

lemma stop_low:
  assumes x: "d * t + x = a * 10 ^ l" "x < t"
    and low: "if ev then x \<le> m * 10 ^ l else x < m * 10 ^ l"
    and high: "2 * x \<le> t \<or> \<not> (if ev then t \<le> x + p * 10 ^ l else t < x + p * 10 ^ l)"
    and p: "0 < p" and before: "\<forall>i < l. \<forall>y. \<not> inside ev a t m p y i"
  shows "shortest_ok ev a t m p d l"
proof -
  have "0 < p * 10 ^ l" using p by simp
  with x low have "inside ev a t m p d l"
    unfolding inside_def by (cases ev) (simp_all only: if_True if_False add_mult_distrib, linarith+)
  moreover have "off a t d l \<le> off a t y l" if y: "inside ev a t m p y l" for y
  proof -
    have od: "off a t d l = int x" using x(1) by (simp add: off_def flip: x(1))
    consider "y = d" | "y < d" | "y = Suc d" | "Suc (Suc d) \<le> y" by linarith
    then show ?thesis
    proof cases
      case 2
      from off_below [OF x(1) this] show ?thesis unfolding od by simp
    next
      case 3
      have "\<not> \<not> (if ev then t \<le> x + p * 10 ^ l else t < x + p * 10 ^ l)"
        using y x(1) unfolding 3 by (auto simp: inside_def add_mult_distrib split: if_splits)
      then have "2 * x \<le> t" using high by blast
      then show ?thesis unfolding od 3 by (simp add: off_def flip: x(1))
    next
      case 4
      from off_above [OF x(1) this] show ?thesis using x(2) unfolding od by simp
    qed simp
  qed
  ultimately show ?thesis using before by (simp add: shortest_ok_def)
qed

lemma stop_high:
  assumes x: "d * t + x = a * 10 ^ l" "x < t"
    and high: "if ev then t \<le> x + p * 10 ^ l else t < x + p * 10 ^ l"
    and low: "t \<le> 2 * x \<or> \<not> (if ev then x \<le> m * 10 ^ l else x < m * 10 ^ l)"
    and m: "0 < m" and before: "\<forall>i < l. \<forall>y. \<not> inside ev a t m p y i"
  shows "shortest_ok ev a t m p (Suc d) l"
proof -
  have "0 < m * 10 ^ l" using m by simp
  with x high have "inside ev a t m p (Suc d) l"
    unfolding inside_def by (cases ev) (simp_all only: if_True if_False add_mult_distrib mult_Suc, linarith+)
  moreover have "off a t (Suc d) l \<le> off a t y l" if y: "inside ev a t m p y l" for y
  proof -
    have od: "off a t (Suc d) l = int t - int x" using x(2) by (simp add: off_def flip: x(1))
    consider "y = Suc d" | "y < d" | "y = d" | "Suc (Suc d) \<le> y" by linarith
    then show ?thesis
    proof cases
      case 2
      from off_below [OF x(1) this] show ?thesis unfolding od by simp
    next
      case 3
      have "if ev then x \<le> m * 10 ^ l else x < m * 10 ^ l"
        using y x(1) unfolding 3 by (auto simp: inside_def split: if_splits)
      then have "t \<le> 2 * x" using low by blast
      then show ?thesis unfolding od 3 by (simp add: off_def flip: x(1))
    next
      case 4
      from off_above [OF x(1) this] show ?thesis using x(2) unfolding od by simp
    qed simp
  qed
  ultimately show ?thesis using before by (simp add: shortest_ok_def)
qed

section \<open>GenerateShortestDigits\<close>

lemma unat_digit_char: "q \<le> 9 \<Longrightarrow> is_decimal (digit_char (unat q))" for q :: uint16
  by (simp add: word_le_nat_alt)

text \<open>Writing the next digit behind the first \<open>j\<close> ones.\<close>

lemma write_digit:
  assumes "j < length buf" "list_all is_decimal (take j buf)" "q \<le> 9"
  shows "take (Suc j) (buf[j := digit_char q]) = take j buf @ [digit_char q]"
    "text_digits (take (Suc j) (buf[j := digit_char q])) = 10 * text_digits (take j buf) + q"
    "list_all is_decimal (take (Suc j) (buf[j := digit_char q]))"
  using assms by (simp_all add: take_Suc_conv_app_nth text_digits_append)

lemma round_last_up_correct:
  assumes "j < length buf" "buf ! j = digit_char q" "q < 9"
  shows "round_last_up (buf, Suc j) = Some (buf[j := digit_char (Suc q)], Suc j)"
proof -
  have "digit_char 9 = CHR ''9''" using digit_char_char_digit [of "CHR ''9''"] by (simp add: is_decimal_def char_digit_def)
  then have "digit_char q \<noteq> CHR ''9''" using assms(3) digit_char_eq_iff [of q 9] by simp
  then show ?thesis
    using assms by (simp add: round_last_up_def vget_def vset_def vincr_def check_def)
qed

definition shortest_inv :: "bool \<Rightarrow> nat \<Rightarrow> nat \<Rightarrow> nat \<Rightarrow> nat \<Rightarrow> nat \<Rightarrow> shortest_state \<Rightarrow> bool" where
  "shortest_inv ev a b m p n s \<longleftrightarrow> (let j = sh_length s; d = text_digits (take j (sh_buffer s)) in
     length (sh_buffer s) = n \<and> list_all is_decimal (take j (sh_buffer s)) \<and> j \<le> n \<and>
     (j = 0 \<or> hd (take j (sh_buffer s)) \<noteq> CHR ''0'') \<and>
     (if sh_done s then 0 < j \<and> j \<le> 17 \<and> shortest_ok ev a (10 * b) m p d j
      else \<exists>x. gap ev a (10 * b) m p d j x \<and> stands_for (sh_numerator s) x \<and>
        stands_for (sh_minus s) (m * 10 ^ j) \<and> stands_for (plus_of s) (p * 10 ^ j)))"

lemma gap_length:
  assumes "gap ev a t m p d j x" "t < (m + p) * 10 ^ 17"
  shows "j < 17"
proof (rule ccontr)
  assume "\<not> j < 17"
  then have "(10 :: nat) ^ 17 \<le> 10 ^ j" by (intro power_increasing) simp_all
  then have "(m + p) * 10 ^ 17 \<le> (m + p) * 10 ^ j" by (rule mult_le_mono2)
  also have "\<dots> \<le> t" using assms(1) by (auto simp: gap_def add_mult_distrib split: if_splits)
  finally show False using assms(2) by simp
qed

lemma shortest_stop_correct:
  assumes x: "d * t + 10 * r = a * 10 ^ Suc j" and t: "t = 10 * b" "r < b"
    and num: "stands_for num r" and den: "stands_for den b"
    and low: "lo \<longleftrightarrow> (if ev then r \<le> m * 10 ^ j else r < m * 10 ^ j)"
    and high: "hi \<longleftrightarrow> (if ev then b \<le> r + p * 10 ^ j else b < r + p * 10 ^ j)"
    and stop: "lo \<or> hi" and mp: "0 < m" "0 < p" and before: "\<forall>y. \<not> inside ev a t m p y j"
    and buf: "j < length buf" "buf ! j = digit_char q" "q \<le> 9" "hi \<Longrightarrow> q < 9"
    and dec: "list_all is_decimal (take j buf)" "d = 10 * text_digits (take j buf) + q"
  shows "returns (shortest_stop lo hi num den (buf, Suc j)) (\<lambda>(buf', l). l = Suc j \<and> length buf' = length buf \<and>
    list_all is_decimal (take l buf') \<and> shortest_ok ev a t m p (text_digits (take l buf')) l \<and>
    (buf' = buf \<and> (lo \<and> 2 * r \<le> b \<or> \<not> hi) \<or> hi \<and> buf' = buf[j := digit_char (Suc q)]))"
proof -
  have before': "\<forall>i < Suc j. \<forall>y. \<not> inside ev a t m p y i" using not_inside_below [OF before] by (auto simp: less_Suc_eq_le)
  have x': "d * t + 10 * r = a * 10 ^ Suc j" "10 * r < t" using x t by simp_all
  have low': "lo \<longleftrightarrow> (if ev then 10 * r \<le> m * 10 ^ Suc j else 10 * r < m * 10 ^ Suc j)" unfolding low by simp
  have high': "hi \<longleftrightarrow> (if ev then t \<le> 10 * r + p * 10 ^ Suc j else t < 10 * r + p * 10 ^ Suc j)"
    unfolding high t(1) by (auto simp: algebra_simps)
  have same: "buf[j := digit_char q] = buf" using buf(2) by (metis list_update_id)
  note wr = write_digit [OF buf(1) dec(1)]
  have keep: "shortest_ok ev a t m p (text_digits (take (Suc j) buf)) (Suc j) \<and> list_all is_decimal (take (Suc j) buf)"
    if "lo" "2 * r \<le> b \<or> \<not> hi"
  proof -
    have "shortest_ok ev a t m p d (Suc j)"
      by (rule stop_low [OF x']) (use that low' high' mp before' t in auto)
    then show ?thesis using wr(2,3) [OF buf(3)] unfolding same dec(2) by simp
  qed
  have up: "returns (round_last_up (buf, Suc j)) (\<lambda>(buf', l). l = Suc j \<and> length buf' = length buf \<and>
      list_all is_decimal (take l buf') \<and> shortest_ok ev a t m p (text_digits (take l buf')) l \<and>
      (buf' = buf \<and> (lo \<and> 2 * r \<le> b \<or> \<not> hi) \<or> hi \<and> buf' = buf[j := digit_char (Suc q)]))"
    if "hi" "b \<le> 2 * r \<or> \<not> lo"
  proof -
    have q: "Suc q \<le> 9" using buf(4) that by simp
    have "shortest_ok ev a t m p (Suc d) (Suc j)"
      by (rule stop_high [OF x']) (use that low' high' mp before' t in auto)
    then show ?thesis using wr(2,3) [OF q] buf(1) q that(1) unfolding dec(2) by (simp add: round_last_up_correct [OF buf(1,2)])
  qed
  obtain c where c: "PlusCompare num num den = Some c" "c < 0 \<longleftrightarrow> 2 * r < b" "c > 0 \<longleftrightarrow> b < 2 * r"
    by (rule bigit.half_compare [OF num den])
  show ?thesis
    unfolding shortest_stop_def prod.case using stop keep up c buf(1)
    by (auto simp: wp)
qed

end
