(* ===== verification/Dtoa_Shortest.thy ===== *)
theory Dtoa_Shortest
  imports Dtoa_Digits
begin

text \<open>
  \<open>GenerateShortestDigits\<close>: the loop ends after at most 17 digits, with the shortest digits inside the boundaries, the
  closest ones of that length; no increment carries.
\<close>

lemma option_step: "Option.bind (Some x) f = f x"
  by simp

lemma sgn_plus_compare: "0 \<le> sgn (int r + int k - int b) \<longleftrightarrow> b \<le> r + k" "0 < sgn (int r + int k - int b) \<longleftrightarrow> b < r + k"
  by (auto simp: sgn_if)

lemma head_digit:
  assumes "j < length buf" "j = 0 \<or> hd (take j buf) \<noteq> CHR ''0''" "j = 0 \<Longrightarrow> 0 < q" "q \<le> 9"
  shows "hd (take (Suc j) (buf[j := digit_char q])) \<noteq> CHR ''0''"
proof (cases "j = 0")
  case True
  then have "digit_char q \<noteq> digit_char 0" using assms(3,4) by (subst digit_char_eq_iff) simp_all
  with True assms(1) show ?thesis by (cases buf) (simp_all add: digit_char_0)
next
  case False
  then have "take (Suc j) (buf[j := digit_char q]) = take j buf @ [digit_char q]" "take j buf \<noteq> []"
    using assms(1) by (auto simp: take_Suc_conv_app_nth)
  with False assms(2) show ?thesis by (simp add: hd_append)
qed

lemma shortest_step_correct:
  assumes inv: "shortest_inv ev a b m p n s" "\<not> sh_done s" and den: "stands_for den b" "divisor_ok b" "10 * b < big_limit"
    and mp: "0 < m" "0 < p" and width: "10 * b < (m + p) * 10 ^ 17" and n: "17 \<le> n"
    and start: "b < 2 * a" "a < b \<Longrightarrow> if ev then b \<le> a + p else b < a + p"
  shows "returns (shortest_step den ev s) (\<lambda>s'. shortest_inv ev a b m p n s' \<and> (sh_done s' \<or> sh_length s' = Suc (sh_length s)))"
proof -
  define j d where "j = sh_length s" and "d = text_digits (take j (sh_buffer s))"
  from inv obtain x where buf: "length (sh_buffer s) = n" "list_all is_decimal (take j (sh_buffer s))"
      "j = 0 \<or> hd (take j (sh_buffer s)) \<noteq> CHR ''0''"
    and g: "gap ev a (10 * b) m p d j x" and num: "stands_for (sh_numerator s) x"
    and minus: "stands_for (sh_minus s) (m * 10 ^ j)" and plus: "stands_for (plus_of s) (p * 10 ^ j)"
    by (auto simp: shortest_inv_def Let_def j_def d_def)
  have j: "j < 17" using gap_length [OF g] width by simp
  have "0 < p * 10 ^ j" using mp by simp
  with g have x: "x < 10 * b" unfolding gap_def by (cases ev) (simp_all only: if_True if_False, linarith+)
  have mj: "m * 10 ^ j < big_limit" "p * 10 ^ j < big_limit" "x < big_limit"
    using g den(3) x by (auto simp: gap_def split: if_splits)
  have b0: "0 < b" using den(2) by (rule bigit.divisor_pos)
  show ?thesis
    unfolding shortest_step_def
  proof (rule returns_bindI [OF bigit.next_digit [OF num den(1,2) x mj(3)]], clarify, rule returns_checkI, assumption, goal_cases)
    case (1 q num')
    define r where "r = x mod b"
    have q: "unat q = x div b" "unat q \<le> 9" and num': "stands_for num' r" using 1 by (simp_all add: r_def word_le_nat_alt)
    have r: "r < b" "x = unat q * b + r" using b0 by (simp_all add: r_def q)
    let ?buf = "(sh_buffer s)[j := digit_char (unat q)]"
    have jn: "j < length (sh_buffer s)" using j n buf(1) by simp
    note wr = write_digit [OF jn buf(2) q(2)]
    define d' where "d' = 10 * d + unat q"
    have eq: "d' * (10 * b) + 10 * r = a * 10 ^ Suc j"
      using g r(2) by (simp add: gap_def d'_def algebra_simps)
    define lo where "lo \<longleftrightarrow> (if ev then r \<le> m * 10 ^ j else r < m * 10 ^ j)"
    define hi where "hi \<longleftrightarrow> (if ev then b \<le> r + p * 10 ^ j else b < r + p * 10 ^ j)"
    have low: "(if ev then LessEqual num' (sh_minus s) else Less num' (sh_minus s)) = Some lo"
      using num_compare [OF num' minus] by (simp add: lo_def)
    obtain c where c: "PlusCompare num' (plus_of s) den = Some c" "(if ev then c \<ge> 0 else c > 0) = hi"
      using bigit.plus_compare_law [OF num' plus den(1)] unfolding hi_def by (simp only: sgn_plus_compare)
    have q9: "unat q < 9" if hi
    proof (rule ccontr)
      assume "\<not> unat q < 9"
      with q(2) have "unat q = 9" by linarith
      with r(2) have "x = 9 * b + r" by simp
      then show False using that [unfolded hi_def] g unfolding gap_def by (cases ev) (simp_all only: if_True if_False, linarith+)
    qed
    have first: "x = a" "d = 0" if "j = 0" using that g by (simp_all add: gap_def d_def)
    have nonzero: "0 < unat q" if "j = 0" "lo \<and> 2 * r \<le> b \<or> \<not> hi"
    proof (rule ccontr)
      assume "\<not> 0 < unat q"
      then have "r = a" "a < b" using r first [OF that(1)] by simp_all
      with start that show False by (auto simp: hi_def lo_def split: if_splits)
    qed
    have vs: "vset (sh_buffer s) j (digit_char (unat q)) = Some ?buf" using jn by (simp add: vset_def)
    note run = j_def [symmetric] Let_def vs low c option_step Suc_eq_plus1 [symmetric]
    show ?case
    proof (cases "lo \<or> hi")
      case True
      have upd: "?buf ! j = digit_char (unat q)" "take j ?buf = take j (sh_buffer s)" "?buf[j := c] = (sh_buffer s)[j := c]" for c
        using jn by simp_all
      have stop: "returns (shortest_stop lo hi num' den (?buf, Suc j)) (\<lambda>(buf', l). l = Suc j \<and> length buf' = length ?buf \<and>
        list_all is_decimal (take l buf') \<and> shortest_ok ev a (10 * b) m p (text_digits (take l buf')) l \<and>
        (buf' = ?buf \<and> (lo \<and> 2 * r \<le> b \<or> \<not> hi) \<or> hi \<and> buf' = ?buf[j := digit_char (Suc (unat q))]))"
      proof (rule shortest_stop_correct [OF eq refl r(1) num' den(1) lo_def hi_def True mp])
        show "\<forall>y. \<not> inside ev a (10 * b) m p y j" using gap_none [OF g] by blast
        show "d' = 10 * text_digits (take j ?buf) + unat q" by (simp add: d'_def d_def)
      qed (use upd jn q q9 buf in auto)
      have hd: "hd (take (Suc j) buf') \<noteq> CHR ''0''"
        if "buf' = ?buf \<and> (lo \<and> 2 * r \<le> b \<or> \<not> hi) \<or> hi \<and> buf' = ?buf[j := digit_char (Suc (unat q))]" for buf'
        using that
      proof (elim disjE conjE)
        assume "buf' = ?buf[j := digit_char (Suc (unat q))]" hi
        moreover from \<open>hi\<close> have "Suc (unat q) \<le> 9" using q9 by simp
        ultimately show ?thesis using head_digit [OF jn buf(3), of "Suc (unat q)"] q9 upd(3) by simp
      qed (use head_digit [OF jn buf(3) nonzero q(2)] in auto)
      from True have stop': "(\<not> lo \<and> \<not> hi) = False" by blast
      show ?thesis
        unfolding run stop' if_False
      proof (rule returns_bindI [OF stop], clarify, goal_cases)
        case (1 buf' l)
        have h: "hd (take (Suc j) buf') \<noteq> CHR ''0''" using 1 by (intro hd) blast
        show ?case using 1 h jn j buf(1) by (auto simp: shortest_inv_def Let_def)
      qed
    next
      case False
      have go: "(\<not> lo \<and> \<not> hi) = True" using False by blast
      have g': "gap ev a (10 * b) m p d' (Suc j) (10 * r)"
        using False eq unfolding gap_def lo_def hi_def by (cases ev) (auto simp: algebra_simps)
      have td: "text_digits (take (Suc j) ?buf) = d'" using wr(2) by (simp add: d'_def d_def)
      have hd: "hd (take (Suc j) ?buf) \<noteq> CHR ''0''"
        using head_digit [OF jn buf(3) nonzero q(2)] False by blast
      have r_lim: "r < big_limit" using r(1) den(3) by simp
      note t10 = bigit.times10_law
      show ?thesis
        unfolding run go if_True
      proof (rule returns_bindI [OF t10 [OF num' r_lim]], rule returns_bindI [OF t10 [OF minus mj(1)]], goal_cases)
        case (1 num2 minus2)
        show ?case
        proof (cases "sh_plus s")
          case None
          then have "m * 10 ^ j = p * 10 ^ j" using minus plus by (simp add: plus_of_def stands_for_def)
          with 1 None inv(2) g' td hd wr(3) jn buf(1) show ?thesis
            by (auto simp: shortest_inv_def Let_def plus_of_def mult_ac)
        next
          case (Some pb)
          then have "stands_for pb (p * 10 ^ j)" using plus by (simp add: plus_of_def)
          from t10 [OF this mj(2)] obtain pb' where pb': "Times10 pb = Some pb'" "stands_for pb' (10 * (p * 10 ^ j))"
            by (auto elim: returnsE)
          with 1 Some inv(2) g' td hd wr(3) jn buf(1) show ?thesis
            by (auto simp: shortest_inv_def Let_def plus_of_def mult_ac)
        qed
      qed
    qed
  qed
qed

lemma GenerateShortestDigits_correct:
  assumes s: "stands_for (numerator s) a" "stands_for (denominator s) b" "stands_for (delta_minus s) m" "stands_for (delta_plus s) p"
    and b: "divisor_ok b" "10 * b < big_limit" and mp: "0 < m" "0 < p" and width: "10 * b < (m + p) * 10 ^ 17"
    and n: "17 \<le> length buffer" and start: "b < 2 * a" "a < b \<Longrightarrow> if ev then b \<le> a + p else b < a + p"
    and g: "gap ev a (10 * b) m p 0 0 a"
  shows "returns (GenerateShortestDigits s ev buffer) (\<lambda>(buf, l). length buf = length buffer \<and> 0 < l \<and> l \<le> 17 \<and>
    list_all is_decimal (take l buf) \<and> hd (take l buf) \<noteq> CHR ''0'' \<and> shortest_ok ev a (10 * b) m p (text_digits (take l buf)) l)"
proof -
  have eq: "Equal (delta_minus s) (delta_plus s) = Some (m = p)" using num_compare(3) [OF s(3,4)] .
  let ?init = "\<lparr>sh_numerator = numerator s, sh_minus = delta_minus s, sh_plus = if m = p then None else Some (delta_plus s),
    sh_buffer = buffer, sh_length = 0, sh_done = False\<rparr>"
  have init: "shortest_inv ev a b m p (length buffer) ?init"
    using s g by (auto simp: shortest_inv_def plus_of_def)
  have "returns (while_loop (\<lambda>r. Some (\<not> sh_done r)) (shortest_step (denominator s) ev) ?init)
    (\<lambda>r. shortest_inv ev a b m p (length buffer) r \<and> sh_done r)"
  proof (rule returns_while [where I = "shortest_inv ev a b m p (length buffer)"
        and m = "\<lambda>r. if sh_done r then 0 else Suc (length buffer - sh_length r)"])
    fix r assume r: "shortest_inv ev a b m p (length buffer) r"
    show "returns (Some (\<not> sh_done r)) (\<lambda>t. if t then returns (shortest_step (denominator s) ev r)
        (\<lambda>r'. shortest_inv ev a b m p (length buffer) r' \<and>
          (if sh_done r' then 0 else Suc (length buffer - sh_length r')) < (if sh_done r then 0 else Suc (length buffer - sh_length r)))
      else shortest_inv ev a b m p (length buffer) r \<and> sh_done r)"
    proof (cases "sh_done r")
      case False
      from shortest_step_correct [OF r False s(2) b mp width n start]
      have "returns (shortest_step (denominator s) ev r) (\<lambda>r'. shortest_inv ev a b m p (length buffer) r' \<and>
        (if sh_done r' then 0 else Suc (length buffer - sh_length r')) < Suc (length buffer - sh_length r))"
        by (rule returns_mono) (auto simp: shortest_inv_def Let_def)
      with False show ?thesis by simp
    qed (use r in simp)
  qed (rule init)
  then show ?thesis
    unfolding GenerateShortestDigits_def eq option_step Let_def
    by (rule returns_bindI) (auto simp: shortest_inv_def Let_def)
qed

end
