(* ===== verification/CachedPowers.thy ===== *)
theory CachedPowers
  imports DiyFp Rounding
begin

text \<open>
  The class \<open>PowersOfTenCache\<close> of \<open>double-conversion/cached-powers.cc\<close>: a table of 87 powers of ten, eight decimal
  exponents apart, each rounded to 64 bits. The lemmas say that every entry is the power rounded to the nearest
  64-bit significand and that both lookups find an entry in the range they promise.
\<close>

section \<open>The table and the lookups\<close>

definition kCachedPowers :: "(uint64 \<times> int \<times> int) list" where
  "kCachedPowers = [
      (0xfa8fd5a0081c0288, -1220, -348), (0xbaaee17fa23ebf76, -1193, -340), (0x8b16fb203055ac76, -1166, -332),
      (0xcf42894a5dce35ea, -1140, -324), (0x9a6bb0aa55653b2d, -1113, -316), (0xe61acf033d1a45df, -1087, -308),
      (0xab70fe17c79ac6ca, -1060, -300), (0xff77b1fcbebcdc4f, -1034, -292), (0xbe5691ef416bd60c, -1007, -284),
      (0x8dd01fad907ffc3c, -980, -276), (0xd3515c2831559a83, -954, -268), (0x9d71ac8fada6c9b5, -927, -260),
      (0xea9c227723ee8bcb, -901, -252), (0xaecc49914078536d, -874, -244), (0x823c12795db6ce57, -847, -236),
      (0xc21094364dfb5637, -821, -228), (0x9096ea6f3848984f, -794, -220), (0xd77485cb25823ac7, -768, -212),
      (0xa086cfcd97bf97f4, -741, -204), (0xef340a98172aace5, -715, -196), (0xb23867fb2a35b28e, -688, -188),
      (0x84c8d4dfd2c63f3b, -661, -180), (0xc5dd44271ad3cdba, -635, -172), (0x936b9fcebb25c996, -608, -164),
      (0xdbac6c247d62a584, -582, -156), (0xa3ab66580d5fdaf6, -555, -148), (0xf3e2f893dec3f126, -529, -140),
      (0xb5b5ada8aaff80b8, -502, -132), (0x87625f056c7c4a8b, -475, -124), (0xc9bcff6034c13053, -449, -116),
      (0x964e858c91ba2655, -422, -108), (0xdff9772470297ebd, -396, -100), (0xa6dfbd9fb8e5b88f, -369, -92),
      (0xf8a95fcf88747d94, -343, -84), (0xb94470938fa89bcf, -316, -76), (0x8a08f0f8bf0f156b, -289, -68),
      (0xcdb02555653131b6, -263, -60), (0x993fe2c6d07b7fac, -236, -52), (0xe45c10c42a2b3b06, -210, -44),
      (0xaa242499697392d3, -183, -36), (0xfd87b5f28300ca0e, -157, -28), (0xbce5086492111aeb, -130, -20),
      (0x8cbccc096f5088cc, -103, -12), (0xd1b71758e219652c, -77, -4), (0x9c40000000000000, -50, 4),
      (0xe8d4a51000000000, -24, 12), (0xad78ebc5ac620000, 3, 20), (0x813f3978f8940984, 30, 28),
      (0xc097ce7bc90715b3, 56, 36), (0x8f7e32ce7bea5c70, 83, 44), (0xd5d238a4abe98068, 109, 52),
      (0x9f4f2726179a2245, 136, 60), (0xed63a231d4c4fb27, 162, 68), (0xb0de65388cc8ada8, 189, 76),
      (0x83c7088e1aab65db, 216, 84), (0xc45d1df942711d9a, 242, 92), (0x924d692ca61be758, 269, 100),
      (0xda01ee641a708dea, 295, 108), (0xa26da3999aef774a, 322, 116), (0xf209787bb47d6b85, 348, 124),
      (0xb454e4a179dd1877, 375, 132), (0x865b86925b9bc5c2, 402, 140), (0xc83553c5c8965d3d, 428, 148),
      (0x952ab45cfa97a0b3, 455, 156), (0xde469fbd99a05fe3, 481, 164), (0xa59bc234db398c25, 508, 172),
      (0xf6c69a72a3989f5c, 534, 180), (0xb7dcbf5354e9bece, 561, 188), (0x88fcf317f22241e2, 588, 196),
      (0xcc20ce9bd35c78a5, 614, 204), (0x98165af37b2153df, 641, 212), (0xe2a0b5dc971f303a, 667, 220),
      (0xa8d9d1535ce3b396, 694, 228), (0xfb9b7cd9a4a7443c, 720, 236), (0xbb764c4ca7a44410, 747, 244),
      (0x8bab8eefb6409c1a, 774, 252), (0xd01fef10a657842c, 800, 260), (0x9b10a4e5e9913129, 827, 268),
      (0xe7109bfba19c0c9d, 853, 276), (0xac2820d9623bf429, 880, 284), (0x80444b5e7aa7cf85, 907, 292),
      (0xbf21e44003acdd2d, 933, 300), (0x8e679c2f5e44ff8f, 960, 308), (0xd433179d9c8cb841, 986, 316),
      (0x9e19db92b4e31ba9, 1013, 324), (0xeb96bf6ebadf77d9, 1039, 332), (0xaf87023b9bf0ee6b, 1066, 340)]"

definition kCachedPowersLength :: nat where
  "kCachedPowersLength = 87"

definition kCachedPowersOffset :: int where
  "kCachedPowersOffset = 348"

definition kDecimalExponentDistance :: int where
  "kDecimalExponentDistance = 8"

definition kMinDecimalExponent :: int where
  "kMinDecimalExponent = -348"

definition kMaxDecimalExponent :: int where
  "kMaxDecimalExponent = 340"

text \<open>
  \<open>ceil((min_exponent + kQ - 1) * kD_1_LOG2_10)\<close> in \<open>double\<close> arithmetic: the product is a multiple of \<open>2 ^ -53\<close>,
  rounded to 53 bits.
\<close>

definition ceil_log10 :: "int \<Rightarrow> int" where
  "ceil_log10 x = - ((- round53 (x * log10_2_num)) div 2 ^ 53)"

definition GetCachedPowerForBinaryExponentRange :: "int \<Rightarrow> int \<Rightarrow> (diy_fp \<times> int) result" where
  "GetCachedPowerForBinaryExponentRange min_exponent max_exponent = do {
     let kQ = 64;
     let k = ceil_log10 (min_exponent + kQ - 1);
     let foo = kCachedPowersOffset;
     let index = cdiv (foo + k - 1) kDecimalExponentDistance + 1;
     check (0 \<le> index \<and> index < int kCachedPowersLength);
     (significand, binary_exponent, decimal_exponent) \<leftarrow> vget kCachedPowers (nat index);
     check (min_exponent \<le> binary_exponent);
     check (binary_exponent \<le> max_exponent);
     Some (mk_diy significand binary_exponent, decimal_exponent)
   }"

definition GetCachedPowerForDecimalExponent :: "int \<Rightarrow> (diy_fp \<times> int) result" where
  "GetCachedPowerForDecimalExponent requested_exponent = do {
     check (kMinDecimalExponent \<le> requested_exponent);
     check (requested_exponent < kMaxDecimalExponent + kDecimalExponentDistance);
     let index = cdiv (requested_exponent + kCachedPowersOffset) kDecimalExponentDistance;
     check (0 \<le> index);
     (significand, binary_exponent, decimal_exponent) \<leftarrow> vget kCachedPowers (nat index);
     let found_exponent = decimal_exponent;
     check (found_exponent \<le> requested_exponent);
     check (requested_exponent < found_exponent + kDecimalExponentDistance);
     Some (mk_diy significand binary_exponent, found_exponent)
   }"

section \<open>The entries\<close>

text \<open>
  The powers of ten are enclosed between two 128-bit numbers times a power of two, from \<open>10 ^ 4\<close> upward and
  downward in steps of \<open>10 ^ 8\<close>. Every step is a comparison of small products, so that no large power is computed.
\<close>

type_synonym bracket = "nat \<times> nat \<times> int \<times> int"

definition brackets :: "bracket \<Rightarrow> bool" where
  "brackets = (\<lambda>(lo, hi, b, d). real lo * 2 powi (b - 64) \<le> 10 powi d \<and> 10 powi d \<le> real hi * 2 powi (b - 64))"

definition step_up :: "bracket \<Rightarrow> bracket \<Rightarrow> bool" where
  "step_up = (\<lambda>(lo, hi, b, d) (lo', hi', b', d'). d' = d + 8 \<and> b \<le> b' \<and>
     lo' * 2 ^ nat (b' - b) \<le> lo * 10 ^ 8 \<and> hi * 10 ^ 8 \<le> hi' * 2 ^ nat (b' - b))"

definition step_down :: "bracket \<Rightarrow> bracket \<Rightarrow> bool" where
  "step_down = (\<lambda>(lo, hi, b, d) (lo', hi', b', d'). d' = d - 8 \<and> b' \<le> b \<and>
     lo' * 10 ^ 8 \<le> lo * 2 ^ nat (b - b') \<and> hi * 2 ^ nat (b - b') \<le> hi' * 10 ^ 8)"

fun chain :: "('a \<Rightarrow> 'a \<Rightarrow> bool) \<Rightarrow> 'a list \<Rightarrow> bool" where
  "chain R (x # y # zs) \<longleftrightarrow> R x y \<and> chain R (y # zs)"
| "chain R _ \<longleftrightarrow> True"

lemma chain_all:
  assumes "\<forall>x y. P x \<longrightarrow> R x y \<longrightarrow> P y"
  shows "chain R (x # xs) \<Longrightarrow> P x \<Longrightarrow> \<forall>y \<in> set (x # xs). P y"
  by (induction xs arbitrary: x) (use assms in auto)

lemma scale_up:
  fixes S T :: real and a a' c k :: nat
  assumes "0 \<le> S"
  shows "a' * k \<le> a * c \<Longrightarrow> real a * S \<le> T \<Longrightarrow> real a' * (real k * S) \<le> real c * T"
    and "a * c \<le> a' * k \<Longrightarrow> T \<le> real a * S \<Longrightarrow> real c * T \<le> real a' * (real k * S)"
proof -
  assume le: "a' * k \<le> a * c" "real a * S \<le> T"
  have "real a' * (real k * S) = real (a' * k) * S" by simp
  also have "\<dots> \<le> real (a * c) * S" using le(1) assms by (intro mult_right_mono) (simp_all only: of_nat_le_iff)
  also have "\<dots> = real c * (real a * S)" by simp
  also have "\<dots> \<le> real c * T" using le(2) by (intro mult_left_mono) auto
  finally show "real a' * (real k * S) \<le> real c * T" .
next
  assume le: "a * c \<le> a' * k" "T \<le> real a * S"
  have "real c * T \<le> real c * (real a * S)" using le(2) by (intro mult_left_mono) auto
  also have "\<dots> = real (a * c) * S" by simp
  also have "\<dots> \<le> real (a' * k) * S" using le(1) assms by (intro mult_right_mono) (simp_all only: of_nat_le_iff)
  also have "\<dots> = real a' * (real k * S)" by simp
  finally show "real c * T \<le> real a' * (real k * S)" .
qed

lemma scale_down:
  fixes S T :: real and a a' c k :: nat
  assumes "0 \<le> S" "0 < c"
  shows "a' * c \<le> a * k \<Longrightarrow> real a * (real k * S) \<le> real c * T \<Longrightarrow> real a' * S \<le> T"
    and "a * k \<le> a' * c \<Longrightarrow> real c * T \<le> real a * (real k * S) \<Longrightarrow> T \<le> real a' * S"
proof -
  assume le: "a' * c \<le> a * k" "real a * (real k * S) \<le> real c * T"
  have "real c * (real a' * S) = real (a' * c) * S" by simp
  also have "\<dots> \<le> real (a * k) * S" using le(1) assms by (intro mult_right_mono) (simp_all only: of_nat_le_iff)
  also have "\<dots> \<le> real c * T" using le(2) by (simp add: mult.assoc)
  finally show "real a' * S \<le> T" using assms(2) by simp
next
  assume le: "a * k \<le> a' * c" "real c * T \<le> real a * (real k * S)"
  have "real c * T \<le> real (a * k) * S" using le(2) by (simp add: mult.assoc)
  also have "\<dots> \<le> real (a' * c) * S" using le(1) assms by (intro mult_right_mono) (simp_all only: of_nat_le_iff)
  also have "\<dots> = real c * (real a' * S)" by simp
  finally show "T \<le> real a' * S" using assms(2) by simp
qed

lemma powi_split: "(2 :: real) powi (b' - 64) = 2 ^ nat (b' - b) * 2 powi (b - 64)" if "b \<le> b'" for b b' :: int
proof -
  have "b' - 64 = int (nat (b' - b)) + (b - 64)" using that by simp
  then show ?thesis by (metis power_int_add power_int_of_nat zero_neq_numeral)
qed

lemma ten_powi_8: "(10 :: real) powi (d + 8) = 10 ^ 8 * 10 powi d"
  using power_int_add [of "10 :: real" d 8] by simp

lemma step_up_brackets: "brackets x \<Longrightarrow> step_up x y \<Longrightarrow> brackets y"
proof -
  obtain lo hi b d lo' hi' b' d' where [simp]: "x = (lo, hi, b, d)" "y = (lo', hi', b', d')" by (cases x, cases y)
  assume x: "brackets x" and s: "step_up x y"
  then have d: "d' = d + 8" and b: "b \<le> b'" by (auto simp: step_up_def)
  have "lo' * 2 ^ nat (b' - b) \<le> lo * 10 ^ 8" "hi * 10 ^ 8 \<le> hi' * 2 ^ nat (b' - b)"
    using s by (simp_all add: step_up_def)
  with x show ?thesis
    using scale_up(1) [of "2 powi (b - 64)" lo' "2 ^ nat (b' - b)" lo "10 ^ 8" "10 powi d"]
      scale_up(2) [of "2 powi (b - 64)" hi "10 ^ 8" hi' "2 ^ nat (b' - b)" "10 powi d"]
    by (simp add: brackets_def d ten_powi_8 powi_split [OF b])
qed

lemma step_down_brackets: "brackets x \<Longrightarrow> step_down x y \<Longrightarrow> brackets y"
proof -
  obtain lo hi b d lo' hi' b' d' where [simp]: "x = (lo, hi, b, d)" "y = (lo', hi', b', d')" by (cases x, cases y)
  assume x: "brackets x" and s: "step_down x y"
  then have d: "d = d' + 8" and b: "b' \<le> b" by (auto simp: step_down_def)
  let ?S = "2 powi (b' - 64) :: real" and ?k = "2 ^ nat (b - b') :: nat" and ?T = "10 powi d' :: real"
  have le: "lo' * 10 ^ 8 \<le> lo * ?k" "hi * ?k \<le> hi' * 10 ^ 8" using s by (simp_all add: step_down_def)
  have "real lo * (real ?k * ?S) \<le> real (10 ^ 8) * ?T" "real (10 ^ 8) * ?T \<le> real hi * (real ?k * ?S)"
    using x by (simp_all add: brackets_def powi_split [OF b] d ten_powi_8)
  then have "real lo' * ?S \<le> ?T" "?T \<le> real hi' * ?S"
    using le by (auto intro: scale_down [of ?S "10 ^ 8"])
  then show ?thesis by (simp add: brackets_def)
qed

definition bracket_0 :: bracket where
  "bracket_0 = (0x9c400000000000000000000000000000, 0x9c400000000000000000000000000000, -50, 4)"

definition brackets_up :: "bracket list" where
  "brackets_up = [
      (0xe8d4a510000000000000000000000000, 0xe8d4a510000000000000000000000000, -24, 12),
      (0xad78ebc5ac6200000000000000000000, 0xad78ebc5ac6200000000000000000000, 3, 20),
      (0x813f3978f89409844000000000000000, 0x813f3978f89409844000000000000000, 30, 28),
      (0xc097ce7bc90715b34b9f100000000000, 0xc097ce7bc90715b34b9f100000000000, 56, 36),
      (0x8f7e32ce7bea5c6fe4820023a2000000, 0x8f7e32ce7bea5c6fe4820023a2000000, 83, 44),
      (0xd5d238a4abe9806872a4904598d6d880, 0xd5d238a4abe9806872a4904598d6d880, 109, 52),
      (0x9f4f2726179a224501d762422c946590, 0x9f4f2726179a224501d762422c946591, 136, 60),
      (0xed63a231d4c4fb274ca7aaa863ee4bdc, 0xed63a231d4c4fb274ca7aaa863ee4bde, 162, 68),
      (0xb0de65388cc8ada83b25a55f43294bca, 0xb0de65388cc8ada83b25a55f43294bcd, 189, 76),
      (0x83c7088e1aab65db792667c6da79e0f8, 0x83c7088e1aab65db792667c6da79e0fb, 216, 84),
      (0xc45d1df942711d9a3ba5d0bd324f8391, 0xc45d1df942711d9a3ba5d0bd324f8396, 242, 92),
      (0x924d692ca61be758593c2626705f9c54, 0x924d692ca61be758593c2626705f9c58, 269, 100),
      (0xda01ee641a708de9e80e6f4820cc9492, 0xda01ee641a708de9e80e6f4820cc9499, 295, 108),
      (0xa26da3999aef7749e3be5e330f38f09b, 0xa26da3999aef7749e3be5e330f38f0a1, 322, 116),
      (0xf209787bb47d6b84c0678c5dbd23a495, 0xf209787bb47d6b84c0678c5dbd23a49f, 348, 124),
      (0xb454e4a179dd187729babe4598c311f7, 0xb454e4a179dd187729babe4598c31200, 375, 132),
      (0x865b86925b9bc5c20b8a2392ba45a9ae, 0x865b86925b9bc5c20b8a2392ba45a9b6, 402, 140),
      (0xc83553c5c8965d3d6f92829494e5acc0, 0xc83553c5c8965d3d6f92829494e5accd, 428, 148),
      (0x952ab45cfa97a0b2dd945a747bf2617e, 0x952ab45cfa97a0b2dd945a747bf26188, 455, 156),
      (0xde469fbd99a05fe36fca5f8ed9aef3b2, 0xde469fbd99a05fe36fca5f8ed9aef3c2, 481, 164),
      (0xa59bc234db398c2543fab9837e69908e, 0xa59bc234db398c2543fab9837e69909b, 508, 172),
      (0xf6c69a72a3989f5b8aad549e57273d39, 0xf6c69a72a3989f5b8aad549e57273d4d, 534, 180),
      (0xb7dcbf5354e9bece0c11ed6d538aeb26, 0xb7dcbf5354e9bece0c11ed6d538aeb36, 561, 188),
      (0x88fcf317f22241e2441fece3bdf81efc, 0x88fcf317f22241e2441fece3bdf81f09, 588, 196),
      (0xcc20ce9bd35c78a531ec038df7b441e9, 0xcc20ce9bd35c78a531ec038df7b441fd, 614, 204),
      (0x98165af37b2153dec3727a337a8b7041, 0x98165af37b2153dec3727a337a8b7051, 641, 212),
      (0xe2a0b5dc971f303a2e44ae64840fd610, 0xe2a0b5dc971f303a2e44ae64840fd629, 667, 220),
      (0xa8d9d1535ce3b3967f1839a741a14d03, 0xa8d9d1535ce3b3967f1839a741a14d16, 694, 228),
      (0xfb9b7cd9a4a7443c169840ef017da3a1, 0xfb9b7cd9a4a7443c169840ef017da3bf, 720, 236),
      (0xbb764c4ca7a4440f9d6d1ad41abe37e5, 0xbb764c4ca7a4440f9d6d1ad41abe37fc, 747, 244),
      (0x8bab8eefb6409c1a1ad089b6c2f75484, 0x8bab8eefb6409c1a1ad089b6c2f75496, 774, 252),
      (0xd01fef10a657842c2d2b7569b0432d75, 0xd01fef10a657842c2d2b7569b0432d91, 800, 260),
      (0x9b10a4e5e9913128ca7cf2b4191c831a, 0x9b10a4e5e9913128ca7cf2b4191c8330, 827, 268),
      (0xe7109bfba19c0c9d0cc512670a783ac2, 0xe7109bfba19c0c9d0cc512670a783ae4, 853, 276),
      (0xac2820d9623bf429546345fa9fbdcd36, 0xac2820d9623bf429546345fa9fbdcd50, 880, 284),
      (0x80444b5e7aa7cf857980d163cf5b81a8, 0x80444b5e7aa7cf857980d163cf5b81bc, 907, 292),
      (0xbf21e44003acdd2ce0470a63e6bd56b2, 0xbf21e44003acdd2ce0470a63e6bd56d1, 933, 300),
      (0x8e679c2f5e44ff8f570f09eaa7ea763b, 0x8e679c2f5e44ff8f570f09eaa7ea7653, 960, 308),
      (0xd433179d9c8cb8415fa60692a46151d7, 0xd433179d9c8cb8415fa60692a46151fc, 986, 316),
      (0x9e19db92b4e31ba96c07a2c26a8346c1, 0x9e19db92b4e31ba96c07a2c26a8346de, 1013, 324),
      (0xeb96bf6ebadf77d8e41c5bd18c57e877, 0xeb96bf6ebadf77d8e41c5bd18c57e8a3, 1039, 332),
      (0xaf87023b9bf0ee6aeb8fad7c7f8680a2, 0xaf87023b9bf0ee6aeb8fad7c7f8680c3, 1066, 340)]"

definition brackets_down :: "bracket list" where
  "brackets_down = [
      (0xd1b71758e219652bd3c36113404ea4a8, 0xd1b71758e219652bd3c36113404ea4a9, -77, -4),
      (0x8cbccc096f5088cbf93f87b7442e45d3, 0x8cbccc096f5088cbf93f87b7442e45d5, -103, -12),
      (0xbce5086492111aea88f4bb1ca6bcf582, 0xbce5086492111aea88f4bb1ca6bcf586, -130, -20),
      (0xfd87b5f28300ca0d8bca9d6e188853f9, 0xfd87b5f28300ca0d8bca9d6e18885400, -157, -28),
      (0xaa242499697392d2dde50bd1d5d0b9e7, 0xaa242499697392d2dde50bd1d5d0b9ed, -183, -36),
      (0xe45c10c42a2b3b058cb89a7db77c5066, 0xe45c10c42a2b3b058cb89a7db77c5070, -210, -44),
      (0x993fe2c6d07b7fabe546a8038efe4025, 0x993fe2c6d07b7fabe546a8038efe402d, -236, -52),
      (0xcdb02555653131b63792f412cb067947, 0xcdb02555653131b63792f412cb067953, -263, -60),
      (0x8a08f0f8bf0f156b1b8e9ecb641b58fb, 0x8a08f0f8bf0f156b1b8e9ecb641b5904, -289, -68),
      (0xb94470938fa89bcef808e40e8d5b3e63, 0xb94470938fa89bcef808e40e8d5b3e70, -316, -76),
      (0xf8a95fcf88747d9475a44c6397ce9121, 0xf8a95fcf88747d9475a44c6397ce9133, -343, -84),
      (0xa6dfbd9fb8e5b88ecb4ccd500f6bb94c, 0xa6dfbd9fb8e5b88ecb4ccd500f6bb959, -369, -92),
      (0xdff9772470297ebd59787e2b93bc56ed, 0xdff9772470297ebd59787e2b93bc5700, -396, -100),
      (0x964e858c91ba26553a6a07f8d510f869, 0x964e858c91ba26553a6a07f8d510f876, -422, -108),
      (0xc9bcff6034c13052fc89b393dd02f0ac, 0xc9bcff6034c13052fc89b393dd02f0be, -449, -116),
      (0x87625f056c7c4a8b11471cd764ad496c, 0x87625f056c7c4a8b11471cd764ad4979, -475, -124),
      (0xb5b5ada8aaff80b80d819992132456b1, 0xb5b5ada8aaff80b80d819992132456c4, -502, -132),
      (0xf3e2f893dec3f1265a89dba3c3efcced, 0xf3e2f893dec3f1265a89dba3c3efcd08, -529, -140),
      (0xa3ab66580d5fdaf5c13e60d0d2e0ebb0, 0xa3ab66580d5fdaf5c13e60d0d2e0ebc4, -555, -148),
      (0xdbac6c247d62a583df45f746b74abf2b, 0xdbac6c247d62a583df45f746b74abf47, -582, -156),
      (0x936b9fcebb25c995cab10dd900beec2b, 0x936b9fcebb25c995cab10dd900beec3f, -608, -164),
      (0xc5dd44271ad3cdba40eff1e1853f29f0, 0xc5dd44271ad3cdba40eff1e1853f2a0c, -635, -172),
      (0x84c8d4dfd2c63f3b29ecd9f40041e06a, 0x84c8d4dfd2c63f3b29ecd9f40041e07e, -661, -180),
      (0xb23867fb2a35b28de99e619a4f23aa36, 0xb23867fb2a35b28de99e619a4f23aa52, -688, -188),
      (0xef340a98172aace486fb897116c87c22, 0xef340a98172aace486fb897116c87c49, -715, -196),
      (0xa086cfcd97bf97f380e8a40eccd22898, 0xa086cfcd97bf97f380e8a40eccd228b3, -741, -204),
      (0xd77485cb25823ac77d633293366b827a, 0xd77485cb25823ac77d633293366b829f, -768, -212),
      (0x9096ea6f3848984f3ff0d2c85def7616, 0x9096ea6f3848984f3ff0d2c85def762f, -794, -220),
      (0xc21094364dfb5636985915fc12f542d5, 0xc21094364dfb5636985915fc12f542f7, -821, -228),
      (0x823c12795db6ce5776c53d08d6b7084d, 0x823c12795db6ce5776c53d08d6b70865, -847, -236),
      (0xaecc49914078536d58fae9f773886e09, 0xaecc49914078536d58fae9f773886e2a, -874, -244),
      (0xea9c227723ee8bcb465e15a979c1cac7, 0xea9c227723ee8bcb465e15a979c1caf4, -901, -252),
      (0x9d71ac8fada6c9b56f773fc3603db49b, 0x9d71ac8fada6c9b56f773fc3603db4ba, -927, -260),
      (0xd3515c2831559a830d5a5b44ca873df0, 0xd3515c2831559a830d5a5b44ca873e1b, -954, -268),
      (0x8dd01fad907ffc3bae3da7d97f6792d6, 0x8dd01fad907ffc3bae3da7d97f6792f4, -980, -276),
      (0xbe5691ef416bd60c23cc986bc656d541, 0xbe5691ef416bd60c23cc986bc656d56a, -1007, -284),
      (0xff77b1fcbebcdc4f25e8e89c13bb0f61, 0xff77b1fcbebcdc4f25e8e89c13bb0f99, -1034, -292),
      (0xab70fe17c79ac6ca6dbd630a48aaf3f5, 0xab70fe17c79ac6ca6dbd630a48aaf41b, -1060, -300),
      (0xe61acf033d1a45df6fb92487298e33a6, 0xe61acf033d1a45df6fb92487298e33da, -1087, -308),
      (0x9a6bb0aa55653b2d47b233c92125365e, 0x9a6bb0aa55653b2d47b233c921253682, -1113, -316),
      (0xcf42894a5dce35ea52064cac828675a2, 0xcf42894a5dce35ea52064cac828675d4, -1140, -324),
      (0x8b16fb203055ac764c3bcb5021afcc21, 0x8b16fb203055ac764c3bcb5021afcc44, -1166, -332),
      (0xbaaee17fa23ebf765d79bcf00d2df633, 0xbaaee17fa23ebf765d79bcf00d2df663, -1193, -340),
      (0xfa8fd5a0081c02881732c869cd60e434, 0xfa8fd5a0081c02881732c869cd60e476, -1220, -348)]"

lemma chain_up: "chain step_up (bracket_0 # brackets_up)"
  by (simp add: bracket_0_def brackets_up_def step_up_def)

lemma chain_down: "chain step_down (bracket_0 # brackets_down)"
  by (simp add: bracket_0_def brackets_down_def step_down_def)

lemma brackets_0: "brackets bracket_0"
  by (simp add: brackets_def bracket_0_def)

lemma all_brackets: "x \<in> set (rev brackets_down @ bracket_0 # brackets_up) \<Longrightarrow> brackets x"
proof -
  have up: "\<forall>x \<in> set (bracket_0 # brackets_up). brackets x"
    by (rule chain_all [of brackets, OF _ chain_up brackets_0]) (intro allI impI, rule step_up_brackets)
  have down: "\<forall>x \<in> set (bracket_0 # brackets_down). brackets x"
    by (rule chain_all [of brackets, OF _ chain_down brackets_0]) (intro allI impI, rule step_down_brackets)
  assume "x \<in> set (rev brackets_down @ bracket_0 # brackets_up)"
  then consider "x \<in> set (bracket_0 # brackets_up)" | "x \<in> set (bracket_0 # brackets_down)"
    unfolding set_append set_rev by (auto simp only: set_simps)
  then show ?thesis using up down by cases (blast intro: bspec)+
qed

text \<open>
  An entry against its enclosure: the significand is within half a unit of the power. The last two conditions place the
  binary exponent for the lookup by binary exponent.
\<close>

definition entry_ok :: "uint64 \<times> int \<times> int \<Rightarrow> bracket \<Rightarrow> bool" where
  "entry_ok = (\<lambda>(f, b, d) (lo, hi, b', d'). b = b' \<and> d = d' \<and> 2 ^ 63 \<le> unat f \<and>
     (2 * unat f - 1) * 2 ^ 63 \<le> lo \<and> hi \<le> (2 * unat f + 1) * 2 ^ 63 \<and>
     d * 2 ^ 53 + 2 ^ 12 < (b + 64) * log10_2_num \<and> (b + 36) * log10_2_num + 2 ^ 12 \<le> (d - 8) * 2 ^ 53)"

lemma entries_ok: "list_all2 entry_ok kCachedPowers (rev brackets_down @ bracket_0 # brackets_up)"
  by (simp add: kCachedPowers_def brackets_down_def bracket_0_def brackets_up_def entry_ok_def log10_2_num_def)

lemma entry_exponents: "map (\<lambda>(f, b, d). d) kCachedPowers = map (\<lambda>i. 8 * int i - 348) [0..<87]"
  by (simp add: kCachedPowers_def upt_rec)

lemma length_kCachedPowers: "length kCachedPowers = 87"
  by (simp add: kCachedPowers_def)

text \<open>What the proofs about the lookups use of an entry.\<close>

lemma entry_facts:
  assumes i: "i < 87" and e: "kCachedPowers ! i = (f, b, d)"
  shows "d = 8 * int i - 348" "2 ^ 63 \<le> unat f" "\<bar>real (unat f) * 2 powi b - 10 powi d\<bar> \<le> 2 powi (b - 1)"
    "d * 2 ^ 53 + 2 ^ 12 < (b + 64) * log10_2_num" "(b + 36) * log10_2_num + 2 ^ 12 \<le> (d - 8) * 2 ^ 53"
proof -
  have len: "i < length kCachedPowers" using i by (simp add: length_kCachedPowers)
  have "map (\<lambda>(f, b, d). d) kCachedPowers ! i = map (\<lambda>i. 8 * int i - 348) [0..<87] ! i"
    by (simp only: entry_exponents)
  then show "d = 8 * int i - 348" using i len e by simp
  let ?B = "(rev brackets_down @ bracket_0 # brackets_up) ! i"
  obtain lo hi b' d' where B: "?B = (lo, hi, b', d')" by (cases ?B)
  have "entry_ok (f, b, d) ?B" using list_all2_nthD [OF entries_ok len] e by simp
  then have ok: "b' = b" "d' = d" "2 ^ 63 \<le> unat f" "(2 * unat f - 1) * 2 ^ 63 \<le> lo" "hi \<le> (2 * unat f + 1) * 2 ^ 63"
    and pos: "d * 2 ^ 53 + 2 ^ 12 < (b + 64) * log10_2_num" "(b + 36) * log10_2_num + 2 ^ 12 \<le> (d - 8) * 2 ^ 53"
    unfolding B entry_ok_def prod.case by blast+
  then show "2 ^ 63 \<le> unat f" "d * 2 ^ 53 + 2 ^ 12 < (b + 64) * log10_2_num"
    "(b + 36) * log10_2_num + 2 ^ 12 \<le> (d - 8) * 2 ^ 53" by blast+
  have "brackets ?B"
    using i len list_all2_lengthD [OF entries_ok] by (intro all_brackets nth_mem) (simp add: length_kCachedPowers)
  then have br: "real lo * 2 powi (b - 64) \<le> 10 powi d" "10 powi d \<le> real hi * 2 powi (b - 64)"
    using B ok by (simp_all add: brackets_def)
  have s: "2 powi b = 2 ^ 64 * (2 :: real) powi (b - 64)" "2 powi (b - 1) = 2 ^ 63 * (2 :: real) powi (b - 64)"
    by (simp_all add: power_int_diff)
  have "real ((2 * unat f - 1) * 2 ^ 63) * 2 powi (b - 64) \<le> real lo * 2 powi (b - 64)"
    using ok(4) by (intro mult_right_mono) (simp_all only: of_nat_le_iff, simp)
  moreover have "real hi * 2 powi (b - 64) \<le> real ((2 * unat f + 1) * 2 ^ 63) * 2 powi (b - 64)"
    using ok(5) by (intro mult_right_mono) (simp_all only: of_nat_le_iff, simp)
  moreover have "real (2 * unat f - 1) = 2 * real (unat f) - 1" using ok(3) by (simp add: of_nat_diff)
  ultimately show "\<bar>real (unat f) * 2 powi b - 10 powi d\<bar> \<le> 2 powi (b - 1)"
    unfolding s using br by (simp add: abs_le_iff algebra_simps)
qed

section \<open>The lookups\<close>

lemma GetCachedPowerForDecimalExponent_correct:
  assumes "-348 \<le> n" "n < 348"
  shows "returns (GetCachedPowerForDecimalExponent n) (\<lambda>(power, found). normalized power \<and>
    found \<le> n \<and> n < found + 8 \<and> \<bar>diy_val power - 10 powi found\<bar> \<le> 2 powi (diy_e power - 1))"
proof -
  define i where "i = nat ((n + 348) div 8)"
  have i: "i < 87" "int i = (n + 348) div 8" using assms by (simp_all add: i_def) 
  obtain f b d where e: "kCachedPowers ! i = (f, b, d)" by (cases "kCachedPowers ! i")
  note facts = entry_facts [OF i(1) e]
  have idx: "cdiv (n + 348) 8 = int i" using assms i by (simp add: cdiv_def)
  have "d \<le> n" "n < d + 8" using facts(1) i(2) by linarith+
  with facts i(1) e idx assms show ?thesis
    by (simp add: GetCachedPowerForDecimalExponent_def wp kMinDecimalExponent_def kMaxDecimalExponent_def
        kCachedPowersOffset_def kDecimalExponentDistance_def length_kCachedPowers Let_def normalized_def mk_diy_def
        diy_val_def)
qed

lemma ceil_log10_bounds:
  assumes "\<bar>x\<bar> \<le> 1150"
  shows "x * log10_2_num \<le> ceil_log10 x * 2 ^ 53 + 2 ^ 9" "(ceil_log10 x - 1) * 2 ^ 53 < x * log10_2_num + 2 ^ 9"
proof -
  let ?r = "round53 (x * log10_2_num)"
  have "\<bar>x * log10_2_num\<bar> \<le> 1150 * log10_2_num"
    unfolding abs_mult using assms by (intro mult_mono) (auto simp: log10_2_num_def)
  then have "\<bar>x * log10_2_num\<bar> < 2 ^ 62" by (simp add: log10_2_num_def)
  from round53_error [OF this] have r: "\<bar>?r - x * log10_2_num\<bar> \<le> 2 ^ 9" by simp
  define q where "q = (- ?r) div 2 ^ 53"
  have "q * 2 ^ 53 \<le> - ?r" "- ?r < (q + 1) * 2 ^ 53"
    unfolding q_def using div_mult_mod_eq [of "- ?r" "2 ^ 53"] pos_mod_bound [of "2 ^ 53" "- ?r"]
      pos_mod_sign [of "2 ^ 53" "- ?r"] by (simp_all add: algebra_simps)
  moreover have "ceil_log10 x = - q" by (simp add: ceil_log10_def q_def)
  ultimately show "x * log10_2_num \<le> ceil_log10 x * 2 ^ 53 + 2 ^ 9" "(ceil_log10 x - 1) * 2 ^ 53 < x * log10_2_num + 2 ^ 9"
    using r by (simp_all add: abs_le_iff algebra_simps)
qed

lemma GetCachedPowerForBinaryExponentRange_correct:
  assumes x: "\<bar>min_e + 63\<bar> \<le> 1100" and m: "min_e + 28 \<le> max_e"
  shows "returns (GetCachedPowerForBinaryExponentRange min_e max_e) (\<lambda>(power, d). normalized power \<and>
    min_e \<le> diy_e power \<and> diy_e power \<le> max_e \<and> diy_e power \<le> min_e + 26 \<and>
    \<bar>diy_val power - 10 powi d\<bar> \<le> 2 powi (diy_e power - 1) \<and> -348 \<le> d \<and> d \<le> 340)"
proof -
  let ?x = "min_e + 63"
  define k where "k = ceil_log10 ?x"
  have "\<bar>?x\<bar> \<le> 1150" using x by simp
  note kb = ceil_log10_bounds [OF this, folded k_def]
  have "-332 \<le> k" "k \<le> 332"
    using kb x by (auto simp: log10_2_num_def abs_le_iff)
  define i where "i = nat ((347 + k) div 8 + 1)"
  have i: "int i = (347 + k) div 8 + 1" "i < 87" using \<open>-332 \<le> k\<close> \<open>k \<le> 332\<close> by (simp_all add: i_def)
  obtain f b d where e: "kCachedPowers ! i = (f, b, d)" by (cases "kCachedPowers ! i")
  note facts = entry_facts [OF i(2) e]
  have d: "k \<le> d" "d \<le> k + 7" using facts(1) i(1) by linarith+
  have eps: "(2 :: int) ^ 9 < 2 ^ 12" by simp
  have dk: "k * 2 ^ 53 \<le> d * 2 ^ 53" "(d - 8) * 2 ^ 53 \<le> (k - 1) * 2 ^ 53" using d by simp_all
  have "min_e \<le> b"
  proof (rule ccontr)
    assume "\<not> min_e \<le> b"
    then have "(b + 64) * log10_2_num \<le> ?x * log10_2_num" by (intro mult_right_mono) (auto simp: log10_2_num_def)
    with facts(4) dk(1) kb(1) eps show False by linarith
  qed
  moreover have "b \<le> min_e + 26"
  proof (rule ccontr)
    assume "\<not> b \<le> min_e + 26"
    then have "?x * log10_2_num \<le> (b + 36) * log10_2_num" by (intro mult_right_mono) (auto simp: log10_2_num_def)
    with facts(5) dk(2) kb(2) eps show False by linarith
  qed
  moreover have "-348 \<le> d" "d \<le> 340" using facts(1) i(2) by simp_all
  moreover have idx: "cdiv (348 + k - 1) 8 + 1 = int i" using i \<open>-332 \<le> k\<close> by (simp add: cdiv_def)
  moreover have k64: "ceil_log10 (min_e + 64 - 1) = k" by (simp add: k_def add.commute)
  ultimately show ?thesis
    unfolding GetCachedPowerForBinaryExponentRange_def Let_def k64 kCachedPowersOffset_def kDecimalExponentDistance_def
      idx nat_int kCachedPowersLength_def returns_bind returns_check returns_vget length_kCachedPowers e prod.case
      returns_Some
    using facts(2,3) i(2) m by (simp add: normalized_def mk_diy_def diy_val_def)
qed

section \<open>Properties\<close>

text \<open>
  C35: the lookup by decimal exponent returns for every exponent of its range, finds the power of the table just below,
  and the entry is that power of ten rounded to a normalized 64-bit significand, off by at most half a unit.
\<close>

theorem cached_power_for_decimal_exponent:
  assumes "kMinDecimalExponent \<le> n" "n < kMaxDecimalExponent + kDecimalExponentDistance"
  shows "returns (GetCachedPowerForDecimalExponent n) (\<lambda>(power, found). normalized power \<and>
    found \<le> n \<and> n < found + 8 \<and> \<bar>diy_val power - 10 powi found\<bar> \<le> 2 powi (diy_e power - 1))"
  using assms
  by (intro GetCachedPowerForDecimalExponent_correct)
    (simp_all add: kMinDecimalExponent_def kMaxDecimalExponent_def kDecimalExponentDistance_def)

theorem cached_power_for_decimal_exponent_witness:
  "returns (GetCachedPowerForDecimalExponent (-345)) (\<lambda>(power, found). normalized power \<and>
    found \<le> -345 \<and> -345 < found + 8 \<and> \<bar>diy_val power - 10 powi found\<bar> \<le> 2 powi (diy_e power - 1))"
  using cached_power_for_decimal_exponent [of "-345"]
  by (simp add: kMinDecimalExponent_def kMaxDecimalExponent_def kDecimalExponentDistance_def)

text \<open>
  C36: the lookup by binary exponent, whose index is estimated in \<open>double\<close> arithmetic, returns an accurate power whose
  binary exponent lies in the asked range, for every range of at least 28 exponents that the shortest conversion asks.
\<close>

theorem cached_power_for_binary_exponent:
  assumes "\<bar>min_e + 63\<bar> \<le> 1100" "min_e + 28 \<le> max_e"
  shows "returns (GetCachedPowerForBinaryExponentRange min_e max_e) (\<lambda>(power, d). normalized power \<and>
    min_e \<le> diy_e power \<and> diy_e power \<le> max_e \<and> \<bar>diy_val power - 10 powi d\<bar> \<le> 2 powi (diy_e power - 1))"
  by (rule returns_mono [OF GetCachedPowerForBinaryExponentRange_correct [OF assms]]) auto

theorem cached_power_for_binary_exponent_witness:
  "returns (GetCachedPowerForBinaryExponentRange (-84) (-56)) (\<lambda>(power, d). normalized power \<and>
    -84 \<le> diy_e power \<and> diy_e power \<le> -56 \<and> \<bar>diy_val power - 10 powi d\<bar> \<le> 2 powi (diy_e power - 1))"
  using cached_power_for_binary_exponent [of "-84" "-56"] by simp

end
