(* ===== verification/Utils.thy ===== *)
theory Utils
  imports Digits
begin

text \<open>
  \<open>double-conversion/utils.h\<close>: the part of \<open>Vector\<close> that the prelude does not have, C strings, and the class
  \<open>StringBuilder\<close>, which appends to a buffer with a bounds check on every operation. The invariant of a builder is
  \<open>sb_inv\<close>; \<open>written\<close> is the text written so far, and every operation is an append to it.
\<close>

section \<open>Vector and C strings\<close>

definition SubVector :: "'a list \<Rightarrow> nat \<Rightarrow> nat \<Rightarrow> 'a list result" where
  "SubVector v from to = do {
     check (to \<le> length v);
     check (from < to);
     Some (take (to - from) (drop from v))
   }"

text \<open>A C string is the characters of an array before its first zero character.\<close>

definition strlen :: "string \<Rightarrow> nat" where
  "strlen s = length (takeWhile (\<lambda>c. c \<noteq> CHR 0x00) s)"

definition StrLength :: "string \<Rightarrow> nat result" where
  "StrLength s = do { check (strlen s < 2 ^ 31); Some (strlen s) }"

section \<open>StringBuilder\<close>

record string_builder =
  sb_buffer :: string
  sb_position :: int

definition new_builder :: "string \<Rightarrow> string_builder" where
  "new_builder buffer = \<lparr>sb_buffer = buffer, sb_position = 0\<rparr>"

definition is_finalized :: "string_builder \<Rightarrow> bool" where
  "is_finalized b \<longleftrightarrow> sb_position b < 0"

definition builder_size :: "string_builder \<Rightarrow> nat" where
  "builder_size b = length (sb_buffer b)"

definition builder_position :: "string_builder \<Rightarrow> int result" where
  "builder_position b = do { check (\<not> is_finalized b); Some (sb_position b) }"

definition Reset :: "string_builder \<Rightarrow> string_builder" where
  "Reset b = b\<lparr>sb_position := 0\<rparr>"

definition AddCharacter :: "char \<Rightarrow> string_builder \<Rightarrow> string_builder result" where
  "AddCharacter c b = do {
     check (c \<noteq> CHR 0x00);
     check (\<not> is_finalized b \<and> sb_position b < int (builder_size b));
     buffer \<leftarrow> vset (sb_buffer b) (nat (sb_position b)) c;
     Some \<lparr>sb_buffer = buffer, sb_position = sb_position b + 1\<rparr>
   }"

text \<open>\<open>memmove\<close> copies \<open>n\<close> characters to the position; the two arrays do not overlap.\<close>

definition AddSubstring :: "string \<Rightarrow> int \<Rightarrow> string_builder \<Rightarrow> string_builder result" where
  "AddSubstring s n b = do {
     check (\<not> is_finalized b \<and> sb_position b + n < int (builder_size b));
     check (0 \<le> n \<and> n \<le> int (strlen s));
     let p = nat (sb_position b);
     Some \<lparr>sb_buffer = take p (sb_buffer b) @ take (nat n) s @ drop (p + nat n) (sb_buffer b),
           sb_position = sb_position b + n\<rparr>
   }"

definition AddString :: "string \<Rightarrow> string_builder \<Rightarrow> string_builder result" where
  "AddString s b = do { n \<leftarrow> StrLength s; AddSubstring s (int n) b }"

definition AddPadding :: "char \<Rightarrow> int \<Rightarrow> string_builder \<Rightarrow> string_builder result" where
  "AddPadding c count b = for_up 0 (nat count) (\<lambda>i b. AddCharacter c b) b"

definition Finalize :: "string_builder \<Rightarrow> string_builder result" where
  "Finalize b = do {
     check (\<not> is_finalized b \<and> sb_position b < int (builder_size b));
     buffer \<leftarrow> vset (sb_buffer b) (nat (sb_position b)) (CHR 0x00);
     check (strlen buffer = nat (sb_position b));
     let b = \<lparr>sb_buffer = buffer, sb_position = -1\<rparr>;
     check (is_finalized b);
     Some b
   }"

section \<open>A builder and its text\<close>

text \<open>
  \<open>holds b n s\<close>: the builder is not finalized, has a buffer of \<open>n\<close> characters and has written the text \<open>s\<close>, which has
  no zero character. A computation \<open>writes f t\<close> when it appends the text \<open>t\<close> to every builder with room for it and a
  terminating zero; writers compose.
\<close>

definition holds :: "string_builder \<Rightarrow> nat \<Rightarrow> string \<Rightarrow> bool" where
  "holds b n s \<longleftrightarrow> builder_size b = n \<and> sb_position b = int (length s) \<and> length s \<le> n \<and>
     take (length s) (sb_buffer b) = s \<and> CHR 0x00 \<notin> set s"

definition writes :: "(string_builder \<Rightarrow> string_builder result) \<Rightarrow> string \<Rightarrow> bool" where
  "writes f t \<longleftrightarrow> (\<forall>b n s. holds b n s \<longrightarrow> length s + length t < n \<longrightarrow> returns (f b) (\<lambda>b'. holds b' n (s @ t)))"

lemma writesI:
  "(\<And>b n s. holds b n s \<Longrightarrow> length s + length t < n \<Longrightarrow> returns (f b) (\<lambda>b'. holds b' n (s @ t))) \<Longrightarrow> writes f t"
  by (simp add: writes_def)

lemma writesD:
  "writes f t \<Longrightarrow> holds b n s \<Longrightarrow> length s + length t < n \<Longrightarrow> returns (f b) (\<lambda>b'. holds b' n (s @ t))"
  by (simp add: writes_def)

lemma holds_new: "holds (new_builder buffer) (length buffer) []"
  by (simp add: holds_def new_builder_def builder_size_def)

lemma holds_Reset: "holds b n s \<Longrightarrow> holds (Reset b) n []"
  by (simp add: holds_def Reset_def builder_size_def)

lemma AddCharacter_holds:
  assumes "c \<noteq> CHR 0x00" "holds b n s" "length s < n"
  shows "returns (AddCharacter c b) (\<lambda>b'. holds b' n (s @ [c]))"
  using assms
  by (auto simp: AddCharacter_def wp holds_def is_finalized_def builder_size_def take_Suc_conv_app_nth)

lemma AddSubstring_holds:
  assumes "0 \<le> k" "nat k \<le> strlen t" "holds b n s" "length s + nat k < n"
  shows "returns (AddSubstring t k b) (\<lambda>b'. holds b' n (s @ take (nat k) t))"
proof -
  have len: "nat k \<le> length t"
    using assms(2) length_takeWhile_le [of "\<lambda>c. c \<noteq> CHR 0x00" t] by (simp add: strlen_def)
  have "take (nat k) t = take (nat k) (takeWhile (\<lambda>c. c \<noteq> CHR 0x00) t)"
    using assms(2) by (metis strlen_def takeWhile_eq_take take_take min.absorb1)
  then have "CHR 0x00 \<notin> set (take (nat k) t)"
    by (metis (full_types) in_set_takeD set_takeWhileD)
  then show ?thesis
    using assms len by (auto simp: AddSubstring_def wp Let_def holds_def is_finalized_def builder_size_def)
qed

lemma strlen_no_zero: "CHR 0x00 \<notin> set t \<Longrightarrow> strlen t = length t"
proof -
  assume "CHR 0x00 \<notin> set t"
  then have "takeWhile (\<lambda>c. c \<noteq> CHR 0x00) t = t" by (auto simp: takeWhile_eq_all_conv)
  then show ?thesis by (simp only: strlen_def)
qed

lemma strlen_ge: "k \<le> length t \<Longrightarrow> CHR 0x00 \<notin> set (take k t) \<Longrightarrow> k \<le> strlen t"
proof -
  assume k: "k \<le> length t" "CHR 0x00 \<notin> set (take k t)"
  then have "takeWhile (\<lambda>c. c \<noteq> CHR 0x00) (take k t @ drop k t) = take k t @ takeWhile (\<lambda>c. c \<noteq> CHR 0x00) (drop k t)"
    by (intro takeWhile_append2) auto
  then have "strlen t = k + strlen (drop k t)" using k(1) by (simp add: strlen_def)
  then show ?thesis by simp
qed

lemma AddPadding_holds:
  assumes c: "c \<noteq> CHR 0x00" and h: "holds b n s" and room: "length s + nat k \<le> n"
  shows "returns (AddPadding c k b) (\<lambda>b'. holds b' n (s @ replicate (nat k) c))"
  unfolding AddPadding_def
proof (rule returns_for_up [where I = "\<lambda>i b'. holds b' n (s @ replicate i c)"], goal_cases)
  case (3 i b')
  then show ?case
    using AddCharacter_holds [OF c 3(3)] room by (simp add: replicate_append_same [symmetric])
qed (use h in simp_all)

text \<open>The writers, and their composition.\<close>

lemma writes_nothing: "writes Some []"
  by (rule writesI) simp

lemma writes_text: "writes f s \<Longrightarrow> s = t \<Longrightarrow> writes f t"
  by simp

lemma writes_bind:
  assumes f: "writes f s" and g: "writes g t"
  shows "writes (\<lambda>b. Option.bind (f b) g) (s @ t)"
proof (rule writesI)
  fix b n u assume h: "holds b n u" and room: "length u + length (s @ t) < n"
  then show "returns (Option.bind (f b) g) (\<lambda>b'. holds b' n (u @ s @ t))"
    using writesD [OF f h] writesD [OF g, of _ n "u @ s"]
    by (auto simp: returns_bind elim!: returns_mono)
qed

lemma writes_AddCharacter: "c \<noteq> CHR 0x00 \<Longrightarrow> writes (AddCharacter c) [c]"
  by (rule writesI) (simp add: AddCharacter_holds)

lemma writes_AddSubstring:
  assumes "0 \<le> k" "nat k \<le> length t" "CHR 0x00 \<notin> set (take (nat k) t)"
  shows "writes (AddSubstring t k) (take (nat k) t)"
  using AddSubstring_holds [OF assms(1) strlen_ge [OF assms(2,3)]] assms(2) by (intro writesI) simp

lemma writes_AddString:
  assumes "CHR 0x00 \<notin> set t" "length t < 2 ^ 31"
  shows "writes (AddString t) t"
  using writes_AddSubstring [of "int (length t)" t] assms
  by (simp add: AddString_def [abs_def] StrLength_def strlen_no_zero check_def)

lemma writes_AddPadding: "c \<noteq> CHR 0x00 \<Longrightarrow> writes (AddPadding c k) (replicate (nat k) c)"
  by (rule writesI) (simp add: AddPadding_holds)

lemma writes_if: "writes f s \<Longrightarrow> writes g t \<Longrightarrow> writes (\<lambda>b. if p then f b else g b) (if p then s else t)"
  by simp

text \<open>\<open>Finalize\<close> terminates the text.\<close>

lemma Finalize_holds:
  assumes h: "holds b n s" and room: "length s < n"
  shows "returns (Finalize b) (\<lambda>b'. is_finalized b' \<and> take (strlen (sb_buffer b')) (sb_buffer b') = s)"
proof -
  let ?buf = "(sb_buffer b)[length s := CHR 0x00]"
  have len: "length (sb_buffer b) = n" and t: "take (length s) ?buf = s" and z: "CHR 0x00 \<notin> set s"
    using h by (simp_all add: holds_def builder_size_def)
  have split: "?buf = s @ CHR 0x00 # drop (Suc (length s)) (sb_buffer b)"
    using h room upd_conv_take_nth_drop [of "length s" "sb_buffer b" "CHR 0x00"]
    by (simp add: holds_def builder_size_def)
  have "strlen ?buf = length s"
    unfolding split strlen_def using z by (subst takeWhile_append2) auto
  then show ?thesis
    using h room t len by (simp add: Finalize_def wp Let_def holds_def is_finalized_def builder_size_def)
qed

end
