(* ===== verification/Strtod.thy ===== *)
theory Strtod
  imports CachedPowers Bignum_Mult FloatOps Utils
begin

text \<open>
  \<open>double-conversion/strtod.cc\<close>: the conversion of decimal digits with a decimal exponent to a \<open>double\<close> or a
  \<open>float\<close>. A \<open>Vector<const char>\<close> is the list of its characters. An operation that returns a truth value beside a
  \<open>double\<close> returns both.
\<close>

definition kMaxExactDoubleIntegerDecimalDigits :: nat where "kMaxExactDoubleIntegerDecimalDigits = 15"
definition kMaxUint64DecimalDigits :: int where "kMaxUint64DecimalDigits = 19"
definition kMaxDecimalPower :: int where "kMaxDecimalPower = 309"
definition kMinDecimalPower :: int where "kMinDecimalPower = -324"
definition kMaxUint64 :: uint64 where "kMaxUint64 = 0xFFFFFFFFFFFFFFFF"
definition kMaxSignificantDecimalDigits :: nat where "kMaxSignificantDecimalDigits = 780"

definition exact_powers_of_ten :: "double list" where
  "exact_powers_of_ten = map (\<lambda>n. round_double n 1)
     [1,
      10,
      100,
      1000,
      10000,
      100000,
      1000000,
      10000000,
      100000000,
      1000000000,
      10000000000,
      100000000000,
      1000000000000,
      10000000000000,
      100000000000000,
      1000000000000000,
      10000000000000000,
      100000000000000000,
      1000000000000000000,
      10000000000000000000,
      100000000000000000000,
      1000000000000000000000,
      10000000000000000000000]"

definition kExactPowersOfTenSize :: int where
  "kExactPowersOfTenSize = int (length exact_powers_of_ten)"

section \<open>Trimming\<close>

definition TrimLeadingZeros :: "string \<Rightarrow> string result" where
  "TrimLeadingZeros buffer = do {
     i \<leftarrow> while_loop
       (\<lambda>i. if i < length buffer then do { c \<leftarrow> vget buffer i; Some (c = CHR ''0'') } else Some False)
       (\<lambda>i. Some (i + 1)) 0;
     if i < length buffer then SubVector buffer i (length buffer) else Some []
   }"

text \<open>\<open>i + 1\<close> is kept in place of \<open>i\<close>, which ends as \<open>-1\<close>.\<close>

definition TrimTrailingZeros :: "string \<Rightarrow> string result" where
  "TrimTrailingZeros buffer = do {
     i1 \<leftarrow> while_loop
       (\<lambda>i1. if i1 > 0 then do { c \<leftarrow> vget buffer (i1 - 1); Some (c = CHR ''0'') } else Some False)
       (\<lambda>i1. Some (i1 - 1)) (length buffer);
     if i1 > 0 then SubVector buffer 0 i1 else Some []
   }"

definition CutToMaxSignificantDigits :: "string \<Rightarrow> int \<Rightarrow> string \<Rightarrow> (string \<times> int) result" where
  "CutToMaxSignificantDigits buffer e significant_buffer = do {
     significant_buffer \<leftarrow> for_up 0 (kMaxSignificantDecimalDigits - 1)
       (\<lambda>i significant_buffer. do { c \<leftarrow> vget buffer i; vset significant_buffer i c }) significant_buffer;
     c \<leftarrow> vget buffer (length buffer - 1);
     check (c \<noteq> CHR ''0'');
     significant_buffer \<leftarrow> vset significant_buffer (kMaxSignificantDecimalDigits - 1) CHR ''1'';
     significant_exponent \<leftarrow> as_int32 (e + (int (length buffer) - int kMaxSignificantDecimalDigits));
     Some (significant_buffer, significant_exponent)
   }"

text \<open>The copy space is the array that the callers allocate; it has \<open>space_size\<close> characters.\<close>

definition TrimAndCut :: "string \<Rightarrow> int \<Rightarrow> string \<Rightarrow> (string \<times> int) result" where
  "TrimAndCut buffer e buffer_copy_space = do {
     left_trimmed \<leftarrow> TrimLeadingZeros buffer;
     right_trimmed \<leftarrow> TrimTrailingZeros left_trimmed;
     e \<leftarrow> as_int32 (e + (int (length left_trimmed) - int (length right_trimmed)));
     if length right_trimmed > kMaxSignificantDecimalDigits then do {
       check (length buffer_copy_space \<ge> kMaxSignificantDecimalDigits);
       (copy, updated_exponent) \<leftarrow> CutToMaxSignificantDigits right_trimmed e buffer_copy_space;
       Some (take kMaxSignificantDecimalDigits copy, updated_exponent)
     } else Some (right_trimmed, e)
   }"

section \<open>Reading digits\<close>

definition ReadUint64 :: "string \<Rightarrow> (uint64 \<times> nat) result" where
  "ReadUint64 buffer = while_loop
     (\<lambda>(result, i). Some (i < length buffer \<and> result \<le> kMaxUint64 div 10 - 1))
     (\<lambda>(result, i). do {
        c \<leftarrow> vget buffer i;
        let digit = digit_of_char c;
        check (0 \<le> digit \<and> digit \<le> 9);
        Some (10 * result + of_int digit, i + 1) }) (0, 0)"

definition ReadDiyFp :: "string \<Rightarrow> (diy_fp \<times> int) result" where
  "ReadDiyFp buffer = do {
     (significand, read_digits) \<leftarrow> ReadUint64 buffer;
     if length buffer = read_digits then Some (mk_diy significand 0, 0)
     else do {
       c \<leftarrow> vget buffer read_digits;
       let significand = (if of_char c \<ge> (of_char CHR ''5'' :: int) then significand + 1 else significand);
       Some (mk_diy significand 0, int (length buffer) - int read_digits)
     }
   }"

section \<open>The guesses\<close>

text \<open>
  The targets define \<open>DOUBLE_CONVERSION_CORRECT_DOUBLE_OPERATIONS\<close>, so that the function goes past its first line.
  The inner option is \<open>None\<close> where the source returns \<open>false\<close> without a result.
\<close>

definition DoubleStrtod :: "string \<Rightarrow> int \<Rightarrow> double option result" where
  "DoubleStrtod trimmed e =
     (if length trimmed \<le> kMaxExactDoubleIntegerDecimalDigits then do {
        let remaining_digits = int kMaxExactDoubleIntegerDecimalDigits - int (length trimmed);
        if e < 0 \<and> - e < kExactPowersOfTenSize then do {
          (n, read_digits) \<leftarrow> ReadUint64 trimmed;
          check (read_digits = length trimmed);
          power \<leftarrow> vget exact_powers_of_ten (nat (- e));
          Some (Some (double_divide (double_of_uint64 n) power))
        } else if 0 \<le> e \<and> e < kExactPowersOfTenSize then do {
          (n, read_digits) \<leftarrow> ReadUint64 trimmed;
          check (read_digits = length trimmed);
          power \<leftarrow> vget exact_powers_of_ten (nat e);
          Some (Some (double_mult (double_of_uint64 n) power))
        } else if 0 \<le> e \<and> e - remaining_digits < kExactPowersOfTenSize then do {
          (n, read_digits) \<leftarrow> ReadUint64 trimmed;
          check (read_digits = length trimmed);
          power1 \<leftarrow> vget exact_powers_of_ten (nat remaining_digits);
          power2 \<leftarrow> vget exact_powers_of_ten (nat (e - remaining_digits));
          Some (Some (double_mult (double_mult (double_of_uint64 n) power1) power2))
        } else Some None
      } else Some None)"

definition AdjustmentPowerOfTen :: "int \<Rightarrow> diy_fp result" where
  "AdjustmentPowerOfTen e = do {
     check (0 < e);
     check (e < kDecimalExponentDistance);
     check (kDecimalExponentDistance = 8);
     if e = 1 then Some (mk_diy 0xa000000000000000 (-60))
     else if e = 2 then Some (mk_diy 0xc800000000000000 (-57))
     else if e = 3 then Some (mk_diy 0xfa00000000000000 (-54))
     else if e = 4 then Some (mk_diy 0x9c40000000000000 (-50))
     else if e = 5 then Some (mk_diy 0xc350000000000000 (-47))
     else if e = 6 then Some (mk_diy 0xf424000000000000 (-44))
     else if e = 7 then Some (mk_diy 0x9896800000000000 (-40))
     else None
   }"

text \<open>
  \<open>input.Normalize()\<close> with the error that goes along: \<open>error <<= old_e - input.e()\<close>.
\<close>

definition normalize_with_error :: "diy_fp \<Rightarrow> uint64 \<Rightarrow> (diy_fp \<times> uint64) result" where
  "normalize_with_error input error = do {
     let old_e = diy_e input;
     input \<leftarrow> Normalize input;
     check (0 \<le> old_e - diy_e input \<and> old_e - diy_e input < 64);
     Some (input, push_bit (nat (old_e - diy_e input)) error)
   }"

text \<open>
  The last part of \<open>DiyFpStrtod\<close>: round the input, whose error is in eighths of its last place, to the significand
  of a double. \<open>round_bits\<close> cuts \<open>precision_digits_count\<close> bits off; the truth value says that they are not too close
  to the middle.
\<close>

definition round_bits :: "diy_fp \<Rightarrow> uint64 \<Rightarrow> int \<Rightarrow> (bool \<times> double) result" where
  "round_bits input error precision_digits_count = do {
     let kDenominator = push_bit 3 (1 :: uint64);
     check (precision_digits_count < 64);
     let one64 = (1 :: uint64);
     let precision_bits_mask = push_bit (nat precision_digits_count) one64 - 1;
     let precision_bits = diy_f input AND precision_bits_mask;
     let half_way = push_bit (nat (precision_digits_count - 1)) one64;
     let precision_bits = precision_bits * kDenominator;
     let half_way = half_way * kDenominator;
     let rounded_input = mk_diy (drop_bit (nat precision_digits_count) (diy_f input))
                           (diy_e input + precision_digits_count);
     let rounded_input =
       (if precision_bits \<ge> half_way + error then rounded_input\<lparr>diy_f := diy_f rounded_input + 1\<rparr>
        else rounded_input);
     result \<leftarrow> DiyFpToUint64 rounded_input;
     Some (\<not> (half_way - error < precision_bits \<and> precision_bits < half_way + error), result)
   }"

text \<open>The first lines are the case of very small denormals.\<close>

definition round_diy :: "diy_fp \<Rightarrow> uint64 \<Rightarrow> (bool \<times> double) result" where
  "round_diy input error = do {
     let kDenominatorLog = 3;
     let kDenominator = push_bit kDenominatorLog (1 :: uint64);
     let order_of_magnitude = 64 + diy_e input;
     let effective_significand_size = D_SignificandSizeForOrderOfMagnitude order_of_magnitude;
     let precision_digits_count = 64 - effective_significand_size;
     if precision_digits_count + int kDenominatorLog \<ge> 64 then do {
       let shift_amount = precision_digits_count + int kDenominatorLog - 64 + 1;
       round_bits (mk_diy (drop_bit (nat shift_amount) (diy_f input)) (diy_e input + shift_amount))
         (drop_bit (nat shift_amount) error + 1 + kDenominator)
         (precision_digits_count - shift_amount)
     } else round_bits input error precision_digits_count
   }"

definition DiyFpStrtod :: "string \<Rightarrow> int \<Rightarrow> (bool \<times> double) result" where
  "DiyFpStrtod buffer e = do {
     (input, remaining_decimals) \<leftarrow> ReadDiyFp buffer;
     let kDenominator = push_bit 3 (1 :: uint64);
     let e = e + remaining_decimals;
     let error = (if remaining_decimals = 0 then 0 else kDenominator div 2);
     (input, error) \<leftarrow> normalize_with_error input error;
     check (e \<le> kMaxDecimalExponent);
     if e < kMinDecimalExponent then Some (True, 0)
     else do {
       (cached_power, cached_decimal_exponent) \<leftarrow> GetCachedPowerForDecimalExponent e;
       (input, error) \<leftarrow>
         (if cached_decimal_exponent \<noteq> e then do {
            let adjustment_exponent = e - cached_decimal_exponent;
            adjustment_power \<leftarrow> AdjustmentPowerOfTen adjustment_exponent;
            let input = Multiply input adjustment_power;
            Some (input, if kMaxUint64DecimalDigits - int (length buffer) \<ge> adjustment_exponent
                         then error else error + kDenominator div 2)
          } else Some (input, error));
       let input = Multiply input cached_power;
       let error_b = kDenominator div 2;
       let error_ab = (if error = 0 then 0 else 1);
       let fixed_error = kDenominator div 2;
       let error = error + (error_b + error_ab + fixed_error);
       (input, error) \<leftarrow> normalize_with_error input error;
       round_diy input error
     }
   }"

section \<open>Comparison with a boundary\<close>

abbreviation kMaxSignificantBits :: int where "kMaxSignificantBits \<equiv> 3584"

definition CompareBufferWithDiyFp :: "string \<Rightarrow> int \<Rightarrow> diy_fp \<Rightarrow> int result" where
  "CompareBufferWithDiyFp buffer e diy_fp = do {
     check (int (length buffer) + e \<le> kMaxDecimalPower + 1);
     check (int (length buffer) + e > kMinDecimalPower);
     check (length buffer \<le> kMaxSignificantDecimalDigits);
     check ((kMaxDecimalPower + 1) * 333 div 100 < kMaxSignificantBits);
     buffer_bignum \<leftarrow> AssignDecimalString new_bignum buffer;
     diy_fp_bignum \<leftarrow> AssignUInt64 new_bignum (diy_f diy_fp);
     (buffer_bignum, diy_fp_bignum) \<leftarrow>
       (if e \<ge> 0 then do {
          b \<leftarrow> MultiplyByPowerOfTen buffer_bignum (nat e);
          Some (b, diy_fp_bignum)
        } else do {
          d \<leftarrow> MultiplyByPowerOfTen diy_fp_bignum (nat (- e));
          Some (buffer_bignum, d)
        });
     (buffer_bignum, diy_fp_bignum) \<leftarrow>
       (if diy_e diy_fp > 0 then do {
          d \<leftarrow> ShiftLeft diy_fp_bignum (nat (diy_e diy_fp));
          Some (buffer_bignum, d)
        } else do {
          b \<leftarrow> ShiftLeft buffer_bignum (nat (- diy_e diy_fp));
          Some (b, diy_fp_bignum)
        });
     Compare buffer_bignum diy_fp_bignum
   }"

definition ComputeGuess :: "string \<Rightarrow> int \<Rightarrow> (bool \<times> double) result" where
  "ComputeGuess trimmed e =
     (if length trimmed = 0 then Some (True, 0)
      else do {
        digits_end \<leftarrow> as_int32 (e + int (length trimmed));
        last_digit \<leftarrow> as_int32 (digits_end - 1);
        if last_digit \<ge> kMaxDecimalPower then Some (True, D_kInfinity)
        else if digits_end \<le> kMinDecimalPower then Some (True, 0)
        else do {
          exact \<leftarrow> DoubleStrtod trimmed e;
          case exact of
            Some guess \<Rightarrow> Some (True, guess)
          | None \<Rightarrow> do {
              (correct, guess) \<leftarrow> DiyFpStrtod trimmed e;
              if correct then Some (True, guess)
              else if guess = D_kInfinity then Some (True, guess)
              else Some (False, guess)
            }
        }
      })"

section \<open>Strtod and Strtof\<close>

definition Strtod :: "string \<Rightarrow> int \<Rightarrow> double result" where
  "Strtod buffer e = do {
     (trimmed, e) \<leftarrow> TrimAndCut buffer e (replicate kMaxSignificantDecimalDigits (CHR 0x00));
     (is_correct, guess) \<leftarrow> ComputeGuess trimmed e;
     if is_correct then Some guess
     else do {
       upper_boundary \<leftarrow> D_UpperBoundary guess;
       comparison \<leftarrow> CompareBufferWithDiyFp trimmed e upper_boundary;
       if comparison < 0 then Some guess
       else if comparison > 0 then Some (D_NextDouble guess)
       else if D_Significand guess AND 1 = 0 then Some guess
       else Some (D_NextDouble guess)
     }
   }"

text \<open>The boundary above a guess of zero is half of the smallest \<open>float\<close>, \<open>1e-45f\<close>.\<close>

definition single_upper_boundary :: "single \<Rightarrow> diy_fp result" where
  "single_upper_boundary guess =
     (if single_eq guess 0 then D_AsDiyFp (double_divide (single_to_double 1) (round_double 2 1))
      else S_UpperBoundary guess)"

definition Strtof :: "string \<Rightarrow> int \<Rightarrow> single result" where
  "Strtof buffer e = do {
     (trimmed, e) \<leftarrow> TrimAndCut buffer e (replicate kMaxSignificantDecimalDigits (CHR 0x00));
     (is_correct, double_guess) \<leftarrow> ComputeGuess trimmed e;
     let float_guess = double_to_single double_guess;
     if double_eq (single_to_double float_guess) double_guess then Some float_guess
     else do {
       let double_next = D_NextDouble double_guess;
       let double_previous = D_PreviousDouble double_guess;
       let f1 = double_to_single double_previous;
       let f2 = float_guess;
       let f3 = double_to_single double_next;
       let f4 = (if is_correct then f3 else double_to_single (D_NextDouble double_next));
       check (single_le f1 f2 \<and> single_le f2 f3 \<and> single_le f3 f4);
       if single_eq f1 f4 then Some float_guess
       else do {
         check ((\<not> single_eq f1 f2 \<and> single_eq f2 f3 \<and> single_eq f3 f4) \<or>
                (single_eq f1 f2 \<and> \<not> single_eq f2 f3 \<and> single_eq f3 f4) \<or>
                (single_eq f1 f2 \<and> single_eq f2 f3 \<and> \<not> single_eq f3 f4));
         let guess = f1;
         let next_float = f4;
         upper_boundary \<leftarrow> single_upper_boundary guess;
         comparison \<leftarrow> CompareBufferWithDiyFp trimmed e upper_boundary;
         if comparison < 0 then Some guess
         else if comparison > 0 then Some next_float
         else if S_Significand guess AND 1 = 0 then Some guess
         else Some next_float
       }
     }
   }"

end
