(* ===== verification/Nearest.thy ===== *)
theory Nearest
  imports Ieee_Properties FloatOps
begin

text \<open>
  What it means that a float is the one nearest to a real number, ties to even, with overflow to infinity: the number
  lies between the midpoints to the two neighbours, and on a midpoint only when the rank is even. There is at most
  one such float. The rounding of \<open>FloatOps\<close>, which stands for the arithmetic of the language, returns it.
\<close>

section \<open>Midpoints\<close>

definition midpoint :: "nat \<Rightarrow> int \<Rightarrow> nat \<Rightarrow> real" where
  "midpoint p emin n = (rank_val p emin n + rank_val p emin (Suc n)) / 2"

definition nearest :: "nat \<Rightarrow> int \<Rightarrow> nat \<Rightarrow> real \<Rightarrow> nat \<Rightarrow> bool" where
  "nearest p emin inf_rank x n \<longleftrightarrow> n \<le> inf_rank \<and>
     (0 < n \<longrightarrow> midpoint p emin (n - 1) \<le> x \<and> (midpoint p emin (n - 1) = x \<longrightarrow> even n)) \<and>
     (n < inf_rank \<longrightarrow> x \<le> midpoint p emin n \<and> (midpoint p emin n = x \<longrightarrow> even n))"

abbreviation D_nearest :: "real \<Rightarrow> nat \<Rightarrow> bool" where
  "D_nearest \<equiv> nearest 52 (-1074) D_inf_rank"

abbreviation S_nearest :: "real \<Rightarrow> nat \<Rightarrow> bool" where
  "S_nearest \<equiv> nearest 23 (-149) S_inf_rank"

lemma midpoint_eq: "midpoint p emin n = rank_val p emin n + 2 powi (rank_exp p emin n - 1)"
  by (simp add: midpoint_def rank_val_Suc power_int_diff)

lemma midpoint_between: "rank_val p emin n < midpoint p emin n" "midpoint p emin n < rank_val p emin (Suc n)"
  using rank_val_less [of n "Suc n" p emin] by (simp_all add: midpoint_def)

lemma midpoint_less: "m < n \<Longrightarrow> midpoint p emin m < midpoint p emin n"
proof -
  assume "m < n"
  then have "Suc m \<le> n" by simp
  then have "rank_val p emin (Suc m) \<le> rank_val p emin n"
    using rank_val_less [of "Suc m" n p emin] by (cases "Suc m = n") auto
  then show ?thesis using midpoint_between [of p emin m] midpoint_between [of p emin n] by linarith
qed

lemma midpoint_le: "m \<le> n \<Longrightarrow> midpoint p emin m \<le> midpoint p emin n"
  using midpoint_less [of m n p emin] by (cases "m = n") auto

lemma nearest_not_less:
  assumes "nearest p emin inf_rank x m" "nearest p emin inf_rank x n" "m < n"
  shows False
proof -
  have lo: "midpoint p emin (n - 1) \<le> x" "midpoint p emin (n - 1) = x \<Longrightarrow> even n"
    and hi: "x \<le> midpoint p emin m" "midpoint p emin m = x \<Longrightarrow> even m"
    using assms by (auto simp: nearest_def)
  have "m \<le> n - 1" using assms(3) by simp
  with lo hi midpoint_le [of m "n - 1" p emin] have eq: "midpoint p emin m = x" "midpoint p emin (n - 1) = x" by linarith+
  then have "m = n - 1" using midpoint_less [of m "n - 1" p emin] \<open>m \<le> n - 1\<close> by (cases "m = n - 1") auto
  with eq lo hi assms(3) show False by (cases n) auto
qed

lemma nearest_unique: "nearest p emin inf_rank x m \<Longrightarrow> nearest p emin inf_rank x n \<Longrightarrow> m = n"
  using nearest_not_less [of p emin inf_rank x m n] nearest_not_less [of p emin inf_rank x n m]
  by (cases m n rule: linorder_cases) auto

lemma nearest_rank_val:
  assumes "n < inf_rank"
  shows "nearest p emin inf_rank (rank_val p emin n) n"
proof -
  have "midpoint p emin (n - 1) < rank_val p emin n" if "0 < n" using midpoint_between(2) [of p emin "n - 1"] that by simp
  moreover have "rank_val p emin n < midpoint p emin n" by (rule midpoint_between)
  ultimately show ?thesis using assms by (simp add: nearest_def less_imp_le order.strict_implies_not_eq)
qed

text \<open>Rounding without an upper limit, and the cut at infinity.\<close>

lemma nearest_cut:
  assumes lo: "0 < n \<Longrightarrow> midpoint p emin (n - 1) \<le> x" "0 < n \<Longrightarrow> midpoint p emin (n - 1) = x \<Longrightarrow> even n"
    and hi: "x \<le> midpoint p emin n" "midpoint p emin n = x \<Longrightarrow> even n" and inf: "even inf_rank" "0 < inf_rank"
  shows "nearest p emin inf_rank x (min inf_rank n)"
proof (cases "n < inf_rank")
  case True
  with lo hi show ?thesis by (auto simp: nearest_def min_def)
next
  case False
  then have "midpoint p emin (inf_rank - 1) \<le> midpoint p emin (n - 1)" by (intro midpoint_le) simp
  also have "\<dots> \<le> x" using False inf(2) by (intro lo(1)) simp
  finally have "midpoint p emin (inf_rank - 1) \<le> x" .
  with False inf show ?thesis by (auto simp: nearest_def min_def)
qed

section \<open>A scaled number\<close>

text \<open>
  The number \<open>y * 2 ^ q\<close>, where \<open>y\<close> rounds to the natural number \<open>m\<close>: in the binade of \<open>q\<close> the rank counts the
  multiples of \<open>2 ^ q\<close>.
\<close>

definition scaled_rank :: "nat \<Rightarrow> int \<Rightarrow> int \<Rightarrow> nat \<Rightarrow> nat" where
  "scaled_rank p emin q m = nat (q - emin) * 2 ^ p + m"

lemma scaled_rank_val:
  assumes q: "emin \<le> q" "q = emin \<or> 2 ^ p \<le> m" and m: "m \<le> 2 * 2 ^ p"
  shows "rank_val p emin (scaled_rank p emin q m) = real m * 2 powi q"
proof (cases "scaled_rank p emin q m < 2 ^ p")
  case True
  then have "q = emin" "scaled_rank p emin q m = m"
    using q by (auto simp: scaled_rank_def)
  with True show ?thesis by (simp add: rank_val_def rank_sig_def rank_exp_def)
next
  case False
  then have ge: "2 ^ p \<le> m" using q by (auto simp: scaled_rank_def)
  define k where "k = m - 2 ^ p"
  have mk: "m = 2 ^ p + k" "k \<le> 2 ^ p" using ge m by (simp_all add: k_def)
  have r: "scaled_rank p emin q m = k + Suc (nat (q - emin)) * 2 ^ p" using mk by (simp add: scaled_rank_def)
  show ?thesis
  proof (cases "k = 2 ^ p")
    case True
    then have "scaled_rank p emin q m = Suc (Suc (nat (q - emin))) * 2 ^ p" unfolding r by simp
    then have "scaled_rank p emin q m div 2 ^ p = Suc (Suc (nat (q - emin)))" "scaled_rank p emin q m mod 2 ^ p = 0"
      by simp_all
    with False True mk(1) q(1) show ?thesis
      by (simp add: rank_val_def rank_sig_def rank_exp_def power_int_add)
  next
    case False
    then have "k < 2 ^ p" using mk by simp
    then have "scaled_rank p emin q m div 2 ^ p = Suc (nat (q - emin))" "scaled_rank p emin q m mod 2 ^ p = k"
      unfolding r by (simp_all only: div_mult_self3 mod_mult_self1 div_less mod_less add_0_left add_0_right zero_less_power
          zero_less_numeral div_mult_self1 power_not_zero zero_neq_numeral [symmetric] not_False_eq_True)
    with \<open>\<not> scaled_rank p emin q m < 2 ^ p\<close> mk(1) q(1) show ?thesis
      by (simp add: rank_val_def rank_sig_def rank_exp_def)
  qed
qed

lemma even_scaled_rank: "0 < p \<Longrightarrow> even (scaled_rank p emin q m) \<longleftrightarrow> even m"
  by (simp add: scaled_rank_def)

lemma nearest_scaled:
  assumes q: "emin \<le> q" "q = emin \<or> 2 ^ p \<le> m \<and> 2 ^ p - 1 / 4 < y" and m: "m \<le> 2 * 2 ^ p"
    and y: "\<bar>y - real m\<bar> \<le> 1 / 2" "\<bar>y - real m\<bar> = 1 / 2 \<Longrightarrow> even m"
    and p: "0 < p" and inf: "even inf_rank" "0 < inf_rank"
  shows "nearest p emin inf_rank (y * 2 powi q) (min inf_rank (scaled_rank p emin q m))"
proof -
  let ?r = "scaled_rank p emin q m"
  have val: "rank_val p emin ?r = real m * 2 powi q" using q m by (intro scaled_rank_val) auto
  have pos: "0 < (2 :: real) powi q" by simp
  have up: "midpoint p emin ?r = (real m + 1 / 2) * 2 powi q \<or> midpoint p emin ?r = (real m + 1) * 2 powi q"
  proof (cases "m < 2 * 2 ^ p")
    case True
    have "rank_val p emin (Suc ?r) = real (Suc m) * 2 powi q"
      using scaled_rank_val [of emin q p "Suc m"] q True by (auto simp: scaled_rank_def)
    then show ?thesis unfolding midpoint_def val by (simp add: field_simps)
  next
    case False
    then have m2: "m = 2 * 2 ^ p" using m by simp
    have "nat (q + 1 - emin) = Suc (nat (q - emin))" using q(1) by simp
    with m2 have r: "Suc ?r = scaled_rank p emin (q + 1) (Suc (2 ^ p))" by (simp add: scaled_rank_def)
    have "rank_val p emin (scaled_rank p emin (q + 1) (Suc (2 ^ p))) = real (Suc (2 ^ p)) * 2 powi (q + 1)"
      using q(1) by (intro scaled_rank_val) auto
    then have "rank_val p emin (Suc ?r) = (real m + 2) * 2 powi q"
      unfolding r using m2 by (simp add: power_int_add algebra_simps)
    then show ?thesis unfolding midpoint_def val by (simp add: field_simps)
  qed
  have y_le: "y \<le> real m + 1 / 2" "real m - 1 / 2 \<le> y" using abs_le_D1 [OF y(1)] abs_le_D2 [OF y(1)] by linarith+
  then have "y * 2 powi q \<le> (real m + 1 / 2) * 2 powi q" "y * 2 powi q \<le> (real m + 1) * 2 powi q"
    using pos by (intro mult_right_mono; simp)+
  then have up_le: "y * 2 powi q \<le> midpoint p emin ?r" using up by linarith
  have up_eq: "even m" if "midpoint p emin ?r = y * 2 powi q"
  proof -
    have "y = real m + 1 / 2 \<or> y = real m + 1" using up that pos by auto
    then show ?thesis using y y_le by auto
  qed
  have low: "midpoint p emin (?r - 1) \<le> y * 2 powi q \<and> (midpoint p emin (?r - 1) = y * 2 powi q \<longrightarrow> even m)"
    if "0 < ?r"
  proof (cases "q = emin \<or> 2 ^ p < m")
    case True
    have "0 < m" using True that by (auto simp: scaled_rank_def)
    then obtain k where k: "m = Suc k" by (cases m) auto
    have "rank_val p emin (?r - 1) = real k * 2 powi q"
      using scaled_rank_val [of emin q p k] q True m k by (auto simp: scaled_rank_def)
    then have "midpoint p emin (?r - 1) = (real m - 1 / 2) * 2 powi q"
      unfolding midpoint_def using that val k by (simp add: field_simps)
    moreover have "real m - 1 / 2 = y \<Longrightarrow> even m" using y(2) by auto
    moreover note y_le(2)
    ultimately show ?thesis using pos by auto
  next
    case False
    then have m: "m = 2 ^ p" and qm: "emin < q" and gt: "real m - 1 / 4 < y" using q by auto
    have "nat (q - emin) = Suc (nat (q - 1 - emin))" using qm by simp
    then have r: "?r - 1 = scaled_rank p emin (q - 1) (2 * 2 ^ p - 1)" using m by (simp add: scaled_rank_def)
    have "(1 :: nat) \<le> 2 ^ p" by simp
    then have "(2 :: nat) ^ p \<le> 2 * 2 ^ p - 1" by linarith
    then have "rank_val p emin (?r - 1) = (real m - 1 / 2) * 2 powi q"
      unfolding r using qm m scaled_rank_val [of emin "q - 1" p "2 * 2 ^ p - 1"]
      by (simp add: of_nat_diff power_int_diff field_simps)
    then have "midpoint p emin (?r - 1) = (real m - 1 / 4) * 2 powi q"
      unfolding midpoint_def using that val by (simp add: field_simps)
    also have "\<dots> < y * 2 powi q" using gt pos by (intro mult_strict_right_mono)
    finally show ?thesis by simp
  qed
  show ?thesis
    by (rule nearest_cut) (use low up_le up_eq inf even_scaled_rank [OF p, of emin q m] in auto)
qed

section \<open>The rounding of the language\<close>

lemma round_half_even_near:
  assumes d: "0 < d"
  shows "\<bar>real n / real d - real (round_half_even n d)\<bar> \<le> 1 / 2"
    "\<bar>real n / real d - real (round_half_even n d)\<bar> = 1 / 2 \<Longrightarrow> even (round_half_even n d)"
proof -
  let ?q = "n div d" and ?r = "n mod d"
  have r: "real ?r < real d" using d by simp
  have "real n = real ?q * real d + real ?r" by (metis div_mult_mod_eq of_nat_add of_nat_mult)
  then have y: "real n / real d = real ?q + real ?r / real d" using d by (simp add: field_simps)
  define t where "t = real ?r / real d"
  have t: "0 \<le> t" "t < 1" using r d by (simp_all add: t_def)
  have le: "t > 1 / 2 \<longleftrightarrow> 2 * ?r > d" "t = 1 / 2 \<longleftrightarrow> 2 * ?r = d"
    unfolding t_def using d by (simp_all add: field_simps) linarith+
  have "round_half_even n d = (if t > 1 / 2 \<or> t = 1 / 2 \<and> odd ?q then ?q + 1 else ?q)"
    by (simp only: round_half_even_def Let_def le)
  then consider "round_half_even n d = ?q + 1" "t > 1 / 2 \<or> t = 1 / 2 \<and> odd ?q"
    | "round_half_even n d = ?q" "t < 1 / 2 \<or> t = 1 / 2 \<and> even ?q"
    by (cases t "1 / 2 :: real" rule: linorder_cases; cases "even ?q") auto
  then have "\<bar>real ?q + t - real (round_half_even n d)\<bar> \<le> 1 / 2 \<and>
      (\<bar>real ?q + t - real (round_half_even n d)\<bar> = 1 / 2 \<longrightarrow> even (round_half_even n d))"
  proof cases
    case 1
    moreover from 1(2) have "t = 1 / 2 \<Longrightarrow> even (?q + 1)" by auto
    ultimately show ?thesis using t by auto
  next
    case 2
    with t show ?thesis by auto
  qed
  then show "\<bar>real n / real d - real (round_half_even n d)\<bar> \<le> 1 / 2"
    "\<bar>real n / real d - real (round_half_even n d)\<bar> = 1 / 2 \<Longrightarrow> even (round_half_even n d)"
    unfolding y t_def by simp_all
qed

lemma powi_ratio: "(2 :: real) powi k = 2 ^ nat k / 2 ^ nat (- k)"
  by (cases "0 \<le> k") (simp_all add: power_int_def field_simps)

text \<open>The exponent of the leading bit of a ratio.\<close>

lemma ratio_exponent_bounds:
  assumes "0 < num" "0 < den"
  shows "2 powi ratio_exponent num den \<le> real num / real den" "real num / real den < 2 powi (ratio_exponent num den + 1)"
proof -
  define a b where "a = bit_length num" and "b = bit_length den"
  have pos: "0 < a" "0 < b"
    using assms unfolding a_def b_def by (subst bit_length.simps, simp)+
  have n: "2 ^ (a - 1) \<le> num" "num < 2 ^ a" and d: "2 ^ (b - 1) \<le> den" "den < 2 ^ b"
    using bit_length_bounds [OF assms(1)] bit_length_bounds [OF assms(2)] by (simp_all add: a_def b_def)
  have n': "2 ^ (a - 1) \<le> real num" "real num < 2 ^ a" and d': "2 ^ (b - 1) \<le> real den" "real den < 2 ^ b"
    using n d by (metis of_nat_le_iff of_nat_less_iff of_nat_numeral of_nat_power)+
  define k where "k = int a - int b"
  have k1: "(2 :: real) powi (k + 1) = 2 ^ a / 2 ^ (b - 1)" "(2 :: real) powi (k - 1) = 2 ^ (a - 1) / 2 ^ b"
  proof -
    have "k + 1 = int a - int (b - 1)" "k - 1 = int (a - 1) - int b" using pos by (simp_all add: k_def of_nat_diff)
    then show "(2 :: real) powi (k + 1) = 2 ^ a / 2 ^ (b - 1)" "(2 :: real) powi (k - 1) = 2 ^ (a - 1) / 2 ^ b"
      by (simp_all only: power_int_diff power_int_of_nat zero_neq_numeral [symmetric] simp_thms)
  qed
  have up: "real num / real den < 2 powi (k + 1)"
    unfolding k1 using n'(2) d'(1) assms(2) by (intro frac_less) auto
  have low: "2 powi (k - 1) < real num / real den"
    unfolding k1 using n'(1) d'(2) assms(2) by (intro frac_less2) auto
  have k2: "num * 2 ^ nat (- k) \<ge> den * 2 ^ nat k \<longleftrightarrow> 2 powi k \<le> real num / real den"
  proof -
    note pk = powi_ratio [of k]
    have "num * 2 ^ nat (- k) \<ge> den * 2 ^ nat k \<longleftrightarrow> real den * 2 ^ nat k \<le> real num * 2 ^ nat (- k)"
      by (simp flip: of_nat_le_iff [where ?'a = real])
    also have "\<dots> \<longleftrightarrow> 2 powi k \<le> real num / real den"
      unfolding pk using assms(2) by (simp add: pos_le_divide_eq pos_divide_le_eq mult.commute mult.left_commute)
    finally show ?thesis .
  qed
  have re: "ratio_exponent num den = (if 2 powi k \<le> real num / real den then k else k - 1)"
    unfolding ratio_exponent_def a_def [symmetric] b_def [symmetric] Let_def k_def [symmetric] k2 ..
  show "2 powi ratio_exponent num den \<le> real num / real den" "real num / real den < 2 powi (ratio_exponent num den + 1)"
    unfolding re using up low by auto
qed

lemma round_rank_nearest:
  assumes den: "0 < den" and p: "0 < p" and inf: "even inf_rank" "0 < inf_rank"
  shows "nearest p emin inf_rank (real num / real den) (round_rank p emin inf_rank num den)"
proof (cases "num = 0")
  case True
  then show ?thesis using nearest_rank_val [of 0 inf_rank p emin] inf by (simp add: round_rank_def)
next
  case False
  then have num: "0 < num" by simp
  define q where "q = max emin (ratio_exponent num den - int p)"
  define a b where "a = num * 2 ^ nat (- q)" and "b = den * 2 ^ nat q"
  define m where "m = round_half_even a b"
  define y where "y = real a / real b"
  have b: "0 < b" using den by (simp add: b_def)
  note pq = powi_ratio [of q]
  have x: "real num / real den = y * 2 powi q"
    unfolding pq y_def a_def b_def using den by (simp add: field_simps)
  note near = round_half_even_near [OF b, of a, folded y_def m_def]
  note re = ratio_exponent_bounds [OF num den]
  have "real num / real den < 2 powi (int p + 1 + q)"
  proof -
    have "ratio_exponent num den + 1 \<le> int p + 1 + q" by (simp add: q_def)
    then have "(2 :: real) powi (ratio_exponent num den + 1) \<le> 2 powi (int p + 1 + q)"
      by (intro power_int_increasing) auto
    with re(2) show ?thesis by linarith
  qed
  then have "y < 2 powi (int p + 1)" unfolding x by (simp add: power_int_add)
  then have "y < 2 * 2 ^ p" by (simp add: power_int_add mult.commute)
  then have "real m < 2 * 2 ^ p + 1" using near(1) by linarith
  also have "\<dots> = real (2 * 2 ^ p + 1)" by simp
  finally have m_le: "m \<le> 2 * 2 ^ p" by linarith
  have "2 ^ p \<le> y \<and> 2 ^ p \<le> m" if "q \<noteq> emin"
  proof
    have "q = ratio_exponent num den - int p" using that by (simp add: q_def max_def split: if_splits)
    then have "2 powi (q + int p) \<le> y * 2 powi q" using re(1) unfolding x by simp
    then show y: "2 ^ p \<le> y" by (simp add: power_int_add)
    have "2 ^ p - 1 / 2 \<le> real m" using y near(1) by linarith
    then have "real (2 ^ p) - 1 < real m" by simp
    then show "2 ^ p \<le> m" by linarith
  qed
  then have "nearest p emin inf_rank (y * 2 powi q) (min inf_rank (scaled_rank p emin q m))"
    using m_le near p inf by (intro nearest_scaled) (force simp: q_def)+
  moreover have "round_rank p emin inf_rank num den = min inf_rank (scaled_rank p emin q m)"
    using False by (simp add: round_rank_def Let_def scaled_rank_def q_def m_def a_def b_def)
  ultimately show ?thesis unfolding x by simp
qed

end
