(* ===== verification/Strtod_Laws.thy ===== *)
theory Strtod_Laws
  imports Strtod Nearest Bignum_Numbers
begin

text \<open>
  The parts of \<open>strtod.cc\<close> that read digits and compare: trimming keeps the number, \<open>ReadUint64\<close> reads as many digits
  as fit, \<open>CompareBufferWithDiyFp\<close> is an exact comparison.
\<close>

section \<open>The comparison\<close>

lemma sgn_scaled: "0 < c \<Longrightarrow> sgn (c * x) = sgn x" for c x :: real
  by (simp add: sgn_mult)

lemma sgn_int_real: "real_of_int (sgn i) = sgn (real_of_int i)"
  by (simp add: sgn_if)

lemma power_base_le: "(10 :: nat) ^ k \<le> 2 ^ (4 * k)" "(5 :: nat) ^ k \<le> 2 ^ (3 * k)"
  by (simp_all only: power_mult) (intro power_mono; simp)+

lemma powi_cancel: "(b :: real) \<noteq> 0 \<Longrightarrow> b powi e * b ^ nat (- e) = b ^ nat e"
  by (cases "0 \<le> e") (simp_all add: power_int_def flip: power_mult_distrib)

lemma CompareBufferWithDiyFp_correct:
  assumes s: "list_all is_decimal s" and len: "int (length s) + e \<le> 310" "int (length s) + e > -324" "length s \<le> 780"
  shows "returns (CompareBufferWithDiyFp s e d)
    (\<lambda>c. real_of_int c = sgn (real (text_digits s) * 10 powi e - diy_val d))"
proof -
  have raw: "bignum_raw new_bignum" using bignum_inv_new by (rule bignum_inv_raw)
  define B D where "B = text_digits s * 10 ^ nat e" and "D = unat (diy_f d) * 10 ^ nat (- e)"
  have limB: "text_digits s * 5 ^ nat e < bbase ^ 126" if "e \<ge> 0"
  proof -
    have "text_digits s * 5 ^ nat e < 10 ^ length s * 10 ^ nat e"
      using text_digits_less [OF s] by (intro mult_less_le_imp_less power_mono) simp_all
    also have "\<dots> = 10 ^ (length s + nat e)" by (simp add: power_add)
    also have "\<dots> \<le> 10 ^ 310" using len(1) that by (intro power_increasing) simp_all
    also have "(10 :: nat) ^ 310 \<le> 2 ^ (4 * 310)" by (rule power_base_le)
    also have "(2 :: nat) ^ (4 * 310) \<le> 2 ^ (28 * 126)" by (rule power_increasing) simp_all
    finally show ?thesis by (simp only: bbase_power)
  qed
  have limD: "unat (diy_f d) * 5 ^ nat (- e) < bbase ^ 126" if "e < 0"
  proof -
    have "unat (diy_f d) * 5 ^ nat (- e) < 2 ^ 64 * 5 ^ nat (- e)" using unat_less_64 by simp
    also have "(5 :: nat) ^ nat (- e) \<le> 5 ^ 1103" using len(2,3) by (intro power_increasing) simp_all
    also have "(5 :: nat) ^ 1103 \<le> 2 ^ (3 * 1103)" by (rule power_base_le)
    also have "(2 :: nat) ^ 64 * 2 ^ (3 * 1103) = 2 ^ (64 + 3 * 1103)" by (simp only: power_add)
    also have "(2 :: nat) ^ (64 + 3 * 1103) \<le> 2 ^ (28 * 126)" by (rule power_increasing) simp_all
    finally show ?thesis by (simp only: bbase_power mult_le_mono2)
  qed
  have used: "used_digits b < 128" if "stands_for b n" "n < bbase ^ 126" for b n
    using BigitLength_le [of b 126] used_digits_le_BigitLength [of b] that by (simp add: stands_for_def)
  have sB: "text_digits s < bbase ^ 126"
  proof -
    have "text_digits s < 10 ^ length s" by (rule text_digits_less [OF s])
    also have "\<dots> \<le> 10 ^ 780" using len(3) by (intro power_increasing) simp_all
    also have "(10 :: nat) ^ 780 \<le> 2 ^ (4 * 780)" by (rule power_base_le)
    also have "(2 :: nat) ^ (4 * 780) \<le> 2 ^ (28 * 126)" by (rule power_increasing) simp_all
    finally show ?thesis by (simp only: bbase_power)
  qed
  have dB: "unat (diy_f d) < bbase ^ 126"
  proof -
    have "unat (diy_f d) < 2 ^ 64" by (rule unat_less_64)
    also have "(2 :: nat) ^ 64 \<le> 2 ^ (28 * 126)" by (rule power_increasing) simp_all
    finally show ?thesis by (simp only: bbase_power)
  qed
  have scale: "returns (if e \<ge> 0 then do { b \<leftarrow> MultiplyByPowerOfTen b (nat e); Some (b, f) }
       else do { f \<leftarrow> MultiplyByPowerOfTen f (nat (- e)); Some (b, f) })
      (\<lambda>(b, f). stands_for b B \<and> stands_for f D \<and> used_digits b < 128 \<and> used_digits f < 128)"
    if "stands_for b (text_digits s)" "stands_for f (unat (diy_f d))" for b f
    using num_MultiplyByPowerOfTen [OF that(1) limB] num_MultiplyByPowerOfTen [OF that(2) limD]
      used [OF that(1) sB] used [OF that(2) dB] that
    by (auto simp: returns_bind B_def D_def elim!: returns_mono)
  define B' D' where "B' = B * 2 ^ nat (- diy_e d)" and "D' = D * 2 ^ nat (diy_e d)"
  have shift: "returns (if diy_e d > 0 then do { f \<leftarrow> ShiftLeft f (nat (diy_e d)); Some (b, f) }
       else do { b \<leftarrow> ShiftLeft b (nat (- diy_e d)); Some (b, f) }) (\<lambda>(b, f). stands_for b B' \<and> stands_for f D')"
    if "stands_for b B" "stands_for f D" "used_digits b < 128" "used_digits f < 128" for b f
    using num_ShiftLeft [OF that(1,3), of "nat (- diy_e d)"] num_ShiftLeft [OF that(2,4), of "nat (diy_e d)"] that
    by (auto simp: returns_bind B'_def D'_def elim!: returns_mono)
  have val: "sgn (real B' - real D') = sgn (real (text_digits s) * 10 powi e - diy_val d)"
  proof -
    let ?c = "10 ^ nat (- e) * 2 ^ nat (- diy_e d) :: real"
    have "real B' = ?c * (real (text_digits s) * 10 powi e)"
      using powi_cancel [of 10 e] by (simp add: B'_def B_def algebra_simps)
    moreover have "real D' = ?c * diy_val d"
      using powi_cancel [of 2 "diy_e d"] by (simp add: D'_def D_def diy_val_def algebra_simps)
    ultimately have "real B' - real D' = ?c * (real (text_digits s) * 10 powi e - diy_val d)" by (simp add: algebra_simps)
    then show ?thesis by (simp only: sgn_scaled zero_less_mult_iff zero_less_power zero_less_numeral simp_thms)
  qed
  have cmp: "returns (Compare b f) (\<lambda>c. real_of_int c = sgn (real (text_digits s) * 10 powi e - diy_val d))"
    if "stands_for b B'" "stands_for f D'" for b f
    using num_Compare [OF that] val by (simp add: sgn_int_real)
  have pre: "int (length s) + e \<le> kMaxDecimalPower + 1" "int (length s) + e > kMinDecimalPower"
    "length s \<le> kMaxSignificantDecimalDigits" "(kMaxDecimalPower + 1) * 333 div 100 < kMaxSignificantBits"
    using len by (simp_all add: kMaxDecimalPower_def kMinDecimalPower_def kMaxSignificantDecimalDigits_def)
  show ?thesis
    unfolding CompareBufferWithDiyFp_def
  proof (intro returns_checkI pre, goal_cases)
    case 1
    have "length s \<le> 800" using len(3) by simp
    then show ?case
    proof (rule returns_bindI [OF AssignDecimalString_correct [OF s _ raw]], goal_cases)
      case (1 b)
      show ?case
      proof (rule returns_bindI [OF num_AssignUInt64 [OF raw]], rule returns_bindI [OF scale [OF 1]], assumption, goal_cases)
        case (1 f bf)
        obtain b' f' where bf: "bf = (b', f')" by (cases bf)
        from 1(2) have n: "stands_for b' B" "stands_for f' D" "used_digits b' < 128" "used_digits f' < 128"
          unfolding bf by auto
        show ?case
          unfolding bf prod.case by (rule returns_bindI [OF shift [OF n]]) (auto intro: cmp)
      qed
    qed
  qed
qed

end
