(* ===== verification/Strtod_Read.thy ===== *)
theory Strtod_Read
  imports Strtod_Laws
begin

text \<open>
  Trimming and reading digits, and the conversions that are exact in \<open>double\<close> arithmetic (\<open>DoubleStrtod\<close>).
\<close>

section \<open>Trimming\<close>

lemma TrimLeadingZeros_correct:
  "returns (TrimLeadingZeros s) (\<lambda>t. \<exists>n. s = replicate n CHR ''0'' @ t \<and> (t = [] \<or> hd t \<noteq> CHR ''0''))"
  unfolding TrimLeadingZeros_def
proof (rule returns_bindI [where P = "\<lambda>i. i \<le> length s \<and> take i s = replicate i CHR ''0'' \<and>
      (i < length s \<longrightarrow> s ! i \<noteq> CHR ''0'')"], goal_cases)
  case 1
  show ?case
  proof (rule returns_while [where I = "\<lambda>i. i \<le> length s \<and> take i s = replicate i CHR ''0''"
        and m = "\<lambda>i. length s - i"], goal_cases)
    case (2 i)
    then show ?case
      by (auto simp: wp take_Suc_conv_app_nth replicate_append_same)
  qed simp
next
  case (2 i)
  show ?case
  proof (cases "i < length s")
    case True
    have "s = replicate i CHR ''0'' @ drop i s" using 2 by (metis append_take_drop_id)
    moreover have "drop i s \<noteq> [] \<and> hd (drop i s) \<noteq> CHR ''0''" using 2 True by (simp add: hd_drop_conv_nth)
    ultimately show ?thesis using True by (auto simp: SubVector_def wp intro!: exI [of _ i])
  next
    case False
    from 2 have "i \<le> length s" by blast
    with False have "i = length s" by linarith
    then have "take i s = s" by (simp only: take_all order_refl)
    with 2 have "s = replicate i CHR ''0'' @ []" by (metis append_Nil2)
    then have "\<exists>n. s = replicate n CHR ''0'' @ []" ..
    with False show ?thesis by (simp only: if_False returns_Some simp_thms)
  qed
qed

lemma TrimTrailingZeros_correct:
  "returns (TrimTrailingZeros s) (\<lambda>t. \<exists>n. s = t @ replicate n CHR ''0'' \<and> (t = [] \<or> last t \<noteq> CHR ''0''))"
  unfolding TrimTrailingZeros_def
proof (rule returns_bindI [where P = "\<lambda>i. i \<le> length s \<and> drop i s = replicate (length s - i) CHR ''0'' \<and>
      (0 < i \<longrightarrow> s ! (i - 1) \<noteq> CHR ''0'')"], goal_cases)
  case 1
  show ?case
  proof (rule returns_while [where I = "\<lambda>i. i \<le> length s \<and> drop i s = replicate (length s - i) CHR ''0''"
        and m = "\<lambda>i. i"], goal_cases)
    case (2 i)
    show ?case
    proof (cases "0 < i \<and> s ! (i - 1) = CHR ''0''")
      case True
      then obtain j where j: "i = Suc j" by (cases i) auto
      have "drop j s = CHR ''0'' # drop i s" using 2 True j by (metis Cons_nth_drop_Suc Suc_le_lessD diff_Suc_1)
      also have "\<dots> = replicate (Suc (length s - i)) CHR ''0''" using 2 by simp
      also have "Suc (length s - i) = length s - j" using 2 j by auto
      finally show ?thesis using 2 True j by (simp add: wp)
    next
      case False
      with 2 show ?thesis by (auto simp: wp)
    qed
  qed simp
next
  case (2 i)
  have split: "s = take i s @ replicate (length s - i) CHR ''0''" using 2 by (metis append_take_drop_id)
  show ?case
  proof (cases "0 < i")
    case True
    then have ne: "take i s \<noteq> []" using 2 by auto
    then have "last (take i s) = s ! (i - 1)" using 2 True by (simp add: last_conv_nth min_absorb2)
    with ne have "take i s \<noteq> []" "last (take i s) \<noteq> CHR ''0''" using 2 True by simp_all
    with split True 2 show ?thesis by (auto simp: SubVector_def wp intro!: exI [of _ "length s - i"])
  next
    case False
    with split show ?thesis by (auto intro!: exI [of _ "length s"])
  qed
qed

lemma text_digits_strip: "text_digits (replicate n CHR ''0'' @ t) = text_digits t"
  "text_digits (t @ replicate n CHR ''0'') = text_digits t * 10 ^ n"
  by (simp_all add: text_digits_append)

section \<open>Reading digits\<close>

lemma ReadUint64_correct:
  assumes s: "list_all is_decimal s"
  shows "returns (ReadUint64 s) (\<lambda>(w, k). k \<le> length s \<and> unat w = text_digits (take k s) \<and>
    (k = length s \<or> 1844674407370955161 \<le> unat w) \<and> unat w \<le> 18446744073709551609)"
  unfolding ReadUint64_def
proof (rule returns_while [where I = "\<lambda>(w, k). k \<le> length s \<and> unat w = text_digits (take k s) \<and> unat w \<le> 18446744073709551609"
      and m = "\<lambda>(w, k). length s - k"], goal_cases)
  case (2 st)
  then obtain w k where st: "st = (w, k)" "k \<le> length s" "unat w = text_digits (take k s)"
    "unat w \<le> 18446744073709551609" by (cases st) auto
  have lim: "w \<le> kMaxUint64 div 10 - 1 \<longleftrightarrow> unat w \<le> 1844674407370955160"
    by (simp add: kMaxUint64_def word_le_nat_alt)
  show ?case
  proof (cases "k < length s \<and> w \<le> kMaxUint64 div 10 - 1")
    case True
    then have c: "is_decimal (s ! k)" using s by (simp add: list_all_iff)
    have d: "unat (of_int (digit_of_char (s ! k)) :: uint64) = char_digit (s ! k)"
      using char_digit_le [OF c] by (simp add: digit_of_char_decimal [OF c] unat_of_nat)
    have u10: "unat (10 :: uint64) = 10" by simp
    have sum: "10 * unat w + char_digit (s ! k) < 2 ^ 64"
      using True lim char_digit_le [OF c] by simp
    then have m: "unat (10 * w) = 10 * unat w" by (subst unat_mult_small) (simp_all only: u10 length_64)
    have "unat (10 * w + of_int (digit_of_char (s ! k))) = 10 * unat w + char_digit (s ! k)"
      using sum by (subst unat_add_small) (simp_all only: m d length_64)
    also have "\<dots> = text_digits (take (Suc k) s)" using True st(3) by (simp add: text_digits_take_Suc)
    finally have "unat (10 * w + of_int (digit_of_char (s ! k))) = text_digits (take (Suc k) s)" .
    moreover have "text_digits (take (Suc k) s) \<le> 18446744073709551609"
      using True lim st(3) char_digit_le [OF c] by (simp add: text_digits_take_Suc)
    moreover have "length s - Suc k < length s - k" using True by auto
    ultimately show ?thesis
      using True st char_digit_le [OF c]
      by (simp add: wp Let_def digit_of_char_decimal [OF c])
  next
    case False
    with st lim show ?thesis by auto
  qed
qed simp

lemma ReadUint64_all:
  assumes s: "list_all is_decimal s" and len: "length s \<le> 18"
  shows "returns (ReadUint64 s) (\<lambda>(w, k). k = length s \<and> unat w = text_digits s)"
proof (rule returns_mono [OF ReadUint64_correct [OF s]], clarify)
  fix w k assume k: "k \<le> length s" "unat w = text_digits (take k s)" "k = length s \<or> 1844674407370955161 \<le> unat w"
  have "list_all is_decimal (take k s)" using s by (auto simp: list_all_iff dest: in_set_takeD)
  then have "text_digits (take k s) < 10 ^ k" using text_digits_less [of "take k s"] k(1) by simp
  also have "\<dots> \<le> 10 ^ 18" using k(1) len by (intro power_increasing) simp_all
  finally have "unat w < 10 ^ 18" using k(2) by simp
  moreover have "(10 :: nat) ^ 18 < 1844674407370955161" by simp
  ultimately have "k = length s" using k(3) by linarith
  with k(2) show "k = length s \<and> unat w = text_digits s" by simp
qed

section \<open>Exact doubles\<close>

lemma D_exact_exists:
  assumes "m < 2 ^ 53" "-1074 \<le> e" "e < 972"
  obtains r where "r < D_inf_rank" "D_val r = real m * 2 powi e"
proof -
  let ?d = "mk_diy (of_nat m) e"
  have u: "unat (of_nat m :: uint64) = m" using assms(1) by (simp add: unat_of_nat)
  have "returns (DiyFpToUint64 ?d) (\<lambda>r. unat r < D_inf_rank \<and> D_val (unat r) = diy_val ?d)"
    using assms u by (intro DiyFpToUint64_exact_small) (simp_all add: mk_diy_def)
  then show thesis using that u by (auto simp: diy_val_def mk_diy_def elim!: returnsE)
qed

lemma unat_round_double: "unat (round_double num den) = round_rank 52 (-1074) D_inf_rank num den"
proof -
  have "round_rank 52 (-1074) D_inf_rank num den \<le> D_inf_rank" by (simp add: round_rank_def Let_def)
  then have "round_rank 52 (-1074) D_inf_rank num den < 2 ^ 64" by (rule le_less_trans) simp
  then show ?thesis unfolding round_double_def by (simp add: unat_of_nat)
qed

lemma round_double_nearest: "0 < den \<Longrightarrow> D_nearest (real num / real den) (unat (round_double num den))"
  unfolding unat_round_double by (rule round_rank_nearest) simp_all

lemma round_double_exact:
  assumes "0 < den" "r < D_inf_rank" "D_val r = real num / real den"
  shows "unat (round_double num den) = r"
proof -
  have "D_nearest (real num / real den) r" using nearest_rank_val [OF assms(2), of 52 "-1074"] unfolding assms(3) .
  then show ?thesis by (rule nearest_unique [OF round_double_nearest [OF assms(1)]])
qed

lemma D_ratio:
  assumes "unat d < D_inf_rank"
  shows "real (D_num d) / real (D_den d) = D_val (unat d)" "0 < D_den d"
proof -
  have "real (D_num d) / real (D_den d) = real (unat (D_Significand d)) * 2 powi D_Exponent d"
    unfolding powi_ratio [of "D_Exponent d"] by (simp add: D_num_def D_den_def)
  then show "real (D_num d) / real (D_den d) = D_val (unat d)" using double.val_rank [OF assms] by simp
  show "0 < D_den d" by (simp add: D_den_def)
qed

lemma D_num_pos: "unat d < D_inf_rank \<Longrightarrow> 0 < unat d \<Longrightarrow> 0 < D_num d"
  using D_significand_pos [of d] by (simp add: D_num_def)

lemma double_mult_nearest:
  assumes "unat a < D_inf_rank" "unat b < D_inf_rank"
  shows "D_nearest (D_val (unat a) * D_val (unat b)) (unat (double_mult a b))"
proof -
  have "D_nearest (real (D_num a * D_num b) / real (D_den a * D_den b)) (unat (double_mult a b))"
    unfolding double_mult_def using D_ratio(2) [OF assms(1)] D_ratio(2) [OF assms(2)] by (intro round_double_nearest) simp
  moreover have "real (D_num a * D_num b) / real (D_den a * D_den b) = D_val (unat a) * D_val (unat b)"
    unfolding D_ratio(1) [OF assms(1), symmetric] D_ratio(1) [OF assms(2), symmetric] by simp
  ultimately show ?thesis by (simp only:)
qed

lemma double_divide_nearest:
  assumes "unat a < D_inf_rank" "unat b < D_inf_rank" "0 < unat b"
  shows "D_nearest (D_val (unat a) / D_val (unat b)) (unat (double_divide a b))"
proof -
  have "D_nearest (real (D_num a * D_den b) / real (D_den a * D_num b)) (unat (double_divide a b))"
    unfolding double_divide_def using D_ratio(2) [OF assms(1)] D_num_pos [OF assms(2,3)]
    by (intro round_double_nearest) simp
  moreover have "real (D_num a * D_den b) / real (D_den a * D_num b) = D_val (unat a) / D_val (unat b)"
    unfolding D_ratio(1) [OF assms(1), symmetric] D_ratio(1) [OF assms(2), symmetric] by simp
  ultimately show ?thesis by (simp only:)
qed

lemma double_of_uint64_exact:
  assumes "unat w < 2 ^ 53"
  shows "unat (double_of_uint64 w) < D_inf_rank" "D_val (unat (double_of_uint64 w)) = real (unat w)"
proof -
  obtain r where r: "r < D_inf_rank" "D_val r = real (unat w)"
    using D_exact_exists [OF assms, of 0] by auto
  then have "unat (double_of_uint64 w) = r" unfolding double_of_uint64_def by (intro round_double_exact) simp_all
  with r show "unat (double_of_uint64 w) < D_inf_rank" "D_val (unat (double_of_uint64 w)) = real (unat w)" by simp_all
qed

lemma exact_power:
  assumes "i < 23"
  shows "vget exact_powers_of_ten i = Some (round_double (10 ^ i) 1)" "unat (round_double (10 ^ i) 1) < D_inf_rank"
    "D_val (unat (round_double (10 ^ i) 1)) = 10 ^ i" "0 < unat (round_double (10 ^ i) 1)"
proof -
  have "exact_powers_of_ten = map (\<lambda>i. round_double (10 ^ i) 1) [0..<23]"
    by (simp add: exact_powers_of_ten_def upt_rec)
  then have "exact_powers_of_ten ! i = map (\<lambda>i. round_double (10 ^ i) 1) [0..<23] ! i" by (rule arg_cong)
  then have "exact_powers_of_ten ! i = round_double (10 ^ i) 1" using assms by simp
  moreover have "length exact_powers_of_ten = 23" by (simp add: exact_powers_of_ten_def)
  ultimately show "vget exact_powers_of_ten i = Some (round_double (10 ^ i) 1)" using assms by (simp only: vget_def if_True)
  have "(5 :: nat) ^ i \<le> 5 ^ 22" using assms by (intro power_increasing) simp_all
  then have "(5 :: nat) ^ i < 2 ^ 53" by (rule le_less_trans) simp
  then obtain r where r: "r < D_inf_rank" "D_val r = real (5 ^ i) * 2 powi int i"
    using D_exact_exists [of "5 ^ i" "int i"] assms by auto
  then have v: "D_val r = 10 ^ i" by (simp add: power_mult_distrib [symmetric])
  then have e: "unat (round_double (10 ^ i) 1) = r" using r(1) by (intro round_double_exact) simp_all
  show "unat (round_double (10 ^ i) 1) < D_inf_rank" "D_val (unat (round_double (10 ^ i) 1)) = 10 ^ i"
    using e r v by simp_all
  then show "0 < unat (round_double (10 ^ i) 1)" by (metis gr0I power_not_zero rank_val_0 zero_neq_numeral)
qed

lemma kExactPowersOfTenSize_eq: "kExactPowersOfTenSize = 23"
  by (simp add: kExactPowersOfTenSize_def exact_powers_of_ten_def)

section \<open>DoubleStrtod\<close>

lemma DoubleStrtod_correct:
  assumes s: "list_all is_decimal s"
  shows "returns (DoubleStrtod s e)
    (\<lambda>r. \<forall>d. r = Some d \<longrightarrow> D_nearest (real (text_digits s) * 10 powi e) (unat d))"
proof (cases "length s \<le> 15")
  case True
  have len: "length s \<le> 18" using True by simp
  have "text_digits s < 10 ^ length s" by (rule text_digits_less [OF s])
  also have "\<dots> \<le> 10 ^ 15" using True by (intro power_increasing) simp_all
  finally have lt: "text_digits s < 10 ^ 15" .
  define rem where "rem = 15 - length s"
  have rem: "int 15 - int (length s) = int rem" using True by (simp add: rem_def)
  note read = ReadUint64_all [OF s len]
  have num: "unat (double_of_uint64 w) < D_inf_rank" "D_val (unat (double_of_uint64 w)) = real (text_digits s)"
    if "unat w = text_digits s" for w
    using double_of_uint64_exact [of w] that lt by simp_all
  have mult: "unat (double_mult (double_of_uint64 w) (round_double (10 ^ rem) 1)) < D_inf_rank"
    "D_val (unat (double_mult (double_of_uint64 w) (round_double (10 ^ rem) 1))) = real (text_digits s * 10 ^ rem)"
    if w: "unat w = text_digits s" for w
  proof -
    have "text_digits s * 10 ^ rem < 10 ^ length s * 10 ^ rem" using text_digits_less [OF s] by simp
    also have "\<dots> = 10 ^ 15" using True by (simp add: rem_def power_add [symmetric])
    finally have "text_digits s * 10 ^ rem < 2 ^ 53" by (rule less_le_trans) simp
    then obtain r where r: "r < D_inf_rank" "D_val r = real (text_digits s * 10 ^ rem)"
      using D_exact_exists [of "text_digits s * 10 ^ rem" 0] by auto
    have "rem < 23" by (simp add: rem_def)
    note p = exact_power [OF this]
    have "D_nearest (real (text_digits s * 10 ^ rem)) (unat (double_mult (double_of_uint64 w) (round_double (10 ^ rem) 1)))"
      using double_mult_nearest [OF num(1) [OF w] p(2)] num(2) [OF w] p(3) by simp
    with nearest_rank_val [OF r(1), of 52 "-1074"] r
    have "unat (double_mult (double_of_uint64 w) (round_double (10 ^ rem) 1)) = r" by (auto intro: nearest_unique)
    with r show "unat (double_mult (double_of_uint64 w) (round_double (10 ^ rem) 1)) < D_inf_rank"
      "D_val (unat (double_mult (double_of_uint64 w) (round_double (10 ^ rem) 1))) = real (text_digits s * 10 ^ rem)"
      by simp_all
  qed
  consider (neg) "e < 0" "- e < 23" | (pos) "0 \<le> e" "e < 23" | (large) "23 \<le> e" "e - int rem < 23"
    | (other) "\<not> (e < 0 \<and> - e < 23)" "\<not> (0 \<le> e \<and> e < 23)" "\<not> (0 \<le> e \<and> e - int rem < 23)" by linarith
  then show ?thesis
  proof cases
    case neg
    define i where "i = nat (- e)"
    have i: "i < 23" "e = - int i" using neg by (simp_all add: i_def)
    note p = exact_power [OF i(1)]
    have "D_nearest (real (text_digits s) * 10 powi e) (unat (double_divide (double_of_uint64 w) (round_double (10 ^ i) 1)))"
      if "unat w = text_digits s" for w
      using double_divide_nearest [OF num(1) [OF that] p(2,4)] num(2) [OF that] p(3) i(2)
      by (simp add: power_int_minus divide_inverse)
    with neg True p(1) read show ?thesis
      by (auto simp: DoubleStrtod_def Let_def kMaxExactDoubleIntegerDecimalDigits_def kExactPowersOfTenSize_eq
          i_def [symmetric] returns_bind returns_check elim!: returns_mono)
  next
    case pos
    define i where "i = nat e"
    have i: "i < 23" "e = int i" using pos by (simp_all add: i_def)
    note p = exact_power [OF i(1)]
    have "D_nearest (real (text_digits s) * 10 powi e) (unat (double_mult (double_of_uint64 w) (round_double (10 ^ i) 1)))"
      if "unat w = text_digits s" for w
      using double_mult_nearest [OF num(1) [OF that] p(2)] num(2) [OF that] p(3) i(2) by simp
    with pos True p(1) read show ?thesis
      by (auto simp: DoubleStrtod_def Let_def kMaxExactDoubleIntegerDecimalDigits_def kExactPowersOfTenSize_eq
          i_def [symmetric] returns_bind returns_check elim!: returns_mono)
  next
    case large
    define i where "i = nat (e - int rem)"
    have remlt: "rem < 23" by (simp add: rem_def)
    have i: "i < 23" "e = int i + int rem" using large remlt by (simp_all add: i_def)
    note p = exact_power [OF i(1)] and q = exact_power [OF remlt]
    have "D_nearest (real (text_digits s) * 10 powi e)
        (unat (double_mult (double_mult (double_of_uint64 w) (round_double (10 ^ rem) 1)) (round_double (10 ^ i) 1)))"
      if "unat w = text_digits s" for w
      using double_mult_nearest [OF mult(1) [OF that] p(2)] mult(2) [OF that] p(3) i(2)
      by (simp add: power_int_add power_add algebra_simps)
    with large True p(1) q(1) read rem show ?thesis
      by (auto simp: DoubleStrtod_def Let_def kMaxExactDoubleIntegerDecimalDigits_def kExactPowersOfTenSize_eq
          i_def [symmetric] returns_bind returns_check elim!: returns_mono)
  next
    case other
    then show ?thesis
      using True rem
      by (auto simp: DoubleStrtod_def Let_def kMaxExactDoubleIntegerDecimalDigits_def kExactPowersOfTenSize_eq)
  qed
qed (simp add: DoubleStrtod_def kMaxExactDoubleIntegerDecimalDigits_def)

end
