(* ===== verification/Strtod_Guess.thy ===== *)
theory Strtod_Guess
  imports Strtod_Read
begin

text \<open>
  The error analysis of \<open>DiyFpStrtod\<close>: the computed number is off from the exact one by less than the error that the code
  counts, in eighths of the last place, so that the returned double is the nearest one when the code says so, and the
  nearest one or its lower neighbour otherwise.
\<close>

section \<open>From a scaled number to a double\<close>

lemma rank_val_inj: "rank_val p emin m = rank_val p emin n \<Longrightarrow> m = n"
  using rank_val_less [of m n p emin] rank_val_less [of n m p emin] by (cases m n rule: linorder_cases) auto

lemma DiyFpToUint64_stop:
  assumes "unat (diy_f d) < 2 ^ 53"
  shows "while_loop (\<lambda>(significand, e). Some (significand > D_kHiddenBit + D_kSignificandMask))
       (\<lambda>(significand, e). Some (drop_bit 1 significand, e + 1)) (diy_f d, diy_e d) = Some (diy_f d, diy_e d)"
proof -
  have "\<not> D_kHiddenBit + D_kSignificandMask < diy_f d"
    using assms by (simp add: word_less_nat_alt D_kHiddenBit_def D_kSignificandMask_def)
  then show ?thesis by (intro while_loop_stop) simp
qed

lemma DiyFpToUint64_small:
  assumes "unat (diy_f d) < 2 ^ 53" "diy_e d < -1074"
  shows "DiyFpToUint64 d = Some 0"
  unfolding DiyFpToUint64_def DiyFpToUint64_stop [OF assms(1)] using assms(2) by simp

lemma DiyFpToUint64_large:
  assumes "unat (diy_f d) < 2 ^ 53" "972 \<le> diy_e d"
  shows "DiyFpToUint64 d = Some D_kInfinity"
  unfolding DiyFpToUint64_def DiyFpToUint64_stop [OF assms(1)] using assms(2) by simp

lemma DiyFpToUint64_scaled_less:
  assumes m: "unat (diy_f d) = m" "m < 2 ^ 53" and q: "diy_e d = q" "-1074 \<le> q" "q = -1074 \<or> 2 ^ 52 \<le> m"
  shows "returns (DiyFpToUint64 d) (\<lambda>r. unat r = min D_inf_rank (scaled_rank 52 (-1074) q m))"
proof (cases "q < 972")
  case True
  have "D_val (scaled_rank 52 (-1074) q m) = real m * 2 powi q" using q m by (intro scaled_rank_val) auto
  then have v: "D_val (scaled_rank 52 (-1074) q m) = diy_val d" using m(1) q(1) by (simp add: diy_val_def)
  have "returns (DiyFpToUint64 d) (\<lambda>r. unat r < D_inf_rank \<and> D_val (unat r) = diy_val d)"
    using m q True by (intro DiyFpToUint64_exact_small) simp_all
  then show ?thesis
    by (rule returns_mono) (use rank_val_inj [of 52 "-1074"] v in \<open>metis min.absorb2 less_imp_le\<close>)
next
  case False
  then have "2046 \<le> nat (q + 1074)" "2 ^ 52 \<le> m" using q by auto
  then have "2046 * 2 ^ 52 + 2 ^ 52 \<le> nat (q + 1074) * 2 ^ 52 + m" by (intro add_mono mult_right_mono) simp_all
  then have "D_inf_rank \<le> scaled_rank 52 (-1074) q m" by (simp add: scaled_rank_def)
  moreover have "DiyFpToUint64 d = Some D_kInfinity" using m q(1) False by (intro DiyFpToUint64_large) simp_all
  moreover have "unat D_kInfinity = D_inf_rank" by (simp add: D_kInfinity_def)
  ultimately show ?thesis by (simp only: returns_Some min.absorb1)
qed

lemma DiyFpToUint64_scaled:
  assumes m: "unat (diy_f d) = m" "m \<le> 2 ^ 53" and q: "diy_e d = q" "-1074 \<le> q" "q = -1074 \<or> 2 ^ 52 \<le> m"
  shows "returns (DiyFpToUint64 d) (\<lambda>r. unat r = min D_inf_rank (scaled_rank 52 (-1074) q m))"
proof (cases "m < 2 ^ 53")
  case True
  with assms show ?thesis by (intro DiyFpToUint64_scaled_less) auto
next
  case False
  with m have m53: "unat (diy_f d) = 2 ^ 53" "m = 2 ^ 53" by simp_all
  let ?d = "\<lparr>diy_f = 2 ^ 52, diy_e = diy_e d + 1\<rparr>"
  have "nat (q + 1 + 1074) = Suc (nat (q + 1074))" using q(2) by simp
  then have r: "scaled_rank 52 (-1074) (q + 1) (2 ^ 52) = scaled_rank 52 (-1074) q m"
    using m53(2) by (simp add: scaled_rank_def)
  have "returns (DiyFpToUint64 ?d) (\<lambda>r. unat r = min D_inf_rank (scaled_rank 52 (-1074) (q + 1) (2 ^ 52)))"
    using q by (intro DiyFpToUint64_scaled_less) simp_all
  then show ?thesis unfolding DiyFpToUint64_carry [OF m53(1)] r .
qed

section \<open>Rounding with an error\<close>

text \<open>
  The three cases of the bits that are cut off: clearly above the middle, clearly below it, or too close to it. \<open>y\<close> is the
  exact number in units of the last place of the result.
\<close>

lemma near_up:
  assumes "real m0 + 1 / 2 < y" "y < real m0 + 3 / 2" "-1074 \<le> q" "q = -1074 \<or> 2 ^ 52 \<le> m0" "m0 < 2 ^ 53"
  shows "D_nearest (y * 2 powi q) (min D_inf_rank (scaled_rank 52 (-1074) q (Suc m0)))"
proof (rule nearest_scaled, goal_cases)
  case 2
  have "2 ^ 52 \<le> real m0" if "2 ^ 52 \<le> m0" using that by (metis of_nat_le_iff of_nat_numeral of_nat_power)
  with assms show ?case by auto
next
  case 4
  show ?case using assms(1,2) unfolding of_nat_Suc by linarith
next
  case 5
  then have False using assms(1,2) unfolding of_nat_Suc by linarith
  then show ?case ..
qed (use assms in simp_all)

lemma near_down:
  assumes "real m0 - 1 / 4 < y" "y < real m0 + 1 / 2" "-1074 \<le> q" "q = -1074 \<or> 2 ^ 52 \<le> m0" "m0 < 2 ^ 53"
  shows "D_nearest (y * 2 powi q) (min D_inf_rank (scaled_rank 52 (-1074) q m0))"
proof (rule nearest_scaled, goal_cases)
  case 2
  have "2 ^ 52 \<le> real m0" if "2 ^ 52 \<le> m0" using that by (metis of_nat_le_iff of_nat_numeral of_nat_power)
  with assms show ?case by auto
next
  case 4
  show ?case using assms(1,2) by linarith
next
  case 5
  then have False using assms(1,2) by linarith
  then show ?case ..
qed (use assms in simp_all)

lemma near_middle:
  assumes "real m0 < y" "y < real m0 + 1" "-1074 \<le> q" "q = -1074 \<or> 2 ^ 52 \<le> m0" "m0 < 2 ^ 53"
  shows "D_nearest (y * 2 powi q) (min D_inf_rank (scaled_rank 52 (-1074) q m0)) \<or>
    D_nearest (y * 2 powi q) (min D_inf_rank (scaled_rank 52 (-1074) q (Suc m0)))"
proof -
  have ge: "2 ^ 52 \<le> real m0" if "2 ^ 52 \<le> m0" using that by (metis of_nat_le_iff of_nat_numeral of_nat_power)
  consider "y < real m0 + 1 / 2" | "real m0 + 1 / 2 < y" | "y = real m0 + 1 / 2" by linarith
  then show ?thesis
  proof cases
    case 1
    with assms show ?thesis using near_down [of m0 y q] by simp
  next
    case 2
    with assms show ?thesis using near_up [of m0 y q] by simp
  next
    case 3
    show ?thesis
    proof (cases "even m0")
      case True
      have "D_nearest (y * 2 powi q) (min D_inf_rank (scaled_rank 52 (-1074) q m0))"
        by (rule nearest_scaled) (use 3 True assms ge in auto)
      then show ?thesis ..
    next
      case False
      have "D_nearest (y * 2 powi q) (min D_inf_rank (scaled_rank 52 (-1074) q (Suc m0)))"
        by (rule nearest_scaled) (use 3 False assms ge in auto)
      then show ?thesis ..
    qed
  qed
qed

definition guess_ok :: "real \<Rightarrow> bool \<Rightarrow> double \<Rightarrow> bool" where
  "guess_ok x correct g \<longleftrightarrow> D_nearest x (unat g) \<or> (\<not> correct \<and> unat g < D_inf_rank \<and> D_nearest x (Suc (unat g)))"

text \<open>The words of \<open>round_bits\<close> as natural numbers.\<close>

lemma round_bits_words:
  fixes f err :: uint64
  assumes n: "11 \<le> n" "n \<le> 60" and err: "unat err \<le> 300"
  defines "bits \<equiv> (f AND (push_bit n 1 - 1)) * push_bit 3 1" and "half \<equiv> push_bit (n - 1) 1 * push_bit 3 (1 :: uint64)"
  shows "bits \<ge> half + err \<longleftrightarrow> 4 * 2 ^ n + unat err \<le> 8 * (unat f mod 2 ^ n)"
    "half - err < bits \<and> bits < half + err \<longleftrightarrow>
       4 * 2 ^ n < 8 * (unat f mod 2 ^ n) + unat err \<and> 8 * (unat f mod 2 ^ n) < 4 * 2 ^ n + unat err"
proof -
  define N :: nat where "N = 2 ^ n"
  have "(2 :: nat) ^ 11 \<le> N" "N \<le> 2 ^ 60" unfolding N_def using n by (simp_all only: power_increasing one_le_numeral)
  then have N: "2048 \<le> N" "N \<le> 2 ^ 60" by simp_all
  have "push_bit n 1 - 1 = (mask n :: uint64)" by (simp add: mask_eq_exp_minus_1 push_bit_eq_mult)
  then have b: "unat (f AND (push_bit n 1 - 1)) = unat f mod N" by (simp only: unat_and_mask N_def)
  have bN: "unat f mod N < N" using N by simp
  have u8: "unat (push_bit 3 1 :: uint64) = 8" by simp
  have "c * 8 < 2 ^ 64" if "c < N" for c using that N(2) by simp
  from this [OF bN] have bits: "unat bits = 8 * (unat f mod N)"
    unfolding bits_def by (subst unat_mult_small) (simp_all only: b u8 length_64 mult.commute)
  have h: "unat (push_bit (n - 1) 1 :: uint64) = 2 ^ (n - 1)"
  proof -
    have "(2 :: nat) ^ (n - 1) < 2 ^ 64" using n by (intro power_strict_increasing) simp_all
    then show ?thesis by (subst unat_push_bit_small) simp_all
  qed
  have "2 * 2 ^ (n - 1) = N" unfolding N_def using n by (simp flip: power_Suc)
  then have h8: "2 ^ (n - 1) * 8 = 4 * N" by simp
  have half: "unat half = 4 * N"
    unfolding half_def using N h8 by (subst unat_mult_small) (simp_all only: h u8 length_64, simp_all)
  have plus: "unat (half + err) = 4 * N + unat err"
    using half err N by (subst unat_add_small) (simp_all add: half)
  have minus: "unat (half - err) = 4 * N - unat err" using half err N by (subst unat_sub_small) simp_all
  show "bits \<ge> half + err \<longleftrightarrow> 4 * 2 ^ n + unat err \<le> 8 * (unat f mod 2 ^ n)"
    unfolding word_le_nat_alt plus bits N_def ..
  show "half - err < bits \<and> bits < half + err \<longleftrightarrow>
       4 * 2 ^ n < 8 * (unat f mod 2 ^ n) + unat err \<and> 8 * (unat f mod 2 ^ n) < 4 * 2 ^ n + unat err"
    unfolding word_less_nat_alt plus minus bits N_def [symmetric] using err N by auto
qed

lemma round_bits_correct:
  assumes n: "11 \<le> n" "n \<le> 60" and err: "unat err \<le> 300"
    and q: "-1074 \<le> diy_e d + int n" "diy_e d + int n = -1074 \<or> 2 ^ 52 \<le> unat (diy_f d) div 2 ^ n"
    and m: "unat (diy_f d) div 2 ^ n < 2 ^ 53"
    and x: "\<bar>x - diy_val d\<bar> < real (unat err) / 8 * 2 powi diy_e d"
  shows "returns (round_bits d err (int n)) (\<lambda>(c, g). guess_ok x c g)"
proof -
  define f q m0 b N where "f = unat (diy_f d)" and "q = diy_e d + int n" and "m0 = f div 2 ^ n" and "b = f mod 2 ^ n"
    and "N = (2 :: real) ^ n"
  define y t D where "y = x / 2 powi q" and "t = real b / N" and "D = real (unat err) / (8 * N)"
  have N0: "0 < N" by (simp add: N_def)
  have pq: "2 powi q = 2 powi diy_e d * N" by (simp add: q_def N_def power_int_add)
  have x_y: "x = y * 2 powi q" by (simp add: y_def)
  have fmb: "f = m0 * 2 ^ n + b" by (simp only: m0_def b_def div_mult_mod_eq)
  have rf: "real f = real m0 * N + real b" using arg_cong [OF fmb, of real] by (simp add: N_def)
  have "diy_val d = (real m0 + t) * 2 powi q"
    using N0 unfolding pq t_def diy_val_def f_def [symmetric] rf by (simp add: field_simps)
  then have "\<bar>y - (real m0 + t)\<bar> * 2 powi q = \<bar>x - diy_val d\<bar>"
    unfolding x_y by (simp add: left_diff_distrib [symmetric] abs_mult)
  also have "\<dots> < D * 2 powi q" using x N0 unfolding pq D_def by (simp add: field_simps)
  finally have yt: "\<bar>y - (real m0 + t)\<bar> < D" by simp
  have "(2 :: real) ^ 11 \<le> N" unfolding N_def using n(1) by (intro power_increasing) simp_all
  then have D: "D < 1 / 4" "0 \<le> D" unfolding D_def using err N0 by (simp_all add: field_simps)
  have "real b < N" unfolding N_def b_def by (metis mod_less_divisor of_nat_less_iff of_nat_numeral of_nat_power zero_less_numeral zero_less_power)
  then have t: "0 \<le> t" "t < 1" using N0 by (simp_all add: t_def)
  let ?up = "4 * 2 ^ n + unat err \<le> 8 * b" and ?mid = "4 * 2 ^ n < 8 * b + unat err \<and> 8 * b < 4 * 2 ^ n + unat err"
  have scaled: "4 * 2 ^ n + unat err \<le> 8 * b \<longleftrightarrow> 1 / 2 + D \<le> t" "4 * 2 ^ n < 8 * b + unat err \<longleftrightarrow> 1 / 2 < t + D"
  proof -
    have D': "1 / 2 + D = (4 * N + real (unat err)) / (8 * N)" and t': "t = 8 * real b / (8 * N)"
      and tD: "t + D = (8 * real b + real (unat err)) / (8 * N)" and half: "1 / 2 = 4 * N / (8 * N)"
      unfolding D_def t_def using N0 by (simp_all add: field_simps)
    have "4 * 2 ^ n + unat err \<le> 8 * b \<longleftrightarrow> 4 * N + real (unat err) \<le> 8 * real b"
      unfolding N_def by (simp flip: of_nat_le_iff [where ?'a = real])
    also have "\<dots> \<longleftrightarrow> 1 / 2 + D \<le> t" unfolding D' t' divide_le_cancel using N0 by auto
    finally show "4 * 2 ^ n + unat err \<le> 8 * b \<longleftrightarrow> 1 / 2 + D \<le> t" .
    have "4 * 2 ^ n < 8 * b + unat err \<longleftrightarrow> 4 * N < 8 * real b + real (unat err)"
      unfolding N_def by (simp flip: of_nat_less_iff [where ?'a = real])
    also have "\<dots> \<longleftrightarrow> 1 / 2 < t + D" unfolding tD half divide_less_cancel using N0 by auto
    finally show "4 * 2 ^ n < 8 * b + unat err \<longleftrightarrow> 1 / 2 < t + D" .
  qed
  note q' = q(1) [folded q_def] and q2 = q(2) [folded f_def q_def, folded m0_def] and m' = m [folded f_def, folded m0_def]
  define r where "r = mk_diy (drop_bit n (diy_f d)) q"
  have rf: "unat (diy_f r) = m0" and re: "diy_e r = q" by (simp_all add: r_def mk_diy_def unat_drop_bit m0_def f_def)
  have rf1: "unat (diy_f (r\<lparr>diy_f := diy_f r + 1\<rparr>)) = Suc m0" using m' rf by (simp add: unat_add_small)
  have to_up: "returns (DiyFpToUint64 (r\<lparr>diy_f := diy_f r + 1\<rparr>)) (\<lambda>g. unat g = min D_inf_rank (scaled_rank 52 (-1074) q (Suc m0)))"
    using q' q2 m' re by (intro DiyFpToUint64_scaled [OF rf1]) auto
  have to_down: "returns (DiyFpToUint64 r) (\<lambda>g. unat g = min D_inf_rank (scaled_rank 52 (-1074) q m0))"
    using q' q2 m' re by (intro DiyFpToUint64_scaled [OF rf]) auto
  have main: "returns (DiyFpToUint64 (if ?up then r\<lparr>diy_f := diy_f r + 1\<rparr> else r)) (\<lambda>g. guess_ok x (\<not> ?mid) g)"
  proof -
    consider (up) ?up | (down) "\<not> ?up" "\<not> ?mid" | (mid) "\<not> ?up" ?mid by blast
    then show ?thesis
    proof cases
      case up
      then have "real m0 + 1 / 2 < y" "y < real m0 + 3 / 2" using yt t D scaled(1) by (simp_all add: abs_less_iff)
      from near_up [OF this q' q2 m'] up to_up show ?thesis
        by (auto simp: guess_ok_def x_y elim!: returns_mono)
    next
      case down
      then have "\<not> 1 / 2 < t + D" using scaled(2) by linarith
      then have "real m0 - 1 / 4 < y" "y < real m0 + 1 / 2" using yt t D by (simp_all add: abs_less_iff)
      from near_down [OF this q' q2 m'] down to_down show ?thesis
        by (auto simp: guess_ok_def x_y elim!: returns_mono)
    next
      case mid
      then have "real m0 < y" "y < real m0 + 1" using yt D scaled by (auto simp: abs_less_iff)
      note near = near_middle [OF this q' q2 m']
      let ?R = "scaled_rank 52 (-1074) q m0"
      have suc: "scaled_rank 52 (-1074) q (Suc m0) = Suc ?R" by (simp add: scaled_rank_def)
      have "guess_ok x False g" if "unat g = min D_inf_rank ?R" for g
      proof (cases "?R < D_inf_rank")
        case True
        then have "unat g = ?R" "min D_inf_rank (Suc ?R) = Suc ?R" using that by auto
        with near suc True show ?thesis by (auto simp: guess_ok_def x_y min_def)
      next
        case False
        then have "min D_inf_rank ?R = D_inf_rank" "min D_inf_rank (Suc ?R) = D_inf_rank" by auto
        with near suc that show ?thesis by (auto simp: guess_ok_def x_y)
      qed
      with mid to_down show ?thesis by (auto elim!: returns_mono)
    qed
  qed
  have n1: "nat (int n - 1) = n - 1" using n by simp
  note words = round_bits_words [OF n err, of "diy_f d", folded f_def, folded b_def]
  show ?thesis
    unfolding round_bits_def Let_def nat_int n1 words q_def [symmetric] r_def [symmetric]
    using main n by (auto simp: returns_bind returns_check elim!: returns_mono)
qed

end
