(* ===== verification/Strtod_Diy.thy ===== *)
theory Strtod_Diy
  imports Strtod_Guess
begin

text \<open>
  \<open>DiyFpStrtod\<close>: every step of the computation with 64-bit significands keeps the exact number within the error that
  the code counts, so that the double that it returns is the nearest one, or possibly the one below when the answer is
  not marked as correct.
\<close>

section \<open>The last rounding\<close>

lemma shifted_off:
  fixes f :: uint64
  shows "real (unat (drop_bit s f)) * 2 ^ s \<le> real (unat f)" "real (unat f) < real (unat (drop_bit s f)) * 2 ^ s + 2 ^ s"
proof -
  let ?q = "unat f div 2 ^ s"
  have "?q * 2 ^ s \<le> unat f" "unat f < ?q * 2 ^ s + 2 ^ s"
    using div_times_less_eq_dividend [of "unat f" "2 ^ s"] dividend_less_div_times [of "2 ^ s" "unat f"] by simp_all
  then have "real (?q * 2 ^ s) \<le> real (unat f)" "real (unat f) < real (?q * 2 ^ s + 2 ^ s)"
    by (simp_all only: of_nat_le_iff of_nat_less_iff)
  then show "real (unat (drop_bit s f)) * 2 ^ s \<le> real (unat f)" "real (unat f) < real (unat (drop_bit s f)) * 2 ^ s + 2 ^ s"
    by (simp_all add: unat_drop_bit)
qed

lemma drop_with_error:
  fixes s :: nat and err :: uint64
  assumes err: "unat err \<le> 200" and x: "\<bar>x - diy_val d\<bar> < real (unat err) / 8 * 2 powi diy_e d"
  defines "d' \<equiv> mk_diy (drop_bit s (diy_f d)) (diy_e d + int s)" and "err' \<equiv> drop_bit s err + 1 + push_bit 3 1"
  shows "\<bar>x - diy_val d'\<bar> < real (unat err') / 8 * 2 powi diy_e d'" "unat err' \<le> 209"
proof -
  define P where "P = (2 :: real) powi diy_e d"
  have P: "0 < P" by (simp add: P_def)
  have pe: "2 powi diy_e d' = 2 ^ s * P" by (simp add: d'_def mk_diy_def P_def power_int_add)
  have q: "unat (drop_bit s err) \<le> 200" using err by (simp add: unat_drop_bit) (meson div_le_dividend le_trans)
  then have u: "unat err' = unat (drop_bit s err) + 9" unfolding err'_def by (subst unat_add_small; simp add: unat_add_small)+
  with q show "unat err' \<le> 209" by simp
  have "x - diy_val d < real (unat err) / 8 * P" "diy_val d - x < real (unat err) / 8 * P"
    using x [folded P_def] by linarith+
  moreover have "real (unat err) / 8 * P \<le> (real (unat (drop_bit s err)) * 2 ^ s + 2 ^ s) / 8 * P"
    using shifted_off(2) [of err s] P by (intro mult_right_mono divide_right_mono) simp_all
  moreover have "real (unat (drop_bit s (diy_f d))) * 2 ^ s * P \<le> real (unat (diy_f d)) * P"
    using shifted_off(1) [of s "diy_f d"] P by (intro mult_right_mono) simp_all
  moreover have "real (unat (diy_f d)) * P < (real (unat (drop_bit s (diy_f d))) * 2 ^ s + 2 ^ s) * P"
    using shifted_off(2) [of "diy_f d" s] P by (intro mult_strict_right_mono) simp_all
  moreover have "diy_val d = real (unat (diy_f d)) * P" "diy_val d' = real (unat (drop_bit s (diy_f d))) * 2 ^ s * P"
    unfolding diy_val_def pe by (simp_all add: P_def d'_def mk_diy_def)
  ultimately show "\<bar>x - diy_val d'\<bar> < real (unat err') / 8 * 2 powi diy_e d'"
    unfolding pe u abs_less_iff by (simp add: algebra_simps add_divide_distrib) 
qed

lemma round_bits_zero:
  assumes "diy_e d + int n < -1074" "n = 60"
  shows "returns (round_bits d err (int n)) (\<lambda>(c, g). g = 0)"
proof -
  have "unat (drop_bit n (diy_f d)) < 2 ^ 53" "unat (drop_bit n (diy_f d) + 1) < 2 ^ 53"
  proof -
    have u: "unat (drop_bit n (diy_f d)) < 16" using unat_less_64 [of "diy_f d"] assms(2)
      by (simp add: unat_drop_bit less_mult_imp_div_less)
    then show "unat (drop_bit n (diy_f d)) < 2 ^ 53" by simp
    from u show "unat (drop_bit n (diy_f d) + 1) < 2 ^ 53" by (subst unat_add_small) simp_all
  qed
  then show ?thesis
    using assms unfolding round_bits_def Let_def nat_int
    by (auto simp: returns_bind returns_check DiyFpToUint64_small mk_diy_def)
qed

lemma round_diy_correct:
  assumes d: "normalized d" and err: "unat err \<le> 200"
    and x: "\<bar>x - diy_val d\<bar> < real (unat err) / 8 * 2 powi diy_e d"
    and small: "diy_e d \<le> -1139 \<Longrightarrow> x \<le> 2 powi (-1075)"
  shows "returns (round_diy d err) (\<lambda>(c, g). guess_ok x c g)"
proof -
  let ?E = "diy_e d" and ?f = "unat (diy_f d)"
  have f: "2 ^ 63 \<le> ?f" "?f < 2 ^ 64" using d unat_less_64 by (simp_all add: normalized_def)
  note size = D_SignificandSizeForOrderOfMagnitude_def
  consider (normal) "-1085 \<le> ?E" | (denormal) "?E < -1085" "-1134 \<le> ?E" | (tiny) "?E < -1134" "-1138 \<le> ?E" | (zero) "?E < -1138"
    by linarith
  then show ?thesis
  proof cases
    case normal
    then have r: "round_diy d err = round_bits d err (int 11)"
      by (simp add: round_diy_def size)
    have "2 ^ 52 \<le> ?f div 2 ^ 11" "?f div 2 ^ 11 < 2 ^ 53" using f by simp_all
    with normal err x show ?thesis unfolding r by (intro round_bits_correct) simp_all
  next
    case denormal
    define n where "n = nat (- ?E - 1074)"
    have n: "int n = - 1074 - ?E" "11 \<le> n" "n \<le> 60" using denormal by (simp_all add: n_def)
    have r: "round_diy d err = round_bits d err (int n)"
      using denormal unfolding n(1) by (simp add: round_diy_def size)
    have "(2 :: nat) ^ 11 \<le> 2 ^ n" by (rule power_increasing) (use n in simp_all)
    then have "?f div 2 ^ n \<le> ?f div 2 ^ 11" by (intro div_le_mono2) simp_all
    also have "\<dots> < 2 ^ 53" using f by simp
    finally show ?thesis using n err x unfolding r by (intro round_bits_correct) simp_all
  next
    case tiny
    define s where "s = nat (- 1134 - ?E)"
    have s: "int s = - 1134 - ?E" "s \<le> 4" using tiny by (simp_all add: s_def)
    let ?d = "mk_diy (drop_bit s (diy_f d)) (?E + int s)" and ?err = "drop_bit s err + 1 + push_bit 3 1"
    have r: "round_diy d err = round_bits ?d ?err (int 60)"
      using tiny unfolding s_def by (cases "?E = -1138") (simp_all add: round_diy_def size Let_def)
    note x' = drop_with_error [OF err x, of s]
    have "unat (diy_f ?d) div 2 ^ 60 < 2 ^ 53" using unat_less_64 [of "diy_f ?d"] by (simp add: less_mult_imp_div_less)
    then show ?thesis
      unfolding r by (intro round_bits_correct) (use x' s in \<open>simp_all add: mk_diy_def\<close>)
  next
    case zero
    let ?d = "mk_diy (drop_bit 4 (diy_f d)) (?E + 4)" and ?err = "drop_bit 4 err + 1 + push_bit 3 1"
    have r: "round_diy d err = round_bits ?d ?err (int 60)"
      using zero by (simp add: round_diy_def size)
    have "D_nearest x 0" using small zero by (simp add: nearest_def midpoint_def rank_val_def rank_sig_def rank_exp_def power_int_diff)
    then have g0: "guess_ok x c 0" for c by (simp add: guess_ok_def)
    show ?thesis
      unfolding r by (rule returns_mono [OF round_bits_zero]) (use zero g0 in \<open>auto simp: mk_diy_def\<close>)
  qed
qed

section \<open>Reading the leading digits\<close>

text \<open>\<open>read_value s n w rem\<close>: the digits \<open>s\<close> stand for \<open>w\<close>, the last \<open>rem\<close> of them cut off and rounded.\<close>

definition read_value :: "string \<Rightarrow> nat \<Rightarrow> int \<Rightarrow> bool" where
  "read_value s w rem \<longleftrightarrow> 0 < w \<and> 0 \<le> rem \<and> rem < int (length s) \<and> w \<le> 18446744073709551610 \<and>
     (if rem = 0 then w = text_digits s
      else 19 \<le> length s \<and> 1844674407370955161 \<le> w \<and> \<bar>real (text_digits s) * 10 powi (- rem) - real w\<bar> \<le> 1 / 2)"

lemma text_digits_pos: "s \<noteq> [] \<Longrightarrow> hd s \<noteq> CHR ''0'' \<Longrightarrow> list_all is_decimal s \<Longrightarrow> 0 < text_digits s"
proof (cases s)
  case (Cons c t)
  assume "hd s \<noteq> CHR ''0''" "list_all is_decimal s"
  with Cons have "is_decimal c" "c \<noteq> CHR ''0''" by auto
  moreover have "digit_char 0 = CHR ''0''" using digit_char_char_digit [of "CHR ''0''"] by (simp add: is_decimal_def)
  ultimately have "char_digit c \<noteq> 0" using digit_char_char_digit [of c] by metis
  with Cons show ?thesis by simp
qed simp

lemma frac_half:
  fixes t d :: nat
  assumes "t < 10 ^ n" "d \<le> 9"
  defines "F \<equiv> real (d * 10 ^ n + t) / 10 ^ Suc n"
  shows "5 \<le> d \<Longrightarrow> 1 / 2 \<le> F" "d < 5 \<Longrightarrow> F < 1 / 2" "0 \<le> F" "F < 1"
proof -
  have t: "real t < 10 ^ n" using assms(1) by (metis of_nat_less_iff of_nat_numeral of_nat_power)
  define T where "T = real t / 10 ^ n"
  have T: "0 \<le> T" "T < 1" using t by (simp_all add: T_def)
  have F: "F = (real d + T) / 10" by (simp add: F_def T_def field_simps)
  show "5 \<le> d \<Longrightarrow> 1 / 2 \<le> F" "d < 5 \<Longrightarrow> F < 1 / 2" "0 \<le> F" "F < 1" unfolding F using T assms(2) by simp_all
qed

lemma ReadDiyFp_correct:
  assumes s: "list_all is_decimal s" "s \<noteq> []" "hd s \<noteq> CHR ''0''"
  shows "returns (ReadDiyFp s) (\<lambda>(d, rem). diy_e d = 0 \<and> read_value s (unat (diy_f d)) rem)"
  unfolding ReadDiyFp_def
proof (rule returns_bindI [OF ReadUint64_correct [OF s(1)]], clarify)
  fix w :: uint64 and k
  assume k: "k \<le> length s" and w: "unat w = text_digits (take k s)" "k = length s \<or> 1844674407370955161 \<le> unat w"
    and lim: "unat w \<le> 18446744073709551609"
  have k0: "0 < k" using w s(2) by (cases k) auto
  show "returns (if length s = k then Some (mk_diy w 0, 0) else do {
       c \<leftarrow> vget s k;
       let significand = (if of_char c \<ge> (of_char CHR ''5'' :: int) then w + 1 else w);
       Some (mk_diy significand 0, int (length s) - int k)
     }) (\<lambda>(d, rem). diy_e d = 0 \<and> read_value s (unat (diy_f d)) rem)"
  proof (cases "length s = k")
    case True
    then show ?thesis using w lim s text_digits_pos k0 by (simp add: mk_diy_def read_value_def)
  next
    case False
    define n where "n = length s - Suc k"
    have kn: "k < length s" "int (length s) - int k = int (Suc n)" "length s - k = Suc n" using k False by (simp_all add: n_def)
    have c: "is_decimal (s ! k)" using s(1) kn by (simp add: list_all_iff)
    let ?t = "drop (Suc k) s" and ?d = "char_digit (s ! k)"
    have t: "text_digits ?t < 10 ^ n"
    proof -
      have "list_all is_decimal ?t" using s(1) by (auto simp: list_all_iff dest: in_set_dropD)
      from text_digits_less [OF this] show ?thesis by (simp add: n_def)
    qed
    note frac = frac_half [OF t char_digit_le [OF c]]
    have len_t: "length ?t = n" by (simp add: n_def)
    define F where "F = real (?d * 10 ^ n + text_digits ?t) / 10 ^ Suc n"
    have "text_digits s = text_digits (take k s @ s ! k # ?t)"
      by (rule arg_cong [where f = text_digits, OF id_take_nth_drop [OF kn(1)]])
    also have "\<dots> = unat w * 10 ^ Suc n + (?d * 10 ^ n + text_digits ?t)"
      unfolding text_digits_append text_digits_simps length_Cons len_t w(1) ..
    finally have td: "real (text_digits s) = real (unat w) * 10 ^ Suc n + real (?d * 10 ^ n + text_digits ?t)"
      by (simp only: of_nat_add of_nat_mult of_nat_power of_nat_numeral)
    have "real (text_digits s) * 10 powi (- int (Suc n)) = real (text_digits s) / 10 ^ Suc n"
      unfolding power_int_minus power_int_of_nat divide_inverse ..
    then have x: "real (text_digits s) * 10 powi (- int (Suc n)) = real (unat w) + F"
      unfolding F_def td add_divide_distrib by simp
    have cmp: "of_char (s ! k) \<ge> (of_char CHR ''5'' :: int) \<longleftrightarrow> 5 \<le> ?d"
    proof -
      have "(of_char (s ! k) :: int) = int (of_char (s ! k))" by (rule of_nat_of_char [symmetric])
      then show ?thesis using c by (auto simp: char_digit_def is_decimal_nat)
    qed
    have w1: "unat (w + 1) = unat w + 1" using lim by (subst unat_add_small) simp_all
    have "list_all is_decimal (take k s)" using s(1) by (auto simp: list_all_iff dest: in_set_takeD)
    then have "unat w < 10 ^ k" using text_digits_less [of "take k s"] k w(1) by simp
    have "18 < k"
    proof (rule ccontr)
      assume "\<not> 18 < k"
      then have "(10 :: nat) ^ k \<le> 10 ^ 18" by (intro power_increasing) simp_all
      also have "(10 :: nat) ^ 18 < 1844674407370955161" by simp
      finally show False using \<open>unat w < 10 ^ k\<close> w(2) False by simp
    qed
    have w2: "1844674407370955161 \<le> unat w" using w(2) False by simp
    have near: "\<bar>real (unat w) + F - real (unat (if 5 \<le> ?d then w + 1 else w))\<bar> \<le> 1 / 2"
      using frac [folded F_def] w1 by (auto simp: abs_le_iff)
    have "read_value s (unat (if 5 \<le> ?d then w + 1 else w)) (int (Suc n))"
      unfolding read_value_def x using near w1 w2 lim k0 kn \<open>18 < k\<close> by auto
    then show ?thesis
      unfolding kn(2) using kn(1) False by (simp add: wp Let_def mk_diy_def cmp [simplified])
  qed
qed

section \<open>Normalization and multiplication with an error\<close>

lemma normalize_with_error_correct:
  assumes "diy_f d \<noteq> 0"
  shows "returns (normalize_with_error d err) (\<lambda>(r, err'). \<exists>k < 64. normalized r \<and> unat (diy_f r) = unat (diy_f d) * 2 ^ k \<and>
    diy_e r = diy_e d - int k \<and> diy_val r = diy_val d \<and> err' = push_bit k err)"
  unfolding normalize_with_error_def Let_def
proof (rule returns_bindI [OF Normalize_correct [OF assms]], clarify)
  fix r k
  assume r: "normalized r" "diy_val r = diy_val d" "unat (diy_f r) = unat (diy_f d) * 2 ^ k" "diy_e r = diy_e d - int k"
  have "2 ^ k \<le> unat (diy_f r)" using assms r(3) by (simp add: unat_gt_0 Suc_leI)
  also have "\<dots> < 2 ^ 64" by (rule unat_less_64)
  finally have "k < 64" by (rule power_less_imp_less_exp [rotated]) simp
  with r show "returns (Option.bind (check (0 \<le> diy_e d - diy_e r \<and> diy_e d - diy_e r < 64))
      (\<lambda>_. Some (r, push_bit (nat (diy_e d - diy_e r)) err)))
     (\<lambda>(r, err'). \<exists>k < 64. normalized r \<and> unat (diy_f r) = unat (diy_f d) * 2 ^ k \<and>
       diy_e r = diy_e d - int k \<and> diy_val r = diy_val d \<and> err' = push_bit k err)"
    by (intro returns_checkI) auto
qed

lemma Multiply_exact:
  assumes "2 ^ 64 dvd unat (diy_f d) * unat (diy_f c)"
  shows "diy_val (Multiply d c) = diy_val d * diy_val c"
proof -
  obtain q where q: "unat (diy_f d) * unat (diy_f c) = 2 ^ 64 * q" using assms ..
  have "unat (diy_f (Multiply d c)) = q" unfolding Multiply_f q by simp
  then have "diy_val (Multiply d c) = real (2 ^ 64 * q) * (2 powi diy_e d * 2 powi diy_e c)"
    by (simp add: diy_val_def Multiply_e power_int_add)
  also have "\<dots> = diy_val d * diy_val c" unfolding q [symmetric] by (simp add: diy_val_def)
  finally show ?thesis .
qed

lemma Multiply_with_error:
  assumes x: "\<bar>x - diy_val d\<bar> \<le> a * 2 powi diy_e d" and y: "\<bar>y - diy_val c\<bar> \<le> \<delta> * 2 powi diy_e c" "0 \<le> y" "\<delta> \<le> 1"
  shows "\<bar>x * y - diy_val (Multiply d c)\<bar> \<le> (a + 1 / 2) * 2 powi diy_e (Multiply d c) + diy_val d * \<delta> * 2 powi diy_e c"
proof -
  define P Q R where "P = (2 :: real) powi diy_e d" and "Q = (2 :: real) powi diy_e c" and "R = (2 :: real) powi diy_e (Multiply d c)"
  have pos: "0 < P" "0 < Q" by (simp_all add: P_def Q_def)
  have R: "R = P * (2 ^ 64 * Q)" by (simp add: P_def Q_def R_def Multiply_e power_int_add)
  have "0 \<le> a * P" using order_trans [OF abs_ge_zero x] by (simp add: P_def)
  then have a: "0 \<le> a" using pos by (simp add: zero_le_mult_iff)
  have "real (unat (diy_f c)) + 1 \<le> 2 ^ 64" using unat_less_64 [of "diy_f c"] by simp
  then have "(real (unat (diy_f c)) + \<delta>) * Q \<le> 2 ^ 64 * Q" using y(3) pos by (intro mult_right_mono) auto
  then have yQ: "y \<le> 2 ^ 64 * Q" using y(1) by (simp add: diy_val_def Q_def algebra_simps abs_le_iff)
  have "\<bar>x * y - diy_val (Multiply d c)\<bar>
      = \<bar>(x - diy_val d) * y + diy_val d * (y - diy_val c) + (diy_val d * diy_val c - diy_val (Multiply d c))\<bar>"
    by (simp add: algebra_simps)
  also have "\<dots> \<le> \<bar>x - diy_val d\<bar> * y + diy_val d * \<bar>y - diy_val c\<bar> + \<bar>diy_val d * diy_val c - diy_val (Multiply d c)\<bar>"
    by (rule order_trans [OF abs_triangle_ineq add_mono [OF order_trans [OF abs_triangle_ineq] order_refl]])
      (use y(2) in \<open>simp add: abs_mult diy_val_def\<close>)
  also have "\<dots> \<le> a * P * (2 ^ 64 * Q) + diy_val d * (\<delta> * Q) + R / 2"
  proof (intro add_mono mult_mono mult_left_mono)
    show "\<bar>x - diy_val d\<bar> \<le> a * P" "\<bar>y - diy_val c\<bar> \<le> \<delta> * Q" using x y by (simp_all add: P_def Q_def)
    show "\<bar>diy_val d * diy_val c - diy_val (Multiply d c)\<bar> \<le> R / 2"
      using Times_error [of d c] by (simp add: Times_def R_def power_int_diff abs_minus_commute)
    show "0 \<le> diy_val d" by (simp add: diy_val_def)
  qed (use yQ y \<open>0 \<le> a * P\<close> in simp_all)
  finally show ?thesis by (simp add: R R_def [symmetric] P_def [symmetric] Q_def [symmetric] algebra_simps)
qed

lemma AdjustmentPowerOfTen_correct:
  assumes "0 < a" "a < 8"
  shows "returns (AdjustmentPowerOfTen a) (\<lambda>p. \<exists>j \<le> 64. unat (diy_f p) = 10 ^ nat a * 2 ^ j \<and> diy_e p = - int j \<and>
    normalized p \<and> 10 ^ (19 - nat a) \<le> (2 :: nat) ^ j)"
proof -
  define j :: nat where "j = [60, 57, 54, 50, 47, 44, 40] ! (nat a - 1)"
  consider "a = 1" | "a = 2" | "a = 3" | "a = 4" | "a = 5" | "a = 6" | "a = 7" using assms by linarith
  then have "returns (AdjustmentPowerOfTen a) (\<lambda>p. j \<le> 64 \<and> unat (diy_f p) = 10 ^ nat a * 2 ^ j \<and> diy_e p = - int j \<and>
    normalized p \<and> 10 ^ (19 - nat a) \<le> (2 :: nat) ^ j)"
    by cases (simp_all add: AdjustmentPowerOfTen_def wp kDecimalExponentDistance_def mk_diy_def normalized_def j_def)
  then show ?thesis by (rule returns_mono) blast
qed

section \<open>Half of the smallest double\<close>

text \<open>
  The count of the error is in units of a number below the last place of the smallest denormal. Only numbers that begin
  with the digits of \<open>2 ^ -1075\<close>, half of that denormal, need a closer look: their computation is followed step by step.
\<close>

lemma half_denormal_decimal:
  "4940656458412465441 / 2 * 10 powi (-342) < (2 :: real) powi (-1075)"
  "(2 :: real) powi (-1075) + 45 / 2 * 2 powi (-1139) < 2470328229206232724 * 10 powi (-342)"
  by (simp_all add: power_int_minus field_simps)

lemma read_value_near:
  assumes "read_value s w rem"
  shows "\<bar>real (text_digits s) * 10 powi (- rem) - real w\<bar> \<le> (if rem = 0 then 0 else 1 / 2)"
  using assms by (auto simp: read_value_def)

lemma half_denormal_window:
  assumes r: "read_value s w rem" and x: "x = real (text_digits s) * 10 powi (- rem) * 10 powi n"
    and lo: "2 powi (-1075) < x" and hi: "x < 2 powi (-1075) + 45 / 2 * 2 powi (-1139)"
  shows "n = -342 \<and> 2470328229206232721 \<le> w \<and> w \<le> 2470328229206232724"
proof -
  define x0 W where "x0 = real (text_digits s) * 10 powi (- rem)" and "W = x0 * 10 powi (n + 342)"
  have A: "(0 :: real) < 10 powi (-342)" by simp
  have "n = (n + 342) + (-342)" by simp
  then have "(10 :: real) powi n = 10 powi (n + 342) * 10 powi (-342)" by (metis power_int_add zero_neq_numeral)
  then have xW: "x = W * 10 powi (-342)" by (simp add: x W_def x0_def)
  have W: "4940656458412465441 / 2 < W" "W < 2470328229206232724"
    using less_trans [OF half_denormal_decimal(1) lo] less_trans [OF hi half_denormal_decimal(2)] A
    unfolding xW by (simp_all only: mult_less_cancel_right_pos)
  have near: "\<bar>x0 - real w\<bar> \<le> (if rem = 0 then 0 else 1 / 2)" unfolding x0_def by (rule read_value_near [OF r])
  then have near': "x0 \<le> real w + 1 / 2" "real w - 1 / 2 \<le> x0" by (simp_all add: abs_le_iff split: if_splits)
  have w: "0 < w" "w \<le> 18446744073709551610" "rem \<noteq> 0 \<Longrightarrow> 1844674407370955161 \<le> w" using r by (auto simp: read_value_def split: if_splits)
  consider "1 \<le> n + 342" "rem = 0" | "1 \<le> n + 342" "rem \<noteq> 0" | "n + 342 \<le> -1" | "n + 342 = 0" by linarith
  then show ?thesis
  proof cases
    case 1
    define j where "j = nat (n + 341)"
    have "n + 342 = int (Suc j)" using 1 by (simp add: j_def)
    then have "10 powi (n + 342) = (10 :: real) ^ Suc j" by (simp only: power_int_of_nat)
    then have "W = real (w * 10 ^ Suc j)" using near 1(2) by (simp add: W_def)
    then have "4940656458412465441 < 2 * (w * 10 ^ Suc j)" "w * 10 ^ Suc j < 2470328229206232724"
      using W by (simp_all flip: of_nat_less_iff [where ?'a = real])
    moreover have "w * 10 ^ Suc j = 10 * (w * 10 ^ j)" by simp
    ultimately show ?thesis by presburger
  next
    case 2
    then have "(10 :: real) powi 1 \<le> 10 powi (n + 342)" by (intro power_int_increasing) simp_all
    then have "x0 * 10 \<le> W" unfolding W_def using near' w 2 by (intro mult_left_mono) simp_all
    then show ?thesis using W near' w(3) 2 by simp
  next
    case 3
    then have "(10 :: real) powi (n + 342) \<le> 10 powi (-1)" by (intro power_int_increasing) simp_all
    moreover have "0 \<le> x0" by (simp add: x0_def)
    ultimately have "W \<le> x0 * 10 powi (-1)" unfolding W_def by (intro mult_left_mono)
    then have "W \<le> x0 * (1 / 10)" by simp
    moreover have "real w \<le> 18446744073709551610" using w(2) by simp
    ultimately show ?thesis using W near' by linarith
  next
    case 4
    then have "W = x0" by (simp add: W_def)
    then have "2470328229206232720 < real w" "real w < 2470328229206232725" using W near' by linarith+
    then have "2470328229206232720 < w" "w < 2470328229206232725" by simp_all
    with 4 show ?thesis by simp
  qed
qed

lemma half_denormal_product:
  assumes d: "unat (diy_f d) = w * 2 ^ k" "diy_e d = - int k" "normalized d"
    and w: "2470328229206232721 \<le> w" "w \<le> 2470328229206232724"
    and p: "AdjustmentPowerOfTen 6 = Some p" and c: "GetCachedPowerForDecimalExponent (-342) = Some (c, found)"
  defines "r \<equiv> Multiply (Multiply d p) c"
  shows "diy_e r = -1138 \<and> 2 ^ 63 \<le> unat (diy_f r)"
proof -
  have p: "p = mk_diy 0xf424000000000000 (-44)" using p by (simp add: AdjustmentPowerOfTen_def kDecimalExponentDistance_def check_def)
  have c: "c = mk_diy 0xfa8fd5a0081c0288 (-1220)"
    using c by (simp add: GetCachedPowerForDecimalExponent_def kMinDecimalExponent_def kMaxDecimalExponent_def
      kDecimalExponentDistance_def kCachedPowersOffset_def check_def cdiv_def kCachedPowers_def vget_def)
  have "w * 2 ^ k < 2 ^ 64" "2 ^ 63 \<le> w * 2 ^ k" using d unat_less_64 [of "diy_f d"] by (simp_all add: normalized_def)
  have "k = 2"
  proof (rule ccontr)
    assume "k \<noteq> 2"
    then consider "k \<le> 1" | "3 \<le> k" by linarith
    then show False
    proof cases
      case 1
      then have "(2 :: nat) ^ k \<le> 2 ^ 1" by (intro power_increasing) simp_all
      then have "w * 2 ^ k \<le> 2470328229206232724 * 2 ^ 1" using w by (intro mult_le_mono) simp_all
      with \<open>2 ^ 63 \<le> w * 2 ^ k\<close> show False by simp
    next
      case 2
      then have "(2 :: nat) ^ 3 \<le> 2 ^ k" by (intro power_increasing) simp_all
      then have "2470328229206232721 * 2 ^ 3 \<le> w * 2 ^ k" using w by (intro mult_le_mono) simp_all
      with \<open>w * 2 ^ k < 2 ^ 64\<close> show False by simp
    qed
  qed
  have "(9881312916824930884 * 0xf424000000000000 + 2 ^ 63) div 2 ^ 64 \<le> unat (diy_f (Multiply d p))"
    unfolding Multiply_f d(1) \<open>k = 2\<close> p mk_diy_def
    by (intro div_le_mono add_le_mono mult_le_mono) (use w in simp_all)
  then have f: "9423554341149264225 \<le> unat (diy_f (Multiply d p))" by simp
  have "(9423554341149264225 * 0xfa8fd5a0081c0288 + 2 ^ 63) div 2 ^ 64 \<le> unat (diy_f r)"
    unfolding r_def Multiply_f [of "Multiply d p"] c mk_diy_def
    by (intro div_le_mono add_le_mono mult_le_mono) (use f in simp_all)
  then have "2 ^ 63 \<le> unat (diy_f r)" by simp
  moreover have "diy_e r = -1138" unfolding r_def Multiply_e d(2) p c \<open>k = 2\<close> by (simp add: mk_diy_def)
  ultimately show ?thesis by simp
qed

end
