(* ===== verification/Strtod_Correct.thy ===== *)
theory Strtod_Correct
  imports Strtod_Diy
begin

text \<open>
  \<open>Strtod\<close> returns the double that is nearest to the decimal number, for every string of digits and every exponent.
\<close>

section \<open>The error of DiyFpStrtod\<close>

lemma adjust_step:
  assumes d: "normalized d" and x: "\<bar>x - diy_val d\<bar> \<le> real (unat err) / 8 * 2 powi diy_e d" and err: "unat err \<le> 32"
    and a: "0 \<le> a" "a < 8"
    and short: "a \<noteq> 0 \<Longrightarrow> a \<le> 19 - int len \<Longrightarrow> err = 0 \<and> x = diy_val d \<and> (\<exists>w k. w < 10 ^ len \<and> unat (diy_f d) = w * 2 ^ k)"
  defines "step \<equiv> (if a \<noteq> 0 then do {
            adjustment_power \<leftarrow> AdjustmentPowerOfTen a;
            let input = Multiply d adjustment_power;
            Some (input, if kMaxUint64DecimalDigits - int len \<ge> a then err else err + push_bit 3 (1 :: uint64) div 2)
          } else Some (d, err))"
  shows "returns step (\<lambda>(r, err'). \<bar>x * 10 powi a - diy_val r\<bar> \<le> real (unat err') / 8 * 2 powi diy_e r \<and>
    2 ^ 62 \<le> unat (diy_f r) \<and> unat err' \<le> 36 \<and> (a \<noteq> 0 \<longrightarrow> (\<exists>p. AdjustmentPowerOfTen a = Some p \<and> r = Multiply d p)))"
proof (cases "a = 0")
  case True
  then show ?thesis using d x err by (simp add: step_def normalized_def)
next
  case False
  with a have a': "0 < a" by simp
  show ?thesis
    unfolding step_def using False
  proof (simp only: if_True not_False_eq_True, intro returns_bindI [OF returns_conj [OF AdjustmentPowerOfTen_correct [OF a' a(2)]
        returns_mono [where P = "\<lambda>_. True" and Q = "\<lambda>p. AdjustmentPowerOfTen a = Some p"]]], goal_cases)
    case 1
    show ?case using AdjustmentPowerOfTen_correct [OF a' a(2)] by (rule returns_mono) simp
  next
    case (3 p)
    then obtain j where j: "j \<le> 64" "unat (diy_f p) = 10 ^ nat a * 2 ^ j" "diy_e p = - int j" "normalized p"
      "(10 :: nat) ^ (19 - nat a) \<le> 2 ^ j" and p: "AdjustmentPowerOfTen a = Some p" by auto
    have pv: "diy_val p = 10 powi a" unfolding diy_val_def j(2,3) power_int_minus power_int_of_nat using a(1)
      by (simp add: power_int_def)
    let ?r = "Multiply d p"
    have "(2 ^ 63 * 2 ^ 63 + 2 ^ 63) div 2 ^ 64 \<le> unat (diy_f ?r)"
      unfolding Multiply_f using d j(4) unfolding normalized_def by (intro div_le_mono add_le_mono mult_le_mono) simp_all
    then have big: "2 ^ 62 \<le> unat (diy_f ?r)" by simp
    show ?case
    proof (cases "a \<le> 19 - int len")
      case True
      from short [OF False this] obtain w k where w: "w < 10 ^ len" "unat (diy_f d) = w * 2 ^ k" and e0: "err = 0" "x = diy_val d" by auto
      have "(10 :: nat) ^ len \<le> 10 ^ (19 - nat a)" using True a by (intro power_increasing) auto
      with w j have "w < 2 ^ j" by linarith
      have "(2 :: nat) ^ 63 \<le> w * 2 ^ k" using d w(2) by (simp add: normalized_def)
      also have "\<dots> < 2 ^ (j + k)" using \<open>w < 2 ^ j\<close> by (simp add: power_add)
      finally have "64 \<le> j + k" using power_less_imp_less_exp [of "2 :: nat" 63 "j + k"] by simp
      then have "(2 :: nat) ^ 64 dvd 2 ^ (k + j)" by (intro le_imp_power_dvd) simp
      then have "2 ^ 64 dvd unat (diy_f d) * unat (diy_f p)" unfolding w j(2) power_add by (metis dvd_mult dvd_mult2 mult.assoc mult.commute)
      from Multiply_exact [OF this] have "x * 10 powi a = diy_val ?r" by (simp add: e0 pv)
      then show ?thesis using big True e0 p by (simp add: kMaxUint64DecimalDigits_def)
    next
      case l: False
      have e4: "unat (err + push_bit 3 1 div 2) = unat err + 4" using err by (subst unat_add_small) simp_all
      have "\<bar>x * 10 powi a - diy_val ?r\<bar> \<le> (real (unat err) / 8 + 1 / 2) * 2 powi diy_e ?r + diy_val d * 0 * 2 powi diy_e p"
        by (rule Multiply_with_error [OF x]) (simp_all add: pv)
      then have "\<bar>x * 10 powi a - diy_val ?r\<bar> \<le> real (unat (err + push_bit 3 1 div 2)) / 8 * 2 powi diy_e ?r"
        unfolding e4 by (simp add: add_divide_distrib)
      then show ?thesis using big l p e4 err by (simp add: kMaxUint64DecimalDigits_def)
    qed
  qed simp
qed

lemma cached_step:
  assumes d: "2 ^ 62 \<le> unat (diy_f d)" and x: "\<bar>x - diy_val d\<bar> \<le> real (unat err) / 8 * 2 powi diy_e d" and err: "unat err \<le> 36"
    and c: "normalized c" "\<bar>diy_val c - y\<bar> \<le> 2 powi (diy_e c - 1)" and y: "0 \<le> y"
  defines "r \<equiv> Multiply d c"
    and "err' \<equiv> err + (push_bit 3 (1 :: uint64) div 2 + (if err = 0 then 0 else 1) + push_bit 3 (1 :: uint64) div 2)"
  shows "\<bar>x * y - diy_val r\<bar> < real (unat err') / 8 * 2 powi diy_e r" "2 ^ 61 \<le> unat (diy_f r)" "unat err' \<le> 45"
proof -
  have u: "unat err' = unat err + (if err = 0 then 8 else 9)"
    unfolding err'_def using err by (auto simp: unat_add_small)
  then show "unat err' \<le> 45" using err by simp
  have "(2 ^ 62 * 2 ^ 63 + 2 ^ 63) div 2 ^ 64 \<le> unat (diy_f r)"
    unfolding r_def Multiply_f using d c(1) unfolding normalized_def by (intro div_le_mono add_le_mono mult_le_mono) simp_all
  then show "2 ^ 61 \<le> unat (diy_f r)" by simp
  have "real (unat (diy_f d)) < 2 ^ 64" using unat_less_64 [of "diy_f d"] by simp
  then have "diy_val d * (1 / 2) * 2 powi diy_e c < 2 ^ 64 * 2 powi diy_e d * (1 / 2) * 2 powi diy_e c"
    unfolding diy_val_def by (intro mult_strict_right_mono) simp_all
  also have "\<dots> = 1 / 2 * 2 powi diy_e r" by (simp add: r_def Multiply_e power_int_add)
  finally have small: "diy_val d * (1 / 2) * 2 powi diy_e c < 1 / 2 * 2 powi diy_e r" .
  have "\<bar>y - diy_val c\<bar> \<le> 1 / 2 * 2 powi diy_e c" using c(2) by (simp add: power_int_diff abs_minus_commute)
  from Multiply_with_error [OF x this y] small
  have "\<bar>x * y - diy_val r\<bar> < (real (unat err) / 8 + 1 / 2) * 2 powi diy_e r + 1 / 2 * 2 powi diy_e r"
    unfolding r_def by simp
  also have "\<dots> = (real (unat err) + 8) / 8 * 2 powi diy_e r" by (simp add: algebra_simps add_divide_distrib)
  also have "\<dots> \<le> real (unat err') / 8 * 2 powi diy_e r" unfolding u by (intro mult_right_mono divide_right_mono) auto
  finally show "\<bar>x * y - diy_val r\<bar> < real (unat err') / 8 * 2 powi diy_e r" .
qed

text \<open>The last normalization moves the error along with the significand.\<close>

lemma final_round:
  assumes x: "\<bar>x - diy_val d\<bar> < real (unat err) / 8 * 2 powi diy_e d" and d: "2 ^ 61 \<le> unat (diy_f d)" and err: "unat err \<le> 45"
    and edge: "2 powi (-1075) < x \<Longrightarrow> x < 2 powi (-1075) + 45 / 2 * 2 powi (-1139) \<Longrightarrow>
      diy_e d = -1138 \<and> 2 ^ 63 \<le> unat (diy_f d)"
  shows "returns (Option.bind (normalize_with_error d err) (\<lambda>(input, error). round_diy input error)) (\<lambda>(c, g). guess_ok x c g)"
proof (rule returns_bindI [OF normalize_with_error_correct], goal_cases)
  case 1
  show ?case using d by (auto simp: unat_gt_0)
next
  case (2 st)
  then obtain r k where st: "st = (r, push_bit k err)" and r: "normalized r" "unat (diy_f r) = unat (diy_f d) * 2 ^ k"
    "diy_e r = diy_e d - int k" "diy_val r = diy_val d" by (cases st) auto
  have lt: "unat (diy_f d) * 2 ^ k < 2 ^ 64" using unat_less_64 [of "diy_f r"] r(2) by simp
  have "(2 :: nat) ^ 61 * 2 ^ k < 2 ^ 64" using lt d by (meson le_less_trans mult_le_mono1)
  then have "(2 :: nat) ^ (61 + k) < 2 ^ 64" by (simp only: power_add)
  then have "61 + k < 64" by (rule power_less_imp_less_exp [rotated]) simp
  then have k: "k \<le> 2" by simp
  have "(2 :: nat) ^ k \<le> 2 ^ 2" using k by (intro power_increasing) simp_all
  then have e180: "unat err * 2 ^ k \<le> 45 * 4" using err by (intro mult_le_mono) simp_all
  then have u: "unat (push_bit k err) = unat err * 2 ^ k" by (intro unat_push_bit_small) simp
  have x': "\<bar>x - diy_val r\<bar> < real (unat (push_bit k err)) / 8 * 2 powi diy_e r"
    using x unfolding u r(3,4) by (simp add: power_int_diff)
  show ?case
    unfolding st prod.case
  proof (rule round_diy_correct [OF r(1) _ x'], goal_cases)
    case 1
    show ?case using e180 u by simp
  next
    case 2
    show ?case
    proof (rule ccontr)
      assume "\<not> x \<le> 2 powi (-1075)"
      then have lo: "2 powi (-1075) < x" by simp
      have P: "(2 :: real) powi diy_e r \<le> 2 powi (-1139)" using 2 by (intro power_int_increasing) simp_all
      have "diy_val r \<le> 2 ^ 64 * 2 powi diy_e r"
        unfolding diy_val_def using unat_less_64 [of "diy_f r"] by (intro mult_right_mono) simp_all
      also have "\<dots> \<le> 2 ^ 64 * 2 powi (-1139)" using P by (intro mult_left_mono) simp_all
      also have "\<dots> = (2 :: real) powi (-1075)" by (simp add: power_int_minus)
      finally have v: "diy_val r \<le> 2 powi (-1075)" .
      have "real (unat (push_bit k err)) / 8 * 2 powi diy_e r \<le> 45 / 2 * 2 powi (-1139)"
      proof (intro mult_mono P)
        have "unat (push_bit k err) \<le> 180" using e180 u by simp
        then show "real (unat (push_bit k err)) / 8 \<le> 45 / 2" by simp
      qed simp_all
      then have hi: "x < 2 powi (-1075) + 45 / 2 * 2 powi (-1139)" using v x' by linarith
      from edge [OF lo hi] have e: "diy_e d = -1138" "2 ^ 63 \<le> unat (diy_f d)" by simp_all
      have "(2 :: nat) ^ 63 * 2 ^ k < 2 ^ 64" using lt e by (meson le_less_trans mult_le_mono1)
      then have "(2 :: nat) ^ (63 + k) < 2 ^ 64" by (simp only: power_add)
      then have "63 + k < 64" by (rule power_less_imp_less_exp [rotated]) simp
      then show False using 2 e(1) r(3) by simp
    qed
  qed
qed

lemma returns_bind_eqI: "returns m P \<Longrightarrow> (\<And>x. m = Some x \<Longrightarrow> P x \<Longrightarrow> returns (f x) Q) \<Longrightarrow> returns (Option.bind m f) Q"
  by (auto simp: returns_bind elim!: returns_mono)

lemma first_normalization:
  assumes d: "diy_e d = 0" and r: "read_value s w rem" and w: "w = unat (diy_f d)"
  shows "returns (normalize_with_error d (if rem = 0 then 0 else push_bit 3 (1 :: uint64) div 2)) (\<lambda>(r, err). normalized r \<and>
    \<bar>real (text_digits s) * 10 powi (- rem) - diy_val r\<bar> \<le> real (unat err) / 8 * 2 powi diy_e r \<and> unat err \<le> 32 \<and>
    (rem = 0 \<longrightarrow> err = 0) \<and> diy_val r = real w \<and> (\<exists>k. unat (diy_f r) = w * 2 ^ k \<and> diy_e r = - int k))"
proof (rule returns_mono [OF normalize_with_error_correct], goal_cases)
  case 1
  show ?case using r w by (auto simp: read_value_def)
next
  case (2 st)
  let ?err = "if rem = 0 then 0 else push_bit 3 (1 :: uint64) div 2"
  from 2 obtain r' k where st: "st = (r', push_bit k ?err)" and r': "normalized r'" "unat (diy_f r') = w * 2 ^ k"
    "diy_e r' = - int k" "diy_val r' = diy_val d" using d w by (cases st) auto
  have v: "diy_val r' = real w" using r'(4) d w by (simp add: diy_val_def)
  have near: "\<bar>real (text_digits s) * 10 powi (- rem) - real w\<bar> \<le> (if rem = 0 then 0 else 1 / 2)" by (rule read_value_near [OF r])
  have "\<bar>real (text_digits s) * 10 powi (- rem) - diy_val r'\<bar> \<le> real (unat (push_bit k ?err)) / 8 * 2 powi diy_e r' \<and>
    unat (push_bit k ?err) \<le> 32"
  proof (cases "rem = 0")
    case True
    then show ?thesis using near v by simp
  next
    case False
    then have "1844674407370955161 \<le> w" using r by (simp add: read_value_def)
    then have "(2 :: nat) ^ 60 * 2 ^ k \<le> w * 2 ^ k" by (intro mult_le_mono1) simp
    also have "\<dots> < 2 ^ 64" using r'(2) unat_less_64 [of "diy_f r'"] by simp
    finally have "(2 :: nat) ^ (60 + k) < 2 ^ 64" by (simp only: power_add)
    then have "60 + k < 64" by (rule power_less_imp_less_exp [rotated]) simp
    then have "(2 :: nat) ^ k \<le> 2 ^ 3" by (intro power_increasing) simp_all
    then have k: "4 * (2 :: nat) ^ k \<le> 32" by simp
    then have u: "unat (push_bit k ?err) = 4 * 2 ^ k" using False by (subst unat_push_bit_small) simp_all
    have "real (unat (push_bit k ?err)) / 8 * 2 powi diy_e r' = 1 / 2" unfolding u r'(3) by (simp add: power_int_minus)
    with near v False have "\<bar>real (text_digits s) * 10 powi (- rem) - diy_val r'\<bar> \<le> real (unat (push_bit k ?err)) / 8 * 2 powi diy_e r'"
      by (simp only: if_False)
    then show ?thesis unfolding u using k by blast
  qed
  then show ?case using st r' v by auto
qed

lemma diy_multiplications:
  assumes r: "read_value s w rem" and x0: "x0 = real (text_digits s) * 10 powi (- rem)" and len: "list_all is_decimal s"
    and d: "normalized d" "unat (diy_f d) = w * 2 ^ k" "diy_e d = - int k" "diy_val d = real w"
    and x: "\<bar>x0 - diy_val d\<bar> \<le> real (unat err) / 8 * 2 powi diy_e d" and err: "unat err \<le> 32" "rem = 0 \<Longrightarrow> err = 0"
    and n: "-348 \<le> n" "n < 348"
  shows "returns (do {
       (cached_power, cached_decimal_exponent) \<leftarrow> GetCachedPowerForDecimalExponent n;
       (input, error) \<leftarrow>
         (if cached_decimal_exponent \<noteq> n then do {
            adjustment_power \<leftarrow> AdjustmentPowerOfTen (n - cached_decimal_exponent);
            Some (Multiply d adjustment_power,
              if kMaxUint64DecimalDigits - int (length s) \<ge> n - cached_decimal_exponent then err else err + push_bit 3 1 div 2)
          } else Some (d, err));
       (input, error) \<leftarrow> normalize_with_error (Multiply input cached_power)
         (error + (push_bit 3 1 div 2 + (if error = 0 then 0 else 1) + push_bit 3 1 div 2));
       round_diy input error
     }) (\<lambda>(c, g). guess_ok (x0 * 10 powi n) c g)"
proof (rule returns_bind_eqI [OF GetCachedPowerForDecimalExponent_correct [OF n]], clarify, goal_cases)
  case (1 c found)
  define a where "a = n - found"
  have a: "0 \<le> a" "a < 8" "found \<noteq> n \<longleftrightarrow> a \<noteq> 0" using 1 by (auto simp: a_def)
  have short: "err = 0 \<and> x0 = diy_val d \<and> (\<exists>w k. w < 10 ^ length s \<and> unat (diy_f d) = w * 2 ^ k)"
    if "a \<noteq> 0" "a \<le> 19 - int (length s)"
  proof -
    have "length s < 19" using that a by simp
    with r have rem: "rem = 0" "w = text_digits s" by (auto simp: read_value_def split: if_splits)
    with text_digits_less [OF len] d x0 err show ?thesis by auto
  qed
  show ?case
    unfolding a_def [symmetric] a(3)
  proof (rule returns_bindI [OF adjust_step [OF d(1) x err(1) a(1,2) short, unfolded Let_def]], goal_cases)
    case (3 st)
    obtain d2 err2 where st: "st = (d2, err2)" by (cases st)
    note 3 = 3 [unfolded st prod.case, THEN conjunct1] 3 [unfolded st prod.case, THEN conjunct2, THEN conjunct1]
      3 [unfolded st prod.case, THEN conjunct2, THEN conjunct2]
    have xy: "x0 * 10 powi n = x0 * 10 powi a * 10 powi found"
      by (simp add: a_def mult.assoc power_int_add [symmetric])
    have y: "(0 :: real) \<le> 10 powi found" by simp
    note step = cached_step [OF 3(2,1) conjunct1 [OF 3(3)] 1(2,5) y]
    show ?case
      unfolding xy st prod.case
    proof (rule final_round [OF step(1,2,3)], goal_cases)
      case edge: 1
      have "x0 * 10 powi a * 10 powi found = real (text_digits s) * 10 powi (- rem) * 10 powi n"
        by (rule trans [OF xy [symmetric]]) (simp only: x0)
      from half_denormal_window [OF r this edge]
      have w: "n = -342" "2470328229206232721 \<le> w" "w \<le> 2470328229206232724" by simp_all
      from 1(1) w(1) have "found = -348" by (simp add: GetCachedPowerForDecimalExponent_def kMinDecimalExponent_def kMaxDecimalExponent_def
        kDecimalExponentDistance_def kCachedPowersOffset_def check_def cdiv_def kCachedPowers_def vget_def)
      with w(1) have "a = 6" by (simp add: a_def)
      with 3 obtain p where p: "AdjustmentPowerOfTen 6 = Some p" "d2 = Multiply d p" by auto
      show ?case unfolding p(2) using half_denormal_product [OF d(2,3,1) w(2,3) p(1)] 1(1) w(1) by blast
    qed
  qed simp_all
qed

lemma DiyFpStrtod_correct:
  assumes s: "list_all is_decimal s" "s \<noteq> []" "hd s \<noteq> CHR ''0''" and e: "int (length s) + e \<le> 309"
  shows "returns (DiyFpStrtod s e) (\<lambda>(c, g). guess_ok (real (text_digits s) * 10 powi e) c g)"
  unfolding DiyFpStrtod_def Let_def
proof (rule returns_bindI [OF ReadDiyFp_correct [OF s]], clarify, goal_cases)
  case (1 d rem)
  note r = 1(2)
  define x0 n where "x0 = real (text_digits s) * 10 powi (- rem)" and "n = e + rem"
  have x: "real (text_digits s) * 10 powi e = x0 * 10 powi n"
    by (simp add: x0_def n_def mult.assoc power_int_add [symmetric])
  have n: "n \<le> 308" using r e by (auto simp: n_def read_value_def)
  have x0: "0 \<le> x0" "x0 \<le> 2 ^ 65"
  proof -
    have "real (unat (diy_f d)) \<le> 2 ^ 64" using unat_less_64 [of "diy_f d"] by simp
    then show "x0 \<le> 2 ^ 65" using read_value_near [OF r] by (auto simp: x0_def abs_le_iff split: if_splits)
  qed (simp add: x0_def)
  show ?case
    unfolding n_def [symmetric] x
  proof (rule returns_bindI [OF first_normalization [OF 1 refl]], unfold x0_def [symmetric], clarify, rule returns_checkI, goal_cases)
    case 1
    show ?case using n by (simp add: kMaxDecimalExponent_def)
  next
    case (2 d1 err1 k)
    show ?case
    proof (cases "n < -348")
      case True
      have "x0 * 10 powi n \<le> 2 ^ 65 * 10 powi (-349)"
        using x0 True by (intro mult_mono power_int_increasing) simp_all
      also have "\<dots> \<le> 2 powi (-1075)" by (simp add: power_int_minus field_simps)
      finally have "D_nearest (x0 * 10 powi n) 0"
        by (simp add: nearest_def midpoint_def rank_val_def rank_sig_def rank_exp_def power_int_diff)
      then show ?thesis using True by (simp add: kMinDecimalExponent_def guess_ok_def)
    next
      case False
      then have "-348 \<le> n" "n < 348" using n by simp_all
      from diy_multiplications [OF r x0_def s(1) 2(1,6,7,5) 2(2,3) _ this] 2(4) False show ?thesis
        by (simp add: kMinDecimalExponent_def)
    qed
  qed
qed

end
