(* ===== verification/Strtod_Properties.thy ===== *)
theory Strtod_Properties
  imports Strtod_Correct
begin

text \<open>
  \<open>Strtod\<close> as a whole: the digits that are cut off cannot change the nearest double, the guess is the nearest double or
  its lower neighbour, and the exact comparison with the boundary between the two decides.
\<close>

section \<open>Cutting digits\<close>

lemma midpoint_odd: "midpoint p emin n = real (2 * rank_sig p n + 1) * 2 powi (rank_exp p emin n - 1)"
  unfolding midpoint_eq rank_val_def by (simp add: power_int_diff field_simps)

lemma rank_sig_less: "rank_sig p n < 2 * 2 ^ p"
  using mod_less_divisor [of "2 ^ p" n] by (simp add: rank_sig_def)

lemma rank_exp_ge: "emin \<le> rank_exp p emin n"
  by (auto simp: rank_exp_def div_greater_zero_iff Suc_leI)

lemma ten_771: "2 ^ 53 * 5 ^ 1074 \<le> (10 :: real) ^ 771"
proof -
  have "(5 :: real) ^ 303 \<le> 5 ^ (3 * 101)" by (intro power_increasing) simp_all
  also have "\<dots> = (5 ^ 3) ^ 101" by (rule power_mult)
  also have "\<dots> \<le> (2 ^ 7) ^ 101" by (intro power_mono) simp_all
  also have "\<dots> = 2 ^ (7 * 101)" by (rule power_mult [symmetric])
  also have "\<dots> \<le> 2 ^ 718" by (intro power_increasing) simp_all
  finally have le: "2 ^ 53 * 5 ^ 771 * (5 :: real) ^ 303 \<le> 2 ^ 53 * 5 ^ 771 * 2 ^ 718"
    by (rule mult_left_mono) (intro mult_nonneg_nonneg zero_le_power zero_le_numeral)
  have pw: "(2 :: real) ^ 53 * 2 ^ 718 = 2 ^ 771" "(5 :: real) ^ 771 * 5 ^ 303 = 5 ^ 1074"
    unfolding power_add [symmetric] by (simp_all only: numeral_plus_numeral add_num_simps)
  have ten: "(10 :: real) ^ 771 = 2 ^ 771 * 5 ^ 771"
    unfolding power_mult_distrib [symmetric] by (simp only: numeral_times_numeral mult_num_simps add_num_simps)
  have "(2 :: real) ^ 53 * 5 ^ 1074 = 2 ^ 53 * 5 ^ 771 * 5 ^ 303" unfolding pw(2) [symmetric] by (rule mult.assoc [symmetric])
  also note le
  also have "(2 :: real) ^ 53 * 5 ^ 771 * 2 ^ 718 = 2 ^ 53 * 2 ^ 718 * 5 ^ 771" by (simp only: mult_ac)
  also have "\<dots> = 10 ^ 771" unfolding pw(1) ten ..
  finally show ?thesis .
qed

text \<open>
  Between two neighbouring multiples of \<open>10 powi k\<close>, both of 772 digits, there is no binary number of a format whose boundaries
  are not finer than those of doubles.
\<close>

lemma no_dyadic_between:
  assumes A: "10 ^ 771 \<le> A" and m0: "m \<le> 2 ^ 54" and q: "-1075 \<le> q" and q2: "q \<le> 970"
  shows "real m * 2 powi q \<le> real A * 10 powi k \<or> real (A + 1) * 10 powi k \<le> real m * 2 powi q"
proof -
  have m: "real m \<le> 2 ^ 54" using m0 by simp
  have "real (10 ^ 771) \<le> real A" using A by (simp only: of_nat_le_iff)
  then have rA: "10 ^ 771 \<le> real A" by (simp only: of_nat_power of_nat_numeral)
  consider (high) "0 \<le> k" | (fits) "k < 0" "k \<le> q" | (coarse) "k < 0" "q < k" by linarith
  then show ?thesis
  proof cases
    case high
    have "real m * 2 powi q \<le> 2 ^ 54 * 2 powi 970" using m q2 by (intro mult_mono power_int_increasing) simp_all
    also have "\<dots> = 2 ^ (54 + 970)" by (simp only: power_int_numeral power_add)
    also have "\<dots> \<le> 2 ^ (4 * 256)" by (rule power_increasing) simp_all
    also have "\<dots> = (2 ^ 4) ^ 256" by (rule power_mult)
    also have "\<dots> \<le> (10 ^ 2) ^ 256" by (intro power_mono) simp_all
    also have "\<dots> = 10 ^ (2 * 256)" by (rule power_mult [symmetric])
    also have "\<dots> \<le> (10 :: real) ^ 771" by (rule power_increasing) simp_all
    also have "\<dots> = 10 ^ 771 * 10 powi 0" by (simp only: power_int_0_right mult_1_right)
    also have "\<dots> \<le> real A * 10 powi k" using high rA
      by (intro mult_mono power_int_increasing) (simp_all only: of_nat_0_le_iff zero_le_power_int zero_le_numeral one_le_numeral)
    finally show ?thesis ..
  next
    case fits
    define j i where "j = nat (q - k)" and "i = nat (- k)"
    have k: "k = - int i" and jk: "q = int j + k" using fits by (simp_all add: j_def i_def)
    have "(2 :: real) powi q = 2 ^ j * 2 powi k" unfolding jk by (simp add: power_int_add)
    also have "(2 :: real) powi k = 5 ^ i * 10 powi k"
    proof -
      have "(10 :: real) powi k = (2 * 5) powi k" by simp
      also have "\<dots> = 2 powi k * 5 powi k" by (rule power_int_mult_distrib)
      finally show ?thesis by (simp add: k power_int_minus)
    qed
    finally have "real m * 2 powi q = real (m * (2 ^ j * 5 ^ i)) * 10 powi k" by simp
    moreover have "real (m * (2 ^ j * 5 ^ i)) \<le> real A \<or> real (A + 1) \<le> real (m * (2 ^ j * 5 ^ i))"
      by (simp only: of_nat_le_iff) linarith
    ultimately show ?thesis by (simp only: mult_le_cancel_right_pos zero_less_power_int zero_less_numeral)
  next
    case coarse
    then have "-1074 \<le> k" using q by simp
    have "real m * 2 powi q \<le> 2 ^ 54 * 2 powi (k - 1)" using m coarse by (intro mult_mono power_int_increasing) simp_all
    also have "\<dots> = 2 ^ 53 * 2 powi k" by (simp add: power_int_diff)
    also have "\<dots> \<le> 10 ^ 771 * 5 powi k * 2 powi k"
    proof (rule mult_right_mono)
      have "(5 :: real) powi (-1074) \<le> 5 powi k" using \<open>-1074 \<le> k\<close> by (intro power_int_increasing) simp_all
      then have "2 ^ 53 * 5 ^ 1074 * (5 :: real) powi (-1074) \<le> 10 ^ 771 * 5 powi k"
        by (intro mult_mono ten_771) (simp_all only: zero_le_power_int zero_le_power zero_le_numeral)
      moreover have "(5 :: real) ^ 1074 * 5 powi (-1074) = 1"
        by (simp only: power_int_minus power_int_numeral right_inverse power_not_zero zero_neq_numeral not_False_eq_True)
      ultimately show "(2 :: real) ^ 53 \<le> 10 ^ 771 * 5 powi k" by (simp only: mult.assoc mult.right_neutral)
    qed simp
    also have "\<dots> = 10 ^ 771 * (5 * 2) powi k" unfolding power_int_mult_distrib by (simp only: mult.assoc)
    also have "(5 * 2 :: real) = 10" by simp
    also have "10 ^ 771 * 10 powi k \<le> real A * 10 powi k" using rA by (rule mult_right_mono) (rule zero_le_power_int, simp)
    finally show ?thesis ..
  qed
qed

definition coarse_format :: "nat \<Rightarrow> int \<Rightarrow> nat \<Rightarrow> bool" where
  "coarse_format p emin inf_rank \<longleftrightarrow> p \<le> 52 \<and> -1074 \<le> emin \<and> (\<forall>n < inf_rank. rank_exp p emin n \<le> 971)"

lemma coarse_double: "coarse_format 52 (-1074) D_inf_rank"
proof -
  have "rank_exp 52 (-1074) n \<le> 971" if "n < D_inf_rank" for n
  proof -
    have "n div 2 ^ 52 < 0x7FF" using that by (intro less_mult_imp_div_less)
    then show ?thesis by (auto simp: rank_exp_def)
  qed
  then show ?thesis by (simp add: coarse_format_def)
qed

lemma coarse_single: "coarse_format 23 (-149) S_inf_rank"
proof -
  have "rank_exp 23 (-149) n \<le> 971" if "n < S_inf_rank" for n
  proof -
    have "n div 2 ^ 23 < 0xFF" using that by (intro less_mult_imp_div_less)
    then show ?thesis by (auto simp: rank_exp_def)
  qed
  then show ?thesis by (simp add: coarse_format_def)
qed

lemma no_midpoint_between:
  assumes A: "10 ^ 771 \<le> A" and f: "coarse_format p emin inf_rank" and n: "n < inf_rank"
  shows "midpoint p emin n \<le> real A * 10 powi k \<or> real (A + 1) * 10 powi k \<le> midpoint p emin n"
  unfolding midpoint_odd
proof (rule no_dyadic_between [OF A])
  have "(2 :: nat) ^ p \<le> 2 ^ 52" using f by (intro power_increasing) (simp_all add: coarse_format_def)
  then show "2 * rank_sig p n + 1 \<le> 2 ^ 54" using rank_sig_less [of p n] by simp
  show "-1075 \<le> rank_exp p emin n - 1" using rank_exp_ge [of emin p n] f by (simp add: coarse_format_def)
  show "rank_exp p emin n - 1 \<le> 970" using f n by (simp add: coarse_format_def)
qed

lemma nearest_gap:
  assumes gap: "\<And>n. n < inf_rank \<Longrightarrow> midpoint p emin n \<le> lo \<or> hi \<le> midpoint p emin n"
    and x: "lo < x" "x < hi" and y: "lo < y" "y < hi" and near: "nearest p emin inf_rank x n"
  shows "nearest p emin inf_rank y n"
proof -
  have "midpoint p emin i < x \<longleftrightarrow> midpoint p emin i < y" "x < midpoint p emin i \<longleftrightarrow> y < midpoint p emin i"
    "midpoint p emin i \<noteq> x" "midpoint p emin i \<noteq> y" if "i < inf_rank" for i
    using gap [OF that] x y by auto
  note side = this
  have n: "n \<le> inf_rank" using near by (simp add: nearest_def)
  have "midpoint p emin (n - 1) < y" if "0 < n"
  proof -
    have "n - 1 < inf_rank" using n that by simp
    then show ?thesis using near side [of "n - 1"] that by (auto simp: nearest_def)
  qed
  moreover have "y < midpoint p emin n" if "n < inf_rank"
    using near side [of n] that by (auto simp: nearest_def)
  ultimately show ?thesis using n by (auto simp: nearest_def)
qed

lemma text_digits_ge:
  assumes "s \<noteq> []" "hd s \<noteq> CHR ''0''" "list_all is_decimal s"
  shows "10 ^ (length s - 1) \<le> text_digits s"
proof (cases s)
  case (Cons c t)
  have "0 < text_digits [c]" using assms Cons by (intro text_digits_pos) simp_all
  then have "1 * 10 ^ length t \<le> char_digit c * 10 ^ length t" by (intro mult_le_mono1) simp
  then show ?thesis using Cons by (simp add: trans_le_add1)
qed (use assms in simp)

lemma CutToMaxSignificantDigits_correct:
  assumes "length t > 780" "last t \<noteq> CHR ''0''" "length space = 780" "in_int32 (e + (int (length t) - 780))"
  shows "CutToMaxSignificantDigits t e space = Some (take 779 t @ ''1'', e + (int (length t) - 780))"
proof -
  have "returns (for_up 0 (kMaxSignificantDecimalDigits - 1) (\<lambda>i space. do { c \<leftarrow> vget t i; vset space i c }) space)
    (\<lambda>r. length r = 780 \<and> take 779 r = take 779 t)"
  proof (rule returns_for_up [where I = "\<lambda>i r. length r = 780 \<and> take i r = take i t"], goal_cases)
    case (3 i r)
    then show ?case using assms(1)
      by (auto simp: wp kMaxSignificantDecimalDigits_def take_Suc_conv_app_nth)
  qed (use assms in \<open>simp_all add: kMaxSignificantDecimalDigits_def\<close>)
  then obtain r where r: "for_up 0 (kMaxSignificantDecimalDigits - 1) (\<lambda>i space. do { c \<leftarrow> vget t i; vset space i c }) space = Some r"
    "length r = 780" "take 779 r = take 779 t" by (auto elim: returnsE)
  have "t ! (length t - 1) \<noteq> CHR ''0''" using assms by (simp add: last_conv_nth flip: length_greater_0_conv)
  moreover have "r[779 := CHR ''1''] = take 779 t @ ''1''" using r(2,3) by (simp add: upd_conv_take_nth_drop)
  moreover have "length t - 1 < length t" using assms(1) by simp
  ultimately show ?thesis
    unfolding CutToMaxSignificantDigits_def r(1) using r(2) assms(4)
    by (simp add: vget_def vset_def check_def kMaxSignificantDecimalDigits_def)
qed

lemma text_digits_last:
  assumes "s \<noteq> []" "last s \<noteq> CHR ''0''" "list_all is_decimal s"
  shows "0 < text_digits s"
proof (cases s rule: rev_cases)
  case (snoc u c)
  then have "0 < text_digits [c]" using assms by (intro text_digits_pos) simp_all
  then show ?thesis unfolding snoc text_digits_append by simp
qed (use assms in simp)

text \<open>Digits behind the first \<open>c\<close> ones, not all of them zero, may be replaced by a single one.\<close>

lemma cut_keeps_nearest:
  assumes c: "772 \<le> c" "c < length t" and t: "hd t \<noteq> CHR ''0''" "list_all is_decimal t" and r0: "0 < text_digits (drop c t)"
    and f: "coarse_format p emin inf_rank"
    and near: "nearest p emin inf_rank (real (text_digits (take c t @ ''1'')) * 10 powi (e + (int (length t) - int c) - 1)) n"
  shows "nearest p emin inf_rank (real (text_digits t) * 10 powi e) n"
proof -
  define A r k where "A = text_digits (take c t)" and "r = drop c t" and "k = e + (int (length t) - int c)"
  have tr: "t = take c t @ r" by (simp add: r_def)
  have d: "list_all is_decimal (take c t)" "list_all is_decimal r" using t(2) by (auto simp: r_def list_all_iff dest: in_set_takeD in_set_dropD)
  have len: "length (take c t) = c" "length r = length t - c" using c by (simp_all add: r_def)
  have hd: "hd (take c t) \<noteq> CHR ''0''" "take c t \<noteq> []" using c t(1) by (auto simp: hd_take)
  have "(10 :: nat) ^ 771 \<le> 10 ^ (length (take c t) - 1)" unfolding len using c by (intro power_increasing) simp_all
  then have A: "10 ^ 771 \<le> A" using text_digits_ge [OF hd(2,1) d(1)] unfolding A_def by (rule order_trans)
  have r1: "text_digits r < 10 ^ length r" by (rule text_digits_less [OF d(2)])
  have T: "real (text_digits t) = real A * 10 ^ length r + real (text_digits r)"
    unfolding A_def by (subst tr) (simp only: text_digits_append of_nat_add of_nat_mult of_nat_power of_nat_numeral)
  define R where "R = real (text_digits r) / 10 ^ length r"
  have "real (text_digits r) < 10 ^ length r" using r1 by (metis of_nat_less_iff of_nat_numeral of_nat_power)
  then have R: "0 < R" "R < 1" using r0 by (simp_all add: R_def r_def)
  have ke: "e = k - int (length r)" using len(2) c by (simp add: k_def)
  have y: "real (text_digits t) * 10 powi e = (real A + R) * 10 powi k"
    unfolding T R_def ke by (simp add: power_int_diff field_simps)
  have x: "real (text_digits (take c t @ ''1'')) * 10 powi (e + (int (length t) - int c) - 1) = (real A + 1 / 10) * 10 powi k"
    unfolding text_digits_append A_def [symmetric] k_def [symmetric] by (simp add: power_int_diff char_digit_def field_simps)
  have P: "(0 :: real) < 10 powi k" by simp
  show ?thesis
  proof (rule nearest_gap [OF no_midpoint_between [OF A f, where k = k], where x = "(real A + 1 / 10) * 10 powi k"])
    show "real A * 10 powi k < (real A + 1 / 10) * 10 powi k" "(real A + 1 / 10) * 10 powi k < real (A + 1) * 10 powi k"
      "real A * 10 powi k < real (text_digits t) * 10 powi e" "real (text_digits t) * 10 powi e < real (A + 1) * 10 powi k"
      unfolding y using P R by simp_all
    show "nearest p emin inf_rank ((real A + 1 / 10) * 10 powi k) n" using near unfolding x .
  qed
qed

text \<open>The decimal exponents for which no sum of the conversion leaves the type \<open>int\<close>.\<close>

definition decimal_ok :: "string \<Rightarrow> int \<Rightarrow> bool" where
  "decimal_ok s e \<longleftrightarrow> in_int32 e \<and> in_int32 (e + int (length s))"

lemma TrimAndCut_correct:
  assumes s: "list_all is_decimal s" and e: "decimal_ok s e"
  shows "returns (TrimAndCut s e (replicate kMaxSignificantDecimalDigits (CHR 0x00))) (\<lambda>(t, e'). list_all is_decimal t \<and>
    (t \<noteq> [] \<longrightarrow> hd t \<noteq> CHR ''0'') \<and> length t \<le> 780 \<and> decimal_ok t e' \<and>
    (\<forall>p emin inf_rank n. coarse_format p emin inf_rank \<longrightarrow> nearest p emin inf_rank (real (text_digits t) * 10 powi e') n \<longrightarrow>
      nearest p emin inf_rank (real (text_digits s) * 10 powi e) n))"
  unfolding TrimAndCut_def
proof (rule returns_bindI [OF TrimLeadingZeros_correct], rule returns_bindI [OF TrimTrailingZeros_correct], goal_cases)
  case (1 l t)
  then obtain a b where a: "s = replicate a CHR ''0'' @ l" "l = [] \<or> hd l \<noteq> CHR ''0''"
    and b: "l = t @ replicate b CHR ''0''" "t = [] \<or> last t \<noteq> CHR ''0''" by auto
  have td: "list_all is_decimal t" using s a b by auto
  have hd: "hd t \<noteq> CHR ''0''" if "t \<noteq> []" using that a(2) b(1) by auto
  define e1 where "e1 = e + (int (length l) - int (length t))"
  have e1: "e1 = e + int b" by (simp add: e1_def b(1))
  have len: "length t + b \<le> length s" using a(1) b(1) by simp
  have ends: "in_int32 e" "in_int32 (e + int (length s))" using e by (simp_all add: decimal_ok_def)
  have fits: "in_int32 e1" "in_int32 (e1 + int (length t))"
    using len unfolding e1 by (intro in_int32_between [OF ends], linarith, linarith)+
  have v: "real (text_digits s) * 10 powi e = real (text_digits t) * 10 powi e1"
    unfolding a(1) b(1) e1 by (simp add: text_digits_strip power_int_add)
  show ?case
  proof (cases "length t > 780")
    case True
    let ?t = "take 779 t @ ''1''"
    have "t \<noteq> []" using True by auto
    then have ends: "hd t \<noteq> CHR ''0''" "last t \<noteq> CHR ''0''" using hd b(2) by auto
    have fit: "in_int32 (e1 + (int (length t) - 780))" by (rule in_int32_between [OF fits]) (use True in linarith)+
    note cut = CutToMaxSignificantDigits_correct [OF True ends(2) _ fit, of "replicate 780 (CHR 0x00)"]
    have "decimal_ok ?t (e1 + (int (length t) - 780))" using fit fits(2) True by (simp add: decimal_ok_def)
    moreover have "list_all is_decimal ?t" using td by (auto simp: list_all_iff is_decimal_def dest: in_set_takeD)
    moreover have "hd ?t \<noteq> CHR ''0''" using ends(1) \<open>t \<noteq> []\<close> by (simp add: hd_append hd_take)
    moreover have "length ?t = 780" using True by simp
    ultimately have parts: "list_all is_decimal ?t" "hd ?t \<noteq> CHR ''0''" "length ?t = 780"
      "decimal_ok ?t (e1 + (int (length t) - 780))" by blast+
    have r0: "0 < text_digits (drop 779 t)"
      using True ends(2) td by (intro text_digits_last) (auto simp: last_drop list_all_iff dest: in_set_dropD)
    have e2: "e1 + (int (length t) - int 779) - 1 = e1 + (int (length t) - 780)" by simp
    have "nearest p emin inf_rank (real (text_digits t) * 10 powi e1) n"
      if "coarse_format p emin inf_rank" "nearest p emin inf_rank (real (text_digits ?t) * 10 powi (e1 + (int (length t) - 780))) n" for p emin inf_rank n
      using cut_keeps_nearest [of 779 t _ _ _ e1, unfolded e2, OF _ _ ends(1) td r0 that] True by simp
    with parts show ?thesis using True unfolding v
      using fits by (simp add: wp kMaxSignificantDecimalDigits_def e1_def [symmetric] cut)
  next
    case False
    moreover have "decimal_ok t e1" using fits by (simp add: decimal_ok_def)
    ultimately show ?thesis using td hd fits unfolding v by (simp add: wp kMaxSignificantDecimalDigits_def e1_def [symmetric])
  qed
qed

section \<open>The guess\<close>

lemma nearest_zero: "x \<le> 2 powi (-1075) \<Longrightarrow> D_nearest x 0"
  by (simp add: nearest_def midpoint_def rank_val_def rank_sig_def rank_exp_def power_int_diff)

lemma nearest_infinity: "10 powi 309 \<le> x \<Longrightarrow> D_nearest x D_inf_rank"
proof -
  assume x: "10 powi 309 \<le> x"
  have "midpoint 52 (-1074) (D_inf_rank - 1) < rank_val 52 (-1074) (Suc (D_inf_rank - 1))" by (rule midpoint_between)
  also have "Suc (D_inf_rank - 1) = D_inf_rank" by simp
  also have "rank_val 52 (-1074) D_inf_rank = 2 ^ 52 * 2 powi 972" by (simp add: rank_val_def rank_sig_def rank_exp_def)
  also have "\<dots> = 2 ^ 1024" by (simp only: power_int_numeral power_add [symmetric]) simp
  also have "\<dots> \<le> (10 :: real) ^ 309" by simp
  also have "\<dots> \<le> x" using x by (simp only: power_int_numeral)
  finally show ?thesis by (simp add: nearest_def)
qed

definition value_of :: "string \<Rightarrow> int \<Rightarrow> real" where
  "value_of s e = real (text_digits s) * 10 powi e"

lemma value_of_bounds:
  assumes s: "s \<noteq> []" "hd s \<noteq> CHR ''0''" "list_all is_decimal s"
  shows "10 powi (int (length s) - 1 + e) \<le> value_of s e" "value_of s e \<le> 10 powi (int (length s) + e)"
proof -
  have len: "int (length s) - 1 = int (length s - 1)" using s(1) by (cases s) simp_all
  have "real (10 ^ (length s - 1)) \<le> real (text_digits s)" "real (text_digits s) \<le> real (10 ^ length s)"
    using text_digits_ge [OF s] text_digits_less [OF s(3)] by (simp_all only: of_nat_le_iff less_imp_le)
  then show "10 powi (int (length s) - 1 + e) \<le> value_of s e" "value_of s e \<le> 10 powi (int (length s) + e)"
    unfolding value_of_def len by (simp_all add: power_int_add mult_right_mono)
qed

lemma ComputeGuess_correct:
  assumes t: "list_all is_decimal t" "t \<noteq> [] \<Longrightarrow> hd t \<noteq> CHR ''0''" and int: "decimal_ok t e"
  shows "returns (ComputeGuess t e) (\<lambda>(c, g). guess_ok (value_of t e) c g \<and>
    (\<not> c \<longrightarrow> int (length t) + e \<le> 309 \<and> -324 < int (length t) + e \<and> unat g < D_inf_rank))"
proof -
  have inf: "unat D_kInfinity = D_inf_rank" by (simp add: D_kInfinity_def)
  have sums: "as_int32 (e + int (length t)) = Some (e + int (length t))" using int by (simp add: decimal_ok_def)
  have sums1: "as_int32 (e + int (length t) - 1) = Some (e + int (length t) - 1)" if "t \<noteq> []"
  proof -
    have "1 \<le> int (length t)" using that by (cases t) simp_all
    then have "e \<le> e + int (length t) - 1" "e + int (length t) - 1 \<le> e + int (length t)" by linarith+
    with int have "in_int32 (e + int (length t) - 1)" unfolding decimal_ok_def by (blast intro: in_int32_between)
    then show ?thesis by simp
  qed
  consider (empty) "t = []" | (large) "t \<noteq> []" "309 \<le> e + int (length t) - 1" | (small) "t \<noteq> []" "e + int (length t) \<le> -324"
    | (middle) "t \<noteq> []" "e + int (length t) - 1 < 309" "-324 < e + int (length t)" by linarith
  then show ?thesis
  proof cases
    case empty
    then show ?thesis using nearest_zero [of 0] by (simp add: ComputeGuess_def guess_ok_def value_of_def)
  next
    case large
    have "(10 :: real) powi 309 \<le> 10 powi (int (length t) - 1 + e)" using large by (intro power_int_increasing) simp_all
    also have "\<dots> \<le> value_of t e" using large t by (intro value_of_bounds) simp_all
    finally have "D_nearest (value_of t e) D_inf_rank" by (rule nearest_infinity)
    then show ?thesis using large sums1 by (simp add: ComputeGuess_def guess_ok_def kMaxDecimalPower_def inf sums)
  next
    case small
    have "value_of t e \<le> 10 powi (int (length t) + e)" using small t by (intro value_of_bounds) simp_all
    also have "\<dots> \<le> 10 powi (-324)" using small by (intro power_int_increasing) simp_all
    also have "\<dots> \<le> 2 powi (-1075)" by (simp add: power_int_minus field_simps)
    finally have "D_nearest (value_of t e) 0" by (rule nearest_zero)
    then show ?thesis using small sums1 by (simp add: ComputeGuess_def guess_ok_def kMaxDecimalPower_def kMinDecimalPower_def sums)
  next
    case middle
    have e: "int (length t) + e \<le> 309" using middle by simp
    have m: "-324 < int (length t) + e" using middle by simp
    have finite: "unat b < D_inf_rank" if "D_nearest x (unat b)" "b \<noteq> D_kInfinity" for x and b :: double
      using that inf by (auto simp: nearest_def order_le_less word_unat_eq_iff)
    note diy = DiyFpStrtod_correct [OF t(1) middle(1) t(2) e, folded value_of_def, OF middle(1)]
    have step: "returns (case r of Some guess \<Rightarrow> Some (True, guess)
        | None \<Rightarrow> do {
            (correct, guess) \<leftarrow> DiyFpStrtod t e;
            if correct then Some (True, guess)
            else if guess = D_kInfinity then Some (True, guess)
            else Some (False, guess)
          }) (\<lambda>(c, g). guess_ok (value_of t e) c g \<and>
        (\<not> c \<longrightarrow> int (length t) + e \<le> 309 \<and> -324 < int (length t) + e \<and> unat g < D_inf_rank))"
      if r: "\<forall>d. r = Some d \<longrightarrow> D_nearest (value_of t e) (unat d)" for r
    proof (cases r)
      case (Some d)
      with r show ?thesis by (simp add: guess_ok_def)
    next
      case None
      then show ?thesis
        unfolding None option.case
        by (auto intro!: returns_bindI [OF diy] simp: guess_ok_def inf e m dest: finite [simplified])
    qed
    have "ComputeGuess t e = do {
        exact \<leftarrow> DoubleStrtod t e;
        case exact of
          Some guess \<Rightarrow> Some (True, guess)
        | None \<Rightarrow> do {
            (correct, guess) \<leftarrow> DiyFpStrtod t e;
            if correct then Some (True, guess)
            else if guess = D_kInfinity then Some (True, guess)
            else Some (False, guess)
          }
      }" using middle sums1 by (simp add: ComputeGuess_def kMaxDecimalPower_def kMinDecimalPower_def sums)
    then show ?thesis
      by (simp only:) (rule returns_bindI [OF DoubleStrtod_correct [OF t(1), of e, folded value_of_def]], rule step)
  qed
qed

text \<open>A guess between zero and infinity comes with the limits of the exact comparison, whether it is marked as correct or not.\<close>

lemma guess_limits:
  assumes t: "list_all is_decimal t" "t \<noteq> [] \<Longrightarrow> hd t \<noteq> CHR ''0''" and near: "D_nearest (value_of t e) n" "0 < n" "n < D_inf_rank"
  shows "int (length t) + e \<le> 309" "-324 < int (length t) + e"
proof -
  have t0: "t \<noteq> []"
  proof
    assume "t = []"
    then have "D_nearest (value_of t e) 0" using nearest_zero [of 0] by (simp add: value_of_def)
    from nearest_unique [OF this near(1)] near(2) show False by simp
  qed
  note b = value_of_bounds [OF t0 t(2) [OF t0] t(1), of e]
  show "int (length t) + e \<le> 309"
  proof (rule ccontr)
    assume "\<not> int (length t) + e \<le> 309"
    then have "(10 :: real) powi 309 \<le> 10 powi (int (length t) - 1 + e)" by (intro power_int_increasing) simp_all
    also note b(1)
    finally have "D_nearest (value_of t e) D_inf_rank" by (rule nearest_infinity)
    from nearest_unique [OF this near(1)] near(3) show False by simp
  qed
  show "-324 < int (length t) + e"
  proof (rule ccontr)
    assume "\<not> -324 < int (length t) + e"
    then have "(10 :: real) powi (int (length t) + e) \<le> 10 powi (-324)" by (intro power_int_increasing) simp_all
    also have "\<dots> \<le> 2 powi (-1075)" by (simp add: power_int_minus field_simps)
    finally have "D_nearest (value_of t e) 0" using b(2) by (intro nearest_zero) simp
    from nearest_unique [OF this near(1)] near(2) show False by simp
  qed
qed

section \<open>The decision\<close>

lemma D_UpperBoundary_correct:
  assumes "unat g < D_inf_rank"
  shows "returns (D_UpperBoundary g) (\<lambda>b. diy_val b = midpoint 52 (-1074) (unat g))"
proof -
  have "unat (D_Significand g) < 2 ^ 53" using double.sig_less [OF assms] by simp
  then have u: "unat (D_Significand g * 2 + 1) = 2 * unat (D_Significand g) + 1"
    by (subst unat_add_small; subst unat_mult_small) simp_all
  show ?thesis
    unfolding D_UpperBoundary_def midpoint_odd
    by (simp add: wp D_rank(1) [OF assms] diy_val_def mk_diy_def u D_sig_rank [OF assms] D_expo_rank [OF assms])
qed

lemma D_NextDouble_rank: "unat g < D_inf_rank \<Longrightarrow> unat (D_NextDouble g) = Suc (unat g)"
proof -
  assume g: "unat g < D_inf_rank"
  then have "g \<noteq> D_kInfinity" by (auto simp: D_kInfinity_def)
  then have "D_NextDouble g = g + 1" using D_rank(1) [OF g] by (simp add: D_NextDouble_def)
  then show ?thesis using g by (simp add: unat_add_small)
qed

lemma D_Significand_even: "unat g < D_inf_rank \<Longrightarrow> D_Significand g AND 1 = 0 \<longleftrightarrow> even (unat g)"
proof -
  assume g: "unat g < D_inf_rank"
  have "unat (D_Significand g AND mask 1) = rank_sig 52 (unat g) mod 2 ^ 1" unfolding unat_and_mask D_sig_rank [OF g] ..
  then have "D_Significand g AND 1 = 0 \<longleftrightarrow> even (rank_sig 52 (unat g))"
    by (simp add: unat_eq_0_iff [symmetric] even_iff_mod_2_eq_zero mask_eq_exp_minus_1)
  also have "even (rank_sig 52 (unat g)) \<longleftrightarrow> even (unat g)"
    by (auto simp: rank_sig_def dvd_mod_iff simp del: power_numeral)
  finally show ?thesis .
qed

lemma Strtod_correct:
  assumes s: "list_all is_decimal s" and int: "decimal_ok s e"
  shows "returns (Strtod s e) (\<lambda>d. D_nearest (value_of s e) (unat d))"
  unfolding Strtod_def
proof (rule returns_bindI [OF TrimAndCut_correct [OF s int, folded value_of_def]], clarify,
    rule returns_bindI [OF ComputeGuess_correct], assumption, blast, assumption, clarify, goal_cases)
  case (1 t e' c g)
  let ?x = "value_of t e'" and ?m = "midpoint 52 (-1074) (unat g)"
  have fin: "D_nearest ?x n \<Longrightarrow> D_nearest (value_of s e) n" for n using 1 coarse_double by blast
  show ?case
  proof (cases c)
    case True
    with 1 fin show ?thesis by (simp add: guess_ok_def)
  next
    case False
    with 1 have g: "unat g < D_inf_rank" and near: "D_nearest ?x (unat g) \<or> D_nearest ?x (Suc (unat g))"
      and len: "int (length t) + e' \<le> 309" "-324 < int (length t) + e'" "length t \<le> 780" and t: "list_all is_decimal t"
      by (auto simp: guess_ok_def)
    have low: "D_nearest ?x (unat g)" if "?x < ?m \<or> ?x = ?m \<and> even (unat g)" using near that by (auto simp: nearest_def)
    have high: "D_nearest ?x (Suc (unat g))" if "?m < ?x \<or> ?x = ?m \<and> odd (unat g)" using near that g by (auto simp: nearest_def)
    show ?thesis
    proof (simp only: False if_False, rule returns_bindI [OF D_UpperBoundary_correct [OF g]], goal_cases)
      case (1 b)
      have "returns (CompareBufferWithDiyFp t e' b) (\<lambda>c. real_of_int c = sgn (?x - ?m))"
        using CompareBufferWithDiyFp_correct [OF t, of e' b] len 1 by (simp add: value_of_def)
      then show ?case
      proof (rule returns_bindI, goal_cases)
        case (1 c)
        then have c: "c < 0 \<longleftrightarrow> ?x < ?m" "c > 0 \<longleftrightarrow> ?m < ?x" by (auto simp: sgn_if split: if_splits)
        then show ?case
          using fin low high D_NextDouble_rank [OF g] D_Significand_even [OF g] by (auto simp: not_less)
      qed
    qed
  qed
qed

lemma nearest_mono:
  assumes "nearest p emin inf_rank x m" "nearest p emin inf_rank y n" "x \<le> y"
  shows "m \<le> n"
proof (rule ccontr)
  assume "\<not> m \<le> n"
  then have nm: "n \<le> m - 1" "0 < m" "n < inf_rank" using assms(1) by (auto simp: nearest_def)
  have "midpoint p emin (m - 1) \<le> x" "y \<le> midpoint p emin n" using assms nm by (auto simp: nearest_def)
  with assms(3) midpoint_le [OF nm(1), of p emin] have eq: "midpoint p emin (m - 1) = x" "midpoint p emin n = y" "x = y" by linarith+
  with assms(1,2) show False using nearest_unique [of p emin inf_rank x m n] \<open>\<not> m \<le> n\<close> by simp
qed

section \<open>Properties\<close>

text \<open>
  C8: \<open>Strtod\<close> returns, for every string of decimal digits and every exponent \<open>e\<close> such that \<open>e\<close> and \<open>e\<close> plus the
  number of digits are 32-bit integers, the double nearest to the decimal number, ties to even, with infinity for the
  numbers above the largest double: no assertion fails, no sum overflows, no loop runs forever, and the three ways of
  finding the result agree with exact arithmetic.
\<close>

theorem strtod_is_nearest:
  assumes "list_all is_decimal s" "decimal_ok s e"
  shows "\<exists>d. Strtod s e = Some d \<and> D_nearest (real (text_digits s) * 10 powi e) (unat d)"
  using returns_ex [OF Strtod_correct [OF assms]] by (simp add: value_of_def)

theorem strtod_is_nearest_witness:
  "\<exists>d. Strtod ''17976931348623159'' 292 = Some d \<and> D_nearest (real (text_digits ''17976931348623159'') * 10 powi 292) (unat d)"
  by (rule strtod_is_nearest) (simp_all add: is_decimal_def decimal_ok_def in_int32_def)

text \<open>The limits are needed: \<open>ComputeGuess\<close> adds the number of digits to the largest \<open>int\<close>.\<close>

lemma strtod_int_overflow: "Strtod ''12'' (2 ^ 31 - 1) = None"
proof -
  have "TrimLeadingZeros ''12'' = Some ''12''"
    unfolding TrimLeadingZeros_def by (subst while_loop_stop) (simp_all add: vget_def SubVector_def check_def)
  moreover have "TrimTrailingZeros ''12'' = Some ''12''"
    unfolding TrimTrailingZeros_def by (subst while_loop_stop) (simp_all add: vget_def SubVector_def check_def)
  ultimately show ?thesis
    by (simp add: Strtod_def TrimAndCut_def kMaxSignificantDecimalDigits_def ComputeGuess_def as_int32_def in_int32_def)
qed

text \<open>
  C11: \<open>Strtod\<close> is monotone, on the digits and exponents whose sums stay in the type \<open>int\<close>: a larger decimal number
  never gives a smaller double, whatever way of computing it is taken for either of them.
\<close>

theorem strtod_is_monotone:
  assumes "list_all is_decimal s" "decimal_ok s e" "list_all is_decimal t" "decimal_ok t f"
    and "real (text_digits s) * 10 powi e \<le> real (text_digits t) * 10 powi f"
    and "Strtod s e = Some a" "Strtod t f = Some b"
  shows "unat a \<le> unat b"
  using Strtod_correct [OF assms(1,2)] Strtod_correct [OF assms(3,4)] assms(5-7)
  by (auto simp: value_of_def elim: nearest_mono)

theorem strtod_is_monotone_witness:
  "\<exists>a b. Strtod ''9007199254740993'' 0 = Some a \<and> Strtod ''900719925474099301'' (-2) = Some b \<and> unat a \<le> unat b"
proof -
  have d: "list_all is_decimal ''9007199254740993''" "decimal_ok ''9007199254740993'' 0"
    "list_all is_decimal ''900719925474099301''" "decimal_ok ''900719925474099301'' (-2)"
    by (simp_all add: is_decimal_def decimal_ok_def in_int32_def)
  have le: "real (text_digits ''9007199254740993'') * 10 powi 0 \<le> real (text_digits ''900719925474099301'') * 10 powi (-2)"
    by (simp add: char_digit_def power_int_minus)
  obtain a where a: "Strtod ''9007199254740993'' 0 = Some a" using Strtod_correct [OF d(1,2)] by (auto elim: returnsE)
  obtain b where b: "Strtod ''900719925474099301'' (-2) = Some b" using Strtod_correct [OF d(3,4)] by (auto elim: returnsE)
  from strtod_is_monotone [OF d le a b] a b show ?thesis by blast
qed

text \<open>
  C10: the approximation of \<open>DiyFpStrtod\<close>, with 64-bit significands and cached powers of ten, is the nearest double when it
  is marked as correct, and otherwise the nearest double or the one just below it. The error that the code counts in
  eighths of the last place is an upper limit of the real one at every step.
\<close>

theorem diy_fp_strtod_guess:
  assumes "list_all is_decimal s" "s \<noteq> []" "hd s \<noteq> CHR ''0''" "int (length s) + e \<le> 309"
  shows "\<exists>c g. DiyFpStrtod s e = Some (c, g) \<and>
    (D_nearest (real (text_digits s) * 10 powi e) (unat g) \<or>
     \<not> c \<and> D_nearest (real (text_digits s) * 10 powi e) (Suc (unat g)))"
  using returns_ex [OF DiyFpStrtod_correct [OF assms]] by (auto simp: guess_ok_def)

theorem diy_fp_strtod_guess_witness:
  "\<exists>c g. DiyFpStrtod ''22250738585072011'' (-324) = Some (c, g) \<and>
    (D_nearest (real (text_digits ''22250738585072011'') * 10 powi (-324)) (unat g) \<or>
     \<not> c \<and> D_nearest (real (text_digits ''22250738585072011'') * 10 powi (-324)) (Suc (unat g)))"
  by (rule diy_fp_strtod_guess) (simp_all add: is_decimal_def)

text \<open>
  C13: \<open>CompareBufferWithDiyFp\<close> compares the decimal number with the binary one exactly, for up to 780 digits: the big
  numbers that it builds fit into their 128 bigits.
\<close>

theorem compare_buffer_is_exact:
  assumes "list_all is_decimal s" "length s \<le> 780" "int (length s) + e \<le> 310" "-324 < int (length s) + e"
  shows "\<exists>c. CompareBufferWithDiyFp s e d = Some c \<and> real_of_int c = sgn (real (text_digits s) * 10 powi e - diy_val d)"
  using returns_ex [OF CompareBufferWithDiyFp_correct [OF assms(1,3,4,2), of d]] by simp

theorem compare_buffer_is_exact_witness:
  "\<exists>c. CompareBufferWithDiyFp ''179769313486231580793'' 288 (mk_diy 0x3FFFFFFFFFFFFF 970) = Some c \<and>
    real_of_int c = sgn (real (text_digits ''179769313486231580793'') * 10 powi 288 - diy_val (mk_diy 0x3FFFFFFFFFFFFF 970))"
  by (rule compare_buffer_is_exact) (simp_all add: is_decimal_def)

text \<open>
  C12: \<open>TrimAndCut\<close> leaves at most 780 digits, with no zero in front, and the nearest double of what it leaves is the nearest
  double of the number it got: a string that is cut is replaced by one on the same side of every boundary. The exponent that
  it returns stays in the type \<open>int\<close>, with the number of digits added too, where the given one does.
\<close>

theorem trim_and_cut_keeps_nearest:
  assumes "list_all is_decimal s" "decimal_ok s e"
  shows "\<exists>t e'. TrimAndCut s e (replicate kMaxSignificantDecimalDigits (CHR 0x00)) = Some (t, e') \<and> length t \<le> 780 \<and>
    (t = [] \<or> hd t \<noteq> CHR ''0'') \<and> decimal_ok t e' \<and>
    (\<forall>n. D_nearest (real (text_digits t) * 10 powi e') n \<longrightarrow> D_nearest (real (text_digits s) * 10 powi e) n)"
  using returns_ex [OF TrimAndCut_correct [OF assms]] coarse_double by blast

theorem trim_and_cut_keeps_nearest_witness:
  "\<exists>t e'. TrimAndCut (replicate 900 CHR ''7'') 3 (replicate kMaxSignificantDecimalDigits (CHR 0x00)) = Some (t, e') \<and> length t \<le> 780 \<and>
    (t = [] \<or> hd t \<noteq> CHR ''0'') \<and> decimal_ok t e' \<and>
    (\<forall>n. D_nearest (real (text_digits t) * 10 powi e') n \<longrightarrow>
      D_nearest (real (text_digits (replicate 900 CHR ''7'')) * 10 powi 3) n)"
  by (rule trim_and_cut_keeps_nearest) (simp_all add: list_all_iff is_decimal_def decimal_ok_def in_int32_def)

end
