(* ===== verification/Dtoa_Start.thy ===== *)
theory Dtoa_Start
  imports Dtoa_Shortest Strtod_Properties
begin

text \<open>
  The start of \<open>BignumDtoa\<close>: the estimate of the decimal exponent is off by at most one, the start values stand for the number
  and its boundaries, and \<open>FixupMultiply10\<close> corrects the estimate.
\<close>

section \<open>The estimate\<close>

lemma EstimatePower_linear:
  assumes e: "\<bar>e + 52\<bar> \<le> 1126"
  shows "(EstimatePower e - 1) * 2 ^ 53 < (e + 52) * log10_2_num" "(e + 52) * log10_2_num \<le> EstimatePower e * 2 ^ 53 + 2 ^ 21"
proof -
  define x product difference where "x = e + 52" and "product = round53 (x * log10_2_num)"
    and "difference = round53 (product * 2 ^ 33 - one_e_minus_10)"
  have xL: "\<bar>x * log10_2_num\<bar> < 2 ^ 63" using e by (simp add: x_def log10_2_num_def abs_mult)
  then have p: "\<bar>product - x * log10_2_num\<bar> \<le> 2 ^ 10" using round53_error [of "x * log10_2_num" 63] by (simp add: product_def)
  have "\<bar>product * 2 ^ 33 - one_e_minus_10\<bar> < 2 ^ 97" using p xL by (simp add: one_e_minus_10_def abs_less_iff abs_le_iff)
  then have d: "\<bar>difference - (product * 2 ^ 33 - one_e_minus_10)\<bar> \<le> 2 ^ 44"
    using round53_error [of "product * 2 ^ 33 - one_e_minus_10" 97] by (simp add: difference_def)
  have est: "EstimatePower e = - ((- difference) div 2 ^ 86)"
    by (simp add: EstimatePower_def Let_def x_def product_def difference_def add.commute add_diff_eq)
  define q r where "q = (- difference) div 2 ^ 86" and "r = (- difference) mod 2 ^ 86"
  have "q * 2 ^ 86 + r = - difference" unfolding q_def r_def by (rule div_mult_mod_eq)
  moreover have "0 \<le> r" "r < 2 ^ 86" by (simp_all add: r_def)
  ultimately have "difference \<le> EstimatePower e * 2 ^ 86" "(EstimatePower e - 1) * 2 ^ 86 < difference"
    unfolding est q_def [symmetric] by simp_all
  then show "(EstimatePower e - 1) * 2 ^ 53 < (e + 52) * log10_2_num" "(e + 52) * log10_2_num \<le> EstimatePower e * 2 ^ 53 + 2 ^ 21"
    using p d unfolding x_def [symmetric] one_e_minus_10_def by (simp_all add: abs_le_iff)
qed

lemma EstimatePower_bounds:
  assumes e: "-1126 \<le> e" "e \<le> 971"
  shows "10 powi (EstimatePower e - 1) < (2 :: real) powi (e + 52)" "(2 :: real) powi (e + 51) < 10 powi EstimatePower e"
    "-324 \<le> EstimatePower e" "EstimatePower e \<le> 309" "0 \<le> e + 52 \<Longrightarrow> 0 \<le> EstimatePower e"
proof -
  have "\<bar>e + 52\<bar> \<le> 1126" using e by simp
  note lin = EstimatePower_linear [OF this]
  have "real_of_int (EstimatePower e - 1) < (e + 52) * log 10 2"
    by (rule below_log10_2) (use e lin in \<open>simp_all add: log10_2_num_def\<close>)
  then show "10 powi (EstimatePower e - 1) < (2 :: real) powi (e + 52)" using powi_less_log by blast
  have "real_of_int (- EstimatePower e) < (- (e + 51)) * log 10 2"
    by (rule below_log10_2) (use e lin in \<open>simp_all add: log10_2_num_def\<close>)
  then have "(10 :: real) powi (- EstimatePower e) < 2 powi (- (e + 51))" using powi_less_log by blast
  then show "(2 :: real) powi (e + 51) < 10 powi EstimatePower e"
    by (simp only: power_int_minus) (simp add: inverse_less_iff_less)
  show "-324 \<le> EstimatePower e" "EstimatePower e \<le> 309" "0 \<le> e + 52 \<Longrightarrow> 0 \<le> EstimatePower e"
    using lin e by (simp_all add: log10_2_num_def)
qed

text \<open>The loop that moves the significand up to the hidden bit.\<close>

lemma hidden_bit_loop:
  assumes s: "0 < unat significand" "unat significand < 2 ^ 53"
  shows "returns (while_loop (\<lambda>(f, e). Some (f AND D_kHiddenBit = 0)) (\<lambda>(f, e). Some (push_bit 1 f, e - 1)) (significand, e))
    (\<lambda>(f, r). \<exists>k < 53. r = e - int k \<and> unat f = unat significand * 2 ^ k \<and> 2 ^ 52 \<le> unat f \<and> unat f < 2 ^ 53)"
proof (rule returns_while [where I = "\<lambda>(f, r). \<exists>k. r = e - int k \<and> unat f = unat significand * 2 ^ k \<and> unat f < 2 ^ 53"
      and m = "\<lambda>(f, r). 2 ^ 53 - unat f"], goal_cases)
  case 1
  show ?case using s by (auto intro: exI [of _ 0])
next
  case (2 st)
  then obtain f k where st: "st = (f, e - int k)" "unat f = unat significand * 2 ^ k" "unat f < 2 ^ 53" by (cases st) auto
  have bit: "f AND D_kHiddenBit = 0 \<longleftrightarrow> unat f < 2 ^ 52" using st(3) hidden_bit_clear [of f] by simp
  have f0: "0 < unat f" using s(1) st(2) by simp
  show ?case
  proof (cases "unat f < 2 ^ 52")
    case True
    then have u: "unat (push_bit 1 f) = unat f * 2" by (subst unat_push_bit_small) simp_all
    moreover have "\<exists>j. e - int k - 1 = e - int j \<and> unat f * 2 = unat significand * 2 ^ j"
      using st(2) by (intro exI [of _ "Suc k"]) simp
    ultimately show ?thesis using True f0 unfolding st(1) by (simp add: bit)
  next
    case False
    have "2 ^ k \<le> unat f" using st(2) s(1) by simp
    then have "(2 :: nat) ^ k < 2 ^ 53" using st(3) by (rule le_less_trans)
    then have "k < 53" by (rule power_less_imp_less_exp [rotated]) simp
    then show ?thesis using False st(2,3) unfolding st(1) by (auto simp: bit intro: exI [of _ k])
  qed
qed

lemma NormalizedExponent_correct:
  assumes s: "0 < unat significand" "unat significand < 2 ^ 53"
  shows "returns (NormalizedExponent significand e) (\<lambda>r. \<exists>k < 53. r = e - int k \<and>
    2 ^ 52 \<le> unat significand * 2 ^ k \<and> unat significand * 2 ^ k < 2 ^ 53)"
  using s(1) hidden_bit_loop [OF s, of e] unfolding NormalizedExponent_def
  by (intro returns_checkI) (auto simp: returns_bind elim!: returns_mono)

section \<open>The start values\<close>

text \<open>The number \<open>f * 2 powi e\<close> divided by \<open>10 powi k\<close> is \<open>f * scale_up k e / scale_down k e\<close>.\<close>

definition scale_up :: "int \<Rightarrow> int \<Rightarrow> nat" where
  "scale_up k e = 10 ^ nat (- k) * 2 ^ nat e"

definition scale_down :: "int \<Rightarrow> int \<Rightarrow> nat" where
  "scale_down k e = 10 ^ nat k * 2 ^ nat (- e)"

lemma ten_powi_ratio: "(10 :: real) powi k = 10 ^ nat k / 10 ^ nat (- k)"
  by (cases "0 \<le> k") (simp_all add: power_int_def inverse_eq_divide power_one_over)

lemma scale_ratio: "real f * 2 powi e / 10 powi k = real (f * scale_up k e) / real (scale_down k e)"
proof -
  have "x * (a / b) / (c / d) = x * (d * a) / (c * b)" for x a b c d :: real by (simp add: mult_ac)
  from this [of "real f" "2 ^ nat e"] show ?thesis
    unfolding scale_up_def scale_down_def powi_ratio [of e] ten_powi_ratio [of k]
    by (simp only: of_nat_mult of_nat_power of_nat_numeral)
qed

lemma scale_limits:
  assumes "-324 \<le> k" "k \<le> 309" "-1074 \<le> e" "e \<le> 971"
  shows "scale_up k e \<le> 2 ^ 2267" "scale_down k e \<le> 2 ^ 2310" "0 < scale_up k e" "0 < scale_down k e"
proof -
  have ten: "(10 :: nat) ^ n \<le> 2 ^ (4 * m)" if "n \<le> m" for n m
  proof -
    have "(10 :: nat) ^ n \<le> 10 ^ m" using that by (intro power_increasing) simp_all
    also have "\<dots> \<le> 2 ^ (4 * m)" by (rule power_base_le)
    finally show ?thesis .
  qed
  have two: "(2 :: nat) ^ n \<le> 2 ^ m" if "n \<le> m" for n m using that by (intro power_increasing) simp_all
  have "scale_up k e \<le> 2 ^ (4 * 324) * 2 ^ 971" unfolding scale_up_def using assms by (intro mult_le_mono ten two) simp_all
  then show "scale_up k e \<le> 2 ^ 2267" by (simp only: power_add [symmetric]) simp
  have "scale_down k e \<le> 2 ^ (4 * 309) * 2 ^ 1074" unfolding scale_down_def using assms by (intro mult_le_mono ten two) simp_all
  then show "scale_down k e \<le> 2 ^ 2310" by (simp only: power_add [symmetric]) simp
  show "0 < scale_up k e" "0 < scale_down k e" by (simp_all add: scale_up_def scale_down_def)
qed

lemma below_big_limit:
  assumes "n \<le> 2 ^ 2700"
  shows "n < big_limit"
proof -
  have "(2 :: nat) ^ 2700 < 2 ^ (28 * 100)" by (intro power_strict_increasing) simp_all
  with assms show ?thesis unfolding big_limit_def bbase_power by (rule le_less_trans)
qed

definition start_ok :: "nat \<Rightarrow> int \<Rightarrow> int \<Rightarrow> nat \<Rightarrow> nat \<Rightarrow> nat \<Rightarrow> scaled_start \<Rightarrow> bool" where
  "start_ok f e k c m p s \<longleftrightarrow> stands_for (numerator s) (c * (f * scale_up k e)) \<and> stands_for (denominator s) (c * scale_down k e) \<and>
     stands_for (delta_minus s) (m * scale_up k e) \<and> stands_for (delta_plus s) (p * scale_up k e)"

lemma raw_new: "bignum_raw new_bignum"
  using bignum_inv_new by (rule bignum_inv_raw)

lemma start_values_step:
  fixes need :: bool
  assumes f: "f = unat significand" "f < 2 ^ 53" and e: "-1074 \<le> e" "e \<le> 971" and k: "-324 \<le> k" "k \<le> 309" "0 \<le> e \<Longrightarrow> 0 \<le> k"
  defines "program \<equiv> (if e \<ge> 0 then InitialScaledStartValuesPositiveExponent significand e k need new_start
           else if k \<ge> 0 then InitialScaledStartValuesNegativeExponentPositivePower significand e k need new_start
           else InitialScaledStartValuesNegativeExponentNegativePower significand e k need new_start)"
  shows "returns program (start_ok f e k (if need then 2 else 1) (if need then 1 else 0) (if need then 1 else 0))"
proof -
  note limits = scale_limits [OF k(1,2) e]
  have f64: "f * n < big_limit" if "n \<le> 2 ^ 2310" for n
  proof (rule below_big_limit)
    have "f * n \<le> 2 ^ 53 * 2 ^ 2310" using f(2) that by (intro mult_le_mono) simp_all
    also have "\<dots> \<le> 2 ^ 2700" unfolding power_add [symmetric] by (rule power_increasing) simp_all
    finally show "f * n \<le> 2 ^ 2700" .
  qed
  have f1: "f < big_limit" using f64 [of 1] by simp
  have pw: "(2 :: nat) ^ n < big_limit" if "n \<le> 2700" for n by (rule below_big_limit) (rule power_increasing, use that in simp_all)
  have up: "scale_up k e < big_limit" and down: "scale_down k e < big_limit"
    using order_trans [OF limits(1) power_increasing [of 2267 2700]] order_trans [OF limits(2) power_increasing [of 2310 2700]]
    by (auto intro: below_big_limit)
  have fc: "f * scale_up k e < big_limit"
  proof (rule f64)
    show "scale_up k e \<le> 2 ^ 2310" using limits(1) power_increasing [of 2267 2310 "2 :: nat"] by linarith
  qed
  have k1000: "nat k \<le> 1000" "nat (- k) \<le> 1000" using k by simp_all
  note new = new_start_def scaled_start.simps
  obtain o1 where o1: "AssignUInt16 new_bignum 1 = Some o1" "stands_for o1 1"
    using returns_ex [OF num_AssignUInt16 [OF raw_new, of 1]] by auto
  obtain n1 where n1: "AssignUInt64 new_bignum significand = Some n1" "stands_for n1 f"
    using returns_ex [OF num_AssignUInt64 [OF raw_new, of significand]] f by auto
  consider (pos) "0 \<le> e" "0 \<le> k" | (mid) "e < 0" "0 \<le> k" | (neg) "e < 0" "k < 0" using k(3) by linarith
  then show ?thesis
  proof cases
    case pos
    then have sc: "scale_up k e = 2 ^ nat e" "scale_down k e = 10 ^ nat k" by (simp_all add: scale_up_def scale_down_def)
    obtain n2 where n2: "ShiftLeft n1 (nat e) = Some n2" "stands_for n2 (f * scale_up k e)"
      using returns_ex [OF num_shift [OF n1(2) f1, of "nat e"]] unfolding sc by auto
    obtain d1 where d1: "AssignPowerUInt16 new_bignum 10 (nat k) = Some d1" "stands_for d1 (scale_down k e)"
      using returns_ex [OF num_power_ten [OF raw_new k1000(1)]] unfolding sc by auto
    obtain d2 where d2: "ShiftLeft d1 1 = Some d2" "stands_for d2 (scale_down k e * 2)"
      using returns_ex [OF num_shift [OF d1(2) down, of 1]] by auto
    obtain n3 where n3: "ShiftLeft n2 1 = Some n3" "stands_for n3 (f * scale_up k e * 2)"
      using returns_ex [OF num_shift [OF n2(2) fc, of 1]] by auto
    obtain o2 where o2: "ShiftLeft o1 (nat e) = Some o2" "stands_for o2 (scale_up k e)"
      using returns_ex [OF num_shift [OF o1(2), of "nat e"]] pw [of 0] unfolding sc by auto
    show ?thesis
      using pos n1 n2 d1 d2 n3 o1 o2 unfolding program_def InitialScaledStartValuesPositiveExponent_def new
      by (cases need) (simp_all add: wp start_ok_def mult_ac)
  next
    case mid
    then have sc: "scale_up k e = 1" "scale_down k e = 10 ^ nat k * 2 ^ nat (- e)" by (simp_all add: scale_up_def scale_down_def)
    have ten: "10 ^ nat k < big_limit" using down unfolding sc by (rule le_less_trans [rotated]) simp
    obtain d1 where d1: "AssignPowerUInt16 new_bignum 10 (nat k) = Some d1" "stands_for d1 (10 ^ nat k)"
      using returns_ex [OF num_power_ten [OF raw_new k1000(1)]] by auto
    obtain d2 where d2: "ShiftLeft d1 (nat (- e)) = Some d2" "stands_for d2 (scale_down k e)"
      using returns_ex [OF num_shift [OF d1(2) ten, of "nat (- e)"]] unfolding sc by auto
    obtain d3 where d3: "ShiftLeft d2 1 = Some d3" "stands_for d3 (scale_down k e * 2)"
      using returns_ex [OF num_shift [OF d2(2) down, of 1]] by auto
    obtain n2 where n2: "ShiftLeft n1 1 = Some n2" "stands_for n2 (f * 2)"
      using returns_ex [OF num_shift [OF n1(2) f1, of 1]] by auto
    show ?thesis
      using mid n1 n2 d1 d2 d3 o1 unfolding program_def InitialScaledStartValuesNegativeExponentPositivePower_def new
      by (cases need) (simp_all add: wp start_ok_def sc(1) mult_ac)
  next
    case neg
    then have sc: "scale_up k e = 10 ^ nat (- k)" "scale_down k e = 2 ^ nat (- e)" by (simp_all add: scale_up_def scale_down_def)
    obtain p1 where p1: "AssignPowerUInt16 new_bignum 10 (nat (- k)) = Some p1" "stands_for p1 (scale_up k e)"
      using returns_ex [OF num_power_ten [OF raw_new k1000(2)]] unfolding sc by auto
    have copy: "AssignBignum new_bignum p1 = Some p1" by (rule num_copy [OF raw_new p1(2)])
    obtain n2 where n2: "MultiplyByUInt64 p1 significand = Some n2" "stands_for n2 (f * scale_up k e)"
      using returns_ex [OF num_times(2) [OF p1(2) up, of significand]] f by (auto simp: mult.commute)
    obtain n3 where n3: "ShiftLeft n2 1 = Some n3" "stands_for n3 (f * scale_up k e * 2)"
      using returns_ex [OF num_shift [OF n2(2) fc, of 1]] by auto
    obtain d2 where d2: "ShiftLeft o1 (nat (- e)) = Some d2" "stands_for d2 (scale_down k e)"
      using returns_ex [OF num_shift [OF o1(2), of "nat (- e)"]] pw [of 0] unfolding sc by auto
    obtain d3 where d3: "ShiftLeft d2 1 = Some d3" "stands_for d3 (scale_down k e * 2)"
      using returns_ex [OF num_shift [OF d2(2) down, of 1]] by auto
    show ?thesis
      using neg p1 copy n2 n3 d2 d3 o1 unfolding program_def InitialScaledStartValuesNegativeExponentNegativePower_def new
      by (cases need) (simp_all add: wp start_ok_def mult_ac)
  qed
qed

text \<open>The weights of the number, the lower and the upper boundary.\<close>

definition start_weights :: "bool \<Rightarrow> bool \<Rightarrow> nat \<times> nat \<times> nat" where
  "start_weights need closer = (if need then if closer then (4, 1, 2) else (2, 1, 1) else (1, 0, 0))"

lemma InitialScaledStartValues_correct:
  assumes f: "f = unat significand" "f < 2 ^ 53" and e: "-1074 \<le> e" "e \<le> 971" and k: "-324 \<le> k" "k \<le> 309" "0 \<le> e \<Longrightarrow> 0 \<le> k"
    and w: "start_weights need closer = (c, m, p)"
  shows "returns (InitialScaledStartValues significand e closer k need new_start) (start_ok f e k c m p)"
  unfolding InitialScaledStartValues_def
proof (rule returns_bindI [OF start_values_step [OF f e k, where need = need]], goal_cases)
  case (2 s)
  show ?case
  proof (cases "need \<and> closer")
    case True
    with 2 have s: "stands_for (numerator s) (2 * (f * scale_up k e))" "stands_for (denominator s) (2 * scale_down k e)"
      "stands_for (delta_minus s) (scale_up k e)" "stands_for (delta_plus s) (scale_up k e)" by (simp_all add: start_ok_def)
    note limits = scale_limits [OF k(1,2) e]
    have pw: "n < big_limit" if "n \<le> 2 ^ i * 2 ^ j" "i + j \<le> 2700" for n i j
      using order_trans [OF that(1)] power_increasing [OF that(2), of "2 :: nat"]
      by (intro below_big_limit) (simp add: power_add del: power_numeral)
    have b: "2 * (f * scale_up k e) < big_limit" "2 * scale_down k e < big_limit" "scale_up k e < big_limit"
    proof -
      have "2 * (f * scale_up k e) \<le> 2 ^ 54 * 2 ^ 2267" using f(2) limits(1) mult_le_mono [of "2 * f" "2 ^ 54" "scale_up k e" "2 ^ 2267"] by (simp add: mult.assoc)
      then show "2 * (f * scale_up k e) < big_limit" by (rule pw) simp
      have "2 * scale_down k e \<le> 2 ^ 1 * 2 ^ 2310" using limits(2) by (intro mult_le_mono) simp_all
      then show "2 * scale_down k e < big_limit" by (rule pw) simp
      have "scale_up k e \<le> 2 ^ 0 * 2 ^ 2267" using limits(1) by (simp only: power_0 mult_1)
      then show "scale_up k e < big_limit" by (rule pw) simp
    qed
    obtain n d q where "ShiftLeft (numerator s) 1 = Some n" "stands_for n (2 * (f * scale_up k e) * 2)"
      "ShiftLeft (denominator s) 1 = Some d" "stands_for d (2 * scale_down k e * 2)"
      "ShiftLeft (delta_plus s) 1 = Some q" "stands_for q (scale_up k e * 2)"
      using returns_ex [OF num_shift [OF s(1) b(1), of 1]] returns_ex [OF num_shift [OF s(2) b(2), of 1]]
        returns_ex [OF num_shift [OF s(4) b(3), of 1]] by auto
    with True s(3) w show ?thesis by (auto simp: wp start_ok_def start_weights_def mult_ac)
  next
    case False
    with 2 w show ?thesis by (auto simp: wp start_weights_def split: if_splits)
  qed
qed simp

section \<open>The correction of the estimate\<close>

lemma FixupMultiply10_correct:
  assumes s: "stands_for (numerator s) a" "stands_for (denominator s) b" "stands_for (delta_minus s) m" "stands_for (delta_plus s) p"
    and lim: "a < big_limit" "m < big_limit" "p < big_limit"
  shows "returns (FixupMultiply10 k ev s) (\<lambda>(k', s'). \<exists>t. t = (if (if ev then b \<le> a + p else b < a + p) then 1 else 10) \<and>
    k' = (if t = 1 then k + 1 else k) \<and> stands_for (numerator s') (t * a) \<and> stands_for (denominator s') b \<and>
    stands_for (delta_minus s') (t * m) \<and> stands_for (delta_plus s') (t * p))"
proof -
  obtain c where c: "PlusCompare (numerator s) (delta_plus s) (denominator s) = Some c"
    "(if ev then c \<ge> 0 else c > 0) = (if ev then b \<le> a + p else b < a + p)"
    using bigit.plus_compare_law [OF s(1,4,2)] by (simp only: sgn_plus_compare)
  obtain n' m' p' where t: "Times10 (numerator s) = Some n'" "stands_for n' (10 * a)"
    "Times10 (delta_minus s) = Some m'" "stands_for m' (10 * m)" "Times10 (delta_plus s) = Some p'" "stands_for p' (10 * p)"
    using returns_ex [OF bigit.times10_law [OF s(1) lim(1)]] returns_ex [OF bigit.times10_law [OF s(3) lim(2)]]
      returns_ex [OF bigit.times10_law [OF s(4) lim(3)]] by auto
  have eq: "Equal (delta_minus s) (delta_plus s) = Some (m = p)" by (rule num_compare(3) [OF s(3,4)])
  have copy: "AssignBignum (delta_plus s) m' = Some m'" by (rule num_copy [OF stands_for_raw [OF s(4)] t(4)])
  show ?thesis
  proof (cases "if ev then b \<le> a + p else b < a + p")
    case True
    with c s show ?thesis unfolding FixupMultiply10_def by (simp add: Let_def del: if_split)
  next
    case False
    with c s t eq copy show ?thesis unfolding FixupMultiply10_def by (cases "m = p") (simp_all add: Let_def del: if_split)
  qed
qed

lemma divisor_scale_down: "c \<in> {1, 2, 4} \<Longrightarrow> k \<le> 309 \<Longrightarrow> divisor_ok (c * scale_down k e)"
proof -
  assume c: "c \<in> {1, 2, 4 :: nat}" and "k \<le> 309"
  then obtain i where "c = 2 ^ i" by (auto intro: that [of 0] that [of 1] that [of 2])
  then have "c * scale_down k e = 10 ^ nat k * 2 ^ (nat (- e) + i)" by (simp add: scale_down_def power_add)
  then show ?thesis using \<open>k \<le> 309\<close> unfolding divisor_ok_def by (intro exI [of _ "nat k"] exI conjI) auto
qed

text \<open>
  After the correction the first digit is the one in front of the point: the number is \<open>a / b * 10 powi (k - 1)\<close>.
\<close>

lemma scaled_bounds:
  assumes f: "0 < f" "f < 2 ^ 53" and e: "-1074 \<le> e" "e \<le> 971"
    and n: "2 ^ 52 \<le> f * 2 ^ j" "f * 2 ^ j < 2 ^ 53" "j < 53" and k: "k = EstimatePower (e - int j)"
  shows "scale_down k e < 10 * (f * scale_up k e)" "2 * (f * scale_up k e) < 8 * scale_down k e"
    "-324 \<le> k" "k \<le> 309" "0 \<le> e \<Longrightarrow> 0 \<le> k"
proof -
  define v where "v = real f * 2 powi e"
  define E where "E = e - int j"
  have E: "-1126 \<le> E" "E \<le> 971" using e n(3) by (simp_all add: E_def)
  note est = EstimatePower_bounds [OF E, folded k [folded E_def]]
  show "-324 \<le> k" "k \<le> 309" by (rule est(3,4))+
  have vE: "v = real (f * 2 ^ j) * 2 powi E" by (simp add: v_def E_def power_int_diff)
  have "real (2 ^ 52) \<le> real (f * 2 ^ j)" "real (f * 2 ^ j) < real (2 ^ 53)"
    using n by (simp_all only: of_nat_le_iff of_nat_less_iff)
  then have "2 ^ 52 \<le> real (f * 2 ^ j)" "real (f * 2 ^ j) < 2 ^ 53" by (simp_all only: of_nat_power of_nat_numeral)
  then have "2 ^ 52 * 2 powi E \<le> v" "v < 2 ^ 53 * 2 powi E" unfolding vE by (simp_all add: mult_right_mono)
  then have v: "2 powi (E + 52) \<le> v" "v < 4 * 2 powi (E + 51)" by (simp_all add: power_int_add mult.commute)
  have ratio: "v / 10 powi k = real (f * scale_up k e) / real (scale_down k e)" unfolding v_def by (rule scale_ratio)
  have D: "0 < real (scale_down k e)" by (simp add: scale_down_def)
  have "10 powi (k - 1) < v" using est(1) v(1) by simp
  then have "1 < 10 * (v / 10 powi k)" by (simp add: power_int_diff field_simps)
  then have "real (scale_down k e) < real (10 * (f * scale_up k e))" unfolding ratio using D by (simp add: field_simps)
  then show "scale_down k e < 10 * (f * scale_up k e)" by (simp only: of_nat_less_iff)
  have "v < 4 * 10 powi k" using v(2) est(2) by linarith
  then have "v / 10 powi k < 4" by (simp add: field_simps)
  then have "real (2 * (f * scale_up k e)) < real (8 * scale_down k e)" unfolding ratio using D by (simp add: field_simps)
  then show "2 * (f * scale_up k e) < 8 * scale_down k e" by (simp only: of_nat_less_iff)
  show "0 \<le> k" if "0 \<le> e" using that n(3) by (intro est(5)) (simp add: E_def)
qed

end
