(* ===== verification/Dtoa_Properties.thy ===== *)
theory Dtoa_Properties
  imports Dtoa_Start
begin

text \<open>
  \<open>BignumDtoa\<close> as a whole, for the shortest digits: they lie between the boundaries of the number, nothing shorter does, and
  nothing of that length is closer. \<open>Strtod\<close> reads them back as the same double.
\<close>

section \<open>Shortest digits between real boundaries\<close>

definition enclosed :: "bool \<Rightarrow> real \<Rightarrow> real \<Rightarrow> real \<Rightarrow> bool" where
  "enclosed ev lo hi x \<longleftrightarrow> (if ev then lo \<le> x \<and> x \<le> hi else lo < x \<and> x < hi)"

definition shortest_digits :: "bool \<Rightarrow> real \<Rightarrow> real \<Rightarrow> real \<Rightarrow> string \<Rightarrow> int \<Rightarrow> bool" where
  "shortest_digits ev lo v hi ds point \<longleftrightarrow> ds \<noteq> [] \<and> length ds \<le> 17 \<and> list_all is_decimal ds \<and> hd ds \<noteq> CHR ''0'' \<and>
     enclosed ev lo hi (value_of ds (point - int (length ds))) \<and>
     (\<forall>y j. point - int (length ds) < j \<longrightarrow> \<not> enclosed ev lo hi (real y * 10 powi j)) \<and>
     (\<forall>y. enclosed ev lo hi (real y * 10 powi (point - int (length ds))) \<longrightarrow>
       \<bar>value_of ds (point - int (length ds)) - v\<bar> \<le> \<bar>real y * 10 powi (point - int (length ds)) - v\<bar>)"

lemma inside_enclosed:
  assumes S: "S = 10 powi (point - 1) / real b" "0 < b"
  shows "inside ev a (10 * b) m p x i \<longleftrightarrow>
    enclosed ev (real a * S - real m * S) (real a * S + real p * S) (real x * 10 powi (point - int i))"
    "real_of_int (off a (10 * b) x i) * (S / 10 ^ i) = \<bar>real x * 10 powi (point - int i) - real a * S\<bar>"
proof -
  have S0: "0 < S" using S by simp
  define T where "T = S / 10 ^ i"
  have T: "0 < T" "S = 10 ^ i * T" using S0 by (simp_all add: T_def)
  have x: "real x * 10 powi (point - int i) = real (x * (10 * b)) * T"
    using S(2) unfolding T_def S(1) by (simp add: power_int_diff)
  have e: "real a * S = real (a * 10 ^ i) * T" "real m * S = real (m * 10 ^ i) * T" "real p * S = real (p * 10 ^ i) * T"
    unfolding T(2) by simp_all
  have le: "real k * T \<le> real l * T \<longleftrightarrow> k \<le> l" "real k * T < real l * T \<longleftrightarrow> k < l" for k l using T(1) by simp_all
  have "inside ev a (10 * b) m p x i \<longleftrightarrow> (if ev then real (a * 10 ^ i) * T \<le> real (x * (10 * b) + m * 10 ^ i) * T \<and>
      real (x * (10 * b)) * T \<le> real ((a + p) * 10 ^ i) * T
    else real (a * 10 ^ i) * T < real (x * (10 * b) + m * 10 ^ i) * T \<and> real (x * (10 * b)) * T < real ((a + p) * 10 ^ i) * T)"
    unfolding inside_def le ..
  also have "\<dots> \<longleftrightarrow> enclosed ev (real a * S - real m * S) (real a * S + real p * S) (real x * 10 powi (point - int i))"
    unfolding enclosed_def x e by (simp add: algebra_simps)
  finally show "inside ev a (10 * b) m p x i \<longleftrightarrow>
    enclosed ev (real a * S - real m * S) (real a * S + real p * S) (real x * 10 powi (point - int i))" .
  have "real_of_int (off a (10 * b) x i) = \<bar>real (x * (10 * b)) - real (a * 10 ^ i)\<bar>" by (simp add: off_def)
  then show "real_of_int (off a (10 * b) x i) * (S / 10 ^ i) = \<bar>real x * 10 powi (point - int i) - real a * S\<bar>"
    unfolding x e T_def [symmetric] using T(1) by (simp add: left_diff_distrib [symmetric] abs_mult)
qed

lemma shortest_ok_real:
  assumes ok: "shortest_ok ev a (10 * b) m p (text_digits ds) (length ds)" and S: "S = 10 powi (point - 1) / real b" "0 < b"
    and ds: "ds \<noteq> []" "length ds \<le> 17" "list_all is_decimal ds" "hd ds \<noteq> CHR ''0''"
  shows "shortest_digits ev (real a * S - real m * S) (real a * S) (real a * S + real p * S) ds point"
proof -
  let ?l = "length ds" and ?W = "enclosed ev (real a * S - real m * S) (real a * S + real p * S)"
  note iff = inside_enclosed(1) [OF S, of ev a m p] and off = inside_enclosed(2) [OF S, of a]
  have S0: "0 < S / 10 ^ ?l" using S by simp
  have "?W (value_of ds (point - int ?l))" using ok iff by (simp add: shortest_ok_def value_of_def)
  moreover have "\<not> ?W (real y * 10 powi j)" if j: "point - int ?l < j" for y j
  proof
    assume w: "?W (real y * 10 powi j)"
    define i where "i = nat (point - j)"
    define z where "z = y * 10 ^ nat (j - (point - int i))"
    have "j = int (nat (j - (point - int i))) + (point - int i)" by (simp add: i_def)
    then have "10 powi j = (10 :: real) ^ nat (j - (point - int i)) * 10 powi (point - int i)"
      by (metis power_int_add power_int_of_nat zero_neq_numeral)
    then have "real y * 10 powi j = real z * 10 powi (point - int i)" by (simp add: z_def)
    with w have "inside ev a (10 * b) m p z i" using iff by simp
    moreover have "i < ?l" using j ds(1) by (cases "0 \<le> point - j") (auto simp: i_def nat_less_iff)
    ultimately show False using ok by (auto simp: shortest_ok_def)
  qed
  moreover have "\<bar>value_of ds (point - int ?l) - real a * S\<bar> \<le> \<bar>real y * 10 powi (point - int ?l) - real a * S\<bar>"
    if "?W (real y * 10 powi (point - int ?l))" for y
  proof -
    have "off a (10 * b) (text_digits ds) ?l \<le> off a (10 * b) y ?l" using ok iff that by (simp add: shortest_ok_def)
    then have "real_of_int (off a (10 * b) (text_digits ds) ?l) * (S / 10 ^ ?l) \<le> real_of_int (off a (10 * b) y ?l) * (S / 10 ^ ?l)"
      using S0 by (intro mult_right_mono) simp_all
    then show ?thesis unfolding off value_of_def .
  qed
  ultimately show ?thesis using ds by (simp add: shortest_digits_def)
qed

section \<open>From the start values to the digits\<close>

lemma shortest_after_start:
  assumes f: "0 < f" "f < 2 ^ 53" "closer \<Longrightarrow> f \<le> 2 ^ 52" and e: "-1074 \<le> e" "e \<le> 971"
    and n: "2 ^ 52 \<le> f * 2 ^ j" "f * 2 ^ j < 2 ^ 53" "j < 53" and k: "k = EstimatePower (e - int j)"
    and s: "start_ok f e k (if closer then 4 else 2) 1 (if closer then 2 else 1) s" and buf: "17 \<le> length buffer"
  defines "v \<equiv> real f * 2 powi e"
  shows "returns (do {
       (decimal_point, s) \<leftarrow> FixupMultiply10 k ev s;
       (buffer, length) \<leftarrow> GenerateShortestDigits s ev buffer;
       Some (buffer, length, decimal_point)
     }) (\<lambda>(buf, l, point). length buf = length buffer \<and> l = length (take l buf) \<and>
       shortest_digits ev (v - (if closer then 2 powi (e - 2) else 2 powi (e - 1))) v (v + 2 powi (e - 1)) (take l buf) point)"
proof -
  define U D c p where "U = scale_up k e" and "D = scale_down k e" and "c = (if closer then 4 else 2 :: nat)" and "p = (if closer then 2 else 1 :: nat)"
  note sb = scaled_bounds [OF f(1,2) e n k, folded U_def D_def]
  note limits = scale_limits [OF sb(3,4) e, folded U_def D_def]
  define N B where "N = c * (f * U)" and "B = c * D"
  have s': "stands_for (numerator s) N" "stands_for (denominator s) B" "stands_for (delta_minus s) U" "stands_for (delta_plus s) (p * U)"
    using s unfolding start_ok_def N_def B_def U_def D_def c_def p_def by simp_all
  have "c * f \<le> 2 ^ 55" using f(2) by (simp add: c_def)
  then have "N \<le> 2 ^ 55 * 2 ^ 2267" unfolding N_def using limits(1) by (simp only: mult.assoc [symmetric] mult_le_mono)
  moreover have "(2 :: nat) ^ 55 * 2 ^ 2267 \<le> 2 ^ 2700" unfolding power_add [symmetric] by (rule power_increasing) simp_all
  ultimately have limN: "N < big_limit" by (intro below_big_limit) linarith
  have "10 * B = (10 * c) * D" by (simp add: B_def)
  also have "\<dots> \<le> 2 ^ 6 * 2 ^ 2310" using limits(2) by (intro mult_le_mono) (simp_all add: c_def)
  also have "\<dots> \<le> 2 ^ 2700" unfolding power_add [symmetric] by (rule power_increasing) simp_all
  finally have limB: "10 * B < big_limit" by (rule below_big_limit)
  have "p * U \<le> N" unfolding N_def p_def c_def using f(1) by auto
  then have limP: "p * U < big_limit" "U < big_limit" using limN limits(3) by (auto simp: p_def split: if_splits)
  have B0: "0 < B" and okB: "divisor_ok B"
    using limits(4) divisor_scale_down [of c k e] sb(4) by (simp_all add: B_def D_def c_def)
  have est: "B < 10 * N" "2 * N < 8 * B" using sb(1,2) by (simp_all add: N_def B_def c_def)
  have PN: "2 * (p * U) \<le> N" "U < N" unfolding N_def p_def c_def using f(1) limits(3) by auto
  have cf: "c * f + p < (1 + p) * 10 ^ 16"
    using f unfolding c_def p_def by (cases closer) auto
  define R where "R \<longleftrightarrow> (if ev then B \<le> N + p * U else B < N + p * U)"
  obtain k' s2 t where fx: "FixupMultiply10 k ev s = Some (k', s2)" and t: "t = (if R then 1 else 10)" "k' = (if t = 1 then k + 1 else k)"
    and s2: "stands_for (numerator s2) (t * N)" "stands_for (denominator s2) B" "stands_for (delta_minus s2) (t * U)"
      "stands_for (delta_plus s2) (t * (p * U))"
    using returns_ex [OF FixupMultiply10_correct [OF s' limN limP(2,1), of k ev, folded R_def]] by blast
  have t0: "0 < t" by (simp add: t(1))
  have reach: "B \<le> t * N + t * (p * U)" using est(1) by (auto simp: t(1) R_def split: if_splits)
  have "t * N + t * (p * U) = t * (U * (c * f + p))" by (simp add: N_def algebra_simps)
  also have "\<dots> < t * (U * ((1 + p) * 10 ^ 16))" using cf t0 limits(3) by (simp only: mult_less_cancel1)
  also have "\<dots> = (t * U + t * (p * U)) * 10 ^ 16" by (simp add: algebra_simps)
  finally have "B < (t * U + t * (p * U)) * 10 ^ 16" using reach by (rule le_less_trans [rotated])
  moreover have "10 * B < X * 10 ^ 17" if "B < X * 10 ^ 16" for X using that by simp
  ultimately have width: "10 * B < (t * U + t * (p * U)) * 10 ^ 17" by blast
  have start1: "B < 2 * (t * N)" using est(1) PN by (auto simp: t(1) R_def split: if_splits)
  have start2: "if ev then B \<le> t * N + t * (p * U) else B < t * N + t * (p * U)" if "t * N < B"
    using that est(1) by (auto simp: t(1) R_def split: if_splits)
  have g: "gap ev (t * N) (10 * B) (t * U) (t * (p * U)) 0 0 (t * N)"
    using est(2) PN by (auto simp: gap_def t(1) R_def split: if_splits)
  note gen = GenerateShortestDigits_correct [OF s2 okB limB _ _ width buf start1 start2 g]
  have "returns (GenerateShortestDigits s2 ev buffer) (\<lambda>(buf, l). length buf = length buffer \<and> 0 < l \<and> l \<le> 17 \<and>
    list_all is_decimal (take l buf) \<and> hd (take l buf) \<noteq> CHR ''0'' \<and>
    shortest_ok ev (t * N) (10 * B) (t * U) (t * (p * U)) (text_digits (take l buf)) l)"
    using t0 limits(3) by (intro gen) (simp_all add: p_def)
  then obtain buf l where dig: "GenerateShortestDigits s2 ev buffer = Some (buf, l)" "length buf = length buffer" "0 < l" "l \<le> 17"
    "list_all is_decimal (take l buf)" "hd (take l buf) \<noteq> CHR ''0''"
    "shortest_ok ev (t * N) (10 * B) (t * U) (t * (p * U)) (text_digits (take l buf)) l"
    by (auto elim!: returnsE)
  have l: "length (take l buf) = l" using dig(2,4) \<open>17 \<le> length buffer\<close> by simp
  define S where "S = 10 powi (k' - 1) / real B"
  have tS: "real t * S = 10 powi k / real B" by (simp add: S_def t power_int_diff power_int_add)
  have "real f * 2 powi e / 10 powi k = real (f * U) / real D" "real 1 * 2 powi e / 10 powi k = real (1 * U) / real D"
    unfolding U_def D_def by (rule scale_ratio)+
  then have v: "v = real (f * U) / real D * 10 powi k" and u: "2 powi e = real U / real D * 10 powi k"
    unfolding v_def by (simp_all add: field_simps)
  have c0: "real c \<noteq> 0" by (simp add: c_def)
  have "real (t * N) * S = real N * (real t * S)" by simp
  also have "\<dots> = v" unfolding tS v N_def B_def using c0 by simp
  finally have vS: "real (t * N) * S = v" .
  have "real (t * U) * S = real U * (real t * S)" by simp
  also have "\<dots> = 2 powi e / real c" unfolding tS u B_def using c0 by simp
  finally have uS: "real (t * U) * S = 2 powi e / real c" .
  have "real (t * (p * U)) * S = real p * (real (t * U) * S)" by simp
  then have pS: "real (t * (p * U)) * S = real p * (2 powi e / real c)" unfolding uS .
  have low: "real (t * U) * S = (if closer then 2 powi (e - 2) else 2 powi (e - 1))"
    unfolding uS c_def by (simp add: power_int_diff)
  have high: "real (t * (p * U)) * S = 2 powi (e - 1)" by (subst pS) (simp add: c_def p_def power_int_diff)
  have "shortest_digits ev (real (t * N) * S - real (t * U) * S) (real (t * N) * S) (real (t * N) * S + real (t * (p * U)) * S) (take l buf) k'"
    by (rule shortest_ok_real [OF _ S_def B0]) (use dig l in auto)
  then show ?thesis unfolding vS low high using fx dig(1,2) l by (simp add: wp)
qed

section \<open>The boundaries of a float\<close>

lemma midpoint_pred:
  assumes "0 < n"
  shows "midpoint p emin (n - 1) = rank_val p emin n -
    (if n mod 2 ^ p = 0 \<and> 2 * 2 ^ p \<le> n then 2 powi (rank_exp p emin n - 2) else 2 powi (rank_exp p emin n - 1))"
proof -
  have "rank_val p emin n = rank_val p emin (n - 1) + 2 powi rank_exp p emin (n - 1)"
    using rank_val_Suc [of p emin "n - 1"] assms by simp
  then have "midpoint p emin (n - 1) = rank_val p emin n - 2 powi (rank_exp p emin (n - 1) - 1)"
    by (simp add: midpoint_eq power_int_diff)
  then show ?thesis unfolding rank_exp_pred [OF assms] by simp
qed

lemma enclosed_nearest:
  assumes "0 < n" "n < inf_rank"
  shows "enclosed (even n) (midpoint p emin (n - 1)) (midpoint p emin n) x \<longleftrightarrow> nearest p emin inf_rank x n"
  using assms by (auto simp: enclosed_def nearest_def)

lemma start_weights_True: "start_weights True closer = (if closer then 4 else 2, 1, if closer then 2 else 1)"
  by (simp add: start_weights_def)

text \<open>The steps of \<open>BignumDtoa\<close> for the shortest digits, from the significand and the exponent of a double or of a float.\<close>

lemma shortest_of_rank:
  assumes n: "0 < n" and p: "p \<le> 52" and sig: "unat significand = rank_sig p n" and e: "e = rank_exp p emin n" "-1074 \<le> e" "e \<le> 971"
    and closer: "closer \<longleftrightarrow> n mod 2 ^ p = 0 \<and> 2 * 2 ^ p \<le> n" and buf: "18 \<le> length buffer"
  obtains k s point s2 buf l where "NormalizedExponent significand e = Some k"
    "InitialScaledStartValues significand e closer (EstimatePower k) True new_start = Some s"
    "FixupMultiply10 (EstimatePower k) (even n) s = Some (point, s2)" "GenerateShortestDigits s2 (even n) buffer = Some (buf, l)"
    "length buf = length buffer" "l \<le> 17" "vset buf l (CHR 0x00) = Some (buf[l := CHR 0x00])" "take l (buf[l := CHR 0x00]) = take l buf"
    "buf[l := CHR 0x00] ! l = CHR 0x00"
    "shortest_digits (even n) (midpoint p emin (n - 1)) (rank_val p emin n) (midpoint p emin n) (take l buf) point"
proof -
  let ?f = "unat significand"
  have p2: "(2 :: nat) ^ p \<le> 2 ^ 52" using p by (intro power_increasing) simp_all
  have f: "0 < ?f" using n by (simp add: sig rank_sig_def)
  have "?f < 2 * 2 ^ p" by (simp add: sig rank_sig_def)
  with p2 have f53: "?f < 2 ^ 53" by simp
  have cl: "?f \<le> 2 ^ 52" if "closer" using that p2 unfolding closer sig by (simp add: rank_sig_def)
  obtain j where j: "NormalizedExponent significand e = Some (e - int j)" "j < 53" "2 ^ 52 \<le> ?f * 2 ^ j" "?f * 2 ^ j < 2 ^ 53"
    using returns_ex [OF NormalizedExponent_correct [OF f f53, of e]] by auto
  define k where "k = EstimatePower (e - int j)"
  note sb = scaled_bounds [OF f f53 e(2,3) j(3,4,2) k_def]
  obtain s where s: "InitialScaledStartValues significand e closer k True new_start = Some s"
    "start_ok ?f e k (if closer then 4 else 2) 1 (if closer then 2 else 1) s"
    using returns_ex [OF InitialScaledStartValues_correct [OF refl f53 e(2,3) sb(3,4,5) start_weights_True]] by auto
  have "17 \<le> length buffer" using buf by simp
  from returns_ex [OF shortest_after_start [OF f f53 cl e(2,3) j(3,4,2) k_def s(2) this, of "even n"]]
  obtain point s2 buf l where d: "FixupMultiply10 k (even n) s = Some (point, s2)" "GenerateShortestDigits s2 (even n) buffer = Some (buf, l)"
    "length buf = length buffer" "l = length (take l buf)"
    "shortest_digits (even n) (real ?f * 2 powi e - (if closer then 2 powi (e - 2) else 2 powi (e - 1)))
      (real ?f * 2 powi e) (real ?f * 2 powi e + 2 powi (e - 1)) (take l buf) point"
    by (auto simp: bind_eq_Some_conv)
  have bounds: "real ?f * 2 powi e = rank_val p emin n" "rank_val p emin n + 2 powi (e - 1) = midpoint p emin n"
    "rank_val p emin n - (if closer then 2 powi (e - 2) else 2 powi (e - 1)) = midpoint p emin (n - 1)"
    unfolding midpoint_pred [OF n] closer e(1) sig by (simp_all add: rank_val_def midpoint_eq)
  have l: "l \<le> 17" using d(4,5) by (simp add: shortest_digits_def)
  show thesis
    by (rule that [OF j(1) s(1) [unfolded k_def] d(1) [unfolded k_def] d(2,3) l])
      (use d(3,5) l buf in \<open>simp_all add: vset_def bounds\<close>)
qed

lemma BignumDtoa_shortest:
  assumes v: "0 < unat v" "unat v < D_inf_rank" and buf: "18 \<le> length buffer"
  shows "returns (BignumDtoa v BIGNUM_DTOA_SHORTEST digits buffer) (\<lambda>(buf, l, point). length buf = length buffer \<and>
    l = length (take l buf) \<and> buf ! l = CHR 0x00 \<and>
    shortest_digits (even (unat v)) (midpoint 52 (-1074) (unat v - 1)) (D_val (unat v)) (midpoint 52 (-1074) (unat v)) (take l buf) point)"
proof -
  have e: "-1074 \<le> D_Exponent v" "D_Exponent v \<le> 971" using D_exponent_bounds [OF v(2)] by simp_all
  have ev: "D_Significand v AND 1 = 0 \<longleftrightarrow> even (unat v)" by (rule D_Significand_even [OF v(2)])
  show ?thesis
    by (rule shortest_of_rank [OF v(1) order_refl D_sig_rank [OF v(2)] D_expo_rank [OF v(2)] e D_closer_rank [OF v(2)] buf])
      (use v D_rank(2) [OF v(2)] buf in \<open>simp add: BignumDtoa_def wp Let_def D_positive_iff ev\<close>)
qed

section \<open>Reading the digits back\<close>

lemma Strtod_unique:
  assumes "list_all is_decimal s" "D_nearest (value_of s e) (unat v)" "decimal_ok s e"
  shows "Strtod s e = Some v"
proof -
  obtain d where d: "Strtod s e = Some d" "D_nearest (value_of s e) (unat d)"
    using Strtod_correct [OF assms(1,3)] by (auto elim: returnsE)
  from nearest_unique [OF d(2) assms(2)] have "d = v" by (simp add: word_unat_eq_iff)
  with d(1) show ?thesis by simp
qed

lemma shortest_digits_read:
  assumes "shortest_digits (even (unat v)) (midpoint 52 (-1074) (unat v - 1)) x (midpoint 52 (-1074) (unat v)) ds point"
    and "0 < unat v" "unat v < D_inf_rank"
  shows "Strtod ds (point - int (length ds)) = Some v"
proof (rule Strtod_unique)
  show "list_all is_decimal ds" using assms(1) by (simp add: shortest_digits_def)
  have "enclosed (even (unat v)) (midpoint 52 (-1074) (unat v - 1)) (midpoint 52 (-1074) (unat v)) (value_of ds (point - int (length ds)))"
    using assms(1) by (simp add: shortest_digits_def)
  then show near: "D_nearest (value_of ds (point - int (length ds))) (unat v)" using enclosed_nearest [OF assms(2,3)] by blast
  have ds: "list_all is_decimal ds" "hd ds \<noteq> CHR ''0''" "length ds \<le> 17" using assms(1) by (simp_all add: shortest_digits_def)
  from guess_limits [OF ds(1) _ near assms(2,3)] ds(2,3) show "decimal_ok ds (point - int (length ds))"
    by (simp add: decimal_ok_def in_int32_def)
qed

section \<open>Properties\<close>

text \<open>
  C16: \<open>BignumDtoa\<close> in the mode \<open>SHORTEST\<close> returns, for every positive finite double, at most 17 digits without a leading zero
  whose value lies between the boundaries of the double (which belong to it when its significand is even), such that
  no decimal number with fewer digits lies there and none with as many is closer to the double.
\<close>

theorem bignum_dtoa_is_shortest:
  assumes "0 < unat v" "unat v < D_inf_rank" "18 \<le> length buffer"
  shows "\<exists>buf l point. BignumDtoa v BIGNUM_DTOA_SHORTEST digits buffer = Some (buf, l, point) \<and>
    shortest_digits (even (unat v)) (midpoint 52 (-1074) (unat v - 1)) (D_val (unat v)) (midpoint 52 (-1074) (unat v)) (take l buf) point"
  using returns_ex [OF BignumDtoa_shortest [OF assms, of digits]] by auto

theorem bignum_dtoa_is_shortest_witness:
  "\<exists>buf l point. BignumDtoa 0x3FB999999999999A BIGNUM_DTOA_SHORTEST 0 (replicate 18 CHR ''x'') = Some (buf, l, point) \<and>
    shortest_digits (even (unat (0x3FB999999999999A :: double))) (midpoint 52 (-1074) (unat (0x3FB999999999999A :: double) - 1))
      (D_val (unat (0x3FB999999999999A :: double))) (midpoint 52 (-1074) (unat (0x3FB999999999999A :: double))) (take l buf) point"
  by (rule bignum_dtoa_is_shortest) simp_all

text \<open>
  C15: printing and parsing: \<open>Strtod\<close> reads the digits that \<open>BignumDtoa\<close> writes for a double back as exactly that double.
\<close>

theorem bignum_dtoa_strtod_round_trip:
  assumes "0 < unat v" "unat v < D_inf_rank" "18 \<le> length buffer"
  shows "\<exists>buf l point. BignumDtoa v BIGNUM_DTOA_SHORTEST digits buffer = Some (buf, l, point) \<and>
    Strtod (take l buf) (point - int l) = Some v"
proof -
  obtain buf l point where b: "BignumDtoa v BIGNUM_DTOA_SHORTEST digits buffer = Some (buf, l, point)" "l = length (take l buf)"
    "shortest_digits (even (unat v)) (midpoint 52 (-1074) (unat v - 1)) (D_val (unat v)) (midpoint 52 (-1074) (unat v)) (take l buf) point"
    using returns_ex [OF BignumDtoa_shortest [OF assms, of digits]] by auto
  from shortest_digits_read [OF b(3) assms(1,2)] b(1,2) show ?thesis by auto
qed

theorem bignum_dtoa_strtod_round_trip_witness:
  "\<exists>buf l point. BignumDtoa 1 BIGNUM_DTOA_SHORTEST 0 (replicate 18 CHR ''x'') = Some (buf, l, point) \<and>
    Strtod (take l buf) (point - int l) = Some 1"
  by (rule bignum_dtoa_strtod_round_trip) simp_all

end
