(* ===== verification/Dtoa_Counted.thy ===== *)
theory Dtoa_Counted
  imports Dtoa_Properties
begin

text \<open>
  \<open>GenerateCountedDigits\<close> and the modes of \<open>BignumDtoa\<close> that use it: a number of digits asked for, or digits up to a position
  after the point. Both round half up, with the carry through the digits already written.
\<close>

section \<open>Carrying in a buffer of digits\<close>

lemma text_digits_update:
  assumes "i < length s"
  shows "text_digits (s[i := c]) + char_digit (s ! i) * 10 ^ (length s - Suc i)
    = text_digits s + char_digit c * 10 ^ (length s - Suc i)"
proof -
  have "s = take i s @ s ! i # drop (Suc i) s" using assms by (rule id_take_nth_drop)
  then have s: "text_digits s = text_digits (take i s @ s ! i # drop (Suc i) s)" by (rule arg_cong)
  have "s[i := c] = take i s @ c # drop (Suc i) s" using assms by (rule upd_conv_take_nth_drop)
  then have c: "text_digits (s[i := c]) = text_digits (take i s @ c # drop (Suc i) s)" by (rule arg_cong)
  show ?thesis
    unfolding s c text_digits_append text_digits_simps length_Cons length_drop using assms by simp
qed

text \<open>All characters are digits, but the one at \<open>i\<close> may stand for ten.\<close>

definition carry_ok :: "string \<Rightarrow> nat \<Rightarrow> bool" where
  "carry_ok s i \<longleftrightarrow> i < length s \<and> (\<forall>j < length s. j \<noteq> i \<longrightarrow> is_decimal (s ! j)) \<and> (\<exists>q \<le> 10. s ! i = digit_char q)"

lemma carry_ok_decimal:
  assumes "carry_ok s i" "s ! i \<noteq> digit_char 10"
  shows "list_all is_decimal s"
proof -
  obtain q where "q \<le> 10" "s ! i = digit_char q" using assms(1) by (auto simp: carry_ok_def)
  with assms(2) have "is_decimal (s ! i)" by (cases "q = 10") auto
  with assms(1) show ?thesis by (auto simp: carry_ok_def list_all_length)
qed

lemma carry_step:
  assumes s: "carry_ok s (Suc i)" "s ! Suc i = digit_char 10"
  shows "carry_ok (s[Suc i := CHR ''0'', i := incr_char (s ! i)]) i"
    "text_digits (s[Suc i := CHR ''0'', i := incr_char (s ! i)]) = text_digits s"
proof -
  have i: "Suc i < length s" using s by (simp add: carry_ok_def)
  then have "is_decimal (s ! i)" using s by (simp add: carry_ok_def)
  then obtain q where q: "q \<le> 9" "s ! i = digit_char q" by (auto simp: is_decimal_iff)
  have zero: "is_decimal CHR ''0''" by (simp add: is_decimal_def)
  let ?s = "s[Suc i := CHR ''0'']" and ?p = "10 ^ (length s - Suc (Suc i)) :: nat"
  show "carry_ok (?s[i := incr_char (s ! i)]) i"
    using s i q zero by (auto simp: carry_ok_def nth_list_update intro!: exI [of _ "Suc q"])
  have p: "(10 :: nat) ^ (length s - Suc i) = 10 * ?p" using i by (simp flip: power_Suc add: Suc_diff_Suc)
  have "text_digits ?s + 10 * ?p = text_digits s" using text_digits_update [OF i, of "CHR ''0''"] s(2) by simp
  moreover have "text_digits (?s[i := incr_char (s ! i)]) + q * (10 * ?p) = text_digits ?s + Suc q * (10 * ?p)"
    using text_digits_update [of i ?s "incr_char (s ! i)"] i q p by simp
  ultimately show "text_digits (?s[i := incr_char (s ! i)]) = text_digits s" by simp
qed

lemma increment_last:
  assumes l: "0 < l" "l \<le> length buf" and dec: "list_all is_decimal (take l buf)"
  obtains b where "vincr buf (l - 1) = Some b" "length b = length buf" "carry_ok (take l b) (l - 1)"
    "text_digits (take l b) = text_digits (take l buf) + 1"
proof -
  define c where "c = l - 1"
  have lc: "l = Suc c" using l by (simp add: c_def)
  have cl: "c < length buf" using l(2) lc by simp
  have "is_decimal (buf ! c)" using dec cl unfolding lc by (simp add: take_Suc_conv_app_nth)
  then obtain q where q: "q \<le> 9" "buf ! c = digit_char q" by (auto simp: is_decimal_iff)
  define b where "b = buf[c := digit_char (Suc q)]"
  have b: "take l b = take c buf @ [digit_char (Suc q)]" "take l buf = take c buf @ [digit_char q]"
    using cl q(2) by (simp_all add: b_def lc take_Suc_conv_app_nth)
  have "text_digits (take l b) = text_digits (take l buf) + 1" unfolding b text_digits_append using q(1) by simp
  moreover have "list_all is_decimal (take c buf)" using dec unfolding b by simp
  then have "carry_ok (take l b) c"
    unfolding b carry_ok_def using cl q(1) by (auto simp: list_all_length nth_append intro!: exI [of _ "Suc q"])
  ultimately show thesis using cl q by (intro that [of b]) (simp_all add: c_def vincr_def vget_def vset_def b_def)
qed

section \<open>GenerateCountedDigits\<close>

definition round_half_up :: "nat \<Rightarrow> nat \<Rightarrow> nat" where
  "round_half_up n d = (2 * n + d) div (2 * d)"

lemma round_half_up_digit:
  assumes "0 < b" "x = q * b + r" "r < b"
  shows "round_half_up x b = (if b \<le> 2 * r then Suc q else q)"
proof -
  have eq: "2 * x + b = 2 * r + b + q * (2 * b)" using assms(2) by simp
  have "(2 * x + b) div (2 * b) = q + (2 * r + b) div (2 * b)" unfolding eq using assms(1) by (subst div_mult_self1) simp_all
  moreover have "(2 * r + b) div (2 * b) = (if b \<le> 2 * r then 1 else 0)"
  proof (cases "b \<le> 2 * r")
    case True
    then have "(2 * r + b) div (2 * b) = Suc 0" using assms(1,3) by (intro div_nat_eqI) simp_all
    with True show ?thesis by simp
  next
    case False
    then show ?thesis by (simp add: div_eq_0_iff)
  qed
  ultimately show ?thesis by (simp add: round_half_up_def)
qed

lemma round_half_up_le: "n < k * d \<Longrightarrow> round_half_up n d \<le> k"
proof -
  assume n: "n < k * d"
  then have d: "0 < d" by (cases d) simp_all
  have "Suc k * (2 * d) = 2 * (k * d) + 2 * d" by simp
  with n d have "2 * n + d < Suc k * (2 * d)" by linarith
  then show ?thesis unfolding round_half_up_def by (simp only: less_Suc_eq_le [symmetric] less_mult_imp_div_less)
qed

lemma counted_digits_loop:
  assumes num: "stands_for num a" "a < 10 * b" and den: "stands_for den b" "divisor_ok b" "10 * b < big_limit" and c: "c \<le> length buffer"
  shows "returns (for_up 0 c (\<lambda>i (buffer, num). do {
          (digit, num) \<leftarrow> DivideModuloIntBignum num den;
          check (digit \<le> 9);
          buffer \<leftarrow> vset buffer i (digit_char (unat digit));
          num \<leftarrow> Times10 num;
          Some (buffer, num) }) (buffer, num))
    (\<lambda>(buf, num). length buf = length buffer \<and> list_all is_decimal (take c buf) \<and>
      (\<exists>x < 10 * b. text_digits (take c buf) * (10 * b) + x = a * 10 ^ c \<and> stands_for num x))"
proof (rule returns_for_up [where I = "\<lambda>i (buf, num). length buf = length buffer \<and> list_all is_decimal (take i buf) \<and>
      (\<exists>x < 10 * b. text_digits (take i buf) * (10 * b) + x = a * 10 ^ i \<and> stands_for num x)"], goal_cases)
  case (3 i st)
  then obtain buf n x where st: "st = (buf, n)" "length buf = length buffer" "list_all is_decimal (take i buf)" "x < 10 * b"
    "text_digits (take i buf) * (10 * b) + x = a * 10 ^ i" "stands_for n x" by (cases st) auto
  have i: "i < length buf" using 3 c st(2) by simp
  have b0: "0 < b" using den(2) by (rule bigit.divisor_pos)
  have lim: "x < big_limit" using st(4) den(3) by simp
  show ?case
    unfolding st(1) prod.case
  proof (rule returns_bindI [OF bigit.next_digit [OF st(6) den(1,2) st(4) lim]], clarify, rule returns_checkI, assumption, goal_cases)
    case (1 q n')
    have q: "unat q \<le> 9" using 1 by (simp add: word_le_nat_alt)
    have r: "x mod b < big_limit" using lim by (rule le_less_trans [rotated]) simp
    let ?buf = "buf[i := digit_char (unat q)]"
    note wr = write_digit [OF i st(3) q]
    have "text_digits (take (Suc i) ?buf) * (10 * b) + 10 * (x mod b) = a * 10 ^ Suc i"
    proof -
      have "unat q * b + x mod b = x" using 1(1) by (simp add: mult.commute)
      then have "10 * (unat q * b + x mod b) = 10 * x" by simp
      then show ?thesis unfolding wr(2) power_Suc using st(5) by (simp add: algebra_simps)
    qed
    moreover have "10 * (x mod b) < 10 * b" using b0 by simp
    ultimately show ?case
      using i st(2) wr(3) 1(3) bigit.times10_law [OF 1(3) r]
      by (auto simp: wp vset_def elim!: returns_mono intro!: exI [of _ "10 * (x mod b)"])
  qed
qed (use num in auto)

lemma carry_loop:
  assumes "carry_ok (take c buf) i" "c \<le> length buf"
  shows "returns (while_loop
       (\<lambda>(buffer, i). if i > 0 then do { c \<leftarrow> vget buffer i; Some (c = digit_char 10) } else Some False)
       (\<lambda>(buffer, i). do {
          buffer \<leftarrow> vset buffer i CHR ''0'';
          buffer \<leftarrow> vincr buffer (i - 1);
          Some (buffer, i - 1) }) (buf, i))
    (\<lambda>(buf', j). length buf' = length buf \<and> text_digits (take c buf') = text_digits (take c buf) \<and> carry_ok (take c buf') j \<and>
      (j = 0 \<or> buf' ! j \<noteq> digit_char 10))"
proof (rule returns_while [where I = "\<lambda>(buf', j). length buf' = length buf \<and> text_digits (take c buf') = text_digits (take c buf) \<and>
      carry_ok (take c buf') j" and m = "\<lambda>(buf', j). j"], goal_cases)
  case 1
  show ?case using assms by simp
next
  case (2 st)
  then obtain buf' j where st: "st = (buf', j)" "length buf' = length buf" "text_digits (take c buf') = text_digits (take c buf)"
    "carry_ok (take c buf') j" by (cases st) auto
  have j: "j < c" "j < length buf'" using st assms(2) by (auto simp: carry_ok_def)
  show ?case
  proof (cases "0 < j \<and> buf' ! j = digit_char 10")
    case True
    then obtain i where i: "j = Suc i" by (cases j) auto
    have "take c buf' ! Suc i = digit_char 10" "take c buf' ! i = buf' ! i" using True i j by simp_all
    with carry_step [of "take c buf'" i] st(4)
    have "carry_ok (take c (buf'[Suc i := CHR ''0'', i := incr_char (buf' ! i)])) i"
      "text_digits (take c (buf'[Suc i := CHR ''0'', i := incr_char (buf' ! i)])) = text_digits (take c buf')"
      by (simp_all add: i take_update_swap)
    with True i j st show ?thesis by (simp add: wp)
  next
    case False
    with st j show ?thesis by (auto simp: wp)
  qed
qed

text \<open>The end of the carry: a first character that stands for ten becomes a one, with one digit more in front of the point.\<close>

lemma carry_end:
  assumes ok: "carry_ok (take c buf) j" "j = 0 \<or> buf ! j \<noteq> digit_char 10" and c: "0 < c" "c \<le> length buf"
    and le: "text_digits (take c buf) \<le> 10 ^ c"
  shows "buf ! 0 \<noteq> digit_char 10 \<Longrightarrow> list_all is_decimal (take c buf)"
    and "buf ! 0 = digit_char 10 \<Longrightarrow> list_all is_decimal (take c (buf[0 := CHR ''1''])) \<and>
      10 * text_digits (take c (buf[0 := CHR ''1''])) = text_digits (take c buf)"
proof -
  have zero: "take c buf ! 0 = buf ! 0" using c by simp
  show "list_all is_decimal (take c buf)" if "buf ! 0 \<noteq> digit_char 10"
  proof (rule carry_ok_decimal [OF ok(1)])
    show "take c buf ! j \<noteq> digit_char 10" using ok that zero by (auto simp: carry_ok_def)
  qed
  assume ten: "buf ! 0 = digit_char 10"
  have "j = 0"
  proof (rule ccontr)
    assume "j \<noteq> 0"
    then have "is_decimal (take c buf ! 0)" using ok(1) c by (auto simp: carry_ok_def)
    then show False using ten zero by (auto simp: is_decimal_iff digit_char_eq_iff)
  qed
  define t where "t = tl (take c buf)"
  have s: "take c buf = digit_char 10 # t" using ten c by (cases buf; cases c) (simp_all add: t_def)
  have lt: "length t = c - 1" using arg_cong [OF s, of length] c by simp
  have dt: "list_all is_decimal t"
  proof (unfold list_all_length, intro allI impI)
    fix i assume "i < length t"
    then show "is_decimal (t ! i)" using ok(1) \<open>j = 0\<close> unfolding s carry_ok_def by (auto dest: spec [of _ "Suc i"])
  qed
  have pow: "(10 :: nat) * 10 ^ (c - 1) = 10 ^ c" using c(1) by (simp flip: power_Suc)
  have t: "text_digits (take c buf) = 10 ^ c + text_digits t" unfolding s pow [symmetric] by (simp add: lt)
  with le have t0: "text_digits t = 0" by simp
  have "take c (buf[0 := CHR ''1'']) = CHR ''1'' # t" using s by (simp add: take_update_swap)
  then show "list_all is_decimal (take c (buf[0 := CHR ''1''])) \<and> 10 * text_digits (take c (buf[0 := CHR ''1''])) = text_digits (take c buf)"
    using dt t0 lt pow t by (simp add: is_decimal_def char_digit_def)
qed

lemma GenerateCountedDigits_correct:
  assumes num: "stands_for num a" "a < 10 * b" and den: "stands_for den b" "divisor_ok b" "10 * b < big_limit"
    and c: "0 < c" "c \<le> length buffer"
  shows "returns (GenerateCountedDigits (int c) point num den buffer) (\<lambda>(buf, l, point'). length buf = length buffer \<and> l = c \<and>
    list_all is_decimal (take c buf) \<and>
    (point' = point \<and> text_digits (take c buf) = round_half_up (a * 10 ^ (c - 1)) b \<or>
     point' = point + 1 \<and> 10 * text_digits (take c buf) = round_half_up (a * 10 ^ (c - 1)) b))"
proof -
  have c1: "c - 1 \<le> length buffer" "nat (int c - 1) = c - 1" "nat (int c) = c" using c by simp_all
  have b0: "0 < b" using den(2) by (rule bigit.divisor_pos)
  show ?thesis
    unfolding GenerateCountedDigits_def c1(2)
  proof (rule returns_checkI, simp, rule returns_bindI [OF counted_digits_loop [OF num den c1(1)]], clarify, goal_cases)
    case (1 buf n x)
    note b = 1
    have lim: "x < big_limit" using b(3) den(3) by simp
    show ?case
    proof (rule returns_bindI [OF bigit.next_digit [OF b(5) den(1,2) b(3) lim]], clarify, goal_cases)
      case (1 q r)
      obtain cmp where cmp: "PlusCompare r r den = Some cmp" "cmp < 0 \<longleftrightarrow> 2 * (x mod b) < b"
        by (rule bigit.half_compare [OF 1(3) den(1)])
      define Q where "Q = (if b \<le> 2 * (x mod b) then Suc (unat q) else unat q)"
      have q9: "unat q \<le> 9" using 1(2) by (simp add: word_le_nat_alt)
      have word: "unat (if cmp \<ge> 0 then q + 1 else q) = Q"
        using cmp(2) q9 by (auto simp: Q_def unat_add_small)
      have Q10: "Q \<le> 10" using q9 by (simp add: Q_def)
      have lt: "c - 1 < length buf" using c b(1) by simp
      let ?buf = "buf[c - 1 := digit_char Q]" and ?N = "round_half_up (a * 10 ^ (c - 1)) b"
      have tk: "take c ?buf = take (c - 1) buf @ [digit_char Q]"
        using lt c(1) take_Suc_conv_app_nth [of "c - 1" ?buf] by simp
      have "a * 10 ^ (c - 1) = (10 * text_digits (take (c - 1) buf) + unat q) * b + x mod b"
        using b(4) 1(1) div_mult_mod_eq [of x b] by (simp add: algebra_simps)
      from round_half_up_digit [OF b0 this] b0 have N: "text_digits (take c ?buf) = ?N"
        unfolding tk text_digits_append using Q10 by (simp add: Q_def)
      have ok: "carry_ok (take c ?buf) (c - 1)"
        using b(2) c lt Q10 unfolding tk carry_ok_def by (auto simp: list_all_length nth_append)
      have vs: "vset buf (c - 1) (digit_char Q) = Some ?buf" using lt by (simp add: vset_def)
      show ?case
        unfolding cmp(1) option_step Let_def word vs
      proof (rule returns_checkI, use word Q10 in \<open>simp add: word_le_nat_alt\<close>, rule returns_checkI, use c in simp,
          rule returns_bindI [OF carry_loop [OF ok]], use c b(1) in simp, clarify, goal_cases)
        case (1 buf' j)
        note r = 1
        have len: "0 < length buf'" using r(1) lt unfolding length_list_update by linarith
        have cl: "c \<le> length buf'" using r(1) c b(1) by simp
        have pow: "(10 :: nat) * 10 ^ (c - 1) = 10 ^ c" using c(1) by (simp flip: power_Suc)
        have "a * 10 ^ (c - 1) < 10 ^ c * b" using num(2) unfolding pow [symmetric] by simp
        then have "text_digits (take c buf') \<le> 10 ^ c" unfolding r(2) N by (rule round_half_up_le)
        note ends = carry_end [OF r(3,4) c(1) cl this]
        show ?case
        proof (cases "buf' ! 0 = digit_char 10")
          case True
          then show ?thesis using ends(2) len r(1,2) N c1(3) b(1) by (simp add: vget_def vset_def)
        next
          case False
          then show ?thesis using ends(1) len r(1,2) N c1 b(1) by (simp add: vget_def)
        qed
      qed
    qed
  qed
qed

end
