(* ===== verification/Dtoa_Modes.thy ===== *)
theory Dtoa_Modes
  imports Dtoa_Counted
begin

text \<open>
  The modes \<open>PRECISION\<close> and \<open>FIXED\<close> of \<open>BignumDtoa\<close>: the digits stand for the number rounded half up, to a number of
  significant digits or to a position after the point.
\<close>

section \<open>The start without boundaries\<close>

lemma five_power_gap: "(5 :: nat) ^ k < 2 ^ 52 \<or> 2 ^ 53 < (5 :: nat) ^ k"
proof (cases "k \<le> 22")
  case True
  then have "(5 :: nat) ^ k \<le> 5 ^ 22" by (intro power_increasing) simp_all
  also have "\<dots> < 2 ^ 52" by simp
  finally show ?thesis ..
next
  case False
  have "(2 :: nat) ^ 53 < 5 ^ 23" by simp
  also have "\<dots> \<le> 5 ^ k" using False by (intro power_increasing) simp_all
  finally show ?thesis ..
qed

lemma two_power_mod_5: "(2 :: nat) ^ n mod 5 \<in> {1, 2, 3, 4}"
proof (induction n)
  case (Suc n)
  have "(2 :: nat) ^ Suc n mod 5 = 2 * (2 ^ n mod 5) mod 5" by (simp add: mod_mult_right_eq)
  with Suc show ?case by auto
qed simp

text \<open>No double with an odd significand is a power of ten: the strict comparison of \<open>FixupMultiply10\<close> does no harm.\<close>

lemma odd_not_power_of_ten:
  assumes f: "odd f" "f < 2 ^ 53" "0 \<le> e \<Longrightarrow> 2 ^ 52 \<le> f" and k: "0 \<le> e \<Longrightarrow> 0 \<le> k"
  shows "f * scale_up k e \<noteq> scale_down k e"
proof
  assume eq: "f * scale_up k e = scale_down k e"
  consider (pos) "0 \<le> e" "0 \<le> k" | (mid) "e < 0" "0 \<le> k" | (neg) "e < 0" "k < 0" using k by linarith
  then show False
  proof cases
    case pos
    define i j where "i = nat e" and "j = nat k"
    have ij: "f * 2 ^ i = 2 ^ j * 5 ^ j"
      using eq pos by (simp add: scale_up_def scale_down_def i_def j_def flip: power_mult_distrib)
    consider "i < j" | "j < i" | "i = j" by linarith
    then show False
    proof cases
      case 1
      then have "(2 :: nat) ^ j = 2 ^ (j - i) * 2 ^ i" by (simp flip: power_add)
      with ij have "f = 2 ^ (j - i) * 5 ^ j" by simp
      with 1 f(1) show False by simp
    next
      case 2
      then have "(2 :: nat) ^ i = 2 ^ (i - j) * 2 ^ j" by (simp flip: power_add)
      with ij have "f * 2 ^ (i - j) = 5 ^ j" by simp
      moreover have "even (f * 2 ^ (i - j))" using 2 by simp
      ultimately show False by simp
    next
      case 3
      with ij have "f = 5 ^ j" by simp
      with five_power_gap [of j] f pos show False by linarith
    qed
  next
    case mid
    then have "f = 10 ^ nat k * 2 ^ nat (- e)" using eq by (simp add: scale_up_def scale_down_def)
    with mid f(1) show False by simp
  next
    case neg
    then have two: "f * 10 ^ nat (- k) = 2 ^ nat (- e)" using eq by (simp add: scale_up_def scale_down_def)
    have "5 dvd f * 10 ^ nat (- k)" using neg by (intro dvd_mult dvd_power_le [of 5 10 1 "nat (- k)", simplified]) simp_all
    then have "(5 :: nat) dvd 2 ^ nat (- e)" unfolding two .
    with two_power_mod_5 [of "nat (- e)"] show False by (simp only: dvd_eq_mod_eq_0) simp
  qed
qed

lemma counted_start:
  assumes f: "0 < f" "f < 2 ^ 53" "0 \<le> e \<Longrightarrow> 2 ^ 52 \<le> f" and e: "-1074 \<le> e" "e \<le> 971"
    and n: "2 ^ 52 \<le> f * 2 ^ j" "f * 2 ^ j < 2 ^ 53" "j < 53" and k: "k = EstimatePower (e - int j)" and s: "start_ok f e k 1 0 0 s"
  obtains point s2 a b where "FixupMultiply10 k (even f) s = Some (point, s2)"
    "stands_for (numerator s2) a" "stands_for (denominator s2) b" "divisor_ok b" "10 * b < big_limit" "b \<le> a" "a < 10 * b"
    "real f * 2 powi e = real a / real b * 10 powi (point - 1)" "point = k \<or> point = k + 1"
proof -
  define U D where "U = scale_up k e" and "D = scale_down k e"
  note sb = scaled_bounds [OF f(1,2) e n k, folded U_def D_def]
  note limits = scale_limits [OF sb(3,4) e, folded U_def D_def]
  have s': "stands_for (numerator s) (f * U)" "stands_for (denominator s) D" "stands_for (delta_minus s) 0" "stands_for (delta_plus s) 0"
    using s unfolding start_ok_def U_def D_def by simp_all
  have "f * U \<le> 2 ^ 53 * 2 ^ 2267" using f(2) limits(1) by (intro mult_le_mono) simp_all
  also have "\<dots> \<le> 2 ^ 2700" unfolding power_add [symmetric] by (rule power_increasing) simp_all
  finally have limN: "f * U < big_limit" by (rule below_big_limit)
  have "10 * D \<le> 2 ^ 4 * 2 ^ 2310" using limits(2) by (intro mult_le_mono) simp_all
  also have "\<dots> \<le> 2 ^ 2700" unfolding power_add [symmetric] by (rule power_increasing) simp_all
  finally have limD: "10 * D < big_limit" by (rule below_big_limit)
  have zero: "0 < big_limit" using limD by simp
  have okD: "divisor_ok D" using divisor_scale_down [of 1 k e] sb(4) by (simp add: D_def)
  define R where "R \<longleftrightarrow> (if even f then D \<le> f * U else D < f * U)"
  have R: "R \<longleftrightarrow> D \<le> f * U"
    using odd_not_power_of_ten [of f e k, folded U_def D_def] f sb(5) by (auto simp: R_def order_le_less)
  from returns_ex [OF FixupMultiply10_correct [OF s' limN zero zero, of k "even f", unfolded add_0_right, folded R_def]]
  obtain point s2 t where fx: "FixupMultiply10 k (even f) s = Some (point, s2)" "t = (if R then 1 else 10)"
    "point = (if t = 1 then k + 1 else k)" "stands_for (numerator s2) (t * (f * U))" "stands_for (denominator s2) D" by blast
  have D0: "real D \<noteq> 0" using limits(4) by simp
  have "real f * 2 powi e / 10 powi k = real (f * U) / real D" unfolding U_def D_def by (rule scale_ratio)
  then have "real f * 2 powi e = real (f * U) / real D * 10 powi k" by (simp add: field_simps)
  also have "\<dots> = real (t * (f * U)) / real D * 10 powi (point - 1)" by (simp add: fx(2,3) power_int_diff power_int_add)
  finally have v: "real f * 2 powi e = real (t * (f * U)) / real D * 10 powi (point - 1)" .
  have "D \<le> t * (f * U)" "t * (f * U) < 10 * D"
    unfolding fx(2) using sb(1,2) R by (cases R; simp only: if_True if_False mult_1; linarith)+
  then show ?thesis using that [OF fx(1,4,5) okD limD _ _ v] fx(3) by presburger
qed

section \<open>Rounded values\<close>

lemma round_half_up_floor: "0 < d \<Longrightarrow> \<lfloor>real n / real d + 1 / 2\<rfloor> = int (round_half_up n d)"
proof -
  assume "0 < d"
  then have "real n / real d + 1 / 2 = real (2 * n + d) / real (2 * d)" by (simp add: field_simps)
  then show ?thesis unfolding round_half_up_def by (simp only: floor_divide_of_nat_eq)
qed

lemma counted_value:
  assumes c: "0 < c" "length ds = c" and b: "0 < b" and v: "v = real a / real b * 10 powi (point - 1)"
    and ds: "point' = point \<and> text_digits ds = round_half_up (a * 10 ^ (c - 1)) b \<or>
      point' = point + 1 \<and> 10 * text_digits ds = round_half_up (a * 10 ^ (c - 1)) b"
  shows "value_of ds (point' - int c) = \<lfloor>v * 10 powi (int c - point) + 1 / 2\<rfloor> * 10 powi (point - int c)"
proof -
  have "int c - point = int (c - 1) - (point - 1)" using c by simp
  then have "(10 :: real) powi (int c - point) = 10 powi (int (c - 1) - (point - 1))" by (rule arg_cong)
  also have "\<dots> = 10 powi int (c - 1) / 10 powi (point - 1)" by (rule power_int_diff) simp
  finally have e: "10 powi (int c - point) = (10 :: real) ^ (c - 1) / 10 powi (point - 1)" by (simp only: power_int_of_nat)
  have "x * P * (T / P) = x * T" if "P \<noteq> 0" for x P T :: real using that by simp
  from this [of "10 powi (point - 1)" "real a / real b" "10 ^ (c - 1)"]
  have "v * 10 powi (int c - point) = real (a * 10 ^ (c - 1)) / real b" unfolding v e by simp
  then have N: "real_of_int \<lfloor>v * 10 powi (int c - point) + 1 / 2\<rfloor> = real (round_half_up (a * 10 ^ (c - 1)) b)"
    using round_half_up_floor [OF b, of "a * 10 ^ (c - 1)"] by simp
  show ?thesis using ds
  proof (elim disjE conjE)
    assume p: "point' = point + 1" and d: "10 * text_digits ds = round_half_up (a * 10 ^ (c - 1)) b"
    have "10 powi (point' - int c) = (10 :: real) * 10 powi (point - int c)" unfolding p by (simp add: power_int_add power_int_diff)
    then show ?thesis unfolding N d [symmetric] value_of_def by simp
  qed (simp add: N value_of_def)
qed

section \<open>The two modes\<close>

lemma counted_setup:
  assumes v: "0 < unat v" "unat v < D_inf_rank"
  obtains j k s point s2 a b where "NormalizedExponent (D_Significand v) (D_Exponent v) = Some (D_Exponent v - int j)"
    "EstimatePower (D_Exponent v - int j) = k" "-324 \<le> k" "k \<le> 309"
    "InitialScaledStartValues (D_Significand v) (D_Exponent v) (D_LowerBoundaryIsCloser v) k False new_start = Some s"
    "FixupMultiply10 k (even (unat v)) s = Some (point, s2)"
    "stands_for (numerator s2) a" "stands_for (denominator s2) b" "divisor_ok b" "10 * b < big_limit" "b \<le> a" "a < 10 * b"
    "D_val (unat v) = real a / real b * 10 powi (point - 1)" "point = k \<or> point = k + 1" "D_val (unat v) < 4 * 10 powi k"
proof -
  let ?f = "unat (D_Significand v)" and ?e = "D_Exponent v"
  have f: "0 < ?f" "?f < 2 ^ 53" using D_significand_pos [OF v] double.sig_less [OF v(2)] by simp_all
  have f52: "2 ^ 52 \<le> ?f" if "0 \<le> ?e"
    using that D_expo_rank [OF v(2)] D_sig_rank [OF v(2)] by (auto simp: rank_exp_def rank_sig_def split: if_splits)
  have e: "-1074 \<le> ?e" "?e \<le> 971" using D_exponent_bounds [OF v(2)] by simp_all
  obtain j where j: "NormalizedExponent (D_Significand v) ?e = Some (?e - int j)" "j < 53" "2 ^ 52 \<le> ?f * 2 ^ j" "?f * 2 ^ j < 2 ^ 53"
    using returns_ex [OF NormalizedExponent_correct [OF f, of ?e]] by auto
  define k where "k = EstimatePower (?e - int j)"
  note sb = scaled_bounds [OF f e j(3,4,2) k_def]
  have w: "start_weights False c = (1, 0, 0)" for c by (simp add: start_weights_def)
  obtain s where s: "InitialScaledStartValues (D_Significand v) ?e (D_LowerBoundaryIsCloser v) k False new_start = Some s"
    "start_ok ?f ?e k 1 0 0 s"
    using returns_ex [OF InitialScaledStartValues_correct [OF refl f(2) e sb(3,4,5) w]] by auto
  have ev: "even ?f \<longleftrightarrow> even (unat v)"
    unfolding D_sig_rank [OF v(2)] by (auto simp: rank_sig_def dvd_mod_iff simp del: power_numeral)
  have val: "real ?f * 2 powi ?e = D_val (unat v)" by (rule double.val_rank [OF v(2)])
  have "real (2 * (?f * scale_up k ?e)) < real (8 * scale_down k ?e)" using sb(2) by (simp only: of_nat_less_iff)
  then have "real (?f * scale_up k ?e) / real (scale_down k ?e) < 4" using scale_limits(4) [OF sb(3,4) e] by (simp add: field_simps)
  then have "D_val (unat v) / 10 powi k < 4" unfolding val [symmetric] scale_ratio .
  then have lt: "D_val (unat v) < 4 * 10 powi k" by (simp add: field_simps)
  show ?thesis
  proof (rule counted_start [OF f _ e j(3,4,2) k_def s(2)], goal_cases)
    case 1
    then show ?case by (rule f52)
  next
    case (2 point s2 a b)
    show ?case by (rule that [OF j(1) k_def [symmetric] sb(3,4) s(1) 2(1) [unfolded ev] 2(2-7) 2(8) [unfolded val] 2(9) lt])
  qed
qed

lemma decimal_range:
  assumes "0 < b" "b \<le> a" "a < 10 * b" and v: "v = real a / real b * 10 powi (point - 1)"
  shows "10 powi (point - 1) \<le> v" and "v < 10 powi point"
proof -
  have "real b \<le> real a" "real a < real (10 * b)" using assms(2,3) by (simp_all only: of_nat_le_iff of_nat_less_iff)
  then have r: "1 \<le> real a / real b" "real a / real b < 10" using assms(1) by (simp_all add: field_simps)
  have p: "0 < (10 :: real) powi (point - 1)" by simp
  show "10 powi (point - 1) \<le> v" using mult_right_mono [OF r(1), of "10 powi (point - 1)"] p unfolding v by simp
  have "10 powi point = (10 :: real) * 10 powi (point - 1)" by (simp add: power_int_diff)
  then show "v < 10 powi point" using mult_strict_right_mono [OF r(2) p] unfolding v by simp
qed

lemma BignumDtoa_precision:
  assumes v: "0 < unat v" "unat v < D_inf_rank" and c: "0 < c" "c < length buffer"
  shows "returns (BignumDtoa v BIGNUM_DTOA_PRECISION (int c) buffer) (\<lambda>(buf, l, point). length buf = length buffer \<and> l = c \<and>
    list_all is_decimal (take c buf) \<and> buf ! c = CHR 0x00 \<and>
    (\<exists>k. 10 powi (k - 1) \<le> D_val (unat v) \<and> D_val (unat v) < 10 powi k \<and>
      value_of (take c buf) (point - int c) = \<lfloor>D_val (unat v) * 10 powi (int c - k) + 1 / 2\<rfloor> * 10 powi (k - int c)))"
proof (rule counted_setup [OF v], goal_cases)
  case (1 j k s point s2 a b)
  have ev: "D_Significand v AND 1 = 0 \<longleftrightarrow> even (unat v)" by (rule D_Significand_even [OF v(2)])
  have b0: "0 < b" using 1(9) by (rule bigit.divisor_pos)
  obtain buf point' where g: "GenerateCountedDigits (int c) point (numerator s2) (denominator s2) buffer = Some (buf, c, point')"
    "length buf = length buffer" "list_all is_decimal (take c buf)"
    "point' = point \<and> text_digits (take c buf) = round_half_up (a * 10 ^ (c - 1)) b \<or>
     point' = point + 1 \<and> 10 * text_digits (take c buf) = round_half_up (a * 10 ^ (c - 1)) b"
    using returns_ex [OF GenerateCountedDigits_correct [OF 1(7,12,8,9,10) c(1), of buffer point]] c(2) by auto
  have len: "length (take c buf) = c" using g(2) c by simp
  note val = counted_value [OF c(1) len b0 1(13) g(4)]
  note range = decimal_range [OF b0 1(11,12,13)]
  have w: "vset buf c (CHR 0x00) = Some (buf[c := CHR 0x00])" using g(2) c by (simp add: vset_def)
  show ?case
    using v D_rank(2) [OF v(2)] g val range w c unfolding BignumDtoa_def
    by (auto simp: wp Let_def D_positive_iff ev 1 intro!: exI [of _ point])
qed


lemma below_half_rounds_to_0:
  fixes x r :: real and k n :: int
  assumes "0 \<le> x" "x < 4 * 10 powi k" "k + n < 0"
  shows "\<lfloor>x * 10 powi n + 1 / 2\<rfloor> = 0"
proof -
  have "x * 10 powi n < 4 * 10 powi k * 10 powi n" using assms(2) by (intro mult_strict_right_mono) simp_all
  also have "\<dots> = 4 * 10 powi (k + n)" by (simp add: power_int_add)
  also have "\<dots> \<le> 4 * 10 powi (-1)" using assms(3) by (intro mult_left_mono power_int_increasing) simp_all
  also have "\<dots> < 1 / 2" by (simp add: power_int_minus)
  finally have "x * 10 powi n < 1 / 2" .
  moreover have "0 \<le> x * 10 powi n" using assms(1) by simp
  ultimately show ?thesis unfolding floor_eq_iff by simp
qed

lemma one_char: "is_decimal CHR ''1''" "char_digit CHR ''1'' = 1"
  by (simp_all add: is_decimal_def char_digit_def)

lemma BignumToFixed_correct:
  assumes num: "stands_for num a" "b \<le> a" "a < 10 * b" and den: "stands_for den b" "divisor_ok b" "10 * b < big_limit"
    and v: "v = real a / real b * 10 powi (point - 1)" and buf: "0 < length buffer" "point + r \<le> int (length buffer)"
  shows "returns (BignumToFixed r point num den buffer) (\<lambda>(buf, l, point'). length buf = length buffer \<and>
    int l \<le> max 1 (point + r) \<and> list_all is_decimal (take l buf) \<and> (l = 0 \<longrightarrow> point' = - r) \<and> int l \<le> point' + r \<and> (0 < l \<longrightarrow> point' \<le> point + 1) \<and>
    value_of (take l buf) (point' - int l) = \<lfloor>v * 10 powi r + 1 / 2\<rfloor> * 10 powi (- r))"
proof -
  have b0: "0 < b" using den(2) by (rule bigit.divisor_pos)
  note range = decimal_range [OF b0 num(2,3) v]
  have v0: "0 \<le> v" by (simp add: v)
  consider (zero) "r < - point" | (one) "- point = r" | (many) "- point < r" by linarith
  then show ?thesis
  proof cases
    case zero
    have "v < 4 * 10 powi point" using range(2) by (rule less_le_trans) simp
    from below_half_rounds_to_0 [OF v0 this] zero have "\<lfloor>v * 10 powi r + 1 / 2\<rfloor> = 0" by simp
    then show ?thesis using zero by (simp add: BignumToFixed_def wp value_of_def text_digits_def)
  next
    case one
    have "v * 10 powi r = real a / real (10 * b) * (10 powi point * 10 powi r)" unfolding v by (simp add: power_int_diff)
    also have "10 powi point * (10 :: real) powi r = 1" using one by (auto simp flip: power_int_add)
    finally have "\<lfloor>v * 10 powi r + 1 / 2\<rfloor> = int (round_half_up a (10 * b))"
      using round_half_up_floor [of "10 * b" a] b0 by simp
    moreover have "round_half_up a (10 * b) = (if 10 * b \<le> 2 * a then Suc 0 else 0)"
      using b0 num(3) by (intro round_half_up_digit) simp_all
    ultimately have fl: "\<lfloor>v * 10 powi r + 1 / 2\<rfloor> = (if 10 * b \<le> 2 * a then 1 else 0)" by simp
    obtain d where d: "Times10 den = Some d" "stands_for d (10 * b)"
      using returns_ex [OF bigit.times10_law [OF den(1)]] den(3) by auto
    obtain c where c: "PlusCompare num num d = Some c" "c < 0 \<longleftrightarrow> 2 * a < 10 * b"
      by (rule bigit.half_compare [OF num(1) d(2)])
    have "0 \<le> c \<longleftrightarrow> 10 * b \<le> 2 * a" using c(2) by linarith
    then show ?thesis unfolding fl using one d(1) c(1) buf(1)
      by (cases buffer) (auto simp: BignumToFixed_def wp vset_def one_char value_of_def text_digits_def)
  next
    case many
    define c where "c = nat (point + r)"
    have c: "0 < c" "int c = point + r" "c \<le> length buffer" using many buf by (simp_all add: c_def nat_le_iff)
    obtain buf point' where g: "GenerateCountedDigits (int c) point num den buffer = Some (buf, c, point')"
      "length buf = length buffer" "list_all is_decimal (take c buf)"
      "point' = point \<and> text_digits (take c buf) = round_half_up (a * 10 ^ (c - 1)) b \<or>
       point' = point + 1 \<and> 10 * text_digits (take c buf) = round_half_up (a * 10 ^ (c - 1)) b"
      using returns_ex [OF GenerateCountedDigits_correct [OF num(1,3) den c(1,3), of point]] by auto
    have len: "length (take c buf) = c" using g(2) c by simp
    note val = counted_value [OF c(1) len b0 v g(4)]
    have "int c - point = r" "point - int c = - r" using c(2) by simp_all
    note val = val [unfolded this]
    have "int c \<le> point' + r" "point' \<le> point + 1" using g(4) c(2) by auto
    then show ?thesis using many c(1) val g(2,3) unfolding BignumToFixed_def c(2) [symmetric] g(1)
      by (simp add: wp)
  qed
qed

text \<open>The buffer has to hold the digits of the integer part, of which there are at most \<open>n\<close>, the requested ones and the end.\<close>

lemma BignumDtoa_fixed:
  assumes v: "0 < unat v" "unat v < D_inf_rank" and n: "D_val (unat v) < 10 powi n" and r: "0 \<le> r" "1 < int (length buffer)" "n + r < int (length buffer)"
  shows "returns (BignumDtoa v BIGNUM_DTOA_FIXED r buffer) (\<lambda>(buf, l, point). length buf = length buffer \<and> l < length buffer \<and>
    list_all is_decimal (take l buf) \<and> buf ! l = CHR 0x00 \<and> (l = 0 \<longrightarrow> point = - r) \<and> int l \<le> point + r \<and> (0 < l \<longrightarrow> point \<le> n + 1) \<and>
    value_of (take l buf) (point - int l) = \<lfloor>D_val (unat v) * 10 powi r + 1 / 2\<rfloor> * 10 powi (- r))"
proof (rule counted_setup [OF v], goal_cases)
  case (1 j k s point s2 a b)
  have ev: "D_Significand v AND 1 = 0 \<longleftrightarrow> even (unat v)" by (rule D_Significand_even [OF v(2)])
  have v0: "0 \<le> D_val (unat v)" using 1(13) by simp
  have b0: "0 < length buffer" "vset buffer 0 (CHR 0x00) = Some (buffer[0 := CHR 0x00])" using r by (auto simp: vset_def)
  show ?case
  proof (cases "- k - 1 > r")
    case True
    then have "\<lfloor>D_val (unat v) * 10 powi r + 1 / 2\<rfloor> = 0" by (intro below_half_rounds_to_0 [OF v0 1(15)]) simp
    then show ?thesis using v D_rank(2) [OF v(2)] True b0 unfolding BignumDtoa_def
      by (simp add: wp Let_def D_positive_iff ev 1(1,2) value_of_def text_digits_def)
  next
    case False
    have pn: "point - 1 < n"
    proof (rule ccontr)
      assume "\<not> point - 1 < n"
      then have "(10 :: real) powi n \<le> 10 powi (point - 1)" by (intro power_int_increasing) simp_all
      also have "\<dots> \<le> D_val (unat v)" by (rule decimal_range(1) [OF bigit.divisor_pos [OF 1(9)] 1(11,12,13)])
      finally show False using n by simp
    qed
    then have pt: "point + r \<le> int (length buffer)" "point + r < int (length buffer)" using r(3) by linarith+
    obtain buf l point' where g: "BignumToFixed r point (numerator s2) (denominator s2) buffer = Some (buf, l, point')"
      "length buf = length buffer" "int l \<le> max 1 (point + r)" "list_all is_decimal (take l buf)" "l = 0 \<longrightarrow> point' = - r" "int l \<le> point' + r" "0 < l \<longrightarrow> point' \<le> point + 1"
      "value_of (take l buf) (point' - int l) = \<lfloor>D_val (unat v) * 10 powi r + 1 / 2\<rfloor> * 10 powi (- r)"
      using returns_ex [OF BignumToFixed_correct [OF 1(7,11,12,8,9,10,13) b0(1) pt(1)]] by auto
    have l: "l < length buffer" using g(3) pt(2) r by linarith
    then have w: "vset buf l (CHR 0x00) = Some (buf[l := CHR 0x00])" using g(2) by (simp add: vset_def)
    have "0 < l \<longrightarrow> point' \<le> n + 1" using g(7) pn by auto
    then show ?thesis using v D_rank(2) [OF v(2)] False g l w unfolding BignumDtoa_def
      by (simp add: wp Let_def D_positive_iff ev 1)
  qed
qed

lemma D_val_less_powi: "unat v < D_inf_rank \<Longrightarrow> D_val (unat v) < 10 powi 309" for v :: double
proof -
  assume v: "unat v < D_inf_rank"
  show ?thesis
  proof (rule ccontr)
    assume "\<not> D_val (unat v) < 10 powi 309"
    then have "D_nearest (D_val (unat v)) D_inf_rank" by (intro nearest_infinity) (rule leI)
    from nearest_unique [OF this nearest_rank_val [OF v]] v show False by simp
  qed
qed

section \<open>Properties\<close>

text \<open>
  C21: \<open>BignumDtoa\<close> in the mode \<open>PRECISION\<close> with \<open>c\<close> requested digits returns exactly \<open>c\<close> digits, and they stand for
  the double rounded half up at its \<open>c\<close>-th significant digit (\<open>k\<close> is the position of its decimal point).
\<close>

theorem bignum_dtoa_precision_rounds:
  assumes "0 < unat v" "unat v < D_inf_rank" "0 < c" "c < length buffer"
  shows "\<exists>buf point k. BignumDtoa v BIGNUM_DTOA_PRECISION (int c) buffer = Some (buf, c, point) \<and>
    list_all is_decimal (take c buf) \<and> buf ! c = CHR 0x00 \<and>
    10 powi (k - 1) \<le> D_val (unat v) \<and> D_val (unat v) < 10 powi k \<and>
    value_of (take c buf) (point - int c) = \<lfloor>D_val (unat v) * 10 powi (int c - k) + 1 / 2\<rfloor> * 10 powi (k - int c)"
  using returns_ex [OF BignumDtoa_precision [OF assms]] by auto

theorem bignum_dtoa_precision_rounds_witness:
  "\<exists>buf point k. BignumDtoa 0x3FB999999999999A BIGNUM_DTOA_PRECISION (int 20) (replicate 21 CHR ''x'') = Some (buf, 20, point) \<and>
    list_all is_decimal (take 20 buf) \<and> buf ! 20 = CHR 0x00 \<and>
    10 powi (k - 1) \<le> D_val (unat (0x3FB999999999999A :: double)) \<and> D_val (unat (0x3FB999999999999A :: double)) < 10 powi k \<and>
    value_of (take 20 buf) (point - int 20) =
      \<lfloor>D_val (unat (0x3FB999999999999A :: double)) * 10 powi (int 20 - k) + 1 / 2\<rfloor> * 10 powi (k - int 20)"
  by (rule bignum_dtoa_precision_rounds) simp_all

text \<open>
  C22: \<open>BignumDtoa\<close> in the mode \<open>FIXED\<close> with \<open>r\<close> requested digits after the point: the digits stand for the double rounded
  half up to a multiple of \<open>10 ^ -r\<close>; where this is zero, no digits are written and the point is at \<open>-r\<close>. For the double next
  to \<open>0.15\<close> and two digits these stand for \<open>0.15\<close>, while the comment in \<open>bignum-dtoa.h\<close> says that the call returns the digits \<open>2\<close>
  with the point at 0.
\<close>

theorem bignum_dtoa_fixed_rounds:
  assumes "0 < unat v" "unat v < D_inf_rank" "0 \<le> r" "r + 311 \<le> int (length buffer)"
  shows "\<exists>buf l point. BignumDtoa v BIGNUM_DTOA_FIXED r buffer = Some (buf, l, point) \<and> l < length buffer \<and>
    list_all is_decimal (take l buf) \<and> buf ! l = CHR 0x00 \<and> (l = 0 \<longrightarrow> point = - r) \<and>
    value_of (take l buf) (point - int l) = \<lfloor>D_val (unat v) * 10 powi r + 1 / 2\<rfloor> * 10 powi (- r)"
  using returns_ex [OF BignumDtoa_fixed [OF assms(1,2) D_val_less_powi [OF assms(2)] assms(3), of buffer]] assms(3,4) by auto

text \<open>The double next to \<open>0.15\<close>, with two digits.\<close>

theorem bignum_dtoa_fixed_rounds_witness:
  "\<exists>buf l point. BignumDtoa 0x3FC3333333333333 BIGNUM_DTOA_FIXED 2 (replicate 331 CHR ''x'') = Some (buf, l, point) \<and>
    l < 331 \<and> list_all is_decimal (take l buf) \<and> buf ! l = CHR 0x00 \<and> value_of (take l buf) (point - int l) = 15 / 100"
proof -
  let ?v = "0x3FC3333333333333 :: double"
  have v: "\<lfloor>D_val (unat ?v) * 10 powi 2 + 1 / 2\<rfloor> = 15" by (simp add: rank_val_def rank_sig_def rank_exp_def power_int_minus)
  show ?thesis using bignum_dtoa_fixed_rounds [of ?v 2 "replicate 331 CHR ''x''"] unfolding v by (auto simp: power_int_minus)
qed

end
