(* ===== verification/Fixed_Digits.thy ===== *)
theory Fixed_Digits
  imports FixedDtoa Dtoa_Modes
begin

text \<open>
  The digits that \<open>FastFixedDtoa\<close> writes for integers: with a fixed length from the last digit to the first, and without leading
  zeros in reverse order, followed by an exchange in place.
\<close>

section \<open>A buffer with digits\<close>

definition filled :: "nat \<Rightarrow> nat \<Rightarrow> nat \<Rightarrow> string \<times> nat \<Rightarrow> bool" where
  "filled N l x = (\<lambda>(buf, len). length buf = N \<and> len = l \<and> l \<le> N \<and> list_all is_decimal (take l buf) \<and> text_digits (take l buf) = x)"

lemma filled_append:
  assumes "filled N l x (buf, l)" and b: "length b = N" "take l b = take l buf" "l + d \<le> N"
    and w: "take d (drop l b) = w" "list_all is_decimal w"
  shows "filled N (l + d) (x * 10 ^ d + text_digits w) (b, l + d)"
proof -
  have "take (l + d) b = take l b @ take d (drop l b)" by (rule take_add)
  moreover have "length w = d" using w(1) b(1,3) by auto
  ultimately show ?thesis using assms by (auto simp: filled_def text_digits_append)
qed

lemma mod_next_digit: "n mod 10 ^ Suc j = n div 10 ^ j mod 10 * 10 ^ j + n mod 10 ^ j" for n :: nat
  using mod_mult2_eq [of n "10 ^ j" 10] by (simp add: mult.commute)

lemma div_next_digit: "n div 10 ^ j div 10 = n div 10 ^ Suc j" for n :: nat
  unfolding power_Suc2 by (rule div_mult2_eq [symmetric])

lemma unat_digit_less: "unat (n mod 10) \<le> 9" for n :: "32 word"
  using unat_mod_distrib [of n 10] by (simp add: less_Suc_eq_le [symmetric])

section \<open>A fixed length\<close>

lemma FillDigits32FixedLength_correct:
  assumes s: "filled N l x s" and k: "l + k \<le> N" "unat n < 10 ^ k"
  shows "returns (FillDigits32FixedLength n k s) (filled N (l + k) (x * 10 ^ k + unat n))"
proof -
  obtain buf where buf: "s = (buf, l)" "length buf = N" using s by (cases s) (auto simp: filled_def)
  define W where "W i b = take (k - i) (drop (l + i) b)" for i and b :: string
  define I where "I i st = (case st of (b, m) \<Rightarrow> length b = N \<and> take l b = take l buf \<and> unat (m :: uint32) = unat n div 10 ^ (k - i) \<and>
      list_all is_decimal (W i b) \<and> text_digits (W i b) = unat n mod 10 ^ (k - i))" for i st
  have step: "returns (case st of (b, m) \<Rightarrow> do {
        b \<leftarrow> vset b (l + i) (digit_char (unat (m mod 10)));
        Some (b, m div 10) }) (I i)" if i: "i < k" and st: "I (Suc i) st" for i st
  proof -
    obtain b m where b: "st = (b, m)" "length b = N" "take l b = take l buf" "unat m = unat n div 10 ^ (k - Suc i)"
      "list_all is_decimal (W (Suc i) b)" "text_digits (W (Suc i) b) = unat n mod 10 ^ (k - Suc i)" using st by (cases st) (auto simp: I_def)
    let ?c = "digit_char (unat (m mod 10))" and ?j = "k - Suc i"
    have j: "k - i = Suc ?j" using i by simp
    have lt: "l + i < length b" using i b(2) k(1) by simp
    have m: "unat (m mod 10) = unat m mod 10" "unat (m div 10) = unat m div 10" by (simp_all add: unat_mod unat_div)
    have w: "W i (b[l + i := ?c]) = ?c # W (Suc i) b"
      unfolding W_def j using lt by (subst Cons_nth_drop_Suc [symmetric]) (simp_all add: drop_update_cancel)
    have len: "length (W (Suc i) b) = ?j" using b(2) k(1) i by (simp add: W_def)
    have "unat (m mod 10) \<le> 9" by (rule unat_digit_less)
    then have "text_digits (W i (b[l + i := ?c])) = unat n mod 10 ^ Suc ?j" "list_all is_decimal (W i (b[l + i := ?c]))"
      unfolding w mod_next_digit using b(4-6) len m(1) by simp_all
    moreover have "unat (m div 10) = unat n div 10 ^ Suc ?j" unfolding m(2) b(4) by (rule div_next_digit)
    ultimately show ?thesis using lt b(2,3) unfolding b(1) I_def j by (simp add: wp)
  qed
  have "returns (for_down k 0 (\<lambda>i (b, m). do {
          b \<leftarrow> vset b (l + i) (digit_char (unat (m mod 10)));
          Some (b, m div 10) }) (buf, n)) (I 0)"
    by (rule returns_for_down [where I = I]) (use step buf k in \<open>auto simp: I_def W_def\<close>)
  then show ?thesis unfolding FillDigits32FixedLength_def buf(1)
  proof (simp only: prod.case, rule_tac returns_bindI, assumption, goal_cases)
    case (1 st)
    then obtain b m where b: "st = (b, m)" "length b = N" "take l b = take l buf" "list_all is_decimal (W 0 b)" "text_digits (W 0 b) = unat n"
      using k(2) by (cases st) (auto simp: I_def)
    have "filled N (l + k) (x * 10 ^ k + text_digits (W 0 b)) (b, l + k)"
      by (rule filled_append [where buf = buf]) (use s buf b k in \<open>simp_all add: W_def\<close>)
    then show ?case using b by simp
  qed
qed

section \<open>Without leading zeros\<close>

lemma reversed_digits_loop:
  assumes b: "length buf = N" "l + k \<le> N" "unat n < 10 ^ k"
  shows "returns (while_loop (\<lambda>(b, m, j). Some (m \<noteq> 0))
      (\<lambda>(b, m, j). do {
         let digit = m mod 10;
         b \<leftarrow> vset b (l + j) (digit_char (unat digit));
         Some (b, m div 10, j + 1) }) (buf, n, 0))
    (\<lambda>(b, m :: uint32, j). length b = N \<and> take l b = take l buf \<and> j \<le> k \<and>
      list_all is_decimal (take j (drop l b)) \<and> text_digits (rev (take j (drop l b))) = unat n)"
proof (rule returns_while [where m = "\<lambda>(b, m, j). unat m" and I = "\<lambda>(b, m :: uint32, j). length b = N \<and> take l b = take l buf \<and> j \<le> k \<and>
      unat m = unat n div 10 ^ j \<and> list_all is_decimal (take j (drop l b)) \<and> text_digits (rev (take j (drop l b))) = unat n mod 10 ^ j"], goal_cases)
  case (2 st)
  then obtain b m j where st: "st = (b, m, j)" "length b = N" "take l b = take l buf" "j \<le> k" "unat m = unat n div 10 ^ j"
    "list_all is_decimal (take j (drop l b))" "text_digits (rev (take j (drop l b))) = unat n mod 10 ^ j" by (cases st) auto
  show ?case
  proof (cases "m = 0")
    case True
    then have "unat n < 10 ^ j" using st(5) by (simp add: div_eq_0_iff)
    then show ?thesis using True st by simp
  next
    case False
    then have m0: "0 < unat m" by (simp add: unat_gt_0)
    have "j \<noteq> k" using m0 st(5) b(3) by auto
    then have jk: "j < k" using st(4) by simp
    let ?c = "digit_char (unat (m mod 10))" and ?b = "b[l + j := digit_char (unat (m mod 10))]"
    have lt: "l + j < length b" using jk b st(2) by simp
    have w: "take (Suc j) (drop l ?b) = take j (drop l b) @ [?c]"
      using lt by (simp add: drop_update_swap take_Suc_conv_app_nth)
    have m: "unat (m mod 10) = unat m mod 10" "unat (m div 10) = unat m div 10" by (simp_all add: unat_mod unat_div)
    have len: "length (take j (drop l b)) = j" using lt by simp
    have "unat (m mod 10) \<le> 9" by (rule unat_digit_less)
    then have "list_all is_decimal (take (Suc j) (drop l ?b))" "text_digits (rev (take (Suc j) (drop l ?b))) = unat n mod 10 ^ Suc j"
      unfolding w mod_next_digit using st(5-7) len m(1) by simp_all
    moreover have "unat (m div 10) = unat n div 10 ^ Suc j" unfolding m(2) st(5) by (rule div_next_digit)
    moreover have "unat (m div 10) < unat m" unfolding m(2) using m0 by simp
    ultimately show ?thesis using False lt jk st(2,3) unfolding st(1) by (simp add: wp Let_def)
  qed
qed (use b in simp)

lemma exchange_loop:
  fixes buf :: string
  assumes b: "length buf = N" "l + d \<le> N"
  shows "returns (while_loop (\<lambda>(b, i, j1). Some (i + 1 < j1))
      (\<lambda>(b, i, j1). do {
         tmp \<leftarrow> vget b i;
         c \<leftarrow> vget b (j1 - 1);
         b \<leftarrow> vset b i c;
         b \<leftarrow> vset b (j1 - 1) tmp;
         Some (b, i + 1, j1 - 1) }) (buf, l, l + d))
    (\<lambda>(b, i, j1). length b = N \<and> take l b = take l buf \<and> take d (drop l b) = rev (take d (drop l buf)))"
proof -
  define P where "P s b = (\<forall>p < d. b ! (l + p) = (if p < s \<or> d - s \<le> p then buf ! (l + (d - 1 - p)) else buf ! (l + p)))" for s and b :: string
  show ?thesis
  proof (rule returns_while [where m = "\<lambda>(b, i, j1). j1 - i" and
        I = "\<lambda>(b, i, j1). \<exists>s. i = l + s \<and> j1 = l + d - s \<and> s \<le> d \<and> length b = N \<and> take l b = take l buf \<and> P s b"], goal_cases)
    case 1
    show ?case using b by (auto simp: P_def)
  next
    case (2 st)
    then obtain b s where st: "st = (b, l + s, l + d - s)" "s \<le> d" "length b = N" "take l b = take l buf" "P s b" by (cases st) auto
    show ?case
    proof (cases "l + s + 1 < l + d - s")
      case True
      let ?j = "l + d - s - 1"
      let ?b = "b[l + s := b ! ?j, ?j := b ! (l + s)]"
      have j: "?j = l + (d - 1 - s)" and sd: "s < d - 1 - s" "s < d" using True by linarith+
      have at: "b ! (l + s) = buf ! (l + s)" "b ! (l + (d - 1 - s)) = buf ! (l + (d - 1 - s))" 
      proof -
        have "d - 1 - s < d" "\<not> (d - 1 - s < s \<or> d - s \<le> d - 1 - s)" "\<not> (s < s \<or> d - s \<le> s)" using sd by linarith+
        with sd(2) st(5) show "b ! (l + s) = buf ! (l + s)" "b ! (l + (d - 1 - s)) = buf ! (l + (d - 1 - s))" unfolding P_def by metis+
      qed
      have "P (Suc s) ?b" unfolding P_def
      proof (intro allI impI)
        fix p assume p: "p < d"
        consider "p = s" | "p = d - 1 - s" "p \<noteq> s" | "p \<noteq> s" "p \<noteq> d - 1 - s" by blast
        then show "?b ! (l + p) = (if p < Suc s \<or> d - Suc s \<le> p then buf ! (l + (d - 1 - p)) else buf ! (l + p))"
        proof cases
          case 3
          then have "?b ! (l + p) = b ! (l + p)" unfolding j by simp
          moreover have "p < Suc s \<or> d - Suc s \<le> p \<longleftrightarrow> p < s \<or> d - s \<le> p" using 3 p by linarith
          ultimately show ?thesis using st(5) p unfolding P_def by simp
        qed (use sd at j st(3) b(2) in simp_all)
      qed
      moreover have "take l ?b = take l buf" using st(4) True by simp
      ultimately have "\<exists>s'. l + s + 1 = l + s' \<and> ?j = l + d - s' \<and> s' \<le> d \<and> length ?b = N \<and> take l ?b = take l buf \<and> P s' ?b"
        using True st(3) by (intro exI [of _ "Suc s"]) auto
      moreover have "?j < N" "l + s < N" "?j - (l + s + 1) < (l + d - s) - (l + s)" using True b(2) by linarith+
      ultimately show ?thesis using True st(3) unfolding st(1) by (simp add: wp)
    next
      case False
      have "take d (drop l b) = rev (take d (drop l buf))"
      proof (rule nth_equalityI)
        show "length (take d (drop l b)) = length (rev (take d (drop l buf)))" using b st(3) by simp
        fix p assume "p < length (take d (drop l b))"
        then have p: "p < d" using b st(3) by simp
        have "b ! (l + p) = buf ! (l + (d - 1 - p))"
        proof (cases "p < s \<or> d - s \<le> p")
          case True
          then show ?thesis using st(5) p unfolding P_def by simp
        next
          case mid: False
          then have "p = d - 1 - p" using False p by linarith
          then show ?thesis using st(5) p mid unfolding P_def by simp
        qed
        then show "take d (drop l b) ! p = rev (take d (drop l buf)) ! p" using p b st(3) by (simp add: rev_nth)
      qed
      then show ?thesis using False st by simp
    qed
  qed
qed

lemma FillDigits32_correct:
  assumes s: "filled N l x s" and k: "l + k \<le> N" "unat n < 10 ^ k"
  shows "returns (FillDigits32 n s) (\<lambda>s'. \<exists>d \<le> k. filled N (l + d) (x * 10 ^ d + unat n) s')"
proof -
  obtain buf where buf: "s = (buf, l)" "length buf = N" using s by (cases s) (auto simp: filled_def)
  show ?thesis
    unfolding FillDigits32_def buf(1) prod.case
  proof (rule returns_bindI [OF reversed_digits_loop [OF buf(2) k]], clarify, goal_cases)
    case (1 b m j)
    note r = 1
    have lj: "l + j \<le> N" using r(3) k by simp
    show ?case
    proof (rule returns_bindI [OF exchange_loop [OF refl, of l j]], use r(1) lj in simp, clarify, goal_cases)
      case (1 b' i j1)
      have "filled N (l + j) (x * 10 ^ j + text_digits (rev (take j (drop l b)))) (b', l + j)"
        by (rule filled_append [where buf = buf]) (use s buf 1 r lj in simp_all)
      then show ?case using r by auto
    qed
  qed
qed

section \<open>Numbers of 64 bits\<close>

lemma parts_of_seven:
  fixes n :: uint64
  defines "p2 \<equiv> ucast (n mod kTen7) :: uint32" and "p1 \<equiv> ucast (n div kTen7 mod kTen7) :: uint32" and "p0 \<equiv> ucast (n div kTen7 div kTen7) :: uint32"
  shows "unat p2 < 10 ^ 7" "unat p1 < 10 ^ 7" "unat p0 = unat n div 10 ^ 14" "unat n = (unat p0 * 10 ^ 7 + unat p1) * 10 ^ 7 + unat p2"
proof -
  have t: "unat kTen7 = 10 ^ 7" by (simp add: kTen7_def)
  have u: "unat (n mod kTen7) = unat n mod 10 ^ 7" "unat (n div kTen7) = unat n div 10 ^ 7"
    "unat (n div kTen7 mod kTen7) = unat n div 10 ^ 7 mod 10 ^ 7" "unat (n div kTen7 div kTen7) = unat n div 10 ^ 7 div 10 ^ 7"
    unfolding unat_mod unat_div t by (rule refl)+
  have small: "unat (ucast w :: uint32) = unat w" if "unat w < 2 ^ 32" for w :: uint64
    using that by (simp add: unsigned_ucast_eq take_bit_nat_eq_self)
  have "unat n div 10 ^ 7 div 10 ^ 7 = unat n div 10 ^ 14" by (simp add: div_mult2_eq [symmetric])
  moreover have "unat n div 10 ^ 14 < 2 ^ 32" using unat_less_64 [of n] by (intro less_mult_imp_div_less) simp
  ultimately have p: "unat p2 = unat n mod 10 ^ 7" "unat p1 = unat n div 10 ^ 7 mod 10 ^ 7" "unat p0 = unat n div 10 ^ 7 div 10 ^ 7"
    unfolding p2_def p1_def p0_def u(1,3,4) [symmetric] by (subst small; simp add: u)+
  then show "unat p2 < 10 ^ 7" "unat p1 < 10 ^ 7" "unat p0 = unat n div 10 ^ 14"
    using \<open>unat n div 10 ^ 7 div 10 ^ 7 = unat n div 10 ^ 14\<close> by simp_all
  show "unat n = (unat p0 * 10 ^ 7 + unat p1) * 10 ^ 7 + unat p2" unfolding p div_mult_mod_eq ..
qed

lemma FillDigits64FixedLength_correct:
  assumes s: "filled N l x s" and N: "l + 17 \<le> N" "unat n < 10 ^ 17"
  shows "returns (FillDigits64FixedLength n s) (filled N (l + 17) (x * 10 ^ 17 + unat n))"
proof -
  note p = parts_of_seven [of n]
  have p0: "unat (ucast (n div kTen7 div kTen7) :: uint32) < 10 ^ 3" unfolding p(3) using N(2) by (intro less_mult_imp_div_less) simp
  show ?thesis unfolding FillDigits64FixedLength_def Let_def
  proof (rule returns_bindI [OF FillDigits32FixedLength_correct [OF s _ p0]], use N in simp,
      rule returns_bindI [OF FillDigits32FixedLength_correct [OF _ _ p(2)]], assumption, use N in simp,
      rule returns_mono [OF FillDigits32FixedLength_correct [OF _ _ p(1)]], assumption, use N in simp, goal_cases)
    case (1 a b c)
    then show ?case by (subst p(4)) (simp add: algebra_simps)
  qed
qed

lemma FillDigits64_correct:
  assumes s: "filled N 0 0 s" and N: "20 \<le> N"
  shows "returns (FillDigits64 n s) (\<lambda>s'. \<exists>d \<le> 20. filled N d (unat n) s')"
proof -
  note p = parts_of_seven [of n]
  let ?p0 = "ucast (n div kTen7 div kTen7) :: uint32" and ?p1 = "ucast (n div kTen7 mod kTen7) :: uint32" and ?p2 = "ucast (n mod kTen7) :: uint32"
  have p0: "unat ?p0 < 10 ^ 6" unfolding p(3) using unat_less_64 [of n] by (intro less_mult_imp_div_less) simp
  consider (three) "?p0 \<noteq> 0" | (two) "?p0 = 0" "?p1 \<noteq> 0" | (one) "?p0 = 0" "?p1 = 0" by blast
  then show ?thesis
  proof cases
    case three
    then have run: "FillDigits64 n s = do {
        s \<leftarrow> FillDigits32 ?p0 s; s \<leftarrow> FillDigits32FixedLength ?p1 7 s; FillDigits32FixedLength ?p2 7 s }"
      by (simp add: FillDigits64_def Let_def)
    show ?thesis unfolding run
    proof (rule returns_bindI [OF FillDigits32_correct [OF s _ p0]], use N in simp, clarify,
        rule returns_bindI [OF FillDigits32FixedLength_correct [OF _ _ p(2)]], assumption, use N in simp,
        rule returns_mono [OF FillDigits32FixedLength_correct [OF _ _ p(1)]], assumption, use N in simp, goal_cases)
      case (1 a1 a2 d c e)
      then have "filled N (d + 14) (unat n) e" by (subst p(4)) (simp add: algebra_simps)
      then show ?case using 1(1) by (intro exI [of _ "d + 14"]) simp
    qed
  next
    case two
    then have run: "FillDigits64 n s = do { s \<leftarrow> FillDigits32 ?p1 s; FillDigits32FixedLength ?p2 7 s }"
      by (simp add: FillDigits64_def Let_def)
    show ?thesis unfolding run
    proof (rule returns_bindI [OF FillDigits32_correct [OF s _ p(2)]], use N in simp, clarify,
        rule returns_mono [OF FillDigits32FixedLength_correct [OF _ _ p(1)]], assumption, use N in simp, goal_cases)
      case (1 a1 a2 d e)
      then have "filled N (d + 7) (unat n) e" using two(1) by (subst p(4)) (simp add: algebra_simps)
      then show ?case using 1(1) by (intro exI [of _ "d + 7"]) simp
    qed
  next
    case one
    then have run: "FillDigits64 n s = FillDigits32 ?p2 s" by (simp add: FillDigits64_def Let_def)
    have "unat n = unat ?p2" using one by (subst p(4)) simp
    show ?thesis unfolding run
    proof (rule returns_mono [OF FillDigits32_correct [OF s _ p(1)]], use N in simp, goal_cases)
      case (1 e)
      then obtain d where "d \<le> 7" "filled N d (unat ?p2) e" by auto
      then show ?case using \<open>unat n = unat ?p2\<close> by (intro exI [of _ d]) simp
    qed
  qed
qed

end
