(* ===== verification/Fixed_Fraction.thy ===== *)
theory Fixed_Fraction
  imports Fixed_Digits
begin

text \<open>
  The digits behind the point: the two loops of \<open>FillFractionals\<close> with 64 and with 128 bits, the rounding up at the end, and the zeros
  that \<open>TrimZeros\<close> takes away.
\<close>

section \<open>Trimming\<close>

lemma trailing_zeros_loop:
  assumes "l \<le> length buf"
  shows "returns (while_loop (\<lambda>l. if l > 0 then do { c \<leftarrow> vget buf (l - 1); Some (c = CHR ''0'') } else Some False) (\<lambda>l. Some (l - 1)) l)
    (\<lambda>m. m \<le> l \<and> take l buf = take m buf @ replicate (l - m) CHR ''0'' \<and> (0 < m \<longrightarrow> buf ! (m - 1) \<noteq> CHR ''0''))"
proof (rule returns_while [where I = "\<lambda>m. m \<le> l \<and> take l buf = take m buf @ replicate (l - m) CHR ''0''" and m = "\<lambda>m. m"], goal_cases)
  case (2 m)
  show ?case
  proof (cases "0 < m \<and> buf ! (m - 1) = CHR ''0''")
    case True
    then obtain j where j: "m = Suc j" by (cases m) auto
    have lt: "j < length buf" using 2 j assms by simp
    have "take m buf = take j buf @ [CHR ''0'']" using True lt unfolding j by (simp add: take_Suc_conv_app_nth)
    moreover have "l - j = Suc (l - m)" using 2 j by auto
    ultimately have "take l buf = take j buf @ replicate (l - j) CHR ''0''" using 2 by simp
    then show ?thesis using True 2 j lt by (simp add: wp)
  next
    case False
    then show ?thesis using 2 assms by (auto simp: wp)
  qed
qed simp

lemma leading_zeros_loop:
  assumes "m \<le> length buf"
  shows "returns (while_loop (\<lambda>f. if f < m then do { c \<leftarrow> vget buf f; Some (c = CHR ''0'') } else Some False) (\<lambda>f. Some (f + 1)) 0)
    (\<lambda>f. f \<le> m \<and> take f buf = replicate f CHR ''0'' \<and> (f < m \<longrightarrow> buf ! f \<noteq> CHR ''0''))"
proof (rule returns_while [where I = "\<lambda>f. f \<le> m \<and> take f buf = replicate f CHR ''0''" and m = "\<lambda>f. m - f"], goal_cases)
  case (2 f)
  then show ?case using assms by (auto simp: wp take_Suc_conv_app_nth replicate_append_same)
qed simp

lemma move_digits_loop:
  assumes "0 < f" "f \<le> m" "m \<le> length buf"
  shows "returns (for_up f m (\<lambda>i b. do { c \<leftarrow> vget b i; vset b (i - f) c }) buf)
    (\<lambda>b. length b = length buf \<and> take (m - f) b = take (m - f) (drop f buf))"
proof (rule returns_for_up [where I = "\<lambda>i b. length b = length buf \<and> take (i - f) b = take (i - f) (drop f buf) \<and> drop i b = drop i buf"], goal_cases)
  case (3 i b)
  then have b: "length b = length buf" "take (i - f) b = take (i - f) (drop f buf)" "drop i b = drop i buf" by blast+
  have i: "i < length buf" "f \<le> i" "i - f < i" using 3 assms by simp_all
  have at: "b ! i = buf ! i" using arg_cong [OF b(3), of hd] i(1) b(1) by (simp add: hd_drop_conv_nth)
  have "take (Suc i - f) (b[i - f := b ! i]) = take (i - f) b @ [b ! i]"
    using i b(1) by (simp add: Suc_diff_le take_Suc_conv_app_nth)
  also have "\<dots> = take (Suc i - f) (drop f buf)" using i b(2) at by (simp add: Suc_diff_le take_Suc_conv_app_nth)
  finally have "take (Suc i - f) (b[i - f := b ! i]) = take (Suc i - f) (drop f buf)" .
  moreover have "drop (Suc i) (b[i - f := b ! i]) = drop (Suc i) buf"
    using arg_cong [OF b(3), of "drop 1"] i(3) by simp
  ultimately show ?case using i b(1) by (simp add: wp)
qed (use assms in simp_all)

lemma TrimZeros_correct:
  assumes buf: "l \<le> length buf" "list_all is_decimal (take l buf)"
  shows "returns (TrimZeros (buf, l, point)) (\<lambda>(b, l', point'). length b = length buf \<and> l' \<le> l \<and> list_all is_decimal (take l' b) \<and>
    value_of (take l' b) (point' - int l') = value_of (take l buf) (point - int l) \<and> (0 < l' \<longrightarrow> b ! 0 \<noteq> CHR ''0'' \<and> b ! (l' - 1) \<noteq> CHR ''0''))"
  unfolding TrimZeros_def prod.case
proof (rule returns_bindI [OF trailing_zeros_loop [OF buf(1)]], clarify, goal_cases)
  case (1 m)
  note m = 1
  have ml: "m \<le> length buf" using m(1) buf(1) by simp
  show ?case
  proof (rule returns_bindI [OF leading_zeros_loop [OF ml]], clarify, goal_cases)
    case (1 f)
    note f = 1
    define w where "w = take (m - f) (drop f buf)"
    have tm: "take m buf = replicate f CHR ''0'' @ w" using f(1,2) take_add [of f "m - f" buf] by (simp add: w_def)
    have tl: "take l buf = replicate f CHR ''0'' @ w @ replicate (l - m) CHR ''0''" using m(2) tm by simp
    have dw: "list_all is_decimal w" using buf(2) unfolding tl by simp
    have "text_digits (take l buf) = text_digits w * 10 ^ (l - m)" unfolding tl by (simp add: text_digits_strip text_digits_append)
    moreover have "(10 :: real) ^ (l - m) * 10 powi (point - int l) = 10 powi (point - int m)"
      using m(1) by (simp add: power_int_add [symmetric] flip: power_int_of_nat)
    ultimately have v: "value_of (take l buf) (point - int l) = value_of w (point - int f - int (m - f))"
      using f(1) by (simp add: value_of_def)
    have ends: "f < m \<and> w ! 0 \<noteq> CHR ''0'' \<and> w ! (m - f - 1) \<noteq> CHR ''0''" if "0 < m - f"
      using that f(1,3) m(3) ml by (auto simp: w_def)
    show ?case
    proof (cases "f = 0")
      case True
      then have "take m buf = w" using tm by simp
      then show ?thesis using True v dw m(1) f(3) m(3) by simp
    next
      case False
      then have f0: "0 < f" by simp
      show ?thesis unfolding if_P [OF False]
      proof (rule returns_bindI [OF move_digits_loop [OF f0 f(1) ml]], clarify, goal_cases)
        case (1 b)
        then have tb: "take (m - f) b = w" "length b = length buf" by (simp_all add: w_def)
        have "b ! 0 = w ! 0" "b ! (m - f - 1) = w ! (m - f - 1)" if "0 < m - f" using that unfolding tb(1) [symmetric] by simp_all
        then show ?case using ends tb v dw m(1) f(1) by auto
      qed
    qed
  qed
qed

section \<open>Rounding up\<close>

lemma RoundUp_correct:
  assumes buf: "l \<le> length buf" "0 < length buf" "list_all is_decimal (take l buf)" and zero: "l = 0 \<Longrightarrow> point = 0"
  shows "returns (RoundUp (buf, l, point)) (\<lambda>(b, l', point'). length b = length buf \<and> l' \<le> max 1 l \<and> list_all is_decimal (take l' b) \<and>
    value_of (take l' b) (point' - int l') = real (text_digits (take l buf) + 1) * 10 powi (point - int l))"
proof (cases "l = 0")
  case True
  have "take 1 (buf[0 := CHR ''1'']) = ''1''" using buf(2) by (cases buf) simp_all
  then show ?thesis using True buf(2) zero by (simp add: RoundUp_def vset_def value_of_def char_digit_def is_decimal_def)
next
  case False
  then have l0: "0 < l" by simp
  obtain b1 where b1: "vincr buf (l - 1) = Some b1" "length b1 = length buf" and ok: "carry_ok (take l b1) (l - 1)"
    and tx: "text_digits (take l b1) = text_digits (take l buf) + 1" by (rule increment_last [OF l0 buf(1,3)])
  have lb: "l \<le> length b1" using buf(1) b1(2) by simp
  have run: "RoundUp (buf, l, point) = do {
       (buffer, i) \<leftarrow> while_loop
         (\<lambda>(buffer, i). if i > 0 then do { c \<leftarrow> vget buffer i; Some (c = digit_char 10) } else Some False)
         (\<lambda>(buffer, i). do {
            buffer \<leftarrow> vset buffer i CHR ''0'';
            buffer \<leftarrow> vincr buffer (i - 1);
            Some (buffer, i - 1) }) (b1, l - 1);
       if i > 0 then Some (buffer, l, point)
       else do {
         c \<leftarrow> vget buffer 0;
         if c = digit_char 10 then do {
           buffer \<leftarrow> vset buffer 0 CHR ''1'';
           Some (buffer, l, point + 1)
         } else Some (buffer, l, point)
       }
     }" unfolding RoundUp_def using False b1(1) by simp
  show ?thesis unfolding run
  proof (rule returns_bindI [OF carry_loop [OF ok lb]], clarify, goal_cases)
    case (1 b j)
    have "text_digits (take l buf) < 10 ^ length (take l buf)" by (rule text_digits_less [OF buf(3)])
    then have le: "text_digits (take l b) \<le> 10 ^ l" unfolding 1(2) tx using buf(1) by simp
    have len: "l \<le> length b" "0 < length b" using 1(1) b1(2) buf by simp_all
    note ends = carry_end [OF 1(3,4) _ len(1) le]
    show ?case
    proof (cases "0 < j \<or> b ! 0 \<noteq> digit_char 10")
      case True
      have "b ! 0 \<noteq> digit_char 10"
      proof (cases "0 < j")
        case True
        then have "is_decimal (take l b ! 0)" using 1(3) l0 len by (auto simp: carry_ok_def)
        then show ?thesis using l0 by (auto simp: is_decimal_iff digit_char_eq_iff)
      qed (use True in blast)
      then show ?thesis using ends(1) [OF l0] True 1(1,2) b1(2) tx len by (auto simp: wp value_of_def)
    next
      case False
      then have "b ! 0 = digit_char 10" "j = 0" by auto
      note e = ends(2) [OF l0 this(1)]
      have "10 * real (text_digits (take l (b[0 := CHR ''1'']))) = real (text_digits (take l buf) + 1)"
        using e 1(2) tx by (metis of_nat_mult of_nat_numeral)
      moreover have "(10 :: real) powi (point + 1 - int l) = 10 * 10 powi (point - int l)" by (simp add: power_int_add power_int_diff)
      ultimately have "value_of (take l (b[0 := CHR ''1''])) (point + 1 - int l) = real (text_digits (take l buf) + 1) * 10 powi (point - int l)"
        unfolding value_of_def by (simp only: mult.assoc [symmetric] mult.commute [of _ "10 :: real"])
      then show ?thesis using False e 1(1) b1(2) len by (simp add: wp)
    qed
  qed
qed

section \<open>The fraction with 64 bits\<close>

text \<open>
  After \<open>i\<close> digits the fraction \<open>F / 2 ^ p\<close> behind the number \<open>x\<close> has the digits of \<open>t\<close> and leaves \<open>f / 2 ^ (p - i)\<close>.
\<close>

definition fraction_split :: "nat \<Rightarrow> nat \<Rightarrow> nat \<Rightarrow> nat \<Rightarrow> nat \<Rightarrow> nat \<Rightarrow> bool" where
  "fraction_split p x F i t f \<longleftrightarrow> i \<le> p \<and> f < 2 ^ (p - i) \<and> f \<le> 5 ^ i * F \<and> (x * 2 ^ p + F) * 10 ^ i = t * 2 ^ p + f * 2 ^ i"

lemma fraction_split_start: "F < 2 ^ p \<Longrightarrow> fraction_split p x F 0 x F"
  by (simp add: fraction_split_def)

lemma fraction_split_step:
  assumes s: "fraction_split p x F i t f" "0 < f"
  defines "q \<equiv> 2 ^ (p - Suc i)"
  shows "i < p" "5 * f div q \<le> 9" "fraction_split p x F (Suc i) (10 * t + 5 * f div q) (5 * f mod q)"
proof -
  show ip: "i < p" using s by (cases "i = p") (auto simp: fraction_split_def)
  have pi: "p - i = Suc (p - Suc i)" using ip by simp
  have f: "f < 2 * q" using s(1) unfolding fraction_split_def pi q_def by simp
  have q0: "0 < q" by (simp add: q_def)
  have "5 * f < 10 * q" using f by simp
  then have "5 * f div q < 10" by (rule less_mult_imp_div_less)
  then show "5 * f div q \<le> 9" by simp
  have m: "5 * f mod q < q" using q0 by simp
  have le: "5 * f mod q \<le> 5 ^ Suc i * F" using s(1) by (intro order_trans [OF mod_less_eq_dividend]) (simp add: fraction_split_def)
  have "(2 :: nat) ^ p = 2 ^ (Suc i + (p - Suc i))" using ip by simp
  also have "\<dots> = 2 ^ Suc i * q" unfolding q_def by (rule power_add)
  finally have p: "(2 :: nat) ^ p = 2 ^ Suc i * q" .
  have "5 * f div q * q + 5 * f mod q = 5 * f" by (rule div_mult_mod_eq)
  then have "10 * (f * 2 ^ i) = 2 ^ Suc i * (5 * f div q * q + 5 * f mod q)" by simp
  also have "\<dots> = 5 * f div q * 2 ^ p + 5 * f mod q * 2 ^ Suc i" unfolding p by (simp only: distrib_left ac_simps)
  finally have "10 * (t * 2 ^ p + f * 2 ^ i) = (10 * t + 5 * f div q) * 2 ^ p + 5 * f mod q * 2 ^ Suc i"
    unfolding distrib_left distrib_right by (simp only: mult.assoc add.assoc)
  moreover have "(x * 2 ^ p + F) * 10 ^ Suc i = 10 * (t * 2 ^ p + f * 2 ^ i)" using s(1) by (simp add: fraction_split_def)
  ultimately show "fraction_split p x F (Suc i) (10 * t + 5 * f div q) (5 * f mod q)"
    using ip m le by (simp add: fraction_split_def q_def)
qed

lemma fraction_split_zero:
  assumes "fraction_split p x F i t f"
  shows "f = 0 \<longleftrightarrow> 2 ^ (p - i) dvd F"
proof -
  have s: "i \<le> p" "f < 2 ^ (p - i)" "(x * 2 ^ p + F) * 10 ^ i = t * 2 ^ p + f * 2 ^ i" using assms by (simp_all add: fraction_split_def)
  have p: "(2 :: nat) ^ p = 2 ^ (p - i) * 2 ^ i" using s(1) by (simp flip: power_add)
  have ten: "(10 :: nat) ^ i = 5 ^ i * 2 ^ i" by (simp flip: power_mult_distrib)
  have "(x * 2 ^ p + F) * 5 ^ i * 2 ^ i = (t * 2 ^ (p - i) + f) * 2 ^ i"
    using s(3) unfolding ten by (simp only: p distrib_right mult.assoc)
  then have eq: "(x * 2 ^ p + F) * 5 ^ i = t * 2 ^ (p - i) + f" by simp
  have whole: "2 ^ (p - i) dvd x * 2 ^ p" unfolding p by simp
  have "2 ^ (p - i) dvd F \<longleftrightarrow> 2 ^ (p - i) dvd x * 2 ^ p + F" using whole by (simp add: dvd_add_right_iff)
  also have "\<dots> \<longleftrightarrow> 2 ^ (p - i) dvd (x * 2 ^ p + F) * 5 ^ i" by (rule coprime_dvd_mult_left_iff [symmetric]) simp
  also have "\<dots> \<longleftrightarrow> 2 ^ (p - i) dvd f" unfolding eq by (simp add: dvd_add_right_iff)
  also have "\<dots> \<longleftrightarrow> f = 0" using s(2) by (auto dest: dvd_imp_le)
  finally show ?thesis by simp
qed

text \<open>No digit is lost at the upper end of a word: the fraction has room for a factor of five.\<close>

lemma fraction_split_room:
  assumes "fraction_split p x F i t f" "p \<le> n" "F * 128 \<le> 2 ^ n"
  shows "5 * f < 2 ^ n"
proof (cases "i < 3")
  case True
  have f: "f \<le> 5 ^ i * F" using assms(1) by (simp add: fraction_split_def)
  have "(5 :: nat) ^ i \<le> 5 ^ 2" using True by (intro power_increasing) simp_all
  then have "5 ^ i * F \<le> 25 * F" by (intro mult_le_mono1) simp
  with f have "f \<le> 25 * F" by (rule order_trans)
  then have "5 * f \<le> 125 * F" by simp
  then show ?thesis using assms(3) by (cases "F = 0") simp_all
next
  case False
  then have i: "3 \<le> i" "i \<le> p" "f < 2 ^ (p - i)" using assms(1) by (simp_all add: fraction_split_def)
  have "(2 :: nat) ^ (p - i) * 8 \<le> 2 ^ (n - 3) * 2 ^ 3" using i assms(2) by (intro mult_le_mono power_increasing) simp_all
  also have "\<dots> = 2 ^ (n - 3 + 3)" by (rule power_add [symmetric])
  also have "n - 3 + 3 = n" using i assms(2) by simp
  finally show ?thesis using i(3) by simp
qed

lemma write_filled:
  assumes "filled N l x (buf, len)" "l < N" "q \<le> 9"
  shows "vset buf len (digit_char q) = Some (buf[l := digit_char q])" "filled N (Suc l) (10 * x + q) (buf[l := digit_char q], Suc len)"
  using assms write_digit [of l buf q] by (simp_all add: filled_def vset_def)

lemma fractional_loop_correct:
  assumes s: "filled N l x (buf, l)" and N: "l + k \<le> N" and F: "unat F < 2 ^ p" "unat F < 2 ^ 56" "p \<le> 64"
  shows "returns (fractional_loop k (F, int p, buf, l)) (\<lambda>(f, point, buf, len). \<exists>i t. i \<le> k \<and> point = int p - int i \<and>
    filled N (l + i) t (buf, len) \<and> fraction_split p x (unat F) i t (unat f) \<and> (f = 0 \<or> i = k) \<and>
    (i = 0 \<or> \<not> 2 ^ (p - (i - 1)) dvd unat F))"
  unfolding fractional_loop_def prod.case
proof (rule returns_bindI, rule returns_while [where m = "\<lambda>(i, f, point, buf, len). k - i" and
      I = "\<lambda>(i, f, point, buf, len). \<exists>t. i \<le> k \<and> point = int p - int i \<and> filled N (l + i) t (buf, len) \<and>
        fraction_split p x (unat F) i t (unat f) \<and> (i = 0 \<or> \<not> 2 ^ (p - (i - 1)) dvd unat F)" and
      P = "\<lambda>(i, f, point, buf, len). \<exists>t. i \<le> k \<and> point = int p - int i \<and>
    filled N (l + i) t (buf, len) \<and> fraction_split p x (unat F) i t (unat f) \<and> (f = 0 \<or> i = k) \<and>
    (i = 0 \<or> \<not> 2 ^ (p - (i - 1)) dvd unat F)"], goal_cases)
  case 1
  show ?case using s F fraction_split_start [of "unat F" p x] by auto
next
  case (2 st)
  then obtain i f point b len t where st: "st = (i, f, point, b, len)" "i \<le> k" "point = int p - int i" "filled N (l + i) t (b, len)"
    "fraction_split p x (unat F) i t (unat f)" "i = 0 \<or> \<not> 2 ^ (p - (i - 1)) dvd unat F" by (cases st) auto
  show ?case
  proof (cases "i < k \<and> f \<noteq> 0")
    case False
    then show ?thesis using st by auto
  next
    case True
    then have f0: "0 < unat f" by (simp add: unat_gt_0)
    then have more: "\<not> 2 ^ (p - i) dvd unat F" using fraction_split_zero [OF st(5)] by simp
    note step = fraction_split_step [OF st(5) f0]
    have "unat F * 128 \<le> 2 ^ 64" using F(2) by simp
    then have room: "5 * unat f < 2 ^ 64" by (rule fraction_split_room [OF st(5) F(3)])
    define r where "r = p - Suc i"
    have r: "point - 1 = int r" "r < 64" using st(3) step(1) F(3) by (simp_all add: r_def)
    have f5: "unat (f * 5) = 5 * unat f" using room by (subst unat_mult_small) simp_all
    let ?d = "5 * unat f div 2 ^ r"
    have d9: "?d \<le> 9" using step(2) by (simp add: r_def)
    have "unat (drop_bit r (f * 5)) = ?d" unfolding unat_drop_bit f5 ..
    moreover from this have "unat (drop_bit r (f * 5)) < 2 ^ 31" using d9 by simp
    ultimately have digit: "to_int (drop_bit r (f * 5)) = int ?d" by (simp add: to_int_small)
    have "?d * 2 ^ r \<le> 5 * unat f" by simp
    then have "?d * 2 ^ r < 2 ^ 64" using room by (rule le_less_trans)
    moreover have "unat (of_int (int ?d) :: uint64) = ?d" using d9 by (simp add: unat_of_nat)
    ultimately have push: "unat (push_bit r (of_int (int ?d) :: uint64)) = ?d * 2 ^ r"
      by (subst unat_push_bit_small) simp_all
    have rest: "unat (f * 5 - push_bit r (of_int (int ?d))) = 5 * unat f mod 2 ^ r"
      using push f5 by (subst unat_sub_small) (simp_all add: minus_div_mult_eq_mod)
    have lt: "l + i < N" using True N by simp
    note wr = write_filled [OF st(4) lt d9]
    have "fraction_split p x (unat F) (Suc i) (10 * t + ?d) (unat (f * 5 - push_bit r (of_int (int ?d))))"
      unfolding rest using step(3) by (simp add: r_def)
    then have post: "\<exists>t. filled N (Suc (l + i)) t (b[l + i := digit_char ?d], Suc len) \<and>
        fraction_split p x (unat F) (Suc i) t (unat (f * 5 - push_bit r (of_int (int ?d))))"
      using wr(2) by (intro exI [of _ "10 * t + ?d"]) simp
    have e: "int p - int i - 1 = int r" "int p - (1 + int i) = int r" "len = l + i" "l + i < length b"
      using r(1) st(3,4) lt by (simp_all add: filled_def)
    have "i < k" using True by blast
    then have "k - Suc i < k - i" by (rule diff_less_mono2 [OF lessI])
    show ?thesis unfolding st(1,3) prod.case returns_Some
      using True d9 r(2) post step(1) F(3) more \<open>k - Suc i < k - i\<close> by (simp add: wp Let_def e digit)
  qed
next
  case (3 st)
  then show ?case by (cases st) auto
qed

end
