(* ===== verification/Fixed_Wide.thy ===== *)
theory Fixed_Wide
  imports Fixed_Fraction
begin

text \<open>
  The numbers of 128 bits of \<open>fixed-dtoa.cc\<close> as natural numbers, and the loop that takes the digits of a fraction of that size.
\<close>

definition val128 :: "uint128 \<Rightarrow> nat" where
  "val128 u = unat (high_bits u) * 2 ^ 64 + unat (low_bits u)"

lemma unat_and_32: "unat (w AND kMask32) = unat w mod 2 ^ 32" for w :: uint64
proof -
  have eq: "kMask32 = mask 32" by (simp add: kMask32_def mask_eq_exp_minus_1)
  show ?thesis unfolding eq by (rule unat_and_mask)
qed

text \<open>The product of a word by one of 32 bits, with a carry, in two halves.\<close>

lemma half_products:
  fixes w c m :: uint64
  assumes m: "unat m < 2 ^ 32" and c: "unat c < 2 ^ 32"
  defines "a \<equiv> c + (w AND kMask32) * m"
  defines "b \<equiv> drop_bit 32 a + drop_bit 32 w * m"
  shows "unat w * unat m + unat c = unat b * 2 ^ 32 + unat (a AND kMask32)"
proof -
  have w: "unat (w AND kMask32) = unat w mod 2 ^ 32" "unat (drop_bit 32 w) = unat w div 2 ^ 32" by (simp_all add: unat_and_32 unat_drop_bit)
  have hi: "unat w div 2 ^ 32 < 2 ^ 32" using unat_less_64 [of w] by (intro less_mult_imp_div_less) simp
  have max: "x * unat m + y < 2 ^ 64" if "x < 2 ^ 32" "y < 2 ^ 32" for x y
  proof -
    have "x * unat m \<le> (2 ^ 32 - 1) * (2 ^ 32 - 1)" using that(1) m by (intro mult_le_mono) simp_all
    then show ?thesis using that(2) by simp
  qed
  have "unat w mod 2 ^ 32 < 2 ^ 32" by simp
  note ma = max [OF this c]
  have pa: "unat ((w AND kMask32) * m) = unat w mod 2 ^ 32 * unat m" using ma unfolding w(1) [symmetric] by (subst unat_mult_small) simp_all
  have a: "unat a = unat c + unat w mod 2 ^ 32 * unat m" unfolding a_def using ma pa by (subst unat_add_small) simp_all
  have "unat a div 2 ^ 32 < 2 ^ 32" using unat_less_64 [of a] by (intro less_mult_imp_div_less) simp
  note mb = max [OF hi this]
  have pb: "unat (drop_bit 32 w * m) = unat w div 2 ^ 32 * unat m" using mb unfolding w(2) [symmetric] by (subst unat_mult_small) simp_all
  have b: "unat b = unat a div 2 ^ 32 + unat w div 2 ^ 32 * unat m" unfolding b_def using mb pb by (subst unat_add_small) (simp_all add: unat_drop_bit)
  have "unat b * 2 ^ 32 + unat (a AND kMask32) = unat w div 2 ^ 32 * unat m * 2 ^ 32 + (unat a div 2 ^ 32 * 2 ^ 32 + unat a mod 2 ^ 32)"
    unfolding b unat_and_32 by (simp only: algebra_simps)
  also have "\<dots> = (unat w div 2 ^ 32 * 2 ^ 32 + unat w mod 2 ^ 32) * unat m + unat c"
    unfolding div_mult_mod_eq [of "unat a"] unfolding a by (simp only: algebra_simps)
  finally show ?thesis unfolding div_mult_mod_eq ..
qed

lemma unat_halves: "unat (push_bit 32 b + (a AND kMask32)) = unat b mod 2 ^ 32 * 2 ^ 32 + unat (a AND kMask32)" for a b :: uint64
proof -
  have "unat (push_bit 32 b) = unat b * 2 ^ 32 mod 2 ^ 64"
    by (simp only: unsigned_push_bit_eq) (simp add: push_bit_eq_mult take_bit_eq_mod)
  also have "\<dots> = unat b mod 2 ^ 32 * 2 ^ 32" using mult_mod_left [of "unat b" "2 ^ 32" "2 ^ 32"] by simp
  finally have p: "unat (push_bit 32 b) = unat b mod 2 ^ 32 * 2 ^ 32" .
  have "unat b mod 2 ^ 32 < 2 ^ 32" "unat a mod 2 ^ 32 < 2 ^ 32" by simp_all
  then show ?thesis unfolding unat_and_32 by (subst unat_add_small) (simp_all add: p unat_and_32)
qed

lemma U128_Multiply_correct:
  assumes "val128 u * unat m < 2 ^ 128"
  shows "returns (U128_Multiply u m) (\<lambda>r. val128 r = val128 u * unat m)"
proof -
  define M :: uint64 where "M = ucast m"
  have M: "unat M = unat m" "unat M < 2 ^ 32" using unat_less_32 [of m] by (simp_all add: M_def unsigned_ucast_eq take_bit_nat_eq_self)
  define a where "a = (low_bits u AND kMask32) * M"
  define b where "b = drop_bit 32 a + drop_bit 32 (low_bits u) * M"
  define c where "c = drop_bit 32 b + (high_bits u AND kMask32) * M"
  define d where "d = drop_bit 32 c + drop_bit 32 (high_bits u) * M"
  have carry: "unat (drop_bit 32 w) < 2 ^ 32" for w :: uint64
    unfolding unat_drop_bit using unat_less_64 [of w] by (intro less_mult_imp_div_less) simp
  have lo: "unat (low_bits u) * unat m = unat b * 2 ^ 32 + unat (a AND kMask32)"
    using half_products [OF M(2), of 0 "low_bits u"] by (simp add: a_def b_def M(1))
  have hi: "unat (high_bits u) * unat m + unat b div 2 ^ 32 = unat d * 2 ^ 32 + unat (c AND kMask32)"
    using half_products [OF M(2) carry [of b], of "high_bits u"] by (simp add: c_def d_def M(1) unat_drop_bit)
  let ?r = "\<lparr>high_bits = push_bit 32 d + (c AND kMask32), low_bits = push_bit 32 b + (a AND kMask32)\<rparr>"
  have "val128 u * unat m = unat (high_bits u) * unat m * 2 ^ 64 + unat (low_bits u) * unat m" by (simp add: val128_def algebra_simps)
  also have "\<dots> = unat (high_bits u) * unat m * 2 ^ 64 + ((unat b div 2 ^ 32 * 2 ^ 32 + unat b mod 2 ^ 32) * 2 ^ 32 + unat (a AND kMask32))"
    unfolding lo div_mult_mod_eq ..
  also have "\<dots> = (unat (high_bits u) * unat m + unat b div 2 ^ 32) * 2 ^ 64 + (unat b mod 2 ^ 32 * 2 ^ 32 + unat (a AND kMask32))"
  proof -
    have "(2 :: nat) ^ 64 = 2 ^ 32 * 2 ^ 32" by simp
    moreover have "H * (K * K) + ((q * K + r) * K + x) = (H + q) * (K * K) + (r * K + x)" for H K q r x :: nat by (simp add: algebra_simps)
    ultimately show ?thesis by (simp only:)
  qed
  finally have v: "val128 u * unat m = (unat d * 2 ^ 32 + unat (c AND kMask32)) * 2 ^ 64 + unat (push_bit 32 b + (a AND kMask32))"
    unfolding hi unat_halves .
  then have "unat d * 2 ^ 32 * 2 ^ 64 < 2 ^ 128" using assms by (simp add: algebra_simps)
  then have d: "unat d < 2 ^ 32" by simp
  then have z: "drop_bit 32 d = 0" by (simp add: unat_eq_0_iff [symmetric] unat_drop_bit)
  have "val128 ?r = val128 u * unat m" unfolding v using d by (simp add: val128_def unat_halves)
  then show ?thesis unfolding U128_Multiply_def Let_def
    by (simp add: wp M_def [symmetric] a_def [symmetric] b_def [symmetric] c_def [symmetric] d_def [symmetric] z)
qed

lemma val128_high:
  assumes "64 \<le> pow"
  shows "val128 u div 2 ^ pow = unat (high_bits u) div 2 ^ (pow - 64)"
    and "val128 u mod 2 ^ pow = unat (high_bits u) mod 2 ^ (pow - 64) * 2 ^ 64 + unat (low_bits u)"
proof -
  have "64 + (pow - 64) = pow" using assms by simp
  then have p: "(2 :: nat) ^ pow = 2 ^ 64 * 2 ^ (pow - 64)" by (simp only: power_add [symmetric])
  have d: "val128 u div 2 ^ 64 = unat (high_bits u)" "val128 u mod 2 ^ 64 = unat (low_bits u)"
    using unat_less_64 [of "low_bits u"] by (simp_all add: val128_def)
  show "val128 u div 2 ^ pow = unat (high_bits u) div 2 ^ (pow - 64)" unfolding p div_mult2_eq d ..
  show "val128 u mod 2 ^ pow = unat (high_bits u) mod 2 ^ (pow - 64) * 2 ^ 64 + unat (low_bits u)"
    unfolding p mod_mult2_eq d by (simp only: mult.commute)
qed

lemma U128_DivModPowerOf2_correct:
  assumes pow: "64 \<le> pow" "pow < 128" and small: "val128 u div 2 ^ pow < 2 ^ 31"
  shows "returns (U128_DivModPowerOf2 u pow) (\<lambda>(q, r). q = int (val128 u div 2 ^ pow) \<and> val128 r = val128 u mod 2 ^ pow)"
proof -
  let ?h = "high_bits u" and ?k = "pow - 64"
  define q where "q = unat ?h div 2 ^ ?k"
  have q: "val128 u div 2 ^ pow = q" unfolding q_def by (rule val128_high [OF pow(1)])
  have "unat (drop_bit ?k ?h) = q" unfolding unat_drop_bit q_def ..
  then have digit: "to_int (drop_bit ?k ?h) = int q" using small unfolding q by (subst to_int_small) simp_all
  have le: "q * 2 ^ ?k \<le> unat ?h" by (simp add: q_def)
  then have "q * 2 ^ ?k < 2 ^ 64" using unat_less_64 [of ?h] by (rule le_less_trans)
  moreover have "unat (of_int (int q) :: uint64) = q" using small unfolding q by (simp add: unat_of_nat)
  ultimately have "unat (push_bit ?k (of_int (int q) :: uint64)) = q * 2 ^ ?k" by (subst unat_push_bit_small) simp_all
  then have "unat (?h - push_bit ?k (of_int (int q))) = unat ?h mod 2 ^ ?k"
    using le by (subst unat_sub_small) (simp_all add: q_def minus_div_mult_eq_mod)
  then show ?thesis unfolding U128_DivModPowerOf2_def if_P [OF pow(1)] Let_def digit q
    using pow(2) val128_high(2) [OF pow(1), of u] by (simp add: wp val128_def)
qed

lemma U128_BitAt_correct:
  assumes "64 \<le> pos"
  shows "U128_BitAt u pos = 1 \<longleftrightarrow> odd (val128 u div 2 ^ pos)"
proof -
  have "unat (drop_bit (pos - 64) (high_bits u) AND mask 1) = unat (high_bits u) div 2 ^ (pos - 64) mod 2 ^ 1"
    unfolding unat_and_mask unat_drop_bit ..
  then have "unat (U128_BitAt u pos) = val128 u div 2 ^ pos mod 2"
    using assms val128_high(1) [OF assms, of u] by (simp add: U128_BitAt_def mask_eq_exp_minus_1)
  moreover have "U128_BitAt u pos = 1 \<longleftrightarrow> unat (U128_BitAt u pos) = 1" by (simp add: word_unat_eq_iff)
  ultimately show ?thesis by (simp add: odd_iff_mod_2_eq_one)
qed

lemma U128_Shift_correct:
  assumes s: "0 < s" "s \<le> 64"
  shows "returns (U128_Shift \<lparr>high_bits = f, low_bits = 0\<rparr> (int s)) (\<lambda>r. val128 r = unat f * 2 ^ (64 - s))"
proof (cases "s = 64")
  case True
  then show ?thesis by (simp add: U128_Shift_def wp val128_def)
next
  case False
  then have k: "64 - s + s = 64" "nat (64 - int s) = 64 - s" using s by simp_all
  have "(2 :: nat) ^ 64 = 2 ^ (64 - s) * 2 ^ s" by (simp only: power_add [symmetric] k(1))
  moreover have "unat (push_bit (64 - s) f) = unat f * 2 ^ (64 - s) mod 2 ^ 64"
    by (simp only: unsigned_push_bit_eq) (simp add: push_bit_eq_mult take_bit_eq_mod)
  ultimately have "unat (push_bit (64 - s) f) = unat f mod 2 ^ s * 2 ^ (64 - s)"
    using mult_mod_right [of "2 ^ (64 - s)" "unat f" "2 ^ s"] by (simp only: mult.commute)
  moreover have "unat f div 2 ^ s * 2 ^ 64 = unat f div 2 ^ s * 2 ^ s * 2 ^ (64 - s)"
    unfolding mult.assoc power_add [symmetric] using k(1) by (simp add: add.commute)
  ultimately have "unat (drop_bit s f) * 2 ^ 64 + unat (push_bit (64 - s) f) = (unat f div 2 ^ s * 2 ^ s + unat f mod 2 ^ s) * 2 ^ (64 - s)"
    unfolding unat_drop_bit distrib_right by simp
  then have "unat (drop_bit s f) * 2 ^ 64 + unat (push_bit (64 - s) f) = unat f * 2 ^ (64 - s)" unfolding div_mult_mod_eq .
  then show ?thesis using False s k(2) by (simp add: U128_Shift_def wp val128_def)
qed

section \<open>The fraction with 128 bits\<close>

lemma fractional_loop128_correct:
  assumes s: "filled N l x (buf, l)" and N: "l + k \<le> N" and F: "val128 F < 2 ^ 117" and k: "k \<le> 20"
  shows "returns (fractional_loop128 k (F, 128, buf, l)) (\<lambda>(f, point, buf, len). \<exists>i t. i \<le> k \<and> point = 128 - i \<and>
    filled N (l + i) t (buf, len) \<and> fraction_split 128 x (val128 F) i t (val128 f) \<and> (val128 f = 0 \<or> i = k))"
  unfolding fractional_loop128_def prod.case
proof (rule returns_bindI, rule returns_while [where m = "\<lambda>(i, f, point, buf, len). k - i" and
      I = "\<lambda>(i, f, point, buf, len). \<exists>t. i \<le> k \<and> point = 128 - i \<and> filled N (l + i) t (buf, len) \<and>
        fraction_split 128 x (val128 F) i t (val128 f)" and
      P = "\<lambda>(i, f, point, buf, len). \<exists>t. i \<le> k \<and> point = 128 - i \<and>
    filled N (l + i) t (buf, len) \<and> fraction_split 128 x (val128 F) i t (val128 f) \<and> (val128 f = 0 \<or> i = k)"], goal_cases)
  case 1
  have "val128 F < 2 ^ 128" using F by (rule less_trans) simp
  then show ?case using s fraction_split_start [of "val128 F" 128 x] by auto
next
  case (2 st)
  then obtain i f point b len t where st: "st = (i, f, point, b, len)" "i \<le> k" "point = 128 - i" "filled N (l + i) t (b, len)"
    "fraction_split 128 x (val128 F) i t (val128 f)" by (cases st) auto
  have z: "U128_IsZero f \<longleftrightarrow> val128 f = 0" by (simp add: U128_IsZero_def val128_def unat_eq_0_iff)
  show ?case
  proof (cases "i < k \<and> val128 f \<noteq> 0")
    case False
    then show ?thesis using st z by auto
  next
    case True
    then have f0: "0 < val128 f" and ik: "i < k" by simp_all
    note step = fraction_split_step [OF st(5) f0]
    have "val128 F * 128 \<le> 2 ^ 128" using F by simp
    then have room: "5 * val128 f < 2 ^ 128" by (rule fraction_split_room [OF st(5) order_refl])
    define r where "r = 128 - Suc i"
    have r: "point - 1 = r" "64 \<le> r" "r < 128" "0 < point" using st(3) ik k by (simp_all add: r_def)
    let ?d = "5 * val128 f div 2 ^ r"
    have d9: "?d \<le> 9" using step(2) by (simp add: r_def)
    have lt: "l + i < N" using ik N by simp
    note wr = write_filled [OF st(4) lt d9]
    have "val128 f * unat (5 :: uint32) < 2 ^ 128" using room by (simp add: mult.commute)
    from returns_ex [OF U128_Multiply_correct [OF this]] obtain g where g: "U128_Multiply f 5 = Some g" "val128 g = 5 * val128 f"
      by (auto simp: mult.commute)
    have "val128 g div 2 ^ r < 2 ^ 31" unfolding g(2) using d9 by simp
    from returns_ex [OF U128_DivModPowerOf2_correct [OF r(2,3) this]] obtain h where
      h: "U128_DivModPowerOf2 g r = Some (int ?d, h)" "val128 h = 5 * val128 f mod 2 ^ r" by (auto simp: g(2))
    have "filled N (l + Suc i) (10 * t + ?d) (b[l + i := digit_char ?d], Suc len)" using wr(2) by simp
    moreover have "fraction_split 128 x (val128 F) (Suc i) (10 * t + ?d) (val128 h)" unfolding h(2) using step(3) by (simp add: r_def)
    ultimately have post: "\<exists>t. filled N (Suc (l + i)) t (b[l + i := digit_char ?d], Suc len) \<and>
        fraction_split 128 x (val128 F) (Suc i) t (val128 h)" by (intro exI [of _ "10 * t + ?d"]) simp
    have e: "len = l + i" "l + i < length b" "r = 127 - i" using st(4) lt by (simp_all add: filled_def r_def)
    have test: "(i < k \<and> \<not> U128_IsZero f) = True" using True z by simp
    have dec: "k - Suc i < k - i" using ik by (rule diff_less_mono2 [OF lessI])
    show ?thesis unfolding st(1) prod.case returns_Some test if_True g(1) option_step r(1) h(1) Let_def
      using d9 r(4) post dec ik unfolding e(1) by (simp add: wp e(2)) (simp add: e(3))
  qed
next
  case (3 st)
  then show ?case by (cases st) auto
qed

end
