(* ===== verification/Fixed_Properties.thy ===== *)
theory Fixed_Properties
  imports Fixed_Wide
begin

text \<open>
  \<open>FastFixedDtoa\<close> as a whole: the digits are those of the double rounded half up at the requested position, with no zeros at their ends.
\<close>

section \<open>Rounding the last digit\<close>

lemma fraction_round:
  assumes s: "fraction_split p x F i t f" "i \<le> k" "f = 0 \<or> i = k"
  shows "real (round_half_up ((x * 2 ^ p + F) * 10 ^ k) (2 ^ p)) * 10 powi (- int k) = real (if 2 ^ (p - i) \<le> 2 * f then t + 1 else t) * 10 powi (- int i)"
proof -
  have p0: "(0 :: nat) < 2 ^ p" by simp
  have sp: "(x * 2 ^ p + F) * 10 ^ i = t * 2 ^ p + f * 2 ^ i" "i \<le> p" "f < 2 ^ (p - i)" using s(1) by (simp_all add: fraction_split_def)
  have pw: "(2 :: nat) ^ p = 2 ^ (p - i) * 2 ^ i" using sp(2) by (simp flip: power_add)
  show ?thesis
  proof (cases "f = 0")
    case True
    have "(10 :: nat) ^ k = 10 ^ i * 10 ^ (k - i)" using s(2) by (simp flip: power_add)
    then have "(x * 2 ^ p + F) * 10 ^ k = t * 2 ^ p * 10 ^ (k - i)" using sp(1) True by (simp only: mult.assoc [symmetric]) simp
    then have "(x * 2 ^ p + F) * 10 ^ k = (t * 10 ^ (k - i)) * 2 ^ p + 0" by (simp only: add_0_right mult_ac)
    from round_half_up_digit [OF p0 this p0] have r: "round_half_up ((x * 2 ^ p + F) * 10 ^ k) (2 ^ p) = t * 10 ^ (k - i)" by simp
    have "(10 :: real) ^ (k - i) * 10 powi (- int k) = 10 powi (- int i)" using s(2) by (simp add: power_int_add [symmetric] flip: power_int_of_nat)
    then show ?thesis unfolding r using True by simp
  next
    case False
    then have ik: "i = k" using s(3) by simp
    have "f * 2 ^ i < 2 ^ p" unfolding pw using sp(3) by simp
    from round_half_up_digit [OF p0 sp(1) this] have "round_half_up ((x * 2 ^ p + F) * 10 ^ i) (2 ^ p) = (if 2 ^ (p - i) * 2 ^ i \<le> 2 * f * 2 ^ i then Suc t else t)"
      unfolding pw by (simp only: mult.assoc)
    then show ?thesis unfolding ik by simp
  qed
qed

lemma top_bit: "f < 2 ^ Suc m \<Longrightarrow> odd (f div 2 ^ m) \<longleftrightarrow> 2 ^ Suc m \<le> 2 * f" for f :: nat
proof -
  assume f: "f < 2 ^ Suc m"
  show ?thesis
  proof (cases "2 ^ m \<le> f")
    case True
    then have "f div 2 ^ m = Suc 0" using f by (intro div_nat_eqI) simp_all
    with True show ?thesis by simp
  qed simp
qed

lemma round_bit64:
  fixes f :: uint64
  assumes f: "unat f < 2 ^ q" "0 < q"
  shows "drop_bit (nat (int q - 1)) f AND 1 = 1 \<longleftrightarrow> 2 ^ q \<le> 2 * unat f"
proof (cases q)
  case 0
  then show ?thesis using f(2) by simp
next
  case (Suc m)
  have "nat (int q - 1) = m" using Suc by simp
  moreover have "unat (drop_bit m f AND mask 1) = unat f div 2 ^ m mod 2 ^ 1" unfolding unat_and_mask unat_drop_bit ..
  then have "drop_bit m f AND 1 = 1 \<longleftrightarrow> odd (unat f div 2 ^ m)"
    by (simp add: word_unat_eq_iff mask_eq_exp_minus_1 odd_iff_mod_2_eq_one)
  ultimately show ?thesis using top_bit [of "unat f" m] f(1) Suc by simp
qed

lemma round_half_up_scale: "0 < c \<Longrightarrow> round_half_up (n * c) (d * c) = round_half_up n d"
proof -
  assume c: "0 < c"
  have "2 * (n * c) + d * c = (2 * n + d) * c" "2 * (d * c) = 2 * d * c" by (simp_all add: algebra_simps)
  then show ?thesis unfolding round_half_up_def using c by simp
qed

section \<open>Fractions\<close>

definition written :: "nat \<Rightarrow> nat \<Rightarrow> real \<Rightarrow> string \<times> nat \<times> int \<Rightarrow> bool" where
  "written N n v = (\<lambda>(b, l, point). length b = N \<and> l \<le> n \<and> list_all is_decimal (take l b) \<and> value_of (take l b) (point - int l) = v)"

lemma round_end:
  assumes b: "filled N (l + i) t (b, len)" and N: "0 < N" and up: "up \<longleftrightarrow> 2 ^ (p - i) \<le> 2 * f"
    and s: "fraction_split p x F i t f" "i \<le> k" "f = 0 \<or> i = k"
  shows "returns (if up then RoundUp (b, len, int l) else Some (b, len, int l))
    (written N (max 1 (l + k)) (real (round_half_up ((x * 2 ^ p + F) * 10 ^ k) (2 ^ p)) * 10 powi (- int k)))"
proof -
  have f: "length b = N" "len = l + i" "l + i \<le> N" "list_all is_decimal (take (l + i) b)" "text_digits (take (l + i) b) = t"
    using b by (simp_all add: filled_def)
  show ?thesis unfolding fraction_round [OF s]
  proof (cases up)
    case True
    have "returns (RoundUp (b, l + i, int l)) (\<lambda>(b', l', point'). length b' = length b \<and> l' \<le> max 1 (l + i) \<and> list_all is_decimal (take l' b') \<and>
      value_of (take l' b') (point' - int l') = real (text_digits (take (l + i) b) + 1) * 10 powi (int l - int (l + i)))"
      by (rule RoundUp_correct) (use f N in simp_all)
    then show "returns (if up then RoundUp (b, len, int l) else Some (b, len, int l))
      (written N (max 1 (l + k)) (real (if 2 ^ (p - i) \<le> 2 * f then t + 1 else t) * 10 powi (- int i)))"
      unfolding if_P [OF True] f(2) using True up s(2) f(1,5) by (auto simp: written_def elim!: returns_mono)
  next
    case False
    then show "returns (if up then RoundUp (b, len, int l) else Some (b, len, int l))
      (written N (max 1 (l + k)) (real (if 2 ^ (p - i) \<le> 2 * f then t + 1 else t) * 10 powi (- int i)))"
      using up s(2) f by (simp add: written_def value_of_def)
  qed
qed

text \<open>The shift by \<open>-1\<close> is reached where the fraction is odd and has no more bits than digits are requested.\<close>

lemma FillFractionals_undefined:
  assumes s: "filled N l x (buf, l)" and N: "l + k \<le> N" and F: "unat F < 2 ^ p" "unat F < 2 ^ 53" and k: "k \<le> 20"
    and odd: "odd (unat F)" "p \<le> k"
  shows "FillFractionals F (- int p) k (buf, l, int l) = None"
proof -
  have p: "p \<le> 64" using odd(2) k by simp
  have F56: "unat F < 2 ^ 56" using F(2) by simp
  then have z: "drop_bit 56 F = 0" by (simp add: unat_eq_0_iff [symmetric] unat_drop_bit)
  from returns_ex [OF fractional_loop_correct [OF s N F(1) F56 p]] obtain f b len i t where
    run: "fractional_loop k (F, int p, buf, l) = Some (f, int p - int i, b, len)" "i \<le> k"
      "fraction_split p x (unat F) i t (unat f)" "f = 0 \<or> i = k" by auto
  have "i = p"
  proof (cases "f = 0")
    case True
    then have "2 ^ (p - i) dvd unat F" using fraction_split_zero [OF run(3)] by simp
    then have "p - i = 0" using odd(1) by (cases "p - i") auto
    then show ?thesis using run(3) by (simp add: fraction_split_def)
  next
    case False
    then show ?thesis using run(3,4) odd(2) by (simp add: fraction_split_def)
  qed
  then show ?thesis using p z run(1) by (simp add: FillFractionals_def check_def)
qed

lemma FillFractionals_correct:
  assumes s: "filled N l x (buf, l)" and N: "l + k \<le> N" "0 < N" and F: "unat F < 2 ^ p" "unat F < 2 ^ 53" and p: "0 < p" "p \<le> 128" and k: "k \<le> 20"
    and good: "\<not> (odd (unat F) \<and> p \<le> k)"
  shows "returns (FillFractionals F (- int p) k (buf, l, int l))
    (written N (max 1 (l + k)) (real (round_half_up ((x * 2 ^ p + unat F) * 10 ^ k) (2 ^ p)) * 10 powi (- int k)))"
proof (cases "p \<le> 64")
  case True
  have F56: "unat F < 2 ^ 56" using F(2) by simp
  then have z: "drop_bit 56 F = 0" by (simp add: unat_eq_0_iff [symmetric] unat_drop_bit)
  from returns_ex [OF fractional_loop_correct [OF s N(1) F(1) F56 True]] obtain f b len i t where
    run: "fractional_loop k (F, int p, buf, l) = Some (f, int p - int i, b, len)" "i \<le> k" "filled N (l + i) t (b, len)"
      "fraction_split p x (unat F) i t (unat f)" "f = 0 \<or> i = k" "i = 0 \<or> \<not> 2 ^ (p - (i - 1)) dvd unat F" by auto
  have ip: "i \<le> p" "unat f < 2 ^ (p - i)" using run(4) by (simp_all add: fraction_split_def)
  have "i \<noteq> p"
  proof
    assume i: "i = p"
    then have "\<not> 2 ^ 1 dvd unat F" using run(6) p(1) by simp
    then show False using good run(2) i by simp
  qed
  then have q: "0 < p - i" "int (p - i) = int p - int i" "0 \<le> int p - int i - 1" "int p - int i - 1 < 64" using True ip by simp_all
  note bit = round_bit64 [OF ip(2) q(1), unfolded q(2)]
  have f0: "unat f = 0 \<or> i = k" using run(5) by auto
  note fin = round_end [OF run(3) N(2) bit run(4) run(2) f0]
  have eq: "FillFractionals F (- int p) k (buf, l, int l) = (if drop_bit (nat (int p - int i - 1)) f AND 1 = 1
      then RoundUp (b, len, int l) else Some (b, len, int l))"
    using True p z run(1) q(3,4) by (simp add: FillFractionals_def check_def)
  show ?thesis unfolding eq by (rule fin)
next
  case False
  define q where "q = p - 64"
  have q: "0 < q" "q \<le> 64" "int p - 64 = int q" "64 - q = 128 - p" using False p by (simp_all add: q_def)
  from returns_ex [OF U128_Shift_correct [OF q(1,2), of F]] obtain G where
    G: "U128_Shift \<lparr>high_bits = F, low_bits = 0\<rparr> (int q) = Some G" "val128 G = unat F * 2 ^ (128 - p)" unfolding q(4) by blast
  have "unat F * 2 ^ (128 - p) < 2 ^ 53 * 2 ^ 64"
    using F(2) False by (intro mult_less_le_imp_less power_increasing) simp_all
  then have G117: "val128 G < 2 ^ 117" unfolding G(2) by simp
  from returns_ex [OF fractional_loop128_correct [OF s N(1) G117 k]] obtain f b len i t where
    run: "fractional_loop128 k (G, 128, buf, l) = Some (f, 128 - i, b, len)" "i \<le> k" "filled N (l + i) t (b, len)"
      "fraction_split 128 x (val128 G) i t (val128 f)" "val128 f = 0 \<or> i = k" by auto
  have i: "i \<le> 20" using run(2) k by simp
  define m where "m = 127 - i"
  have m: "128 - i = Suc m" "64 \<le> m" "128 - i - 1 = m" using i by (simp_all add: m_def)
  have "val128 f < 2 ^ Suc m" using run(4) unfolding fraction_split_def m(1) by simp
  from top_bit [OF this] have bit: "U128_BitAt f (128 - i - 1) = 1 \<longleftrightarrow> 2 ^ (128 - i) \<le> 2 * val128 f"
    unfolding m(3) unfolding U128_BitAt_correct [OF m(2)] m(1) .
  note fin = round_end [OF run(3) N(2) bit run(4) run(2) run(5)]
  have "(2 :: nat) ^ 128 = 2 ^ p * 2 ^ (128 - p)" using p by (simp only: power_add [symmetric] le_add_diff_inverse)
  then have sc: "(x * 2 ^ 128 + val128 G) * 10 ^ k = (x * 2 ^ p + unat F) * 10 ^ k * 2 ^ (128 - p)" "(2 :: nat) ^ 128 = 2 ^ p * 2 ^ (128 - p)"
    unfolding G(2) by (simp_all only: algebra_simps)
  have r: "round_half_up ((x * 2 ^ 128 + val128 G) * 10 ^ k) (2 ^ 128) = round_half_up ((x * 2 ^ p + unat F) * 10 ^ k) (2 ^ p)"
    by (subst sc(1), subst sc(2), rule round_half_up_scale) simp
  have eq: "FillFractionals F (- int p) k (buf, l, int l) = (if U128_BitAt f (128 - i - 1) = 1
      then RoundUp (b, len, int l) else Some (b, len, int l))"
    using False p q G(1) run(1) i by (simp add: FillFractionals_def check_def)
  show ?thesis unfolding eq using fin unfolding r .
qed

section \<open>Integers of more than 64 bits\<close>

lemma ucast32_small: "unat w < 2 ^ 32 \<Longrightarrow> unat (ucast w :: uint32) = unat w" for w :: uint64
  by (simp add: unsigned_ucast_eq take_bit_nat_eq_self)

lemma split_scaled: "n * c = n div d * (d * c) + n mod d * c" for n d c :: nat
  by (simp only: mult.assoc [symmetric] distrib_right [symmetric] div_mult_mod_eq)

lemma large_split:
  fixes w :: uint64 and j i :: nat
  assumes w: "unat w < 2 ^ 56" and j: "j \<le> 5" and i: "i \<le> 17"
  defines "d \<equiv> push_bit j kFive17"
  shows "unat (ucast (w div d) :: uint32) < 10 ^ 5" "unat d = 5 ^ 17 * 2 ^ j" "unat (ucast (w div d) :: uint32) = unat w div unat d"
    "unat (push_bit i (w mod d)) = unat w mod unat d * 2 ^ i"
proof -
  have five: "unat kFive17 = 5 ^ 17" by (simp add: kFive17_def)
  have "(5 :: nat) ^ 17 * 2 ^ j \<le> 5 ^ 17 * 2 ^ 5" using j by (intro mult_le_mono power_increasing) simp_all
  then have lim: "(5 :: nat) ^ 17 * 2 ^ j < 2 ^ 46" by simp
  then show d: "unat d = 5 ^ 17 * 2 ^ j" unfolding d_def five [symmetric] by (intro unat_push_bit_small) simp
  have "(5 :: nat) ^ 17 * 1 \<le> 5 ^ 17 * 2 ^ j" by (intro mult_le_mono) simp_all
  then have d5: "5 ^ 17 \<le> unat d" unfolding d by simp
  have "unat w < 10 ^ 5 * 5 ^ 17" using w by simp
  also have "\<dots> \<le> 10 ^ 5 * unat d" by (rule mult_le_mono2 [OF d5])
  finally have q: "unat w div unat d < 10 ^ 5" by (rule less_mult_imp_div_less)
  have wd: "unat (w div d) = unat w div unat d" "unat (w mod d) = unat w mod unat d" by (simp_all add: unat_div unat_mod)
  show u: "unat (ucast (w div d) :: uint32) = unat w div unat d" using q wd by (subst ucast32_small) simp_all
  show "unat (ucast (w div d) :: uint32) < 10 ^ 5" unfolding u by (rule q)
  have "unat w mod unat d < unat d" using d5 by (intro mod_less_divisor) simp
  moreover have "unat d < 2 ^ 46" unfolding d by (rule lim)
  ultimately have "unat w mod unat d < 2 ^ 46" by (rule less_trans)
  then have "unat w mod unat d * 2 ^ i < 2 ^ 46 * 2 ^ 17" using i by (intro mult_less_le_imp_less power_increasing) simp_all
  then show "unat (push_bit i (w mod d)) = unat w mod unat d * 2 ^ i" unfolding wd(2) [symmetric] by (intro unat_push_bit_small) simp
qed

lemma fixed_large_correct:
  assumes m: "unat m < 2 ^ 53" and e: "12 \<le> e" "e \<le> 20" and N: "22 \<le> length buffer"
  shows "returns (fixed_large m (int e) buffer) (\<lambda>(b, l, point). l \<le> 22 \<and> point = int l \<and> filled (length buffer) l (unat m * 2 ^ e) (b, l))"
proof -
  have ten: "(10 :: nat) ^ 17 = 5 ^ 17 * 2 ^ 17" by simp
  have "\<exists>q r. fixed_large m (int e) buffer = do {
        (buffer, length) \<leftarrow> FillDigits32 q (buffer, 0);
        (buffer, length) \<leftarrow> FillDigits64FixedLength r (buffer, length);
        Some (buffer, length, int length) } \<and> unat q < 10 ^ 5 \<and> unat r < 10 ^ 17 \<and> unat q * 10 ^ 17 + unat r = unat m * 2 ^ e"
  proof (cases "17 < e")
    case True
    define w where "w = push_bit (e - 17) m"
    have "unat m * 2 ^ (e - 17) < 2 ^ 53 * 2 ^ 3" using m e by (intro mult_less_le_imp_less power_increasing) simp_all
    then have u: "unat w = unat m * 2 ^ (e - 17)" "unat w < 2 ^ 56" unfolding w_def by (subst unat_push_bit_small; simp)+
    note sp = large_split [OF u(2), of 0 17, simplified push_bit_0_id id_apply power_0 mult_1_right]
    have ten5: "(10 :: nat) ^ 17 = unat kFive17 * 2 ^ 17" by (simp add: kFive17_def)
    have me: "unat m * 2 ^ e = unat w * 2 ^ 17" unfolding u(1) mult.assoc power_add [symmetric] using True by simp
    have "unat m * 2 ^ e = unat w div unat kFive17 * 10 ^ 17 + unat w mod unat kFive17 * 2 ^ 17"
      unfolding me ten5 by (rule split_scaled)
    moreover have "unat w mod unat kFive17 * 2 ^ 17 < 10 ^ 17" unfolding ten using sp(2) by simp
    moreover have "fixed_large m (int e) buffer = do {
        (buffer, length) \<leftarrow> FillDigits32 (ucast (w div kFive17)) (buffer, 0);
        (buffer, length) \<leftarrow> FillDigits64FixedLength (push_bit 17 (w mod kFive17)) (buffer, length);
        Some (buffer, length, int length) }" using True by (simp add: fixed_large_def w_def Let_def nat_diff_distrib')
    ultimately show ?thesis using sp by (intro exI [of _ "ucast (w div kFive17)"] exI [of _ "push_bit 17 (w mod kFive17)"]) simp
  next
    case False
    define d where "d = push_bit (17 - e) kFive17"
    have m56: "unat m < 2 ^ 56" using m by simp
    have e17: "17 - e \<le> 5" "e \<le> 17" using False e by simp_all
    note sp = large_split [OF m56 e17, folded d_def]
    have de: "unat d * 2 ^ e = 10 ^ 17" unfolding sp(2) ten mult.assoc power_add [symmetric] using False by simp
    have "unat m * 2 ^ e = unat m div unat d * 10 ^ 17 + unat m mod unat d * 2 ^ e" unfolding de [symmetric] by (rule split_scaled)
    moreover have "unat m mod unat d < unat d" using sp(2) by (intro mod_less_divisor) simp
    then have "unat m mod unat d * 2 ^ e < 10 ^ 17" unfolding de [symmetric] by simp
    moreover have "fixed_large m (int e) buffer = do {
        (buffer, length) \<leftarrow> FillDigits32 (ucast (m div d)) (buffer, 0);
        (buffer, length) \<leftarrow> FillDigits64FixedLength (push_bit e (m mod d)) (buffer, length);
        Some (buffer, length, int length) }" using False by (simp add: fixed_large_def d_def Let_def nat_diff_distrib')
    ultimately show ?thesis using sp by (intro exI [of _ "ucast (m div d)"] exI [of _ "push_bit e (m mod d)"]) simp
  qed
  then obtain q r where run: "fixed_large m (int e) buffer = do {
        (buffer, length) \<leftarrow> FillDigits32 q (buffer, 0);
        (buffer, length) \<leftarrow> FillDigits64FixedLength r (buffer, length);
        Some (buffer, length, int length) }" and q: "unat q < 10 ^ 5" "unat r < 10 ^ 17" "unat q * 10 ^ 17 + unat r = unat m * 2 ^ e" by blast
  have start: "filled (length buffer) 0 0 (buffer, 0)" by (simp add: filled_def)
  show ?thesis unfolding run
  proof (rule returns_bindI [OF FillDigits32_correct [OF start _ q(1)]], use N in simp, clarify,
      rule returns_bindI [OF FillDigits64FixedLength_correct [OF _ _ q(2)]], assumption, use N in simp, clarify, goal_cases)
    case (1 b l d b' l')
    then show ?case using q(3) by (auto simp: filled_def)
  qed
qed

section \<open>The conversion\<close>

definition rounded_at :: "real \<Rightarrow> int \<Rightarrow> real" where
  "rounded_at v r = \<lfloor>v * 10 powi r + 1 / 2\<rfloor> * 10 powi (- r)"

lemma rounded_at_integer: "0 \<le> r \<Longrightarrow> rounded_at (real n) r = real n"
proof -
  assume r: "0 \<le> r"
  define k where "k = nat r"
  have "r = int k" using r by (simp add: k_def)
  moreover have "\<lfloor>real (n * 10 ^ k) + 1 / 2\<rfloor> = int (n * 10 ^ k)" by (rule floor_unique) simp_all
  ultimately show ?thesis by (simp add: rounded_at_def power_int_minus)
qed

lemma rounded_at_ratio: "rounded_at (real n / 2 ^ p) (int k) = real (round_half_up (n * 10 ^ k) (2 ^ p)) * 10 powi (- int k)"
proof -
  have "\<lfloor>real (n * 10 ^ k) / real (2 ^ p) + 1 / 2\<rfloor> = int (round_half_up (n * 10 ^ k) (2 ^ p))" by (rule round_half_up_floor) simp
  moreover have "real n / 2 ^ p * 10 powi int k = real (n * 10 ^ k) / real (2 ^ p)" by simp
  ultimately show ?thesis unfolding rounded_at_def by simp
qed

lemma rounded_at_tiny: "0 \<le> v \<Longrightarrow> v < 2 powi (-76) \<Longrightarrow> r \<le> 20 \<Longrightarrow> rounded_at v r = 0"
proof -
  assume v: "0 \<le> v" "v < 2 powi (-76)" "r \<le> 20"
  have "(2 :: real) powi (-76) \<le> 4 * 10 powi (-21)" by (simp add: power_int_minus)
  then have "v < 4 * 10 powi (-21)" using v(2) by simp
  then show ?thesis using below_half_rounds_to_0 [of v "-21" r] v by (simp add: rounded_at_def)
qed

text \<open>
  The calls on which the last test of \<open>FillFractionals\<close> shifts by \<open>-1\<close>: the number has exactly as many bits behind the point as
  it has decimal digits there, and all of them are requested.
\<close>

definition shifts_by_minus_one :: "double \<Rightarrow> int \<Rightarrow> bool" where
  "shifts_by_minus_one v r \<longleftrightarrow> D_Exponent v < 0 \<and> - D_Exponent v \<le> r \<and> r \<le> 20 \<and> odd (unat (D_Significand v))"

text \<open>The digits before the point of a number that has a fraction, and the fraction.\<close>

lemma integral_digits:
  fixes m :: uint64 and p :: nat
  assumes N: "20 \<le> length buffer"
  defines "i \<equiv> drop_bit p m"
  shows "returns (if i > 0xFFFFFFFF then FillDigits64 i (buffer, 0) else FillDigits32 (ucast i) (buffer, 0))
      (\<lambda>s. \<exists>d \<le> 20. filled (length buffer) d (unat m div 2 ^ p) s)"
    and "unat (m - push_bit p i) = unat m mod 2 ^ p"
proof -
  have start: "filled (length buffer) 0 0 (buffer, 0)" by (simp add: filled_def)
  have i: "unat i = unat m div 2 ^ p" unfolding i_def by (rule unat_drop_bit)
  have le: "unat m div 2 ^ p * 2 ^ p \<le> unat m" by simp
  then have "unat m div 2 ^ p * 2 ^ p < 2 ^ 64" using unat_less_64 [of m] by (rule le_less_trans)
  then have "unat (push_bit p i) = unat m div 2 ^ p * 2 ^ p" unfolding i [symmetric] by (intro unat_push_bit_small) simp
  then show "unat (m - push_bit p i) = unat m mod 2 ^ p" using le by (subst unat_sub_small) (simp_all add: minus_div_mult_eq_mod)
  show "returns (if i > 0xFFFFFFFF then FillDigits64 i (buffer, 0) else FillDigits32 (ucast i) (buffer, 0))
      (\<lambda>s. \<exists>d \<le> 20. filled (length buffer) d (unat m div 2 ^ p) s)"
  proof (cases "i > 0xFFFFFFFF")
    case True
    then show ?thesis using FillDigits64_correct [OF start, of i] N i by simp
  next
    case False
    then have "unat i < 2 ^ 32" by (simp add: word_less_nat_alt)
    then have u: "unat (ucast i :: uint32) = unat i" by (rule ucast32_small)
    have "unat (ucast i :: uint32) < 10 ^ 20" unfolding u using \<open>unat i < 2 ^ 32\<close> by simp
    from FillDigits32_correct [OF start _ this] False N u i show ?thesis by simp
  qed
qed

lemma odd_mod_power: "0 < p \<Longrightarrow> odd (n mod 2 ^ p) \<longleftrightarrow> odd n" for n :: nat
  by (simp add: dvd_mod_iff)

lemma FastFixedDtoa_undefined:
  assumes v: "unat v < D_inf_rank" and sh: "shifts_by_minus_one v r" and N: "41 \<le> length buffer"
  shows "FastFixedDtoa v r buffer = None"
proof -
  define m where "m = D_Significand v"
  define p where "p = nat (- D_Exponent v)"
  define i where "i = drop_bit p m"
  define k where "k = nat r"
  have p: "D_Exponent v = - int p" "0 < p" "p \<le> k" "k \<le> 20" "r = int k" and o: "odd (unat m)"
    using sh by (auto simp: shifts_by_minus_one_def p_def k_def m_def)
  have m53: "unat m < 2 ^ 53" using double.sig_less [OF v] by (simp add: m_def)
  have "20 \<le> length buffer" using N by simp
  note ints = integral_digits [OF this, where p = p and m = m, folded i_def]
  from returns_ex [OF ints(1)] obtain b l where
    run: "(if i > 0xFFFFFFFF then FillDigits64 i (buffer, 0) else FillDigits32 (ucast i) (buffer, 0)) = Some (b, l)"
      "l \<le> 20" "filled (length buffer) l (unat m div 2 ^ p) (b, l)" by (force simp: filled_def)
  have "unat m mod 2 ^ p \<le> unat m" by simp
  then have "unat m mod 2 ^ p < 2 ^ 53" using m53 by (rule le_less_trans)
  then have f: "unat (m - push_bit p i) < 2 ^ p" "unat (m - push_bit p i) < 2 ^ 53" "odd (unat (m - push_bit p i))"
    unfolding ints(2) using o p(2) by (simp_all add: odd_mod_power)
  have "l + k \<le> length buffer" using run(2) p(4) N by simp
  note none = FillFractionals_undefined [OF run(3) this f(1,2) p(4) f(3) p(3)]
  show ?thesis
    using p run(1) none by (cases "i > 0xFFFFFFFF") (simp_all add: FastFixedDtoa_def Let_def m_def [symmetric] i_def [symmetric])
qed

text \<open>The digits before the zeros are trimmed.\<close>

lemma fixed_digits:
  assumes v: "unat v < D_inf_rank" and e: "D_Exponent v \<le> 20" and r: "0 \<le> r" "r \<le> 20" and N: "41 \<le> length buffer"
    and good: "\<not> shifts_by_minus_one v r"
  defines "m \<equiv> D_Significand v" and "ex \<equiv> D_Exponent v"
  shows "returns (if ex + int D_kSignificandSize > 64 then fixed_large m ex buffer
           else if ex \<ge> 0 then do {
             (buffer, length) \<leftarrow> FillDigits64 (push_bit (nat ex) m) (buffer, 0);
             Some (buffer, length, int length)
           } else if ex > - int D_kSignificandSize then do {
             let integrals = drop_bit (nat (- ex)) m;
             let fractionals = m - push_bit (nat (- ex)) integrals;
             (buffer, length) \<leftarrow> (if integrals > 0xFFFFFFFF then FillDigits64 integrals (buffer, 0)
                                 else FillDigits32 (ucast integrals) (buffer, 0));
             FillFractionals fractionals ex (nat r) (buffer, length, int length)
           } else if ex < -128 then do {
             check (r \<le> 20);
             buffer \<leftarrow> vset buffer 0 (CHR 0x00);
             Some (buffer, 0, - r)
           } else FillFractionals m ex (nat r) (buffer, 0, 0))
    (written (length buffer) 40 (rounded_at (D_val (unat v)) r))"
proof -
  let ?N = "length buffer"
  have m53: "unat m < 2 ^ 53" using double.sig_less [OF v] by (simp add: m_def)
  have val: "D_val (unat v) = real (unat m) * 2 powi ex" using double.val_rank [OF v] by (simp add: m_def ex_def)
  have start: "filled ?N 0 0 (buffer, 0)" by (simp add: filled_def)
  have e20: "ex \<le> 20" using e by (simp add: ex_def)
  have N0: "0 < ?N" using N by linarith
  have whole: "written ?N 40 (rounded_at (D_val (unat v)) r) (b, l, int l)" if "filled ?N l (unat m * 2 ^ nat ex) (b, l')" "l \<le> 22" "0 \<le> ex" for b l l'
  proof -
    have "(2 :: real) powi ex = 2 ^ nat ex" using that(3) by (cases ex) simp_all
    then have "D_val (unat v) = real (unat m * 2 ^ nat ex)" unfolding val by simp
    then show ?thesis using that rounded_at_integer [OF r(1), of "unat m * 2 ^ nat ex"] by (simp add: filled_def written_def value_of_def)
  qed
  have frac: "returns (FillFractionals f ex (nat r) (b, l, int l)) (written ?N 40 (rounded_at (D_val (unat v)) r))"
    if b: "filled ?N l (unat m div 2 ^ nat (- ex)) (b, l)" "l \<le> 20" and f: "unat f = unat m mod 2 ^ nat (- ex)" and x: "-128 \<le> ex" "ex < 0" for f b l
  proof -
    define p k where "p = nat (- ex)" and "k = nat r"
    have pk: "ex = - int p" "r = int k" "0 < p" "p \<le> 128" "k \<le> 20" using x r by (simp_all add: p_def k_def)
    have fp: "unat f < 2 ^ p" "unat f \<le> unat m" using f by (simp_all add: p_def)
    have f53: "unat f < 2 ^ 53" using fp(2) m53 by (rule le_less_trans)
    have room: "l + k \<le> ?N" "max 1 (l + k) \<le> 40" using b(2) pk(5) N by simp_all
    have "odd (unat f) \<longleftrightarrow> odd (unat m)" unfolding f p_def [symmetric] by (rule odd_mod_power [OF pk(3)])
    then have ok: "\<not> (odd (unat f) \<and> p \<le> k)" using good pk r(2) unfolding shifts_by_minus_one_def m_def [symmetric] ex_def [symmetric] by auto
    have split: "unat m div 2 ^ p * 2 ^ p + unat f = unat m" unfolding f p_def by (rule div_mult_mod_eq)
    have "D_val (unat v) = real (unat m) / 2 ^ p" unfolding val pk(1) by (simp add: power_int_minus field_simps)
    then have "rounded_at (D_val (unat v)) r = real (round_half_up (unat m * 10 ^ k) (2 ^ p)) * 10 powi (- int k)"
      unfolding pk(2) by (simp only: rounded_at_ratio)
    moreover have "nat r = k" by (simp add: k_def)
    ultimately show ?thesis
      using FillFractionals_correct [OF b(1) [folded p_def] room(1) N0 fp(1) f53 pk(3-5) ok] room(2) unfolding split pk(1)
      by (auto simp: written_def elim!: returns_mono)
  qed
  consider (large) "ex + 53 > 64" | (int) "0 \<le> ex" "ex + 53 \<le> 64" | (mixed) "ex < 0" "-53 < ex" | (tiny) "ex < -128" | (small) "-128 \<le> ex" "ex \<le> -53"
    by linarith
  then show ?thesis
  proof cases
    case large
    define n where "n = nat ex"
    have n: "ex = int n" "12 \<le> n" "n \<le> 20" using large e20 by (simp_all add: n_def)
    have "22 \<le> ?N" using N by simp
    from fixed_large_correct [OF m53 n(2,3) this] show ?thesis
      using large whole unfolding n(1) by (auto elim!: returns_mono)
  next
    case int
    define n where "n = nat ex"
    have n: "ex = int n" "n \<le> 11" using int by (simp_all add: n_def)
    have "unat m * 2 ^ n < 2 ^ 53 * 2 ^ 11" using m53 n by (intro mult_less_le_imp_less power_increasing) simp_all
    then have u: "unat (push_bit n m) = unat m * 2 ^ nat ex" unfolding n(1) by (subst unat_push_bit_small) simp_all
    have "returns (FillDigits64 (push_bit n m) (buffer, 0)) (\<lambda>s. \<exists>d \<le> 20. filled ?N d (unat m * 2 ^ nat ex) s)"
      using FillDigits64_correct [OF start, of "push_bit n m"] N unfolding u by simp
    then have "returns (do { (buffer, length) \<leftarrow> FillDigits64 (push_bit n m) (buffer, 0); Some (buffer, length, int length) })
        (written ?N 40 (rounded_at (D_val (unat v)) r))"
    proof (rule returns_bindI, clarify, goal_cases)
      case (1 b l d)
      then have "l = d" by (simp add: filled_def)
      then show ?case using whole [of d b l] 1 int by simp
    qed
    then show ?thesis using int n by simp
  next
    case mixed
    define p where "p = nat (- ex)"
    define i where "i = drop_bit p m"
    have "20 \<le> ?N" using N by simp
    note ints = integral_digits [OF this, where p = p and m = m, folded i_def]
    have x: "-128 \<le> ex" "ex < 0" using mixed by simp_all
    have "returns (do {
        (buffer, length) \<leftarrow> (if i > 0xFFFFFFFF then FillDigits64 i (buffer, 0) else FillDigits32 (ucast i) (buffer, 0));
        FillFractionals (m - push_bit p i) ex (nat r) (buffer, length, int length) }) (written ?N 40 (rounded_at (D_val (unat v)) r))"
    proof (rule returns_bindI [OF ints(1)], clarify, goal_cases)
      case (1 b l d)
      then have "l = d" by (simp add: filled_def)
      then show ?case using frac [of l b "m - push_bit p i"] 1 ints(2) x unfolding p_def by simp
    qed
    then show ?thesis using mixed by (simp add: Let_def p_def [symmetric] i_def [symmetric])
  next
    case tiny
    have "real (unat m) < real (2 ^ 53)" using m53 by (simp only: of_nat_less_iff)
    moreover have "(2 :: real) powi ex \<le> 2 powi (-129)" using tiny by (intro power_int_increasing) simp_all
    ultimately have "D_val (unat v) < 2 ^ 53 * 2 powi (-129)" unfolding val by (intro mult_less_le_imp_less) simp_all
    also have "\<dots> = 2 powi (-76)" by (simp add: power_int_minus)
    finally have z: "rounded_at (D_val (unat v)) r = 0" using r by (intro rounded_at_tiny) (simp_all add: rank_val_nonneg)
    show ?thesis using tiny r N0 unfolding z by (simp add: wp written_def value_of_def)
  next
    case small
    have "(2 :: nat) ^ 53 \<le> 2 ^ nat (- ex)" using small by (intro power_increasing) simp_all
    then have lt: "unat m < 2 ^ nat (- ex)" using m53 by simp
    then have "filled ?N 0 (unat m div 2 ^ nat (- ex)) (buffer, 0)" "unat m = unat m mod 2 ^ nat (- ex)" using start by simp_all
    from frac [OF this(1) _ this(2)] show ?thesis using small by simp
  qed
qed

lemma FastFixedDtoa_correct:
  assumes v: "unat v < D_inf_rank" and r: "0 \<le> r" and N: "41 \<le> length buffer" and good: "\<not> shifts_by_minus_one v r"
  shows "returns (FastFixedDtoa v r buffer) (\<lambda>(ok, buf, l, point). (ok \<longleftrightarrow> D_Exponent v \<le> 20 \<and> r \<le> 20) \<and> length buf = length buffer \<and>
    (ok \<longrightarrow> l < length buffer \<and> list_all is_decimal (take l buf) \<and> buf ! l = CHR 0x00 \<and>
      (0 < l \<longrightarrow> buf ! 0 \<noteq> CHR ''0'' \<and> buf ! (l - 1) \<noteq> CHR ''0'') \<and> (l = 0 \<longrightarrow> point = - r) \<and>
      value_of (take l buf) (point - int l) = rounded_at (D_val (unat v)) r))"
proof (cases "D_Exponent v \<le> 20 \<and> r \<le> 20")
  case False
  then show ?thesis by (auto simp: FastFixedDtoa_def Let_def)
next
  case True
  then have e: "D_Exponent v \<le> 20" and r20: "r \<le> 20" by simp_all
  have no: "\<not> D_Exponent v > 20" "\<not> r > 20" using e r20 by simp_all
  show ?thesis unfolding FastFixedDtoa_def Let_def if_not_P [OF no(1)] if_not_P [OF no(2)]
  proof (rule returns_bindI [OF fixed_digits [OF v e r r20 N good, unfolded Let_def]], clarify, goal_cases)
    case (1 b l point)
    then have w: "length b = length buffer" "l \<le> 40" "list_all is_decimal (take l b)" "value_of (take l b) (point - int l) = rounded_at (D_val (unat v)) r"
      by (simp_all add: written_def)
    have lb: "l \<le> length b" using w(1,2) N by simp
    show ?case
    proof (rule returns_bindI [OF TrimZeros_correct [OF lb w(3)]], clarify, goal_cases)
      case (1 b' l' point')
      then have "l' < length b'" "l' < length buffer" using w(1,2) N by simp_all
      then show ?case using 1 w True by (auto simp: wp value_of_def nth_list_update)
    qed
  qed
qed

section \<open>Properties\<close>

text \<open>
  C23: \<open>FastFixedDtoa\<close> accepts exactly the finite doubles with a binary exponent of at most 20 and at most 20 requested digits, and on
  these it returns the digits of the double rounded half up to a multiple of \<open>10 ^ -r\<close>, terminated, with no zero in front or at the end;
  where this is zero it writes no digits and puts the point at \<open>-r\<close>. Its 64-bit and 128-bit numbers never overflow and none of its
  assertions fails. The exception are the doubles with at most 20 bits behind the point, and an odd significand, when at least as many
  digits as bits are requested: these, and no others, make \<open>FillFractionals\<close> shift by \<open>-1\<close>, which the language does not define.
  The rounding is the one of the exact value of the double: of the double next to \<open>0.15\<close> with two digits, the digits are \<open>15\<close>, and not
  \<open>2\<close> as the comment in \<open>fixed-dtoa.h\<close> says.
\<close>

theorem fast_fixed_dtoa_rounds:
  assumes "unat v < D_inf_rank" "0 \<le> r" "41 \<le> length buffer"
  shows "if shifts_by_minus_one v r then FastFixedDtoa v r buffer = None
    else \<exists>ok buf l point. FastFixedDtoa v r buffer = Some (ok, buf, l, point) \<and> (ok \<longleftrightarrow> D_Exponent v \<le> 20 \<and> r \<le> 20) \<and>
    (ok \<longrightarrow> l < length buffer \<and> list_all is_decimal (take l buf) \<and> buf ! l = CHR 0x00 \<and>
      (0 < l \<longrightarrow> buf ! 0 \<noteq> CHR ''0'' \<and> buf ! (l - 1) \<noteq> CHR ''0'') \<and> (l = 0 \<longrightarrow> point = - r) \<and>
      value_of (take l buf) (point - int l) = \<lfloor>D_val (unat v) * 10 powi r + 1 / 2\<rfloor> * 10 powi (- r))"
proof (cases "shifts_by_minus_one v r")
  case True
  then show ?thesis using FastFixedDtoa_undefined [OF assms(1) True assms(3)] by simp
next
  case False
  then show ?thesis using returns_ex [OF FastFixedDtoa_correct [OF assms False]] unfolding rounded_at_def by auto
qed

text \<open>The double next to \<open>0.15\<close>, with two digits.\<close>

theorem fast_fixed_dtoa_rounds_witness:
  "\<exists>buf l point. FastFixedDtoa 0x3FC3333333333333 2 (replicate 41 CHR ''x'') = Some (True, buf, l, point) \<and>
    l < 41 \<and> list_all is_decimal (take l buf) \<and> buf ! l = CHR 0x00 \<and>
    (0 < l \<longrightarrow> buf ! 0 \<noteq> CHR ''0'' \<and> buf ! (l - 1) \<noteq> CHR ''0'') \<and> value_of (take l buf) (point - int l) = 15 / 100"
proof -
  let ?v = "0x3FC3333333333333 :: double"
  have f: "D_Exponent ?v = -55" "\<not> shifts_by_minus_one ?v 2"
    by (simp_all add: shifts_by_minus_one_def D_Exponent_def D_IsDenormal_def D_kExponentMask_def )
  have v: "\<lfloor>D_val (unat ?v) * 10 powi 2 + 1 / 2\<rfloor> = 15" by (simp add: rank_val_def rank_sig_def rank_exp_def power_int_minus)
  show ?thesis using fast_fixed_dtoa_rounds [of ?v 2 "replicate 41 CHR ''x''"] f unfolding v by (auto simp: power_int_minus)
qed

text \<open>
  A call on which the shift by \<open>-1\<close> is reached: \<open>2 ^ 51 + 1 / 2\<close> with one digit.
\<close>

lemma fixed_shift_by_minus_one: "FastFixedDtoa 0x4320000000000001 1 (replicate 41 CHR 0x00) = None"
  by (rule FastFixedDtoa_undefined)
    (simp_all add: shifts_by_minus_one_def D_Exponent_def D_Significand_def D_IsDenormal_def D_kExponentMask_def D_kSignificandMask_def
      D_kHiddenBit_def )

end
