(* ===== verification/StringToDouble.thy ===== *)
theory StringToDouble
  imports Strtod
begin

text \<open>
  The class \<open>StringToDoubleConverter\<close> of \<open>double-conversion/double-conversion.cc\<close>. A pointer into the input is an
  index; reading through it is \<open>vget\<close>, which fails at the end of the input, so that a run that returns never reads
  outside of it. The long function \<open>StringToIeee\<close> is split at its own comments into phases. A phase returns a \<open>flow\<close>:
  the value and the number of processed characters of a \<open>return\<close> statement, a \<open>goto parsing_done\<close>, or the state in which
  the next phase starts.
\<close>

section \<open>The converter\<close>

record string_to_double_converter =
  std_flags :: uint32
  std_empty_string_value :: double
  std_junk_string_value :: double
  std_infinity_symbol :: "string option"
  std_nan_symbol :: "string option"

definition ALLOW_HEX :: uint32 where "ALLOW_HEX = 1"
definition ALLOW_OCTALS :: uint32 where "ALLOW_OCTALS = 2"
definition ALLOW_TRAILING_JUNK :: uint32 where "ALLOW_TRAILING_JUNK = 4"
definition ALLOW_LEADING_SPACES :: uint32 where "ALLOW_LEADING_SPACES = 8"
definition ALLOW_TRAILING_SPACES :: uint32 where "ALLOW_TRAILING_SPACES = 16"
definition ALLOW_SPACES_AFTER_SIGN :: uint32 where "ALLOW_SPACES_AFTER_SIGN = 32"

definition allows :: "string_to_double_converter \<Rightarrow> uint32 \<Rightarrow> bool" where
  "allows conv f \<longleftrightarrow> std_flags conv AND f \<noteq> 0"

definition kMaxSignificantDigits :: nat where "kMaxSignificantDigits = 772"
definition kBufferSize :: nat where "kBufferSize = kMaxSignificantDigits + 10"

section \<open>Characters\<close>

definition AdvanceToNonspace :: "string \<Rightarrow> nat \<Rightarrow> (bool \<times> nat) result" where
  "AdvanceToNonspace input current = do {
     current \<leftarrow> while_loop
       (\<lambda>current. if current \<noteq> length input then do { c \<leftarrow> vget input current; Some (c = CHR '' '') } else Some False)
       (\<lambda>current. Some (current + 1)) current;
     Some (current \<noteq> length input, current)
   }"

definition isDigit :: "int \<Rightarrow> int \<Rightarrow> bool" where
  "isDigit x radix \<longleftrightarrow>
     (x \<ge> of_char CHR ''0'' \<and> x \<le> of_char CHR ''9'' \<and> x < of_char CHR ''0'' + radix)
     \<or> (radix > 10 \<and> x \<ge> of_char CHR ''a'' \<and> x < of_char CHR ''a'' + radix - 10)
     \<or> (radix > 10 \<and> x \<ge> of_char CHR ''A'' \<and> x < of_char CHR ''A'' + radix - 10)"

definition SignedZero :: "bool \<Rightarrow> double" where
  "SignedZero sign = (if sign then double_minus 0 else 0)"

definition IsDecimalDigitForRadix :: "int \<Rightarrow> int \<Rightarrow> bool" where
  "IsDecimalDigitForRadix c radix \<longleftrightarrow>
     of_char CHR ''0'' \<le> c \<and> c \<le> of_char CHR ''9'' \<and> c - of_char CHR ''0'' < radix"

definition IsCharacterDigitForRadix :: "int \<Rightarrow> int \<Rightarrow> char \<Rightarrow> bool" where
  "IsCharacterDigitForRadix c radix a_character \<longleftrightarrow>
     radix > 10 \<and> c \<ge> of_char a_character \<and> c < of_char a_character + radix - 10"

text \<open>
  \<open>ConsumeSubString\<close>: the loop over the rest of the symbol. The C string of the symbol ends with a zero character,
  which the list does not have.
\<close>

fun consume_rest :: "string \<Rightarrow> nat \<Rightarrow> string \<Rightarrow> (bool \<times> nat) result" where
  "consume_rest input current [] = Some (True, current + 1)"
| "consume_rest input current (s # substring) =
     (let current = current + 1 in
      if current = length input then Some (False, current)
      else do {
        c \<leftarrow> vget input current;
        if c \<noteq> s then Some (False, current) else consume_rest input current substring
      })"

definition ConsumeSubString :: "string \<Rightarrow> nat \<Rightarrow> string \<Rightarrow> (bool \<times> nat) result" where
  "ConsumeSubString input current substring = do {
     c \<leftarrow> vget input current;
     s \<leftarrow> vget substring 0;
     check (c = s);
     consume_rest input current (tl substring)
   }"

section \<open>Numbers with a radix that is a power of two\<close>

text \<open>
  The state of the digit loop of \<open>RadixStringToIeee\<close>; \<open>rx_status\<close> is \<open>None\<close> while it runs, \<open>Some False\<close> after a
  \<open>break\<close> and \<open>Some True\<close> when the junk value is returned.
\<close>

record radix_state =
  rx_current :: nat
  rx_number :: uint64
  rx_exponent :: int
  rx_status :: "bool option"

definition radix_digit :: "int \<Rightarrow> int \<Rightarrow> int option" where
  "radix_digit radix c =
     (if IsDecimalDigitForRadix c radix then Some (c - of_char CHR ''0'')
      else if IsCharacterDigitForRadix c radix CHR ''a'' then Some (c - of_char CHR ''a'' + 10)
      else if IsCharacterDigitForRadix c radix CHR ''A'' then Some (c - of_char CHR ''A'' + 10)
      else None)"

text \<open>\<open>while (overflow > 1) { overflow_bits_count++; overflow >>= 1; }\<close>\<close>

definition overflow_bits :: "int \<Rightarrow> nat result" where
  "overflow_bits overflow = do {
     (overflow, count) \<leftarrow> while_loop (\<lambda>(overflow, count). Some (overflow > 1))
       (\<lambda>(overflow, count). Some (overflow div 2, count + 1)) (overflow, 1);
     Some count
   }"

text \<open>The digits after the overflow: they count, and all of them may be zero.\<close>

definition radix_tail :: "string \<Rightarrow> int \<Rightarrow> int \<Rightarrow> nat \<Rightarrow> int \<Rightarrow> (nat \<times> bool \<times> int) result" where
  "radix_tail input radix radix_log_2 current e = while_loop
     (\<lambda>(current, zero_tail, e). if current \<noteq> length input
        then do { c \<leftarrow> vget input current; Some (isDigit (of_char c) radix) } else Some False)
     (\<lambda>(current, zero_tail, e). do {
        c \<leftarrow> vget input current;
        e \<leftarrow> as_int32 (e + radix_log_2);
        Some (current + 1, zero_tail \<and> c = CHR ''0'', e) }) (current + 1, True, e)"

definition round_radix :: "int \<Rightarrow> nat \<Rightarrow> bool \<Rightarrow> uint64 \<Rightarrow> uint64" where
  "round_radix dropped_bits overflow_bits_count zero_tail number =
     (let middle_value = push_bit (overflow_bits_count - 1) 1 in
      if dropped_bits > middle_value then number + 1
      else if dropped_bits = middle_value then
        if number AND 1 \<noteq> 0 \<or> \<not> zero_tail then number + 1 else number
      else number)"

definition radix_overflow ::
  "string \<Rightarrow> nat \<Rightarrow> bool \<Rightarrow> nat \<Rightarrow> int \<Rightarrow> radix_state \<Rightarrow> radix_state result" where
  "radix_overflow input radix_log_2 allow_trailing_junk kSignificandSize overflow s = do {
     overflow_bits_count \<leftarrow> overflow_bits overflow;
     let dropped_bits_mask = push_bit overflow_bits_count 1 - 1;
     let dropped_bits = to_int (rx_number s) AND dropped_bits_mask;
     let number = drop_bit overflow_bits_count (rx_number s);
     (current, zero_tail, e) \<leftarrow>
       radix_tail input (2 ^ radix_log_2) (int radix_log_2) (rx_current s) (int overflow_bits_count);
     (nonspace, current) \<leftarrow> (if allow_trailing_junk then Some (False, current) else AdvanceToNonspace input current);
     if nonspace then Some (s\<lparr>rx_current := current, rx_status := Some True\<rparr>)
     else do {
       let number = round_radix dropped_bits overflow_bits_count zero_tail number;
       (number, e) \<leftarrow> (if number AND push_bit kSignificandSize 1 \<noteq> 0
                       then do { e \<leftarrow> as_int32 (e + 1); Some (drop_bit 1 number, e) }
                       else Some (number, e));
       Some \<lparr>rx_current = current, rx_number = number, rx_exponent = e, rx_status = Some False\<rparr>
     }
   }"

definition radix_step :: "string \<Rightarrow> nat \<Rightarrow> bool \<Rightarrow> nat \<Rightarrow> radix_state \<Rightarrow> radix_state result" where
  "radix_step input radix_log_2 allow_trailing_junk kSignificandSize s = do {
     c \<leftarrow> vget input (rx_current s);
     let radix = 2 ^ radix_log_2;
     case radix_digit radix (of_char c) of
       None \<Rightarrow>
         if allow_trailing_junk then Some (s\<lparr>rx_status := Some False\<rparr>)
         else do {
           (nonspace, current) \<leftarrow> AdvanceToNonspace input (rx_current s);
           Some (s\<lparr>rx_current := current, rx_status := Some nonspace\<rparr>)
         }
     | Some digit \<Rightarrow> do {
         let number = rx_number s * of_int radix + of_int digit;
         let overflow = to_int (drop_bit kSignificandSize number);
         if overflow \<noteq> 0
         then radix_overflow input radix_log_2 allow_trailing_junk kSignificandSize overflow (s\<lparr>rx_number := number\<rparr>)
         else do {
           let current = rx_current s + 1;
           Some (s\<lparr>rx_number := number, rx_current := current,
                   rx_status := if current = length input then Some False else None\<rparr>)
         }
       }
   }"

text \<open>
  The result is the value with the trailing pointer, which is \<open>None\<close> when the junk value is returned. The sign is not
  used after an overflow, as in the source.
\<close>

definition RadixStringToIeee ::
  "nat \<Rightarrow> string \<Rightarrow> nat \<Rightarrow> bool \<Rightarrow> bool \<Rightarrow> double \<Rightarrow> bool \<Rightarrow> (double \<times> nat option) result" where
  "RadixStringToIeee radix_log_2 input current sign allow_trailing_junk junk_string_value read_as_double = do {
     check (current \<noteq> length input);
     let kSignificandSize = (if read_as_double then D_kSignificandSize else S_kSignificandSize);
     current \<leftarrow> while_loop
       (\<lambda>current. if current \<noteq> length input then do { c \<leftarrow> vget input current; Some (c = CHR ''0'') } else Some False)
       (\<lambda>current. Some (current + 1)) current;
     if current = length input then Some (SignedZero sign, Some current)
     else do {
       s \<leftarrow> while_loop (\<lambda>s. Some (rx_status s = None))
         (radix_step input radix_log_2 allow_trailing_junk kSignificandSize)
         \<lparr>rx_current = current, rx_number = 0, rx_exponent = 0, rx_status = None\<rparr>;
       if rx_status s = Some True then Some (junk_string_value, None)
       else do {
         check (rx_number s < push_bit kSignificandSize 1);
         check (uint64_of_double (double_of_uint64 (rx_number s)) = rx_number s);
         let trailing_pointer = Some (rx_current s);
         if rx_exponent s = 0 then
           if sign then
             if rx_number s = 0 then Some (double_minus 0, trailing_pointer)
             else Some (double_minus (double_of_uint64 (rx_number s)), trailing_pointer)
           else Some (double_of_uint64 (rx_number s), trailing_pointer)
         else do {
           check (rx_number s \<noteq> 0);
           value \<leftarrow> DiyFpToUint64 (mk_diy (rx_number s) (rx_exponent s));
           Some (value, trailing_pointer)
         }
       }
     }
   }"

section \<open>The phases of StringToIeee\<close>

record parse_state =
  ps_current :: nat
  ps_sign :: bool
  ps_leading_zero :: bool
  ps_octal :: bool
  ps_buffer :: string
  ps_exponent :: int
  ps_significant_digits :: nat
  ps_insignificant_digits :: nat
  ps_nonzero_digit_dropped :: bool

datatype flow =
    Return (ret_value: double) (ret_count: nat)
  | Parsing_done parse_state
  | Go_on parse_state

type_synonym phase = "string_to_double_converter \<Rightarrow> string \<Rightarrow> parse_state \<Rightarrow> flow result"

definition junk :: "string_to_double_converter \<Rightarrow> flow" where
  "junk conv = Return (std_junk_string_value conv) 0"

text \<open>The phase \<open>f\<close> after the result of another one.\<close>

fun and_then :: "flow result \<Rightarrow> (parse_state \<Rightarrow> flow result) \<Rightarrow> flow result" where
  "and_then (Some (Go_on s)) f = f s"
| "and_then r f = r"

definition skip_leading_spaces :: phase where
  "skip_leading_spaces conv input s =
     (if ps_current s = length input then Some (Return (std_empty_string_value conv) 0)
      else if allows conv ALLOW_LEADING_SPACES \<or> allows conv ALLOW_TRAILING_SPACES then do {
        (nonspace, current) \<leftarrow> AdvanceToNonspace input (ps_current s);
        if \<not> nonspace then Some (Return (std_empty_string_value conv) current)
        else if \<not> allows conv ALLOW_LEADING_SPACES \<and> 0 \<noteq> current then Some (junk conv)
        else Some (Go_on (s\<lparr>ps_current := current\<rparr>))
      } else Some (Go_on s))"

definition parse_sign :: phase where
  "parse_sign conv input s = do {
     c \<leftarrow> vget input (ps_current s);
     if c = CHR ''+'' \<or> c = CHR ''-'' then do {
       let current = ps_current s + 1;
       (nonspace, next_non_space) \<leftarrow> AdvanceToNonspace input current;
       if \<not> nonspace then Some (junk conv)
       else if \<not> allows conv ALLOW_SPACES_AFTER_SIGN \<and> current \<noteq> next_non_space then Some (junk conv)
       else Some (Go_on (s\<lparr>ps_sign := (c = CHR ''-''), ps_current := next_non_space\<rparr>))
     } else Some (Go_on s)
   }"

text \<open>The first character of a C string; an empty one has its zero character there.\<close>

definition first_char :: "string \<Rightarrow> char" where
  "first_char symbol = (case symbol of [] \<Rightarrow> CHR 0x00 | c # _ \<Rightarrow> c)"

text \<open>The infinity and the NaN symbol are read in the same way.\<close>

definition parse_symbol :: "string option \<Rightarrow> double \<Rightarrow> phase" where
  "parse_symbol symbol value conv input s =
     (case symbol of
        None \<Rightarrow> Some (Go_on s)
      | Some symbol \<Rightarrow> do {
          c \<leftarrow> vget input (ps_current s);
          if c = first_char symbol then do {
            (matched, current) \<leftarrow> ConsumeSubString input (ps_current s) symbol;
            if \<not> matched then Some (junk conv)
            else if \<not> (allows conv ALLOW_TRAILING_SPACES \<or> allows conv ALLOW_TRAILING_JUNK) \<and> current \<noteq> length input
            then Some (junk conv)
            else do {
              (nonspace, current) \<leftarrow> (if allows conv ALLOW_TRAILING_JUNK then Some (False, current)
                                     else AdvanceToNonspace input current);
              if nonspace then Some (junk conv)
              else Some (Return (if ps_sign s then double_minus value else value) current)
            }
          } else Some (Go_on s)
        })"

text \<open>
  The zeros that start a number. \<open>skip_zeros\<close> is \<open>while (*current == '0')\<close> with a step at the end of the input; \<open>step\<close>
  is what the loop does to the exponent.
\<close>

definition skip_zeros :: "string \<Rightarrow> int \<Rightarrow> nat \<times> int \<Rightarrow> (nat \<times> int) result" where
  "skip_zeros input step = while_loop
     (\<lambda>(current, e). if current \<noteq> length input then do { c \<leftarrow> vget input current; Some (c = CHR ''0'') } else Some False)
     (\<lambda>(current, e). Some (current + 1, if current + 1 = length input then e else e + step))"

definition parse_hex :: "bool \<Rightarrow> phase" where
  "parse_hex read_as_double conv input s = do {
     let current = ps_current s + 1;
     hex \<leftarrow> (if current = length input then Some False
             else do { c \<leftarrow> vget input current; Some (isDigit (of_char c) 16) });
     if \<not> hex then Some (junk conv)
     else do {
       (result, tail_pointer) \<leftarrow> RadixStringToIeee 4 input current (ps_sign s) (allows conv ALLOW_TRAILING_JUNK)
         (std_junk_string_value conv) read_as_double;
       case tail_pointer of
         None \<Rightarrow> Some (Return result 0)
       | Some tail_pointer \<Rightarrow> do {
           (nonspace, tail_pointer) \<leftarrow> (if allows conv ALLOW_TRAILING_SPACES then AdvanceToNonspace input tail_pointer
                                        else Some (True, tail_pointer));
           Some (Return result tail_pointer)
         }
     }
   }"

definition parse_leading_zero :: "bool \<Rightarrow> phase" where
  "parse_leading_zero read_as_double conv input s = do {
     c \<leftarrow> vget input (ps_current s);
     if c = CHR ''0'' then do {
       let current = ps_current s + 1;
       if current = length input then Some (Return (SignedZero (ps_sign s)) current)
       else do {
         let s = s\<lparr>ps_current := current, ps_leading_zero := True\<rparr>;
         c \<leftarrow> vget input current;
         if allows conv ALLOW_HEX \<and> (c = CHR ''x'' \<or> c = CHR ''X'') then parse_hex read_as_double conv input s
         else do {
           (current, _) \<leftarrow> skip_zeros input 0 (current, 0);
           if current = length input then Some (Return (SignedZero (ps_sign s)) current)
           else Some (Go_on (s\<lparr>ps_current := current, ps_octal := allows conv ALLOW_OCTALS\<rparr>))
         }
       }
     } else Some (Go_on s)
   }"

text \<open>
  The digits of the integer part and of the fraction. The loops leave through \<open>goto parsing_done\<close> at the end of the input.
\<close>

definition integer_digit :: "char \<Rightarrow> parse_state \<Rightarrow> parse_state result" where
  "integer_digit c s = do {
     s \<leftarrow> (if ps_significant_digits s < kMaxSignificantDigits then do {
             check (length (ps_buffer s) < kBufferSize);
             Some (s\<lparr>ps_buffer := ps_buffer s @ [c], ps_significant_digits := ps_significant_digits s + 1\<rparr>)
           } else Some (s\<lparr>ps_insignificant_digits := ps_insignificant_digits s + 1,
                          ps_nonzero_digit_dropped := ps_nonzero_digit_dropped s \<or> c \<noteq> CHR ''0''\<rparr>));
     Some (s\<lparr>ps_octal := ps_octal s \<and> (of_char c :: int) < of_char CHR ''8'', ps_current := ps_current s + 1\<rparr>)
   }"

definition fraction_digit :: "char \<Rightarrow> parse_state \<Rightarrow> parse_state result" where
  "fraction_digit c s = do {
     s \<leftarrow> (if ps_significant_digits s < kMaxSignificantDigits then do {
             check (length (ps_buffer s) < kBufferSize);
             Some (s\<lparr>ps_buffer := ps_buffer s @ [c], ps_significant_digits := ps_significant_digits s + 1,
                     ps_exponent := ps_exponent s - 1\<rparr>)
           } else Some (s\<lparr>ps_nonzero_digit_dropped := ps_nonzero_digit_dropped s \<or> c \<noteq> CHR ''0''\<rparr>));
     Some (s\<lparr>ps_current := ps_current s + 1\<rparr>)
   }"

definition digit_loop :: "(char \<Rightarrow> parse_state \<Rightarrow> parse_state result) \<Rightarrow> string \<Rightarrow> parse_state \<Rightarrow> parse_state result" where
  "digit_loop body input = while_loop
     (\<lambda>s. if ps_current s \<noteq> length input then do { c \<leftarrow> vget input (ps_current s); Some (is_decimal c) } else Some False)
     (\<lambda>s. do { c \<leftarrow> vget input (ps_current s); body c s })"

definition parse_integer :: phase where
  "parse_integer conv input s = do {
     s \<leftarrow> digit_loop integer_digit input s;
     if ps_current s = length input then Some (Parsing_done s)
     else Some (Go_on (if ps_significant_digits s = 0 then s\<lparr>ps_octal := False\<rparr> else s))
   }"

definition parse_fraction :: phase where
  "parse_fraction conv input s = do {
     c \<leftarrow> vget input (ps_current s);
     if c = CHR ''.'' then
       if ps_octal s \<and> \<not> allows conv ALLOW_TRAILING_JUNK then Some (junk conv)
       else if ps_octal s then Some (Parsing_done s)
       else do {
         let s = s\<lparr>ps_current := ps_current s + 1\<rparr>;
         if ps_current s = length input then
           if ps_significant_digits s = 0 \<and> \<not> ps_leading_zero s then Some (junk conv) else Some (Parsing_done s)
         else do {
           (current, e) \<leftarrow> (if ps_significant_digits s = 0 then skip_zeros input (-1) (ps_current s, ps_exponent s)
                           else Some (ps_current s, ps_exponent s));
           if current = length input then Some (Return (SignedZero (ps_sign s)) current)
           else do {
             s \<leftarrow> digit_loop fraction_digit input (s\<lparr>ps_current := current, ps_exponent := e\<rparr>);
             if ps_current s = length input then Some (Parsing_done s) else Some (Go_on s)
           }
         }
       }
     else Some (Go_on s)
   }"

definition check_digits :: phase where
  "check_digits conv input s =
     (if \<not> ps_leading_zero s \<and> ps_exponent s = 0 \<and> ps_significant_digits s = 0 then Some (junk conv)
      else Some (Go_on s))"

text \<open>The digits of the exponent, with saturation; \<open>max_exponent\<close> is \<open>INT_MAX / 2\<close>.\<close>

definition max_exponent :: int where "max_exponent = (2 ^ 31 - 1) div 2"

definition exponent_loop :: "string \<Rightarrow> nat \<Rightarrow> (nat \<times> int) result" where
  "exponent_loop input current = while_loop
     (\<lambda>(current, num). if current \<noteq> length input then do { c \<leftarrow> vget input current; Some (is_decimal c) } else Some False)
     (\<lambda>(current, num). do {
        c \<leftarrow> vget input current;
        let digit = of_char c - of_char CHR ''0'';
        let num = (if num \<ge> max_exponent div 10 \<and> \<not> (num = max_exponent div 10 \<and> digit \<le> max_exponent mod 10)
                   then max_exponent else num * 10 + digit);
        Some (current + 1, num) }) (current, 0)"

definition no_exponent :: "string_to_double_converter \<Rightarrow> parse_state \<Rightarrow> flow" where
  "no_exponent conv s = (if allows conv ALLOW_TRAILING_JUNK then Parsing_done s else junk conv)"

definition parse_exponent :: phase where
  "parse_exponent conv input s = do {
     c \<leftarrow> vget input (ps_current s);
     if c = CHR ''e'' \<or> c = CHR ''E'' then
       if ps_octal s \<and> \<not> allows conv ALLOW_TRAILING_JUNK then Some (junk conv)
       else if ps_octal s then Some (Parsing_done s)
       else do {
         let s = s\<lparr>ps_current := ps_current s + 1\<rparr>;
         if ps_current s = length input then Some (no_exponent conv s)
         else do {
           c \<leftarrow> vget input (ps_current s);
           let signed = (c = CHR ''+'' \<or> c = CHR ''-'');
           let s = (if signed then s\<lparr>ps_current := ps_current s + 1\<rparr> else s);
           if signed \<and> ps_current s = length input then Some (no_exponent conv s)
           else do {
             d \<leftarrow> vget input (ps_current s);
             if \<not> is_decimal d then Some (no_exponent conv s)
             else do {
               check (cdiv (- max_exponent) 2 \<le> ps_exponent s \<and> ps_exponent s \<le> max_exponent div 2);
               (current, num) \<leftarrow> exponent_loop input (ps_current s);
               Some (Go_on (s\<lparr>ps_current := current, ps_exponent := ps_exponent s + (if c = CHR ''-'' then - num else num)\<rparr>))
             }
           }
         }
       }
     else Some (Go_on s)
   }"

definition check_trailing :: phase where
  "check_trailing conv input s =
     (if \<not> (allows conv ALLOW_TRAILING_SPACES \<or> allows conv ALLOW_TRAILING_JUNK) \<and> ps_current s \<noteq> length input
      then Some (junk conv)
      else do {
        (nonspace, current) \<leftarrow> (if allows conv ALLOW_TRAILING_JUNK then Some (False, ps_current s)
                               else AdvanceToNonspace input (ps_current s));
        if nonspace then Some (junk conv)
        else do {
          (nonspace, current) \<leftarrow> (if allows conv ALLOW_TRAILING_SPACES then AdvanceToNonspace input current
                                 else Some (False, current));
          Some (Parsing_done (s\<lparr>ps_current := current\<rparr>))
        }
      })"

text \<open>The code after the label \<open>parsing_done\<close>.\<close>

definition parsing_done :: "bool \<Rightarrow> string_to_double_converter \<Rightarrow> parse_state \<Rightarrow> (double \<times> nat) result" where
  "parsing_done read_as_double conv s = do {
     e \<leftarrow> as_int32 (ps_exponent s + int (ps_insignificant_digits s));
     if ps_octal s then do {
       (result, tail_pointer) \<leftarrow> RadixStringToIeee 3 (ps_buffer s) 0 (ps_sign s) (allows conv ALLOW_TRAILING_JUNK)
         (std_junk_string_value conv) read_as_double;
       check (tail_pointer \<noteq> None);
       Some (result, ps_current s)
     } else do {
       (buffer, e) \<leftarrow> (if ps_nonzero_digit_dropped s
                      then do { e \<leftarrow> as_int32 (e - 1); Some (ps_buffer s @ [CHR ''1''], e) }
                      else Some (ps_buffer s, e));
       check (length buffer < kBufferSize);
       converted \<leftarrow> (if read_as_double then Strtod buffer e
                    else do { f \<leftarrow> Strtof buffer e; Some (single_to_double f) });
       Some (if ps_sign s then double_minus converted else converted, ps_current s)
     }
   }"

definition initial_state :: parse_state where
  "initial_state = \<lparr>ps_current = 0, ps_sign = False, ps_leading_zero = False, ps_octal = False, ps_buffer = [],
     ps_exponent = 0, ps_significant_digits = 0, ps_insignificant_digits = 0, ps_nonzero_digit_dropped = False\<rparr>"

definition parse_number :: "bool \<Rightarrow> string_to_double_converter \<Rightarrow> string \<Rightarrow> flow result" where
  "parse_number read_as_double conv input =
     and_then (skip_leading_spaces conv input initial_state) (\<lambda>s.
     and_then (parse_sign conv input s) (\<lambda>s.
     and_then (parse_symbol (std_infinity_symbol conv) D_kInfinity conv input s) (\<lambda>s.
     and_then (parse_symbol (std_nan_symbol conv) D_kNaN conv input s) (\<lambda>s.
     and_then (parse_leading_zero read_as_double conv input s) (\<lambda>s.
     and_then (parse_integer conv input s) (\<lambda>s.
     and_then (parse_fraction conv input s) (\<lambda>s.
     and_then (check_digits conv input s) (\<lambda>s.
     and_then (parse_exponent conv input s) (\<lambda>s.
     check_trailing conv input s)))))))))"

text \<open>The value, and the number of processed characters.\<close>

definition StringToIeee ::
  "string_to_double_converter \<Rightarrow> string \<Rightarrow> bool \<Rightarrow> (double \<times> nat) result" where
  "StringToIeee conv input read_as_double = do {
     r \<leftarrow> parse_number read_as_double conv input;
     case r of
       Return value count \<Rightarrow> Some (value, count)
     | Parsing_done s \<Rightarrow> parsing_done read_as_double conv s
     | Go_on s \<Rightarrow> parsing_done read_as_double conv s
   }"

definition StringToDouble :: "string_to_double_converter \<Rightarrow> string \<Rightarrow> (double \<times> nat) result" where
  "StringToDouble conv buffer = StringToIeee conv buffer True"

definition StringToFloat :: "string_to_double_converter \<Rightarrow> string \<Rightarrow> (single \<times> nat) result" where
  "StringToFloat conv buffer = do {
     (value, count) \<leftarrow> StringToIeee conv buffer False;
     Some (double_to_single value, count)
   }"

end
