(* ===== verification/Parse_Loops.thy ===== *)
theory Parse_Loops
  imports StringToDouble Strtod_Properties
begin

text \<open>
  The loops of \<open>StringToIeee\<close> on an input that is split into what was read, what the loop reads and the rest: the state
  in which each of them ends, in closed form.
\<close>

section \<open>Reading the input\<close>

lemma vget_at: "vget (pre @ c # post) (length pre) = Some c"
  by (simp add: vget_def)

lemma vget_at2: "input = pre @ c # post \<Longrightarrow> i = length pre \<Longrightarrow> vget input i = Some c"
  by (simp add: vget_def)

lemma AdvanceToNonspace_stay:
  "c \<noteq> CHR '' '' \<Longrightarrow> input = pre @ c # post \<Longrightarrow> i = length pre \<Longrightarrow> AdvanceToNonspace input i = Some (True, i)"
  unfolding AdvanceToNonspace_def by (subst while_loop_stop) (simp_all add: vget_def)

lemma AdvanceToNonspace_end: "i = length input \<Longrightarrow> AdvanceToNonspace input i = Some (False, i)"
  unfolding AdvanceToNonspace_def by (subst while_loop_stop) simp_all

section \<open>Zeros\<close>

lemma skip_zeros_run:
  "input = pre @ replicate z CHR ''0'' @ c # post \<Longrightarrow> c \<noteq> CHR ''0'' \<Longrightarrow>
   skip_zeros input step (length pre, e) = Some (length pre + z, e + int z * step)"
proof (induction z arbitrary: pre e)
  case 0
  then show ?case unfolding skip_zeros_def by (subst while_loop_stop) (simp_all add: vget_def)
next
  case (Suc z)
  have "input = (pre @ [CHR ''0'']) @ replicate z CHR ''0'' @ c # post" using Suc.prems(1) by simp
  note IH = Suc.IH [OF this Suc.prems(2), of "e + step"]
  have "skip_zeros input step (length pre, e) = skip_zeros input step (Suc (length pre), e + step)"
    unfolding skip_zeros_def by (subst while_loop_step) (use Suc.prems(1) in \<open>simp_all add: vget_def\<close>)
  then show ?case using IH by (simp add: algebra_simps)
qed

lemma skip_zeros_all:
  "input = pre @ replicate z CHR ''0'' \<Longrightarrow> \<exists>e'. skip_zeros input step (length pre, e) = Some (length input, e')"
proof (induction z arbitrary: pre e)
  case 0
  then show ?case unfolding skip_zeros_def by (subst while_loop_stop) simp_all
next
  case (Suc z)
  have "input = (pre @ [CHR ''0'']) @ replicate z CHR ''0''" using Suc.prems by simp
  note IH = Suc.IH [OF this]
  have "\<exists>e'. skip_zeros input step (length pre, e) = skip_zeros input step (Suc (length pre), e')"
    unfolding skip_zeros_def by (subst while_loop_step) (use Suc.prems in \<open>auto simp: vget_def\<close>)
  then show ?case using IH by auto
qed

section \<open>Digits\<close>

text \<open>\<open>st w\<close> is the state after the digits \<open>w\<close>.\<close>

lemma digit_loop_run:
  assumes input: "input = pre @ u @ post" and u: "list_all is_decimal u" and post: "post = [] \<or> \<not> is_decimal (hd post)"
    and cur: "\<And>w. ps_current (st w) = length pre + length w"
    and step: "\<And>w c. is_decimal c \<Longrightarrow> list_all is_decimal w \<Longrightarrow> body c (st w) = Some (st (w @ [c]))"
  shows "digit_loop body input (st []) = Some (st u)"
proof -
  have "digit_loop body input (st w) = Some (st u)" if "u = w @ v" for v w
    using that
  proof (induction v arbitrary: w)
    case Nil
    then have c: "ps_current (st w) = length (pre @ u)" by (simp add: cur)
    show ?case unfolding digit_loop_def
    proof (subst while_loop_stop)
      show "(if ps_current (st w) \<noteq> length input then do { c \<leftarrow> vget input (ps_current (st w)); Some (is_decimal c) } else Some False) = Some False"
        using post unfolding c input by (cases post) (auto simp: vget_def nth_append)
    qed (use Nil in simp)
  next
    case (Cons c v)
    have dec: "is_decimal c" "list_all is_decimal w" using u Cons.prems by simp_all
    have at: "vget input (ps_current (st w)) = Some c" using Cons.prems unfolding cur input by (simp add: vget_def nth_append)
    have "digit_loop body input (st w) = digit_loop body input (st (w @ [c]))"
      unfolding digit_loop_def
      by (rule while_loop_step) (use dec at step [OF dec] input Cons.prems cur [of w] in simp_all)
    then show ?case using Cons.IH [of "w @ [c]"] Cons.prems by simp
  qed
  from this [of "[]" u] show ?thesis by simp
qed

text \<open>
  The digits that are kept are the first 772. The exponent counts the digits of the fraction among them; the digits of the
  integer part behind them are counted as insignificant.
\<close>

definition some_nonzero :: "string \<Rightarrow> bool" where
  "some_nonzero w \<longleftrightarrow> (\<exists>c \<in> set w. c \<noteq> CHR ''0'')"

lemma some_nonzero_simps [simp]: "\<not> some_nonzero []" "some_nonzero (w @ [c]) \<longleftrightarrow> some_nonzero w \<or> c \<noteq> CHR ''0''"
  by (auto simp: some_nonzero_def)

definition after_integer :: "parse_state \<Rightarrow> string \<Rightarrow> parse_state" where
  "after_integer s u = s\<lparr>ps_current := ps_current s + length u, ps_buffer := take kMaxSignificantDigits u,
     ps_significant_digits := length (take kMaxSignificantDigits u),
     ps_insignificant_digits := length u - kMaxSignificantDigits,
     ps_nonzero_digit_dropped := some_nonzero (drop kMaxSignificantDigits u)\<rparr>"

definition after_fraction :: "parse_state \<Rightarrow> string \<Rightarrow> string \<Rightarrow> parse_state" where
  "after_fraction s u g = s\<lparr>ps_current := ps_current s + length g, ps_buffer := take kMaxSignificantDigits (u @ g),
     ps_significant_digits := length (take kMaxSignificantDigits (u @ g)),
     ps_exponent := ps_exponent s - (int (length (take kMaxSignificantDigits (u @ g))) - int (length (take kMaxSignificantDigits u))),
     ps_nonzero_digit_dropped := some_nonzero (drop kMaxSignificantDigits (u @ g))\<rparr>"

lemma integer_loop:
  assumes "input = pre @ u @ post" "list_all is_decimal u" "post = [] \<or> \<not> is_decimal (hd post)"
    and s: "ps_current s = length pre" "ps_buffer s = []" "ps_significant_digits s = 0" "ps_insignificant_digits s = 0"
      "\<not> ps_nonzero_digit_dropped s" "\<not> ps_octal s"
  shows "digit_loop integer_digit input s = Some (after_integer s u)"
proof -
  have "after_integer s [] = s" using s by (simp add: after_integer_def)
  moreover have "digit_loop integer_digit input (after_integer s []) = Some (after_integer s u)"
  proof (rule digit_loop_run [OF assms(1-3)])
    fix w c
    show "integer_digit c (after_integer s w) = Some (after_integer s (w @ [c]))"
      using s by (auto simp: integer_digit_def after_integer_def kMaxSignificantDigits_def kBufferSize_def check_def)
  qed (simp add: after_integer_def s)
  ultimately show ?thesis by simp
qed

lemma fraction_loop:
  assumes "input = pre @ g @ post" "list_all is_decimal g" "post = [] \<or> \<not> is_decimal (hd post)"
    and s: "ps_current s = length pre" "ps_buffer s = take kMaxSignificantDigits u"
      "ps_significant_digits s = length (take kMaxSignificantDigits u)"
      "ps_nonzero_digit_dropped s = some_nonzero (drop kMaxSignificantDigits u)"
  shows "digit_loop fraction_digit input s = Some (after_fraction s u g)"
proof -
  have "after_fraction s u [] = s" using s by (simp add: after_fraction_def)
  moreover have "digit_loop fraction_digit input (after_fraction s u []) = Some (after_fraction s u g)"
  proof (rule digit_loop_run [OF assms(1-3)])
    fix w c
    show "fraction_digit c (after_fraction s u w) = Some (after_fraction s u (w @ [c]))"
      using s by (auto simp: fraction_digit_def after_fraction_def kMaxSignificantDigits_def kBufferSize_def check_def simp flip: append_assoc)
  qed (simp add: after_fraction_def s)
  ultimately show ?thesis by simp
qed

section \<open>The exponent\<close>

lemma exponent_digit:
  assumes "num = min n (nat max_exponent)" "d \<le> 9"
  shows "(if int num \<ge> max_exponent div 10 \<and> \<not> (int num = max_exponent div 10 \<and> int d \<le> max_exponent mod 10)
     then max_exponent else int num * 10 + int d) = int (min (10 * n + d) (nat max_exponent))"
  using assms by (auto simp: max_exponent_def min_def)

lemma exponent_loop_run:
  assumes input: "input = pre @ ds" and ds: "list_all is_decimal ds"
  shows "exponent_loop input (length pre) = Some (length input, int (min (text_digits ds) (nat max_exponent)))"
proof -
  let ?l = "\<lambda>w. (length pre + length w, int (min (text_digits w) (nat max_exponent)))"
  define loop where "loop = while_loop
     (\<lambda>(current, num). if current \<noteq> length input then do { c \<leftarrow> vget input current; Some (is_decimal c) } else Some False)
     (\<lambda>(current, num). do {
        c \<leftarrow> vget input current;
        let digit = of_char c - of_char CHR ''0'';
        let num = (if num \<ge> max_exponent div 10 \<and> \<not> (num = max_exponent div 10 \<and> digit \<le> max_exponent mod 10)
                   then max_exponent else num * 10 + digit);
        Some (current + 1, num) })"
  have "loop (?l w) = Some (?l ds)" if "ds = w @ v" for v w
    using that
  proof (induction v arbitrary: w)
    case Nil
    then show ?case unfolding loop_def by (subst while_loop_stop) (simp_all add: input)
  next
    case (Cons c v)
    have dec: "is_decimal c" using ds Cons.prems by simp
    then obtain d where d: "d \<le> 9" "c = digit_char d" by (auto simp: is_decimal_iff)
    have digit: "(of_char c :: int) = int d + 48"
      using of_char_digit_char [of d] d by (simp flip: of_nat_of_char [where ?'a = int])
    have at: "vget input (length pre + length w) = Some c" using Cons.prems by (simp add: input vget_def nth_append)
    have "loop (?l w) = loop (?l (w @ [c]))"
      unfolding loop_def
    proof (rule while_loop_step)
      show "(case ?l w of (current, num) \<Rightarrow> if current \<noteq> length input then do { c \<leftarrow> vget input current; Some (is_decimal c) } else Some False) = Some True"
        using at dec Cons.prems by (simp add: input)
      have "text_digits (w @ [c]) = 10 * text_digits w + d" using d by (simp add: text_digits_append)
      then show "(case ?l w of (current, num) \<Rightarrow> do {
          c \<leftarrow> vget input current;
          let digit = of_char c - of_char CHR ''0'';
          let num = (if num \<ge> max_exponent div 10 \<and> \<not> (num = max_exponent div 10 \<and> digit \<le> max_exponent mod 10)
                     then max_exponent else num * 10 + digit);
          Some (current + 1, num) }) = Some (?l (w @ [c]))"
        using at exponent_digit [OF refl d(1), of "text_digits w"] by (auto simp: digit Let_def split: if_splits)
    qed
    then show ?case using Cons.IH [of "w @ [c]"] Cons.prems by simp
  qed
  from this [of "[]" ds] have "loop (length pre, 0) = Some (?l ds)" by simp
  moreover have "length input = length pre + length ds" by (simp add: input)
  ultimately show ?thesis unfolding exponent_loop_def loop_def by simp
qed

end
