(* ===== verification/FastDtoa.thy ===== *)
theory FastDtoa
  imports CachedPowers FloatOps Digits
begin

text \<open>
  \<open>double-conversion/fast-dtoa.cc\<close>: the Grisu3 conversion of a \<open>double\<close> to digits with 64-bit arithmetic. It returns a
  truth value beside the digits; with \<open>False\<close> the digits are not to be used. Buffers, lengths and exponents that the
  source passes by pointer are passed and returned; an out-parameter that a path does not set is returned as 0.
\<close>

datatype FastDtoaMode =
    FAST_DTOA_SHORTEST
  | FAST_DTOA_SHORTEST_SINGLE
  | FAST_DTOA_PRECISION

definition kMinimalTargetExponent :: int where "kMinimalTargetExponent = -60"
definition kMaximalTargetExponent :: int where "kMaximalTargetExponent = -32"

section \<open>Rounding\<close>

text \<open>The loop of \<open>RoundWeed\<close> that moves the digits toward \<open>w\<close>; the state is the buffer and the rest.\<close>

definition weed_loop ::
  "nat \<Rightarrow> uint64 \<Rightarrow> uint64 \<Rightarrow> uint64 \<Rightarrow> string \<times> uint64 \<Rightarrow> (string \<times> uint64) result" where
  "weed_loop len small_distance unsafe_interval ten_kappa = while_loop
     (\<lambda>(buffer, rest). Some (rest < small_distance \<and> unsafe_interval - rest \<ge> ten_kappa \<and>
        (rest + ten_kappa < small_distance \<or> small_distance - rest \<ge> rest + ten_kappa - small_distance)))
     (\<lambda>(buffer, rest). do {
        check (len > 0);
        buffer \<leftarrow> vdecr buffer (len - 1);
        Some (buffer, rest + ten_kappa) })"

definition RoundWeed ::
  "string \<Rightarrow> nat \<Rightarrow> uint64 \<Rightarrow> uint64 \<Rightarrow> uint64 \<Rightarrow> uint64 \<Rightarrow> uint64 \<Rightarrow> (bool \<times> string) result" where
  "RoundWeed buffer len distance_too_high_w unsafe_interval rest ten_kappa unit = do {
     let small_distance = distance_too_high_w - unit;
     let big_distance = distance_too_high_w + unit;
     check (rest \<le> unsafe_interval);
     (buffer, rest) \<leftarrow> weed_loop len small_distance unsafe_interval ten_kappa (buffer, rest);
     if rest < big_distance \<and> unsafe_interval - rest \<ge> ten_kappa \<and>
        (rest + ten_kappa < big_distance \<or> big_distance - rest > rest + ten_kappa - big_distance)
     then Some (False, buffer)
     else Some (2 * unit \<le> rest \<and> rest \<le> unsafe_interval - 4 * unit, buffer)
   }"

text \<open>The increment of the last digit with its carry, which \<open>RoundWeedCounted\<close> has inline.\<close>

definition increment_digits :: "nat \<Rightarrow> string \<Rightarrow> int \<Rightarrow> (string \<times> int) result" where
  "increment_digits len buffer kappa = do {
     check (len > 0);
     buffer \<leftarrow> vincr buffer (len - 1);
     (buffer, i) \<leftarrow> while_loop
       (\<lambda>(buffer, i). if i > 0 then do { c \<leftarrow> vget buffer i; Some (c = digit_char 10) } else Some False)
       (\<lambda>(buffer, i). do {
          buffer \<leftarrow> vset buffer i CHR ''0'';
          buffer \<leftarrow> vincr buffer (i - 1);
          Some (buffer, i - 1) }) (buffer, len - 1);
     c \<leftarrow> vget buffer 0;
     if c = digit_char 10 then do {
       buffer \<leftarrow> vset buffer 0 CHR ''1'';
       Some (buffer, kappa + 1)
     } else Some (buffer, kappa)
   }"

definition RoundWeedCounted ::
  "string \<Rightarrow> nat \<Rightarrow> uint64 \<Rightarrow> uint64 \<Rightarrow> uint64 \<Rightarrow> int \<Rightarrow> (bool \<times> string \<times> int) result" where
  "RoundWeedCounted buffer len rest ten_kappa unit kappa = do {
     check (rest < ten_kappa);
     if unit \<ge> ten_kappa then Some (False, buffer, kappa)
     else if ten_kappa - unit \<le> unit then Some (False, buffer, kappa)
     else if ten_kappa - rest > rest \<and> ten_kappa - 2 * rest \<ge> 2 * unit then Some (True, buffer, kappa)
     else if rest > unit \<and> ten_kappa - (rest - unit) \<le> rest - unit then do {
       (buffer, kappa) \<leftarrow> increment_digits len buffer kappa;
       Some (True, buffer, kappa)
     } else Some (False, buffer, kappa)
   }"

section \<open>The first power of ten\<close>

definition kSmallPowersOfTen :: "uint32 list" where
  "kSmallPowersOfTen = [0, 1, 10, 100, 1000, 10000, 100000, 1000000, 10000000, 100000000, 1000000000]"

text \<open>The shift \<open>1u << (number_bits + 1)\<close> of the assertion is defined for less than 32 bits only.\<close>

definition BiggestPowerTen :: "uint32 \<Rightarrow> nat \<Rightarrow> (uint32 \<times> nat) result" where
  "BiggestPowerTen number number_bits = do {
     check (number_bits + 1 < 32);
     check (number < push_bit (number_bits + 1) 1);
     let guess = (number_bits + 1) * 1233 div 2 ^ 12;
     let guess = guess + 1;
     p \<leftarrow> vget kSmallPowersOfTen guess;
     let guess = (if number < p then guess - 1 else guess);
     p \<leftarrow> vget kSmallPowersOfTen guess;
     Some (p, guess)
   }"

section \<open>Digit generation\<close>

text \<open>
  The state of the digit loops: the remaining integral part with its divisor, or the remaining fraction with the
  scaled unit and interval; the digits so far; and the result of the \<open>return\<close> statement that ends a loop.
\<close>

record gen_state =
  gen_integrals :: uint32
  gen_divisor :: uint32
  gen_fractionals :: uint64
  gen_unit :: uint64
  gen_unsafe :: uint64
  gen_requested :: int
  gen_kappa :: int
  gen_buffer :: string
  gen_length :: nat
  gen_result :: "bool option"

definition emit_integral :: "gen_state \<Rightarrow> gen_state result" where
  "emit_integral s = do {
     check (gen_divisor s \<noteq> 0);
     let digit = sint (gen_integrals s div gen_divisor s);
     check (0 \<le> digit \<and> digit \<le> 9);
     buffer \<leftarrow> vset (gen_buffer s) (gen_length s) (digit_char (nat digit));
     Some (s\<lparr>gen_buffer := buffer, gen_length := gen_length s + 1,
             gen_integrals := gen_integrals s mod gen_divisor s, gen_kappa := gen_kappa s - 1\<rparr>)
   }"

definition emit_fractional :: "diy_fp \<Rightarrow> gen_state \<Rightarrow> gen_state result" where
  "emit_fractional one s = do {
     let fractionals = gen_fractionals s * 10;
     let digit = to_int (drop_bit (nat (- diy_e one)) fractionals);
     check (0 \<le> digit \<and> digit \<le> 9);
     buffer \<leftarrow> vset (gen_buffer s) (gen_length s) (digit_char (nat digit));
     Some (s\<lparr>gen_buffer := buffer, gen_length := gen_length s + 1,
             gen_fractionals := fractionals AND (diy_f one - 1), gen_kappa := gen_kappa s - 1\<rparr>)
   }"

text \<open>One round of the \<open>while (*kappa > 0)\<close> loop of \<open>DigitGen\<close>.\<close>

definition gen_integral_step :: "diy_fp \<Rightarrow> uint64 \<Rightarrow> gen_state \<Rightarrow> gen_state result" where
  "gen_integral_step one distance s = do {
     s \<leftarrow> emit_integral s;
     let rest = push_bit (nat (- diy_e one)) (ucast (gen_integrals s)) + gen_fractionals s;
     if rest < gen_unsafe s then do {
       (r, buffer) \<leftarrow> RoundWeed (gen_buffer s) (gen_length s) distance (gen_unsafe s) rest
                        (push_bit (nat (- diy_e one)) (ucast (gen_divisor s))) (gen_unit s);
       Some (s\<lparr>gen_buffer := buffer, gen_result := Some r\<rparr>)
     } else Some (s\<lparr>gen_divisor := gen_divisor s div 10\<rparr>)
   }"

text \<open>One round of its \<open>for (;;)\<close> loop.\<close>

definition gen_fractional_step :: "diy_fp \<Rightarrow> uint64 \<Rightarrow> gen_state \<Rightarrow> gen_state result" where
  "gen_fractional_step one distance s = do {
     let s = s\<lparr>gen_unit := gen_unit s * 10, gen_unsafe := gen_unsafe s * 10\<rparr>;
     s \<leftarrow> emit_fractional one s;
     if gen_fractionals s < gen_unsafe s then do {
       (r, buffer) \<leftarrow> RoundWeed (gen_buffer s) (gen_length s) (distance * gen_unit s) (gen_unsafe s)
                        (gen_fractionals s) (diy_f one) (gen_unit s);
       Some (s\<lparr>gen_buffer := buffer, gen_result := Some r\<rparr>)
     } else Some s
   }"

definition DigitGen ::
  "diy_fp \<Rightarrow> diy_fp \<Rightarrow> diy_fp \<Rightarrow> string \<Rightarrow> (bool \<times> string \<times> nat \<times> int) result" where
  "DigitGen low w high buffer = do {
     check (diy_e low = diy_e w \<and> diy_e w = diy_e high);
     check (diy_f low + 1 \<le> diy_f high - 1);
     check (kMinimalTargetExponent \<le> diy_e w \<and> diy_e w \<le> kMaximalTargetExponent);
     let unit = 1;
     let too_low = mk_diy (diy_f low - unit) (diy_e low);
     let too_high = mk_diy (diy_f high + unit) (diy_e high);
     unsafe_interval \<leftarrow> Minus too_high too_low;
     let one = mk_diy (push_bit (nat (- diy_e w)) 1) (diy_e w);
     let integrals = ucast (drop_bit (nat (- diy_e one)) (diy_f too_high));
     let fractionals = diy_f too_high AND (diy_f one - 1);
     (divisor, divisor_exponent_plus_one) \<leftarrow> BiggestPowerTen integrals (nat (64 - (- diy_e one)));
     distance \<leftarrow> Minus too_high w;
     s \<leftarrow> while_loop (\<lambda>s. Some (gen_result s = None \<and> gen_kappa s > 0)) (gen_integral_step one (diy_f distance))
       \<lparr>gen_integrals = integrals, gen_divisor = divisor, gen_fractionals = fractionals, gen_unit = unit,
        gen_unsafe = diy_f unsafe_interval, gen_requested = 0, gen_kappa = int divisor_exponent_plus_one,
        gen_buffer = buffer, gen_length = 0, gen_result = None\<rparr>;
     case gen_result s of
       Some r \<Rightarrow> Some (r, gen_buffer s, gen_length s, gen_kappa s)
     | None \<Rightarrow> do {
         check (diy_e one \<ge> -60);
         check (gen_fractionals s < diy_f one);
         check (0xFFFFFFFFFFFFFFFF div 10 \<ge> diy_f one);
         s \<leftarrow> while_loop (\<lambda>s. Some (gen_result s = None)) (gen_fractional_step one (diy_f distance)) s;
         Some (gen_result s = Some True, gen_buffer s, gen_length s, gen_kappa s)
       }
   }"

text \<open>
  The loops of \<open>DigitGenCounted\<close>. The \<open>break\<close> of the first one skips the division of the divisor; the unit is the
  \<open>w_error\<close> of the source.
\<close>

definition counted_integral_step :: "gen_state \<Rightarrow> gen_state result" where
  "counted_integral_step s = do {
     s \<leftarrow> emit_integral s;
     let s = s\<lparr>gen_requested := gen_requested s - 1\<rparr>;
     if gen_requested s = 0 then Some s else Some (s\<lparr>gen_divisor := gen_divisor s div 10\<rparr>)
   }"

definition counted_fractional_step :: "diy_fp \<Rightarrow> gen_state \<Rightarrow> gen_state result" where
  "counted_fractional_step one s = do {
     let s = s\<lparr>gen_unit := gen_unit s * 10\<rparr>;
     s \<leftarrow> emit_fractional one s;
     Some (s\<lparr>gen_requested := gen_requested s - 1\<rparr>)
   }"

definition DigitGenCounted ::
  "diy_fp \<Rightarrow> int \<Rightarrow> string \<Rightarrow> (bool \<times> string \<times> nat \<times> int) result" where
  "DigitGenCounted w requested_digits buffer = do {
     check (kMinimalTargetExponent \<le> diy_e w \<and> diy_e w \<le> kMaximalTargetExponent);
     check (kMinimalTargetExponent \<ge> -60);
     check (kMaximalTargetExponent \<le> -32);
     let one = mk_diy (push_bit (nat (- diy_e w)) 1) (diy_e w);
     let integrals = ucast (drop_bit (nat (- diy_e one)) (diy_f w));
     let fractionals = diy_f w AND (diy_f one - 1);
     (divisor, divisor_exponent_plus_one) \<leftarrow> BiggestPowerTen integrals (nat (64 - (- diy_e one)));
     \<comment> \<open>the loop of the source runs its body before it tests the digits requested\<close>
     s \<leftarrow> while_loop
       (\<lambda>s. Some (gen_kappa s > 0 \<and> (gen_length s = 0 \<or> gen_requested s \<noteq> 0))) counted_integral_step
       \<lparr>gen_integrals = integrals, gen_divisor = divisor, gen_fractionals = fractionals, gen_unit = 1,
        gen_unsafe = 0, gen_requested = requested_digits, gen_kappa = int divisor_exponent_plus_one,
        gen_buffer = buffer, gen_length = 0, gen_result = None\<rparr>;
     if gen_requested s = 0 then do {
       let rest = push_bit (nat (- diy_e one)) (ucast (gen_integrals s)) + gen_fractionals s;
       (r, buffer, kappa) \<leftarrow> RoundWeedCounted (gen_buffer s) (gen_length s) rest
         (push_bit (nat (- diy_e one)) (ucast (gen_divisor s))) (gen_unit s) (gen_kappa s);
       Some (r, buffer, gen_length s, kappa)
     } else do {
       check (diy_e one \<ge> -60);
       check (gen_fractionals s < diy_f one);
       check (0xFFFFFFFFFFFFFFFF div 10 \<ge> diy_f one);
       s \<leftarrow> while_loop (\<lambda>s. Some (gen_requested s > 0 \<and> gen_fractionals s > gen_unit s))
         (counted_fractional_step one) s;
       if gen_requested s \<noteq> 0 then Some (False, gen_buffer s, gen_length s, gen_kappa s)
       else do {
         (r, buffer, kappa) \<leftarrow> RoundWeedCounted (gen_buffer s) (gen_length s) (gen_fractionals s) (diy_f one)
           (gen_unit s) (gen_kappa s);
         Some (r, buffer, gen_length s, kappa)
       }
     }
   }"

section \<open>Grisu3\<close>

definition Grisu3 :: "double \<Rightarrow> FastDtoaMode \<Rightarrow> string \<Rightarrow> (bool \<times> string \<times> nat \<times> int) result" where
  "Grisu3 v mode buffer = do {
     w \<leftarrow> D_AsNormalizedDiyFp v;
     (boundary_minus, boundary_plus) \<leftarrow>
       (if mode = FAST_DTOA_SHORTEST then D_NormalizedBoundaries v
        else do {
          check (mode = FAST_DTOA_SHORTEST_SINGLE);
          S_NormalizedBoundaries (double_to_single v)
        });
     check (diy_e boundary_plus = diy_e w);
     let ten_mk_minimal_binary_exponent = kMinimalTargetExponent - (diy_e w + 64);
     let ten_mk_maximal_binary_exponent = kMaximalTargetExponent - (diy_e w + 64);
     (ten_mk, mk) \<leftarrow> GetCachedPowerForBinaryExponentRange ten_mk_minimal_binary_exponent
       ten_mk_maximal_binary_exponent;
     check (kMinimalTargetExponent \<le> diy_e w + diy_e ten_mk + 64 \<and>
            kMaximalTargetExponent \<ge> diy_e w + diy_e ten_mk + 64);
     let scaled_w = Times w ten_mk;
     check (diy_e scaled_w = diy_e boundary_plus + diy_e ten_mk + 64);
     let scaled_boundary_minus = Times boundary_minus ten_mk;
     let scaled_boundary_plus = Times boundary_plus ten_mk;
     (result, buffer, length, kappa) \<leftarrow> DigitGen scaled_boundary_minus scaled_w scaled_boundary_plus buffer;
     Some (result, buffer, length, - mk + kappa)
   }"

definition Grisu3Counted :: "double \<Rightarrow> int \<Rightarrow> string \<Rightarrow> (bool \<times> string \<times> nat \<times> int) result" where
  "Grisu3Counted v requested_digits buffer = do {
     w \<leftarrow> D_AsNormalizedDiyFp v;
     let ten_mk_minimal_binary_exponent = kMinimalTargetExponent - (diy_e w + 64);
     let ten_mk_maximal_binary_exponent = kMaximalTargetExponent - (diy_e w + 64);
     (ten_mk, mk) \<leftarrow> GetCachedPowerForBinaryExponentRange ten_mk_minimal_binary_exponent
       ten_mk_maximal_binary_exponent;
     check (kMinimalTargetExponent \<le> diy_e w + diy_e ten_mk + 64 \<and>
            kMaximalTargetExponent \<ge> diy_e w + diy_e ten_mk + 64);
     let scaled_w = Times w ten_mk;
     (result, buffer, length, kappa) \<leftarrow> DigitGenCounted scaled_w requested_digits buffer;
     Some (result, buffer, length, - mk + kappa)
   }"

definition FastDtoa :: "double \<Rightarrow> FastDtoaMode \<Rightarrow> int \<Rightarrow> string \<Rightarrow> (bool \<times> string \<times> nat \<times> int) result" where
  "FastDtoa v mode requested_digits buffer = do {
     check (D_positive v);
     check (\<not> D_IsSpecial v);
     (result, buffer, length, decimal_exponent) \<leftarrow>
       (case mode of
          FAST_DTOA_SHORTEST \<Rightarrow> Grisu3 v mode buffer
        | FAST_DTOA_SHORTEST_SINGLE \<Rightarrow> Grisu3 v mode buffer
        | FAST_DTOA_PRECISION \<Rightarrow> Grisu3Counted v requested_digits buffer);
     if result then do {
       buffer \<leftarrow> vset buffer length (CHR 0x00);
       Some (True, buffer, length, int length + decimal_exponent)
     } else Some (False, buffer, length, 0)
   }"

end
