(* ===== verification/Grisu_Weed.thy ===== *)
theory Grisu_Weed
  imports FastDtoa Dtoa_Counted
begin

text \<open>
  \<open>RoundWeed\<close> of \<open>fast-dtoa.cc\<close>: it moves the last digit toward the number and accepts the result only where the
  unknown error of the 64-bit arithmetic, one unit on each side, cannot change it.
\<close>

section \<open>Positions below the upper end\<close>

text \<open>
  A candidate is at the distance \<open>r + i * t\<close> from the upper end of the interval; the number itself is at a distance
  between \<open>small\<close> and \<open>big\<close>. Moving down was right (\<open>2 * r \<le> 2 * small + t\<close>), moving further is not
  (\<open>2 * big \<le> 2 * r + t\<close>): the candidate is the closest one.
\<close>

lemma closest_position:
  fixes p :: real and r t small big s i m R :: nat
  assumes p: "real small < p" "p < real big" and r: "r = R + i * t"
    and left: "i > 0 \<longrightarrow> 2 * r \<le> 2 * small + t" and right: "r + t \<le> s \<longrightarrow> 2 * big \<le> 2 * r + t" and m: "R + m * t \<le> s"
  shows "\<bar>real r - p\<bar> \<le> \<bar>real (R + m * t) - p\<bar>"
proof -
  consider "m = i" | "m < i" | "i < m" by linarith
  then show ?thesis
  proof cases
    case 2
    then have "Suc m * t \<le> i * t" by (intro mult_le_mono1) simp
    then have "R + m * t + t \<le> r" by (simp add: r)
    moreover have "2 * r \<le> 2 * small + t" using 2 left by simp
    ultimately have "real (R + m * t) + real t \<le> real r" "2 * real r \<le> 2 * real small + real t"
      by (metis of_nat_add of_nat_le_iff, metis of_nat_add of_nat_le_iff of_nat_mult of_nat_numeral)
    with p show ?thesis by linarith
  next
    case 3
    then have "Suc i * t \<le> m * t" by (intro mult_le_mono1) simp
    then have le: "r + t \<le> R + m * t" by (simp add: r)
    with m right have "2 * big \<le> 2 * r + t" by simp
    with le have "real r + real t \<le> real (R + m * t)" "2 * real big \<le> 2 * real r + real t"
      by (metis of_nat_add of_nat_le_iff, metis of_nat_add of_nat_le_iff of_nat_mult of_nat_numeral)
    with p show ?thesis by linarith
  qed (simp add: r)
qed

section \<open>The loop\<close>

definition weeded :: "string \<Rightarrow> nat \<Rightarrow> nat \<Rightarrow> nat \<Rightarrow> nat \<Rightarrow> nat \<Rightarrow> nat \<Rightarrow> nat \<Rightarrow> string \<times> uint64 \<Rightarrow> bool" where
  "weeded buffer j q R t small s i = (\<lambda>(buf, rest). i \<le> q \<and> buf = buffer[j := digit_char (q - i)] \<and>
     unat rest = R + i * t \<and> R + i * t \<le> s \<and> (i > 0 \<longrightarrow> 2 * (R + i * t) \<le> 2 * small + t))"

text \<open>The tests of the source, without wrap-around: the order of their conjuncts avoids it.\<close>

lemma move_test:
  fixes rest d t s :: uint64
  assumes "rest \<le> s"
  shows "rest < d \<and> s - rest \<ge> t \<and> (rest + t < d \<or> d - rest \<ge> rest + t - d) \<longleftrightarrow>
      unat rest < unat d \<and> unat rest + unat t \<le> unat s \<and> 2 * unat rest + unat t \<le> 2 * unat d"
    "rest < d \<and> s - rest \<ge> t \<and> (rest + t < d \<or> d - rest > rest + t - d) \<longleftrightarrow>
      unat rest + unat t \<le> unat s \<and> 2 * unat rest + unat t < 2 * unat d"
proof -
  have sub: "s - rest \<ge> t \<longleftrightarrow> unat rest + unat t \<le> unat s" using assms by (auto simp: word_le_nat_alt unat_sub_small)
  have add: "unat (rest + t) = unat rest + unat t" if "unat rest + unat t \<le> unat s"
    using that unat_less_64 [of s] by (intro unat_add_small) simp
  have diff: "unat (d - rest) = unat d - unat rest" if "rest < d" using that by (simp add: unat_sub_small word_less_nat_alt)
  have diff2: "unat (rest + t - d) = unat rest + unat t - unat d" if "unat rest + unat t \<le> unat s" "\<not> rest + t < d"
    using that add [OF that(1)] by (simp add: unat_sub_small word_less_nat_alt)
  show "rest < d \<and> s - rest \<ge> t \<and> (rest + t < d \<or> d - rest \<ge> rest + t - d) \<longleftrightarrow>
      unat rest < unat d \<and> unat rest + unat t \<le> unat s \<and> 2 * unat rest + unat t \<le> 2 * unat d"
    unfolding sub using add diff diff2 by (cases "rest + t < d") (auto simp: word_less_nat_alt word_le_nat_alt)
  show "rest < d \<and> s - rest \<ge> t \<and> (rest + t < d \<or> d - rest > rest + t - d) \<longleftrightarrow>
      unat rest + unat t \<le> unat s \<and> 2 * unat rest + unat t < 2 * unat d"
    unfolding sub using add diff diff2 by (cases "rest + t < d") (auto simp: word_less_nat_alt word_le_nat_alt)
qed

lemma weed_loop_correct:
  fixes small s t rest :: uint64
  assumes j: "j < length buffer" "buffer ! j = digit_char q" "q \<le> 9" and t: "0 < unat t"
    and rest: "rest \<le> s" "unat s \<le> unat rest + q * unat t"
  shows "returns (weed_loop (Suc j) small s t (buffer, rest))
    (\<lambda>x. \<exists>i. weeded buffer j q (unat rest) (unat t) (unat small) (unat s) i x)"
  unfolding weed_loop_def
proof (rule returns_while [where I = "\<lambda>x. \<exists>i. weeded buffer j q (unat rest) (unat t) (unat small) (unat s) i x"
      and m = "\<lambda>(buf, r). unat s - unat r"], goal_cases)
  case 1
  have "buffer[j := digit_char q] = buffer" using j(2) by (metis list_update_id)
  then show ?case using rest by (intro exI [of _ 0]) (simp add: weeded_def word_le_nat_alt)
next
  case (2 x)
  then obtain i buf r where x: "x = (buf, r)" and inv: "weeded buffer j q (unat rest) (unat t) (unat small) (unat s) i (buf, r)"
    by (cases x) auto
  then have i: "i \<le> q" "buf = buffer[j := digit_char (q - i)]" "unat r = unat rest + i * unat t" "r \<le> s"
    by (simp_all add: weeded_def word_le_nat_alt)
  show ?case
  proof (cases "unat r < unat small \<and> unat r + unat t \<le> unat s \<and> 2 * unat r + unat t \<le> 2 * unat small")
    case True
    have sum: "unat (r + t) = unat rest + Suc i * unat t" "unat r + unat t = unat (r + t)"
      using True i(3) unat_less_64 [of s] by (subst unat_add_small; simp)+
    have "unat rest + Suc i * unat t \<le> unat rest + q * unat t" using True sum rest(2) by linarith
    then have "Suc i * unat t \<le> q * unat t" by simp
    then have iq: "Suc i \<le> q" using t by (simp only: mult_le_cancel2)
    then have "q - i = Suc (q - Suc i)" by simp
    then have "decr_char (buf ! j) = digit_char (q - Suc i)" using i(2) j iq by simp
    then have "weeded buffer j q (unat rest) (unat t) (unat small) (unat s) (Suc i) (buf[j := decr_char (buf ! j)], r + t)"
      using iq i(2,3) True sum unfolding weeded_def by simp
    moreover have "unat s - unat (r + t) < unat s - unat r" using True t sum by linarith
    ultimately show ?thesis using True i(2) j(1) unfolding x by (auto simp: move_test [OF i(4)] wp)
  next
    case False
    then show ?thesis using inv unfolding x prod.case move_test(1) [OF i(4)] by auto
  qed
qed

section \<open>RoundWeed\<close>

text \<open>
  With the digits of the upper end up to a place of weight \<open>t\<close>, the rest \<open>r\<close> below them, and the interval \<open>s\<close>: an accepted
  result is some steps of the last digit lower, inside the interval by two units at the top and four at the bottom,
  and the closest of all candidates in the interval to any position \<open>p\<close> within a unit of the given distance.
\<close>

lemma RoundWeed_correct:
  fixes d s rest t u :: uint64
  assumes j: "j < length buffer" "buffer ! j = digit_char q" "q \<le> 9" and t: "0 < unat t" and u: "0 < unat u"
    and d: "unat u \<le> unat d" "unat d + unat u \<le> unat s" "4 * unat u \<le> unat s"
    and rest: "rest \<le> s" "unat s \<le> unat rest + q * unat t"
  shows "returns (RoundWeed buffer (Suc j) d s rest t u) (\<lambda>(ok, buf). length buf = length buffer \<and>
    (ok \<longrightarrow> (\<exists>i < q. buf = buffer[j := digit_char (q - i)] \<and>
      2 * unat u \<le> unat rest + i * unat t \<and> unat rest + i * unat t + 4 * unat u \<le> unat s \<and>
      (\<forall>p m. real (unat d) - real (unat u) < p \<longrightarrow> p < real (unat d) + real (unat u) \<longrightarrow> unat rest + m * unat t \<le> unat s \<longrightarrow>
        \<bar>real (unat rest + i * unat t) - p\<bar> \<le> \<bar>real (unat rest + m * unat t) - p\<bar>))))"
proof -
  have small: "unat (d - u) = unat d - unat u" using d(1) by (rule unat_sub_small)
  have big: "unat (d + u) = unat d + unat u" using d(2) unat_less_64 [of s] by (intro unat_add_small) simp
  have two: "unat (2 * u) = 2 * unat u" using d(3) unat_less_64 [of s] by (subst unat_mult_small) simp_all
  have four: "unat (4 * u) = 4 * unat u" using d(3) unat_less_64 [of s] by (subst unat_mult_small) simp_all
  then have s4: "unat (s - 4 * u) = unat s - 4 * unat u" using d(3) by (simp add: unat_sub_small)
  obtain buf r i where w: "weed_loop (Suc j) (d - u) s t (buffer, rest) = Some (buf, r)"
    and inv: "weeded buffer j q (unat rest) (unat t) (unat d - unat u) (unat s) i (buf, r)"
    using returns_ex [OF weed_loop_correct [OF j t rest, of "d - u"]] unfolding small by auto
  define R where "R = unat rest + i * unat t"
  have i: "i \<le> q" "buf = buffer[j := digit_char (q - i)]" "unat r = R" "R \<le> unat s" "i > 0 \<longrightarrow> 2 * R \<le> 2 * (unat d - unat u) + unat t"
    using inv by (simp_all add: weeded_def R_def)
  have r: "r \<le> s" using i by (simp add: word_le_nat_alt)
  note test = move_test(2) [OF r, of "d + u" t, unfolded big i(3)]
  show ?thesis
  proof (cases "R + unat t \<le> unat s \<and> 2 * R + unat t < 2 * (unat d + unat u)")
    case True
    then show ?thesis using rest(1) w i(2) by (simp add: RoundWeed_def wp Let_def test)
  next
    case False
    have fin: "\<exists>i < q. buf = buffer[j := digit_char (q - i)] \<and>
      2 * unat u \<le> unat rest + i * unat t \<and> unat rest + i * unat t + 4 * unat u \<le> unat s \<and>
      (\<forall>p m. real (unat d) - real (unat u) < p \<longrightarrow> p < real (unat d) + real (unat u) \<longrightarrow> unat rest + m * unat t \<le> unat s \<longrightarrow>
        \<bar>real (unat rest + i * unat t) - p\<bar> \<le> \<bar>real (unat rest + m * unat t) - p\<bar>)"
      if ok: "2 * u \<le> r" "r \<le> s - 4 * u"
    proof (intro exI [of _ i] conjI allI impI)
      have R: "2 * unat u \<le> R" "R + 4 * unat u \<le> unat s" using ok d(3) i(3) by (simp_all add: word_le_nat_alt two s4)
      then show "2 * unat u \<le> unat rest + i * unat t" "unat rest + i * unat t + 4 * unat u \<le> unat s" by (simp_all only: R_def)
      have "unat rest + i * unat t < unat rest + q * unat t" using R u rest(2) unfolding R_def by linarith
      then show "i < q" by simp
      show "buf = buffer[j := digit_char (q - i)]" by (rule i(2))
      fix p m
      assume p: "real (unat d) - real (unat u) < p" "p < real (unat d) + real (unat u)" and m: "unat rest + m * unat t \<le> unat s"
      have p': "real (unat d - unat u) < p" "p < real (unat d + unat u)" using p d(1) by (simp_all add: of_nat_diff)
      show "\<bar>real (unat rest + i * unat t) - p\<bar> \<le> \<bar>real (unat rest + m * unat t) - p\<bar>"
        using closest_position [OF p' R_def i(5) _ m] False unfolding R_def by auto
    qed
    show ?thesis using rest(1) w False fin i(2) by (simp add: RoundWeed_def wp Let_def test)
  qed
qed

end
