(* ===== verification/Grisu_Digits.thy ===== *)
theory Grisu_Digits
  imports Grisu_Weed
begin

text \<open>
  \<open>DigitGen\<close> of \<open>fast-dtoa.cc\<close>: the digits of the upper end of the interval, until what is left of it is inside the
  interval, and then \<open>RoundWeed\<close>.
\<close>

section \<open>The first power of ten\<close>

lemma power_ten_guess:
  assumes "4 \<le> n" "n \<le> 30"
  defines "g \<equiv> (n + 1) * 1233 div 2 ^ 12"
  shows "0 < g" "g \<le> 9" "(2 :: nat) ^ n \<le> 10 ^ (g + 1)" "(10 :: nat) ^ (g - 1) \<le> 2 ^ (n - 2)"
proof -
  have "\<forall>n \<in> set [4..<31]. let g = (n + 1) * 1233 div 2 ^ 12 in
    0 < g \<and> g \<le> 9 \<and> (2 :: nat) ^ n \<le> 10 ^ (g + 1) \<and> (10 :: nat) ^ (g - 1) \<le> 2 ^ (n - 2)"
    by (simp add: upt_rec)
  moreover have "n \<in> set [4..<31]" unfolding set_upt using assms by (intro atLeastLessThan_iff [THEN iffD2]) linarith
  ultimately show "0 < g" "g \<le> 9" "(2 :: nat) ^ n \<le> 10 ^ (g + 1)" "(10 :: nat) ^ (g - 1) \<le> 2 ^ (n - 2)"
    unfolding g_def Let_def by blast+
qed

lemma kSmallPowersOfTen_nth: "k \<le> 9 \<Longrightarrow> vget kSmallPowersOfTen (Suc k) = Some (10 ^ k)"
proof -
  assume "k \<le> 9"
  moreover have "\<forall>k \<in> set [0..<10]. vget kSmallPowersOfTen (Suc k) = Some (10 ^ k)"
    by (simp add: upt_rec vget_def kSmallPowersOfTen_def)
  ultimately show ?thesis by simp
qed

lemma unat_power_ten: "k \<le> 9 \<Longrightarrow> unat (10 ^ k :: uint32) = 10 ^ k"
proof -
  assume "k \<le> 9"
  then have "(10 :: nat) ^ k \<le> 10 ^ 9" by (intro power_increasing) simp_all
  then have "(10 :: nat) ^ k < 2 ^ 32" by simp
  moreover have "(10 :: uint32) ^ k = of_nat (10 ^ k)" by simp
  ultimately show ?thesis by (simp only: unat_of_nat) simp
qed

lemma BiggestPowerTen_correct:
  assumes n: "4 \<le> n" "n \<le> 30" and x: "2 ^ (n - 2) \<le> unat x" "unat x < 2 ^ n"
  shows "returns (BiggestPowerTen x n) (\<lambda>(p, k). 0 < k \<and> k \<le> 10 \<and> unat p = 10 ^ (k - 1) \<and> 10 ^ (k - 1) \<le> unat x \<and> unat x < 10 ^ k)"
proof -
  define g where "g = (n + 1) * 1233 div 2 ^ 12"
  note g = power_ten_guess [OF n, folded g_def]
  have "(2 :: nat) ^ (n + 1) < 2 ^ 32" using n by (intro power_strict_increasing) simp_all
  then have "unat (push_bit (n + 1) 1 :: uint32) = 2 ^ (n + 1)" by (subst unat_push_bit_small) simp_all
  then have c: "x < push_bit (n + 1) 1" using x(2) by (simp add: word_less_nat_alt)
  have p: "unat (10 ^ g :: uint32) = 10 ^ g" "unat (10 ^ (g - 1) :: uint32) = 10 ^ (g - 1)" using g(2) by (simp_all add: unat_power_ten)
  have lookup: "vget kSmallPowersOfTen (g + 1) = Some (10 ^ g)" "vget kSmallPowersOfTen g = Some (10 ^ (g - 1))"
    using kSmallPowersOfTen_nth [of g] kSmallPowersOfTen_nth [of "g - 1"] g by simp_all
  have "BiggestPowerTen x n = (if x < 10 ^ g then Some (10 ^ (g - 1), g) else Some (10 ^ g, g + 1))"
    unfolding BiggestPowerTen_def Let_def g_def [symmetric] using n c lookup by (simp add: check_def)
  moreover have "x < 10 ^ g \<longleftrightarrow> unat x < 10 ^ g" by (simp only: word_less_nat_alt p)
  ultimately show ?thesis using g x p by auto
qed

section \<open>What the digits promise\<close>

text \<open>
  \<open>H\<close>, \<open>L\<close> and \<open>W\<close> are the upper end, the lower end and the number, as multiples of the last place of the 64-bit significands;
  a decimal number \<open>y * 10 ^ j\<close> is at the position \<open>y * 10 ^ j * N\<close>.
\<close>

definition grisu_ok :: "nat \<Rightarrow> nat \<Rightarrow> nat \<Rightarrow> nat \<Rightarrow> string \<Rightarrow> int \<Rightarrow> bool" where
  "grisu_ok H L W N ds kappa \<longleftrightarrow> ds \<noteq> [] \<and> length ds \<le> 17 \<and> list_all is_decimal ds \<and> hd ds \<noteq> CHR ''0'' \<and>
     real L + 4 \<le> value_of ds kappa * N \<and> value_of ds kappa * N + 2 \<le> real H \<and>
     (\<forall>y j. kappa < j \<longrightarrow> real L < real y * 10 powi j * N \<longrightarrow> \<not> real y * 10 powi j * N < real H) \<and>
     (\<forall>y p. real W - 1 < p \<longrightarrow> p < real W + 1 \<longrightarrow> real L \<le> real y * 10 powi kappa * N \<longrightarrow> real y * 10 powi kappa * N \<le> real H \<longrightarrow>
       \<bar>value_of ds kappa * N - p\<bar> \<le> \<bar>real y * 10 powi kappa * N - p\<bar>)"

text \<open>No number with a larger exponent lies in the interval, since the digits so far, \<open>D\<close>, were below it.\<close>

lemma no_shorter:
  fixes H L s D T u R c t :: nat
  assumes HL: "H = L + s" and prev: "H * u = D * T + R" "s * u \<le> R" "R < T" and t: "c * T = 10 * t" "0 < c" and u: "0 < u"
    and pos: "real t = real (c * u) * (10 powi kappa * N)" and y: "kappa < j" "real L < real y * 10 powi j * N"
  shows "\<not> real y * 10 powi j * N < real H"
proof
  assume less: "real y * 10 powi j * N < real H"
  define z where "z = y * 10 ^ nat (j - kappa - 1)"
  have "10 powi j = (10 :: real) powi (int (nat (j - kappa - 1)) + (1 + kappa))" using y(1) by simp
  also have "\<dots> = (10 :: real) ^ nat (j - kappa - 1) * (10 * 10 powi kappa)" by (subst power_int_add) (simp_all only: power_int_of_nat, simp_all add: power_int_add)
  finally have "real y * 10 powi j * N * real (c * u) = real z * (10 * real t)"
    unfolding pos by (simp add: z_def)
  also have "\<dots> = real c * real (z * T)" using t(1) by (metis (no_types, opaque_lifting) mult.left_commute of_nat_mult of_nat_numeral)
  finally have e: "(real y * 10 powi j * N * real u) * real c = real (z * T) * real c" by (simp add: mult_ac)
  then have e: "real y * 10 powi j * N * real u = real (z * T)" using t(2) by simp
  have "real L * real u < real (z * T)" "real (z * T) < real H * real u" unfolding e [symmetric] using y(2) less u by simp_all
  then have "L * u < z * T" "z * T < H * u" by (metis of_nat_less_iff of_nat_mult)+
  moreover have "H * u = L * u + s * u" unfolding HL by (rule add_mult_distrib)
  ultimately have "D * T < z * T" "z * T < D * T + T" using prev by linarith+
  then have "D * T < z * T" "z * T < Suc D * T" by simp_all
  then have "D < z" "z < Suc D" by (simp_all only: mult_less_cancel2)
  then show False by simp
qed

lemma weed_result:
  fixes d s r t u :: uint64
  assumes H: "H = L + S" "H = W + d0" "1 \<le> d0" "d0 + 1 \<le> S" "4 \<le> S"
    and prev: "H * n = D * T + R" "S * n \<le> R" "R < T" and t: "c * T = 10 * unat t" "0 < c" and n: "0 < n" and r: "c * R = unat r + q * unat t"
    and u: "unat u = c * n" "unat s = S * unat u" "unat d = d0 * unat u"
    and pos: "real (unat t) = real (unat u) * (10 powi kappa * N)"
    and r2: "unat r < unat t" "unat r < unat s"
    and buf: "j < length buffer" "buffer ! j = digit_char q" "q \<le> 9" "list_all is_decimal (take j buffer)" "D = text_digits (take j buffer)"
      "j = 0 \<or> hd (take j buffer) \<noteq> CHR ''0''" "j \<le> 16"
  shows "returns (RoundWeed buffer (Suc j) d s r t u) (\<lambda>(ok, buf). length buf = length buffer \<and>
    (ok \<longrightarrow> grisu_ok H L W N (take (Suc j) buf) kappa))"
proof -
  have u0: "0 < unat u" using t(2) u(1) n by simp
  have t0: "0 < unat t" using r2(1) by simp
  have Hu: "H * unat u = (10 * D + q) * unat t + unat r"
  proof -
    have "H * unat u = c * (H * n)" unfolding u(1) by simp
    also have "\<dots> = D * (c * T) + c * R" unfolding prev(1) by (simp add: add_mult_distrib2)
    finally show ?thesis unfolding t(1) r by (simp add: add_mult_distrib)
  qed
  have "S * unat u = c * (S * n)" unfolding u(1) by simp
  also have "\<dots> \<le> c * R" using prev(2) by (rule mult_le_mono2)
  finally have borrow: "unat s \<le> unat r + q * unat t" unfolding u(2) r .
  have d: "unat u \<le> unat d" "unat d + unat u \<le> unat s" "4 * unat u \<le> unat s"
    unfolding u(2,3) using mult_le_mono1 [OF H(3), of "unat u"] mult_le_mono1 [OF H(4), of "unat u"] mult_le_mono1 [OF H(5), of "unat u"]
    by (simp_all add: add_mult_distrib)
  have rs: "r \<le> s" using r2(2) by (simp add: word_le_nat_alt)
  obtain ok buf where w: "RoundWeed buffer (Suc j) d s r t u = Some (ok, buf)" "length buf = length buffer"
    and res: "ok \<Longrightarrow> \<exists>i < q. buf = buffer[j := digit_char (q - i)] \<and>
      2 * unat u \<le> unat r + i * unat t \<and> unat r + i * unat t + 4 * unat u \<le> unat s \<and>
      (\<forall>p m. real (unat d) - real (unat u) < p \<longrightarrow> p < real (unat d) + real (unat u) \<longrightarrow> unat r + m * unat t \<le> unat s \<longrightarrow>
        \<bar>real (unat r + i * unat t) - p\<bar> \<le> \<bar>real (unat r + m * unat t) - p\<bar>)"
    using returns_ex [OF RoundWeed_correct [OF buf(1-3) t0 u0 d rs borrow]] by auto
  have "grisu_ok H L W N (take (Suc j) buf) kappa" if ok: ok
  proof -
    obtain i where 1: "i < q" "buf = buffer[j := digit_char (q - i)]"
      "2 * unat u \<le> unat r + i * unat t" "unat r + i * unat t + 4 * unat u \<le> unat s"
      "\<forall>p m. real (unat d) - real (unat u) < p \<longrightarrow> p < real (unat d) + real (unat u) \<longrightarrow> unat r + m * unat t \<le> unat s \<longrightarrow>
        \<bar>real (unat r + i * unat t) - p\<bar> \<le> \<bar>real (unat r + m * unat t) - p\<bar>"
      using res [OF ok] by blast
    let ?ds = "take (Suc j) buf" and ?x = "unat r + i * unat t"
    have ds: "?ds = take j buffer @ [digit_char (q - i)]" using buf(1) 1(2) by (simp add: take_Suc_conv_app_nth)
    then have val: "text_digits ?ds = 10 * D + (q - i)" "list_all is_decimal ?ds" "length ?ds = Suc j"
      using buf by (simp_all add: text_digits_append)
    have first: "hd ?ds \<noteq> CHR ''0''" unfolding 1(2) using 1(1) buf(3) by (intro head_digit [OF buf(1,6)]) auto
    have "text_digits ?ds * unat t + ?x = (10 * D + (q - i) + i) * unat t + unat r" unfolding val(1) by (simp add: add_mult_distrib)
    also have "\<dots> = H * unat u" unfolding Hu using 1(1) by simp
    finally have x: "real (text_digits ?ds) * real (unat t) + real ?x = real H * real (unat u)" by (metis of_nat_add of_nat_mult)
    have scale: "real y * 10 powi kappa * N * real (unat u) = real y * real (unat t)" for y unfolding pos by simp
    have X: "value_of ?ds kappa * N * real (unat u) = real H * real (unat u) - real ?x"
      unfolding value_of_def scale using x by simp
    have HL: "real H = real L + real S" "real H = real W + real d0" using H(1,2) by simp_all
    have us: "real (unat s) = real S * real (unat u)" "real (unat d) = real d0 * real (unat u)" using u by simp_all
    have pu: "0 < real (unat u)" using u0 by simp
    have le: "a * real (unat u) \<le> b * real (unat u) \<longleftrightarrow> a \<le> b" for a b using pu by simp
    have "real (2 * unat u) \<le> real ?x" "real (?x + 4 * unat u) \<le> real (unat s)" using 1(3,4) by (simp_all only: of_nat_le_iff)
    then have "2 * real (unat u) \<le> real ?x" "real ?x + 4 * real (unat u) \<le> real (unat s)" by simp_all
    then have "(value_of ?ds kappa * N + 2) * real (unat u) \<le> real H * real (unat u)"
      "(real L + 4) * real (unat u) \<le> value_of ?ds kappa * N * real (unat u)"
      unfolding distrib_right X us HL(1) by (simp_all add: algebra_simps)
    then have range: "value_of ?ds kappa * N + 2 \<le> real H" "real L + 4 \<le> value_of ?ds kappa * N" unfolding le by simp_all
    have short: "\<not> real y * 10 powi k * N < real H" if "kappa < k" "real L < real y * 10 powi k * N" for y k
      by (rule no_shorter [OF H(1) prev t(1,2) n pos [unfolded u(1)] that])
    have close: "\<bar>value_of ?ds kappa * N - p\<bar> \<le> \<bar>real y * 10 powi kappa * N - p\<bar>"
      if p: "real W - 1 < p" "p < real W + 1" and y: "real L \<le> real y * 10 powi kappa * N" "real y * 10 powi kappa * N \<le> real H" for y p
    proof -
      have "real y * real (unat t) \<le> real H * real (unat u)" "real L * real (unat u) \<le> real y * real (unat t)"
        unfolding scale [symmetric] le by (rule y)+
      then have yt: "y * unat t \<le> H * unat u" "L * unat u \<le> y * unat t" by (metis of_nat_le_iff of_nat_mult)+
      then have "y * unat t < Suc (10 * D + q) * unat t" unfolding Hu mult_Suc using r2(1) by linarith
      then have "y \<le> 10 * D + q" by (simp only: mult_less_cancel2 less_Suc_eq_le)
      then obtain m where m: "10 * D + q = y + m" by (metis le_add_diff_inverse)
      have ym: "unat r + m * unat t + y * unat t = H * unat u" unfolding Hu m by (simp add: add_mult_distrib)
      moreover have "H * unat u = L * unat u + unat s" unfolding H(1) u(2) by (rule add_mult_distrib)
      ultimately have ms: "unat r + m * unat t \<le> unat s" using yt(2) by linarith
      define P where "P = (real H - p) * real (unat u)"
      have "(real d0 - 1) * real (unat u) < P" "P < (real d0 + 1) * real (unat u)"
        unfolding P_def using p pu by (simp_all add: HL(2))
      then have P: "real (unat d) - real (unat u) < P" "P < real (unat d) + real (unat u)" unfolding us by (simp_all add: algebra_simps)
      have "\<bar>real ?x - P\<bar> \<le> \<bar>real (unat r + m * unat t) - P\<bar>" using 1(5) P ms by blast
      moreover have "real (unat r + m * unat t) = real H * real (unat u) - real y * real (unat t)"
        using ym by (metis add_diff_cancel_right' of_nat_add of_nat_mult)
      then have "\<bar>real (unat r + m * unat t) - P\<bar> = \<bar>(real y * 10 powi kappa * N - p) * real (unat u)\<bar>"
        unfolding P_def left_diff_distrib scale by linarith
      moreover have "\<bar>real ?x - P\<bar> = \<bar>(value_of ?ds kappa * N - p) * real (unat u)\<bar>"
        unfolding P_def left_diff_distrib X by linarith
      ultimately show ?thesis using pu by (simp add: abs_mult)
    qed
    show ?thesis unfolding grisu_ok_def using val(2,3) first range short close buf(7) ds by auto
  qed
  then show ?thesis using w by simp
qed

section \<open>One digit\<close>

lemma unat_ucast_32_64: "unat (ucast w :: uint64) = unat w" for w :: uint32
  using unat_less_32 [of w] by (simp add: unsigned_ucast_eq take_bit_nat_eq_self)

text \<open>The digits before a round, on any of the two loops, and what is left below them.\<close>

definition digits_so_far :: "nat \<Rightarrow> gen_state \<Rightarrow> bool" where
  "digits_so_far n s \<longleftrightarrow> gen_result s = None \<and> length (gen_buffer s) = n \<and> gen_length s \<le> 16 \<and>
     list_all is_decimal (take (gen_length s) (gen_buffer s)) \<and>
     (gen_length s = 0 \<or> hd (take (gen_length s) (gen_buffer s)) \<noteq> CHR ''0'')"

definition so_far :: "gen_state \<Rightarrow> nat" where
  "so_far s = text_digits (take (gen_length s) (gen_buffer s))"

definition integral_inv :: "nat \<Rightarrow> nat \<Rightarrow> nat \<Rightarrow> nat \<Rightarrow> nat \<Rightarrow> gen_state \<Rightarrow> bool" where
  "integral_inv H S E n k s \<longleftrightarrow> digits_so_far n s \<and> gen_kappa s = int k \<and> k \<le> 10 \<and> unat (gen_unit s) = 1 \<and>
     unat (gen_unsafe s) = S \<and> (k > 0 \<longrightarrow> unat (gen_divisor s) = 10 ^ (k - 1)) \<and> unat (gen_integrals s) < 10 ^ k \<and>
     unat (gen_fractionals s) < 2 ^ E \<and>
     H = so_far s * (10 ^ k * 2 ^ E) + (unat (gen_integrals s) * 2 ^ E + unat (gen_fractionals s)) \<and>
     S \<le> unat (gen_integrals s) * 2 ^ E + unat (gen_fractionals s) \<and>
     (gen_length s = 0 \<longrightarrow> k > 0 \<and> 10 ^ (k - 1) \<le> unat (gen_integrals s))"

definition fractional_inv :: "nat \<Rightarrow> nat \<Rightarrow> nat \<Rightarrow> nat \<Rightarrow> nat \<Rightarrow> gen_state \<Rightarrow> bool" where
  "fractional_inv H S E n j s \<longleftrightarrow> digits_so_far n s \<and> gen_kappa s = - int j \<and> 0 < gen_length s \<and>
     unat (gen_unit s) = 10 ^ j \<and> unat (gen_unsafe s) = S * 10 ^ j \<and> unat (gen_fractionals s) < 2 ^ E \<and>
     H * 10 ^ j = so_far s * 2 ^ E + unat (gen_fractionals s) \<and> S * 10 ^ j \<le> unat (gen_fractionals s)"

definition finished :: "nat \<Rightarrow> nat \<Rightarrow> nat \<Rightarrow> nat \<Rightarrow> nat \<Rightarrow> gen_state \<Rightarrow> bool" where
  "finished H L W N n s \<longleftrightarrow> (\<exists>r. gen_result s = Some r \<and> length (gen_buffer s) = n \<and> gen_length s \<le> 17 \<and>
     (r \<longrightarrow> grisu_ok H L W N (take (gen_length s) (gen_buffer s)) (gen_kappa s)))"

text \<open>The interval is so wide that sixteen digits do not leave it: the buffer never overflows.\<close>

lemma length_bound:
  assumes "H * u = text_digits ds * T + R" "S * u \<le> R" "R < T" "H < S * 10 ^ 16" "0 < u"
    "list_all is_decimal ds" "ds = [] \<or> hd ds \<noteq> CHR ''0''"
  shows "length ds \<le> 16"
proof (rule ccontr)
  assume long: "\<not> length ds \<le> 16"
  then have "(10 :: nat) ^ 16 \<le> 10 ^ (length ds - 1)" by (intro power_increasing) auto
  also have "\<dots> \<le> text_digits ds" using assms(6,7) long by (intro text_digits_ge) auto
  finally have "10 ^ 16 * T \<le> H * u" unfolding assms(1) by (intro trans_le_add1 mult_le_mono1)
  moreover have "H * u < 10 ^ 16 * (S * u)" using mult_strict_right_mono [OF assms(4,5)] by (simp only: mult_ac)
  moreover have "10 ^ 16 * (S * u) \<le> 10 ^ 16 * T" using assms(2,3) by (intro mult_le_mono2) simp
  ultimately show False by linarith
qed

text \<open>The digit that both loops write.\<close>

lemma so_far_write:
  assumes s: "digits_so_far n s" "17 \<le> n" and q: "q \<le> 9"
    and s': "gen_buffer s' = (gen_buffer s)[gen_length s := digit_char q]" "gen_length s' = Suc (gen_length s)"
  shows "so_far s' = 10 * so_far s + q" "list_all is_decimal (take (gen_length s') (gen_buffer s'))"
proof -
  have "gen_length s < length (gen_buffer s)" using s by (simp add: digits_so_far_def)
  from write_digit [OF this _ q] s(1) show "so_far s' = 10 * so_far s + q" "list_all is_decimal (take (gen_length s') (gen_buffer s'))"
    by (simp_all add: so_far_def s' digits_so_far_def)
qed

lemma integral_step_correct:
  assumes inv: "integral_inv H S E n (Suc k) s" and E: "34 \<le> E" "E \<le> 60" and n: "17 \<le> n"
    and H: "H = L + S" "H = W + d0" "1 \<le> d0" "d0 + 1 \<le> S" "4 \<le> S" "H < 2 ^ 64" "H < S * 10 ^ 16" and d: "unat d = d0"
    and one: "diy_e one = - int E"
  shows "returns (gen_integral_step one d s) (\<lambda>s'. integral_inv H S E n k s' \<or> finished H L W (2 ^ E) n s')"
proof -
  define I F q I' where "I = unat (gen_integrals s)" and "F = unat (gen_fractionals s)" and "q = I div 10 ^ k" and "I' = I mod 10 ^ k"
  define s1 where "s1 = s\<lparr>gen_buffer := (gen_buffer s)[gen_length s := digit_char q], gen_length := gen_length s + 1,
             gen_integrals := gen_integrals s mod gen_divisor s, gen_kappa := gen_kappa s - 1\<rparr>"
  have i: "digits_so_far n s" "k \<le> 9" "unat (gen_unit s) = 1" "unat (gen_unsafe s) = S" "unat (gen_divisor s) = 10 ^ k" "I < 10 ^ Suc k"
    "F < 2 ^ E" "H = so_far s * (10 ^ Suc k * 2 ^ E) + (I * 2 ^ E + F)" "S \<le> I * 2 ^ E + F" "gen_kappa s = int (Suc k)"
    "gen_length s = 0 \<longrightarrow> 10 ^ k \<le> I"
    using inv by (simp_all add: integral_inv_def I_def F_def)
  have q: "q \<le> 9" "I = q * 10 ^ k + I'" "I' < 10 ^ k"
    using i(6) by (simp_all add: q_def I'_def less_mult_imp_div_less less_Suc_eq_le [symmetric] div_mult_mod_eq)
  have dig: "unat (gen_integrals s div gen_divisor s) = q" "unat (gen_integrals s mod gen_divisor s) = I'"
    by (simp_all add: unat_div unat_mod i(5) q_def I'_def I_def)
  have len: "gen_length s < length (gen_buffer s)" using i(1) n by (simp add: digits_so_far_def)
  have "gen_divisor s \<noteq> 0" using i(5) by auto
  moreover have "sint (gen_integrals s div gen_divisor s) = int q" using q(1) dig(1) by (simp add: sint_small)
  ultimately have emit: "emit_integral s = Some s1"
    using q(1) len by (simp add: emit_integral_def check_def vset_def s1_def)
  have wr: "so_far s1 = 10 * so_far s + q" "list_all is_decimal (take (gen_length s1) (gen_buffer s1))"
    by (rule so_far_write [OF i(1) n q(1)]; simp add: s1_def)+
  have hd1: "hd (take (Suc (gen_length s)) (gen_buffer s1)) \<noteq> CHR ''0''"
    using head_digit [OF len, of q] i(1,11) q(1) by (auto simp: s1_def digits_so_far_def q_def div_greater_zero_iff)
  have H1: "H = so_far s1 * (10 ^ k * 2 ^ E) + (I' * 2 ^ E + F)"
    unfolding i(8) wr(1) q(2) by (simp add: algebra_simps)
  define r where "r = push_bit E (ucast (gen_integrals s1)) + gen_fractionals s1"
  have "I' * 2 ^ E + F < 2 ^ 64" using H1 H(6) by linarith
  then have r: "unat r = I' * 2 ^ E + F"
    using dig(2) by (simp add: r_def s1_def F_def unat_add_small unat_push_bit_small unat_ucast_32_64)
  have "gen_buffer s \<noteq> []" using len by auto
  then have "10 ^ gen_length s \<le> so_far s1"
    using text_digits_ge [OF _ hd1] wr(2) len by (simp add: so_far_def s1_def)
  then have D0: "1 \<le> so_far s1" by (rule order_trans [rotated]) simp
  have "10 ^ k * 2 ^ E \<le> H" unfolding H1 using mult_le_mono1 [OF D0, of "10 ^ k * 2 ^ E"] by linarith
  then have T: "unat (push_bit E (ucast (gen_divisor s)) :: uint64) = 10 ^ k * 2 ^ E"
    using H(6) i(5) by (subst unat_push_bit_small) (simp_all add: unat_ucast_32_64)
  have below: "I' * 2 ^ E + F < 10 ^ k * 2 ^ E" using mult_le_mono1 [of "Suc I'" "10 ^ k" "2 ^ E"] q(3) i(7) by simp
  show ?thesis
  proof (cases "r < gen_unsafe s")
    case True
    note below
    moreover have "(I' + q * 10 ^ k) * 2 ^ E + F = I * 2 ^ E + F" unfolding q(2) by simp
    moreover have "I * 2 ^ E + F < 10 ^ Suc k * 2 ^ E"
      using mult_le_mono1 [of "Suc I" "10 ^ Suc k" "2 ^ E"] i(6,7) by simp
    ultimately have "returns (RoundWeed (gen_buffer s1) (Suc (gen_length s)) d (gen_unsafe s) r (push_bit E (ucast (gen_divisor s))) (gen_unit s))
      (\<lambda>(ok, buf). length buf = length (gen_buffer s1) \<and> (ok \<longrightarrow> grisu_ok H L W (2 ^ E) (take (Suc (gen_length s)) buf) (gen_kappa s1)))"
      using True i len d q(1)
      by (intro weed_result [where c = 1 and n = 1 and S = S and D = "so_far s" and T = "10 ^ Suc k * 2 ^ E" and R = "I * 2 ^ E + F" and q = q and ?d0.0 = d0, OF H(1-5)])
        (auto simp: r T digits_so_far_def so_far_def s1_def word_less_nat_alt algebra_simps)
    then obtain ok buf where w: "RoundWeed (gen_buffer s1) (Suc (gen_length s)) d (gen_unsafe s) r (push_bit E (ucast (gen_divisor s))) (gen_unit s) = Some (ok, buf)"
      "length buf = length (gen_buffer s1)" "ok \<longrightarrow> grisu_ok H L W (2 ^ E) (take (Suc (gen_length s)) buf) (gen_kappa s1)"
      by (auto elim!: returnsE)
    have "returns (gen_integral_step one d s) (finished H L W (2 ^ E) n)"
      using True w i(1) one r_def unfolding gen_integral_step_def emit
      by (simp add: s1_def finished_def digits_so_far_def wp Let_def)
    then show ?thesis by (rule returns_mono) simp
  next
    case False
    then have le: "S \<le> I' * 2 ^ E + F" using r i(4) by (simp add: word_less_nat_alt)
    have "H * 1 = text_digits (take (gen_length s1) (gen_buffer s1)) * (10 ^ k * 2 ^ E) + (I' * 2 ^ E + F)"
      using H1 by (simp add: so_far_def)
    then have "length (take (gen_length s1) (gen_buffer s1)) \<le> 16"
      using below le H(7) wr(2) hd1 by (intro length_bound [where u = 1 and S = S]) (auto simp: s1_def)
    then have "gen_length s1 \<le> 16" using len by (simp add: s1_def)
    then have "integral_inv H S E n k (s1\<lparr>gen_divisor := gen_divisor s1 div 10\<rparr>)"
      using i H1 le wr hd1 dig(2) q(3) F_def unfolding integral_inv_def
      by (cases k) (auto simp: digits_so_far_def so_far_def s1_def unat_div)
    then show ?thesis using False one r_def unfolding gen_integral_step_def emit by (simp add: s1_def wp Let_def)
  qed
qed

lemma fractional_step_correct:
  assumes inv: "fractional_inv H S E n j s" and E: "34 \<le> E" "E \<le> 60" and n: "17 \<le> n"
    and H: "H = L + S" "H = W + d0" "1 \<le> d0" "d0 + 1 \<le> S" "4 \<le> S" "H < 2 ^ 64" "H < S * 10 ^ 16" and d: "unat d = d0"
    and one: "diy_e one = - int E" "diy_f one = push_bit E 1"
  shows "returns (gen_fractional_step one d s) (\<lambda>s'. (fractional_inv H S E n (Suc j) s' \<or> finished H L W (2 ^ E) n s') \<and>
    unat (gen_unsafe s) < unat (gen_unsafe s'))"
proof -
  define F q F' where "F = unat (gen_fractionals s)" and "q = 10 * F div 2 ^ E" and "F' = 10 * F mod 2 ^ E"
  have i: "digits_so_far n s" "0 < gen_length s" "unat (gen_unit s) = 10 ^ j" "unat (gen_unsafe s) = S * 10 ^ j" "F < 2 ^ E"
    "H * 10 ^ j = so_far s * 2 ^ E + F" "S * 10 ^ j \<le> F" "gen_kappa s = - int j"
    using inv by (simp_all add: fractional_inv_def F_def)
  have E60: "(2 :: nat) ^ E \<le> 2 ^ 60" using E(2) by (intro power_increasing) simp_all
  then have F64: "10 * F < 2 ^ 64" using i(5) by simp
  have S1: "S * 10 ^ Suc j < 2 ^ 64" using F64 i(7) by simp
  have "10 ^ Suc j \<le> S * 10 ^ Suc j" "d0 * 10 ^ Suc j \<le> S * 10 ^ Suc j" using H(4,5) by simp_all
  then have lim: "10 ^ Suc j < (2 :: nat) ^ 64" "d0 * 10 ^ Suc j < 2 ^ 64" using S1 by linarith+
  have q: "q \<le> 9" "10 * F = q * 2 ^ E + F'" "F' < 2 ^ E"
    using i(5) by (simp_all add: q_def F'_def less_mult_imp_div_less less_Suc_eq_le [symmetric] div_mult_mod_eq)
  have f10: "unat (gen_fractionals s * 10) = 10 * F" using F64 by (subst unat_mult_small) (simp_all add: F_def)
  have u1: "unat (gen_unit s * 10) = 10 ^ Suc j" using lim(1) i(3) by (subst unat_mult_small) simp_all
  have s1': "unat (gen_unsafe s * 10) = S * 10 ^ Suc j" using S1 i(4) by (subst unat_mult_small) simp_all
  have d1: "unat (d * (gen_unit s * 10)) = d0 * 10 ^ Suc j" using lim(2) u1 d by (subst unat_mult_small) simp_all
  have mask: "diy_f one - 1 = mask E" using one(2) by (simp add: mask_eq_exp_minus_1 push_bit_of_1)
  have f1: "unat (gen_fractionals s * 10 AND (diy_f one - 1)) = F'" unfolding mask by (simp add: unat_and_mask f10 F'_def)
  have N: "unat (diy_f one) = 2 ^ E" unfolding one(2) using E60 by (subst unat_push_bit_small) simp_all
  define s1 where "s1 = s\<lparr>gen_unit := gen_unit s * 10, gen_unsafe := gen_unsafe s * 10,
     gen_buffer := (gen_buffer s)[gen_length s := digit_char q], gen_length := gen_length s + 1,
     gen_fractionals := gen_fractionals s * 10 AND (diy_f one - 1), gen_kappa := gen_kappa s - 1\<rparr>"
  have len: "gen_length s < length (gen_buffer s)" using i(1) n by (simp add: digits_so_far_def)
  have "unat (drop_bit E (gen_fractionals s * 10)) = q" by (simp add: unat_drop_bit f10 q_def)
  then have "to_int (drop_bit E (gen_fractionals s * 10)) = int q" using q(1) by (simp add: to_int_small)
  then have emit: "emit_fractional one (s\<lparr>gen_unit := gen_unit s * 10, gen_unsafe := gen_unsafe s * 10\<rparr>) = Some s1"
    using q(1) len one(1) by (simp add: emit_fractional_def check_def vset_def s1_def Let_def)
  have wr: "so_far s1 = 10 * so_far s + q" "list_all is_decimal (take (gen_length s1) (gen_buffer s1))"
    by (rule so_far_write [OF i(1) n q(1)]; simp add: s1_def)+
  have hd1: "hd (take (Suc (gen_length s)) (gen_buffer s1)) \<noteq> CHR ''0''"
    using head_digit [OF len, of q] i(1,2) q(1) by (auto simp: s1_def digits_so_far_def)
  have H1: "H * 10 ^ Suc j = so_far s1 * 2 ^ E + F'"
    using i(6) q(2) unfolding wr(1) by (simp add: algebra_simps)
  have grow: "unat (gen_unsafe s) < unat (gen_unsafe s1)" using H(5) by (simp add: s1_def s1' i(4))
  show ?thesis
  proof (cases "gen_fractionals s1 < gen_unsafe s1")
    case True
    then have less: "F' < S * 10 ^ Suc j" by (simp add: s1_def word_less_nat_alt f1 s1')
    have "10 powi (- int j - 1) = (1 :: real) / 10 ^ Suc j" by (simp add: power_int_diff power_int_minus field_simps)
    then have pos: "real (2 ^ E) = real (10 ^ Suc j) * (10 powi (gen_kappa s - 1) * real (2 ^ E))" unfolding i(8) by simp
    have "returns (RoundWeed (gen_buffer s1) (Suc (gen_length s)) (d * gen_unit s1) (gen_unsafe s1) (gen_fractionals s1) (diy_f one) (gen_unit s1))
      (\<lambda>(ok, buf). length buf = length (gen_buffer s1) \<and> (ok \<longrightarrow> grisu_ok H L W (2 ^ E) (take (Suc (gen_length s)) buf) (gen_kappa s1)))"
    proof (rule weed_result [where c = 10 and n = "10 ^ j" and S = S and D = "so_far s" and T = "2 ^ E" and R = F and q = q and ?d0.0 = d0, OF H(1-5)], goal_cases)
      case 11
      show ?case using pos by (simp add: s1_def N u1)
    qed (use i(1,5,6,7) q less len in \<open>simp_all add: s1_def f1 N u1 s1' d1 digits_so_far_def so_far_def\<close>)
    then obtain ok buf where w: "RoundWeed (gen_buffer s1) (Suc (gen_length s)) (d * gen_unit s1) (gen_unsafe s1) (gen_fractionals s1) (diy_f one) (gen_unit s1) = Some (ok, buf)"
      "length buf = length (gen_buffer s1)" "ok \<longrightarrow> grisu_ok H L W (2 ^ E) (take (Suc (gen_length s)) buf) (gen_kappa s1)"
      by (auto elim!: returnsE)
    have "returns (gen_fractional_step one d s) (\<lambda>s'. finished H L W (2 ^ E) n s' \<and> unat (gen_unsafe s) < unat (gen_unsafe s'))"
      using True w i(1) one grow unfolding gen_fractional_step_def Let_def emit
      by (simp add: s1_def finished_def digits_so_far_def wp Let_def)
    then show ?thesis by (rule returns_mono) simp
  next
    case False
    then have le: "S * 10 ^ Suc j \<le> F'" by (simp add: s1_def word_less_nat_alt f1 s1')
    have "length (take (gen_length s1) (gen_buffer s1)) \<le> 16"
      using le H(7) wr(2) hd1 H1 q(3) by (intro length_bound [where u = "10 ^ Suc j" and S = S and T = "2 ^ E" and R = F']) (auto simp: s1_def so_far_def)
    then have "gen_length s1 \<le> 16" using len by (simp add: s1_def)
    then have "fractional_inv H S E n (Suc j) s1"
      using i H1 le wr hd1 q(3) unfolding fractional_inv_def
      by (simp add: digits_so_far_def so_far_def s1_def u1 s1' f1 del: power_Suc)
    then show ?thesis using False grow unfolding gen_fractional_step_def Let_def emit by (simp add: wp)
  qed
qed

section \<open>DigitGen\<close>

text \<open>The two loops. The invariant of the first one turns into the one of the second at the decimal point.\<close>

lemma integral_loop:
  assumes inv: "integral_inv H S E n k s" and E: "34 \<le> E" "E \<le> 60" and n: "17 \<le> n"
    and H: "H = L + S" "H = W + d0" "1 \<le> d0" "d0 + 1 \<le> S" "4 \<le> S" "H < 2 ^ 64" "H < S * 10 ^ 16" and d: "unat d = d0"
    and one: "diy_e one = - int E"
  shows "returns (while_loop (\<lambda>s. Some (gen_result s = None \<and> gen_kappa s > 0)) (gen_integral_step one d) s)
    (\<lambda>s. fractional_inv H S E n 0 s \<or> finished H L W (2 ^ E) n s)"
proof (rule returns_while [where I = "\<lambda>s. (\<exists>k. integral_inv H S E n k s) \<or> finished H L W (2 ^ E) n s"
      and m = "\<lambda>s. if gen_result s = None then Suc (nat (gen_kappa s)) else 0"], goal_cases)
  case 1
  show ?case using inv by blast
next
  case (2 s)
  show ?case
  proof (cases "finished H L W (2 ^ E) n s")
    case True
    then show ?thesis by (auto simp: finished_def)
  next
    case False
    with 2 obtain k where k: "integral_inv H S E n k s" by blast
    show ?thesis
    proof (cases k)
      case 0
      have "fractional_inv H S E n 0 s" using k unfolding 0 by (auto simp: integral_inv_def fractional_inv_def digits_so_far_def)
      then show ?thesis using k unfolding 0 by (simp add: integral_inv_def)
    next
      case (Suc i)
      have "gen_result s = None" "gen_kappa s = int k" using k by (simp_all add: integral_inv_def digits_so_far_def)
      then show ?thesis using Suc
        by (auto intro!: returns_mono [OF integral_step_correct [OF k [unfolded Suc] E n H d one]] simp: integral_inv_def finished_def)
    qed
  qed
qed

lemma fractional_loop:
  assumes inv: "fractional_inv H S E n j s \<or> finished H L W (2 ^ E) n s" and E: "34 \<le> E" "E \<le> 60" and n: "17 \<le> n"
    and H: "H = L + S" "H = W + d0" "1 \<le> d0" "d0 + 1 \<le> S" "4 \<le> S" "H < 2 ^ 64" "H < S * 10 ^ 16" and d: "unat d = d0"
    and one: "diy_e one = - int E" "diy_f one = push_bit E 1"
  shows "returns (while_loop (\<lambda>s. Some (gen_result s = None)) (gen_fractional_step one d) s) (finished H L W (2 ^ E) n)"
proof (rule returns_while [where I = "\<lambda>s. (\<exists>j. fractional_inv H S E n j s) \<or> finished H L W (2 ^ E) n s"
      and m = "\<lambda>s. 2 ^ 64 - unat (gen_unsafe s)"], goal_cases)
  case 1
  show ?case using inv by blast
next
  case (2 s)
  show ?case
  proof (cases "finished H L W (2 ^ E) n s")
    case True
    then show ?thesis by (auto simp: finished_def)
  next
    case False
    with 2 obtain j where j: "fractional_inv H S E n j s" by blast
    then have "gen_result s = None" by (simp add: fractional_inv_def digits_so_far_def)
    moreover have "2 ^ 64 - unat (gen_unsafe s') < 2 ^ 64 - unat (gen_unsafe s)" if "unat (gen_unsafe s) < unat (gen_unsafe s')" for s'
      using that unat_less_64 [of "gen_unsafe s"] by linarith
    ultimately show ?thesis
      by (auto intro!: returns_mono [OF fractional_step_correct [OF j E n H d one]])
  qed
qed

lemma initial_integrals:
  fixes h :: uint64
  assumes E: "34 \<le> E" "E \<le> 60" and h: "2 ^ 62 \<le> unat h"
  shows "unat (ucast (drop_bit E h) :: uint32) = unat h div 2 ^ E" "unat (h AND (push_bit E 1 - 1)) = unat h mod 2 ^ E"
    "2 ^ (64 - E - 2) \<le> unat h div 2 ^ E" "unat h div 2 ^ E < 2 ^ (64 - E)"
proof -
  have "(2 :: nat) ^ 64 = 2 ^ (64 - E) * 2 ^ E" using E by (simp flip: power_add)
  then show lt: "unat h div 2 ^ E < 2 ^ (64 - E)" using unat_less_64 [of h] by (intro less_mult_imp_div_less) simp
  also have "(2 :: nat) ^ (64 - E) \<le> 2 ^ 32" using E by (intro power_increasing) simp_all
  finally have lt: "unat h div 2 ^ E < 2 ^ 32" .
  have "unat (drop_bit E h) = unat h div 2 ^ E" by (rule unat_drop_bit)
  with lt show "unat (ucast (drop_bit E h) :: uint32) = unat h div 2 ^ E"
    by (simp only: unsigned_ucast_eq) (simp add: take_bit_nat_eq_self)
  have "push_bit E 1 - 1 = (mask E :: uint64)" by (simp add: mask_eq_exp_minus_1 push_bit_of_1)
  then show "unat (h AND (push_bit E 1 - 1)) = unat h mod 2 ^ E" by (simp only: unat_and_mask)
  have "2 ^ (64 - E - 2) * 2 ^ E = (2 :: nat) ^ 62" using E by (simp flip: power_add)
  then show "2 ^ (64 - E - 2) \<le> unat h div 2 ^ E" using h by (simp add: less_eq_div_iff_mult_less_eq)
qed

lemma DigitGen_correct:
  assumes e: "diy_e low = - int E" "diy_e w = - int E" "diy_e high = - int E" and E: "34 \<le> E" "E \<le> 60"
    and f: "unat (diy_f low) = lo" "unat (diy_f w) = W" "unat (diy_f high) = hi"
    and lo: "1 \<le> lo" "lo \<le> W" "W \<le> hi" "lo + 2 \<le> hi" "hi + 1 < 2 ^ 64" "2 ^ 62 \<le> hi + 1" "hi + 1 < (hi - lo + 2) * 10 ^ 16"
    and buf: "17 \<le> length buffer"
  shows "returns (DigitGen low w high buffer) (\<lambda>(r, buf, l, kappa). length buf = length buffer \<and> l \<le> 17 \<and>
    (r \<longrightarrow> grisu_ok (hi + 1) (lo - 1) W (2 ^ E) (take l buf) kappa))"
proof -
  define one where "one = mk_diy (push_bit (nat (- diy_e w)) 1) (diy_e w)"
  define th tl where "th = diy_f high + 1" and "tl = diy_f low - 1"
  define H S d0 where "H = hi + 1" and "S = hi - lo + 2" and "d0 = hi + 1 - W"
  have th: "unat th = H" using lo f by (simp add: th_def H_def unat_add_small)
  have tl: "unat tl = lo - 1" using lo f by (simp add: tl_def unat_sub_small)
  have H: "H = (lo - 1) + S" "H = W + d0" "1 \<le> d0" "d0 + 1 \<le> S" "4 \<le> S" "H < 2 ^ 64" "H < S * 10 ^ 16" and H62: "2 ^ 62 \<le> unat th"
    using lo by (simp_all add: H_def S_def d0_def th)
  have one: "diy_e one = - int E" "diy_f one = push_bit E 1" using e by (simp_all add: one_def mk_diy_def)
  note ini = initial_integrals [OF E H62, unfolded th]
  define I where "I = (ucast (drop_bit E th) :: uint32)"
  have nb: "4 \<le> 64 - E" "64 - E \<le> 30" using E by simp_all
  obtain p k where p: "BiggestPowerTen I (64 - E) = Some (p, k)" "0 < k" "k \<le> 10" "unat p = 10 ^ (k - 1)" "10 ^ (k - 1) \<le> unat I" "unat I < 10 ^ k"
    using returns_ex [OF BiggestPowerTen_correct [OF nb, of I]] ini by (auto simp: I_def)
  define s where "s = \<lparr>gen_integrals = I, gen_divisor = p, gen_fractionals = th AND (diy_f one - 1), gen_unit = 1,
        gen_unsafe = th - tl, gen_requested = 0, gen_kappa = int k, gen_buffer = buffer, gen_length = 0, gen_result = None\<rparr>"
  have "unat (th - tl) = S" "unat (th - diy_f w) = d0" using lo f by (simp_all add: unat_sub_small th tl H_def S_def d0_def)
  moreover have "H = unat I * 2 ^ E + H mod 2 ^ E" using ini(1) by (simp add: I_def div_mult_mod_eq)
  moreover have "S \<le> H" using H(1) by simp
  ultimately have inv: "integral_inv H S E (length buffer) k s" and d: "unat (th - diy_f w) = d0"
    using p ini(2) by (simp_all add: integral_inv_def digits_so_far_def s_def so_far_def one(2))
  from returns_ex [OF integral_loop [OF inv E buf H d one(1)]] obtain s2 where
    s2: "while_loop (\<lambda>s. Some (gen_result s = None \<and> gen_kappa s > 0)) (gen_integral_step one (th - diy_f w)) s = Some s2"
      "fractional_inv H S E (length buffer) 0 s2 \<or> finished H (lo - 1) W (2 ^ E) (length buffer) s2" by blast
  from returns_ex [OF fractional_loop [OF s2(2) E buf H d one]] obtain s3 where
    s3: "while_loop (\<lambda>s. Some (gen_result s = None)) (gen_fractional_step one (th - diy_f w)) s2 = Some s3"
      "finished H (lo - 1) W (2 ^ E) (length buffer) s3" by blast
  have le: "tl \<le> th" "diy_f w \<le> th" using lo by (simp_all add: word_le_nat_alt th tl f H_def)
  then have minus: "Minus (mk_diy th (- int E)) (mk_diy tl (- int E)) = Some (mk_diy (th - tl) (- int E))"
    "Minus (mk_diy th (- int E)) w = Some (mk_diy (th - diy_f w) (- int E))"
    by (simp_all add: Minus_def Subtract_def check_def mk_diy_def e)
  have "unat (diy_f low + 1) = lo + 1" "unat (diy_f high - 1) = hi - 1" using lo f by (simp_all add: unat_add_small unat_sub_small)
  then have c1: "diy_f low + 1 \<le> diy_f high - 1" using lo by (simp add: word_le_nat_alt)
  have c2: "kMinimalTargetExponent \<le> - int E" "- int E \<le> kMaximalTargetExponent"
    using E by (simp_all add: kMinimalTargetExponent_def kMaximalTargetExponent_def)
  have E60: "(2 :: nat) ^ E \<le> 2 ^ 60" using E by (intro power_increasing) simp_all
  then have N: "unat (diy_f one) = 2 ^ E" unfolding one(2) by (subst unat_push_bit_small) simp_all
  then have c3: "diy_f one \<le> 0xFFFFFFFFFFFFFFFF div 10" using E60 by (simp add: word_le_nat_alt)
  have eq: "DigitGen low w high buffer = (case gen_result s2 of
       Some r \<Rightarrow> Some (r, gen_buffer s2, gen_length s2, gen_kappa s2)
     | None \<Rightarrow> do {
         check (diy_e one \<ge> -60);
         check (gen_fractionals s2 < diy_f one);
         check (0xFFFFFFFFFFFFFFFF div 10 \<ge> diy_f one);
         s \<leftarrow> while_loop (\<lambda>s. Some (gen_result s = None)) (gen_fractional_step one (th - diy_f w)) s2;
         Some (gen_result s = Some True, gen_buffer s, gen_length s, gen_kappa s)
       })"
    unfolding DigitGen_def Let_def th_def [symmetric] tl_def [symmetric] e one_def [unfolded e, symmetric] minus
    using c1 c2 p(1) s2(1) E
    by (simp add: check_def mk_diy_def one I_def [symmetric] s_def nat_diff_distrib split: option.split)
  show ?thesis
  proof (cases "gen_result s2")
    case None
    then have "unat (gen_fractionals s2) < 2 ^ E" using s2(2) by (auto simp: fractional_inv_def finished_def)
    then have "gen_fractionals s2 < diy_f one" by (simp add: word_less_nat_alt N)
    then show ?thesis unfolding eq None using c3 one(1) E s3 by (auto simp: check_def finished_def H_def)
  next
    case (Some r)
    then show ?thesis using s2(2) unfolding eq by (auto simp: fractional_inv_def finished_def digits_so_far_def H_def)
  qed
qed

end
