(* ===== verification/Grisu_Scale.thy ===== *)
theory Grisu_Scale
  imports Grisu_Digits
begin

text \<open>
  \<open>Grisu3\<close> between the boundaries of a number and \<open>DigitGen\<close>: the number and its boundaries times a cached power of ten
  are off by less than one unit each, and the digits that \<open>DigitGen\<close> accepts are the shortest ones.
\<close>

section \<open>Scaling by a cached power\<close>

lemma scaled_position:
  assumes p: "\<bar>diy_val p - T\<bar> \<le> 2 powi (diy_e p - 1)"
  shows "\<bar>real (unat (diy_f (Times x p))) - diy_val x * T / 2 powi diy_e (Times x p)\<bar> < 1"
proof -
  let ?e = "diy_e (Times x p)"
  have e: "?e = diy_e x + diy_e p + 64" by (simp add: Times_def Multiply_e)
  have x: "0 \<le> diy_val x" "diy_val x < 2 ^ 64 * 2 powi diy_e x"
  proof -
    have "real (unat (diy_f x)) < real (2 ^ 64)" using unat_less_64 [of "diy_f x"] by (simp only: of_nat_less_iff)
    then show "diy_val x < 2 ^ 64 * 2 powi diy_e x" by (simp add: diy_val_def)
  qed (simp add: diy_val_def)
  have "\<bar>diy_val x * diy_val p - diy_val x * T\<bar> = diy_val x * \<bar>diy_val p - T\<bar>"
    using x(1) by (simp add: abs_mult flip: right_diff_distrib)
  also have "\<dots> \<le> diy_val x * 2 powi (diy_e p - 1)" using x(1) p by (rule mult_left_mono [rotated])
  also have "\<dots> < 2 ^ 64 * 2 powi diy_e x * 2 powi (diy_e p - 1)" using x(2) by (intro mult_strict_right_mono) simp_all
  also have "\<dots> = 2 powi (?e - 1)" unfolding e by (simp add: power_int_add power_int_diff)
  finally have "\<bar>diy_val (Times x p) - diy_val x * T\<bar> < 2 powi (?e - 1) + 2 powi (?e - 1)" using Times_error [of x p] by linarith
  also have "\<dots> = 2 powi ?e" by (simp add: power_int_diff)
  finally have "\<bar>(real (unat (diy_f (Times x p))) - diy_val x * T / 2 powi ?e) * 2 powi ?e\<bar> < 1 * 2 powi ?e"
    by (simp add: diy_val_def left_diff_distrib)
  then show ?thesis unfolding abs_mult by simp
qed

lemma Times_mono: "unat (diy_f x) \<le> unat (diy_f y) \<Longrightarrow> unat (diy_f (Times x p)) \<le> unat (diy_f (Times y p))"
  unfolding Times_def Multiply_f by (intro div_le_mono add_le_mono1 mult_le_mono1)

lemma Times_limits:
  assumes "normalized p"
  shows "unat (diy_f (Times x p)) + 1 < 2 ^ 64" "2 ^ 63 \<le> unat (diy_f x) \<Longrightarrow> 2 ^ 62 \<le> unat (diy_f (Times x p))"
proof -
  have "unat (diy_f x) * unat (diy_f p) \<le> (2 ^ 64 - 1) * (2 ^ 64 - 1)"
    using unat_less_64 [of "diy_f x"] unat_less_64 [of "diy_f p"] by (intro mult_le_mono) simp_all
  then have "unat (diy_f x) * unat (diy_f p) + 2 ^ 63 < (2 ^ 64 - 1) * 2 ^ 64" by simp
  then have "(unat (diy_f x) * unat (diy_f p) + 2 ^ 63) div 2 ^ 64 < 2 ^ 64 - 1" by (rule less_mult_imp_div_less)
  then show "unat (diy_f (Times x p)) + 1 < 2 ^ 64" unfolding Times_def Multiply_f by simp
  assume "2 ^ 63 \<le> unat (diy_f x)"
  then have "2 ^ 63 * 2 ^ 63 \<le> unat (diy_f x) * unat (diy_f p)" using assms by (intro mult_le_mono) (simp_all only: normalized_def)
  then have "2 ^ 62 * 2 ^ 64 \<le> unat (diy_f x) * unat (diy_f p) + 2 ^ 63" by simp
  then have "2 ^ 62 * 2 ^ 64 div 2 ^ 64 \<le> (unat (diy_f x) * unat (diy_f p) + 2 ^ 63) div 2 ^ 64" by (rule div_le_mono)
  then show "2 ^ 62 \<le> unat (diy_f (Times x p))" unfolding Times_def Multiply_f by simp
qed

lemma rounded_div: "x div 2 ^ n * 2 ^ n \<le> x" "x < x div 2 ^ n * 2 ^ n + 2 ^ n" for x :: nat
  using dividend_less_div_times [of "2 ^ n" x] by simp_all

text \<open>The interval between the scaled boundaries is wide enough for \<open>DigitGen\<close>.\<close>

lemma Times_width:
  assumes p: "normalized p" and f: "unat (diy_f y) \<le> (unat (diy_f y) - unat (diy_f x)) * 10 ^ 16" "unat (diy_f x) < unat (diy_f y)"
    "unat (diy_f y) \<le> 3 * unat (diy_f x)" "2 ^ 63 \<le> unat (diy_f y)"
  shows "1 \<le> unat (diy_f (Times x p))" "unat (diy_f (Times x p)) + 2 \<le> unat (diy_f (Times y p))"
    "unat (diy_f (Times y p)) + 1 < (unat (diy_f (Times y p)) - unat (diy_f (Times x p)) + 2) * 10 ^ 16"
proof -
  define a b k A B where "a = unat (diy_f x)" and "b = unat (diy_f y)" and "k = unat (diy_f p)"
    and "A = unat (diy_f (Times x p))" and "B = unat (diy_f (Times y p))"
  have AB: "A = (a * k + 2 ^ 63) div 2 ^ 64" "B = (b * k + 2 ^ 63) div 2 ^ 64"
    by (simp_all add: A_def B_def a_def b_def k_def Times_def Multiply_f)
  have k: "2 ^ 63 \<le> k" using p by (simp add: normalized_def k_def)
  have A: "A * 2 ^ 64 \<le> a * k + 2 ^ 63" "a * k + 2 ^ 63 < A * 2 ^ 64 + 2 ^ 64"
    unfolding AB by (rule rounded_div)+
  have B: "B * 2 ^ 64 \<le> b * k + 2 ^ 63" "b * k + 2 ^ 63 < B * 2 ^ 64 + 2 ^ 64"
    unfolding AB by (rule rounded_div)+
  obtain d where d: "b = a + d" "b \<le> d * 10 ^ 16" using f(1,2) unfolding a_def b_def
    by (metis add_diff_inverse_nat less_imp_le not_less)
  have bk: "b * k = a * k + d * k" unfolding d(1) by (rule add_mult_distrib)
  have d9: "900 \<le> d" using d(2) f(4) unfolding b_def [symmetric] by simp
  have dk: "900 * 2 ^ 63 \<le> d * k" using d9 k by (rule mult_le_mono)
  have ak: "1 * 2 ^ 64 \<le> a * k" using mult_le_mono [of 2 a "2 ^ 63" k] k f(3,4) unfolding a_def [symmetric] b_def [symmetric] by simp
  then have "1 * 2 ^ 64 div 2 ^ 64 \<le> A" unfolding AB by (intro div_le_mono) simp
  then show "1 \<le> unat (diy_f (Times x p))" by (simp add: A_def)
  have c: "(2 :: nat) ^ 64 = 18446744073709551616" "(2 :: nat) ^ 63 = 9223372036854775808" by simp_all
  have AB2: "A + 2 \<le> B" using A B bk dk unfolding c by linarith
  then show "unat (diy_f (Times x p)) + 2 \<le> unat (diy_f (Times y p))" by (simp add: A_def B_def)
  have "b * k \<le> d * 10 ^ 16 * k" using d(2) by (rule mult_le_mono1)
  then have bdk: "b * k \<le> 10 ^ 16 * (d * k)" by (simp add: mult_ac)
  have "d * k < (B - A + 1) * 2 ^ 64" using A B bk AB2 by (simp add: diff_mult_distrib add_mult_distrib)
  then have "10 ^ 16 * (d * k) \<le> 10 ^ 16 * ((B - A + 1) * 2 ^ 64)" by (intro mult_le_mono2) simp
  then have "B * 2 ^ 64 \<le> (10 ^ 16 * (B - A + 1)) * 2 ^ 64 + 2 ^ 63" using B(1) bdk by (simp only: mult_ac)
  moreover have "B \<le> q" if "B * 2 ^ 64 \<le> q * 2 ^ 64 + 2 ^ 63" for q using that unfolding c by linarith
  ultimately have "B \<le> 10 ^ 16 * (B - A + 1)" by blast
  then show "unat (diy_f (Times y p)) + 1 < (unat (diy_f (Times y p)) - unat (diy_f (Times x p)) + 2) * 10 ^ 16"
    unfolding A_def [symmetric] B_def [symmetric] by simp
qed

section \<open>From positions to values\<close>

lemma position_powi:
  fixes y T N :: real
  assumes "T = 10 powi mk"
  shows "y * 10 powi j * (T * N) = y * 10 powi (j + mk) * N"
  by (simp add: assms power_int_add)

text \<open>
  With the factor \<open>T * N\<close> between values and positions, and lower end, number and upper end known up to one unit, what \<open>grisu_ok\<close>
  says of positions is what \<open>shortest_digits\<close> says of values.
\<close>

lemma grisu_ok_shortest:
  fixes lo hi v T :: real and N a b w :: nat
  assumes ok: "grisu_ok (b + 1) (a - 1) w N ds kappa" and T: "T = 10 powi mk" and N: "0 < N" and a: "1 \<le> a"
    and pos: "\<bar>real a - lo * (T * N)\<bar> < 1" "\<bar>real b - hi * (T * N)\<bar> < 1" "\<bar>real w - v * (T * N)\<bar> < 1"
  shows "shortest_digits ev lo v hi ds (int (length ds) + (kappa - mk))"
proof -
  define F where "F = T * real N"
  have F: "0 < F" using T N by (simp add: F_def)
  have le: "x * F \<le> y * F \<longleftrightarrow> x \<le> y" "x * F < y * F \<longleftrightarrow> x < y" for x y using F by simp_all
  note pos = pos [folded F_def]
  have exp: "kappa - mk + mk = kappa" by simp
  have scale: "real y * 10 powi j * F = real y * 10 powi (j + mk) * N" for y j unfolding F_def by (rule position_powi [OF T])
  let ?x = "value_of ds (kappa - mk)"
  have x: "?x * F = value_of ds kappa * N" unfolding value_of_def scale exp ..
  have g: "ds \<noteq> []" "length ds \<le> 17" "list_all is_decimal ds" "hd ds \<noteq> CHR ''0''"
    "real (a - 1) + 4 \<le> ?x * F" "?x * F + 2 \<le> real (b + 1)"
    using ok unfolding grisu_ok_def x by blast+
  have short: "\<not> real y * 10 powi j * N < real (b + 1)" if "kappa < j" "real (a - 1) < real y * 10 powi j * N" for y j
    using ok that unfolding grisu_ok_def by blast
  have close: "\<bar>value_of ds kappa * N - p\<bar> \<le> \<bar>real y * 10 powi kappa * N - p\<bar>"
    if "real w - 1 < p" "p < real w + 1" "real (a - 1) \<le> real y * 10 powi kappa * N" "real y * 10 powi kappa * N \<le> real (b + 1)" for y p
    using ok that unfolding grisu_ok_def by blast
  have ends: "real (a - 1) = real a - 1" "real (b + 1) = real b + 1" using a by (simp_all add: of_nat_diff)
  have "lo * F < ?x * F" "?x * F < hi * F" using g(5,6) pos(1,2) unfolding ends by linarith+
  then have "lo < ?x" "?x < hi" unfolding le by simp_all
  then have inside: "enclosed ev lo hi ?x" by (simp add: enclosed_def)
  have range: "real (a - 1) < y * F" "y * F < real (b + 1)" if "enclosed ev lo hi y" for y
  proof -
    have "lo * F \<le> y * F" "y * F \<le> hi * F" unfolding le using that by (auto simp: enclosed_def split: if_splits)
    then show "real (a - 1) < y * F" "y * F < real (b + 1)" using pos(1,2) unfolding ends by linarith+
  qed
  have "\<not> enclosed ev lo hi (real y * 10 powi j)" if "kappa - mk < j" for y j
    using range [of "real y * 10 powi j"] short [of "j + mk" y] that unfolding scale by auto
  moreover have "\<bar>?x - v\<bar> \<le> \<bar>real y * 10 powi (kappa - mk) - v\<bar>" if "enclosed ev lo hi (real y * 10 powi (kappa - mk))" for y
  proof -
    have "\<bar>?x * F - v * F\<bar> \<le> \<bar>real y * 10 powi (kappa - mk) * F - v * F\<bar>"
      using close [of "v * F" y] range [OF that] pos(3) unfolding scale exp x by linarith
    then show ?thesis using F by (simp add: abs_mult flip: left_diff_distrib)
  qed
  moreover have "int (length ds) + (kappa - mk) - int (length ds) = kappa - mk" by simp
  ultimately show ?thesis unfolding shortest_digits_def using g(1-4) inside by simp
qed

section \<open>Grisu3\<close>

text \<open>The cached power that both forms of \<open>Grisu3\<close> choose for the exponent of a normalized number.\<close>

lemma scaling_power:
  assumes e: "-1140 \<le> e" "e \<le> 1000"
  obtains p mk E where
    "GetCachedPowerForBinaryExponentRange (kMinimalTargetExponent - (e + 64)) (kMaximalTargetExponent - (e + 64)) = Some (p, mk)" "normalized p"
    "34 \<le> E" "E \<le> 60" "e + diy_e p + 64 = - int E"
    "kMinimalTargetExponent \<le> e + diy_e p + 64 \<and> kMaximalTargetExponent \<ge> e + diy_e p + 64"
    "\<forall>x. diy_e x = e \<longrightarrow> diy_e (Times x p) = - int E \<and>
      \<bar>real (unat (diy_f (Times x p))) - diy_val x * (10 powi mk * real (2 ^ E))\<bar> < 1"
proof -
  have "\<bar>kMinimalTargetExponent - (e + 64) + 63\<bar> \<le> 1100" "kMinimalTargetExponent - (e + 64) + 28 \<le> kMaximalTargetExponent - (e + 64)"
    using e by (simp_all add: kMinimalTargetExponent_def kMaximalTargetExponent_def)
  from returns_ex [OF GetCachedPowerForBinaryExponentRange_correct [OF this]]
  obtain p mk where p: "GetCachedPowerForBinaryExponentRange (kMinimalTargetExponent - (e + 64)) (kMaximalTargetExponent - (e + 64)) = Some (p, mk)"
    "normalized p" "kMinimalTargetExponent - (e + 64) \<le> diy_e p" "diy_e p \<le> kMinimalTargetExponent - (e + 64) + 26"
    "\<bar>diy_val p - 10 powi mk\<bar> \<le> 2 powi (diy_e p - 1)" by auto
  define E where "E = nat (- (e + diy_e p + 64))"
  have E: "34 \<le> E" "E \<le> 60" "e + diy_e p + 64 = - int E" using p(3,4) by (simp_all add: E_def kMinimalTargetExponent_def)
  have te: "diy_e (Times x p) = - int E" if "diy_e x = e" for x using that E(3) by (simp add: Times_def Multiply_e)
  have N: "y * 10 powi mk / 2 powi (- int E) = y * (10 powi mk * real (2 ^ E))" for y by (simp add: power_int_minus divide_inverse)
  have "\<bar>real (unat (diy_f (Times x p))) - diy_val x * (10 powi mk * real (2 ^ E))\<bar> < 1" if "diy_e x = e" for x
    using scaled_position [OF p(5), of x] unfolding te [OF that] N .
  then show thesis using te by (intro that [OF p(1,2) E]) (use E in \<open>simp_all add: kMinimalTargetExponent_def kMaximalTargetExponent_def\<close>)
qed

text \<open>The part of \<open>Grisu3\<close> behind the boundaries, for a number \<open>w\<close> and boundaries \<open>bm\<close>, \<open>bp\<close> with one common exponent.\<close>

lemma grisu_scaled:
  assumes w: "normalized w" "diy_e w = e" "-1140 \<le> e" "e \<le> 1000" and b: "diy_e bm = e" "diy_e bp = e" "normalized bp"
    and f: "unat (diy_f bm) \<le> unat (diy_f w)" "unat (diy_f w) \<le> unat (diy_f bp)" "unat (diy_f bm) < unat (diy_f bp)"
      "unat (diy_f bp) \<le> (unat (diy_f bp) - unat (diy_f bm)) * 10 ^ 16" "unat (diy_f bp) \<le> 3 * unat (diy_f bm)"
    and buf: "17 \<le> length buffer"
  shows "returns (do {
     (ten_mk, mk) \<leftarrow> GetCachedPowerForBinaryExponentRange (kMinimalTargetExponent - (diy_e w + 64))
       (kMaximalTargetExponent - (diy_e w + 64));
     check (kMinimalTargetExponent \<le> diy_e w + diy_e ten_mk + 64 \<and>
            kMaximalTargetExponent \<ge> diy_e w + diy_e ten_mk + 64);
     let scaled_w = Times w ten_mk;
     check (diy_e scaled_w = diy_e bp + diy_e ten_mk + 64);
     let scaled_boundary_minus = Times bm ten_mk;
     let scaled_boundary_plus = Times bp ten_mk;
     (result, buffer, length, kappa) \<leftarrow> DigitGen scaled_boundary_minus scaled_w scaled_boundary_plus buffer;
     Some (result, buffer, length, - mk + kappa)
   }) (\<lambda>(r, buf, l, k). length buf = length buffer \<and> l \<le> 17 \<and>
     (r \<longrightarrow> shortest_digits ev (diy_val bm) (diy_val w) (diy_val bp) (take l buf) (int l + k)))"
proof -
  obtain p mk E where p: "GetCachedPowerForBinaryExponentRange (kMinimalTargetExponent - (e + 64)) (kMaximalTargetExponent - (e + 64)) = Some (p, mk)"
    "normalized p" and E: "34 \<le> E" "E \<le> 60" "e + diy_e p + 64 = - int E"
    and target: "kMinimalTargetExponent \<le> e + diy_e p + 64 \<and> kMaximalTargetExponent \<ge> e + diy_e p + 64"
    and scaled: "\<forall>x. diy_e x = e \<longrightarrow> diy_e (Times x p) = - int E \<and>
      \<bar>real (unat (diy_f (Times x p))) - diy_val x * (10 powi mk * real (2 ^ E))\<bar> < 1"
    by (rule scaling_power [OF w(3,4)])
  note te = scaled [rule_format, THEN conjunct1] and position = scaled [rule_format, THEN conjunct2]
  have bp63: "2 ^ 63 \<le> unat (diy_f bp)" using b(3) by (simp add: normalized_def)
  note width = Times_width [OF p(2) f(4,3,5) bp63]
  have "2 ^ 62 \<le> unat (diy_f (Times bp p)) + 1" using Times_limits(2) [OF p(2) bp63] by simp
  from returns_ex [OF DigitGen_correct [OF te te te E(1,2) refl refl refl width(1) Times_mono [OF f(1)] Times_mono [OF f(2)]
        width(2) Times_limits(1) [OF p(2)] this width(3) buf]] w(2) b(1,2)
  obtain r buf l kappa where g: "DigitGen (Times bm p) (Times w p) (Times bp p) buffer = Some (r, buf, l, kappa)"
    "length buf = length buffer" "l \<le> 17"
    "r \<longrightarrow> grisu_ok (unat (diy_f (Times bp p)) + 1) (unat (diy_f (Times bm p)) - 1) (unat (diy_f (Times w p))) (2 ^ E) (take l buf) kappa"
    by auto
  have len: "length (take l buf) = l" using g(2,3) buf by simp
  have "shortest_digits ev (diy_val bm) (diy_val w) (diy_val bp) (take l buf) (int l + (kappa - mk))" if r
    using grisu_ok_shortest [OF _ refl _ width(1) position [OF b(1)] position [OF b(2)] position [OF w(2)], of "take l buf" kappa ev] g(4) that len by simp
  then show ?thesis
    using p(1) target g te [OF w(2)] E b(2) w(2) by (simp add: wp Let_def)
qed

end
