(* ===== verification/Grisu_Properties.thy ===== *)
theory Grisu_Properties
  imports Grisu_Scale
begin

text \<open>
  \<open>Grisu3\<close> and \<open>FastDtoa\<close> for a whole number: whenever they do not give up, the digits are the shortest ones.
\<close>

section \<open>Normalized numbers\<close>

lemma diy_val_le_iff: "diy_e x = diy_e y \<Longrightarrow> diy_val x \<le> diy_val y \<longleftrightarrow> unat (diy_f x) \<le> unat (diy_f y)"
  by (simp add: diy_val_def)

lemma diy_val_less_iff: "diy_e x = diy_e y \<Longrightarrow> diy_val x < diy_val y \<longleftrightarrow> unat (diy_f x) < unat (diy_f y)"
  by (simp add: diy_val_def)

lemma powi_less_iff: "(2 :: real) powi a < 2 powi b \<longleftrightarrow> a < b"
proof
  assume "(2 :: real) powi a < 2 powi b"
  then show "a < b" using power_int_increasing [of b a "2 :: real"] by (cases "a < b") auto
qed (intro power_int_strict_increasing, simp_all)

lemma normalized_range:
  assumes "normalized x"
  shows "2 powi (diy_e x + 63) \<le> diy_val x" "diy_val x < 2 powi (diy_e x + 64)"
proof -
  have "real (2 ^ 63) \<le> real (unat (diy_f x))" "real (unat (diy_f x)) < real (2 ^ 64)"
    using assms unat_less_64 [of "diy_f x"] unfolding normalized_def by (simp_all only: of_nat_le_iff of_nat_less_iff)
  then show "2 powi (diy_e x + 63) \<le> diy_val x" "diy_val x < 2 powi (diy_e x + 64)"
    by (simp_all add: diy_val_def power_int_add)
qed

lemma normalized_exponent:
  assumes "normalized x" "2 powi t \<le> diy_val x" "diy_val x < 2 powi (t + 1)"
  shows "diy_e x = t - 63"
proof -
  have "(2 :: real) powi (diy_e x + 63) < 2 powi (t + 1)" "(2 :: real) powi t < 2 powi (diy_e x + 64)"
    using normalized_range [OF assms(1)] assms(2,3) by linarith+
  then show ?thesis unfolding powi_less_iff by simp
qed

text \<open>The number half a unit further up is in the same binade.\<close>

lemma same_binade:
  assumes "0 < f" "real f * 2 powi e < 2 powi t"
  shows "real f * 2 powi e + 2 powi (e - 1) < 2 powi t"
proof -
  have "2 powi e \<le> real f * 2 powi e" using assms(1) by simp
  then have "(2 :: real) powi e < 2 powi t" using assms(2) by linarith
  then have "e < t" by (simp only: powi_less_iff)
  define k where "k = nat (t - e)"
  have "t = e + int k" using \<open>e < t\<close> by (simp add: k_def)
  then have t: "2 powi t = real (2 ^ k) * 2 powi e" by (simp add: power_int_add)
  then have "real f < real (2 ^ k)" using assms(2) by simp
  then have "f + 1 \<le> 2 ^ k" by (simp only: of_nat_less_iff)
  then have "real (f + 1) \<le> real (2 ^ k)" by (simp only: of_nat_le_iff)
  then have "real (f + 1) * 2 powi e \<le> 2 powi t" unfolding t by (intro mult_right_mono) simp_all
  moreover have "2 powi e = 2 * (2 :: real) powi (e - 1)" "0 < (2 :: real) powi (e - 1)" by (simp_all add: power_int_diff)
  ultimately show ?thesis unfolding of_nat_add of_nat_1 distrib_right mult_1 by linarith
qed

lemma D_AsNormalizedDiyFp_correct:
  assumes "0 < unat d" "unat d < D_inf_rank"
  shows "returns (D_AsNormalizedDiyFp d) (\<lambda>w. normalized w \<and> diy_val w = D_val (unat d) \<and> -1140 \<le> diy_e w \<and> diy_e w \<le> 1000)"
proof -
  have f: "0 < unat (D_Significand d)" "unat (D_Significand d) < 2 ^ 53"
    using D_significand_pos [OF assms] double.sig_less [OF assms(2)] by simp_all
  from returns_ex [OF hidden_bit_loop [OF f, of "D_Exponent d"]]
  obtain g k where g: "while_loop (\<lambda>(f, e). Some (f AND D_kHiddenBit = 0)) (\<lambda>(f, e). Some (push_bit 1 f, e - 1)) (D_Significand d, D_Exponent d)
      = Some (g, D_Exponent d - int k)" "k < 53" "unat g = unat (D_Significand d) * 2 ^ k" "2 ^ 52 \<le> unat g" "unat g < 2 ^ 53" by blast
  have u: "unat (push_bit 11 g) = unat g * 2 ^ 11" using g(5) by (subst unat_push_bit_small) simp_all
  have "real (unat g * 2 ^ 11) * 2 powi (D_Exponent d - int k - 11) = real (unat (D_Significand d)) * 2 powi D_Exponent d"
    unfolding g(3) by (simp add: power_int_diff)
  then have val: "diy_val (mk_diy (push_bit 11 g) (D_Exponent d - int k - 11)) = D_val (unat d)"
    using double.val_rank [OF assms(2)] by (simp add: diy_val_def mk_diy_def u)
  have "normalized (mk_diy (push_bit 11 g) (D_Exponent d - int k - 11))" using g(4) by (simp add: normalized_def mk_diy_def u)
  then show ?thesis
    using assms val D_exponent_bounds [OF assms(2)] g(2) unfolding D_AsNormalizedDiyFp_def g(1)
    by (simp add: wp D_positive_iff mk_diy_def)
qed

section \<open>The boundaries of a float\<close>

lemma boundary_ratio:
  assumes n: "0 < n" and p: "p \<le> 52"
  shows "midpoint p emin n \<le> (midpoint p emin n - midpoint p emin (n - 1)) * 10 ^ 16"
    "midpoint p emin n \<le> 3 * midpoint p emin (n - 1)"
proof -
  define f e where "f = rank_sig p n" and "e = rank_exp p emin n"
  define Q where "Q = (2 :: real) powi (e - 2)"
  have Q: "0 < Q" "2 powi e = 4 * Q" "2 powi (e - 1) = 2 * Q" by (simp_all add: Q_def power_int_diff)
  have "(2 :: nat) ^ p \<le> 2 ^ 52" using p by (intro power_increasing) simp_all
  moreover have "f < 2 * 2 ^ p" by (simp add: f_def rank_sig_def)
  ultimately have "f < 2 ^ 53" by simp
  moreover have "0 < f" using n by (simp add: f_def rank_sig_def)
  ultimately have f: "1 \<le> real f" "real f < 2 ^ 53" by simp_all
  have val: "rank_val p emin n = 4 * real f * Q" by (simp add: rank_val_def f_def [symmetric] e_def [symmetric] Q)
  have hi: "midpoint p emin n = (4 * real f + 2) * Q" by (simp add: midpoint_eq val e_def [symmetric] Q distrib_right)
  consider (closer) "n mod 2 ^ p = 0 \<and> 2 * 2 ^ p \<le> n" | (far) "\<not> (n mod 2 ^ p = 0 \<and> 2 * 2 ^ p \<le> n)" by blast
  then have "midpoint p emin n \<le> (midpoint p emin n - midpoint p emin (n - 1)) * 10 ^ 16 \<and>
    midpoint p emin n \<le> 3 * midpoint p emin (n - 1)"
  proof cases
    case closer
    then have "f = 2 ^ p" by (simp add: f_def rank_sig_def)
    then have f52: "real f \<le> 2 ^ 52" using \<open>(2 :: nat) ^ p \<le> 2 ^ 52\<close> by (metis of_nat_le_iff of_nat_numeral of_nat_power)
    have lo: "midpoint p emin (n - 1) = (4 * real f - 1) * Q"
      unfolding midpoint_pred [OF n] val e_def [symmetric] Q using closer by (simp add: Q_def [symmetric] left_diff_distrib)
    show ?thesis
      unfolding hi lo left_diff_distrib [symmetric] using Q(1) f f52 by (simp add: mult.assoc [symmetric] mult_right_mono)
  next
    case far
    have lo: "midpoint p emin (n - 1) = (4 * real f - 2) * Q"
      unfolding midpoint_pred [OF n] val e_def [symmetric] Q using far by (auto simp: left_diff_distrib)
    show ?thesis
      unfolding hi lo left_diff_distrib [symmetric] using Q(1) f by (simp add: mult.assoc [symmetric] mult_right_mono)
  qed
  then show "midpoint p emin n \<le> (midpoint p emin n - midpoint p emin (n - 1)) * 10 ^ 16"
    "midpoint p emin n \<le> 3 * midpoint p emin (n - 1)" by blast+
qed

lemma grisu_boundaries:
  assumes n: "0 < n" and p: "p \<le> 52" and w: "normalized w" "diy_val w = rank_val p emin n"
    and bp: "normalized bp" "diy_val bp = midpoint p emin n" and bm: "diy_e bm = diy_e bp" "diy_val bm = midpoint p emin (n - 1)"
  shows "diy_e bp = diy_e w" "unat (diy_f bm) \<le> unat (diy_f w)" "unat (diy_f w) \<le> unat (diy_f bp)" "unat (diy_f bm) < unat (diy_f bp)"
    "unat (diy_f bp) \<le> (unat (diy_f bp) - unat (diy_f bm)) * 10 ^ 16" "unat (diy_f bp) \<le> 3 * unat (diy_f bm)"
proof -
  have f: "0 < rank_sig p n" using n by (simp add: rank_sig_def)
  note r = normalized_range [OF w(1)]
  have "midpoint p emin n < 2 powi (diy_e w + 64)"
    using same_binade [OF f, of "rank_exp p emin n"] r(2) unfolding midpoint_eq w(2) rank_val_def by simp
  moreover have "rank_val p emin n < midpoint p emin n" by (rule midpoint_between)
  ultimately show e: "diy_e bp = diy_e w"
    using normalized_exponent [OF bp(1), of "diy_e w + 63"] r(1) unfolding w(2) bp(2) by (simp add: add.assoc)
  have "midpoint p emin (n - 1) < rank_val p emin n" using midpoint_between(2) [of p emin "n - 1"] n by simp
  then show "unat (diy_f bm) \<le> unat (diy_f w)" "unat (diy_f w) \<le> unat (diy_f bp)" and less: "unat (diy_f bm) < unat (diy_f bp)"
    using \<open>rank_val p emin n < midpoint p emin n\<close> bm bp w e
    by (simp_all flip: diy_val_le_iff diy_val_less_iff)
  define P where "P = (2 :: real) powi diy_e bp"
  have P: "0 < P" by (simp add: P_def)
  have v: "diy_val bp = real (unat (diy_f bp)) * P" "diy_val bm = real (unat (diy_f bm)) * P" using bm(1) by (simp_all add: diy_val_def P_def)
  note ratio = boundary_ratio [OF n p, of emin, folded bp(2) bm(2), unfolded v]
  have "real (unat (diy_f bp)) * P \<le> real ((unat (diy_f bp) - unat (diy_f bm)) * 10 ^ 16) * P"
    using ratio(1) less by (simp add: of_nat_diff algebra_simps)
  then show "unat (diy_f bp) \<le> (unat (diy_f bp) - unat (diy_f bm)) * 10 ^ 16" using P by (simp only: mult_le_cancel_right_pos of_nat_le_iff)
  have "real (unat (diy_f bp)) * P \<le> real (3 * unat (diy_f bm)) * P" using ratio(2) by simp
  then show "unat (diy_f bp) \<le> 3 * unat (diy_f bm)" using P by (simp only: mult_le_cancel_right_pos of_nat_le_iff)
qed

section \<open>Grisu3 and FastDtoa\<close>

text \<open>For any format whose boundaries the code computes exactly, the doubles themselves or the floats among them.\<close>

lemma Grisu3_of_rank:
  assumes v: "0 < unat v" "unat v < D_inf_rank" and n: "0 < n" "p \<le> 52" "D_val (unat v) = rank_val p emin n"
    and b: "returns (if mode = FAST_DTOA_SHORTEST then D_NormalizedBoundaries v
        else do { check (mode = FAST_DTOA_SHORTEST_SINGLE); S_NormalizedBoundaries (double_to_single v) })
      (\<lambda>(m_minus, m_plus). normalized m_plus \<and> diy_e m_minus = diy_e m_plus \<and>
        diy_val m_plus = midpoint p emin n \<and> diy_val m_minus = midpoint p emin (n - 1))"
    and buf: "17 \<le> length buffer"
  shows "returns (Grisu3 v mode buffer) (\<lambda>(r, buf, l, k). length buf = length buffer \<and> l \<le> 17 \<and>
    (r \<longrightarrow> shortest_digits even_n (midpoint p emin (n - 1)) (rank_val p emin n) (midpoint p emin n) (take l buf) (int l + k)))"
proof -
  obtain w where w: "D_AsNormalizedDiyFp v = Some w" "normalized w" "diy_val w = rank_val p emin n" "-1140 \<le> diy_e w" "diy_e w \<le> 1000"
    using returns_ex [OF D_AsNormalizedDiyFp_correct [OF v]] n(3) by auto
  obtain bm bp where b: "(if mode = FAST_DTOA_SHORTEST then D_NormalizedBoundaries v
        else do { check (mode = FAST_DTOA_SHORTEST_SINGLE); S_NormalizedBoundaries (double_to_single v) }) = Some (bm, bp)"
    "normalized bp" "diy_e bm = diy_e bp" "diy_val bp = midpoint p emin n" "diy_val bm = midpoint p emin (n - 1)"
    using returns_ex [OF b] by blast
  note gb = grisu_boundaries [OF n(1,2) w(2,3) b(2,4,3,5)]
  have e: "diy_e bm = diy_e w" "diy_e bp = diy_e w" using b(3) gb(1) by simp_all
  note sc = grisu_scaled [OF w(2) refl w(4,5) e b(2) gb(2-6) buf, of even_n, unfolded w(3) b(4,5)]
  show ?thesis
    using sc unfolding Grisu3_def w(1) option_step b(1) Let_def prod.case
    by (intro returns_checkI e(2))
qed

text \<open>\<open>FastDtoa\<close> terminates the buffer and places the point.\<close>

lemma FastDtoa_of_Grisu3:
  assumes v: "0 < unat v" "unat v < D_inf_rank" and buf: "18 \<le> length buffer" and mode: "mode \<noteq> FAST_DTOA_PRECISION"
    and g: "returns (Grisu3 v mode buffer) (\<lambda>(r, buf, l, k). length buf = length buffer \<and> l \<le> 17 \<and> (r \<longrightarrow> P (take l buf) (int l + k)))"
  shows "returns (FastDtoa v mode digits buffer) (\<lambda>(r, buf, l, point). length buf = length buffer \<and> l \<le> 17 \<and>
    (r \<longrightarrow> buf ! l = CHR 0x00 \<and> l = length (take l buf) \<and> P (take l buf) point))"
proof -
  from returns_ex [OF g] obtain r buf l k where
    "Grisu3 v mode buffer = Some (r, buf, l, k)" "length buf = length buffer" "l \<le> 17" "r \<longrightarrow> P (take l buf) (int l + k)" by blast
  then show ?thesis using v D_rank(2) [OF v(2)] buf mode by (cases mode) (simp_all add: FastDtoa_def wp D_positive_iff)
qed

lemma FastDtoa_shortest:
  assumes v: "0 < unat v" "unat v < D_inf_rank" and buf: "18 \<le> length buffer"
  shows "returns (FastDtoa v FAST_DTOA_SHORTEST digits buffer) (\<lambda>(r, buf, l, point). length buf = length buffer \<and> l \<le> 17 \<and>
    (r \<longrightarrow> buf ! l = CHR 0x00 \<and> l = length (take l buf) \<and> shortest_digits (even (unat v)) (midpoint 52 (-1074) (unat v - 1))
      (D_val (unat v)) (midpoint 52 (-1074) (unat v)) (take l buf) point))"
proof (rule FastDtoa_of_Grisu3 [OF v buf])
  have "17 \<le> length buffer" using buf by simp
  then show "returns (Grisu3 v FAST_DTOA_SHORTEST buffer) (\<lambda>(r, buf, l, k). length buf = length buffer \<and> l \<le> 17 \<and>
    (r \<longrightarrow> shortest_digits (even (unat v)) (midpoint 52 (-1074) (unat v - 1)) (D_val (unat v)) (midpoint 52 (-1074) (unat v))
      (take l buf) (int l + k)))"
    using D_NormalizedBoundaries_correct [OF v] v(1)
    by (intro Grisu3_of_rank [OF v v(1) order_refl refl]) (simp_all add: midpoint_def)
qed simp

section \<open>Properties\<close>

text \<open>
  C17: \<open>FastDtoa\<close> in the mode \<open>SHORTEST\<close>, with 64-bit arithmetic and a table of rounded powers of ten, returns for every positive
  finite double, no assertion fails and no access leaves the buffer; when it does not give up, its digits are the shortest ones between
  the boundaries of the double, and the closest of these.
\<close>

theorem fast_dtoa_is_shortest:
  assumes "0 < unat v" "unat v < D_inf_rank" "18 \<le> length buffer"
  shows "\<exists>r buf l point. FastDtoa v FAST_DTOA_SHORTEST digits buffer = Some (r, buf, l, point) \<and>
    (r \<longrightarrow> shortest_digits (even (unat v)) (midpoint 52 (-1074) (unat v - 1)) (D_val (unat v)) (midpoint 52 (-1074) (unat v))
      (take l buf) point)"
  using returns_ex [OF FastDtoa_shortest [OF assms, of digits]] by auto

theorem fast_dtoa_is_shortest_witness:
  "\<exists>r buf l point. FastDtoa 0x3FB999999999999A FAST_DTOA_SHORTEST 0 (replicate 18 CHR ''x'') = Some (r, buf, l, point) \<and>
    (r \<longrightarrow> shortest_digits (even (unat (0x3FB999999999999A :: double))) (midpoint 52 (-1074) (unat (0x3FB999999999999A :: double) - 1))
      (D_val (unat (0x3FB999999999999A :: double))) (midpoint 52 (-1074) (unat (0x3FB999999999999A :: double))) (take l buf) point)"
  by (rule fast_dtoa_is_shortest) simp_all

end
