(* ===== verification/DoubleToString.thy ===== *)
theory DoubleToString
  imports FixedDtoa FastDtoa BignumDtoa Utils
begin

text \<open>
  The class \<open>DoubleToStringConverter\<close> of \<open>double-conversion/double-conversion.cc\<close>: the dispatch between the fast and
  the exact conversions (\<open>DoubleToAscii\<close>) and the four output formats. A method of the converter takes the converter
  and the builder and returns its truth value with the builder. A local array starts with zero characters.
\<close>

section \<open>The converter\<close>

record double_to_string_converter =
  dts_flags :: uint32
  dts_infinity_symbol :: "string option"
  dts_nan_symbol :: "string option"
  dts_exponent_character :: char
  dts_decimal_in_shortest_low :: int
  dts_decimal_in_shortest_high :: int
  dts_max_leading_padding :: int
  dts_max_trailing_padding :: int

definition EMIT_POSITIVE_EXPONENT_SIGN :: uint32 where "EMIT_POSITIVE_EXPONENT_SIGN = 1"
definition EMIT_TRAILING_DECIMAL_POINT :: uint32 where "EMIT_TRAILING_DECIMAL_POINT = 2"
definition EMIT_TRAILING_ZERO_AFTER_POINT :: uint32 where "EMIT_TRAILING_ZERO_AFTER_POINT = 4"
definition UNIQUE_ZERO :: uint32 where "UNIQUE_ZERO = 8"

definition kMaxFixedDigitsBeforePoint :: nat where "kMaxFixedDigitsBeforePoint = 60"
definition kMaxFixedDigitsAfterPoint :: nat where "kMaxFixedDigitsAfterPoint = 60"
definition kMaxExponentialDigits :: nat where "kMaxExponentialDigits = 120"
definition kMinPrecisionDigits :: int where "kMinPrecisionDigits = 1"
definition kMaxPrecisionDigits :: nat where "kMaxPrecisionDigits = 120"
definition kBase10MaximalLength :: nat where "kBase10MaximalLength = 17"

definition has_flag :: "uint32 \<Rightarrow> uint32 \<Rightarrow> bool" where
  "has_flag flags f \<longleftrightarrow> flags AND f \<noteq> 0"

text \<open>The constructor, with its assertion on the flags.\<close>

definition DoubleToStringConverter ::
  "uint32 \<Rightarrow> string option \<Rightarrow> string option \<Rightarrow> char \<Rightarrow> int \<Rightarrow> int \<Rightarrow> int \<Rightarrow> int \<Rightarrow> double_to_string_converter result" where
  "DoubleToStringConverter flags infinity_symbol nan_symbol exponent_character low high leading trailing = do {
     check (has_flag flags EMIT_TRAILING_DECIMAL_POINT \<or> \<not> has_flag flags EMIT_TRAILING_ZERO_AFTER_POINT);
     Some \<lparr>dts_flags = flags, dts_infinity_symbol = infinity_symbol, dts_nan_symbol = nan_symbol,
           dts_exponent_character = exponent_character, dts_decimal_in_shortest_low = low,
           dts_decimal_in_shortest_high = high, dts_max_leading_padding = leading,
           dts_max_trailing_padding = trailing\<rparr>
   }"

definition EcmaScriptConverter :: "double_to_string_converter result" where
  "EcmaScriptConverter =
     DoubleToStringConverter (UNIQUE_ZERO OR EMIT_POSITIVE_EXPONENT_SIGN) (Some ''Infinity'') (Some ''NaN'')
       CHR ''e'' (-6) 21 6 0"

datatype DtoaMode = SHORTEST | SHORTEST_SINGLE | FIXED | PRECISION

section \<open>Formatting\<close>

definition HandleSpecialValues ::
  "double_to_string_converter \<Rightarrow> double \<Rightarrow> string_builder \<Rightarrow> (bool \<times> string_builder) result" where
  "HandleSpecialValues conv value b =
     (if D_IsInfinite value then
        case dts_infinity_symbol conv of
          None \<Rightarrow> Some (False, b)
        | Some symbol \<Rightarrow> do {
            b \<leftarrow> (if double_less value 0 then AddCharacter CHR ''-'' b else Some b);
            b \<leftarrow> AddString symbol b;
            Some (True, b) }
      else if D_IsNan value then
        case dts_nan_symbol conv of
          None \<Rightarrow> Some (False, b)
        | Some symbol \<Rightarrow> do {
            b \<leftarrow> AddString symbol b;
            Some (True, b) }
      else Some (False, b))"

text \<open>The digits of the exponent, written from the right into an array of six characters.\<close>

definition exponent_digits :: "int \<Rightarrow> (string \<times> nat) result" where
  "exponent_digits e = do {
     let kMaxExponentLength = 5;
     buffer \<leftarrow> vset (replicate (kMaxExponentLength + 1) (CHR 0x00)) kMaxExponentLength (CHR 0x00);
     (buffer, first_char_pos, e) \<leftarrow> while_loop (\<lambda>(buffer, first_char_pos, e). Some (e > 0))
       (\<lambda>(buffer, first_char_pos, e). do {
          check (first_char_pos > 0);
          buffer \<leftarrow> vset buffer (first_char_pos - 1) (digit_char (nat (e mod 10)));
          Some (buffer, first_char_pos - 1, e div 10) }) (buffer, kMaxExponentLength, e);
     Some (buffer, first_char_pos)
   }"

definition CreateExponentialRepresentation ::
  "double_to_string_converter \<Rightarrow> string \<Rightarrow> nat \<Rightarrow> int \<Rightarrow> string_builder \<Rightarrow> string_builder result" where
  "CreateExponentialRepresentation conv decimal_digits len e b = do {
     check (len \<noteq> 0);
     c \<leftarrow> vget decimal_digits 0;
     b \<leftarrow> AddCharacter c b;
     b \<leftarrow> (if len \<noteq> 1 then do {
             b \<leftarrow> AddCharacter CHR ''.'' b;
             AddSubstring (drop 1 decimal_digits) (int len - 1) b
           } else Some b);
     b \<leftarrow> AddCharacter (dts_exponent_character conv) b;
     (e, b) \<leftarrow> (if e < 0 then do {
                  b \<leftarrow> AddCharacter CHR ''-'' b;
                  Some (- e, b)
                } else if has_flag (dts_flags conv) EMIT_POSITIVE_EXPONENT_SIGN then do {
                  b \<leftarrow> AddCharacter CHR ''+'' b;
                  Some (e, b)
                } else Some (e, b));
     if e = 0 then AddCharacter CHR ''0'' b
     else do {
       check (e < 10000);
       (buffer, first_char_pos) \<leftarrow> exponent_digits e;
       AddSubstring (drop first_char_pos buffer) (5 - int first_char_pos) b
     }
   }"

definition CreateDecimalRepresentation ::
  "double_to_string_converter \<Rightarrow> string \<Rightarrow> int \<Rightarrow> int \<Rightarrow> int \<Rightarrow> string_builder \<Rightarrow> string_builder result" where
  "CreateDecimalRepresentation conv decimal_digits len decimal_point digits_after_point b = do {
     b \<leftarrow>
       (if decimal_point \<le> 0 then do {
          b \<leftarrow> AddCharacter CHR ''0'' b;
          if digits_after_point > 0 then do {
            b \<leftarrow> AddCharacter CHR ''.'' b;
            b \<leftarrow> AddPadding CHR ''0'' (- decimal_point) b;
            check (len \<le> digits_after_point - (- decimal_point));
            b \<leftarrow> AddSubstring decimal_digits len b;
            AddPadding CHR ''0'' (digits_after_point - (- decimal_point) - len) b
          } else Some b
        } else if decimal_point \<ge> len then do {
          b \<leftarrow> AddSubstring decimal_digits len b;
          b \<leftarrow> AddPadding CHR ''0'' (decimal_point - len) b;
          if digits_after_point > 0 then do {
            b \<leftarrow> AddCharacter CHR ''.'' b;
            AddPadding CHR ''0'' digits_after_point b
          } else Some b
        } else do {
          check (digits_after_point > 0);
          b \<leftarrow> AddSubstring decimal_digits decimal_point b;
          b \<leftarrow> AddCharacter CHR ''.'' b;
          check (len - decimal_point \<le> digits_after_point);
          b \<leftarrow> AddSubstring (drop (nat decimal_point) decimal_digits) (len - decimal_point) b;
          AddPadding CHR ''0'' (digits_after_point - (len - decimal_point)) b
        });
     if digits_after_point = 0 then do {
       b \<leftarrow> (if has_flag (dts_flags conv) EMIT_TRAILING_DECIMAL_POINT then AddCharacter CHR ''.'' b else Some b);
       if has_flag (dts_flags conv) EMIT_TRAILING_ZERO_AFTER_POINT then AddCharacter CHR ''0'' b else Some b
     } else Some b
   }"

section \<open>DoubleToAscii\<close>

fun DtoaToBignumDtoaMode :: "DtoaMode \<Rightarrow> BignumDtoaMode" where
  "DtoaToBignumDtoaMode SHORTEST = BIGNUM_DTOA_SHORTEST"
| "DtoaToBignumDtoaMode SHORTEST_SINGLE = BIGNUM_DTOA_SHORTEST_SINGLE"
| "DtoaToBignumDtoaMode FIXED = BIGNUM_DTOA_FIXED"
| "DtoaToBignumDtoaMode PRECISION = BIGNUM_DTOA_PRECISION"

definition fast_conversion :: "double \<Rightarrow> DtoaMode \<Rightarrow> int \<Rightarrow> string \<Rightarrow> (bool \<times> string \<times> nat \<times> int) result" where
  "fast_conversion v mode requested_digits vec =
     (case mode of
        SHORTEST \<Rightarrow> FastDtoa v FAST_DTOA_SHORTEST 0 vec
      | SHORTEST_SINGLE \<Rightarrow> FastDtoa v FAST_DTOA_SHORTEST_SINGLE 0 vec
      | FIXED \<Rightarrow> FastFixedDtoa v requested_digits vec
      | PRECISION \<Rightarrow> FastDtoa v FAST_DTOA_PRECISION requested_digits vec)"

text \<open>The result is the sign, the buffer, its length and the decimal point.\<close>

definition DoubleToAscii ::
  "double \<Rightarrow> DtoaMode \<Rightarrow> int \<Rightarrow> string \<Rightarrow> (bool \<times> string \<times> nat \<times> int) result" where
  "DoubleToAscii v mode requested_digits vec = do {
     check (\<not> D_IsSpecial v);
     check (mode = SHORTEST \<or> mode = SHORTEST_SINGLE \<or> requested_digits \<ge> 0);
     let (sign, v) = (if D_Sign v < 0 then (True, double_minus v) else (False, v));
     if mode = PRECISION \<and> requested_digits = 0 then do {
       vec \<leftarrow> vset vec 0 (CHR 0x00);
       Some (sign, vec, 0, 0)
     } else if double_eq v 0 then do {
       vec \<leftarrow> vset vec 0 CHR ''0'';
       vec \<leftarrow> vset vec 1 (CHR 0x00);
       Some (sign, vec, 1, 1)
     } else do {
       (fast_worked, vec, len, point) \<leftarrow> fast_conversion v mode requested_digits vec;
       if fast_worked then Some (sign, vec, len, point)
       else do {
         (vec, len, point) \<leftarrow> BignumDtoa v (DtoaToBignumDtoaMode mode) requested_digits vec;
         vec \<leftarrow> vset vec len (CHR 0x00);
         Some (sign, vec, len, point)
       }
     }
   }"

section \<open>The output formats\<close>

text \<open>The sign is written unless the value is a zero and zeros are unique.\<close>

definition add_sign :: "double_to_string_converter \<Rightarrow> bool \<Rightarrow> double \<Rightarrow> string_builder \<Rightarrow> string_builder result" where
  "add_sign conv sign value b =
     (let unique_zero = has_flag (dts_flags conv) UNIQUE_ZERO in
      if sign \<and> (\<not> double_eq value 0 \<or> \<not> unique_zero) then AddCharacter CHR ''-'' b else Some b)"

text \<open>\<open>for (i = from; i < to; ++i) decimal_rep[i] = '0'\<close>\<close>

definition fill_zeros :: "nat \<Rightarrow> nat \<Rightarrow> string \<Rightarrow> string result" where
  "fill_zeros from to rep = for_up from to (\<lambda>i rep. vset rep i CHR ''0'') rep"

definition ToShortestIeeeNumber ::
  "double_to_string_converter \<Rightarrow> double \<Rightarrow> DtoaMode \<Rightarrow> string_builder \<Rightarrow> (bool \<times> string_builder) result" where
  "ToShortestIeeeNumber conv value mode b = do {
     check (mode = SHORTEST \<or> mode = SHORTEST_SINGLE);
     if D_IsSpecial value then HandleSpecialValues conv value b
     else do {
       (sign, rep, len, decimal_point) \<leftarrow> DoubleToAscii value mode 0 (replicate (kBase10MaximalLength + 1) (CHR 0x00));
       b \<leftarrow> add_sign conv sign value b;
       let e = decimal_point - 1;
       b \<leftarrow> (if dts_decimal_in_shortest_low conv \<le> e \<and> e < dts_decimal_in_shortest_high conv
             then CreateDecimalRepresentation conv rep (int len) decimal_point (max 0 (int len - decimal_point)) b
             else CreateExponentialRepresentation conv rep len e b);
       Some (True, b)
     }
   }"

definition ToShortest ::
  "double_to_string_converter \<Rightarrow> double \<Rightarrow> string_builder \<Rightarrow> (bool \<times> string_builder) result" where
  "ToShortest conv value b = ToShortestIeeeNumber conv value SHORTEST b"

definition ToShortestSingle ::
  "double_to_string_converter \<Rightarrow> single \<Rightarrow> string_builder \<Rightarrow> (bool \<times> string_builder) result" where
  "ToShortestSingle conv value b = ToShortestIeeeNumber conv (single_to_double value) SHORTEST_SINGLE b"

definition kFirstNonFixed :: double where
  "kFirstNonFixed = round_double (10 ^ 60) 1"

definition ToFixed ::
  "double_to_string_converter \<Rightarrow> double \<Rightarrow> int \<Rightarrow> string_builder \<Rightarrow> (bool \<times> string_builder) result" where
  "ToFixed conv value requested_digits b = do {
     check (kMaxFixedDigitsBeforePoint = 60);
     if D_IsSpecial value then HandleSpecialValues conv value b
     else if requested_digits > int kMaxFixedDigitsAfterPoint then Some (False, b)
     else if double_le kFirstNonFixed value \<or> double_le value (double_minus kFirstNonFixed) then Some (False, b)
     else do {
       (sign, rep, len, decimal_point) \<leftarrow> DoubleToAscii value FIXED requested_digits
         (replicate (kMaxFixedDigitsBeforePoint + kMaxFixedDigitsAfterPoint + 1) (CHR 0x00));
       b \<leftarrow> add_sign conv sign value b;
       b \<leftarrow> CreateDecimalRepresentation conv rep (int len) decimal_point requested_digits b;
       Some (True, b)
     }
   }"

definition ToExponential ::
  "double_to_string_converter \<Rightarrow> double \<Rightarrow> int \<Rightarrow> string_builder \<Rightarrow> (bool \<times> string_builder) result" where
  "ToExponential conv value requested_digits b =
     (if D_IsSpecial value then HandleSpecialValues conv value b
      else if requested_digits < -1 then Some (False, b)
      else if requested_digits > int kMaxExponentialDigits then Some (False, b)
      else do {
        let kDecimalRepCapacity = kMaxExponentialDigits + 2;
        check (kDecimalRepCapacity > kBase10MaximalLength);
        let rep = replicate kDecimalRepCapacity (CHR 0x00);
        (sign, rep, len, decimal_point) \<leftarrow>
          (if requested_digits = -1 then DoubleToAscii value SHORTEST 0 rep
           else do {
             (sign, rep, len, decimal_point) \<leftarrow> DoubleToAscii value PRECISION (requested_digits + 1) rep;
             check (int len \<le> requested_digits + 1);
             rep \<leftarrow> fill_zeros len (nat (requested_digits + 1)) rep;
             Some (sign, rep, nat (requested_digits + 1), decimal_point)
           });
        b \<leftarrow> add_sign conv sign value b;
        let e = decimal_point - 1;
        b \<leftarrow> CreateExponentialRepresentation conv rep len e b;
        Some (True, b)
      })"

definition ToPrecision ::
  "double_to_string_converter \<Rightarrow> double \<Rightarrow> int \<Rightarrow> string_builder \<Rightarrow> (bool \<times> string_builder) result" where
  "ToPrecision conv value precision b =
     (if D_IsSpecial value then HandleSpecialValues conv value b
      else if precision < kMinPrecisionDigits \<or> precision > int kMaxPrecisionDigits then Some (False, b)
      else do {
        (sign, rep, len, decimal_point) \<leftarrow>
          DoubleToAscii value PRECISION precision (replicate (kMaxPrecisionDigits + 1) (CHR 0x00));
        check (int len \<le> precision);
        b \<leftarrow> add_sign conv sign value b;
        let e = decimal_point - 1;
        let extra_zero = (if has_flag (dts_flags conv) EMIT_TRAILING_ZERO_AFTER_POINT then 1 else 0);
        b \<leftarrow> (if - decimal_point + 1 > dts_max_leading_padding conv \<or>
                decimal_point - precision + extra_zero > dts_max_trailing_padding conv
              then do {
                rep \<leftarrow> fill_zeros len (nat precision) rep;
                CreateExponentialRepresentation conv rep (nat precision) e b
              } else CreateDecimalRepresentation conv rep (int len) decimal_point (max 0 (precision - decimal_point)) b);
        Some (True, b)
      })"

end
