(* ===== verification/Shortest_Ascii.thy ===== *)
theory Shortest_Ascii
  imports Grisu_Properties DoubleToString
begin

text \<open>
  The digits of \<open>DoubleToAscii\<close> for both signs: the fast conversion where it works, the exact one where it gives up. Either way
  the digits are the shortest ones that lie between the boundaries of the number.
\<close>

section \<open>Signs\<close>

definition with_sign :: "bool \<Rightarrow> double \<Rightarrow> double" where
  "with_sign neg u = (if neg then double_minus u else u)"

lemma double_minus_minus [simp]: "double_minus (double_minus u) = u"
  by (simp add: double_minus_def xor.assoc)

lemma bit_D_masks:
  "bit D_kSignMask n \<longleftrightarrow> n = 63" "bit D_kExponentMask n \<longleftrightarrow> 52 \<le> n \<and> n < 63" "bit D_kSignificandMask n \<longleftrightarrow> n < 52"
  unfolding D_masks by (simp_all only: bit_push_bit_iff bit_mask_iff possible_bit_word length_64) auto

lemma sign_bit_fields:
  "double_minus u AND D_kExponentMask = u AND D_kExponentMask"
  "double_minus u AND D_kSignificandMask = u AND D_kSignificandMask"
  "double_minus u AND NOT D_kSignMask = u AND NOT D_kSignMask"
  "double_minus u AND D_kSignMask = D_kSignMask AND NOT u"
  unfolding double_minus_def by (rule bit_eqI; auto simp: bit_simps bit_D_masks)+

lemma sign_clear_iff: "u AND D_kSignMask = 0 \<longleftrightarrow> \<not> bit u 63"
  unfolding bit_eq_iff [of "u AND D_kSignMask" 0] by (auto simp: bit_simps bit_D_masks dest: spec [of _ 63])

lemma split_sign: "u = (u AND NOT D_kSignMask) OR (u AND D_kSignMask)"
  by (rule bit_eqI) (auto simp: bit_simps)

lemma D_abs_rank: "unat u < 2 ^ 63 \<Longrightarrow> u AND D_kSignMask = 0 \<and> u AND NOT D_kSignMask = u"
proof -
  assume "unat u < 2 ^ 63"
  then have "unat u div 2 ^ 63 = 0" by simp
  then have zero: "u AND D_kSignMask = 0" using D_fields(3) [of u] by (simp only: unat_eq_0_iff [symmetric] mod_0 mult_zero_left)
  with split_sign [of u] show ?thesis by simp
qed

lemma with_sign_facts:
  assumes u: "unat u < D_inf_rank"
  shows "D_Sign (with_sign neg u) < 0 \<longleftrightarrow> neg" "\<not> D_IsSpecial (with_sign neg u)" "double_eq (with_sign neg u) 0 \<longleftrightarrow> u = 0"
proof -
  have u63: "unat u < 2 ^ 63" using u by simp
  note abs = D_abs_rank [OF u63]
  have "D_kSignMask AND NOT u = D_kSignMask" using abs [THEN conjunct1]
    unfolding sign_clear_iff by (intro bit_eqI) (auto simp: bit_simps bit_D_masks)
  moreover have "D_kSignMask \<noteq> 0" by (simp add: D_kSignMask_def)
  ultimately have minus: "D_Sign (double_minus u) = -1" by (simp add: D_Sign_def sign_bit_fields)
  then show "D_Sign (with_sign neg u) < 0 \<longleftrightarrow> neg" using D_rank(1) [OF u] by (simp add: with_sign_def)
  show ns: "\<not> D_IsSpecial (with_sign neg u)" using D_rank(2) [OF u] by (simp add: with_sign_def D_IsSpecial_def sign_bit_fields)
  then have "\<not> D_IsNan (with_sign neg u)" by (simp add: D_IsSpecial_def D_IsNan_def)
  moreover have "double_order (with_sign neg u) = (if neg then - int (unat u) else int (unat u))"
    using D_rank(1) [OF u] minus abs by (simp add: with_sign_def double_order_def sign_bit_fields)
  moreover have "double_order 0 = 0" "\<not> D_IsNan 0" by (simp_all add: double_order_def D_IsNan_def D_kExponentMask_def)
  ultimately show "double_eq (with_sign neg u) 0 \<longleftrightarrow> u = 0" by (simp add: double_eq_def unat_eq_0_iff)
qed

text \<open>Every number that is not special is a number with the sign bit clear and a sign.\<close>

lemma with_sign_exhaust:
  assumes "\<not> D_IsSpecial v"
  obtains neg u where "v = with_sign neg u" "unat u < D_inf_rank"
proof -
  define u where "u = v AND NOT D_kSignMask"
  have "v = with_sign (D_Sign v < 0) u"
    unfolding u_def with_sign_def double_minus_def D_Sign_def sign_clear_iff by (rule bit_eqI) (auto simp: bit_simps bit_D_masks)
  moreover have "unat u < D_inf_rank"
  proof -
    have "u AND D_kSignMask = 0" unfolding u_def by (rule bit_eqI) (auto simp: bit_simps)
    then have "unat u div 2 ^ 63 mod 2 = 0" using D_fields(3) [of u] by simp
    then have "unat u < 2 ^ 63" using unat_less_64 [of u] by simp
    then have "unat u div 2 ^ 52 < 2 ^ 11" by (intro less_mult_imp_div_less) simp
    moreover have "u AND D_kExponentMask = v AND D_kExponentMask"
      unfolding u_def by (rule bit_eqI) (auto simp: bit_simps bit_D_masks)
    then have "unat (u AND D_kExponentMask) \<noteq> 0x7FF * 2 ^ 52"
      using assms by (auto simp: D_IsSpecial_def word_unat_eq_iff D_kExponentMask_def)
    ultimately have "unat u div 2 ^ 52 < 0x7FF" using D_fields(1) [of u] by simp
    then show ?thesis by (simp only: div_less_iff_less_mult zero_less_power zero_less_numeral)
  qed
  ultimately show ?thesis by (rule that)
qed

lemma signed_cases:
  assumes "\<not> D_IsSpecial v"
  obtains neg u where "v = with_sign neg u" "unat u < D_inf_rank" "v AND NOT D_kSignMask = u" "(D_Sign v < 0) = neg"
proof -
  from with_sign_exhaust [OF assms] obtain neg u where v: "v = with_sign neg u" and u: "unat u < D_inf_rank" .
  have "unat u < 2 ^ 63" using u by simp
  then have "v AND NOT D_kSignMask = u" using D_abs_rank [of u] by (simp add: v with_sign_def sign_bit_fields)
  then show thesis using with_sign_facts(1) [OF u] by (intro that [OF v u]) (simp_all add: v)
qed

section \<open>DoubleToAscii\<close>

text \<open>
  What a shortest mode promises: on the numbers it handles, the fast conversion either gives up or finds the shortest digits, and the
  exact conversion finds them always. \<open>DoubleToAscii\<close> is correct for every such mode.
\<close>

locale shortest_mode =
  fixes mode :: DtoaMode and handled :: "double \<Rightarrow> bool" and shortest :: "double \<Rightarrow> string \<Rightarrow> int \<Rightarrow> bool"
  assumes mode_law: "mode = SHORTEST \<or> mode = SHORTEST_SINGLE"
    and handled_law: "handled u \<Longrightarrow> unat u < D_inf_rank"
    and zero_law: "handled 0 \<Longrightarrow> shortest 0 ''0'' 1"
    and digits_law: "handled u \<Longrightarrow> shortest u ds point \<Longrightarrow> ds \<noteq> [] \<and> length ds \<le> 17"
    and fast_law: "handled u \<Longrightarrow> u \<noteq> 0 \<Longrightarrow> 18 \<le> length buffer \<Longrightarrow>
      returns (fast_conversion u mode digits buffer) (\<lambda>(r, buf, l, point). length buf = length buffer \<and> l \<le> 17 \<and>
        (r \<longrightarrow> buf ! l = CHR 0x00 \<and> l = length (take l buf) \<and> shortest u (take l buf) point))"
    and exact_law: "handled u \<Longrightarrow> u \<noteq> 0 \<Longrightarrow> 18 \<le> length buffer \<Longrightarrow>
      returns (BignumDtoa u (DtoaToBignumDtoaMode mode) digits buffer) (\<lambda>(buf, l, point). length buf = length buffer \<and>
        l = length (take l buf) \<and> buf ! l = CHR 0x00 \<and> shortest u (take l buf) point)"
begin

lemma to_ascii:
  assumes u: "handled u" and vec: "18 \<le> length vec"
  shows "returns (DoubleToAscii (with_sign neg u) mode digits vec) (\<lambda>(sign, buf, l, point). sign = neg \<and>
    length buf = length vec \<and> 0 < l \<and> l \<le> 17 \<and> buf ! l = CHR 0x00 \<and> shortest u (take l buf) point)"
proof -
  note ui = handled_law [OF u] and sf = with_sign_facts [OF handled_law [OF u]]
  have abs: "(if D_Sign (with_sign neg u) < 0 then (True, double_minus (with_sign neg u)) else (False, with_sign neg u)) = (neg, u)"
    unfolding sf(1) by (cases neg) (simp_all add: with_sign_def)
  note run = DoubleToAscii_def [of "with_sign neg u" mode digits vec, unfolded abs Let_def prod.case]
  have m: "mode \<noteq> PRECISION" "mode = SHORTEST \<or> mode = SHORTEST_SINGLE \<or> 0 \<le> digits" using mode_law by auto
  have eq0: "double_eq u 0 \<longleftrightarrow> u = 0" using with_sign_facts(3) [OF ui, of False] by (simp add: with_sign_def)
  show ?thesis
  proof (cases "u = 0")
    case True
    have "2 \<le> length vec" using vec by simp
    then obtain a b r where "vec = a # b # r" by (metis One_nat_def Suc_le_length_iff numeral_2_eq_2)
    then show ?thesis using True sf(2) eq0 m u zero_law unfolding run by (simp add: wp)
  next
    case False
    from returns_ex [OF fast_law [OF u False vec, of digits]] obtain r buf l point where
      f: "fast_conversion u mode digits vec = Some (r, buf, l, point)" "length buf = length vec" "l \<le> 17"
        "r \<longrightarrow> buf ! l = CHR 0x00 \<and> l = length (take l buf) \<and> shortest u (take l buf) point" by blast
    have pos: "0 < k" if "shortest u (take k b) q" for k b q using digits_law [OF u that] by (cases k) auto
    show ?thesis
    proof (cases r)
      case True
      then show ?thesis using False sf(2) eq0 f m pos unfolding run by (auto simp: wp)
    next
      case slow: False
      have "18 \<le> length buf" using f(2) vec by simp
      from returns_ex [OF exact_law [OF u False this, of digits]] obtain buf' l' point' where
        b: "BignumDtoa u (DtoaToBignumDtoaMode mode) digits buf = Some (buf', l', point')" "length buf' = length buf" "l' = length (take l' buf')"
          "shortest u (take l' buf') point'" by blast
      then have "l' \<le> 17" using digits_law [OF u b(4)] by simp
      then show ?thesis using False sf(2) eq0 f b slow m pos vec unfolding run by (auto simp: wp)
    qed
  qed
qed

end

definition D_shortest :: "double \<Rightarrow> string \<Rightarrow> int \<Rightarrow> bool" where
  "D_shortest u ds point \<longleftrightarrow> (if u = 0 then ds = ''0'' \<and> point = 1 else
     shortest_digits (even (unat u)) (midpoint 52 (-1074) (unat u - 1)) (D_val (unat u)) (midpoint 52 (-1074) (unat u)) ds point)"

interpretation double_mode: shortest_mode SHORTEST "\<lambda>u. unat u < D_inf_rank" D_shortest
proof (unfold_locales, goal_cases)
  case (5 u buffer digits)
  then show ?case using FastDtoa_shortest [of u buffer 0] by (simp add: fast_conversion_def D_shortest_def unat_gt_0)
next
  case (6 u buffer digits)
  then show ?case using BignumDtoa_shortest [of u buffer digits] by (simp add: D_shortest_def unat_gt_0)
qed (auto simp: D_shortest_def shortest_digits_def split: if_splits)

section \<open>Properties\<close>

text \<open>
  C19: \<open>DoubleToAscii\<close> in the mode \<open>SHORTEST\<close> always delivers: for every double that is not an infinity or NaN it ends, fails no
  assertion, and returns the sign, a terminated buffer and the shortest digits of the absolute value (\<open>0\<close> for a zero), whether the
  fast conversion worked or the exact one had to follow.
\<close>

theorem double_to_ascii_always_returns_shortest:
  assumes "\<not> D_IsSpecial v" "18 \<le> length vec"
  shows "\<exists>buf l point. DoubleToAscii v SHORTEST digits vec = Some (D_Sign v < 0, buf, l, point) \<and> 0 < l \<and> l \<le> 17 \<and>
    buf ! l = CHR 0x00 \<and> D_shortest (v AND NOT D_kSignMask) (take l buf) point"
proof -
  from signed_cases [OF assms(1)] obtain neg u where v: "v = with_sign neg u" and u: "unat u < D_inf_rank"
    and m: "v AND NOT D_kSignMask = u" "(D_Sign v < 0) = neg" .
  show ?thesis using returns_ex [OF double_mode.to_ascii [OF u assms(2), of neg digits]] unfolding m unfolding v by auto
qed

theorem double_to_ascii_always_returns_shortest_witness:
  "\<exists>buf l point. DoubleToAscii 0xC059000000000000 SHORTEST 0 (replicate 18 CHR ''x'') = Some (True, buf, l, point) \<and> 0 < l \<and> l \<le> 17 \<and>
    buf ! l = CHR 0x00 \<and> D_shortest 0x4059000000000000 (take l buf) point"
proof -
  have "\<not> D_IsSpecial 0xC059000000000000" "D_Sign 0xC059000000000000 < 0" "(0xC059000000000000 :: double) AND NOT D_kSignMask = 0x4059000000000000"
    by (simp_all add: D_IsSpecial_def D_kExponentMask_def D_Sign_def D_kSignMask_def)
  then show ?thesis using double_to_ascii_always_returns_shortest [of "0xC059000000000000" "replicate 18 CHR ''x''" 0] by simp
qed

end
