(* ===== verification/Parse_Phases.thy ===== *)
theory Parse_Phases
  imports Parse_Loops Shortest_Ascii
begin

text \<open>
  The phases of \<open>StringToIeee\<close> on a decimal literal: an optional sign, digits with an optional point, an optional exponent. Each
  lemma gives the state in which a phase hands over to the next one.
\<close>

section \<open>The start of a number\<close>

definition symbol_ok :: "string option \<Rightarrow> bool" where
  "symbol_ok symbol \<longleftrightarrow> (case symbol of None \<Rightarrow> True | Some t \<Rightarrow> \<not> is_decimal (first_char t) \<and> first_char t \<noteq> CHR ''.'')"

definition reads_decimal :: "string_to_double_converter \<Rightarrow> bool" where
  "reads_decimal conv \<longleftrightarrow> \<not> allows conv ALLOW_OCTALS \<and> symbol_ok (std_infinity_symbol conv) \<and> symbol_ok (std_nan_symbol conv)"

definition is_sign :: "string \<Rightarrow> bool" where
  "is_sign t \<longleftrightarrow> t = [] \<or> t = ''+'' \<or> t = ''-''"

definition number_start :: "char \<Rightarrow> bool" where
  "number_start c \<longleftrightarrow> is_decimal c \<or> c = CHR ''.''"

lemma number_start_not:
  assumes "number_start c"
  shows "c \<noteq> CHR '' ''" "c \<noteq> CHR ''+''" "c \<noteq> CHR ''-''"
  using assms by (auto simp: number_start_def is_decimal_def)

lemma skip_leading_spaces_number:
  assumes "input = t @ c # r" "is_sign t" "number_start c"
  shows "skip_leading_spaces conv input initial_state = Some (Go_on initial_state)"
proof -
  obtain b q where b: "input = b # q" "b \<noteq> CHR '' ''"
    using assms number_start_not(1) [OF assms(3)] by (auto simp: is_sign_def)
  have "AdvanceToNonspace input 0 = Some (True, 0)" by (rule AdvanceToNonspace_stay [of b _ "[]"]) (use b in simp_all)
  then show ?thesis using b by (simp add: skip_leading_spaces_def initial_state_def)
qed

lemma parse_sign_number:
  assumes "input = t @ c # r" "is_sign t" "number_start c"
  shows "parse_sign conv input initial_state =
    Some (Go_on (initial_state\<lparr>ps_sign := (t = ''-''), ps_current := length t\<rparr>))"
proof -
  note c = number_start_not [OF assms(3)]
  show ?thesis
  proof (cases "t = []")
    case True
    then show ?thesis using assms(1) c by (simp add: parse_sign_def initial_state_def vget_def)
  next
    case False
    then obtain b where b: "t = [b]" "b = CHR ''+'' \<or> b = CHR ''-''" using assms(2) by (auto simp: is_sign_def)
    have "AdvanceToNonspace input 1 = Some (True, 1)" by (rule AdvanceToNonspace_stay [of c _ "[b]"]) (use assms(1) b c in simp_all)
    then show ?thesis using assms(1) b by (auto simp: parse_sign_def initial_state_def vget_def)
  qed
qed

lemma parse_symbol_number:
  assumes "symbol_ok symbol" "input = pre @ c # r" "ps_current s = length pre" "number_start c"
  shows "parse_symbol symbol v conv input s = Some (Go_on s)"
  using assms by (cases symbol) (auto simp: parse_symbol_def symbol_ok_def number_start_def vget_def)

section \<open>Leading zeros\<close>

lemma parse_leading_zero_all:
  assumes "input = pre @ replicate (Suc z) CHR ''0''" "ps_current s = length pre"
  shows "parse_leading_zero rd conv input s = Some (Return (SignedZero (ps_sign s)) (length input))"
proof (cases z)
  case 0
  then show ?thesis using assms by (simp add: parse_leading_zero_def vget_def)
next
  case (Suc y)
  have "input = (pre @ ''0'') @ replicate z CHR ''0''" using assms(1) by simp
  from skip_zeros_all [OF this, of 0 0] obtain e where "skip_zeros input 0 (Suc (length pre), 0) = Some (length input, e)" by auto
  moreover have "vget input (length pre) = Some CHR ''0''" "vget input (Suc (length pre)) = Some CHR ''0''"
    "Suc (length pre) \<noteq> length input" using assms(1) Suc by (simp_all add: vget_def nth_append)
  ultimately show ?thesis using assms(2) by (simp add: parse_leading_zero_def Let_def)
qed

lemma parse_leading_zero_some:
  assumes "input = pre @ replicate z CHR ''0'' @ c # r" "ps_current s = length pre" "c \<noteq> CHR ''0''" "c \<noteq> CHR ''x''" "c \<noteq> CHR ''X''"
    "\<not> allows conv ALLOW_OCTALS" "\<not> ps_octal s" "\<not> ps_leading_zero s"
  shows "parse_leading_zero rd conv input s = Some (Go_on (s\<lparr>ps_current := length pre + z, ps_leading_zero := (0 < z)\<rparr>))"
proof (cases z)
  case 0
  then show ?thesis using assms by (simp add: parse_leading_zero_def vget_def)
next
  case (Suc y)
  have "input = (pre @ ''0'') @ replicate y CHR ''0'' @ c # r" using assms(1) Suc by simp
  from skip_zeros_run [OF this assms(3), of 0 0] have "skip_zeros input 0 (Suc (length pre), 0) = Some (length pre + z, 0)" using Suc by simp
  moreover have "vget input (Suc (length pre)) = Some (if y = 0 then c else CHR ''0'')"
    using assms(1) Suc by (cases y) (simp_all add: vget_def nth_append)
  moreover have "vget input (length pre) = Some CHR ''0''" "Suc (length pre) \<noteq> length input" "length pre + z \<noteq> length input"
    using assms(1) Suc by (simp_all add: vget_def)
  ultimately show ?thesis using assms(2,4-8) Suc by (simp add: parse_leading_zero_def Let_def)
qed

section \<open>The integer part and the fraction\<close>

definition starts :: "parse_state \<Rightarrow> nat \<Rightarrow> bool" where
  "starts s i \<longleftrightarrow> ps_current s = i \<and> ps_buffer s = [] \<and> ps_significant_digits s = 0 \<and> ps_insignificant_digits s = 0 \<and>
     \<not> ps_nonzero_digit_dropped s \<and> \<not> ps_octal s \<and> ps_exponent s = 0"

lemma parse_integer_number:
  assumes "input = pre @ u @ post" "list_all is_decimal u" "post = [] \<or> \<not> is_decimal (hd post)" "starts s (length pre)"
  shows "parse_integer conv input s = Some (if post = [] then Parsing_done (after_integer s u) else Go_on (after_integer s u))"
proof -
  have loop: "digit_loop integer_digit input s = Some (after_integer s u)"
    using assms(4) by (intro integer_loop [OF assms(1-3)]) (simp_all add: starts_def)
  have o: "(after_integer s u)\<lparr>ps_octal := False\<rparr> = after_integer s u" using assms(4) by (simp add: after_integer_def starts_def)
  have "ps_current (after_integer s u) = length pre + length u" using assms(4) by (simp add: after_integer_def starts_def)
  then show ?thesis unfolding parse_integer_def loop using assms(1) o by simp
qed

text \<open>After the digits \<open>u\<close> of the integer part: without a point, or with a point and nothing behind it.\<close>

lemma parse_fraction_none:
  assumes "input = pre @ c # r" "ps_current s = length pre" "c \<noteq> CHR ''.''"
  shows "parse_fraction conv input s = Some (Go_on s)"
  using assms by (simp add: parse_fraction_def vget_def)

lemma parse_fraction_empty:
  assumes "input = pre @ ''.''" "ps_current s = length pre" "\<not> ps_octal s" "ps_significant_digits s \<noteq> 0 \<or> ps_leading_zero s"
  shows "parse_fraction conv input s = Some (Parsing_done (s\<lparr>ps_current := length input\<rparr>))"
  using assms by (auto simp: parse_fraction_def vget_def Let_def)

lemma parse_fraction_zeros:
  assumes "input = pre @ CHR ''.'' # replicate (Suc y) CHR ''0''" "ps_current s = length pre" "\<not> ps_octal s" "ps_significant_digits s = 0"
  shows "parse_fraction conv input s = Some (Return (SignedZero (ps_sign s)) (length input))"
proof -
  have "input = (pre @ ''.'') @ replicate (Suc y) CHR ''0''" using assms(1) by simp
  from skip_zeros_all [OF this, of "-1" "ps_exponent s"] obtain e where
    "skip_zeros input (-1) (Suc (length pre), ps_exponent s) = Some (length input, e)" by auto
  moreover have "vget input (length pre) = Some CHR ''.''" using assms(1) by (simp add: vget_at)
  moreover have "Suc (length pre) \<noteq> length input" using assms(1) by simp
  ultimately show ?thesis using assms(2-4) by (simp add: parse_fraction_def Let_def)
qed

lemma parse_fraction_digits:
  assumes input: "input = pre @ CHR ''.'' # replicate y CHR ''0'' @ g @ post" and s: "ps_current s = length pre" "\<not> ps_octal s"
    "ps_buffer s = take kMaxSignificantDigits u" "ps_significant_digits s = length (take kMaxSignificantDigits u)"
    "ps_nonzero_digit_dropped s = some_nonzero (drop kMaxSignificantDigits u)"
    and g: "list_all is_decimal g" "post = [] \<or> \<not> is_decimal (hd post)" "g @ post \<noteq> []"
    and y: "if u = [] then g = [] \<or> hd g \<noteq> CHR ''0'' else y = 0"
  defines "s' \<equiv> after_fraction (s\<lparr>ps_current := length pre + 1 + y, ps_exponent := ps_exponent s - int y\<rparr>) u g"
  shows "parse_fraction conv input s = Some (if post = [] then Parsing_done s' else Go_on s')"
proof -
  let ?s = "s\<lparr>ps_current := length pre + 1 + y, ps_exponent := ps_exponent s - int y\<rparr>" and ?pre = "pre @ CHR ''.'' # replicate y CHR ''0''"
  obtain c r where c: "g @ post = c # r" using g(3) by (cases "g @ post") auto
  have sig: "ps_significant_digits s = 0 \<longleftrightarrow> u = []" unfolding s(4) by (cases u) (simp_all add: kMaxSignificantDigits_def)
  have skip: "(if ps_significant_digits s = 0 then skip_zeros input (-1) (Suc (length pre), ps_exponent s) else Some (Suc (length pre), ps_exponent s))
    = Some (length pre + 1 + y, ps_exponent s - int y)"
  proof (cases "u = []")
    case True
    have "c \<noteq> CHR ''0''"
    proof (cases g)
      case Nil
      then have "hd post = c" "post \<noteq> []" using c by simp_all
      then show ?thesis using g(2) by (auto simp: is_decimal_def)
    next
      case (Cons a v)
      then show ?thesis using c y True by simp
    qed
    moreover have "input = (pre @ ''.'') @ replicate y CHR ''0'' @ c # r" using input c by simp
    ultimately show ?thesis using skip_zeros_run [of input "pre @ ''.''" y c r "-1" "ps_exponent s"] True sig by simp
  next
    case False
    then show ?thesis using y sig by simp
  qed
  have loop: "digit_loop fraction_digit input ?s = Some s'"
    unfolding s'_def using s by (intro fraction_loop [of input ?pre g post]) (use input g in simp_all)
  have cur: "ps_current s' = length pre + 1 + y + length g" by (simp add: s'_def after_fraction_def)
  have "vget input (length pre) = Some CHR ''.''" using input by (simp add: vget_at)
  moreover have len: "length input = length pre + 1 + y + length g + length post" using input by simp
  moreover have "length g + length post \<noteq> 0" using g(3) by simp
  ultimately show ?thesis using s(1,2) skip loop cur
    by (cases "ps_significant_digits s = 0") (auto simp: parse_fraction_def Let_def)
qed

section \<open>The exponent and the end\<close>

lemma parse_exponent_none:
  assumes "input = pre @ c # r" "ps_current s = length pre" "c \<noteq> CHR ''e''" "c \<noteq> CHR ''E''"
  shows "parse_exponent conv input s = Some (Go_on s)"
  using assms by (simp add: parse_exponent_def vget_def)

definition exponent_num :: "string \<Rightarrow> int" where
  "exponent_num ds = int (min (text_digits ds) (nat max_exponent))"

lemma parse_exponent_number:
  assumes input: "input = pre @ c # t @ ds" and c: "c = CHR ''e'' \<or> c = CHR ''E''" and t: "is_sign t" and ds: "list_all is_decimal ds" "ds \<noteq> []"
    and s: "ps_current s = length pre" "\<not> ps_octal s" "\<bar>ps_exponent s\<bar> \<le> 500000000"
  shows "parse_exponent conv input s = Some (Go_on (s\<lparr>ps_current := length input,
    ps_exponent := ps_exponent s + (if t = ''-'' then - exponent_num ds else exponent_num ds)\<rparr>))"
proof -
  obtain d r where d: "ds = d # r" "is_decimal d" using ds by (cases ds) auto
  have "input = (pre @ c # t) @ ds" using input by simp
  from exponent_loop_run [OF this ds(1)] have loop: "exponent_loop input (length pre + 1 + length t) = Some (length input, exponent_num ds)"
    by (simp add: exponent_num_def add.commute)
  have at: "vget input (length pre) = Some c" "vget input (length pre + 1 + length t) = Some d"
    using input d by (simp_all add: vget_def nth_append)
  have lim: "cdiv (- max_exponent) 2 \<le> ps_exponent s" "ps_exponent s \<le> max_exponent div 2"
    using s(3) by (simp_all add: max_exponent_def cdiv_def)
  have ne: "length pre + 1 + length t \<noteq> length input" "length pre + 1 \<noteq> length input" using input d by simp_all
  have e: "(c = CHR ''e'' \<or> c = CHR ''E'') = True" using c by simp
  show ?thesis
  proof (cases "t = []")
    case True
    then have dd: "vget input (length pre + 1) = Some d" "d \<noteq> CHR ''+''" "d \<noteq> CHR ''-''" using at(2) d(2) by (auto simp: is_decimal_def)
    then show ?thesis using at loop lim ne s d(2) True e unfolding parse_exponent_def s(1) at(1)
      by (simp add: Let_def check_def)
  next
    case False
    then obtain b where b: "t = [b]" "b = CHR ''+'' \<or> b = CHR ''-''" using t by (auto simp: is_sign_def)
    have atb: "vget input (length pre + 1) = Some b" using input b by (simp add: vget_def nth_append)
    have "parse_exponent conv input s = Some (Go_on (s\<lparr>ps_current := length input,
        ps_exponent := ps_exponent s + (if b = CHR ''-'' then - exponent_num ds else exponent_num ds)\<rparr>))"
      using b(2) at(2) atb loop lim ne s(2) d(2) b(1) e unfolding parse_exponent_def s(1) at(1)
      by (elim disjE) (simp_all add: Let_def check_def s(1))
    then show ?thesis using b(1) by simp
  qed
qed

lemma check_trailing_end:
  assumes "ps_current s = length input"
  shows "check_trailing conv input s = Some (Parsing_done s)"
proof -
  have "s\<lparr>ps_current := length input\<rparr> = s" using assms by simp
  then show ?thesis using assms AdvanceToNonspace_end [of "length input" input] by (simp add: check_trailing_def)
qed

end
