(* ===== verification/Single_Cast.thy ===== *)
theory Single_Cast
  imports Strtod_Properties
begin

text \<open>
  Floats beside doubles: \<open>static_cast<float>\<close> rounds to the nearest float, the cast back is exact, comparisons compare ranks, and a few
  neighbouring doubles never round to floats that are more than one step apart.
\<close>

section \<open>Numbers that are not negative\<close>

lemma D_nonneg:
  assumes "unat d \<le> D_inf_rank"
  shows "D_Sign d = 1" "\<not> D_IsNan d" "D_IsInfinite d \<longleftrightarrow> unat d = D_inf_rank" "double_order d = int (unat d)"
proof -
  have inf: "unat D_kInfinity = D_inf_rank" by (simp add: D_kInfinity_def)
  have eq: "D_Sign d = 1 \<and> \<not> D_IsNan d \<and> (D_IsInfinite d \<longleftrightarrow> unat d = D_inf_rank) \<and> d AND NOT D_kSignMask = d"
  proof (cases "unat d = D_inf_rank")
    case True
    then have "d = D_kInfinity" using inf by (simp only: word_unat_eq_iff)
    then show ?thesis
      by (simp add: D_Sign_def D_IsNan_def D_IsInfinite_def D_kInfinity_def D_kSignMask_def D_kExponentMask_def D_kSignificandMask_def)
  next
    case False
    then have d: "unat d < D_inf_rank" using assms by simp
    have "unat d div 2 ^ 63 = 0" using d by simp
    then have "d AND D_kSignMask = 0" using D_fields(3) [of d] by (simp only: unat_eq_0_iff [symmetric] mod_0 mult_zero_left)
    moreover have "d = (d AND NOT D_kSignMask) OR (d AND D_kSignMask)" by (rule bit_eqI) (auto simp: bit_simps)
    ultimately have "d AND NOT D_kSignMask = d" by simp
    then show ?thesis using D_rank(1,2) [OF d] False by (simp add: D_IsSpecial_def D_IsNan_def D_IsInfinite_def)
  qed
  then show "D_Sign d = 1" "\<not> D_IsNan d" "D_IsInfinite d \<longleftrightarrow> unat d = D_inf_rank" by blast+
  show "double_order d = int (unat d)" using eq by (simp add: double_order_def)
qed

lemma S_nonneg:
  assumes "unat f \<le> S_inf_rank"
  shows "S_Sign f = 1" "\<not> S_IsNan f" "S_IsInfinite f \<longleftrightarrow> unat f = S_inf_rank" "single_order f = int (unat f)"
proof -
  have inf: "unat S_kInfinity = S_inf_rank" by (simp add: S_kInfinity_def)
  have eq: "S_Sign f = 1 \<and> \<not> S_IsNan f \<and> (S_IsInfinite f \<longleftrightarrow> unat f = S_inf_rank) \<and> f AND NOT S_kSignMask = f"
  proof (cases "unat f = S_inf_rank")
    case True
    then have "f = S_kInfinity" using inf by (simp only: word_unat_eq_iff)
    then show ?thesis
      by (simp add: S_Sign_def S_IsNan_def S_IsInfinite_def S_kInfinity_def S_kSignMask_def S_kExponentMask_def S_kSignificandMask_def)
  next
    case False
    then have f: "unat f < S_inf_rank" using assms by simp
    have "unat f div 2 ^ 31 = 0" using f by simp
    then have "f AND S_kSignMask = 0" using S_fields(3) [of f] by (simp only: unat_eq_0_iff [symmetric] mod_0 mult_zero_left)
    moreover have "f = (f AND NOT S_kSignMask) OR (f AND S_kSignMask)" by (rule bit_eqI) (auto simp: bit_simps)
    ultimately have "f AND NOT S_kSignMask = f" by simp
    then show ?thesis using S_rank(1,2) [OF f] False by (simp add: S_IsSpecial_def S_IsNan_def S_IsInfinite_def)
  qed
  then show "S_Sign f = 1" "\<not> S_IsNan f" "S_IsInfinite f \<longleftrightarrow> unat f = S_inf_rank" by blast+
  show "single_order f = int (unat f)" using eq by (simp add: single_order_def)
qed

lemma double_eq_rank: "unat a \<le> D_inf_rank \<Longrightarrow> unat b \<le> D_inf_rank \<Longrightarrow> double_eq a b \<longleftrightarrow> unat a = unat b"
  using D_nonneg [of a] D_nonneg [of b] by (simp add: double_eq_def)

lemma single_compare_rank:
  assumes "unat a \<le> S_inf_rank" "unat b \<le> S_inf_rank"
  shows "single_eq a b \<longleftrightarrow> unat a = unat b" "single_le a b \<longleftrightarrow> unat a \<le> unat b"
  using S_nonneg [OF assms(1)] S_nonneg [OF assms(2)] by (simp_all add: single_eq_def single_le_def)

section \<open>The casts\<close>

lemma unat_round_single: "unat (round_single num den) = round_rank 23 (-149) S_inf_rank num den"
proof -
  have "round_rank 23 (-149) S_inf_rank num den \<le> S_inf_rank" by (simp add: round_rank_def Let_def)
  then have "round_rank 23 (-149) S_inf_rank num den < 2 ^ 32" by (rule le_less_trans) simp
  then show ?thesis unfolding round_single_def by (simp add: unat_of_nat)
qed

lemma round_single_nearest: "0 < den \<Longrightarrow> S_nearest (real num / real den) (unat (round_single num den))"
  unfolding unat_round_single by (rule round_rank_nearest) simp_all

lemma nearest_up: "nearest p emin inf_rank y inf_rank \<Longrightarrow> y \<le> x \<Longrightarrow> nearest p emin inf_rank x inf_rank" if "even inf_rank"
  using that by (auto simp: nearest_def)

lemma S_nearest_infinity: "2 powi 128 \<le> x \<Longrightarrow> S_nearest x S_inf_rank"
proof -
  assume x: "2 powi 128 \<le> x"
  have "midpoint 23 (-149) (S_inf_rank - 1) < S_val (Suc (S_inf_rank - 1))" by (rule midpoint_between)
  also have "Suc (S_inf_rank - 1) = S_inf_rank" by simp
  also have "S_val S_inf_rank = 2 ^ 23 * 2 powi 105" by (simp add: rank_val_def rank_sig_def rank_exp_def)
  also have "\<dots> = 2 powi 128" by (simp only: power_int_numeral power_add [symmetric]) simp
  also have "\<dots> \<le> x" by (rule x)
  finally show ?thesis by (simp add: nearest_def)
qed

lemma D_val_le: "m \<le> n \<Longrightarrow> D_val m \<le> D_val n"
  using rank_val_less [of m n 52 "-1074"] by (cases "m = n") auto

lemma D_val_large: "1151 * 2 ^ 52 \<le> n \<Longrightarrow> 2 powi 128 \<le> D_val n"
proof -
  assume n: "1151 * 2 ^ 52 \<le> n"
  have "D_val (1151 * 2 ^ 52) = 2 ^ 52 * 2 powi 76" by (simp add: rank_val_def rank_sig_def rank_exp_def)
  also have "\<dots> = 2 powi 128" by (simp only: power_int_numeral power_add [symmetric]) simp
  finally show ?thesis using D_val_le [OF n] by simp
qed

lemma double_to_single_nearest:
  assumes d: "unat d \<le> D_inf_rank"
  shows "S_nearest (D_val (unat d)) (unat (double_to_single d))"
proof (cases "unat d = D_inf_rank")
  case True
  have "2 powi 128 \<le> D_val (unat d)" using True by (intro D_val_large) simp
  moreover have "unat S_kInfinity = S_inf_rank" by (simp add: S_kInfinity_def)
  ultimately show ?thesis using S_nearest_infinity D_nonneg(1-3) [OF d] True by (simp add: double_to_single_def)
next
  case False
  then have d': "unat d < D_inf_rank" using d by simp
  have "double_to_single d = round_single (D_num d) (D_den d)" using D_nonneg(1-3) [OF d] False by (simp add: double_to_single_def)
  then show ?thesis using round_single_nearest [OF D_ratio(2) [OF d'], of "D_num d"] unfolding D_ratio(1) [OF d'] by simp
qed

lemma nearest_le: "nearest p emin inf_rank x n \<Longrightarrow> n \<le> inf_rank"
  by (simp add: nearest_def)

lemma single_to_double_exact:
  assumes f: "unat f < S_inf_rank"
  shows "unat (single_to_double f) < D_inf_rank" "D_val (unat (single_to_double f)) = S_val (unat f)"
proof -
  have e: "S_Exponent f = rank_exp 23 (-149) (unat f)" by (rule S_expo_rank [OF f])
  have "unat f div 2 ^ 23 < 0xFF" using f by (intro less_mult_imp_div_less)
  then have el: "-149 \<le> S_Exponent f" "S_Exponent f < 972" using rank_exp_ge [of "-149" 23 "unat f"] by (auto simp: e rank_exp_def)
  have sig: "unat (S_Significand f) < 2 ^ 53" using single.sig_less [OF f] by simp
  have "-1074 \<le> S_Exponent f" using el by simp
  from D_exact_exists [OF sig this el(2)] obtain r where r: "r < D_inf_rank" "D_val r = real (unat (S_Significand f)) * 2 powi S_Exponent f" .
  let ?n = "unat (S_Significand f) * 2 ^ nat (S_Exponent f)" and ?d = "2 ^ nat (- S_Exponent f) :: nat"
  have "D_val r = real ?n / real ?d" unfolding r(2) powi_ratio [of "S_Exponent f"] by simp
  then have "unat (round_double ?n ?d) = r" using r(1) by (intro round_double_exact) simp_all
  moreover have "unat f \<le> S_inf_rank" using f by simp
  then have "single_to_double f = round_double ?n ?d" using S_nonneg(1-3) [of f] f by (simp add: single_to_double_def)
  ultimately show "unat (single_to_double f) < D_inf_rank" "D_val (unat (single_to_double f)) = S_val (unat f)"
    using r single.val_rank [OF f] by simp_all
qed

lemma single_to_double_infinity: "unat f = S_inf_rank \<Longrightarrow> unat (single_to_double f) = D_inf_rank"
proof -
  assume f: "unat f = S_inf_rank"
  then have "unat f \<le> S_inf_rank" by simp
  note n = S_nonneg(1-3) [OF this]
  have "single_to_double f = D_kInfinity" using n f by (simp add: single_to_double_def)
  then show ?thesis by (simp add: D_kInfinity_def)
qed

lemma double_to_single_exact:
  assumes f: "unat f \<le> S_inf_rank"
  shows "unat (single_to_double f) \<le> D_inf_rank" "double_to_single (single_to_double f) = f"
proof -
  have "unat (single_to_double f) \<le> D_inf_rank \<and> unat (double_to_single (single_to_double f)) = unat f"
  proof (cases "unat f = S_inf_rank")
    case True
    note i = single_to_double_infinity [OF True]
    then have le: "unat (single_to_double f) \<le> D_inf_rank" by simp
    have "2 powi 128 \<le> D_val (unat (single_to_double f))" unfolding i by (rule D_val_large) simp
    from nearest_unique [OF double_to_single_nearest [OF le] S_nearest_infinity [OF this]] show ?thesis using le True by simp
  next
    case False
    then have "unat f < S_inf_rank" using f by simp
    note e = single_to_double_exact [OF this]
    have le: "unat (single_to_double f) \<le> D_inf_rank" using e(1) by (rule less_imp_le)
    from nearest_unique [OF double_to_single_nearest [OF le, unfolded e(2)] nearest_rank_val [OF \<open>unat f < S_inf_rank\<close>]] show ?thesis using le by simp
  qed
  then show "unat (single_to_double f) \<le> D_inf_rank" "double_to_single (single_to_double f) = f" by (simp_all only: word_unat_eq_iff)
qed

end
