(* ===== verification/Strtof_Properties.thy ===== *)
theory Strtof_Properties
  imports Single_Cast
begin

text \<open>
  \<open>Strtof\<close> as a whole: the double guess and its neighbours round to at most two floats, which are neighbours too, and the
  exact comparison with the boundary between the two decides.
\<close>

section \<open>Doubles are close together between floats\<close>

lemma rank_exp_Suc_le: "rank_exp p emin (Suc n) \<le> rank_exp p emin n + 1"
proof -
  have "Suc n div 2 ^ p \<le> Suc (n div 2 ^ p)" by (simp add: div_Suc)
  then show ?thesis by (cases "n < 2 ^ p") (simp_all add: rank_exp_def)
qed

lemma D_gap: "D_val (n + 3) \<le> D_val n + 7 * 2 powi rank_exp 52 (-1074) n"
proof -
  let ?r = "\<lambda>n. rank_exp 52 (-1074) n"
  have "(2 :: real) powi ?r (Suc k) \<le> 2 powi (?r k + 1)" for k by (intro power_int_increasing rank_exp_Suc_le) simp
  then have step: "(2 :: real) powi ?r (Suc k) \<le> 2 * 2 powi ?r k" for k by (simp add: power_int_add mult.commute)
  have "D_val (n + 3) = D_val n + 2 powi ?r n + 2 powi ?r (Suc n) + 2 powi ?r (Suc (Suc n))"
    by (simp add: numeral_3_eq_3 rank_val_Suc)
  then show ?thesis using step [of n] step [of "Suc n"] by simp
qed

lemma D_steps_small:
  assumes n: "D_val n \<le> midpoint 23 (-149) a"
  shows "D_val (n + 3) < D_val n + 2 powi (rank_exp 23 (-149) a - 1)"
proof -
  let ?r = "rank_exp 52 (-1074) n" and ?s = "rank_exp 23 (-149) a"
  have s: "-149 \<le> ?s" by (rule rank_exp_ge)
  have "7 * (2 :: real) powi ?r < 8 * 2 powi ?r" by simp
  also have "\<dots> = 2 powi (?r + 3)" by (simp add: power_int_add)
  also have "\<dots> \<le> 2 powi (?s - 1)"
  proof (rule power_int_increasing)
    show "?r + 3 \<le> ?s - 1"
    proof (cases "n < 2 ^ 52")
      case True
      then show ?thesis using s by (simp add: rank_exp_def)
    next
      case False
      then have "2 ^ 52 * 2 powi ?r \<le> D_val n" by (simp add: rank_val_def rank_sig_def)
      also note n
      also have "midpoint 23 (-149) a \<le> 2 ^ 25 * 2 powi (?s - 1)"
        unfolding midpoint_odd using rank_sig_less [of 23 a] by (intro mult_right_mono) simp_all
      finally have le: "2 ^ 52 * 2 powi ?r \<le> (2 :: real) ^ 25 * 2 powi (?s - 1)" .
      have add: "(2 :: real) ^ k * 2 powi i = 2 powi (int k + i)" for k i by (simp add: power_int_add)
      have "(2 :: real) powi (int 52 + ?r) \<le> 2 powi (int 25 + (?s - 1))" using le unfolding add .
      then have "\<not> int 25 + (?s - 1) < int 52 + ?r"
        using power_int_strict_increasing [of "int 25 + (?s - 1)" "int 52 + ?r" "2 :: real"] by (auto simp del: int_ops)
      then show ?thesis by simp
    qed
  qed simp
  finally show ?thesis using D_gap [of n] by simp
qed

lemma few_steps:
  assumes n: "n' \<le> n + 3" and a: "S_nearest (D_val n) a" and b: "S_nearest (D_val n') b"
  shows "b \<le> Suc a"
proof (rule ccontr)
  assume "\<not> b \<le> Suc a"
  then have ab: "Suc a \<le> b - 1" "0 < b" "a < S_inf_rank" using nearest_le [OF b] by simp_all
  have lo: "D_val n \<le> midpoint 23 (-149) a" using a ab(3) by (auto simp: nearest_def)
  have "D_val n' \<le> D_val (n + 3)" using n by (rule D_val_le)
  also have "\<dots> < D_val n + 2 powi (rank_exp 23 (-149) a - 1)" by (rule D_steps_small [OF lo])
  also have "\<dots> \<le> midpoint 23 (-149) a + 2 powi (rank_exp 23 (-149) a - 1)" using lo by simp
  also have "\<dots> = S_val (Suc a)" by (simp add: midpoint_eq rank_val_Suc power_int_diff)
  also have "\<dots> < midpoint 23 (-149) (Suc a)" by (rule midpoint_between)
  also have "\<dots> \<le> midpoint 23 (-149) (b - 1)" by (rule midpoint_le [OF ab(1)])
  also have "\<dots> \<le> D_val n'" using b ab(2) by (auto simp: nearest_def)
  finally show False by simp
qed

lemma exact_float_nearest:
  assumes a: "a < S_inf_rank" "D_val g = S_val a" and x: "0 < g \<Longrightarrow> D_val (g - 1) < x" "x < D_val (g + 2)"
  shows "S_nearest x a"
proof -
  have "D_val g \<le> midpoint 23 (-149) a" using a(2) midpoint_between(1) [of 23 "-149" a] by simp
  note D_steps_small [OF this]
  moreover have "D_val (g + 2) \<le> D_val (g + 3)" by (rule D_val_le) simp
  ultimately have hi: "x < midpoint 23 (-149) a" using x(2) a(2) by (simp add: midpoint_eq)
  have lo: "midpoint 23 (-149) (a - 1) < x" if a0: "0 < a"
  proof (rule ccontr)
    assume "\<not> midpoint 23 (-149) (a - 1) < x"
    moreover have g0: "0 < g" using a(2) a0 rank_val_less [of 0 a 23 "-149"] by (cases g) auto
    ultimately have le: "D_val (g - 1) \<le> midpoint 23 (-149) (a - 1)" using x(1) by simp
    have "D_val g \<le> D_val (g - 1 + 3)" by (rule D_val_le) simp
    also have "\<dots> < D_val (g - 1) + 2 powi (rank_exp 23 (-149) (a - 1) - 1)" by (rule D_steps_small [OF le])
    also have "\<dots> \<le> midpoint 23 (-149) (a - 1) + 2 powi (rank_exp 23 (-149) (a - 1) - 1)" using le by simp
    also have "\<dots> = S_val (Suc (a - 1))" by (simp add: midpoint_eq rank_val_Suc power_int_diff)
    also have "\<dots> = D_val g" using a0 a(2) by simp
    finally show False by simp
  qed
  show ?thesis using a(1) hi lo by (auto simp: nearest_def)
qed

section \<open>Numbers between doubles\<close>

lemma nearest_between:
  assumes "nearest p emin inf_rank y n" "nearest p emin inf_rank z n" "y \<le> x" "x \<le> z"
  shows "nearest p emin inf_rank x n"
  using assms by (auto simp: nearest_def)

lemma nearest_choose:
  assumes y: "nearest p emin inf_rank y n" "y \<le> x" and z: "nearest p emin inf_rank z (Suc n)" "x \<le> z"
  shows "x < midpoint p emin n \<or> x = midpoint p emin n \<and> even n \<Longrightarrow> nearest p emin inf_rank x n"
    and "midpoint p emin n < x \<or> x = midpoint p emin n \<and> odd n \<Longrightarrow> nearest p emin inf_rank x (Suc n)"
  using assms by (auto simp: nearest_def)

lemma D_nearest_bounds:
  assumes "D_nearest x n"
  shows "0 < n \<Longrightarrow> D_val (n - 1) < x" "n < D_inf_rank \<Longrightarrow> x < D_val (Suc n)"
proof -
  show "D_val (n - 1) < x" if "0 < n"
    using assms that midpoint_between(1) [of 52 "-1074" "n - 1"] by (auto simp: nearest_def)
  show "x < D_val (Suc n)" if "n < D_inf_rank"
    using assms that midpoint_between(2) [of 52 "-1074" n] by (auto simp: nearest_def)
qed

section \<open>The boundary above a float\<close>

lemma S_UpperBoundary_correct:
  assumes "unat f < S_inf_rank"
  shows "returns (S_UpperBoundary f) (\<lambda>b. diy_val b = midpoint 23 (-149) (unat f))"
proof -
  have less: "unat (S_Significand f) < 2 ^ 24" using single.sig_less [OF assms] by simp
  then have u: "unat (S_Significand f * 2 + 1) = 2 * unat (S_Significand f) + 1"
    by (subst unat_add_small; subst unat_mult_small) simp_all
  have "unat (ucast (S_Significand f * 2 + 1) :: uint64) = 2 * unat (S_Significand f) + 1"
    using less u by (simp add: unsigned_ucast_eq take_bit_nat_eq_self)
  then show ?thesis
    unfolding S_UpperBoundary_def midpoint_odd
    by (simp add: wp S_rank(1) [OF assms] diy_val_def mk_diy_def S_sig_rank [OF assms] S_expo_rank [OF assms])
qed

lemma D_AsDiyFp_correct: "unat d < D_inf_rank \<Longrightarrow> returns (D_AsDiyFp d) (\<lambda>b. diy_val b = D_val (unat d))"
  using double.val_rank [of d] by (simp add: D_AsDiyFp_def wp D_rank(1,2) diy_val_def mk_diy_def)

text \<open>Half of the smallest float is a double, so that the division that gives it is exact.\<close>

lemma half_float_exact:
  "unat (double_divide (single_to_double 1) (round_double 2 1)) < D_inf_rank"
  "D_val (unat (double_divide (single_to_double 1) (round_double 2 1))) = 2 powi (-150)"
proof -
  let ?a = "single_to_double 1" and ?b = "round_double 2 1"
  have "unat (1 :: single) < S_inf_rank" by simp
  note a = single_to_double_exact [OF this]
  have va: "D_val (unat ?a) = 2 powi (-149)" unfolding a(2) by (simp add: rank_val_def rank_sig_def rank_exp_def)
  obtain r where r: "r < D_inf_rank" "D_val r = real 2 * 2 powi 0" by (rule D_exact_exists [of 2 0]) simp_all
  have b: "unat ?b = r" using r by (intro round_double_exact) simp_all
  have r0: "0 < r" using r(2) by (cases r) simp_all
  have near: "D_nearest (D_val (unat ?a) / D_val (unat ?b)) (unat (double_divide ?a ?b))"
    using a(1) b r(1) r0 by (intro double_divide_nearest) simp_all
  have v: "D_val (unat ?a) / D_val (unat ?b) = 2 powi (-150)" unfolding va b r(2) by (simp add: power_int_minus)
  obtain q where q: "q < D_inf_rank" "D_val q = real 1 * 2 powi (-150)" by (rule D_exact_exists [of 1 "-150"]) simp_all
  have vq: "D_val q = 2 powi (-150)" using q(2) by simp
  have "unat (double_divide ?a ?b) = q"
    by (rule nearest_unique [OF near]) (simp only: v vq [symmetric] nearest_rank_val [OF q(1)])
  with q(1) vq show "unat (double_divide ?a ?b) < D_inf_rank" "D_val (unat (double_divide ?a ?b)) = 2 powi (-150)" by simp_all
qed

lemma single_upper_boundary_correct:
  assumes f: "unat f < S_inf_rank"
  shows "returns (single_upper_boundary f) (\<lambda>b. diy_val b = midpoint 23 (-149) (unat f))"
proof (cases "single_eq f 0")
  case True
  have "unat f \<le> S_inf_rank" "unat (0 :: single) \<le> S_inf_rank" using f by simp_all
  with True have "unat f = 0" using single_compare_rank(1) by fastforce
  then have m: "midpoint 23 (-149) (unat f) = 2 powi (-150)" by (simp add: midpoint_odd rank_sig_def rank_exp_def)
  show ?thesis
    unfolding single_upper_boundary_def if_P [OF True] m using D_AsDiyFp_correct [OF half_float_exact(1)] unfolding half_float_exact(2) .
next
  case False
  then show ?thesis using S_UpperBoundary_correct [OF f] by (simp add: single_upper_boundary_def)
qed

lemma S_Significand_even: "unat f < S_inf_rank \<Longrightarrow> S_Significand f AND 1 = 0 \<longleftrightarrow> even (unat f)"
proof -
  assume f: "unat f < S_inf_rank"
  have "unat (S_Significand f AND mask 1) = rank_sig 23 (unat f) mod 2 ^ 1" unfolding unat_and_mask S_sig_rank [OF f] ..
  then have "S_Significand f AND 1 = 0 \<longleftrightarrow> even (rank_sig 23 (unat f))"
    by (simp add: unat_eq_0_iff [symmetric] even_iff_mod_2_eq_zero mask_eq_exp_minus_1)
  also have "even (rank_sig 23 (unat f)) \<longleftrightarrow> even (unat f)"
    by (auto simp: rank_sig_def dvd_mod_iff simp del: power_numeral)
  finally show ?thesis .
qed

lemma D_PreviousDouble_rank:
  assumes g: "0 < unat g" "unat g < D_inf_rank"
  shows "unat (D_PreviousDouble g) = unat g - 1"
proof -
  have "unat (D_kInfinity OR D_kSignMask) \<noteq> unat g" using g(2) by (simp add: D_kInfinity_def D_kSignMask_def)
  then have "g \<noteq> D_kInfinity OR D_kSignMask" by blast
  moreover have "D_Significand g \<noteq> 0"
  proof
    assume "D_Significand g = 0"
    then have "rank_val 52 (-1074) (unat g) = 0" using double.val_rank [OF g(2)] by simp
    then show False using rank_val_less [OF g(1), of 52 "-1074"] by simp
  qed
  ultimately have "D_PreviousDouble g = g - 1" using D_rank(1) [OF g(2)] by (simp add: D_PreviousDouble_def)
  moreover have "1 \<le> g" using g(1) by (simp add: word_le_nat_alt)
  ultimately show ?thesis by (simp add: unat_sub)
qed

lemma D_NextDouble_rank_min:
  assumes "unat g \<le> D_inf_rank"
  shows "unat (D_NextDouble g) = min D_inf_rank (Suc (unat g))"
proof (cases "unat g = D_inf_rank")
  case True
  then have "g = D_kInfinity" by (simp add: word_unat_eq_iff D_kInfinity_def)
  then show ?thesis by (simp add: D_NextDouble_def D_kInfinity_def)
next
  case False
  with assms have "unat g < D_inf_rank" by simp
  then show ?thesis using D_NextDouble_rank [of g] by (simp add: min_def)
qed

section \<open>The decision\<close>

lemma guess_bounds:
  assumes g: "guess_ok x c g" "0 < unat g"
  shows "D_val (unat g - 1) < x"
    and "Suc (unat g) < D_inf_rank \<Longrightarrow> x < D_val (unat g + 2)"
    and "Suc (unat g) < D_inf_rank \<Longrightarrow> c \<Longrightarrow> x < D_val (unat g + 1)"
proof -
  have le: "D_val (unat g - 1) \<le> D_val (unat g)" "D_val (unat g + 1) \<le> D_val (unat g + 2)" by (rule D_val_le, simp)+
  consider (here) "D_nearest x (unat g)" | (above) "\<not> c" "D_nearest x (Suc (unat g))" using g(1) by (auto simp: guess_ok_def)
  note split = this
  from split show "D_val (unat g - 1) < x"
  proof cases
    case here
    then show ?thesis by (rule D_nearest_bounds(1)) (rule g(2))
  next
    case above
    then show ?thesis using le(1) D_nearest_bounds(1) [OF above(2)] by simp
  qed
  assume s: "Suc (unat g) < D_inf_rank"
  then have s': "unat g < D_inf_rank" by (rule Suc_lessD)
  from split show "x < D_val (unat g + 2)"
  proof cases
    case here
    then show ?thesis using D_nearest_bounds(2) [OF here s'] le(2) by simp
  next
    case above
    then show ?thesis using D_nearest_bounds(2) [OF above(2) s] by simp
  qed
  show "x < D_val (unat g + 1)" if c using g(1) that D_nearest_bounds(2) [OF _ s'] by (simp add: guess_ok_def)
qed

lemma single_below_infinity:
  assumes "S_nearest (D_val n) a" "a < S_inf_rank"
  shows "n < 1151 * 2 ^ 52"
proof (rule ccontr)
  assume "\<not> n < 1151 * 2 ^ 52"
  then have "1151 * 2 ^ 52 \<le> n" by (rule leI)
  from nearest_unique [OF assms(1) S_nearest_infinity [OF D_val_large [OF this]]] assms(2) show False by simp
qed

text \<open>The float that the guess equals is the nearest one.\<close>

lemma float_guess_exact:
  assumes g: "guess_ok x c g" "0 \<le> x" and eq: "double_eq (single_to_double (double_to_single g)) g"
  shows "S_nearest x (unat (double_to_single g))"
proof -
  let ?f = "double_to_single g"
  have gi: "unat g \<le> D_inf_rank" using g(1) by (auto simp: guess_ok_def nearest_def)
  note f = double_to_single_nearest [OF gi]
  show ?thesis
  proof (cases "unat ?f = S_inf_rank")
    case True
    have i: "unat (single_to_double ?f) = D_inf_rank" by (rule single_to_double_infinity [OF True])
    then have "unat g = D_inf_rank" using eq double_eq_rank [OF _ gi, of "single_to_double ?f"] by simp
    then have "D_nearest x D_inf_rank" using g(1) by (simp add: guess_ok_def)
    then have "D_val (D_inf_rank - 1) < x" by (rule D_nearest_bounds(1)) simp
    moreover have "2 powi 128 \<le> D_val (D_inf_rank - 1)" by (rule D_val_large) simp
    ultimately have "2 powi 128 \<le> x" by (rule order_less_imp_le [OF order_le_less_trans, rotated])
    then show ?thesis unfolding True by (rule S_nearest_infinity)
  next
    case False
    then have fi: "unat ?f < S_inf_rank" using nearest_le [OF f] by simp
    note e = single_to_double_exact [OF fi]
    have "unat (single_to_double ?f) = unat g" using eq double_eq_rank [OF less_imp_le [OF e(1)] gi] by simp
    then have v: "D_val (unat g) = S_val (unat ?f)" using e(2) by simp
    have "unat g < 1151 * 2 ^ 52" by (rule single_below_infinity [OF f fi])
    then have s: "Suc (unat g) < D_inf_rank" by simp
    show ?thesis
    proof (cases "unat g = 0")
      case True
      have "D_nearest x 0 \<or> D_nearest x (Suc 0)" using g(1) True by (auto simp: guess_ok_def)
      then have "x < D_val (Suc (Suc 0))"
        using D_nearest_bounds(2) [of x 0] D_nearest_bounds(2) [of x "Suc 0"] D_val_le [of "Suc 0" "Suc (Suc 0)"] by auto
      then have "x < D_val (0 + 2)" by (simp only: add_2_eq_Suc' add_0)
      then show ?thesis using True v fi by (intro exact_float_nearest [where g = 0]) simp_all
    next
      case False
      then show ?thesis using guess_bounds [OF g(1)] s v fi by (intro exact_float_nearest [where g = "unat g"]) simp_all
    qed
  qed
qed

text \<open>
  Otherwise the double below the guess and the last of the doubles above it that are looked at round to the same float, or to two
  neighbours that the number lies between.
\<close>

lemma float_candidates:
  assumes g: "guess_ok x c g" "0 < unat g" "unat g < D_inf_rank"
  defines "f1 \<equiv> double_to_single (D_PreviousDouble g)" and "f2 \<equiv> double_to_single g"
    and "f3 \<equiv> double_to_single (D_NextDouble g)"
    and "f4 \<equiv> (if c then double_to_single (D_NextDouble g) else double_to_single (D_NextDouble (D_NextDouble g)))"
  shows "unat f1 \<le> unat f2" "unat f2 \<le> unat f3" "unat f3 \<le> unat f4" "unat f4 \<le> S_inf_rank"
    and "unat f1 = unat f4 \<Longrightarrow> S_nearest x (unat f2)"
    and "unat f1 \<noteq> unat f4 \<Longrightarrow> unat f1 < S_inf_rank \<and> unat f4 = Suc (unat f1) \<and>
      (x < midpoint 23 (-149) (unat f1) \<or> x = midpoint 23 (-149) (unat f1) \<and> even (unat f1) \<longrightarrow> S_nearest x (unat f1)) \<and>
      (midpoint 23 (-149) (unat f1) < x \<or> x = midpoint 23 (-149) (unat f1) \<and> odd (unat f1) \<longrightarrow> S_nearest x (unat f4))"
proof -
  define d4 where "d4 = (if c then D_NextDouble g else D_NextDouble (D_NextDouble g))"
  have f4: "f4 = double_to_single d4" by (simp add: f4_def d4_def)
  have r1: "unat (D_PreviousDouble g) = unat g - 1" by (rule D_PreviousDouble_rank [OF g(2,3)])
  have r3: "unat (D_NextDouble g) = Suc (unat g)" by (rule D_NextDouble_rank [OF g(3)])
  have le3: "unat (D_NextDouble g) \<le> D_inf_rank" unfolding r3 using g(3) by (rule Suc_leI)
  have r4: "unat d4 = (if c then Suc (unat g) else min D_inf_rank (unat g + 2))"
    using D_NextDouble_rank_min [OF le3] r3 by (simp add: d4_def)
  have le1: "unat (D_PreviousDouble g) \<le> D_inf_rank" and le4: "unat d4 \<le> D_inf_rank" using r1 r4 r3 le3 g(3) by simp_all
  note n1 = double_to_single_nearest [OF le1, folded f1_def]
  note n2 = double_to_single_nearest [OF less_imp_le [OF g(3)], folded f2_def]
  note n3 = double_to_single_nearest [OF le3, folded f3_def]
  note n4 = double_to_single_nearest [OF le4, folded f4]
  have up: "unat (D_NextDouble g) \<le> unat d4" using r3 r4 le3 by (auto simp: min_def)
  show m12: "unat f1 \<le> unat f2" by (rule nearest_mono [OF n1 n2]) (rule D_val_le, simp add: r1)
  show m23: "unat f2 \<le> unat f3" by (rule nearest_mono [OF n2 n3]) (rule D_val_le, simp add: r3)
  show m34: "unat f3 \<le> unat f4" by (rule nearest_mono [OF n3 n4]) (rule D_val_le [OF up])
  show i4: "unat f4 \<le> S_inf_rank" by (rule nearest_le [OF n4])
  have lo: "D_val (unat (D_PreviousDouble g)) \<le> x" unfolding r1 using guess_bounds(1) [OF g(1,2)] by (rule less_imp_le)
  have hi: "x \<le> D_val (unat d4)" if fin: "unat f1 < S_inf_rank"
  proof -
    have "unat g - 1 < 1151 * 2 ^ 52" using single_below_infinity [OF n1 fin] unfolding r1 .
    then have s: "Suc (unat g) < D_inf_rank" by simp
    then have "unat d4 = (if c then unat g + 1 else unat g + 2)" using r4 by simp
    then show ?thesis using guess_bounds(2,3) [OF g(1,2) s] by (simp add: less_imp_le)
  qed
  have step: "unat f4 \<le> Suc (unat f1)" by (rule few_steps [OF _ n1 n4]) (use r1 r4 g(2) in \<open>auto simp: min_def\<close>)
  show "S_nearest x (unat f2)" if eq: "unat f1 = unat f4"
  proof -
    have e2: "unat f2 = unat f1" using eq m12 m23 m34 by simp
    show ?thesis
    proof (cases "unat f1 < S_inf_rank")
      case True
      have "S_nearest (D_val (unat d4)) (unat f1)" using n4 unfolding eq .
      then show ?thesis unfolding e2 by (rule nearest_between [OF n1 _ lo hi [OF True]])
    next
      case False
      then have i: "unat f1 = S_inf_rank" using i4 eq by simp
      show ?thesis unfolding e2 i by (rule nearest_up [OF _ n1 [unfolded i] lo]) simp
    qed
  qed
  assume ne: "unat f1 \<noteq> unat f4"
  then have "unat f1 < unat f4" using m12 m23 m34 by simp
  then have fin: "unat f1 < S_inf_rank" and s4: "unat f4 = Suc (unat f1)" using i4 step by simp_all
  have "S_nearest (D_val (unat d4)) (Suc (unat f1))" using n4 unfolding s4 .
  note choose = nearest_choose [OF n1 lo this hi [OF fin]]
  show "unat f1 < S_inf_rank \<and> unat f4 = Suc (unat f1) \<and>
      (x < midpoint 23 (-149) (unat f1) \<or> x = midpoint 23 (-149) (unat f1) \<and> even (unat f1) \<longrightarrow> S_nearest x (unat f1)) \<and>
      (midpoint 23 (-149) (unat f1) < x \<or> x = midpoint 23 (-149) (unat f1) \<and> odd (unat f1) \<longrightarrow> S_nearest x (unat f4))"
    using fin s4 choose unfolding s4 by blast
qed

lemma guess_zero_exact: "unat g = 0 \<Longrightarrow> double_eq (single_to_double (double_to_single g)) g"
proof -
  assume g: "unat g = 0"
  then have gi: "unat g \<le> D_inf_rank" by simp
  have "S_nearest (D_val (unat g)) 0" using nearest_rank_val [of 0 S_inf_rank 23 "-149"] g by simp
  then have f: "unat (double_to_single g) = 0" by (rule nearest_unique [OF double_to_single_nearest [OF gi]])
  then have "unat (double_to_single g) < S_inf_rank" by simp
  note e = single_to_double_exact [OF this]
  have "unat (single_to_double (double_to_single g)) = 0"
    using e(2) f rank_val_less [of 0 "unat (single_to_double (double_to_single g))" 52 "-1074"] by (auto intro: gr0I)
  then show ?thesis using g double_eq_rank [OF less_imp_le [OF e(1)] gi] by simp
qed

lemma guess_infinity_exact: "unat g = D_inf_rank \<Longrightarrow> double_eq (single_to_double (double_to_single g)) g"
proof -
  assume g: "unat g = D_inf_rank"
  then have gi: "unat g \<le> D_inf_rank" by simp
  have "2 powi 128 \<le> D_val (unat g)" unfolding g by (rule D_val_large) simp
  then have "S_nearest (D_val (unat g)) S_inf_rank" by (rule S_nearest_infinity)
  then have "unat (double_to_single g) = S_inf_rank" by (rule nearest_unique [OF double_to_single_nearest [OF gi]])
  then have i: "unat (single_to_double (double_to_single g)) = D_inf_rank" by (rule single_to_double_infinity)
  then have "unat (single_to_double (double_to_single g)) \<le> D_inf_rank" by simp
  from double_eq_rank [OF this gi] show ?thesis unfolding i g by simp
qed

lemma Strtof_correct:
  assumes s: "list_all is_decimal s" and int: "decimal_ok s e"
  shows "returns (Strtof s e) (\<lambda>f. S_nearest (value_of s e) (unat f))"
  unfolding Strtof_def
proof (rule returns_bindI [OF TrimAndCut_correct [OF s int, folded value_of_def]], clarify,
    rule returns_bindI [OF ComputeGuess_correct], assumption, blast, assumption, clarify, goal_cases)
  case (1 t e' c g)
  let ?x = "value_of t e'"
  define f1 f2 f3 f4 where "f1 = double_to_single (D_PreviousDouble g)" and "f2 = double_to_single g"
    and "f3 = double_to_single (D_NextDouble g)"
    and "f4 = (if c then double_to_single (D_NextDouble g) else double_to_single (D_NextDouble (D_NextDouble g)))"
  have fin: "S_nearest ?x n \<Longrightarrow> S_nearest (value_of s e) n" for n using 1 coarse_single by blast
  have ok: "guess_ok ?x c g" and t: "list_all is_decimal t" "t \<noteq> [] \<Longrightarrow> hd t \<noteq> CHR ''0''" "length t \<le> 780" using 1 by auto
  show ?case
  proof (cases "double_eq (single_to_double (double_to_single g)) g")
    case True
    have "0 \<le> ?x" by (simp add: value_of_def)
    from float_guess_exact [OF ok this True] True fin show ?thesis by (simp add: Let_def)
  next
    case False
    have gi: "unat g \<le> D_inf_rank" using ok by (auto simp: guess_ok_def nearest_def)
    have g0: "0 < unat g" using guess_zero_exact [of g] False by (auto intro: gr0I)
    have g1: "unat g < D_inf_rank" using guess_infinity_exact [of g] False gi by (auto simp: order_le_less)
    note cand = float_candidates [OF ok g0 g1, folded f1_def f2_def f3_def f4_def]
    have len: "int (length t) + e' \<le> 310" "-324 < int (length t) + e'"
      using guess_limits [OF t(1,2) _ g0 g1] 1 by (cases c; force simp: guess_ok_def)+
    have i: "unat f1 \<le> S_inf_rank" "unat f2 \<le> S_inf_rank" "unat f3 \<le> S_inf_rank" "unat f4 \<le> S_inf_rank"
      using cand(1-4) by simp_all
    note cmp = single_compare_rank [OF i(1,2)] single_compare_rank [OF i(2,3)] single_compare_rank [OF i(3,4)]
      single_compare_rank [OF i(1,4)]
    show ?thesis
    proof (cases "unat f1 = unat f4")
      case True
      then show ?thesis
        using False cand(1-3,5) fin cmp by (simp add: Let_def wp f1_def [symmetric] f2_def [symmetric] f3_def [symmetric] f4_def [symmetric])
    next
      case ne: False
      have f14: "unat f1 < S_inf_rank" "unat f4 = Suc (unat f1)" using cand(6) [OF ne] by blast+
      let ?m = "midpoint 23 (-149) (unat f1)"
      have low: "S_nearest ?x (unat f1)" if "?x < ?m \<or> ?x = ?m \<and> even (unat f1)" using cand(6) [OF ne] that by blast
      have high: "S_nearest ?x (unat f4)" if "?m < ?x \<or> ?x = ?m \<and> odd (unat f1)" using cand(6) [OF ne] that by blast
      have decide: "returns (do {
          upper_boundary \<leftarrow> single_upper_boundary f1;
          comparison \<leftarrow> CompareBufferWithDiyFp t e' upper_boundary;
          if comparison < 0 then Some f1
          else if comparison > 0 then Some f4
          else if S_Significand f1 AND 1 = 0 then Some f1
          else Some f4
        }) (\<lambda>f. S_nearest (value_of s e) (unat f))"
      proof (rule returns_bindI [OF single_upper_boundary_correct [OF f14(1)]], goal_cases)
        case (1 b)
        have "returns (CompareBufferWithDiyFp t e' b) (\<lambda>c. real_of_int c = sgn (?x - ?m))"
          using CompareBufferWithDiyFp_correct [OF t(1), of e' b] len t(3) 1 by (simp add: value_of_def)
        then show ?case
        proof (rule returns_bindI, goal_cases)
          case (1 c)
          then have c: "c < 0 \<longleftrightarrow> ?x < ?m" "c > 0 \<longleftrightarrow> ?m < ?x" by (auto simp: sgn_if split: if_splits)
          then show ?case using fin low high S_Significand_even [OF f14(1)] by (auto simp: not_less)
        qed
      qed
      have "unat f1 \<noteq> unat f2 \<and> unat f2 = unat f3 \<and> unat f3 = unat f4 \<or> unat f1 = unat f2 \<and> unat f2 \<noteq> unat f3 \<and> unat f3 = unat f4 \<or>
        unat f1 = unat f2 \<and> unat f2 = unat f3 \<and> unat f3 \<noteq> unat f4" using cand(1-3) f14(2) by linarith
      then show ?thesis
        using False ne cand(1-3) decide
        by (simp add: Let_def wp cmp f1_def [symmetric] f2_def [symmetric] f3_def [symmetric] f4_def [symmetric])
    qed
  qed
qed

section \<open>Properties\<close>

text \<open>
  C9: \<open>Strtof\<close> returns, for every string of decimal digits and every exponent \<open>e\<close> such that \<open>e\<close> and \<open>e\<close> plus the number of
  digits are 32-bit integers, the float nearest to the decimal number, ties to even, with infinity for the numbers above the largest float. The detour over the double guess does not round
  twice: when the neighbours of the guess do not all round to the same float, they round to two neighbouring floats, the
  assertions on the four candidates hold, and the exact comparison with the boundary between the two floats decides.
\<close>

theorem strtof_is_nearest:
  assumes "list_all is_decimal s" "decimal_ok s e"
  shows "\<exists>f. Strtof s e = Some f \<and> S_nearest (real (text_digits s) * 10 powi e) (unat f)"
  using returns_ex [OF Strtof_correct [OF assms]] by (simp add: value_of_def)

theorem strtof_is_nearest_witness:
  "\<exists>f. Strtof ''1000000059604644776'' (-18) = Some f \<and>
    S_nearest (real (text_digits ''1000000059604644776'') * 10 powi (-18)) (unat f)"
  by (rule strtof_is_nearest) (simp_all add: is_decimal_def decimal_ok_def in_int32_def)

end
