(* ===== verification/Parse_Properties.thy ===== *)
theory Parse_Properties
  imports Parse_Phases Strtof_Properties
begin

text \<open>
  The parser as a whole: a decimal literal is read as the double nearest to the number that it denotes, or as the nearest float,
  however many digits it has and however large its exponent is. The parser relies on the conversion of digits by an interface that
  both \<open>Strtod\<close> and \<open>Strtof\<close> provide.
\<close>

section \<open>Literals\<close>

record literal =
  lit_sign :: string
  lit_int :: string
  lit_frac :: "string option"
  lit_exp :: "(char \<times> string \<times> string) option"

definition frac_digits :: "literal \<Rightarrow> string" where
  "frac_digits l = (case lit_frac l of None \<Rightarrow> [] | Some f \<Rightarrow> f)"

definition frac_text :: "literal \<Rightarrow> string" where
  "frac_text l = (case lit_frac l of None \<Rightarrow> [] | Some f \<Rightarrow> CHR ''.'' # f)"

definition exp_text :: "literal \<Rightarrow> string" where
  "exp_text l = (case lit_exp l of None \<Rightarrow> [] | Some (c, t, ds) \<Rightarrow> c # t @ ds)"

definition literal_text :: "literal \<Rightarrow> string" where
  "literal_text l = lit_sign l @ lit_int l @ frac_text l @ exp_text l"

definition literal_ok :: "literal \<Rightarrow> bool" where
  "literal_ok l \<longleftrightarrow> is_sign (lit_sign l) \<and> list_all is_decimal (lit_int l) \<and> list_all is_decimal (frac_digits l) \<and>
     lit_int l @ frac_digits l \<noteq> [] \<and>
     (case lit_exp l of None \<Rightarrow> True
      | Some (c, t, ds) \<Rightarrow> (c = CHR ''e'' \<or> c = CHR ''E'') \<and> is_sign t \<and> ds \<noteq> [] \<and> list_all is_decimal ds)"

definition exp_value :: "literal \<Rightarrow> int" where
  "exp_value l = (case lit_exp l of None \<Rightarrow> 0
     | Some (c, t, ds) \<Rightarrow> if t = ''-'' then - int (text_digits ds) else int (text_digits ds))"

definition literal_val :: "literal \<Rightarrow> real" where
  "literal_val l = value_of (lit_int l @ frac_digits l) (exp_value l - int (length (frac_digits l)))"

section \<open>The digits that are kept\<close>

lemma some_nonzero_iff: "list_all is_decimal w \<Longrightarrow> some_nonzero w \<longleftrightarrow> 0 < text_digits w"
proof (induction w rule: rev_induct)
  case (snoc c w)
  then have c: "is_decimal c" by simp
  then have "char_digit c = 0 \<longleftrightarrow> c = CHR ''0''" using digit_char_char_digit [of c] by (auto simp: digit_char_0)
  then show ?case using snoc by (auto simp: text_digits_append)
qed simp

section \<open>Saturated exponents\<close>

lemma tiny_nearest_zero:
  assumes "x \<le> 10 powi (-400)"
  shows "D_nearest x 0"
proof (rule nearest_zero)
  have "(2 :: real) ^ 1075 \<le> 2 ^ (3 * 400)" by (rule power_increasing) simp_all
  also have "\<dots> = (2 ^ 3) ^ 400" by (rule power_mult)
  also have "\<dots> \<le> 10 ^ 400" by (rule power_mono) simp_all
  finally have "inverse ((10 :: real) ^ 400) \<le> inverse (2 ^ 1075)" by (rule le_imp_inverse_le) simp
  then show "x \<le> 2 powi (-1075)" using assms unfolding power_int_minus power_int_numeral by (rule order_trans [rotated])
qed

lemma value_of_tiny: "list_all is_decimal w \<Longrightarrow> int (length w) + k \<le> -400 \<Longrightarrow> value_of w k \<le> 10 powi (-400)"
proof -
  assume w: "list_all is_decimal w" "int (length w) + k \<le> -400"
  have "real (text_digits w) \<le> real (10 ^ length w)" using text_digits_less [OF w(1)] by (simp only: of_nat_le_iff)
  then have "value_of w k \<le> 10 powi int (length w) * 10 powi k" by (simp add: value_of_def)
  also have "\<dots> = 10 powi (int (length w) + k)" by (simp add: power_int_add)
  also have "\<dots> \<le> 10 powi (-400)" using w(2) by (intro power_int_increasing) simp_all
  finally show ?thesis .
qed

lemma value_of_large: "1 \<le> real (text_digits w) \<Longrightarrow> 309 \<le> k \<Longrightarrow> 10 powi 309 \<le> value_of w k"
proof -
  assume w: "1 \<le> real (text_digits w)" "309 \<le> k"
  have "(10 :: real) powi 309 \<le> 10 powi k" using w(2) by (intro power_int_increasing) simp_all
  also have "\<dots> \<le> value_of w k" using w(1) by (simp add: value_of_def)
  finally show ?thesis .
qed

section \<open>What a phase leaves to read\<close>

text \<open>The state after the digits \<open>u\<close> before and \<open>g\<close> behind the point, with \<open>y\<close> zeros between the point and \<open>g\<close>.\<close>

definition digits_read :: "bool \<Rightarrow> bool \<Rightarrow> string \<Rightarrow> string \<Rightarrow> nat \<Rightarrow> nat \<Rightarrow> parse_state \<Rightarrow> bool" where
  "digits_read neg lz u g y i s \<longleftrightarrow> ps_sign s = neg \<and> ps_leading_zero s = lz \<and> \<not> ps_octal s \<and> ps_current s = i \<and>
     ps_buffer s = take kMaxSignificantDigits (u @ g) \<and> ps_significant_digits s = length (take kMaxSignificantDigits (u @ g)) \<and>
     ps_nonzero_digit_dropped s = some_nonzero (drop kMaxSignificantDigits (u @ g)) \<and>
     ps_insignificant_digits s = length u - kMaxSignificantDigits \<and>
     ps_exponent s = - int y - (int (length (take kMaxSignificantDigits (u @ g))) - int (length (take kMaxSignificantDigits u)))"

definition reads_as ::
  "bool \<Rightarrow> (real \<Rightarrow> double \<Rightarrow> bool) \<Rightarrow> string_to_double_converter \<Rightarrow> real \<Rightarrow> bool \<Rightarrow> nat \<Rightarrow> flow result \<Rightarrow> bool" where
  "reads_as read_as_double near conv v neg n r \<longleftrightarrow> (\<exists>d f. near v d \<and> r = Some f \<and> (case f of
       Return value count \<Rightarrow> value = with_sign neg d \<and> count = n
     | Parsing_done s \<Rightarrow> parsing_done read_as_double conv s = Some (with_sign neg d, n)
     | Go_on s \<Rightarrow> parsing_done read_as_double conv s = Some (with_sign neg d, n)))"

lemma digits_read_exponent:
  assumes "digits_read neg lz u g y i s"
  shows "ps_exponent s + int (ps_insignificant_digits s) =
    (- int y - int (length g)) + (int (length (u @ g)) - int (length (take kMaxSignificantDigits (u @ g))))"
    "\<bar>ps_exponent s\<bar> \<le> int (y + length g)"
proof -
  have "int (length u - kMaxSignificantDigits) = int (length u) - int (length (take kMaxSignificantDigits u))" by simp
  then show "ps_exponent s + int (ps_insignificant_digits s) =
    (- int y - int (length g)) + (int (length (u @ g)) - int (length (take kMaxSignificantDigits (u @ g))))"
    using assms by (simp add: digits_read_def)
  show "\<bar>ps_exponent s\<bar> \<le> int (y + length g)" using assms by (auto simp: digits_read_def min_def)
qed

definition after_digits :: phase where
  "after_digits conv input s = and_then (check_digits conv input s) (\<lambda>s.
     and_then (parse_exponent conv input s) (\<lambda>s. check_trailing conv input s))"

section \<open>Splitting the digits\<close>

lemma leading_zeros: "\<exists>z r. w = replicate z CHR ''0'' @ r \<and> (r = [] \<or> hd r \<noteq> CHR ''0'')"
proof (induction w)
  case (Cons c w)
  then obtain z r where "w = replicate z CHR ''0'' @ r" "r = [] \<or> hd r \<noteq> CHR ''0''" by blast
  then show ?case
    by (cases "c = CHR ''0''") (auto intro: exI [of _ "Suc z"] exI [of _ r] exI [of _ 0] exI [of _ "c # w"])
qed simp

lemma exp_text_start: "literal_ok l \<Longrightarrow> exp_text l = [] \<or> hd (exp_text l) = CHR ''e'' \<or> hd (exp_text l) = CHR ''E''"
  by (auto simp: literal_ok_def exp_text_def split: option.splits)

lemma exponent_char: "\<not> is_decimal CHR ''e''" "\<not> is_decimal CHR ''E''" "\<not> is_decimal CHR ''.''" "\<not> is_decimal CHR ''x''" "\<not> is_decimal CHR ''X''"
  by (simp_all add: is_decimal_def)

lemma parse_number_after:
  "parse_number read_as_double conv input =
     and_then (skip_leading_spaces conv input initial_state) (\<lambda>s.
     and_then (parse_sign conv input s) (\<lambda>s.
     and_then (parse_symbol (std_infinity_symbol conv) D_kInfinity conv input s) (\<lambda>s.
     and_then (parse_symbol (std_nan_symbol conv) D_kNaN conv input s) (\<lambda>s.
     and_then (parse_leading_zero read_as_double conv input s) (\<lambda>s.
     and_then (parse_integer conv input s) (\<lambda>s.
     and_then (parse_fraction conv input s) (after_digits conv input)))))))"
  unfolding parse_number_def after_digits_def ..

section \<open>The interface of the conversion of digits\<close>

text \<open>
  What the parser needs: the conversion of digits returns a number that is near to the decimal one; numbers with the same digits in
  front, or both far out of the range, have the same near numbers; zero is near to zero.
\<close>

locale digit_conversion =
  fixes read_as_double :: bool and near :: "real \<Rightarrow> double \<Rightarrow> bool"
  assumes converts: "list_all is_decimal w \<Longrightarrow> decimal_ok w e \<Longrightarrow>
      returns (if read_as_double then Strtod w e else do { f \<leftarrow> Strtof w e; Some (single_to_double f) }) (near (value_of w e))"
    and near_zero: "near 0 0"
    and near_cut: "772 \<le> c \<Longrightarrow> c < length w \<Longrightarrow> hd w \<noteq> CHR ''0'' \<Longrightarrow> list_all is_decimal w \<Longrightarrow> 0 < text_digits (drop c w) \<Longrightarrow>
      near (value_of (take c w @ ''1'') (e + (int (length w) - int c) - 1)) d \<Longrightarrow> near (value_of w e) d"
    and near_tiny: "x \<le> 10 powi (-400) \<Longrightarrow> y \<le> 10 powi (-400) \<Longrightarrow> near x d \<Longrightarrow> near y d"
    and near_large: "10 powi 309 \<le> x \<Longrightarrow> 10 powi 309 \<le> y \<Longrightarrow> near x d \<Longrightarrow> near y d"
begin

lemma parsing_done_correct:
  assumes w: "list_all is_decimal w" "w = [] \<or> hd w \<noteq> CHR ''0''" and lim: "\<bar>q\<bar> + int (length w) \<le> 2100000000"
    and s: "ps_buffer s = take kMaxSignificantDigits w" "ps_nonzero_digit_dropped s = some_nonzero (drop kMaxSignificantDigits w)"
      "\<not> ps_octal s" "ps_exponent s + int (ps_insignificant_digits s) = q + (int (length w) - int (length (take kMaxSignificantDigits w)))"
  shows "\<exists>d. parsing_done read_as_double conv s = Some (with_sign (ps_sign s) d, ps_current s) \<and> near (value_of w q) d"
proof -
  define c where "c = kMaxSignificantDigits"
  have c772: "c = 772" by (simp add: c_def kMaxSignificantDigits_def)
  note s = s [folded c_def]
  have d: "list_all is_decimal (take c w)" "list_all is_decimal (drop c w)"
    using w(1) by (auto simp: list_all_iff dest: in_set_takeD in_set_dropD)
  define m where "m = length w - length (take c w)"
  have m: "int m = int (length w) - int (length (take c w))" "length (drop c w) = m" by (simp_all add: m_def)
  have tw: "text_digits w = text_digits (take c w) * 10 ^ m + text_digits (drop c w)"
    using text_digits_append [of "take c w" "drop c w"] m(2) by simp
  define buf e where "buf = (if ps_nonzero_digit_dropped s then take c w @ ''1'' else take c w)"
    and "e = (if ps_nonzero_digit_dropped s then q + int m - 1 else q + int m)"
  have "is_decimal CHR ''1''" by (simp add: is_decimal_def)
  then have dec: "list_all is_decimal buf" using d(1) by (simp add: buf_def)
  have parts: "0 \<le> int m" "int m + int (length (take c w)) = int (length w)" using m(1) by simp_all
  have "int (length buf) \<le> int (length (take c w)) + 1" "e \<le> q + int m" "q + int m - 1 \<le> e" "0 \<le> int (length buf)"
    by (simp_all add: buf_def e_def)
  moreover have "\<bar>q\<bar> + int m + int (length (take c w)) \<le> 2100000000" using lim parts(2) by linarith
  then have sum: "q + int m + int (length (take c w)) \<le> 2100000000" "- 2100000000 \<le> q" "q + int m \<le> 2100000000" by linarith+
  ultimately have "decimal_ok buf e" using parts(1) by (simp add: decimal_ok_def in_int32_def del: length_take)
  have sums: "as_int32 (q + int m) = Some (q + int m)" "as_int32 (q + int m - 1) = Some (q + int m - 1)"
    using sum parts(1) by (simp_all add: in_int32_def)
  from returns_ex [OF converts [OF dec \<open>decimal_ok buf e\<close>]] obtain r where
    r: "(if read_as_double then Strtod buf e else do { f \<leftarrow> Strtof buf e; Some (single_to_double f) }) = Some r" "near (value_of buf e) r" by blast
  have near: "near (value_of w q) r"
  proof (cases "ps_nonzero_digit_dropped s")
    case True
    then have pos: "0 < text_digits (drop c w)" using s(2) some_nonzero_iff [OF d(2)] by simp
    then have len: "c < length w" by (cases "c < length w") auto
    then have "int m = int (length w) - int c" using m(1) by simp
    with True r(2) pos len w show ?thesis
      by (intro near_cut [of c w]) (auto simp: c772 buf_def e_def)
  next
    case False
    then have "text_digits (drop c w) = 0" using s(2) some_nonzero_iff [OF d(2)] by simp
    then have "value_of w q = value_of (take c w) (q + int m)" by (simp add: value_of_def tw power_int_add)
    then show ?thesis using r(2) False by (simp add: buf_def e_def)
  qed
  have size: "length (take c w @ ''1'') < kBufferSize" "length (take c w) < kBufferSize" by (simp_all add: c772 kBufferSize_def kMaxSignificantDigits_def)
  have "parsing_done read_as_double conv s = Some (with_sign (ps_sign s) r, ps_current s)"
    using r(1) s size sums unfolding parsing_done_def s(4) m(1) [symmetric]
    by (auto simp: Let_def buf_def e_def check_def with_sign_def bind_eq_Some_conv split: if_splits)
  with near show ?thesis by blast
qed

lemma saturated_near:
  assumes w: "list_all is_decimal w" "length w \<le> 500000000" and q: "-500000000 \<le> q" "q \<le> 0"
    and near: "near (value_of w (q + (if neg then - exponent_num ds else exponent_num ds))) d"
  shows "near (value_of w (q + (if neg then - int (text_digits ds) else int (text_digits ds)))) d"
proof (cases "text_digits ds \<le> nat max_exponent \<or> text_digits w = 0")
  case True
  then show ?thesis using near by (auto simp: exponent_num_def value_of_def)
next
  case False
  then have x: "1000000000 \<le> exponent_num ds" "exponent_num ds \<le> int (text_digits ds)" and w0: "1 \<le> real (text_digits w)"
    by (simp_all add: exponent_num_def max_exponent_def)
  show ?thesis
  proof (cases neg)
    case True
    have "value_of w (q - exponent_num ds) \<le> 10 powi (-400)" "value_of w (q - int (text_digits ds)) \<le> 10 powi (-400)"
      using x q w(2) by (intro value_of_tiny [OF w(1)]; linarith)+
    from near_tiny [OF this] show ?thesis using near True by simp
  next
    case False
    have "10 powi 309 \<le> value_of w (q + exponent_num ds)" "10 powi 309 \<le> value_of w (q + int (text_digits ds))"
      using x q by (intro value_of_large [OF w0]; linarith)+
    from near_large [OF this] show ?thesis using near False by simp
  qed
qed

lemma reads_as_zero: "reads_as read_as_double near conv 0 neg n (Some (Return (SignedZero neg) n))"
proof -
  have "SignedZero neg = with_sign neg 0" by (simp add: SignedZero_def with_sign_def)
  then show ?thesis unfolding reads_as_def using near_zero by (intro exI [of _ 0]) simp
qed

lemma reads_as_digits:
  assumes "digits_read neg lz u g y n s" "list_all is_decimal (u @ g)" "u @ g = [] \<or> hd (u @ g) \<noteq> CHR ''0''"
    and "y + length (u @ g) \<le> 500000000"
  shows "reads_as read_as_double near conv (value_of (u @ g) (- int y - int (length g))) neg n (Some (Parsing_done s))"
proof -
  note e = digits_read_exponent(1) [OF assms(1)]
  have s: "ps_buffer s = take kMaxSignificantDigits (u @ g)" "ps_nonzero_digit_dropped s = some_nonzero (drop kMaxSignificantDigits (u @ g))"
    "\<not> ps_octal s" "ps_sign s = neg" "ps_current s = n" using assms(1) by (simp_all add: digits_read_def)
  have "\<bar>- int y - int (length g)\<bar> + int (length (u @ g)) \<le> 2100000000" using assms(4) by simp
  from parsing_done_correct [OF assms(2,3) this s(1-3) e, of conv] s(4,5) show ?thesis unfolding reads_as_def by auto
qed

text \<open>The exponent behind the digits.\<close>

lemma after_digits_exponent:
  assumes s: "digits_read neg lz u g y (length pre) s" and dec: "list_all is_decimal (u @ g)" "u @ g = [] \<or> hd (u @ g) \<noteq> CHR ''0''"
    and some: "lz \<or> u @ g \<noteq> [] \<or> 0 < y" and lim: "y + length (u @ g) \<le> 500000000"
    and input: "input = pre @ c # t @ ds" and c: "c = CHR ''e'' \<or> c = CHR ''E''" and t: "is_sign t" and ds: "list_all is_decimal ds" "ds \<noteq> []"
  shows "reads_as read_as_double near conv (value_of (u @ g) (- int y - int (length g) + (if t = ''-'' then - int (text_digits ds) else int (text_digits ds))))
    neg (length input) (after_digits conv input s)"
proof -
  let ?x = "if t = ''-'' then - exponent_num ds else exponent_num ds"
  define s' where "s' = s\<lparr>ps_current := length input, ps_exponent := ps_exponent s + ?x\<rparr>"
  note e = digits_read_exponent [OF s]
  have f: "ps_sign s = neg" "ps_leading_zero s = lz" "\<not> ps_octal s" "ps_current s = length pre"
    "ps_buffer s = take kMaxSignificantDigits (u @ g)" "ps_significant_digits s = length (take kMaxSignificantDigits (u @ g))"
    "ps_nonzero_digit_dropped s = some_nonzero (drop kMaxSignificantDigits (u @ g))"
    using s by (simp_all add: digits_read_def)
  have "ps_exponent s = - int y" if "u @ g = []" using s that by (simp add: digits_read_def)
  moreover have "length (take kMaxSignificantDigits (u @ g)) = 0 \<longleftrightarrow> u @ g = []" by (cases "u @ g") (simp_all add: kMaxSignificantDigits_def)
  ultimately have 1: "check_digits conv input s = Some (Go_on s)"
    using some f(2,6) unfolding check_digits_def by auto
  have "\<bar>ps_exponent s\<bar> \<le> 500000000" using e(2) lim by simp
  from parse_exponent_number [OF input c t ds f(4,3) this] have 2: "parse_exponent conv input s = Some (Go_on s')" by (simp add: s'_def)
  have 3: "check_trailing conv input s' = Some (Parsing_done s')" by (rule check_trailing_end) (simp add: s'_def)
  have "ps_exponent s' + int (ps_insignificant_digits s') =
    (- int y - int (length g) + ?x) + (int (length (u @ g)) - int (length (take kMaxSignificantDigits (u @ g))))"
    using e(1) by (simp add: s'_def)
  moreover have "0 \<le> exponent_num ds" "exponent_num ds \<le> max_exponent" by (simp_all add: exponent_num_def max_exponent_def)
  with lim have "\<bar>- int y - int (length g) + ?x\<bar> + int (length (u @ g)) \<le> 2100000000" by (auto simp: max_exponent_def abs_if)
  ultimately obtain d where
    d: "parsing_done read_as_double conv s' = Some (with_sign neg d, length input)" "near (value_of (u @ g) (- int y - int (length g) + ?x)) d"
    using parsing_done_correct [OF dec, of "- int y - int (length g) + ?x" s' conv] f by (auto simp: s'_def)
  have "near (value_of (u @ g) (- int y - int (length g) + (if t = ''-'' then - int (text_digits ds) else int (text_digits ds)))) d"
    using d(2) lim by (intro saturated_near [OF dec(1)]) simp_all
  then show ?thesis unfolding after_digits_def 1 and_then.simps 2 3 reads_as_def using d(1) by auto
qed

lemma rest_reads:
  assumes l: "literal_ok l" and s: "digits_read neg lz u g y (length pre) s"
    and dec: "list_all is_decimal (u @ g)" "u @ g = [] \<or> hd (u @ g) \<noteq> CHR ''0''" "lz \<or> u @ g \<noteq> [] \<or> 0 < y" "y + length (u @ g) \<le> 500000000"
    and input: "input = pre @ exp_text l"
  shows "reads_as read_as_double near conv (value_of (u @ g) (exp_value l - int y - int (length g))) neg (length input)
    (and_then (Some (if exp_text l = [] then Parsing_done s else Go_on s)) (after_digits conv input))"
proof (cases "lit_exp l")
  case None
  then have "exp_text l = []" "exp_value l = 0" by (simp_all add: exp_text_def exp_value_def)
  then show ?thesis using reads_as_digits [OF s dec(1,2,4), of conv] input by simp
next
  case (Some e)
  then obtain c t ds where e: "lit_exp l = Some (c, t, ds)" by (cases e) auto
  then have ex: "exp_text l = c # t @ ds" and x: "exp_value l = (if t = ''-'' then - int (text_digits ds) else int (text_digits ds))"
    by (simp_all add: exp_text_def exp_value_def)
  have "c = CHR ''e'' \<or> c = CHR ''E''" "is_sign t" "list_all is_decimal ds" "ds \<noteq> []" using l e by (simp_all add: literal_ok_def)
  from after_digits_exponent [OF s dec input [unfolded ex] this, of conv] show ?thesis unfolding x ex by (simp add: algebra_simps)
qed

text \<open>The fraction, after the digits \<open>u\<close> of the integer part.\<close>

lemma fraction_reads:
  assumes l: "literal_ok l" and s: "digits_read neg lz u [] 0 (length pre) s" and u: "list_all is_decimal u" "u = [] \<or> hd u \<noteq> CHR ''0''"
    and some: "lz \<or> u \<noteq> [] \<or> frac_digits l \<noteq> []" and lim: "length (u @ frac_digits l) \<le> 500000000"
    and input: "input = pre @ frac_text l @ exp_text l" "frac_text l @ exp_text l \<noteq> []"
  shows "reads_as read_as_double near conv (value_of (u @ frac_digits l) (exp_value l - int (length (frac_digits l)))) neg (length input)
    (and_then (parse_fraction conv input s) (after_digits conv input))"
proof -
  let ?f = "frac_digits l"
  have f: "list_all is_decimal ?f" using l by (simp add: literal_ok_def)
  have st: "ps_current s = length pre" "\<not> ps_octal s" "ps_sign s = neg" "ps_leading_zero s = lz"
    "ps_buffer s = take kMaxSignificantDigits u" "ps_significant_digits s = length (take kMaxSignificantDigits u)"
    "ps_nonzero_digit_dropped s = some_nonzero (drop kMaxSignificantDigits u)" "ps_exponent s = 0"
    "ps_insignificant_digits s = length u - kMaxSignificantDigits"
    using s by (simp_all add: digits_read_def)
  have sig: "ps_significant_digits s = 0 \<longleftrightarrow> u = []" unfolding st(6) by (cases u) (simp_all add: kMaxSignificantDigits_def)
  have post: "exp_text l = [] \<or> \<not> is_decimal (hd (exp_text l))" using exp_text_start [OF l] exponent_char by auto
  show ?thesis
  proof (cases "lit_frac l")
    case None
    then have f0: "frac_text l = []" "?f = []" by (simp_all add: frac_text_def frac_digits_def)
    obtain c r where c: "exp_text l = c # r" "c \<noteq> CHR ''.''"
      using input(2) f0 exp_text_start [OF l] by (cases "exp_text l") auto
    have "parse_fraction conv input s = Some (Go_on s)" by (rule parse_fraction_none [OF _ st(1) c(2)]) (use input f0 c in simp)
    then show ?thesis using rest_reads [OF l s _ _ _ _, of input conv] u some lim input f0 c by simp
  next
    case (Some f')
    then have fr: "frac_text l = CHR ''.'' # ?f" by (simp add: frac_text_def frac_digits_def)
    show ?thesis
    proof (cases "?f @ exp_text l = []")
      case True
      then have "parse_fraction conv input s = Some (Parsing_done (s\<lparr>ps_current := length input\<rparr>))"
        using input fr st some sig by (intro parse_fraction_empty [of input pre]) auto
      moreover have "digits_read neg lz u [] 0 (length input) (s\<lparr>ps_current := length input\<rparr>)" using s by (simp add: digits_read_def)
      moreover have "exp_value l = 0" using True by (auto simp: exp_text_def exp_value_def split: option.splits)
      ultimately show ?thesis using reads_as_digits [of neg lz u "[]" 0 "length input" _ conv] True u lim by simp
    next
      case False
      obtain y g where yg: "?f = replicate y CHR ''0'' @ g" "if u = [] then g = [] \<or> hd g \<noteq> CHR ''0'' else y = 0"
        using leading_zeros [of ?f] by (cases "u = []") auto
      have g: "list_all is_decimal g" using f yg(1) by simp
      show ?thesis
      proof (cases "u = [] \<and> g @ exp_text l = []")
        case True
        then have "y \<noteq> 0" using False yg(1) by (cases y) auto
        then obtain k where k: "y = Suc k" by (cases y) auto
        have "parse_fraction conv input s = Some (Return (SignedZero (ps_sign s)) (length input))"
          by (rule parse_fraction_zeros [of input pre k]) (use input fr yg(1) True k st sig in simp_all)
        moreover have "value_of (u @ ?f) q = 0" for q using True yg(1) by (simp add: value_of_def)
        ultimately show ?thesis using st(3) reads_as_zero [of conv neg "length input"] by simp
      next
        case some_digit: False
        let ?s = "after_fraction (s\<lparr>ps_current := length pre + 1 + y, ps_exponent := ps_exponent s - int y\<rparr>) u g"
        have "parse_fraction conv input s = Some (if exp_text l = [] then Parsing_done ?s else Go_on ?s)"
        proof (rule parse_fraction_digits [OF _ st(1,2,5,6,7) g post _ yg(2)])
          show "input = pre @ CHR ''.'' # replicate y CHR ''0'' @ g @ exp_text l" using input(1) fr yg(1) by simp
          show "g @ exp_text l \<noteq> []" using some_digit False yg by (cases "u = []") auto
        qed
        moreover have "digits_read neg lz u g y (length (pre @ CHR ''.'' # ?f)) ?s"
          using st yg(1) by (simp add: digits_read_def after_fraction_def)
        moreover have "u @ g = [] \<or> hd (u @ g) \<noteq> CHR ''0''" using u(2) yg(2) by (cases "u = []") auto
        moreover have "lz \<or> u @ g \<noteq> [] \<or> 0 < y" using some yg(1) by auto
        moreover have "y + length (u @ g) \<le> 500000000" using lim yg(1) by simp
        ultimately have "reads_as read_as_double near conv (value_of (u @ g) (exp_value l - int y - int (length g))) neg (length input)
            (and_then (parse_fraction conv input s) (after_digits conv input))"
          using rest_reads [OF l, of neg lz u g y "pre @ CHR ''.'' # ?f" ?s input conv] u(1) g input(1) fr by simp
        moreover have "value_of (u @ ?f) (exp_value l - int (length ?f)) = value_of (u @ g) (exp_value l - int y - int (length g))"
          using yg by (cases "u = []") (simp_all add: value_of_def text_digits_strip algebra_simps)
        ultimately show ?thesis by simp
      qed
    qed
  qed
qed

section \<open>The whole number\<close>

lemma reads_literal:
  assumes l: "literal_ok l" and conv: "reads_decimal conv" and lim: "length (literal_text l) \<le> 500000000"
  shows "reads_as read_as_double near conv (literal_val l) (lit_sign l = ''-'') (length (literal_text l)) (parse_number read_as_double conv (literal_text l))"
proof -
  let ?t = "lit_sign l" and ?f = "frac_digits l" and ?rest = "frac_text l @ exp_text l"
  define input where "input = literal_text l"
  obtain z u where zu: "lit_int l = replicate z CHR ''0'' @ u" "u = [] \<or> hd u \<noteq> CHR ''0''" using leading_zeros by blast
  have ok: "is_sign ?t" "list_all is_decimal u" "list_all is_decimal ?f" "lit_int l @ ?f \<noteq> []"
    using l zu(1) by (simp_all add: literal_ok_def)
  have in1: "input = ?t @ replicate z CHR ''0'' @ u @ ?rest" by (simp add: input_def literal_text_def zu(1))
  have val: "literal_val l = value_of (u @ ?f) (exp_value l - int (length ?f))"
    by (simp add: literal_val_def zu(1) value_of_def text_digits_strip)
  have len: "length (u @ ?f) \<le> 500000000" "length input = length (literal_text l)"
    using lim by (simp_all add: input_def literal_text_def zu(1) frac_text_def frac_digits_def split: option.splits)
  have rest_hd: "?rest = [] \<or> hd ?rest = CHR ''.'' \<or> hd ?rest = CHR ''e'' \<or> hd ?rest = CHR ''E''"
    using exp_text_start [OF l] by (auto simp: frac_text_def split: option.splits)
  have point: "hd ?rest = CHR ''.''" "?rest \<noteq> []" if "lit_int l = []"
    using ok(4) that by (auto simp: frac_digits_def frac_text_def split: option.splits)
  have start: "\<exists>c r. lit_int l @ ?rest = c # r \<and> number_start c"
  proof (cases "lit_int l")
    case Nil
    then show ?thesis using point by (cases ?rest) (auto simp: number_start_def)
  next
    case (Cons c r)
    then show ?thesis using l by (auto simp: literal_ok_def number_start_def)
  qed
  then obtain c r where cr: "input = ?t @ c # r" "number_start c" by (auto simp: input_def literal_text_def)
  define s1 where "s1 = initial_state\<lparr>ps_sign := (?t = ''-''), ps_current := length ?t\<rparr>"
  have cur: "ps_current s1 = length ?t" by (simp add: s1_def)
  have "symbol_ok (std_infinity_symbol conv)" "symbol_ok (std_nan_symbol conv)" and oct: "\<not> allows conv ALLOW_OCTALS"
    using conv by (simp_all add: reads_decimal_def)
  note sym = parse_symbol_number [OF this(1) cr(1) cur cr(2)] parse_symbol_number [OF this(2) cr(1) cur cr(2)]
  have entry: "parse_number read_as_double conv input = and_then (parse_leading_zero read_as_double conv input s1) (\<lambda>s.
     and_then (parse_integer conv input s) (\<lambda>s. and_then (parse_fraction conv input s) (after_digits conv input)))"
    unfolding parse_number_after skip_leading_spaces_number [OF cr(1) ok(1) cr(2)] and_then.simps
      parse_sign_number [OF cr(1) ok(1) cr(2)] s1_def [symmetric] sym ..
  have "reads_as read_as_double near conv (literal_val l) (?t = ''-'') (length input) (parse_number read_as_double conv input)"
  proof (cases "u @ ?rest = []")
    case True
    then have "z \<noteq> 0" using ok(4) zu(1) by (auto simp: frac_text_def frac_digits_def split: option.splits)
    then obtain k where k: "z = Suc k" by (cases z) auto
    have "parse_leading_zero read_as_double conv input s1 = Some (Return (SignedZero (ps_sign s1)) (length input))"
      by (rule parse_leading_zero_all [OF _ cur]) (use in1 True k in simp)
    moreover have "literal_val l = 0" using True by (auto simp: val value_of_def frac_digits_def frac_text_def split: option.splits)
    ultimately show ?thesis unfolding entry using reads_as_zero [of conv "?t = ''-''" "length input"] by (simp add: s1_def)
  next
    case False
    then obtain b v where b: "u @ ?rest = b # v" by (cases "u @ ?rest") auto
    have "b \<noteq> CHR ''0''" "b \<noteq> CHR ''x''" "b \<noteq> CHR ''X''"
      using b zu(2) ok(2) rest_hd exponent_char by (cases u; auto)+
    then have lz: "parse_leading_zero read_as_double conv input s1 = Some (Go_on (s1\<lparr>ps_current := length ?t + z, ps_leading_zero := (0 < z)\<rparr>))"
      by (intro parse_leading_zero_some [OF _ cur _ _ _ oct]) (use in1 b in \<open>simp_all add: s1_def initial_state_def\<close>)
    define s2 where "s2 = s1\<lparr>ps_current := length ?t + z, ps_leading_zero := (0 < z)\<rparr>"
    let ?pre = "?t @ replicate z CHR ''0''"
    have st: "starts s2 (length ?pre)" by (simp add: starts_def s2_def s1_def initial_state_def)
    have int: "parse_integer conv input s2 = Some (if ?rest = [] then Parsing_done (after_integer s2 u) else Go_on (after_integer s2 u))"
      by (rule parse_integer_number [OF _ ok(2) _ st]) (use in1 rest_hd exponent_char in auto)
    have dr: "digits_read (?t = ''-'') (0 < z) u [] 0 (length (?pre @ u)) (after_integer s2 u)"
      by (simp add: digits_read_def after_integer_def s2_def s1_def initial_state_def)
    show ?thesis
    proof (cases "?rest = []")
      case True
      then have "exp_value l = 0" "?f = []" by (auto simp: exp_text_def exp_value_def frac_text_def frac_digits_def split: option.splits)
      then show ?thesis unfolding entry lz and_then.simps s2_def [symmetric] int
        using True reads_as_digits [OF dr, of conv] ok(2) zu(2) in1 len(1) by (simp add: val)
    next
      case False
      have "0 < z \<or> u \<noteq> [] \<or> ?f \<noteq> []" using ok(4) zu(1) by auto
      from fraction_reads [OF l dr ok(2) zu(2) this len(1) _ False, of input conv]
      show ?thesis unfolding entry lz and_then.simps s2_def [symmetric] int if_not_P [OF False] val using in1 by simp
    qed
  qed
  then show ?thesis unfolding input_def .
qed

lemma StringToIeee_literal:
  assumes "literal_ok l" "reads_decimal conv" "length (literal_text l) \<le> 500000000"
  obtains d where "StringToIeee conv (literal_text l) read_as_double = Some (with_sign (lit_sign l = ''-'') d, length (literal_text l))"
    "near (literal_val l) d"
proof -
  from reads_literal [OF assms] obtain d f where d: "near (literal_val l) d" "parse_number read_as_double conv (literal_text l) = Some f"
    "case f of Return value count \<Rightarrow> value = with_sign (lit_sign l = ''-'') d \<and> count = length (literal_text l)
     | Parsing_done s \<Rightarrow> parsing_done read_as_double conv s = Some (with_sign (lit_sign l = ''-'') d, length (literal_text l))
     | Go_on s \<Rightarrow> parsing_done read_as_double conv s = Some (with_sign (lit_sign l = ''-'') d, length (literal_text l))"
    unfolding reads_as_def by blast
  have "StringToIeee conv (literal_text l) read_as_double = Some (with_sign (lit_sign l = ''-'') d, length (literal_text l))"
    using d(2,3) by (cases f) (simp_all add: StringToIeee_def)
  from that [OF this d(1)] show thesis .
qed

end

section \<open>The interface on both conversions\<close>

definition near_double :: "real \<Rightarrow> double \<Rightarrow> bool" where
  "near_double x d \<longleftrightarrow> D_nearest x (unat d)"

definition near_float :: "real \<Rightarrow> double \<Rightarrow> bool" where
  "near_float x d \<longleftrightarrow> (\<exists>f. d = single_to_double f \<and> S_nearest x (unat f))"

lemma S_tiny_nearest_zero: "x \<le> 10 powi (-400) \<Longrightarrow> S_nearest x 0"
proof -
  assume x: "x \<le> 10 powi (-400)"
  also have "(10 :: real) powi (-400) \<le> 10 powi (-150)" by (rule power_int_increasing) simp_all
  also have "(10 :: real) powi (-150) \<le> 2 powi (-150)" by (simp add: power_int_minus)
  also have "(2 :: real) powi (-150) = midpoint 23 (-149) 0" by (simp add: midpoint_odd rank_sig_def rank_exp_def)
  finally have "x \<le> midpoint 23 (-149) 0" .
  then show ?thesis by (simp add: nearest_def)
qed

lemma S_large_nearest_infinity: "10 powi 309 \<le> x \<Longrightarrow> S_nearest x S_inf_rank"
proof -
  assume x: "10 powi 309 \<le> x"
  have "(2 :: real) powi 128 \<le> 10 powi 309" by simp
  then show ?thesis using x by (intro S_nearest_infinity) (rule order_trans)
qed

lemma nearest_same: "nearest p emin inf_rank x m \<Longrightarrow> nearest p emin inf_rank y m \<Longrightarrow> nearest p emin inf_rank x n \<Longrightarrow> nearest p emin inf_rank y n"
  using nearest_unique [of p emin inf_rank x m n] by simp

interpretation to_double: digit_conversion True near_double
proof (unfold_locales, unfold near_double_def, goal_cases)
  case (1 w e)
  then show ?case using Strtod_correct [of w e] by simp
next
  case 2
  then show ?case using nearest_zero [of 0] by simp
next
  case (3 c w e d)
  then show ?case unfolding value_of_def by (intro cut_keeps_nearest [of c w, OF _ _ _ _ _ coarse_double])
next
  case (4 x y d)
  from 4(3) show ?case by (rule nearest_same [OF tiny_nearest_zero [OF 4(1)] tiny_nearest_zero [OF 4(2)]])
next
  case (5 x y d)
  from 5(3) show ?case by (rule nearest_same [OF nearest_infinity [OF 5(1)] nearest_infinity [OF 5(2)]])
qed

interpretation to_float: digit_conversion False near_float
proof (unfold_locales, unfold near_float_def, goal_cases)
  case (1 w e)
  then show ?case using returns_ex [OF Strtof_correct [of w e]] by auto
next
  case 2
  have "S_nearest 0 (unat (0 :: single))" using S_tiny_nearest_zero [of 0] by simp
  moreover have "unat (single_to_double 0) = 0"
    using single_to_double_exact(2) [of 0] rank_val_less [of 0 "unat (single_to_double 0)" 52 "-1074"] by (cases "unat (single_to_double 0)") simp_all
  ultimately show ?case by (intro exI [of _ 0]) (simp add: unat_eq_0_iff)
next
  case (3 c w e d)
  then show ?case unfolding value_of_def using cut_keeps_nearest [of c w, OF _ _ _ _ _ coarse_single] by blast
next
  case (4 x y d)
  then show ?case using nearest_same [OF S_tiny_nearest_zero [OF 4(1)] S_tiny_nearest_zero [OF 4(2)]] by blast
next
  case (5 x y d)
  then show ?case using nearest_same [OF S_large_nearest_infinity [OF 5(1)] S_large_nearest_infinity [OF 5(2)]] by blast
qed

lemma StringToDouble_literal:
  assumes "literal_ok l" "reads_decimal conv" "length (literal_text l) \<le> 500000000"
  obtains d where "StringToDouble conv (literal_text l) = Some (with_sign (lit_sign l = ''-'') d, length (literal_text l))"
    "D_nearest (literal_val l) (unat d)"
  using to_double.StringToIeee_literal [OF assms] unfolding StringToDouble_def near_double_def by blast

section \<open>Properties\<close>

text \<open>
  C3: \<open>StringToDouble\<close> reads every decimal literal, of any number of digits and with any exponent, as the double nearest to the
  number it denotes (ties to even, beyond the range infinity) with the sign of the literal, and reports the whole text as processed.
  The converter may have any flags but \<open>ALLOW_OCTALS\<close> and any symbols that do not start like a number.
\<close>

theorem string_to_double_is_nearest:
  assumes "literal_ok l" "reads_decimal conv" "length (literal_text l) \<le> 500000000"
  shows "\<exists>d. StringToDouble conv (literal_text l) = Some (with_sign (lit_sign l = ''-'') d, length (literal_text l)) \<and>
    D_nearest (literal_val l) (unat d)"
  using StringToDouble_literal [OF assms] by blast

theorem string_to_double_is_nearest_witness:
  "\<exists>d. StringToDouble \<lparr>std_flags = 13, std_empty_string_value = 0, std_junk_string_value = D_kNaN,
        std_infinity_symbol = Some ''Infinity'', std_nan_symbol = Some ''NaN''\<rparr> ''-12.50e+3''
      = Some (with_sign True d, 9) \<and> D_nearest (value_of ''1250'' (3 - 2)) (unat d)"
proof -
  let ?l = "\<lparr>lit_sign = ''-'', lit_int = ''12'', lit_frac = Some ''50'', lit_exp = Some (CHR ''e'', ''+'', ''3'')\<rparr>"
  have t: "literal_text ?l = ''-12.50e+3''" by (simp add: literal_text_def frac_text_def exp_text_def)
  have n: "length ''-12.50e+3'' = 9" by simp
  have v: "literal_val ?l = value_of ''1250'' (3 - 2)"
    by (simp add: literal_val_def frac_digits_def exp_value_def char_digit_def)
  show ?thesis
    using string_to_double_is_nearest [of ?l "\<lparr>std_flags = 13, std_empty_string_value = 0, std_junk_string_value = D_kNaN,
        std_infinity_symbol = Some ''Infinity'', std_nan_symbol = Some ''NaN''\<rparr>"]
    unfolding t v n
    by (simp add: literal_ok_def frac_digits_def is_sign_def reads_decimal_def symbol_ok_def allows_def ALLOW_OCTALS_def first_char_def is_decimal_def)
qed

end
