(* ===== verification/Formatting.thy ===== *)
theory Formatting
  imports DoubleToString
begin

text \<open>
  What \<open>DoubleToStringConverter\<close> writes: the text of a decimal or exponential representation, read back as a number,
  is the number of the digits and the decimal point that it was given. The methods of the builder enter through
  \<open>writes\<close> only.
\<close>

section \<open>Texts of numbers\<close>

text \<open>A text with a decimal point, and a text with an exponent after the character \<open>ec\<close>.\<close>

definition int_part :: "string \<Rightarrow> string" where
  "int_part t = takeWhile (\<lambda>c. c \<noteq> CHR ''.'') t"

definition frac_part :: "string \<Rightarrow> string" where
  "frac_part t = drop 1 (dropWhile (\<lambda>c. c \<noteq> CHR ''.'') t)"

definition point_val :: "string \<Rightarrow> real" where
  "point_val t = real (text_digits (int_part t)) + real (text_digits (frac_part t)) / 10 ^ length (frac_part t)"

definition signed_val :: "string \<Rightarrow> int" where
  "signed_val t = (case t of
       [] \<Rightarrow> 0
     | c # u \<Rightarrow> if c = CHR ''-'' then - int (text_digits u) else if c = CHR ''+'' then int (text_digits u)
                else int (text_digits t))"

definition exp_val :: "char \<Rightarrow> string \<Rightarrow> real" where
  "exp_val ec t = point_val (takeWhile (\<lambda>c. c \<noteq> ec) t) * 10 powi signed_val (drop 1 (dropWhile (\<lambda>c. c \<noteq> ec) t))"

lemma decimal_not [simp]: "is_decimal c \<Longrightarrow> c \<noteq> CHR ''.''" "is_decimal c \<Longrightarrow> c \<noteq> CHR 0x00"
  "is_decimal c \<Longrightarrow> c \<noteq> CHR ''-''" "is_decimal c \<Longrightarrow> c \<noteq> CHR ''+''"
  by (auto simp: is_decimal_def)

lemma is_decimal_0 [simp]: "is_decimal CHR ''0''"
  by (simp add: is_decimal_def)

lemma decimals_no_zero: "list_all is_decimal s \<Longrightarrow> CHR 0x00 \<notin> set s"
  unfolding list_all_iff using decimal_not(2) by blast

lemma parts_point:
  assumes "list_all is_decimal s"
  shows "int_part (s @ CHR ''.'' # t) = s" "frac_part (s @ CHR ''.'' # t) = t" "int_part s = s" "frac_part s = []"
proof -
  have p: "\<forall>c \<in> set s. c \<noteq> CHR ''.''" using assms by (auto simp: list_all_iff)
  then have "dropWhile (\<lambda>c. c \<noteq> CHR ''.'') s = []" by (simp only: dropWhile_eq_Nil_conv)
  then show "frac_part s = []" by (simp only: frac_part_def drop_Nil)
  show "int_part (s @ CHR ''.'' # t) = s" "frac_part (s @ CHR ''.'' # t) = t" "int_part s = s"
    using p by (simp_all add: int_part_def frac_part_def takeWhile_append2 dropWhile_append2 takeWhile_eq_all_conv)
qed

section \<open>Decimal representation\<close>

text \<open>The text that \<open>CreateDecimalRepresentation\<close> writes for the digits \<open>ds\<close>.\<close>

definition decimal_body :: "string \<Rightarrow> int \<Rightarrow> int \<Rightarrow> string" where
  "decimal_body ds point after =
     (if point \<le> 0 then
        CHR ''0'' # (if after > 0 then CHR ''.'' # replicate (nat (- point)) CHR ''0'' @ ds @
          replicate (nat (after - (- point) - int (length ds))) CHR ''0'' else [])
      else if point \<ge> int (length ds) then
        ds @ replicate (nat (point - int (length ds))) CHR ''0'' @
          (if after > 0 then CHR ''.'' # replicate (nat after) CHR ''0'' else [])
      else take (nat point) ds @ CHR ''.'' # drop (nat point) ds @
          replicate (nat (after - (int (length ds) - point))) CHR ''0'')"

definition decimal_tail :: "double_to_string_converter \<Rightarrow> int \<Rightarrow> string" where
  "decimal_tail conv after =
     (if after = 0 then
        (if has_flag (dts_flags conv) EMIT_TRAILING_DECIMAL_POINT then ''.'' else []) @
        (if has_flag (dts_flags conv) EMIT_TRAILING_ZERO_AFTER_POINT then ''0'' else [])
      else [])"

lemma writes_decimal:
  assumes len: "len \<le> length rep" and dec: "list_all is_decimal (take len rep)"
    and room: "int len \<le> after + point"
  shows "writes (CreateDecimalRepresentation conv rep (int len) point after)
           (decimal_body (take len rep) point after @ decimal_tail conv after)"
proof -
  have z: "CHR 0x00 \<notin> set (take len rep)" by (rule decimals_no_zero [OF dec])
  have sub: "writes (AddSubstring rep (int k)) (take k rep)" if "k \<le> len" for k
  proof -
    have "set (take k rep) \<subseteq> set (take len rep)" by (rule set_take_subset_set_take [OF that])
    then show ?thesis using writes_AddSubstring [of "int k" rep] len that z by auto
  qed
  have sub2: "writes (AddSubstring (drop k rep) (int len - int k)) (drop k (take len rep))" if "k < len" for k
  proof -
    have "take (nat (int len - int k)) (drop k rep) = drop k (take len rep)" using that by (simp add: drop_take nat_diff_distrib)
    moreover have "CHR 0x00 \<notin> set (drop k (take len rep))" using z set_drop_subset [of k "take len rep"] by auto
    moreover have "nat (int len - int k) \<le> length (drop k rep)" using that len by simp
    ultimately show ?thesis using writes_AddSubstring [of "int len - int k" "drop k rep"] that by auto
  qed
  note w = writes_bind writes_AddCharacter writes_AddPadding writes_nothing
  have tail: "writes (\<lambda>b. if after = 0 then do {
       b \<leftarrow> (if has_flag (dts_flags conv) EMIT_TRAILING_DECIMAL_POINT then AddCharacter CHR ''.'' b else Some b);
       if has_flag (dts_flags conv) EMIT_TRAILING_ZERO_AFTER_POINT then AddCharacter CHR ''0'' b else Some b
     } else Some b) (decimal_tail conv after)"
    unfolding decimal_tail_def by (rule writes_if w | (simp; fail))+
  show ?thesis
    unfolding CreateDecimalRepresentation_def [abs_def]
  proof (rule writes_bind [OF _ tail], goal_cases)
    case 1
    consider (neg) "point \<le> 0" "after > 0" | (zero) "point \<le> 0" "\<not> after > 0" | (big) "point > 0" "point \<ge> int len"
      | (mid) "0 < point" "point < int len" by linarith
    then show ?case
    proof cases
      case neg
      have "writes (\<lambda>b. do {
          b \<leftarrow> AddCharacter CHR ''0'' b;
          b \<leftarrow> AddCharacter CHR ''.'' b;
          b \<leftarrow> AddPadding CHR ''0'' (- point) b;
          b \<leftarrow> AddSubstring rep (int len) b;
          AddPadding CHR ''0'' (after + point - int len) b }) (decimal_body (take len rep) point after)"
        by (rule writes_text, (rule w sub | (use len neg room in \<open>simp add: decimal_body_def min_absorb2\<close>; fail))+)
      with neg room show ?thesis by (simp add: check_def)
    next
      case zero
      then show ?thesis by (simp add: decimal_body_def writes_AddCharacter)
    next
      case big
      have "writes (\<lambda>b. do {
          b \<leftarrow> AddSubstring rep (int len) b;
          b \<leftarrow> AddPadding CHR ''0'' (point - int len) b;
          if after > 0 then do { b \<leftarrow> AddCharacter CHR ''.'' b; AddPadding CHR ''0'' after b } else Some b })
          (decimal_body (take len rep) point after)"
        by (rule writes_text, (rule writes_if w sub | (use len big in \<open>simp add: decimal_body_def min_absorb2\<close>; fail))+)
      with big show ?thesis by simp
    next
      case mid
      then obtain p where p: "point = int p" "p < len" by (metis nat_less_iff nat_0_le less_imp_le of_nat_less_iff)
      have after: "after > 0" "int len - int p \<le> after" using mid room p by linarith+
      have "writes (\<lambda>b. do {
          b \<leftarrow> AddSubstring rep (int p) b;
          b \<leftarrow> AddCharacter CHR ''.'' b;
          b \<leftarrow> AddSubstring (drop p rep) (int len - int p) b;
          AddPadding CHR ''0'' (after - (int len - int p)) b }) (decimal_body (take len rep) point after)"
        by (rule writes_text, (rule w sub sub2 | (use len mid p in \<open>simp add: decimal_body_def min_absorb2\<close>; fail))+)
      with mid p after show ?thesis by (simp add: check_def)
    qed
  qed
qed

text \<open>The value and the number of digits after the point of a text in parts.\<close>

lemma point_val_parts:
  assumes "list_all is_decimal i"
  shows "point_val (i @ CHR ''.'' # f) = real (text_digits (i @ f)) / 10 ^ length f" "point_val i = real (text_digits i)"
  by (simp_all add: point_val_def parts_point [OF assms] text_digits_append add_divide_distrib)

definition conv_ok :: "double_to_string_converter \<Rightarrow> bool" where
  "conv_ok conv \<longleftrightarrow> has_flag (dts_flags conv) EMIT_TRAILING_DECIMAL_POINT \<or>
     \<not> has_flag (dts_flags conv) EMIT_TRAILING_ZERO_AFTER_POINT"

lemma decimal_text_split:
  assumes dec: "list_all is_decimal ds" and after: "0 \<le> after" and room: "int (length ds) \<le> after + point"
    and ok: "conv_ok conv"
  obtains i f k where
    "decimal_body ds point after @ decimal_tail conv after = i @ CHR ''.'' # f \<or>
     decimal_body ds point after @ decimal_tail conv after = i \<and> f = []"
    "list_all is_decimal i" "list_all is_decimal f" "text_digits (i @ f) = text_digits ds * 10 ^ k"
    "int k = point - int (length ds) + int (length f)"
proof -
  have z: "list_all is_decimal (replicate n CHR ''0'')" for n by (induction n) simp_all
  consider (neg) "point \<le> 0" "after > 0" | (zero) "point \<le> 0" "after = 0"
    | (frac) "point > 0" "point \<ge> int (length ds)" "after > 0" | (int) "point > 0" "point \<ge> int (length ds)" "after = 0"
    | (mid) "0 < point" "point < int (length ds)" using after by linarith
  then show thesis
  proof cases
    case neg
    show thesis
      by (rule that [of "''0''" "replicate (nat (- point)) CHR ''0'' @ ds @
          replicate (nat (after + point - int (length ds))) CHR ''0''" "nat (after + point - int (length ds))"])
        (use neg dec room z in \<open>auto simp: decimal_body_def decimal_tail_def text_digits_append\<close>)
  next
    case zero
    then have "length ds = 0" "point = 0" using room by linarith+
    then have "ds = []" "point = 0" by simp_all
    then show thesis
      using zero ok
      by (intro that [of "''0''" "if has_flag (dts_flags conv) EMIT_TRAILING_ZERO_AFTER_POINT then ''0'' else []"
            "if has_flag (dts_flags conv) EMIT_TRAILING_ZERO_AFTER_POINT then 1 else 0"])
        (auto simp: decimal_body_def decimal_tail_def conv_ok_def)
  next
    case frac
    show thesis
      by (rule that [of "ds @ replicate (nat (point - int (length ds))) CHR ''0''" "replicate (nat after) CHR ''0''"
            "nat (point - int (length ds)) + nat after"])
        (use frac dec z in \<open>auto simp: decimal_body_def decimal_tail_def text_digits_append power_add\<close>)
  next
    case int
    let ?f = "if has_flag (dts_flags conv) EMIT_TRAILING_ZERO_AFTER_POINT then ''0'' else []"
    show thesis
      by (rule that [of "ds @ replicate (nat (point - int (length ds))) CHR ''0''" ?f
            "nat (point - int (length ds)) + length ?f"])
        (use int dec z ok in \<open>auto simp: decimal_body_def decimal_tail_def text_digits_append conv_ok_def\<close>)
  next
    case mid
    define n where "n = nat (after - (int (length ds) - point))"
    have "text_digits (take (nat point) ds @ drop (nat point) ds @ replicate n CHR ''0'') = text_digits (ds @ replicate n CHR ''0'')"
      by (metis append_assoc append_take_drop_id)
    then have "text_digits (take (nat point) ds @ drop (nat point) ds @ replicate n CHR ''0'') = text_digits ds * 10 ^ n"
      by (simp add: text_digits_append)
    moreover have "list_all is_decimal (take (nat point) ds)" "list_all is_decimal (drop (nat point) ds)"
      using dec by (auto simp: list_all_iff dest: in_set_takeD in_set_dropD)
    moreover have "decimal_body ds point after @ decimal_tail conv after =
        take (nat point) ds @ CHR ''.'' # drop (nat point) ds @ replicate n CHR ''0''"
      using mid room unfolding n_def by (simp add: decimal_body_def decimal_tail_def)
    ultimately show thesis
      using mid z [of n]
      by (intro that [of "take (nat point) ds" "drop (nat point) ds @ replicate n CHR ''0''" n]) simp_all
  qed
qed

lemma scaled_powi: "int k = p - int l + int n \<Longrightarrow> real (a * 10 ^ k) / 10 ^ n = real a * 10 powi (p - int l)"
proof -
  assume k: "int k = p - int l + int n"
  have "(10 :: real) ^ k = 10 powi (p - int l + int n)" using k by (metis power_int_of_nat)
  also have "\<dots> = 10 powi (p - int l) * 10 ^ n" by (simp add: power_int_add)
  finally show ?thesis by simp
qed

lemma decimal_text_val:
  assumes "list_all is_decimal ds" "0 \<le> after" "int (length ds) \<le> after + point" "conv_ok conv"
  shows "point_val (decimal_body ds point after @ decimal_tail conv after) = real (text_digits ds) * 10 powi (point - int (length ds))"
proof (rule decimal_text_split [OF assms], goal_cases)
  case (1 i f k)
  have "point_val (i @ CHR ''.'' # f) = real (text_digits ds) * 10 powi (point - int (length ds))"
    "f = [] \<Longrightarrow> point_val i = real (text_digits ds) * 10 powi (point - int (length ds))"
    using point_val_parts [OF 1(2)] scaled_powi [OF 1(5), of "text_digits ds"] 1(4) by simp_all
  with 1(1) show ?case by auto
qed

section \<open>Exponential representation\<close>

lemma exponent_digits_correct:
  assumes "0 < e" "e < 10000"
  shows "returns (exponent_digits e) (\<lambda>(buffer, p). p \<le> 5 \<and> length buffer = 6 \<and>
    list_all is_decimal (drop p (take 5 buffer)) \<and> int (text_digits (drop p (take 5 buffer))) = e)"
proof -
  define I where "I = (\<lambda>(buffer, p, c). length buffer = 6 \<and> p \<le> 5 \<and> 0 \<le> c \<and>
    list_all is_decimal (drop p (take 5 buffer)) \<and> c * 10 ^ (5 - p) + int (text_digits (drop p (take 5 buffer))) = e)"
  have step: "I (buffer[p - 1 := digit_char (nat (c mod 10))], p - 1, c div 10) \<and> p > 0 \<and> p \<le> 5 \<and> length buffer = 6"
    if "I (buffer, p, c)" "c > 0" for buffer p c
  proof -
    have i: "length buffer = 6" "p \<le> 5" "list_all is_decimal (drop p (take 5 buffer))"
      "c * 10 ^ (5 - p) + int (text_digits (drop p (take 5 buffer))) = e" using that by (simp_all add: I_def)
    have "p > 0"
    proof (rule ccontr)
      assume "\<not> p > 0"
      then have "c * 100000 \<le> e" using i(4) by simp
      with that(2) assms show False by linarith
    qed
    then obtain q where q: "p = Suc q" by (cases p) auto
    let ?d = "digit_char (nat (c mod 10))"
    have dr: "drop q (take 5 (buffer[q := ?d])) = ?d # drop p (take 5 buffer)"
      using i(1,2) q by (simp add: take_update_swap Cons_nth_drop_Suc [symmetric] drop_update_cancel)
    have d: "nat (c mod 10) \<le> 9" using pos_mod_bound [of 10 c] by simp
    have "5 - q = Suc (5 - p)" using i(2) q by simp
    then have pw: "(10 :: int) ^ (5 - q) = 10 * 10 ^ (5 - p)" by simp
    obtain x y where xy: "x = c div 10" "y = c mod 10" "c = x * 10 + y" by (metis div_mult_mod_eq)
    have "int (nat y) = y" using xy(2) by simp
    then have "x * 10 ^ (5 - q) + int (nat y) * 10 ^ (5 - p) = c * 10 ^ (5 - p)"
      unfolding pw xy(3) by (simp add: algebra_simps)
    then have "c div 10 * 10 ^ (5 - q) + int (nat (c mod 10)) * 10 ^ (5 - p) = c * 10 ^ (5 - p)" by (simp only: xy(1,2))
    then show ?thesis
      using i d that(2) \<open>p > 0\<close> q dr by (simp add: I_def algebra_simps)
  qed
  show ?thesis
    unfolding exponent_digits_def Let_def returns_bind returns_vset
  proof (intro conjI, goal_cases)
    case 2
    show ?case
    proof (rule returns_while [where I = I and m = "\<lambda>(buffer, p, c). nat c"], goal_cases)
      case 1
      then show ?case using assms by (simp add: I_def)
    next
      case (2 s)
      obtain buffer p c where s: "s = (buffer, p, c)" by (cases s)
      show ?case
      proof (cases "c > 0")
        case True
        have "nat (c div 10) < nat c" using True by simp
        moreover have "p \<le> 5" using step [of buffer p c] 2 s True by simp
        then have "p - 1 < 6" by simp
        ultimately show ?thesis using step [of buffer p c] 2 s True by (simp add: wp)
      next
        case False
        then have "c = 0" using 2 s by (simp add: I_def)
        with 2 s show ?thesis by (simp add: I_def)
      qed
    qed
  qed simp
qed

text \<open>The text of the exponent with its sign.\<close>

lemma writes_exponent_digits:
  assumes "0 < e" "e < 10000"
  obtains t where "writes (\<lambda>b. do {
      check (e < 10000);
      (buffer, first_char_pos) \<leftarrow> exponent_digits e;
      AddSubstring (drop first_char_pos buffer) (5 - int first_char_pos) b }) t"
    "list_all is_decimal t" "int (text_digits t) = e" "length t \<le> 5"
proof -
  obtain buffer p where b: "exponent_digits e = Some (buffer, p)" "p \<le> 5" "length buffer = 6"
    "list_all is_decimal (drop p (take 5 buffer))" "int (text_digits (drop p (take 5 buffer))) = e"
    using exponent_digits_correct [OF assms] by (auto elim: returnsE)
  have take: "take (nat (5 - int p)) (drop p buffer) = drop p (take 5 buffer)"
    using b(2,3) by (simp add: drop_take nat_diff_distrib)
  have len: "nat (5 - int p) \<le> length (drop p buffer)" using b(2,3) by simp
  have "writes (AddSubstring (drop p buffer) (5 - int p)) (drop p (take 5 buffer))"
    using writes_AddSubstring [OF _ len] b(2) decimals_no_zero [OF b(4)] unfolding take by simp
  then show thesis
    using assms(2) b by (intro that [of "drop p (take 5 buffer)"]) (simp_all add: check_def)
qed

definition signed_digits :: "string \<Rightarrow> bool" where
  "signed_digits t \<longleftrightarrow> (\<exists>u. list_all is_decimal u \<and> u \<noteq> [] \<and> length u \<le> 5 \<and>
     (t = u \<or> t = CHR ''+'' # u \<or> t = CHR ''-'' # u))"

lemma writes_exponent:
  assumes "\<bar>e\<bar> < 10000"
  obtains t where "writes (\<lambda>b. do {
      (e, b) \<leftarrow> (if e < 0 then do {
                   b \<leftarrow> AddCharacter CHR ''-'' b;
                   Some (- e, b)
                 } else if has_flag (dts_flags conv) EMIT_POSITIVE_EXPONENT_SIGN then do {
                   b \<leftarrow> AddCharacter CHR ''+'' b;
                   Some (e, b)
                 } else Some (e, b));
      if e = 0 then AddCharacter CHR ''0'' b
      else do {
        check (e < 10000);
        (buffer, first_char_pos) \<leftarrow> exponent_digits e;
        AddSubstring (drop first_char_pos buffer) (5 - int first_char_pos) b
      } }) t" "signed_digits t" "signed_val t = e"
proof -
  define tail where "tail = (\<lambda>e b. if e = 0 then AddCharacter CHR ''0'' b
      else do {
        check (e < 10000);
        (buffer, first_char_pos) \<leftarrow> exponent_digits e;
        AddSubstring (drop first_char_pos buffer) (5 - int first_char_pos) b
      })"
  have tail: "\<exists>u. writes (tail k) u \<and> list_all is_decimal u \<and> u \<noteq> [] \<and> length u \<le> 5 \<and> int (text_digits u) = k"
    if "0 \<le> k" "k < 10000" for k
  proof (cases "k = 0")
    case True
    have "writes (tail 0) ''0''" unfolding tail_def by (simp add: writes_AddCharacter)
    with True show ?thesis by (intro exI [of _ "''0''"]) simp
  next
    case False
    with that have "0 < k" by simp
    from writes_exponent_digits [OF this that(2)] obtain u where u: "writes (\<lambda>b. do {
        check (k < 10000);
        (buffer, first_char_pos) \<leftarrow> exponent_digits k;
        AddSubstring (drop first_char_pos buffer) (5 - int first_char_pos) b }) u"
      "list_all is_decimal u" "int (text_digits u) = k" "length u \<le> 5" by blast
    have "u \<noteq> []" using u(3) \<open>0 < k\<close> by auto
    moreover have "writes (tail k) u" using u(1) False unfolding tail_def by simp
    ultimately show ?thesis using u by blast
  qed
  obtain u where u: "writes (tail \<bar>e\<bar>) u" "list_all is_decimal u" "u \<noteq> []" "length u \<le> 5" "int (text_digits u) = \<bar>e\<bar>"
    using tail [of "\<bar>e\<bar>"] assms by auto
  then have sd: "signed_digits u" "signed_digits (CHR ''+'' # u)" "signed_digits (CHR ''-'' # u)"
    by (auto simp: signed_digits_def)
  have sv: "signed_val u = \<bar>e\<bar>"
  proof (cases u)
    case (Cons c v)
    with u(2) have "c \<noteq> CHR ''-''" "c \<noteq> CHR ''+''" by auto
    with Cons u(5) show ?thesis by (simp add: signed_val_def)
  qed (use u(3) in simp)
  note w = writes_bind [OF writes_AddCharacter u(1), simplified]
  show thesis
    unfolding tail_def [symmetric]
  proof (cases "e < 0")
    case True
    show thesis
      by (rule that [of "CHR ''-'' # u"]) (use w True u(5) sd in \<open>simp_all add: signed_val_def flip: tail_def\<close>)
  next
    case nonneg: False
    show thesis
    proof (cases "has_flag (dts_flags conv) EMIT_POSITIVE_EXPONENT_SIGN")
      case True
      show thesis
        by (rule that [of "CHR ''+'' # u"]) (use w nonneg True u(5) sd in \<open>simp_all add: signed_val_def flip: tail_def\<close>)
    next
      case False
      show thesis
        by (rule that [of u]) (use u(1) nonneg False sv sd in \<open>simp_all flip: tail_def\<close>)
    qed
  qed
qed

lemma writes_exponential:
  assumes len: "0 < len" "len \<le> length rep" and dec: "list_all is_decimal (take len rep)" and e: "\<bar>e\<bar> < 10000"
    and ec: "dts_exponent_character conv \<noteq> CHR 0x00"
  obtains t where "writes (CreateExponentialRepresentation conv rep len e)
      (rep ! 0 # (if len \<noteq> 1 then CHR ''.'' # drop 1 (take len rep) else []) @ dts_exponent_character conv # t)"
    "signed_digits t" "signed_val t = e"
proof -
  from writes_exponent [OF e] obtain t where t: "writes (\<lambda>b. do {
      (e, b) \<leftarrow> (if e < 0 then do {
                   b \<leftarrow> AddCharacter CHR ''-'' b;
                   Some (- e, b)
                 } else if has_flag (dts_flags conv) EMIT_POSITIVE_EXPONENT_SIGN then do {
                   b \<leftarrow> AddCharacter CHR ''+'' b;
                   Some (e, b)
                 } else Some (e, b));
      if e = 0 then AddCharacter CHR ''0'' b
      else do {
        check (e < 10000);
        (buffer, first_char_pos) \<leftarrow> exponent_digits e;
        AddSubstring (drop first_char_pos buffer) (5 - int first_char_pos) b
      } }) t" "signed_digits t" "signed_val t = e" by blast
  have "CHR 0x00 \<notin> set (take len rep)" by (rule decimals_no_zero [OF dec])
  moreover have "rep ! 0 \<in> set (take len rep)" using len by (metis in_set_conv_nth length_take min.absorb2 nth_take)
  ultimately have z: "rep ! 0 \<noteq> CHR 0x00" "CHR 0x00 \<notin> set (drop 1 (take len rep))" by (auto dest: in_set_dropD)
  have "nat (int len - 1) = len - 1" using len(1) by simp
  then have take: "take (nat (int len - 1)) (drop 1 rep) = drop 1 (take len rep)" by (simp add: drop_take)
  have sub: "writes (AddSubstring (drop 1 rep) (int len - 1)) (drop 1 (take len rep))"
    using writes_AddSubstring [of "int len - 1" "drop 1 rep"] len z(2) unfolding take by simp
  have "writes (\<lambda>b. do {
      b \<leftarrow> AddCharacter (rep ! 0) b;
      b \<leftarrow> (if len \<noteq> 1 then do { b \<leftarrow> AddCharacter CHR ''.'' b; AddSubstring (drop 1 rep) (int len - 1) b } else Some b);
      b \<leftarrow> AddCharacter (dts_exponent_character conv) b;
      (e, b) \<leftarrow> (if e < 0 then do {
                   b \<leftarrow> AddCharacter CHR ''-'' b;
                   Some (- e, b)
                 } else if has_flag (dts_flags conv) EMIT_POSITIVE_EXPONENT_SIGN then do {
                   b \<leftarrow> AddCharacter CHR ''+'' b;
                   Some (e, b)
                 } else Some (e, b));
      if e = 0 then AddCharacter CHR ''0'' b
      else do {
        check (e < 10000);
        (buffer, first_char_pos) \<leftarrow> exponent_digits e;
        AddSubstring (drop first_char_pos buffer) (5 - int first_char_pos) b
      } })
      ([rep ! 0] @ (if len \<noteq> 1 then [CHR ''.''] @ drop 1 (take len rep) else []) @ [dts_exponent_character conv] @ t)"
    by (intro writes_bind writes_if writes_AddCharacter writes_nothing sub t(1) z(1) ec) simp
  moreover have "check (len \<noteq> 0) = Some ()" "vget rep 0 = Some (rep ! 0)" using len by (auto simp: check_def vget_def)
  ultimately have "writes (CreateExponentialRepresentation conv rep len e)
      ([rep ! 0] @ (if len \<noteq> 1 then [CHR ''.''] @ drop 1 (take len rep) else []) @ [dts_exponent_character conv] @ t)"
    unfolding CreateExponentialRepresentation_def [abs_def] by (simp only: Option.bind.simps)
  then show thesis
    using t(2,3) by (intro that [of t]) (simp_all only: append_Cons append_Nil)
qed

lemma exponential_text_val:
  assumes len: "0 < len" "len \<le> length rep" and dec: "list_all is_decimal (take len rep)"
    and ec: "\<not> is_decimal ec" "ec \<noteq> CHR ''.''"
  shows "exp_val ec (rep ! 0 # (if len \<noteq> 1 then CHR ''.'' # drop 1 (take len rep) else []) @ ec # t) =
    real (text_digits (take len rep)) * 10 powi (signed_val t + 1 - int len)"
proof -
  obtain c u where cu: "take len rep = c # u" using len by (cases "take len rep") auto
  have l: "length u = len - 1" using cu len by (metis diff_Suc_1 length_Cons length_take min.absorb2)
  have c: "rep ! 0 = c" using cu len by (metis nth_Cons_0 nth_take)
  let ?m = "c # (if len \<noteq> 1 then CHR ''.'' # u else [])"
  have "\<forall>x \<in> set ?m. x \<noteq> ec" using dec ec unfolding cu by (auto simp: list_all_iff)
  then have tw: "takeWhile (\<lambda>x. x \<noteq> ec) (?m @ ec # t) = ?m" "dropWhile (\<lambda>x. x \<noteq> ec) (?m @ ec # t) = ec # t"
    by (simp_all only: takeWhile_append2 dropWhile_append2 takeWhile.simps dropWhile.simps not_not simp_thms if_False
        append_Nil2)
  have "point_val ?m = real (text_digits (c # u)) / 10 ^ length u"
  proof (cases "len = 1")
    case True
    then have "u = []" using l by simp
    with True point_val_parts(2) [of "[c]"] dec cu show ?thesis by simp
  next
    case False
    with point_val_parts(1) [of "[c]" u] dec cu show ?thesis by simp
  qed
  moreover have "(10 :: real) powi (signed_val t + 1 - int len) = 10 powi signed_val t / 10 ^ length u"
  proof -
    have "signed_val t + 1 - int len = signed_val t - int (length u)" using l len(1) by simp
    then have "(10 :: real) powi (signed_val t + 1 - int len) = 10 powi (signed_val t - int (length u))" by (simp only:)
    then show ?thesis by (simp add: power_int_diff)
  qed
  moreover have "exp_val ec (?m @ ec # t) = point_val ?m * 10 powi signed_val t"
    unfolding exp_val_def tw by simp
  moreover have "rep ! 0 # (if len \<noteq> 1 then CHR ''.'' # drop 1 (take len rep) else []) @ ec # t = ?m @ ec # t"
    unfolding c cu by simp
  ultimately show ?thesis unfolding cu by (simp only:) simp
qed

section \<open>Properties\<close>

text \<open>
  C29: \<open>CreateDecimalRepresentation\<close> appends to the builder a text whose value is the number of the digits and the decimal
  point that it gets, padded with zeros to the digits asked for; no assertion fails when the buffer has room.
\<close>

theorem decimal_representation_denotes:
  assumes "len \<le> length rep" "list_all is_decimal (take len rep)" "0 \<le> after" "int len \<le> after + point" "conv_ok conv"
  shows "\<exists>t. writes (CreateDecimalRepresentation conv rep (int len) point after) t \<and>
    point_val t = real (text_digits (take len rep)) * 10 powi (point - int len)"
  using writes_decimal [OF assms(1,2,4)] decimal_text_val [OF assms(2,3) _ assms(5), of point] assms(1,4)
  by (auto simp: min_absorb2)

theorem decimal_representation_denotes_witness:
  "\<exists>t. writes (CreateDecimalRepresentation \<lparr>dts_flags = 0, dts_infinity_symbol = None, dts_nan_symbol = None,
      dts_exponent_character = CHR ''e'', dts_decimal_in_shortest_low = -6, dts_decimal_in_shortest_high = 21,
      dts_max_leading_padding = 6, dts_max_trailing_padding = 0\<rparr> ''314'' (int 3) 1 4) t \<and>
    point_val t = real (text_digits (take 3 ''314'')) * 10 powi (1 - int 3)"
  by (rule decimal_representation_denotes) (simp_all add: conv_ok_def has_flag_def is_decimal_def)

text \<open>
  C30: \<open>CreateExponentialRepresentation\<close> appends a text in scientific notation, with the exponent character and sign of
  the converter, whose value is the number of the digits and the exponent that it gets.
\<close>

theorem exponential_representation_denotes:
  assumes "0 < len" "len \<le> length rep" "list_all is_decimal (take len rep)" "\<bar>e\<bar> < 10000"
    and "dts_exponent_character conv = ec" "\<not> is_decimal ec" "ec \<noteq> CHR ''.''" "ec \<noteq> CHR 0x00"
  shows "\<exists>t. writes (CreateExponentialRepresentation conv rep len e) t \<and>
    exp_val ec t = real (text_digits (take len rep)) * 10 powi (e + 1 - int len)"
proof (rule writes_exponential [OF assms(1-4), of conv], goal_cases)
  case (2 t)
  then show ?case
    using exponential_text_val [OF assms(1-3,6,7), of t] assms(5) by auto
qed (use assms(5,8) in simp)

theorem exponential_representation_denotes_witness:
  "\<exists>t. writes (CreateExponentialRepresentation \<lparr>dts_flags = 1, dts_infinity_symbol = None, dts_nan_symbol = None,
      dts_exponent_character = CHR ''e'', dts_decimal_in_shortest_low = -6, dts_decimal_in_shortest_high = 21,
      dts_max_leading_padding = 6, dts_max_trailing_padding = 0\<rparr> ''314'' 3 (-20)) t \<and>
    exp_val CHR ''e'' t = real (text_digits (take 3 ''314'')) * 10 powi (-20 + 1 - int 3)"
  by (rule exponential_representation_denotes) (simp_all add: is_decimal_def)

end
