(* ===== verification/Round_Trip.thy ===== *)
theory Round_Trip
  imports Parse_Properties Formatting
begin

text \<open>
  Printing and parsing together: what \<open>ToShortest\<close> writes is a decimal literal, and \<open>StringToDouble\<close> reads it as the
  number that was printed.
\<close>

section \<open>The position of the point\<close>

text \<open>For any format in which the smallest and the largest decimals are nearest to zero and to infinity.\<close>

lemma shortest_nearest:
  assumes n: "0 < n" "n < inf_rank" and sd: "shortest_digits (even n) (midpoint p emin (n - 1)) x (midpoint p emin n) ds point"
    and tiny: "\<And>y. 0 \<le> y \<Longrightarrow> y \<le> 10 powi (-400) \<Longrightarrow> nearest p emin inf_rank y 0"
    and huge: "\<And>y. 10 powi 309 \<le> y \<Longrightarrow> nearest p emin inf_rank y inf_rank"
  shows "list_all is_decimal ds \<and> -400 < point \<and> point \<le> 310 \<and> nearest p emin inf_rank (value_of ds (point - int (length ds))) n"
proof -
  let ?v = "value_of ds (point - int (length ds))"
  have ds: "ds \<noteq> []" "hd ds \<noteq> CHR ''0''" "list_all is_decimal ds" using sd by (simp_all add: shortest_digits_def)
  have "enclosed (even n) (midpoint p emin (n - 1)) (midpoint p emin n) ?v" using sd by (simp add: shortest_digits_def)
  then have near: "nearest p emin inf_rank ?v n" using enclosed_nearest [OF n] by blast
  have e: "int (length ds) - 1 + (point - int (length ds)) = point - 1" "int (length ds) + (point - int (length ds)) = point" by simp_all
  note vb = value_of_bounds [OF ds, of "point - int (length ds)", unfolded e]
  have "-400 < point"
  proof (rule ccontr)
    assume "\<not> -400 < point"
    then have "(10 :: real) powi point \<le> 10 powi (-400)" by (intro power_int_increasing) simp_all
    then have "nearest p emin inf_rank ?v 0" using vb(2) by (intro tiny) (simp_all add: value_of_def)
    with nearest_unique [OF near this] n(1) show False by simp
  qed
  moreover have "point \<le> 310"
  proof (rule ccontr)
    assume "\<not> point \<le> 310"
    then have "(10 :: real) powi 309 \<le> 10 powi (point - 1)" by (intro power_int_increasing) simp_all
    then have "nearest p emin inf_rank ?v inf_rank" using vb(1) by (intro huge) simp
    with nearest_unique [OF near this] n(2) show False by simp
  qed
  ultimately show ?thesis using ds(3) near by blast
qed

lemma D_shortest_nearest:
  assumes u: "unat u < D_inf_rank" and d: "D_shortest u ds point"
  shows "list_all is_decimal ds \<and> -400 < point \<and> point \<le> 310 \<and> D_nearest (value_of ds (point - int (length ds))) (unat u)"
proof (cases "u = 0")
  case True
  then have "ds = ''0''" "point = 1" using d by (simp_all add: D_shortest_def)
  moreover have "D_nearest 0 0" using nearest_zero [of 0] by simp
  ultimately show ?thesis using True by (simp add: value_of_def)
next
  case False
  then have u0: "0 < unat u" by (simp add: unat_gt_0)
  from False d have "shortest_digits (even (unat u)) (midpoint 52 (-1074) (unat u - 1)) (D_val (unat u)) (midpoint 52 (-1074) (unat u)) ds point"
    by (simp add: D_shortest_def)
  then show ?thesis by (rule shortest_nearest [OF u0 u]) (rule tiny_nearest_zero nearest_infinity; assumption)+
qed

section \<open>The texts are literals\<close>

lemma decimal_literal:
  assumes ds: "list_all is_decimal ds" "ds \<noteq> []" and room: "0 \<le> after" "int (length ds) \<le> after + point" and ok: "conv_ok conv"
    and t: "is_sign t"
  defines "body \<equiv> decimal_body ds point after @ decimal_tail conv after"
  obtains l where "literal_ok l" "lit_sign l = t" "literal_text l = t @ body" "literal_val l = value_of ds (point - int (length ds))"
proof -
  show thesis
  proof (rule decimal_text_split [OF ds(1) room ok], goal_cases)
    case (1 i f k)
    have val: "value_of (i @ f) (- int (length f)) = value_of ds (point - int (length ds))"
      using scaled_powi [OF 1(5), of "text_digits ds"] 1(4) by (simp add: value_of_def power_int_minus divide_inverse)
    have "i @ f \<noteq> []"
    proof
      assume "i @ f = []"
      then have z: "body = [] \<or> body = ''.''" using 1(1) unfolding body_def by auto
      show False using z ds(1,2) unfolding body_def decimal_body_def by (auto split: if_splits simp: is_decimal_def Cons_eq_append_conv append_eq_Cons_conv)
    qed
    from 1(1) show ?case
    proof
      assume "decimal_body ds point after @ decimal_tail conv after = i @ CHR ''.'' # f"
      then show ?thesis using 1(2,3) val \<open>i @ f \<noteq> []\<close> t unfolding body_def
        by (intro that [of "\<lparr>lit_sign = t, lit_int = i, lit_frac = Some f, lit_exp = None\<rparr>"])
          (simp_all add: literal_ok_def literal_text_def literal_val_def frac_digits_def frac_text_def exp_text_def exp_value_def body_def)
    next
      assume "decimal_body ds point after @ decimal_tail conv after = i \<and> f = []"
      then show ?thesis using 1(2,3) val \<open>i @ f \<noteq> []\<close> t unfolding body_def
        by (intro that [of "\<lparr>lit_sign = t, lit_int = i, lit_frac = None, lit_exp = None\<rparr>"])
          (simp_all add: literal_ok_def literal_text_def literal_val_def frac_digits_def frac_text_def exp_text_def exp_value_def body_def)
    qed
  qed
qed

lemma exponential_literal:
  assumes len: "0 < len" "len \<le> length rep" and dec: "list_all is_decimal (take len rep)" and ec: "ec = CHR ''e'' \<or> ec = CHR ''E''"
    and x: "signed_digits x" and t: "is_sign t"
  obtains l where "literal_ok l" "lit_sign l = t"
    "literal_text l = t @ rep ! 0 # (if len \<noteq> 1 then CHR ''.'' # drop 1 (take len rep) else []) @ ec # x"
    "literal_val l = value_of (take len rep) (signed_val x + 1 - int len)" "length (lit_int l) = 1" "length (frac_digits l) = len - 1"
proof -
  obtain c u where cu: "take len rep = c # u" using len by (cases "take len rep") auto
  have l: "length u = len - 1" using cu len by (metis diff_Suc_1 length_Cons length_take min.absorb2)
  have c: "rep ! 0 = c" using cu len by (metis nth_Cons_0 nth_take)
  have cd: "is_decimal c" "list_all is_decimal u" using dec unfolding cu by simp_all
  obtain v where v: "list_all is_decimal v" "v \<noteq> []" "x = v \<or> x = CHR ''+'' # v \<or> x = CHR ''-'' # v"
    using x by (auto simp: signed_digits_def)
  define g where "g = (if x = v then [] else [hd x])"
  have g: "is_sign g" "x = g @ v" using v(3) by (auto simp: g_def is_sign_def)
  have hv: "hd v \<noteq> CHR ''+''" "hd v \<noteq> CHR ''-''" using v(1,2) by (cases v; auto)+
  have sv: "signed_val x = (if g = ''-'' then - int (text_digits v) else int (text_digits v))"
    using g(1) hv v(2) unfolding g(2) by (cases v) (auto simp: signed_val_def is_sign_def)
  define f where "f = (if len \<noteq> 1 then Some u else None)"
  have e: "signed_val x + 1 - int len = signed_val x - int (length u)" using l len(1) by simp
  show thesis
  proof (rule that [of "\<lparr>lit_sign = t, lit_int = [c], lit_frac = f, lit_exp = Some (ec, g, v)\<rparr>"], goal_cases)
    case 4
    have "len = 1 \<Longrightarrow> u = []" using l by simp
    then show ?case unfolding e cu
      by (auto simp: literal_val_def frac_digits_def exp_value_def f_def sv)
  qed (use cd v g ec t l in \<open>auto simp: literal_ok_def literal_text_def frac_text_def exp_text_def frac_digits_def f_def c cu\<close>)
qed

section \<open>What ToShortest writes\<close>

definition sign_text :: "double_to_string_converter \<Rightarrow> bool \<Rightarrow> double \<Rightarrow> string" where
  "sign_text conv sign value = (if sign \<and> (\<not> double_eq value 0 \<or> \<not> has_flag (dts_flags conv) UNIQUE_ZERO) then ''-'' else [])"

lemma writes_add_sign: "writes (add_sign conv sign value) (sign_text conv sign value)"
  unfolding add_sign_def [abs_def] sign_text_def Let_def by (intro writes_if writes_AddCharacter writes_nothing) simp

lemma is_sign_text: "is_sign (sign_text conv sign value)"
  by (simp add: sign_text_def is_sign_def)

lemma writes_after_sign:
  assumes w: "writes f body" and room: "length (sign_text conv sign v @ body) < length buffer"
  obtains b0 b where "add_sign conv sign v (new_builder buffer) = Some b0" "f b0 = Some b" "holds b (length buffer) (sign_text conv sign v @ body)"
proof -
  have "length ([] :: string) + length (sign_text conv sign v @ body) < length buffer" using room by simp
  from returns_ex [OF writesD [OF writes_bind [OF writes_add_sign w] holds_new this]] show thesis
    by (auto simp: bind_eq_Some_conv intro: that)
qed

definition exponent_char_ok :: "double_to_string_converter \<Rightarrow> bool" where
  "exponent_char_ok conv \<longleftrightarrow> dts_exponent_character conv = CHR ''e'' \<or> dts_exponent_character conv = CHR ''E''"

lemma decimal_text_length:
  assumes "length ds \<le> 17" "-400 < point" "point \<le> 310"
  shows "length (decimal_body ds point (max 0 (int (length ds) - point)) @ decimal_tail conv (max 0 (int (length ds) - point))) < 450"
  using assms by (auto simp: decimal_body_def decimal_tail_def)

text \<open>The body that follows the sign, in both formats, is a literal of the value of the digits.\<close>

lemma writes_shortest_body:
  assumes len: "0 < l" "l \<le> 17" "l \<le> length rep" and dec: "list_all is_decimal (take l rep)" and p: "-400 < point" "point \<le> 310"
    and conv: "conv_ok conv" "exponent_char_ok conv" and t: "is_sign t"
  obtains body lit where
    "writes (\<lambda>b. if dts_decimal_in_shortest_low conv \<le> point - 1 \<and> point - 1 < dts_decimal_in_shortest_high conv
        then CreateDecimalRepresentation conv rep (int l) point (max 0 (int l - point)) b
        else CreateExponentialRepresentation conv rep l (point - 1) b) body"
    "length body < 450" "literal_ok lit" "lit_sign lit = t" "literal_text lit = t @ body"
    "literal_val lit = value_of (take l rep) (point - int l)"
proof -
  have n: "length (take l rep) = l" using len(3) by simp
  show thesis
  proof (cases "dts_decimal_in_shortest_low conv \<le> point - 1 \<and> point - 1 < dts_decimal_in_shortest_high conv")
    case True
    let ?after = "max 0 (int l - point)"
    have room: "0 \<le> ?after" "int l \<le> ?after + point" by simp_all
    note w = writes_decimal [OF len(3) dec room(2), of conv]
    have ne: "take l rep \<noteq> []" "length (take l rep) \<le> 17" using len by auto
    note small = decimal_text_length [OF ne(2) p, of conv, unfolded n]
    obtain lit where lit: "literal_ok lit" "lit_sign lit = t"
      "literal_text lit = t @ decimal_body (take l rep) point ?after @ decimal_tail conv ?after"
      "literal_val lit = value_of (take l rep) (point - int l)"
      using decimal_literal [OF dec ne(1) room(1) _ conv(1) t, of point] room(2) unfolding n by blast
    show thesis by (rule that [OF _ small lit]) (use True w in simp)
  next
    case False
    let ?ec = "dts_exponent_character conv"
    have e: "\<bar>point - 1\<bar> < 10000" "?ec \<noteq> CHR 0x00" "?ec = CHR ''e'' \<or> ?ec = CHR ''E''" using p conv(2) by (auto simp: exponent_char_ok_def)
    from writes_exponential [OF len(1,3) dec e(1,2)] obtain x where
      w: "writes (CreateExponentialRepresentation conv rep l (point - 1))
        (rep ! 0 # (if l \<noteq> 1 then CHR ''.'' # drop 1 (take l rep) else []) @ ?ec # x)" (is "writes _ ?body")
      and x: "signed_digits x" "signed_val x = point - 1" .
    from exponential_literal [OF len(1,3) dec e(3) x(1) t] obtain lit where lit: "literal_ok lit" "lit_sign lit = t"
      "literal_text lit = t @ ?body" "literal_val lit = value_of (take l rep) (point - int l)" unfolding x(2) by auto
    have "length x \<le> 6" using x(1) by (auto simp: signed_digits_def)
    then have small: "length ?body < 450" using len n by auto
    show thesis by (rule that [OF _ small lit]) (use False w in auto)
  qed
qed

text \<open>
  A shortest mode whose digits identify the number: the text that \<open>ToShortestIeeeNumber\<close> writes in it is a literal that denotes a number
  near to the one printed.
\<close>

locale shortest_text = shortest_mode +
  fixes near :: "real \<Rightarrow> double \<Rightarrow> bool"
  assumes text_law: "handled u \<Longrightarrow> shortest u ds point \<Longrightarrow>
    list_all is_decimal ds \<and> -400 < point \<and> point \<le> 310 \<and> near (value_of ds (point - int (length ds))) u"
begin

lemma writes_literal:
  assumes u: "handled u" and conv: "conv_ok conv" "exponent_char_ok conv" and room: "500 \<le> length buffer"
  obtains b lit where "ToShortestIeeeNumber conv (with_sign neg u) mode (new_builder buffer) = Some (True, b)"
    "holds b (length buffer) (literal_text lit)" "length (literal_text lit) < 500"
    "literal_ok lit" "lit_sign lit = sign_text conv neg (with_sign neg u)" "near (literal_val lit) u"
proof -
  let ?v = "with_sign neg u"
  have "18 \<le> length (replicate (kBase10MaximalLength + 1) CHR 0x00)" by (simp add: kBase10MaximalLength_def)
  from returns_ex [OF to_ascii [OF u this, of neg 0]] obtain rep l point where
    a: "DoubleToAscii ?v mode 0 (replicate (kBase10MaximalLength + 1) CHR 0x00) = Some (neg, rep, l, point)"
      "length rep = 18" "0 < l" "l \<le> 17" "shortest u (take l rep) point" by (auto simp: kBase10MaximalLength_def)
  have l: "l \<le> length rep" "length (take l rep) = l" using a(2,4) by simp_all
  have f: "list_all is_decimal (take l rep)" "-400 < point" "point \<le> 310" "near (value_of (take l rep) (point - int l)) u"
    using text_law [OF u a(5)] unfolding l(2) by blast+
  let ?t = "sign_text conv neg ?v"
  from writes_shortest_body [OF a(3,4) l(1) f(1-3) conv is_sign_text [of conv neg ?v]] obtain body lit where
    w: "writes (\<lambda>b. if dts_decimal_in_shortest_low conv \<le> point - 1 \<and> point - 1 < dts_decimal_in_shortest_high conv
        then CreateDecimalRepresentation conv rep (int l) point (max 0 (int l - point)) b
        else CreateExponentialRepresentation conv rep l (point - 1) b) body"
    and lit: "length body < 450" "literal_ok lit" "lit_sign lit = ?t" "literal_text lit = ?t @ body"
      "literal_val lit = value_of (take l rep) (point - int l)" .
  have small: "length (?t @ body) < 500" using lit(1) by (simp add: sign_text_def)
  then have "length (?t @ body) < length buffer" using room by simp
  from writes_after_sign [OF w this] obtain b0 b where b0: "add_sign conv neg ?v (new_builder buffer) = Some b0"
    and b: "(if dts_decimal_in_shortest_low conv \<le> point - 1 \<and> point - 1 < dts_decimal_in_shortest_high conv
        then CreateDecimalRepresentation conv rep (int l) point (max 0 (int l - point)) b0
        else CreateExponentialRepresentation conv rep l (point - 1) b0) = Some b" "holds b (length buffer) (?t @ body)" .
  have "ToShortestIeeeNumber conv ?v mode (new_builder buffer) = Some (True, b)"
    using a(1) b(1) with_sign_facts(2) [OF handled_law [OF u]] b0 mode_law by (auto simp: ToShortestIeeeNumber_def check_def Let_def)
  then show thesis using b(2) lit(2,3) small f(4) [folded lit(5)] unfolding lit(4) [symmetric] by (intro that)
qed

text \<open>After \<open>Finalize\<close> the C string in the buffer is the literal.\<close>

lemma finalized_literal:
  assumes u: "handled u" and conv: "conv_ok conv" "exponent_char_ok conv" and room: "500 \<le> length buffer"
  obtains b b' lit where "ToShortestIeeeNumber conv (with_sign neg u) mode (new_builder buffer) = Some (True, b)" "Finalize b = Some b'"
    "take (strlen (sb_buffer b')) (sb_buffer b') = literal_text lit" "strlen (sb_buffer b') = length (literal_text lit)"
    "length (literal_text lit) \<le> 500000000" "literal_ok lit" "lit_sign lit = sign_text conv neg (with_sign neg u)" "near (literal_val lit) u"
proof -
  obtain b lit where b: "ToShortestIeeeNumber conv (with_sign neg u) mode (new_builder buffer) = Some (True, b)"
    "holds b (length buffer) (literal_text lit)" "length (literal_text lit) < 500"
    and lit: "literal_ok lit" "lit_sign lit = sign_text conv neg (with_sign neg u)" "near (literal_val lit) u"
    by (rule writes_literal [OF assms])
  have "length (literal_text lit) < length buffer" using b(3) room by simp
  from returns_ex [OF Finalize_holds [OF b(2) this]] obtain b' where
    f: "Finalize b = Some b'" "take (strlen (sb_buffer b')) (sb_buffer b') = literal_text lit" by blast
  have "strlen (sb_buffer b') \<le> length (sb_buffer b')" by (simp add: strlen_def length_takeWhile_le)
  then have "strlen (sb_buffer b') = length (literal_text lit)" using f(2) [symmetric] by simp
  then show thesis using b(3) by (intro that [OF b(1) f _ _ lit]) simp_all
qed

end

interpretation double_text: shortest_text SHORTEST "\<lambda>u. unat u < D_inf_rank" D_shortest "\<lambda>x u. D_nearest x (unat u)"
  by unfold_locales (rule D_shortest_nearest)

section \<open>Round trip\<close>

definition same_or_zero :: "double_to_string_converter \<Rightarrow> double \<Rightarrow> double" where
  "same_or_zero conv v = (if has_flag (dts_flags conv) UNIQUE_ZERO \<and> double_eq v 0 then 0 else v)"

lemma same_or_zero_sign:
  assumes u: "unat u < D_inf_rank"
  shows "with_sign (sign_text conv neg (with_sign neg u) = ''-'') u = same_or_zero conv (with_sign neg u)"
  using with_sign_facts(3) [OF u] by (auto simp: sign_text_def same_or_zero_def with_sign_def)

text \<open>
  C1: Printing and parsing together. For every double that is not an infinity or NaN, \<open>ToShortest\<close> writes a text into the buffer of a
  builder (500 characters always suffice) that \<open>StringToDouble\<close> reads, to its end, as the very same double, bit for bit. The one
  exception is the one that the flag \<open>UNIQUE_ZERO\<close> asks for: then negative zero is printed, and read back, as zero.
\<close>

theorem to_shortest_string_to_double_round_trip:
  assumes "\<not> D_IsSpecial v" "conv_ok conv" "exponent_char_ok conv" "reads_decimal std" "500 \<le> length buffer"
  shows "\<exists>b b'. ToShortest conv v (new_builder buffer) = Some (True, b) \<and> Finalize b = Some b' \<and>
    StringToDouble std (take (strlen (sb_buffer b')) (sb_buffer b')) = Some (same_or_zero conv v, strlen (sb_buffer b'))"
proof -
  from with_sign_exhaust [OF assms(1)] obtain neg u where v: "v = with_sign neg u" and u: "unat u < D_inf_rank" .
  obtain b b' lit where b: "ToShortest conv v (new_builder buffer) = Some (True, b)" "Finalize b = Some b'"
    "take (strlen (sb_buffer b')) (sb_buffer b') = literal_text lit" "strlen (sb_buffer b') = length (literal_text lit)"
    "length (literal_text lit) \<le> 500000000" and lit: "literal_ok lit" "lit_sign lit = sign_text conv neg v" "D_nearest (literal_val lit) (unat u)"
    unfolding v ToShortest_def by (rule double_text.finalized_literal [OF u assms(2,3,5)])
  from StringToDouble_literal [OF lit(1) assms(4) b(5)] obtain d where
    d: "StringToDouble std (literal_text lit) = Some (with_sign (lit_sign lit = ''-'') d, length (literal_text lit))"
      "D_nearest (literal_val lit) (unat d)" .
  have "d = u" using nearest_unique [OF lit(3) d(2)] by (simp add: word_unat_eq_iff)
  then show ?thesis using b d(1) same_or_zero_sign [OF u, of conv neg] lit(2) v by auto
qed

theorem to_shortest_string_to_double_round_trip_witness:
  "\<exists>conv b b'. EcmaScriptConverter = Some conv \<and>
    ToShortest conv 0x8000000000000000 (new_builder (replicate 500 CHR ''x'')) = Some (True, b) \<and> Finalize b = Some b' \<and>
    StringToDouble \<lparr>std_flags = 0, std_empty_string_value = 0, std_junk_string_value = D_kNaN,
        std_infinity_symbol = None, std_nan_symbol = None\<rparr> (take (strlen (sb_buffer b')) (sb_buffer b')) = Some (0, strlen (sb_buffer b'))"
proof -
  define conv where "conv = \<lparr>dts_flags = UNIQUE_ZERO OR EMIT_POSITIVE_EXPONENT_SIGN, dts_infinity_symbol = Some ''Infinity'',
    dts_nan_symbol = Some ''NaN'', dts_exponent_character = CHR ''e'', dts_decimal_in_shortest_low = -6, dts_decimal_in_shortest_high = 21,
    dts_max_leading_padding = 6, dts_max_trailing_padding = 0\<rparr>"
  have c: "EcmaScriptConverter = Some conv" "conv_ok conv" "exponent_char_ok conv" "has_flag (dts_flags conv) UNIQUE_ZERO"
    by (simp_all add: EcmaScriptConverter_def DoubleToStringConverter_def conv_def conv_ok_def exponent_char_ok_def has_flag_def check_def
        UNIQUE_ZERO_def EMIT_POSITIVE_EXPONENT_SIGN_def EMIT_TRAILING_DECIMAL_POINT_def EMIT_TRAILING_ZERO_AFTER_POINT_def)
  have z: "\<not> D_IsSpecial 0x8000000000000000" "double_eq 0x8000000000000000 0"
    by (simp_all add: D_IsSpecial_def D_kExponentMask_def double_eq_def D_IsNan_def double_order_def D_Sign_def D_kSignMask_def)
  have s: "same_or_zero conv 0x8000000000000000 = 0" using c(4) z(2) by (simp add: same_or_zero_def)
  show ?thesis
    by (rule exI [of _ conv])
      (use to_shortest_string_to_double_round_trip [OF z(1) c(2,3), of
      "\<lparr>std_flags = 0, std_empty_string_value = 0, std_junk_string_value = D_kNaN, std_infinity_symbol = None, std_nan_symbol = None\<rparr>"
      "replicate 500 CHR ''x''"] c(1)
        in \<open>simp add: s reads_decimal_def symbol_ok_def allows_def ALLOW_OCTALS_def\<close>)
qed

end
