(* ===== verification/Fixed_Text.thy ===== *)
theory Fixed_Text
  imports Fixed_Properties Round_Trip
begin

text \<open>
  \<open>ToFixed\<close> as a whole: the digits of \<open>DoubleToAscii\<close> in the mode \<open>FIXED\<close>, from the fast conversion or from the exact one, and the
  text that is made of them.
\<close>

section \<open>DoubleToAscii\<close>

text \<open>Digits that do not end with a zero do not go behind the position to which the number is rounded.\<close>

lemma last_digit_position:
  assumes ds: "list_all is_decimal ds" "ds \<noteq> []" "last ds \<noteq> CHR ''0''" and v: "value_of ds e = real_of_int z * 10 powi (- r)"
  shows "- r \<le> e"
proof (rule ccontr)
  assume "\<not> - r \<le> e"
  define n where "n = nat (- r - e)"
  have n: "- r = e + int n" "0 < n" using \<open>\<not> - r \<le> e\<close> by (simp_all add: n_def)
  have "real (text_digits ds) = real_of_int z * 10 ^ n" using v unfolding value_of_def n(1) by (simp add: power_int_add)
  then have "real_of_int (int (text_digits ds)) = real_of_int (z * 10 ^ n)" by simp
  then have "int (text_digits ds) = z * 10 ^ n" by (simp only: of_int_eq_iff)
  moreover have "(10 :: int) dvd z * 10 ^ n" using n(2) by (intro dvd_mult dvd_power) simp
  ultimately have "10 dvd text_digits ds" by (metis int_dvd_int_iff of_nat_numeral)
  moreover have "text_digits ds = 10 * text_digits (butlast ds) + char_digit (last ds)"
  proof -
    have "text_digits (butlast ds @ [last ds]) = 10 * text_digits (butlast ds) + char_digit (last ds)" by (simp add: text_digits_append)
    then show ?thesis using ds(2) by simp
  qed
  ultimately have "10 dvd char_digit (last ds)" by presburger
  moreover have dl: "is_decimal (last ds)" using ds(1,2) by (simp add: list_all_iff)
  ultimately have "char_digit (last ds) = 0" using char_digit_le [OF dl] by (auto simp: dvd_def)
  then have "last ds = CHR ''0''" using digit_char_char_digit [OF dl] by (simp add: digit_char_0)
  with ds(3) show False ..
qed

lemma first_digit_position:
  assumes ds: "list_all is_decimal ds" "ds \<noteq> []" "hd ds \<noteq> CHR ''0''" and v: "value_of ds e = x" "x < 10 powi k"
  shows "e + int (length ds) \<le> k"
proof (rule ccontr)
  assume "\<not> e + int (length ds) \<le> k"
  then have "(10 :: real) powi k \<le> 10 powi (int (length ds) - 1 + e)" by (intro power_int_increasing) simp_all
  also have "\<dots> \<le> value_of ds e" by (rule value_of_bounds(1) [OF ds(2,3,1)])
  finally show False using v by simp
qed

lemma rounded_at_less: "v < 10 powi n \<Longrightarrow> 0 \<le> n \<Longrightarrow> 0 \<le> r \<Longrightarrow> rounded_at v r < 10 powi (n + 1)"
proof -
  assume v: "v < 10 powi n" and n: "0 \<le> n" and r: "0 \<le> r"
  have one: "(1 :: real) \<le> 10 powi n" using power_int_increasing [of 0 n "10 :: real"] n by simp
  have p: "(10 :: real) powi (- r) \<le> 1" using power_int_increasing [of "- r" 0 "10 :: real"] r by simp
  have "real_of_int \<lfloor>v * 10 powi r + 1 / 2\<rfloor> \<le> v * 10 powi r + 1 / 2" by (rule of_int_floor_le)
  then have "rounded_at v r \<le> (v * 10 powi r + 1 / 2) * 10 powi (- r)" unfolding rounded_at_def by (intro mult_right_mono) simp_all
  also have "\<dots> = v + 1 / 2 * 10 powi (- r)" by (simp add: distrib_right power_int_minus)
  also have "\<dots> < 10 powi n + 1" using v p by simp
  also have "\<dots> \<le> 10 * 10 powi n" using one by simp
  also have "\<dots> = 10 powi (n + 1)" by (simp add: power_int_add)
  finally show ?thesis .
qed

lemma DoubleToAscii_fixed:
  assumes u: "unat u < D_inf_rank" "D_val (unat u) < 10 powi n" and n: "0 \<le> n" and r: "0 \<le> r" and vec: "41 \<le> length vec" "n + r < int (length vec)"
    and good: "\<not> shifts_by_minus_one u r"
  shows "returns (DoubleToAscii (with_sign neg u) FIXED r vec) (\<lambda>(sign, buf, l, point). sign = neg \<and> length buf = length vec \<and> l < length vec \<and>
    buf ! l = CHR 0x00 \<and> list_all is_decimal (take l buf) \<and> int l \<le> point + r \<and> (l = 0 \<longrightarrow> point = - r) \<and> point \<le> n + 1 \<and>
    value_of (take l buf) (point - int l) = rounded_at (D_val (unat u)) r)"
proof -
  note sf = with_sign_facts [OF u(1)]
  have abs: "(if D_Sign (with_sign neg u) < 0 then (True, double_minus (with_sign neg u)) else (False, with_sign neg u)) = (neg, u)"
    unfolding sf(1) by (cases neg) (simp_all add: with_sign_def)
  note run = DoubleToAscii_def [of "with_sign neg u" FIXED r vec, unfolded abs Let_def prod.case]
  have eq0: "double_eq u 0 \<longleftrightarrow> u = 0" using with_sign_facts(3) [OF u(1), of False] by (simp add: with_sign_def)
  show ?thesis
  proof (cases "u = 0")
    case True
    have "2 \<le> length vec" using vec by simp
    then obtain a b t where "vec = a # b # t" by (metis One_nat_def Suc_le_length_iff numeral_2_eq_2)
    moreover have "rounded_at 0 r = 0" using rounded_at_integer [OF r, of 0] by simp
    ultimately show ?thesis using True sf(2) eq0 r n unfolding run by (simp add: wp value_of_def)
  next
    case False
    then have u0: "0 < unat u" by (simp add: unat_gt_0)
    from returns_ex [OF FastFixedDtoa_correct [OF u(1) r vec(1) good]] obtain ok buf l point where
      f: "FastFixedDtoa u r vec = Some (ok, buf, l, point)" "length buf = length vec"
        "ok \<longrightarrow> l < length vec \<and> list_all is_decimal (take l buf) \<and> buf ! l = CHR 0x00 \<and>
          (0 < l \<longrightarrow> buf ! 0 \<noteq> CHR ''0'' \<and> buf ! (l - 1) \<noteq> CHR ''0'') \<and> (l = 0 \<longrightarrow> point = - r) \<and>
          value_of (take l buf) (point - int l) = rounded_at (D_val (unat u)) r" by auto
    show ?thesis
    proof (cases ok)
      case True
      have "int l \<le> point + r \<and> point \<le> n + 1"
      proof (cases "l = 0")
        case l0: False
        then have ne: "take l buf \<noteq> []" using f(2,3) True by auto
        have "last (take l buf) = buf ! (l - 1)" unfolding last_conv_nth [OF ne] using f(2,3) True l0 by simp
        then have "last (take l buf) \<noteq> CHR ''0''" using f(3) True l0 by simp
        note last = last_digit_position [OF _ ne this, of "point - int l" _ r]
        have "hd (take l buf) \<noteq> CHR ''0''" using f(3) True l0 ne by (simp add: hd_conv_nth)
        note first = first_digit_position [OF _ ne this, of "point - int l"]
        have len: "length (take l buf) = l" using f(2,3) True by simp
        from last first [OF _ _ rounded_at_less [OF u(2) n r]] f(3) True show ?thesis unfolding len rounded_at_def by fastforce
      qed (use f(3) True n r in simp)
      then show ?thesis using True False sf(2) eq0 f r unfolding run by (auto simp: wp fast_conversion_def)
    next
      case slow: False
      have len: "1 < int (length buf)" "n + r < int (length buf)" using f(2) vec by simp_all
      from returns_ex [OF BignumDtoa_fixed [OF u0 u r len]] obtain buf' l' point' where
        b: "BignumDtoa u BIGNUM_DTOA_FIXED r buf = Some (buf', l', point')" "length buf' = length buf" "l' < length buf"
          "list_all is_decimal (take l' buf')" "l' = 0 \<longrightarrow> point' = - r" "int l' \<le> point' + r" "0 < l' \<longrightarrow> point' \<le> n + 1"
          "value_of (take l' buf') (point' - int l') = rounded_at (D_val (unat u)) r" unfolding rounded_at_def by auto
      have "point' \<le> n + 1" using b(5,7) n r by (cases "l' = 0") auto
      then show ?thesis using slow False sf(2) eq0 f(1,2) b r unfolding run by (simp add: wp fast_conversion_def)
    qed
  qed
qed

section \<open>The limit of ToFixed\<close>

lemma double_order_with_sign:
  assumes u: "unat u < D_inf_rank"
  shows "double_order (with_sign neg u) = (if neg then - int (unat u) else int (unat u))" "\<not> D_IsNan (with_sign neg u)"
proof -
  have "unat u < 2 ^ 63" using u by simp
  note abs = D_abs_rank [OF this]
  have "D_Sign (with_sign neg u) = (if neg then -1 else 1)"
    using with_sign_facts(1) [OF u, of neg] by (auto simp: D_Sign_def split: if_splits)
  then show "double_order (with_sign neg u) = (if neg then - int (unat u) else int (unat u))"
    using abs by (simp add: double_order_def with_sign_def sign_bit_fields)
  show "\<not> D_IsNan (with_sign neg u)" using with_sign_facts(2) [OF u, of neg] by (simp add: D_IsSpecial_def D_IsNan_def)
qed

lemma kFirstNonFixed_nearest: "D_nearest (10 ^ 60) (unat kFirstNonFixed)"
  using round_double_nearest [of 1 "10 ^ 60"] by (simp add: kFirstNonFixed_def)

lemma kFirstNonFixed_rank: "unat kFirstNonFixed < D_inf_rank" "0 < unat kFirstNonFixed" "unat u < unat kFirstNonFixed \<Longrightarrow> D_val (unat u) < 10 powi 60"
proof -
  note near = kFirstNonFixed_nearest
  have big: "10 ^ 60 \<le> D_val (2046 * 2 ^ 52)"
  proof -
    have "(10 :: real) ^ 60 \<le> (2 ^ 4) ^ 60" by (intro power_mono) simp_all
    also have "\<dots> = 2 ^ (4 * 60)" by (rule power_mult [symmetric])
    also have "\<dots> \<le> 2 ^ (52 + 971)" by (rule power_increasing) simp_all
    also have "\<dots> = 2 ^ 52 * 2 powi 971" by (simp only: power_add power_int_numeral)
    also have "\<dots> = D_val (2046 * 2 ^ 52)" by (simp add: rank_val_def rank_sig_def rank_exp_def)
    finally show ?thesis .
  qed
  show "0 < unat kFirstNonFixed"
  proof (rule gr0I)
    assume "unat kFirstNonFixed = 0"
    then have "D_nearest (10 ^ 60) 0" using near by simp
    from D_nearest_bounds(2) [OF this] have "(10 :: real) ^ 60 < D_val (Suc 0)" by simp
    also have "D_val (Suc 0) = 2 powi (-1074)" by (simp add: rank_val_def rank_sig_def rank_exp_def)
    also have "\<dots> \<le> 2 powi 0" by (rule power_int_increasing) simp_all
    finally show False by simp
  qed
  note lo = D_nearest_bounds(1) [OF near this]
  show "unat kFirstNonFixed < D_inf_rank"
  proof (rule ccontr)
    assume "\<not> unat kFirstNonFixed < D_inf_rank"
    then have "2046 * 2 ^ 52 \<le> unat kFirstNonFixed - 1" by simp
    from D_val_le [OF this] big lo show False by linarith
  qed
  assume "unat u < unat kFirstNonFixed"
  then have "unat u \<le> unat kFirstNonFixed - 1" by simp
  from D_val_le [OF this] lo show "D_val (unat u) < 10 powi 60" by (simp only: power_int_numeral)
qed

lemma fixed_limit:
  assumes u: "unat u < D_inf_rank"
  shows "double_le kFirstNonFixed (with_sign neg u) \<or> double_le (with_sign neg u) (double_minus kFirstNonFixed) \<longleftrightarrow> unat kFirstNonFixed \<le> unat u"
proof -
  note k = double_order_with_sign [OF kFirstNonFixed_rank(1)]
  have "double_order kFirstNonFixed = int (unat kFirstNonFixed)" "\<not> D_IsNan kFirstNonFixed"
    "double_order (double_minus kFirstNonFixed) = - int (unat kFirstNonFixed)" "\<not> D_IsNan (double_minus kFirstNonFixed)"
    using k [of False] k [of True] by (simp_all add: with_sign_def)
  then show ?thesis using double_order_with_sign [OF u, of neg] kFirstNonFixed_rank(2) by (auto simp: double_le_def)
qed

section \<open>The text\<close>

lemma decimal_frac_length:
  assumes "list_all is_decimal ds" "0 < after" "int (length ds) \<le> after + point"
  shows "length (frac_part (decimal_body ds point after @ decimal_tail conv after)) = nat after"
proof -
  have t: "decimal_tail conv after = []" using assms(2) by (simp add: decimal_tail_def)
  have z: "list_all is_decimal (replicate n CHR ''0'')" for n by (induction n) simp_all
  consider (neg) "point \<le> 0" | (big) "0 < point" "point \<ge> int (length ds)" | (mid) "0 < point" "point < int (length ds)" by linarith
  then show ?thesis
  proof cases
    case neg
    then have "decimal_body ds point after = ''0'' @ CHR ''.'' # replicate (nat (- point)) CHR ''0'' @ ds @
          replicate (nat (after - (- point) - int (length ds))) CHR ''0''" using assms(2) by (simp add: decimal_body_def)
    moreover have "list_all is_decimal ''0''" by simp
    ultimately have "frac_part (decimal_body ds point after) = replicate (nat (- point)) CHR ''0'' @ ds @
          replicate (nat (after - (- point) - int (length ds))) CHR ''0''" by (simp only: parts_point(2))
    then show ?thesis unfolding t append_Nil2 using neg assms(3) by simp
  next
    case big
    then have "decimal_body ds point after = (ds @ replicate (nat (point - int (length ds))) CHR ''0'') @ CHR ''.'' # replicate (nat after) CHR ''0''"
      using assms(2) by (simp add: decimal_body_def)
    moreover have "list_all is_decimal (ds @ replicate (nat (point - int (length ds))) CHR ''0'')" using assms(1) z by simp
    ultimately show ?thesis unfolding t append_Nil2 by (simp only: parts_point(2) length_replicate)
  next
    case mid
    then have "decimal_body ds point after = take (nat point) ds @ CHR ''.'' # drop (nat point) ds @
          replicate (nat (after - (int (length ds) - point))) CHR ''0''" by (simp add: decimal_body_def)
    moreover have "list_all is_decimal (take (nat point) ds)" using assms(1) by (auto simp: list_all_iff dest: in_set_takeD)
    ultimately have "frac_part (decimal_body ds point after) = drop (nat point) ds @ replicate (nat (after - (int (length ds) - point))) CHR ''0''"
      by (simp only: parts_point(2))
    then show ?thesis unfolding t append_Nil2 using mid assms(3) by simp
  qed
qed

lemma decimal_length:
  assumes "int (length ds) \<le> after + point" "point \<le> 61" "0 \<le> after" "after \<le> 60"
  shows "length (decimal_body ds point after @ decimal_tail conv after) < 125"
  using assms by (auto simp: decimal_body_def decimal_tail_def)

lemma ToFixed_undefined:
  assumes u: "unat u < unat kFirstNonFixed" and r: "0 \<le> r" "r \<le> 60" and sh: "shifts_by_minus_one u r"
  shows "ToFixed conv (with_sign neg u) r builder = None"
proof -
  let ?v = "with_sign neg u" and ?rep = "replicate (kMaxFixedDigitsBeforePoint + kMaxFixedDigitsAfterPoint + 1) CHR 0x00"
  have ui: "unat u < D_inf_rank" using u kFirstNonFixed_rank(1) by (rule less_trans)
  note sf = with_sign_facts [OF ui]
  have abs: "(if D_Sign ?v < 0 then (True, double_minus ?v) else (False, ?v)) = (neg, u)"
    unfolding sf(1) by (cases neg) (simp_all add: with_sign_def)
  have "u \<noteq> 0" using sh by (auto simp: shifts_by_minus_one_def D_Significand_def D_IsDenormal_def)
  moreover have "double_eq u 0 \<longleftrightarrow> u = 0" using with_sign_facts(3) [OF ui, of False] by (simp add: with_sign_def)
  moreover have "41 \<le> length ?rep" by (simp add: kMaxFixedDigitsBeforePoint_def kMaxFixedDigitsAfterPoint_def)
  note FastFixedDtoa_undefined [OF ui sh this]
  ultimately have none: "DoubleToAscii ?v FIXED r ?rep = None"
    using sf(2) r unfolding DoubleToAscii_def abs Let_def prod.case by (simp add: fast_conversion_def check_def)
  have lim: "\<not> (double_le kFirstNonFixed ?v \<or> double_le ?v (double_minus kFirstNonFixed))" using fixed_limit [OF ui, of neg] u by simp
  have max: "\<not> r > int kMaxFixedDigitsAfterPoint" using r by (simp add: kMaxFixedDigitsAfterPoint_def)
  have six: "check (kMaxFixedDigitsBeforePoint = 60) = Some ()" by (simp add: check_def kMaxFixedDigitsBeforePoint_def)
  show ?thesis unfolding ToFixed_def six option_step if_not_P [OF sf(2)] if_not_P [OF max] if_not_P [OF lim] none by simp
qed

lemma ToFixed_writes:
  assumes u: "unat u < unat kFirstNonFixed" and r: "0 \<le> r" "r \<le> 60" and conv: "conv_ok conv" and room: "126 \<le> length buffer"
    and good: "\<not> shifts_by_minus_one u r"
  obtains b body where "ToFixed conv (with_sign neg u) r (new_builder buffer) = Some (True, b)"
    "holds b (length buffer) (sign_text conv neg (with_sign neg u) @ body)" "point_val body = rounded_at (D_val (unat u)) r"
    "0 < r \<longrightarrow> length (frac_part body) = nat r"
proof -
  let ?v = "with_sign neg u" and ?rep = "replicate (kMaxFixedDigitsBeforePoint + kMaxFixedDigitsAfterPoint + 1) CHR 0x00"
  have ui: "unat u < D_inf_rank" using u kFirstNonFixed_rank(1) by (rule less_trans)
  have size: "length ?rep = 121" by (simp add: kMaxFixedDigitsBeforePoint_def kMaxFixedDigitsAfterPoint_def)
  have "0 \<le> (60 :: int)" "41 \<le> length ?rep" "60 + r < int (length ?rep)" unfolding size using r by simp_all
  from returns_ex [OF DoubleToAscii_fixed [OF ui kFirstNonFixed_rank(3) [OF u] this(1) r(1) this(2,3) good, of neg]] obtain rep l point where
    a: "DoubleToAscii ?v FIXED r ?rep = Some (neg, rep, l, point)" "length rep = 121" "l < 121" "list_all is_decimal (take l rep)"
      "int l \<le> point + r" "point \<le> 61" "value_of (take l rep) (point - int l) = rounded_at (D_val (unat u)) r" unfolding size by auto
  define body where "body = decimal_body (take l rep) point r @ decimal_tail conv r"
  have l: "l \<le> length rep" "length (take l rep) = l" using a(2,3) by simp_all
  have room1: "int l \<le> r + point" "int (length (take l rep)) \<le> r + point" using a(5) l(2) by simp_all
  have w: "writes (CreateDecimalRepresentation conv rep (int l) point r) body" unfolding body_def by (rule writes_decimal [OF l(1) a(4) room1(1)])
  have val: "point_val body = rounded_at (D_val (unat u)) r"
    unfolding body_def using decimal_text_val [OF a(4) r(1) room1(2) conv] a(7) unfolding l(2) value_of_def by simp
  have frac: "0 < r \<longrightarrow> length (frac_part body) = nat r" unfolding body_def using decimal_frac_length [OF a(4) _ room1(2)] by blast
  have "length body < 125" unfolding body_def by (rule decimal_length) (use a r l room1 in simp_all)
  moreover have "length (sign_text conv neg ?v) \<le> 1" by (simp add: sign_text_def)
  ultimately have "length (sign_text conv neg ?v @ body) < length buffer" using room by simp
  from writes_after_sign [OF w this] obtain b0 b where b0: "add_sign conv neg ?v (new_builder buffer) = Some b0"
    and b: "CreateDecimalRepresentation conv rep (int l) point r b0 = Some b" "holds b (length buffer) (sign_text conv neg ?v @ body)" .
  have lim: "\<not> (double_le kFirstNonFixed ?v \<or> double_le ?v (double_minus kFirstNonFixed))" using fixed_limit [OF ui, of neg] u by simp
  have max: "\<not> r > int kMaxFixedDigitsAfterPoint" using r by (simp add: kMaxFixedDigitsAfterPoint_def)
  have six: "check (kMaxFixedDigitsBeforePoint = 60) = Some ()" by (simp add: check_def kMaxFixedDigitsBeforePoint_def)
  have "ToFixed conv ?v r (new_builder buffer) = Some (True, b)"
    unfolding ToFixed_def six option_step if_not_P [OF with_sign_facts(2) [OF ui]] if_not_P [OF max] if_not_P [OF lim] a(1) prod.case b0
    using b(1) b0 by simp
  from that [OF this b(2) val frac] show thesis .
qed

section \<open>Properties\<close>

text \<open>
  C5: \<open>ToFixed\<close> prints every finite double below the double nearest to \<open>10 ^ 60\<close> with up to 60 digits after the point: the text behind
  the sign denotes the absolute value rounded half up to that many digits, all of them are written, and neither the fast conversion nor
  the exact one, nor the builder with a buffer of 126 characters, fails an assertion. The sign is left out only for a zero with the flag
  \<open>UNIQUE_ZERO\<close>. The exception are the calls on which \<open>FillFractionals\<close> shifts by \<open>-1\<close> (C23): their behaviour is not defined, and
  the theorem says exactly which ones they are. The rounding is the one of the exact value of the double: the double next to \<open>0.15\<close> with
  two digits is printed as \<open>0.15\<close>, while the comment on \<open>FIXED\<close> in \<open>double-conversion.h\<close> says that its digits are \<open>2\<close>.
\<close>

theorem to_fixed_rounds:
  assumes "\<not> D_IsSpecial v" "unat (v AND NOT D_kSignMask) < unat kFirstNonFixed" "0 \<le> r" "r \<le> 60" "conv_ok conv" "126 \<le> length buffer"
  shows "if shifts_by_minus_one (v AND NOT D_kSignMask) r then ToFixed conv v r (new_builder buffer) = None
    else \<exists>b body. ToFixed conv v r (new_builder buffer) = Some (True, b) \<and>
    holds b (length buffer) (sign_text conv (D_Sign v < 0) v @ body) \<and>
    point_val body = \<lfloor>D_val (unat (v AND NOT D_kSignMask)) * 10 powi r + 1 / 2\<rfloor> * 10 powi (- r) \<and>
    (0 < r \<longrightarrow> length (frac_part body) = nat r)"
proof -
  from signed_cases [OF assms(1)] obtain neg u where v: "v = with_sign neg u" and u: "unat u < D_inf_rank"
    and m: "v AND NOT D_kSignMask = u" and sign: "(D_Sign v < 0) = neg" .
  show ?thesis
  proof (cases "shifts_by_minus_one u r")
    case True
    then show ?thesis using ToFixed_undefined [OF assms(2) [unfolded m] assms(3,4) True, of conv neg] unfolding m unfolding v by simp
  next
    case False
    from ToFixed_writes [OF assms(2) [unfolded m] assms(3-6) False, of neg] show ?thesis
      unfolding m sign if_not_P [OF False] unfolding v rounded_at_def by blast
  qed
qed

text \<open>The double next to \<open>-0.15\<close>, with two digits.\<close>

theorem to_fixed_rounds_witness:
  "\<exists>b body. ToFixed \<lparr>dts_flags = 0, dts_infinity_symbol = None, dts_nan_symbol = None,
      dts_exponent_character = CHR ''e'', dts_decimal_in_shortest_low = -6, dts_decimal_in_shortest_high = 21,
      dts_max_leading_padding = 6, dts_max_trailing_padding = 0\<rparr> 0xBFC3333333333333 2 (new_builder (replicate 126 CHR 0x00)) = Some (True, b) \<and>
    holds b (length (replicate 126 CHR 0x00)) (''-'' @ body) \<and> point_val body = 15 / 100 \<and> length (frac_part body) = 2"
proof -
  let ?c = "\<lparr>dts_flags = 0, dts_infinity_symbol = None, dts_nan_symbol = None,
      dts_exponent_character = CHR ''e'', dts_decimal_in_shortest_low = -6, dts_decimal_in_shortest_high = 21,
      dts_max_leading_padding = 6, dts_max_trailing_padding = 0\<rparr>"
  let ?v = "0xBFC3333333333333 :: double" and ?u = "0x3FC3333333333333 :: double"
  have f: "\<not> D_IsSpecial ?v" "D_Sign ?v < 0" "?v AND NOT D_kSignMask = ?u" "\<not> shifts_by_minus_one ?u 2"
    by (simp_all add: D_IsSpecial_def D_kExponentMask_def D_Sign_def D_kSignMask_def shifts_by_minus_one_def D_Exponent_def D_IsDenormal_def)
  have v: "\<lfloor>D_val (unat ?u) * 10 powi 2 + 1 / 2\<rfloor> = 15" by (simp add: rank_val_def rank_sig_def rank_exp_def power_int_minus)
  have "D_nearest (D_val (Suc (unat ?u))) (Suc (unat ?u))" by (rule nearest_rank_val) simp
  moreover have "D_val (Suc (unat ?u)) \<le> 10 ^ 60" by (simp add: rank_val_def rank_sig_def rank_exp_def power_int_minus)
  ultimately have "Suc (unat ?u) \<le> unat kFirstNonFixed" by (rule nearest_mono [OF _ kFirstNonFixed_nearest])
  then have u: "unat ?u < unat kFirstNonFixed" by (rule Suc_le_lessD)
  have s: "sign_text ?c True ?v = ''-''" by (simp add: sign_text_def has_flag_def UNIQUE_ZERO_def)
  have "conv_ok ?c" by (simp add: conv_ok_def has_flag_def)
  from to_fixed_rounds [OF f(1) _ _ _ this, of 2 "replicate 126 CHR 0x00"] u f(2-4) s v show ?thesis by (simp add: power_int_minus mult.commute [of "point_val _"])
qed

end
