(* ===== verification/Grisu_Counted.thy ===== *)
theory Grisu_Counted
  imports Grisu_Properties Dtoa_Modes
begin

text \<open>
  The fast conversion to a number of digits that is asked for. \<open>DigitGenCounted\<close> generates them from the scaled number, which is off by
  less than one unit; \<open>RoundWeedCounted\<close> rounds only where the unit does not matter, and gives up otherwise.
\<close>

section \<open>Rounding\<close>

text \<open>The number \<open>N\<close> in a buffer, possibly after a carry that moved the position by one.\<close>

definition written :: "nat \<Rightarrow> int \<Rightarrow> string \<Rightarrow> int \<Rightarrow> bool" where
  "written N kappa ds kappa' \<longleftrightarrow> list_all is_decimal ds \<and>
     (kappa' = kappa \<and> text_digits ds = N \<or> kappa' = kappa + 1 \<and> 10 * text_digits ds = N)"

lemma value_of_written:
  assumes "written N kappa ds kappa'"
  shows "value_of ds (kappa' + i) = real N * 10 powi (kappa + i)"
  using assms unfolding written_def
proof (elim conjE disjE)
  assume k: "kappa' = kappa + 1" and N: "10 * text_digits ds = N"
  have "(10 :: real) powi (kappa' + i) = 10 * 10 powi (kappa + i)" unfolding k by (simp add: power_int_add)
  then show ?thesis unfolding value_of_def N [symmetric] by simp
qed (simp add: value_of_def)

lemma increment_digits_correct:
  assumes c: "0 < c" "c \<le> length buf" and dec: "list_all is_decimal (take c buf)"
  shows "returns (increment_digits c buf kappa) (\<lambda>(b, kappa'). length b = length buf \<and>
    written (text_digits (take c buf) + 1) kappa (take c b) kappa')"
proof -
  obtain b where b: "vincr buf (c - 1) = Some b" "length b = length buf" "carry_ok (take c b) (c - 1)"
    "text_digits (take c b) = text_digits (take c buf) + 1" by (rule increment_last [OF c dec])
  have cb: "c \<le> length b" using b(2) c(2) by simp
  show ?thesis unfolding increment_digits_def b(1) option_step
  proof (rule returns_checkI [OF c(1)], rule returns_bindI [OF carry_loop [OF b(3) cb]], clarify, goal_cases)
    case (1 b' j)
    have len: "c \<le> length b'" "b' \<noteq> []" using 1(1) b(2) c by auto
    have "text_digits (take c buf) < 10 ^ length (take c buf)" by (rule text_digits_less [OF dec])
    then have "text_digits (take c b') \<le> 10 ^ c" unfolding 1(2) b(4) using c(2) by simp
    note ends = carry_end [OF 1(3,4) c(1) len(1) this]
    show ?case using ends 1(1,2) b(2,4) len by (auto simp: wp written_def)
  qed
qed

lemma RoundWeedCounted_correct:
  assumes w: "unat rest = R" "unat ten = T" "unat unit = u" and R: "R < T" and c: "0 < c" "c \<le> length buf"
    and dec: "list_all is_decimal (take c buf)" and d: "d = text_digits (take c buf)"
  shows "returns (RoundWeedCounted buf c rest ten unit kappa) (\<lambda>(r, b, kappa'). length b = length buf \<and>
    (r \<longrightarrow> 2 * u < T \<and> (\<exists>N. written N kappa (take c b) kappa' \<and> (N = d \<and> 2 * R + 2 * u \<le> T \<or> N = d + 1 \<and> T + 2 * u \<le> 2 * R))))"
proof -
  have T64: "T < 2 ^ 64" using unat_less_64 [of ten] w by simp
  have less: "rest < ten" using w R by (simp add: word_less_nat_alt)
  have un: "unit \<ge> ten \<longleftrightarrow> T \<le> u" using w by (simp add: word_le_nat_alt)
  have half: "ten - unit \<le> unit \<longleftrightarrow> T \<le> 2 * u" if "u < T" using that w by (simp add: word_le_nat_alt unat_sub_small) linarith
  have sub: "unat (ten - rest) = T - R" using w R by (simp add: unat_sub_small)
  have down: "ten - rest > rest \<and> ten - 2 * rest \<ge> 2 * unit \<longleftrightarrow> 2 * R < T \<and> 2 * R + 2 * u \<le> T" if "2 * u < T"
  proof -
    have u2: "unat (2 * unit) = 2 * u" using that T64 w by (subst unat_mult_small) simp_all
    have "ten - rest > rest \<longleftrightarrow> 2 * R < T" using w R by (simp add: word_less_nat_alt sub) linarith
    moreover have "ten - 2 * rest \<ge> 2 * unit \<longleftrightarrow> 2 * R + 2 * u \<le> T" if "2 * R < T"
    proof -
      have r2: "unat (2 * rest) = 2 * R" using that T64 w by (subst unat_mult_small) simp_all
      then have "unat (ten - 2 * rest) = T - 2 * R" using that w by (simp add: unat_sub_small)
      then show ?thesis using that u2 by (simp add: word_le_nat_alt) linarith
    qed
    ultimately show ?thesis by blast
  qed
  have up: "rest > unit \<and> ten - (rest - unit) \<le> rest - unit \<longleftrightarrow> u < R \<and> T + 2 * u \<le> 2 * R"
  proof -
    have "rest > unit \<longleftrightarrow> u < R" using w by (simp add: word_less_nat_alt)
    moreover have "ten - (rest - unit) \<le> rest - unit \<longleftrightarrow> T + 2 * u \<le> 2 * R" if "u < R"
    proof -
      have r: "unat (rest - unit) = R - u" using that w by (simp add: unat_sub_small)
      then have "unat (ten - (rest - unit)) = T - (R - u)" using that R w by (simp add: unat_sub_small)
      then show ?thesis using that R r by (simp add: word_le_nat_alt) linarith
    qed
    ultimately show ?thesis by blast
  qed
  show ?thesis
  proof (cases "T \<le> u \<or> T \<le> 2 * u")
    case True
    then show ?thesis using less un half unfolding RoundWeedCounted_def by (cases "T \<le> u") (simp_all add: wp)
  next
    case False
    then have u: "\<not> unit \<ge> ten" "\<not> ten - unit \<le> unit" "2 * u < T" using un half by auto
    consider (low) "2 * R < T \<and> 2 * R + 2 * u \<le> T" | (high) "\<not> (2 * R < T \<and> 2 * R + 2 * u \<le> T)" "u < R \<and> T + 2 * u \<le> 2 * R"
      | (none) "\<not> (2 * R < T \<and> 2 * R + 2 * u \<le> T)" "\<not> (u < R \<and> T + 2 * u \<le> 2 * R)" by blast
    then show ?thesis
    proof cases
      case low
      then show ?thesis using dec d u(3) unfolding RoundWeedCounted_def if_not_P [OF u(1)] if_not_P [OF u(2)] down [OF u(3)] up
        by (auto simp: wp less written_def)
    next
      case high
      show ?thesis unfolding RoundWeedCounted_def if_not_P [OF u(1)] if_not_P [OF u(2)] down [OF u(3)] up if_not_P [OF high(1)] if_P [OF high(2)]
        by (rule returns_checkI [OF less], rule returns_bindI [OF increment_digits_correct [OF c dec]]) (use u(3) high(2) d in auto)
    next
      case none
      then show ?thesis unfolding RoundWeedCounted_def if_not_P [OF u(1)] if_not_P [OF u(2)] down [OF u(3)] up by (auto simp: wp less)
    qed
  qed
qed

section \<open>What the digits say of the number\<close>

text \<open>
  The scaled number \<open>x\<close> is known up to one unit. \<open>N\<close> is \<open>x\<close> rounded to the position \<open>kappa\<close>; where \<open>N\<close> is the smallest number with
  \<open>c\<close> digits, \<open>x\<close> may lie below it, but then so little that it would also be rounded to \<open>N\<close> one position further right.
\<close>

definition counted_ok :: "nat \<Rightarrow> nat \<Rightarrow> nat \<Rightarrow> string \<Rightarrow> int \<Rightarrow> bool" where
  "counted_ok H E c ds kappa' \<longleftrightarrow> (\<exists>N kappa. written N kappa ds kappa' \<and> 10 ^ (c - 1) \<le> N \<and> N \<le> 10 ^ c \<and>
     (\<forall>x. \<bar>real H - x\<bar> < 1 \<longrightarrow> real N - 1 / 2 \<le> x * 10 powi (- kappa) / 2 ^ E \<and> x * 10 powi (- kappa) / 2 ^ E < real N + 1 / 2 \<and>
       (N = 10 ^ (c - 1) \<longrightarrow> real N - 1 / 20 \<le> x * 10 powi (- kappa) / 2 ^ E)))"

lemma rounded_position:
  fixes x y :: real
  assumes pos: "H * u = d * T + R" "0 < u" "R < T" "2 * u < T" and x: "\<bar>real H - x\<bar> < 1" and y: "y = x * real u / real T"
    and N: "N = d \<and> 2 * R + 2 * u \<le> T \<or> N = d + 1 \<and> T + 2 * u \<le> 2 * R" and first: "N = d \<Longrightarrow> d = m \<Longrightarrow> 20 * u \<le> T \<or> u \<le> R" and d: "m \<le> d"
  shows "real N - 1 / 2 \<le> y" "y < real N + 1 / 2" "N = m \<Longrightarrow> real N - 1 / 20 \<le> y"
proof -
  define X where "X = x * real u"
  have T0: "0 < real T" using pos(3) by simp
  have "\<bar>real H - x\<bar> * real u < 1 * real u" using x pos(2) by (intro mult_strict_right_mono) simp_all
  moreover have "\<bar>real (H * u) - X\<bar> = \<bar>real H - x\<bar> * real u" unfolding X_def of_nat_mult left_diff_distrib [symmetric] abs_mult by simp
  ultimately have "\<bar>real (H * u) - X\<bar> < real u" by simp
  then have X: "real d * real T + real R - real u < X" "X < real d * real T + real R + real u"
    unfolding pos(1) of_nat_add of_nat_mult abs_less_iff by linarith+
  have r: "real R < real T" "2 * real u < real T" using pos(3,4) by linarith+
  have yX: "y * real T = X" unfolding y X_def using T0 by simp
  have cmp: "a \<le> y \<longleftrightarrow> a * real T \<le> X" "y < a \<longleftrightarrow> X < a * real T" for a
    unfolding yX [symmetric] using T0 by simp_all
  from N have "real N - 1 / 2 \<le> y \<and> y < real N + 1 / 2 \<and> (N = m \<longrightarrow> real N - 1 / 20 \<le> y)"
  proof (elim disjE conjE)
    assume n: "N = d" "2 * R + 2 * u \<le> T"
    then have "2 * real R + 2 * real u \<le> real T" by linarith
    moreover have "(real d - 1 / 20) * real T \<le> X" if "d = m"
    proof -
      have "20 * real u \<le> real T \<or> real u \<le> real R" using first [OF n(1) that] by linarith
      then show ?thesis using X(1) T0 unfolding left_diff_distrib by (elim disjE) linarith+
    qed
    ultimately show ?thesis unfolding cmp n(1) using X r unfolding distrib_right left_diff_distrib by auto
  next
    assume n: "N = d + 1" "T + 2 * u \<le> 2 * R"
    then have "real T + 2 * real u \<le> 2 * real R" by linarith
    then show ?thesis unfolding cmp n(1) using X r d by (auto simp: distrib_right left_diff_distrib)
  qed
  then show "real N - 1 / 2 \<le> y" "y < real N + 1 / 2" "N = m \<Longrightarrow> real N - 1 / 20 \<le> y" by blast+
qed

lemma counted_okI:
  assumes pos: "H * u = text_digits ds0 * T + R" "0 < u" "R < T" and scale: "10 powi (- kappa) / 2 ^ E = real u / real T"
    and ds: "list_all is_decimal ds0" "hd ds0 \<noteq> CHR ''0''" "length ds0 = c" "0 < c"
    and first: "text_digits ds0 = 10 ^ (c - 1) \<Longrightarrow> 20 * u \<le> T \<or> u \<le> R"
    and w: "2 * u < T" "written N kappa ds kappa'"
      "N = text_digits ds0 \<and> 2 * R + 2 * u \<le> T \<or> N = text_digits ds0 + 1 \<and> T + 2 * u \<le> 2 * R"
  shows "counted_ok H E c ds kappa'"
proof -
  have ne: "ds0 \<noteq> []" using ds(3,4) by auto
  have d: "10 ^ (c - 1) \<le> text_digits ds0" "text_digits ds0 < 10 ^ c"
    using text_digits_ge [OF ne ds(2,1)] text_digits_less [OF ds(1)] ds(3) by simp_all
  have y: "x * 10 powi (- kappa) / 2 ^ E = x * real u / real T" for x
    using scale by (simp add: times_divide_eq_right [symmetric] del: times_divide_eq_right)
  note r = rounded_position [OF pos w(1) _ y w(3) first d(1)]
  have N: "10 ^ (c - 1) \<le> N" "N \<le> 10 ^ c" using d w(3) by auto
  show ?thesis unfolding counted_ok_def
    by (intro exI [of _ N] exI [of _ kappa] conjI w(2) N allI impI) (rule r; assumption)+
qed

section \<open>The loops\<close>

definition counted_digits :: "nat \<Rightarrow> nat \<Rightarrow> gen_state \<Rightarrow> bool" where
  "counted_digits n c s \<longleftrightarrow> length (gen_buffer s) = n \<and> gen_length s \<le> c \<and> gen_requested s = int c - int (gen_length s) \<and>
     list_all is_decimal (take (gen_length s) (gen_buffer s)) \<and>
     (gen_length s = 0 \<or> hd (take (gen_length s) (gen_buffer s)) \<noteq> CHR ''0'')"

definition counted_integral :: "nat \<Rightarrow> nat \<Rightarrow> nat \<Rightarrow> nat \<Rightarrow> nat \<Rightarrow> gen_state \<Rightarrow> bool" where
  "counted_integral H E n c k s \<longleftrightarrow> counted_digits n c s \<and> gen_kappa s = int k \<and> k \<le> 10 \<and> unat (gen_unit s) = 1 \<and>
     (if gen_requested s = 0 then unat (gen_divisor s) = 10 ^ k else 0 < k \<longrightarrow> unat (gen_divisor s) = 10 ^ (k - 1)) \<and>
     unat (gen_integrals s) < 10 ^ k \<and> unat (gen_fractionals s) < 2 ^ E \<and>
     H = so_far s * (10 ^ k * 2 ^ E) + (unat (gen_integrals s) * 2 ^ E + unat (gen_fractionals s)) \<and>
     (gen_length s = 0 \<longrightarrow> 0 < k \<and> 10 ^ (k - 1) \<le> unat (gen_integrals s))"

text \<open>When the last digit is a zero, the loop went on because the rest was larger than the unit, and both were only scaled.\<close>

definition counted_fractional :: "nat \<Rightarrow> nat \<Rightarrow> nat \<Rightarrow> nat \<Rightarrow> nat \<Rightarrow> gen_state \<Rightarrow> bool" where
  "counted_fractional H E n c j s \<longleftrightarrow> counted_digits n c s \<and> gen_kappa s = - int j \<and> 0 < gen_length s \<and> j < gen_length s \<and>
     unat (gen_unit s) = 10 ^ j \<and> unat (gen_fractionals s) < 2 ^ E \<and> H * 10 ^ j = so_far s * 2 ^ E + unat (gen_fractionals s) \<and>
     (0 < j \<longrightarrow> so_far s mod 10 \<noteq> 0 \<or> 10 ^ j < unat (gen_fractionals s))"

lemma counted_write:
  assumes s: "counted_digits n c s" "c < n" "gen_length s < c" and q: "q \<le> 9" "gen_length s = 0 \<Longrightarrow> 0 < q"
    and s': "gen_buffer s' = (gen_buffer s)[gen_length s := digit_char q]" "gen_length s' = Suc (gen_length s)"
      "gen_requested s' = gen_requested s - 1"
  shows "counted_digits n c s'" "so_far s' = 10 * so_far s + q"
proof -
  have l: "gen_length s < length (gen_buffer s)" "list_all is_decimal (take (gen_length s) (gen_buffer s))"
    using s by (simp_all add: counted_digits_def)
  note wr = write_digit [OF l q(1)]
  have "hd (take (Suc (gen_length s)) (gen_buffer s')) \<noteq> CHR ''0''"
    using head_digit [OF l(1), of q] s(1) q by (auto simp: s' counted_digits_def)
  then show "counted_digits n c s'" using s wr(3) by (simp add: counted_digits_def s')
  show "so_far s' = 10 * so_far s + q" using wr(2) by (simp add: so_far_def s')
qed

lemma counted_integral_step_correct:
  assumes inv: "counted_integral H E n c (Suc k) s" and c: "c < n" "gen_requested s \<noteq> 0"
  shows "returns (counted_integral_step s) (counted_integral H E n c k)"
proof -
  define I F q I' where "I = unat (gen_integrals s)" and "F = unat (gen_fractionals s)" and "q = I div 10 ^ k" and "I' = I mod 10 ^ k"
  define s1 where "s1 = s\<lparr>gen_buffer := (gen_buffer s)[gen_length s := digit_char q], gen_length := gen_length s + 1,
             gen_integrals := gen_integrals s mod gen_divisor s, gen_kappa := gen_kappa s - 1\<rparr>"
  define s2 where "s2 = s1\<lparr>gen_requested := gen_requested s1 - 1\<rparr>"
  have i: "counted_digits n c s" "k \<le> 9" "unat (gen_unit s) = 1" "unat (gen_divisor s) = 10 ^ k" "I < 10 ^ Suc k" "F < 2 ^ E"
    "H = so_far s * (10 ^ Suc k * 2 ^ E) + (I * 2 ^ E + F)" "gen_kappa s = int (Suc k)" "gen_length s = 0 \<longrightarrow> 10 ^ k \<le> I"
    using inv c(2) by (simp_all add: counted_integral_def I_def F_def)
  have l: "gen_length s < c" "gen_length s < length (gen_buffer s)" using i(1) c by (auto simp: counted_digits_def)
  have q: "q \<le> 9" "I = q * 10 ^ k + I'" "I' < 10 ^ k"
    using i(5) by (simp_all add: q_def I'_def less_mult_imp_div_less less_Suc_eq_le [symmetric] div_mult_mod_eq)
  have q0: "0 < q" if "gen_length s = 0" using i(9) that by (simp add: q_def div_greater_zero_iff)
  have dig: "unat (gen_integrals s div gen_divisor s) = q" "unat (gen_integrals s mod gen_divisor s) = I'"
    by (simp_all add: unat_div unat_mod i(4) q_def I'_def I_def)
  have "gen_divisor s \<noteq> 0" using i(4) by auto
  moreover have "sint (gen_integrals s div gen_divisor s) = int q" using q(1) dig(1) by (simp add: sint_small)
  ultimately have emit: "emit_integral s = Some s1" using q(1) l by (simp add: emit_integral_def check_def vset_def s1_def)
  have wr: "counted_digits n c s2" "so_far s2 = 10 * so_far s + q"
    by (rule counted_write [OF i(1) c(1) l(1) q(1) q0]; simp add: s2_def s1_def)+
  have H2: "H = so_far s2 * (10 ^ k * 2 ^ E) + (I' * 2 ^ E + F)" unfolding i(7) wr(2) q(2) by (simp add: algebra_simps)
  have f: "unat (gen_integrals s2) = I'" "unat (gen_fractionals s2) = F" "gen_kappa s2 = int k" "unat (gen_unit s2) = 1"
    "unat (gen_divisor s2) = 10 ^ k" "0 < gen_length s2"
    using i dig(2) by (simp_all add: s2_def s1_def F_def)
  show ?thesis
  proof (cases "gen_requested s2 = 0")
    case True
    have "counted_integral H E n c k s2" using True wr(1) f i(2,6) H2 q(3) by (simp add: counted_integral_def)
    then show ?thesis using True emit unfolding counted_integral_step_def by (simp add: s2_def Let_def)
  next
    case False
    let ?s = "s2\<lparr>gen_divisor := gen_divisor s2 div 10\<rparr>"
    have "counted_digits n c ?s" "so_far ?s = so_far s2" using wr(1) by (simp_all add: counted_digits_def so_far_def)
    moreover have "0 < k \<longrightarrow> unat (gen_divisor s2 div 10) = 10 ^ (k - 1)" using f(5) by (cases k) (simp_all add: unat_div)
    ultimately have "counted_integral H E n c k ?s" using False f i(2,6) H2 q(3) by (simp add: counted_integral_def)
    then show ?thesis using False emit unfolding counted_integral_step_def by (simp add: s2_def Let_def)
  qed
qed

lemma counted_fractional_step_correct:
  assumes inv: "counted_fractional H E n c j s" and E: "34 \<le> E" "E \<le> 60" and c: "c < n" "gen_length s < c"
    and one: "diy_e one = - int E" "diy_f one = push_bit E 1" and go: "10 ^ j < unat (gen_fractionals s)"
  shows "returns (counted_fractional_step one s) (\<lambda>s'. counted_fractional H E n c (Suc j) s' \<and> gen_length s' = Suc (gen_length s))"
proof -
  define F q F' where "F = unat (gen_fractionals s)" and "q = 10 * F div 2 ^ E" and "F' = 10 * F mod 2 ^ E"
  have i: "counted_digits n c s" "0 < gen_length s" "j < gen_length s" "unat (gen_unit s) = 10 ^ j" "F < 2 ^ E"
    "H * 10 ^ j = so_far s * 2 ^ E + F" "gen_kappa s = - int j"
    using inv by (simp_all add: counted_fractional_def F_def)
  have E60: "(2 :: nat) ^ E \<le> 2 ^ 60" using E(2) by (intro power_increasing) simp_all
  then have F64: "10 * F < 2 ^ 64" using i(5) by simp
  have lim: "10 ^ Suc j < 10 * F" using go by (simp add: F_def)
  have q: "q \<le> 9" "10 * F = q * 2 ^ E + F'" "F' < 2 ^ E"
    using i(5) by (simp_all add: q_def F'_def less_mult_imp_div_less less_Suc_eq_le [symmetric] div_mult_mod_eq)
  have f10: "unat (gen_fractionals s * 10) = 10 * F" using F64 by (subst unat_mult_small) (simp_all add: F_def)
  have u1: "unat (gen_unit s * 10) = 10 ^ Suc j" using lim F64 i(4) by (subst unat_mult_small) simp_all
  have mask: "diy_f one - 1 = mask E" using one(2) by (simp add: mask_eq_exp_minus_1 push_bit_of_1)
  have f1: "unat (gen_fractionals s * 10 AND (diy_f one - 1)) = F'" unfolding mask by (simp add: unat_and_mask f10 F'_def)
  define s1 where "s1 = s\<lparr>gen_unit := gen_unit s * 10,
     gen_buffer := (gen_buffer s)[gen_length s := digit_char q], gen_length := gen_length s + 1,
     gen_fractionals := gen_fractionals s * 10 AND (diy_f one - 1), gen_kappa := gen_kappa s - 1\<rparr>"
  define s2 where "s2 = s1\<lparr>gen_requested := gen_requested s1 - 1\<rparr>"
  have "gen_length s < length (gen_buffer s)" using i(1) c by (simp add: counted_digits_def)
  moreover have "unat (drop_bit E (gen_fractionals s * 10)) = q" by (simp add: unat_drop_bit f10 q_def)
  then have "to_int (drop_bit E (gen_fractionals s * 10)) = int q" using q(1) by (simp add: to_int_small)
  ultimately have emit: "emit_fractional one (s\<lparr>gen_unit := gen_unit s * 10\<rparr>) = Some s1"
    using q(1) one(1) by (simp add: emit_fractional_def check_def vset_def s1_def Let_def)
  have q0: "0 < q" if "gen_length s = 0" using i(2) that by simp
  have wr: "counted_digits n c s2" "so_far s2 = 10 * so_far s + q"
    by (rule counted_write [OF i(1) c q(1) q0]; simp add: s2_def s1_def)+
  have "H * 10 ^ Suc j = so_far s2 * 2 ^ E + F'" using i(6) q(2) unfolding wr(2) by (simp add: algebra_simps)
  moreover have "so_far s2 mod 10 \<noteq> 0 \<or> 10 ^ Suc j < F'"
  proof (cases "q = 0")
    case True
    then show ?thesis using q(2) lim by simp
  next
    case False
    then show ?thesis using q(1) by (simp add: wr(2))
  qed
  ultimately have "counted_fractional H E n c (Suc j) s2 \<and> gen_length s2 = Suc (gen_length s)"
    using wr(1) i(3,7) u1 f1 q(3) by (simp add: counted_fractional_def s2_def s1_def)
  then show ?thesis unfolding counted_fractional_step_def Let_def emit by (simp add: s2_def)
qed

lemma counted_integral_loop:
  assumes inv: "counted_integral H E n c k s" and c: "c < n" "0 < c"
  shows "returns (while_loop (\<lambda>s. Some (gen_kappa s > 0 \<and> (gen_length s = 0 \<or> gen_requested s \<noteq> 0))) counted_integral_step s)
    (\<lambda>s. \<exists>k. counted_integral H E n c k s \<and> (gen_requested s = 0 \<or> k = 0))"
proof (rule returns_while [where I = "\<lambda>s. \<exists>k. counted_integral H E n c k s" and m = "\<lambda>s. nat (gen_kappa s)"], goal_cases)
  case 1
  show ?case using inv by blast
next
  case (2 s)
  then obtain k where k: "counted_integral H E n c k s" by blast
  then have kappa: "gen_kappa s = int k" and req: "gen_length s = 0 \<Longrightarrow> gen_requested s \<noteq> 0"
    using c by (auto simp: counted_integral_def counted_digits_def)
  show ?case
  proof (cases "0 < k \<and> gen_requested s \<noteq> 0")
    case True
    then obtain i where i: "k = Suc i" by (cases k) auto
    show ?thesis using True kappa unfolding i
      by (auto intro!: returns_mono [OF counted_integral_step_correct [OF k [unfolded i] c(1)]] simp: counted_integral_def)
  next
    case False
    then show ?thesis using k kappa req by auto
  qed
qed

lemma counted_fractional_loop:
  assumes inv: "counted_fractional H E n c 0 s" "gen_length s < c" and E: "34 \<le> E" "E \<le> 60" and c: "c < n"
    and one: "diy_e one = - int E" "diy_f one = push_bit E 1"
  shows "returns (while_loop (\<lambda>s. Some (gen_requested s > 0 \<and> gen_fractionals s > gen_unit s)) (counted_fractional_step one) s)
    (\<lambda>s. \<exists>j. counted_fractional H E n c j s \<and> (gen_requested s = 0 \<longrightarrow> 0 < j))"
proof (rule returns_while [where I = "\<lambda>s. \<exists>j. counted_fractional H E n c j s \<and> (gen_requested s = 0 \<longrightarrow> 0 < j)"
      and m = "\<lambda>s. nat (gen_requested s)"], goal_cases)
  case 1
  show ?case using inv by (auto simp: counted_fractional_def counted_digits_def)
next
  case (2 s)
  then obtain j where j: "counted_fractional H E n c j s" "gen_requested s = 0 \<longrightarrow> 0 < j" by blast
  then have r: "gen_requested s = int c - int (gen_length s)" and u: "gen_fractionals s > gen_unit s \<longleftrightarrow> 10 ^ j < unat (gen_fractionals s)"
    by (simp_all add: counted_fractional_def counted_digits_def word_less_nat_alt)
  show ?case
  proof (cases "gen_requested s > 0 \<and> gen_fractionals s > gen_unit s")
    case True
    then have l: "gen_length s < c" "10 ^ j < unat (gen_fractionals s)" using r u by auto
    show ?thesis using True l r
      by (auto intro!: returns_mono [OF counted_fractional_step_correct [OF j(1) E c l(1) one l(2)]] exI [of _ "Suc j"]
          simp: counted_fractional_def counted_digits_def)
  next
    case False
    then show ?thesis using j by auto
  qed
qed

section \<open>DigitGenCounted\<close>

lemma weed_integral:
  assumes inv: "counted_integral H E n c k s" "gen_requested s = 0" and c: "c < n" "0 < c" and E: "34 \<le> E" "E \<le> 60" and H: "H < 2 ^ 64"
  shows "returns (RoundWeedCounted (gen_buffer s) (gen_length s) (push_bit E (ucast (gen_integrals s)) + gen_fractionals s)
      (push_bit E (ucast (gen_divisor s))) (gen_unit s) (gen_kappa s))
    (\<lambda>(r, buf, kappa). length buf = n \<and> gen_length s = c \<and> (r \<longrightarrow> counted_ok H E c (take c buf) kappa))"
proof -
  let ?I = "unat (gen_integrals s)" and ?F = "unat (gen_fractionals s)" and ?T = "10 ^ k * 2 ^ E :: nat" and ?ds = "take c (gen_buffer s)"
  have l: "gen_length s = c" "length (gen_buffer s) = n" "c \<le> length (gen_buffer s)" "list_all is_decimal ?ds" "hd ?ds \<noteq> CHR ''0''" "length ?ds = c"
    using inv c by (auto simp: counted_integral_def counted_digits_def)
  have i: "?I < 10 ^ k" "?F < 2 ^ E" "H = text_digits ?ds * ?T + (?I * 2 ^ E + ?F)" "unat (gen_unit s) = 1" "unat (gen_divisor s) = 10 ^ k"
    "gen_kappa s = int k"
    using inv l(1) by (simp_all add: counted_integral_def so_far_def)
  have below: "?I * 2 ^ E + ?F < ?T" using mult_le_mono1 [of "Suc ?I" "10 ^ k" "2 ^ E"] i(1,2) by simp
  have "10 ^ (c - 1) \<le> text_digits ?ds" using text_digits_ge [OF _ l(5,4)] l(6) c(2) by (cases ?ds) auto
  then have "1 \<le> text_digits ?ds" by (rule order_trans [rotated]) simp
  from mult_le_mono1 [OF this, of ?T] have "?T \<le> H" using i(3) by linarith
  then have T: "unat (push_bit E (ucast (gen_divisor s)) :: uint64) = ?T"
    using H i(5) by (subst unat_push_bit_small) (simp_all add: unat_ucast_32_64)
  have "?I * 2 ^ E + ?F < 2 ^ 64" using i(3) H by linarith
  then have R: "unat (push_bit E (ucast (gen_integrals s)) + gen_fractionals s) = ?I * 2 ^ E + ?F"
    by (simp add: unat_add_small unat_push_bit_small unat_ucast_32_64)
  have "(2 :: nat) ^ 34 \<le> 2 ^ E" using E(1) by (intro power_increasing) simp_all
  then have T20: "20 * 1 \<le> ?T" using mult_le_mono [of 1 "10 ^ k" "2 ^ 34" "2 ^ E"] by simp
  have scale: "10 powi (- gen_kappa s) / 2 ^ E = real 1 / real ?T" by (simp add: i(6) power_int_minus divide_inverse)
  have pos: "H * 1 = text_digits ?ds * ?T + (?I * 2 ^ E + ?F)" using i(3) by simp
  show ?thesis unfolding l(1)
    by (rule returns_mono [OF RoundWeedCounted_correct [OF R T i(4) below c(2) l(3,4) refl]])
      (use l(2) T20 counted_okI [OF pos _ below scale l(4,5,6) c(2)] in auto)
qed

lemma weed_fractional:
  assumes inv: "counted_fractional H E n c j s" "gen_requested s = 0" "0 < j" and c: "c < n" and one: "unat (diy_f one) = 2 ^ E"
  shows "returns (RoundWeedCounted (gen_buffer s) (gen_length s) (gen_fractionals s) (diy_f one) (gen_unit s) (gen_kappa s))
    (\<lambda>(r, buf, kappa). length buf = n \<and> gen_length s = c \<and> (r \<longrightarrow> counted_ok H E c (take c buf) kappa))"
proof -
  let ?F = "unat (gen_fractionals s)" and ?ds = "take c (gen_buffer s)"
  have l: "gen_length s = c" "length (gen_buffer s) = n" "c \<le> length (gen_buffer s)" "list_all is_decimal ?ds" "hd ?ds \<noteq> CHR ''0''" "length ?ds = c"
    using inv c by (auto simp: counted_fractional_def counted_digits_def)
  have i: "?F < 2 ^ E" "H * 10 ^ j = text_digits ?ds * 2 ^ E + ?F" "unat (gen_unit s) = 10 ^ j" "gen_kappa s = - int j" "j < c"
    "text_digits ?ds mod 10 \<noteq> 0 \<or> 10 ^ j < ?F"
    using inv l(1) by (simp_all add: counted_fractional_def so_far_def)
  have c0: "0 < c" using i(5) by simp
  have "c - 1 = Suc (c - 2)" using i(5) inv(3) by simp
  then have first: "10 ^ j \<le> ?F" if "text_digits ?ds = 10 ^ (c - 1)" using i(6) that by auto
  have scale: "10 powi (- gen_kappa s) / 2 ^ E = real (10 ^ j) / real (2 ^ E)" by (simp add: i(4))
  show ?thesis unfolding l(1)
    by (rule returns_mono [OF RoundWeedCounted_correct [OF refl one i(3,1) c0 l(3,4) refl]])
      (use l(2) first counted_okI [OF i(2) _ i(1) scale l(4,5,6) c0] in auto)
qed

lemma DigitGenCounted_correct:
  assumes e: "diy_e w = - int E" and E: "34 \<le> E" "E \<le> 60" and H: "unat (diy_f w) = H" "2 ^ 62 \<le> H" and c: "0 < c" "c < length buffer"
  shows "returns (DigitGenCounted w (int c) buffer) (\<lambda>(r, buf, l, kappa). length buf = length buffer \<and> l \<le> c \<and>
    (r \<longrightarrow> l = c \<and> counted_ok H E c (take c buf) kappa))"
proof -
  define one where "one = mk_diy (push_bit (nat (- diy_e w)) 1) (diy_e w)"
  have one: "diy_e one = - int E" "diy_f one = push_bit E 1" using e by (simp_all add: one_def mk_diy_def)
  have H62: "2 ^ 62 \<le> unat (diy_f w)" and H64: "H < 2 ^ 64" using H unat_less_64 [of "diy_f w"] by simp_all
  note ini = initial_integrals [OF E H62, unfolded H(1)]
  define I where "I = (ucast (drop_bit E (diy_f w)) :: uint32)"
  have nb: "4 \<le> 64 - E" "64 - E \<le> 30" using E by simp_all
  obtain p k where p: "BiggestPowerTen I (64 - E) = Some (p, k)" "0 < k" "k \<le> 10" "unat p = 10 ^ (k - 1)" "10 ^ (k - 1) \<le> unat I" "unat I < 10 ^ k"
    using returns_ex [OF BiggestPowerTen_correct [OF nb, of I]] ini by (auto simp: I_def)
  define s where "s = \<lparr>gen_integrals = I, gen_divisor = p, gen_fractionals = diy_f w AND (diy_f one - 1), gen_unit = 1,
        gen_unsafe = 0, gen_requested = int c, gen_kappa = int k, gen_buffer = buffer, gen_length = 0, gen_result = None\<rparr>"
  have "H = unat I * 2 ^ E + H mod 2 ^ E" using ini(1) by (simp add: I_def div_mult_mod_eq)
  then have inv: "counted_integral H E (length buffer) c k s"
    using p ini(2) c by (simp add: counted_integral_def counted_digits_def s_def so_far_def one(2))
  from returns_ex [OF counted_integral_loop [OF inv c(2,1)]] obtain s2 k2 where
    s2: "while_loop (\<lambda>s. Some (gen_kappa s > 0 \<and> (gen_length s = 0 \<or> gen_requested s \<noteq> 0))) counted_integral_step s = Some s2"
      "counted_integral H E (length buffer) c k2 s2" "gen_requested s2 = 0 \<or> k2 = 0" by blast
  have E60: "(2 :: nat) ^ E \<le> 2 ^ 60" using E(2) by (intro power_increasing) simp_all
  then have N: "unat (diy_f one) = 2 ^ E" unfolding one(2) by (subst unat_push_bit_small) simp_all
  have c3: "0xFFFFFFFFFFFFFFFF div 10 \<ge> diy_f one" using E60 by (simp add: word_le_nat_alt unat_div N)
  have lt: "gen_fractionals s2 < diy_f one" using s2(2) by (simp add: word_less_nat_alt N counted_integral_def)
  have eq: "DigitGenCounted w (int c) buffer = (if gen_requested s2 = 0 then do {
       (r, buffer, kappa) \<leftarrow> RoundWeedCounted (gen_buffer s2) (gen_length s2) (push_bit E (ucast (gen_integrals s2)) + gen_fractionals s2)
         (push_bit E (ucast (gen_divisor s2))) (gen_unit s2) (gen_kappa s2);
       Some (r, buffer, gen_length s2, kappa)
     } else do {
       s \<leftarrow> while_loop (\<lambda>s. Some (gen_requested s > 0 \<and> gen_fractionals s > gen_unit s)) (counted_fractional_step one) s2;
       if gen_requested s \<noteq> 0 then Some (False, gen_buffer s, gen_length s, gen_kappa s)
       else do {
         (r, buffer, kappa) \<leftarrow> RoundWeedCounted (gen_buffer s) (gen_length s) (gen_fractionals s) (diy_f one) (gen_unit s) (gen_kappa s);
         Some (r, buffer, gen_length s, kappa)
       }
     })"
    unfolding DigitGenCounted_def Let_def one_def [symmetric] using E p(1) s2(1) c3 lt one
    by (simp add: check_def e I_def [symmetric] s_def kMinimalTargetExponent_def kMaximalTargetExponent_def nat_diff_distrib)
  show ?thesis
  proof (cases "gen_requested s2 = 0")
    case True
    show ?thesis unfolding eq if_P [OF True] returns_bind
      by (rule returns_mono [OF weed_integral [OF s2(2) True c(2,1) E H64]]) auto
  next
    case False
    then have "counted_fractional H E (length buffer) c 0 s2 \<and> gen_length s2 < c"
      using s2(2,3) c(1) by (auto simp: counted_integral_def counted_fractional_def counted_digits_def)
    then have "counted_fractional H E (length buffer) c 0 s2" "gen_length s2 < c" by blast+
    from returns_ex [OF counted_fractional_loop [OF this E c(2) one]] obtain s3 j where
      s3: "while_loop (\<lambda>s. Some (gen_requested s > 0 \<and> gen_fractionals s > gen_unit s)) (counted_fractional_step one) s2 = Some s3"
        "counted_fractional H E (length buffer) c j s3" "gen_requested s3 = 0 \<longrightarrow> 0 < j" by blast
    show ?thesis
    proof (cases "gen_requested s3 = 0")
      case True
      then have j: "0 < j" using s3(3) by blast
      show ?thesis unfolding eq if_not_P [OF False] s3(1) option_step using True
        by (simp add: returns_bind) (rule returns_mono [OF weed_fractional [OF s3(2) True j c(2) N]], auto)
    next
      case go: False
      then show ?thesis unfolding eq if_not_P [OF False] s3(1) option_step using s3(2) by (simp add: counted_fractional_def counted_digits_def)
    qed
  qed
qed

section \<open>From positions to values\<close>

definition precision_rounded :: "nat \<Rightarrow> real \<Rightarrow> string \<Rightarrow> int \<Rightarrow> bool" where
  "precision_rounded c v ds point \<longleftrightarrow> list_all is_decimal ds \<and> (\<exists>k. 10 powi (k - 1) \<le> v \<and> v < 10 powi k \<and>
     value_of ds (point - int c) = \<lfloor>v * 10 powi (int c - k) + 1 / 2\<rfloor> * 10 powi (k - int c))"

lemma round_at_precision:
  fixes v y :: real
  assumes c: "0 < c" and y: "v = y * 10 powi (p - int c)" and N: "10 ^ (c - 1) \<le> N" "N \<le> 10 ^ c"
    and b: "real N - 1 / 2 \<le> y" "y < real N + 1 / 2" "N = 10 ^ (c - 1) \<Longrightarrow> real N - 1 / 20 \<le> y"
  shows "\<exists>k. 10 powi (k - 1) \<le> v \<and> v < 10 powi k \<and> real N * 10 powi (p - int c) = \<lfloor>v * 10 powi (int c - k) + 1 / 2\<rfloor> * 10 powi (k - int c)"
proof -
  define P M where "P = (10 :: real) powi (p - int c)" and "M = (10 :: nat) ^ (c - 1)"
  define A where "A = real M"
  have P0: "0 < P" and A1: "1 \<le> A" by (simp_all add: P_def A_def M_def)
  have ten: "10 ^ c = 10 * M" using c by (simp add: M_def flip: power_Suc)
  have NM: "M \<le> N" "N \<le> 10 * M" using N unfolding ten by (simp_all only: M_def)
  have "(10 :: real) ^ c = 10 * A" unfolding A_def using arg_cong [OF ten, of real] by simp
  then have "(10 :: real) powi int c = 10 * A" by simp
  then have AP: "10 powi p = 10 * A * P" unfolding P_def using A1 by (simp add: power_int_diff)
  then have pw: "10 powi (p - 1) = A * P" "10 powi (p - 2) = A / 10 * P" "10 powi (p + 1) = 100 * A * P"
    by (simp_all add: power_int_diff power_int_add)
  have sc: "v * 10 powi (int c - p) = y" "v * 10 powi (int c - (p - 1)) = 10 * y" "v * 10 powi (int c - (p + 1)) = y / 10"
    unfolding y by (simp_all add: power_int_diff power_int_add)
  have e: "10 powi (p - 1 - int c) = P / 10" "10 powi (p + 1 - int c) = 10 * P" by (simp_all add: P_def power_int_diff power_int_add)
  have v: "v = y * P" by (simp add: y P_def)
  have le: "a * P \<le> v \<longleftrightarrow> a \<le> y" "v < a * P \<longleftrightarrow> y < a" for a unfolding v using P0 by simp_all
  consider (below) "y < A" | (same) "A \<le> y" "y < 10 * A" | (above) "10 * A \<le> y" by linarith
  then show ?thesis
  proof cases
    case same
    have "\<lfloor>y + 1 / 2\<rfloor> = int N" using b(1,2) by linarith
    then show ?thesis using same by (intro exI [of _ p]) (simp add: AP pw(1) sc P_def [symmetric] le)
  next
    case below
    then have N: "N = M" using b(1) NM(1) unfolding A_def by linarith
    have low: "A - 1 / 20 \<le> y" using b(3) [OF N [unfolded M_def]] unfolding N A_def .
    have "\<lfloor>10 * y + 1 / 2\<rfloor> = 10 * int N" using low below unfolding N A_def by linarith
    moreover have "A / 10 * P \<le> v" unfolding le using low A1 by simp
    ultimately show ?thesis using below by (intro exI [of _ "p - 1"]) (simp add: pw(1,2) sc(2) P_def [symmetric] le e del: times_divide_eq_left)
  next
    case above
    then have N: "N = 10 * M" using b(2) NM(2) unfolding A_def by linarith
    have "\<lfloor>y / 10 + 1 / 2\<rfloor> = int M" using above b(2) unfolding N A_def by linarith
    moreover have "10 powi p \<le> v" "v < 10 powi (p + 1)" unfolding AP pw le using above b(2) A1 unfolding N A_def by simp_all
    ultimately show ?thesis by (intro exI [of _ "p + 1"]) (simp add: sc(3) P_def [symmetric] e N)
  qed
qed

lemma counted_ok_rounded:
  assumes ok: "counted_ok H E c ds kappa'" and c: "0 < c" and x: "\<bar>real H - v * (10 powi mk * real (2 ^ E))\<bar> < 1"
  shows "precision_rounded c v ds (int c + (kappa' - mk))"
proof -
  obtain N kappa where w: "written N kappa ds kappa'" "10 ^ (c - 1) \<le> N" "N \<le> 10 ^ c"
    "real N - 1 / 2 \<le> v * (10 powi mk * real (2 ^ E)) * 10 powi (- kappa) / 2 ^ E" "v * (10 powi mk * real (2 ^ E)) * 10 powi (- kappa) / 2 ^ E < real N + 1 / 2"
    "N = 10 ^ (c - 1) \<longrightarrow> real N - 1 / 20 \<le> v * (10 powi mk * real (2 ^ E)) * 10 powi (- kappa) / 2 ^ E"
    using ok x unfolding counted_ok_def by blast
  define p where "p = int c + (kappa - mk)"
  have "v = v * (10 powi mk * real (2 ^ E)) * 10 powi (- kappa) / 2 ^ E * 10 powi (p - int c)"
    by (simp add: p_def power_int_diff power_int_minus)
  from round_at_precision [OF c this w(2-5)] w(6)
  have "\<exists>k. 10 powi (k - 1) \<le> v \<and> v < 10 powi k \<and> real N * 10 powi (p - int c) = \<lfloor>v * 10 powi (int c - k) + 1 / 2\<rfloor> * 10 powi (k - int c)" by blast
  moreover have "value_of ds (int c + (kappa' - mk) - int c) = real N * 10 powi (p - int c)"
    using value_of_written [OF w(1), of "- mk"] by (simp add: p_def)
  ultimately show ?thesis using w(1) unfolding precision_rounded_def written_def by simp
qed

section \<open>Grisu3Counted and FastDtoa\<close>

lemma Grisu3Counted_correct:
  assumes v: "0 < unat v" "unat v < D_inf_rank" and c: "0 < c" "c < length buffer"
  shows "returns (Grisu3Counted v (int c) buffer) (\<lambda>(r, buf, l, k). length buf = length buffer \<and> l \<le> c \<and>
    (r \<longrightarrow> l = c \<and> precision_rounded c (D_val (unat v)) (take c buf) (int c + k)))"
proof -
  obtain w where w: "D_AsNormalizedDiyFp v = Some w" "normalized w" "diy_val w = D_val (unat v)" "-1140 \<le> diy_e w" "diy_e w \<le> 1000"
    using returns_ex [OF D_AsNormalizedDiyFp_correct [OF v]] by auto
  obtain p mk E where p: "GetCachedPowerForBinaryExponentRange (kMinimalTargetExponent - (diy_e w + 64)) (kMaximalTargetExponent - (diy_e w + 64)) = Some (p, mk)"
    "normalized p" and E: "34 \<le> E" "E \<le> 60"
    and target: "kMinimalTargetExponent \<le> diy_e w + diy_e p + 64 \<and> kMaximalTargetExponent \<ge> diy_e w + diy_e p + 64"
    and scaled: "\<forall>x. diy_e x = diy_e w \<longrightarrow> diy_e (Times x p) = - int E \<and>
      \<bar>real (unat (diy_f (Times x p))) - diy_val x * (10 powi mk * real (2 ^ E))\<bar> < 1"
    by (rule scaling_power [OF w(4,5)])
  note te = scaled [rule_format, THEN conjunct1] and position = scaled [rule_format, THEN conjunct2]
  have "2 ^ 63 \<le> unat (diy_f w)" using w(2) by (simp add: normalized_def)
  from returns_ex [OF DigitGenCounted_correct [OF te [OF refl] E refl Times_limits(2) [OF p(2) this] c]]
  obtain r buf l kappa where g: "DigitGenCounted (Times w p) (int c) buffer = Some (r, buf, l, kappa)" "length buf = length buffer" "l \<le> c"
    "r \<longrightarrow> l = c \<and> counted_ok (unat (diy_f (Times w p))) E c (take c buf) kappa" by blast
  have "precision_rounded c (D_val (unat v)) (take c buf) (int c + (kappa - mk))" if r
    using counted_ok_rounded [OF _ c(1) position [OF refl, unfolded w(3)], of "take c buf" kappa] g(4) that by blast
  then show ?thesis using w(1) p(1) target g by (simp add: Grisu3Counted_def wp Let_def)
qed

lemma FastDtoa_precision:
  assumes v: "0 < unat v" "unat v < D_inf_rank" and c: "0 < c" "c < length buffer"
  shows "returns (FastDtoa v FAST_DTOA_PRECISION (int c) buffer) (\<lambda>(r, buf, l, point). length buf = length buffer \<and> l \<le> c \<and>
    (r \<longrightarrow> l = c \<and> buf ! c = CHR 0x00 \<and> precision_rounded c (D_val (unat v)) (take c buf) point))"
proof -
  from returns_ex [OF Grisu3Counted_correct [OF v c]] obtain r buf l k where
    "Grisu3Counted v (int c) buffer = Some (r, buf, l, k)" "length buf = length buffer" "l \<le> c"
    "r \<longrightarrow> l = c \<and> precision_rounded c (D_val (unat v)) (take c buf) (int c + k)" by blast
  then show ?thesis using v D_rank(2) [OF v(2)] c by (auto simp: FastDtoa_def wp D_positive_iff)
qed

section \<open>Properties\<close>

text \<open>
  C18: \<open>FastDtoa\<close> in the mode \<open>PRECISION\<close>, with 64-bit arithmetic and a table of rounded powers of ten, returns for every positive finite
  double and every number of digits that the buffer holds, no assertion fails and no access leaves the buffer; when it does not give
  up, it has written exactly the requested digits and they stand for the double rounded half up at the last of them.
\<close>

theorem fast_dtoa_precision_rounds:
  assumes "0 < unat v" "unat v < D_inf_rank" "0 < c" "c < length buffer"
  shows "\<exists>r buf l point. FastDtoa v FAST_DTOA_PRECISION (int c) buffer = Some (r, buf, l, point) \<and>
    (r \<longrightarrow> l = c \<and> buf ! c = CHR 0x00 \<and> precision_rounded c (D_val (unat v)) (take c buf) point)"
  using returns_ex [OF FastDtoa_precision [OF assms]] by auto

theorem fast_dtoa_precision_rounds_witness:
  "\<exists>r buf l point. FastDtoa 0x3FB999999999999A FAST_DTOA_PRECISION (int 9) (replicate 10 CHR ''x'') = Some (r, buf, l, point) \<and>
    (r \<longrightarrow> l = 9 \<and> buf ! 9 = CHR 0x00 \<and> precision_rounded 9 (D_val (unat (0x3FB999999999999A :: double))) (take 9 buf) point)"
  by (rule fast_dtoa_precision_rounds) simp_all

end
