(* ===== verification/Precision_Text.thy ===== *)
theory Precision_Text
  imports Grisu_Counted Round_Trip
begin

text \<open>
  \<open>ToExponential\<close> and \<open>ToPrecision\<close>: the digits of \<open>DoubleToAscii\<close> in the mode \<open>PRECISION\<close>, from the fast conversion or from the exact
  one, and the texts that are made of them, which are literals of the rounded number.
\<close>

section \<open>Rounding to a number of digits\<close>

definition rounded_digits :: "nat \<Rightarrow> real \<Rightarrow> real \<Rightarrow> bool" where
  "rounded_digits c v x \<longleftrightarrow> (if v = 0 then x = 0 else \<exists>k. 10 powi (k - 1) \<le> v \<and> v < 10 powi k \<and>
     x = \<lfloor>v * 10 powi (int c - k) + 1 / 2\<rfloor> * 10 powi (k - int c))"

lemma rounded_bounds:
  fixes v :: real
  assumes c: "0 < c" and v: "10 powi (k - 1) \<le> v" "v < 10 powi k"
  defines "x \<equiv> \<lfloor>v * 10 powi (int c - k) + 1 / 2\<rfloor> * 10 powi (k - int c)"
  shows "10 powi (k - 1) \<le> x" "x \<le> 10 powi k"
proof -
  define y M where "y = v * 10 powi (int c - k)" and "M = (10 :: int) ^ (c - 1)"
  have M10: "10 ^ c = 10 * M" using c by (simp add: M_def flip: power_Suc)
  have rM: "real_of_int M = 10 powi (int c - 1)" "real_of_int (10 * M) = 10 powi int c"
    using c unfolding M10 [symmetric] M_def by (simp_all add: power_int_diff power_int_of_nat [symmetric] del: power_int_of_nat)
  have "10 powi (k - 1) * 10 powi (int c - k) \<le> y" "y < 10 powi k * 10 powi (int c - k)"
    unfolding y_def using v by simp_all
  moreover have "10 powi (k - 1) * 10 powi (int c - k) = (10 :: real) powi (int c - 1)" "10 powi k * 10 powi (int c - k) = (10 :: real) powi int c"
    by (simp_all flip: power_int_add)
  ultimately have "real_of_int M \<le> y" "y < real_of_int (10 * M)" unfolding rM by linarith+
  then have "M \<le> \<lfloor>y + 1 / 2\<rfloor>" "\<lfloor>y + 1 / 2\<rfloor> \<le> 10 * M" by linarith+
  then have "real_of_int M \<le> \<lfloor>y + 1 / 2\<rfloor>" "\<lfloor>y + 1 / 2\<rfloor> \<le> real_of_int (10 * M)" by linarith+
  then have "real_of_int M * 10 powi (k - int c) \<le> x" "x \<le> real_of_int (10 * M) * 10 powi (k - int c)"
    unfolding x_def y_def [symmetric] by (intro mult_right_mono; simp)+
  moreover have "10 powi (int c - 1) * (10 :: real) powi (k - int c) = 10 powi (k - 1)" "10 powi int c * (10 :: real) powi (k - int c) = 10 powi k"
    by (simp_all add: power_int_diff)
  ultimately show "10 powi (k - 1) \<le> x" "x \<le> 10 powi k" unfolding rM by linarith+
qed

text \<open>The point is where the number has it, or behind it by at most the number of digits.\<close>

lemma precision_facts:
  fixes u :: double
  assumes u: "0 < unat u" "unat u < D_inf_rank" and c: "0 < c" and len: "length ds = c" and d: "precision_rounded c (D_val (unat u)) ds point"
  shows "-400 < point" "point \<le> 310 + int c" "rounded_digits c (D_val (unat u)) (value_of ds (point - int c))" "list_all is_decimal ds"
proof -
  let ?v = "D_val (unat u)" and ?x = "value_of ds (point - int c)"
  obtain k where k: "10 powi (k - 1) \<le> ?v" "?v < 10 powi k" "?x = \<lfloor>?v * 10 powi (int c - k) + 1 / 2\<rfloor> * 10 powi (k - int c)"
    using d by (auto simp: precision_rounded_def)
  show dec: "list_all is_decimal ds" using d by (simp add: precision_rounded_def)
  have "0 < (10 :: real) powi (k - 1)" by simp
  then have "?v \<noteq> 0" using k(1) by linarith
  then show "rounded_digits c ?v ?x" using k by (auto simp: rounded_digits_def)
  have less: "i < j" if "(10 :: real) powi i < 10 powi j" for i j :: int
    using that power_int_increasing [of j i "10 :: real"] by (cases "i < j") auto
  note x = rounded_bounds [OF c k(1,2), folded k(3)]
  have k1: "k - 1 < 309" using k(1) D_val_less_powi [OF u(2)] by (intro less) linarith
  have k2: "-400 < k"
  proof (rule less, rule ccontr)
    assume "\<not> (10 :: real) powi (-400) < 10 powi k"
    then have "D_nearest ?v 0" using k(2) by (intro tiny_nearest_zero) linarith
    with nearest_unique [OF this nearest_rank_val [OF u(2)]] u(1) show False by simp
  qed
  have "real (text_digits ds) < real (10 ^ c)" using text_digits_less [OF dec] len by (simp only: of_nat_less_iff)
  then have "?x < 10 ^ c * 10 powi (point - int c)" unfolding value_of_def by (intro mult_strict_right_mono) simp_all
  also have "\<dots> = 10 powi point" by (simp add: power_int_diff)
  finally have "(10 :: real) powi (k - 1) < 10 powi point" using x(1) by linarith
  then have "k - 1 < point" by (rule less)
  then show "-400 < point" using k2 by simp
  have "text_digits ds \<noteq> 0" using x(1) \<open>0 < (10 :: real) powi (k - 1)\<close> by (intro notI) (simp add: value_of_def)
  then have "1 * 10 powi (point - int c) \<le> ?x" unfolding value_of_def by (intro mult_right_mono) simp_all
  moreover have "(10 :: real) powi k < 10 powi (k + 1)" by (intro power_int_strict_increasing) simp_all
  ultimately have "(10 :: real) powi (point - int c) < 10 powi (k + 1)" using x(2) by linarith
  then have "point - int c < k + 1" by (rule less)
  then show "point \<le> 310 + int c" using k1 by simp
qed

section \<open>DoubleToAscii\<close>

lemma DoubleToAscii_precision:
  assumes u: "unat u < D_inf_rank" and c: "0 < c" "c < length vec" "2 \<le> length vec"
  shows "returns (DoubleToAscii (with_sign neg u) PRECISION (int c) vec) (\<lambda>(sign, buf, l, point). sign = neg \<and> length buf = length vec \<and>
    (if u = 0 then l = 1 \<and> take l buf = ''0'' \<and> point = 1 else l = c \<and> precision_rounded c (D_val (unat u)) (take l buf) point))"
proof -
  note sf = with_sign_facts [OF u]
  have abs: "(if D_Sign (with_sign neg u) < 0 then (True, double_minus (with_sign neg u)) else (False, with_sign neg u)) = (neg, u)"
    unfolding sf(1) by (cases neg) (simp_all add: with_sign_def)
  note run = DoubleToAscii_def [of "with_sign neg u" PRECISION "int c" vec, unfolded abs Let_def prod.case]
  have eq0: "double_eq u 0 \<longleftrightarrow> u = 0" using with_sign_facts(3) [OF u, of False] by (simp add: with_sign_def)
  show ?thesis
  proof (cases "u = 0")
    case True
    obtain a b t where "vec = a # b # t" using c(3) by (metis One_nat_def Suc_le_length_iff numeral_2_eq_2)
    then show ?thesis using True sf(2) eq0 c(1) unfolding run by (simp add: wp)
  next
    case False
    then have u0: "0 < unat u" by (simp add: unat_gt_0)
    from returns_ex [OF FastDtoa_precision [OF u0 u c(1,2)]] obtain r buf l point where
      f: "FastDtoa u FAST_DTOA_PRECISION (int c) vec = Some (r, buf, l, point)" "length buf = length vec"
        "r \<longrightarrow> l = c \<and> precision_rounded c (D_val (unat u)) (take c buf) point" by blast
    show ?thesis
    proof (cases r)
      case True
      then show ?thesis using False sf(2) eq0 f c unfolding run by (auto simp: wp fast_conversion_def)
    next
      case slow: False
      have "c < length buf" using f(2) c by simp
      from returns_ex [OF BignumDtoa_precision [OF u0 u c(1) this]] obtain buf' point' where
        b: "BignumDtoa u BIGNUM_DTOA_PRECISION (int c) buf = Some (buf', c, point')" "length buf' = length buf"
          "precision_rounded c (D_val (unat u)) (take c buf') point'" unfolding precision_rounded_def by blast
      then show ?thesis using False sf(2) eq0 f c slow unfolding run by (auto simp: wp fast_conversion_def)
    qed
  qed
qed

lemma fill_zeros_correct:
  assumes "l \<le> c" "c \<le> length rep"
  shows "returns (fill_zeros l c rep) (\<lambda>r. length r = length rep \<and> take c r = take l rep @ replicate (c - l) CHR ''0'')"
  unfolding fill_zeros_def
proof (rule returns_for_up [where I = "\<lambda>i r. length r = length rep \<and> take i r = take l rep @ replicate (i - l) CHR ''0''"], goal_cases)
  case (3 i r)
  then have i: "i < length r" using assms(2) by simp
  then show ?case using 3 by (simp add: wp take_Suc_conv_app_nth Suc_diff_le replicate_append_same)
qed (use assms in auto)

lemma value_of_zeros: "value_of (ds @ replicate n CHR ''0'') e = value_of ds (e + int n)"
  by (simp add: value_of_def text_digits_append power_int_add)

text \<open>The digits with the zeros that may be missing, which happens for a zero only.\<close>

lemma precision_digits:
  assumes u: "unat u < D_inf_rank" and c: "0 < c" "c < length vec" "2 \<le> length vec"
  obtains rep l point rep' where "DoubleToAscii (with_sign neg u) PRECISION (int c) vec = Some (neg, rep, l, point)" "length rep = length vec"
    "0 < l" "l \<le> c" "list_all is_decimal (take l rep)" "-400 < point" "point \<le> 310 + int c"
    "rounded_digits c (D_val (unat u)) (value_of (take l rep) (point - int l))"
    "fill_zeros l c rep = Some rep'" "length rep' = length vec" "list_all is_decimal (take c rep')"
    "value_of (take c rep') (point - int c) = value_of (take l rep) (point - int l)"
proof -
  from returns_ex [OF DoubleToAscii_precision [OF u c, of neg]] obtain rep l point where
    a: "DoubleToAscii (with_sign neg u) PRECISION (int c) vec = Some (neg, rep, l, point)" "length rep = length vec"
      "if u = 0 then l = 1 \<and> take l rep = ''0'' \<and> point = 1 else l = c \<and> precision_rounded c (D_val (unat u)) (take l rep) point" by auto
  have l: "0 < l" "l \<le> c" using a(3) c(1) by (auto split: if_splits)
  have f: "list_all is_decimal (take l rep)" "-400 < point" "point \<le> 310 + int c"
    "rounded_digits c (D_val (unat u)) (value_of (take l rep) (point - int l))"
  proof -
    have "list_all is_decimal (take l rep) \<and> -400 < point \<and> point \<le> 310 + int c \<and>
      rounded_digits c (D_val (unat u)) (value_of (take l rep) (point - int l))"
    proof (cases "u = 0")
      case True
      then have t: "take l rep = ''0''" "point = 1" using a(3) unfolding if_P [OF True] by blast+
      show ?thesis unfolding t using True by (simp add: rounded_digits_def value_of_def rank_val_def rank_sig_def)
    next
      case False
      then have "0 < unat u" "length (take c rep) = c" "l = c" using a(2,3) c by (simp_all add: unat_gt_0)
      then show ?thesis using precision_facts [of u c "take c rep" point] u c(1) a(3) False by auto
    qed
    then show "list_all is_decimal (take l rep)" "-400 < point" "point \<le> 310 + int c"
      "rounded_digits c (D_val (unat u)) (value_of (take l rep) (point - int l))" by blast+
  qed
  have "c \<le> length rep" using a(2) c(2) by simp
  from returns_ex [OF fill_zeros_correct [OF l(2) this]] obtain rep' where
    r: "fill_zeros l c rep = Some rep'" "length rep' = length rep" "take c rep' = take l rep @ replicate (c - l) CHR ''0''" by blast
  have z: "list_all is_decimal (replicate n CHR ''0'')" for n by (induction n) simp_all
  show thesis
    by (rule that [OF a(1,2) l f r(1)]) (use r a(2) f(1) z l(2) in \<open>simp_all add: value_of_zeros of_nat_diff\<close>)
qed

section \<open>ToExponential\<close>

lemma exponential_body:
  assumes c: "0 < c" "c \<le> length rep" "c \<le> 121" and dec: "list_all is_decimal (take c rep)" and p: "-400 < point" "point \<le> 310 + int c"
    and ec: "exponent_char_ok conv" and t: "is_sign t"
  obtains body lit where "writes (CreateExponentialRepresentation conv rep c (point - 1)) body" "length body < 150"
    "literal_ok lit" "lit_sign lit = t" "literal_text lit = t @ body" "literal_val lit = value_of (take c rep) (point - int c)"
    "length (lit_int lit) = 1" "length (frac_digits lit) = c - 1"
proof -
  let ?ec = "dts_exponent_character conv"
  have e: "\<bar>point - 1\<bar> < 10000" "?ec \<noteq> CHR 0x00" "?ec = CHR ''e'' \<or> ?ec = CHR ''E''" using p c(3) ec by (auto simp: exponent_char_ok_def)
  from writes_exponential [OF c(1,2) dec e(1,2)] obtain x where
    w: "writes (CreateExponentialRepresentation conv rep c (point - 1))
      (rep ! 0 # (if c \<noteq> 1 then CHR ''.'' # drop 1 (take c rep) else []) @ ?ec # x)" (is "writes _ ?body")
    and x: "signed_digits x" "signed_val x = point - 1" .
  obtain lit where lit: "literal_ok lit" "lit_sign lit = t" "literal_text lit = t @ ?body" "literal_val lit = value_of (take c rep) (signed_val x + 1 - int c)"
    "length (lit_int lit) = 1" "length (frac_digits lit) = c - 1" by (rule exponential_literal [OF c(1,2) dec e(3) x(1) t])
  have "length x \<le> 6" using x(1) by (auto simp: signed_digits_def)
  then have "length ?body < 150" using c by auto
  then show thesis using that [OF w _ lit(1-3) _ lit(5,6)] lit(4) unfolding x(2) by simp
qed

lemma ToExponential_literal:
  assumes u: "unat u < D_inf_rank" and r: "-1 \<le> r" "r \<le> 120" and ec: "exponent_char_ok conv" and room: "200 \<le> length buffer"
  obtains b lit where "ToExponential conv (with_sign neg u) r (new_builder buffer) = Some (True, b)"
    "holds b (length buffer) (literal_text lit)" "literal_ok lit" "lit_sign lit = sign_text conv neg (with_sign neg u)" "length (lit_int lit) = 1"
    "if r = -1 then D_nearest (literal_val lit) (unat u)
     else int (length (frac_digits lit)) = r \<and> rounded_digits (nat (r + 1)) (D_val (unat u)) (literal_val lit)"
proof -
  let ?v = "with_sign neg u" and ?rep = "replicate (kMaxExponentialDigits + 2) CHR 0x00"
  have size: "length ?rep = 122" by (simp add: kMaxExponentialDigits_def)
  define digits where "digits = (if r = -1 then DoubleToAscii ?v SHORTEST 0 ?rep
     else do {
       (sign, rep, len, decimal_point) \<leftarrow> DoubleToAscii ?v PRECISION (r + 1) ?rep;
       check (int len \<le> r + 1);
       rep \<leftarrow> fill_zeros len (nat (r + 1)) rep;
       Some (sign, rep, nat (r + 1), decimal_point)
     })"
  obtain rep c point where d: "digits = Some (neg, rep, c, point)" and c: "0 < c" "c \<le> length rep" "c \<le> 121" and dec: "list_all is_decimal (take c rep)"
    and p: "-400 < point" "point \<le> 310 + int c" and val: "if r = -1 then D_nearest (value_of (take c rep) (point - int c)) (unat u)
      else int c = r + 1 \<and> rounded_digits (nat (r + 1)) (D_val (unat u)) (value_of (take c rep) (point - int c))"
  proof (cases "r = -1")
    case True
    have "18 \<le> length ?rep" unfolding size by simp
    from returns_ex [OF double_mode.to_ascii [OF u this, of neg 0]] obtain rep l point where
      a: "DoubleToAscii ?v SHORTEST 0 ?rep = Some (neg, rep, l, point)" "length rep = 122" "0 < l" "l \<le> 17" "D_shortest u (take l rep) point"
      unfolding size by auto
    have "length (take l rep) = l" using a(2,4) by simp
    then show thesis using a True D_shortest_nearest [OF u a(5)] by (intro that [of rep l point]) (auto simp: digits_def)
  next
    case False
    define k where "k = nat (r + 1)"
    have k: "0 < k" "k < length ?rep" "2 \<le> length ?rep" "int k = r + 1" "k \<le> 121" unfolding size using r False by (simp_all add: k_def)
    show thesis
    proof (rule precision_digits [OF u k(1-3), of neg], unfold k(4) size, goal_cases)
      case (1 rep l point rep')
      have "int l \<le> r + 1" using 1(4) k(4) by simp
      then show thesis using 1 k False unfolding k_def [symmetric] by (intro that [of rep' k point]) (auto simp: digits_def k_def [symmetric] check_def)
    qed
  qed
  obtain body lit where w: "writes (CreateExponentialRepresentation conv rep c (point - 1)) body" "length body < 150"
    and lit: "literal_ok lit" "lit_sign lit = sign_text conv neg ?v" "literal_text lit = sign_text conv neg ?v @ body"
      "literal_val lit = value_of (take c rep) (point - int c)" "length (lit_int lit) = 1" "length (frac_digits lit) = c - 1"
    by (rule exponential_body [OF c dec p ec is_sign_text])
  have "length (sign_text conv neg ?v @ body) < length buffer" using w(2) room by (simp add: sign_text_def)
  from writes_after_sign [OF w(1) this] obtain b0 b where b: "add_sign conv neg ?v (new_builder buffer) = Some b0"
    "CreateExponentialRepresentation conv rep c (point - 1) b0 = Some b" "holds b (length buffer) (sign_text conv neg ?v @ body)" .
  have cap: "check (kMaxExponentialDigits + 2 > kBase10MaximalLength) = Some ()" by (simp add: check_def kMaxExponentialDigits_def kBase10MaximalLength_def)
  have lim: "\<not> r < -1" "\<not> r > int kMaxExponentialDigits" using r by (simp_all add: kMaxExponentialDigits_def)
  have "ToExponential conv ?v r (new_builder buffer) = Some (True, b)"
    unfolding ToExponential_def if_not_P [OF with_sign_facts(2) [OF u]] if_not_P [OF lim(1)] if_not_P [OF lim(2)] Let_def cap option_step
      digits_def [symmetric] d using b by simp
  then show thesis using b(3) lit val c(1) unfolding lit(3) [symmetric] by (intro that [of b lit]) (auto split: if_splits)
qed

section \<open>ToPrecision\<close>

lemma decimal_precision_length:
  assumes "length ds \<le> 120" "-400 < point" "point \<le> 430" "0 \<le> after" "after \<le> 520"
  shows "length (decimal_body ds point after @ decimal_tail conv after) < 1100"
  using assms by (auto simp: decimal_body_def decimal_tail_def)

lemma ToPrecision_literal:
  assumes u: "unat u < D_inf_rank" and r: "1 \<le> r" "r \<le> 120" and conv: "conv_ok conv" "exponent_char_ok conv" and room: "1200 \<le> length buffer"
  obtains b lit where "ToPrecision conv (with_sign neg u) r (new_builder buffer) = Some (True, b)"
    "holds b (length buffer) (literal_text lit)" "literal_ok lit" "lit_sign lit = sign_text conv neg (with_sign neg u)"
    "rounded_digits (nat r) (D_val (unat u)) (literal_val lit)"
proof -
  let ?v = "with_sign neg u" and ?rep = "replicate (kMaxPrecisionDigits + 1) CHR 0x00" and ?t = "sign_text conv neg (with_sign neg u)"
  define c where "c = nat r"
  have size: "length ?rep = 121" by (simp add: kMaxPrecisionDigits_def)
  have c: "0 < c" "c < length ?rep" "2 \<le> length ?rep" "int c = r" "c \<le> 121" "c \<le> 120" unfolding size using r by (simp_all add: c_def)
  obtain rep l point rep' where a: "DoubleToAscii ?v PRECISION r ?rep = Some (neg, rep, l, point)" "length rep = 121"
    "0 < l" "l \<le> c" "list_all is_decimal (take l rep)" and p: "-400 < point" "point \<le> 310 + int c"
    and val: "rounded_digits c (D_val (unat u)) (value_of (take l rep) (point - int l))"
    and z: "fill_zeros l c rep = Some rep'" "length rep' = 121" "list_all is_decimal (take c rep')"
      "value_of (take c rep') (point - int c) = value_of (take l rep) (point - int l)"
    using precision_digits [OF u c(1-3), of neg] unfolding c(4) size by blast
  define zero where "zero = (if has_flag (dts_flags conv) EMIT_TRAILING_ZERO_AFTER_POINT then 1 else 0 :: int)"
  define e where "e \<longleftrightarrow> - point + 1 > dts_max_leading_padding conv \<or> point - r + zero > dts_max_trailing_padding conv"
  define after where "after = max 0 (r - point)"
  have len: "length (take l rep) = l" "l \<le> length rep" "take l rep \<noteq> []" using a(2-4) c(6) by auto
  obtain body lit where w: "writes (\<lambda>b. if e then do { rep \<leftarrow> fill_zeros l c rep; CreateExponentialRepresentation conv rep c (point - 1) b }
        else CreateDecimalRepresentation conv rep (int l) point after b) body" "length body < 1100"
    and lit: "literal_ok lit" "lit_sign lit = ?t" "literal_text lit = ?t @ body" "literal_val lit = value_of (take l rep) (point - int l)"
  proof (cases e)
    case True
    have "c \<le> length rep'" using z(2) c(5) by simp
    then obtain body lit where w: "writes (CreateExponentialRepresentation conv rep' c (point - 1)) body" "length body < 150"
      and lit: "literal_ok lit" "lit_sign lit = ?t" "literal_text lit = ?t @ body" "literal_val lit = value_of (take c rep') (point - int c)"
      using exponential_body [OF c(1) _ c(5) z(3) p conv(2) is_sign_text [of conv neg ?v]] by metis
    show thesis by (rule that [OF _ _ lit(1-3)]) (use True w z(1,4) lit(4) in simp_all)
  next
    case False
    have ra: "0 \<le> after" "int l \<le> after + point" "int (length (take l rep)) \<le> after + point" using a(4) c(4) len(1) by (simp_all add: after_def)
    obtain lit where lit: "literal_ok lit" "lit_sign lit = ?t" "literal_text lit = ?t @ decimal_body (take l rep) point after @ decimal_tail conv after"
      "literal_val lit = value_of (take l rep) (point - int (length (take l rep)))"
      by (rule decimal_literal [OF a(5) len(3) ra(1,3) conv(1) is_sign_text [of conv neg ?v]])
    note w = writes_decimal [OF len(2) a(5) ra(2), of conv]
    have "length (decimal_body (take l rep) point after @ decimal_tail conv after) < 1100"
      by (rule decimal_precision_length) (use len a c p r in \<open>simp_all add: after_def\<close>)
    then show thesis by (rule that [OF _ _ lit(1-3), rotated]) (use False w lit(4) len(1) in simp_all)
  qed
  have "length (?t @ body) < length buffer" using w(2) room by (simp add: sign_text_def)
  from writes_after_sign [OF w(1) this] obtain b0 b where b: "add_sign conv neg ?v (new_builder buffer) = Some b0"
    "(if e then do { rep \<leftarrow> fill_zeros l c rep; CreateExponentialRepresentation conv rep c (point - 1) b0 }
        else CreateDecimalRepresentation conv rep (int l) point after b0) = Some b" "holds b (length buffer) (?t @ body)" .
  have lim: "\<not> (r < kMinPrecisionDigits \<or> r > int kMaxPrecisionDigits)" "check (int l \<le> r) = Some ()"
    using r a(4) c(4) by (simp_all add: kMinPrecisionDigits_def kMaxPrecisionDigits_def check_def)
  have "ToPrecision conv ?v r (new_builder buffer) = Some (True, b)"
    unfolding ToPrecision_def if_not_P [OF with_sign_facts(2) [OF u]] if_not_P [OF lim(1)] a(1) option_step prod.case lim(2) b(1) Let_def
      zero_def [symmetric] e_def [symmetric] after_def [symmetric] c_def [symmetric] b(2) ..
  then show thesis using b(3) lit val unfolding lit(3) [symmetric] c_def by (intro that [of b lit]) simp_all
qed

section \<open>Properties\<close>

text \<open>
  C6: \<open>ToExponential\<close> with \<open>r\<close> digits after the point, at most 120, writes for every double that is not an infinity or NaN a literal with
  one digit in front of the point and exactly \<open>r\<close> behind it, whose number is the double rounded half up to \<open>r + 1\<close> significant digits;
  with \<open>-1\<close> it writes a literal whose number is nearest to that double and to no other. No assertion fails, and a builder with a
  buffer of 200 characters suffices.
\<close>

theorem to_exponential_rounds:
  assumes "\<not> D_IsSpecial v" "-1 \<le> r" "r \<le> 120" "exponent_char_ok conv" "200 \<le> length buffer"
  shows "\<exists>b lit. ToExponential conv v r (new_builder buffer) = Some (True, b) \<and> holds b (length buffer) (literal_text lit) \<and>
    literal_ok lit \<and> lit_sign lit = sign_text conv (D_Sign v < 0) v \<and> length (lit_int lit) = 1 \<and>
    (if r = -1 then D_nearest (literal_val lit) (unat (v AND NOT D_kSignMask))
     else int (length (frac_digits lit)) = r \<and> rounded_digits (nat (r + 1)) (D_val (unat (v AND NOT D_kSignMask))) (literal_val lit))"
proof -
  from signed_cases [OF assms(1)] obtain neg u where v: "v = with_sign neg u" and u: "unat u < D_inf_rank"
    and m: "v AND NOT D_kSignMask = u" and sign: "(D_Sign v < 0) = neg" .
  from ToExponential_literal [OF u assms(2-5), of neg] show ?thesis unfolding m sign unfolding v by blast
qed

theorem to_exponential_rounds_witness:
  "\<exists>b lit. ToExponential \<lparr>dts_flags = 0, dts_infinity_symbol = None, dts_nan_symbol = None,
      dts_exponent_character = CHR ''e'', dts_decimal_in_shortest_low = -6, dts_decimal_in_shortest_high = 21,
      dts_max_leading_padding = 6, dts_max_trailing_padding = 0\<rparr> 0x3FF8000000000000 4 (new_builder (replicate 200 CHR 0x00)) = Some (True, b) \<and>
    holds b 200 (literal_text lit) \<and> literal_ok lit \<and> lit_sign lit = [] \<and> length (lit_int lit) = 1 \<and> length (frac_digits lit) = 4 \<and>
    rounded_digits 5 (D_val (unat (0x3FF8000000000000 :: double))) (literal_val lit)"
proof -
  let ?c = "\<lparr>dts_flags = 0, dts_infinity_symbol = None, dts_nan_symbol = None, dts_exponent_character = CHR ''e'', dts_decimal_in_shortest_low = -6,
      dts_decimal_in_shortest_high = 21, dts_max_leading_padding = 6, dts_max_trailing_padding = 0\<rparr>"
  let ?v = "0x3FF8000000000000 :: double"
  have f: "\<not> D_IsSpecial ?v" "\<not> D_Sign ?v < 0" "?v AND NOT D_kSignMask = ?v"
    by (simp_all add: D_IsSpecial_def D_kExponentMask_def D_Sign_def D_kSignMask_def)
  have s: "sign_text ?c False ?v = []" by (simp add: sign_text_def)
  have "exponent_char_ok ?c" by (simp add: exponent_char_ok_def)
  from to_exponential_rounds [OF f(1) _ _ this, of 4 "replicate 200 CHR 0x00"] f(2,3) s show ?thesis by simp
qed

text \<open>
  C7: \<open>ToPrecision\<close> with \<open>r\<close> digits, from 1 to 120, writes for every double that is not an infinity or NaN a literal, in one of the two
  formats, whose number is the double rounded half up to \<open>r\<close> significant digits, with the sign of the double. No assertion fails, and
  a builder with a buffer of 1200 characters suffices.
\<close>

theorem to_precision_rounds:
  assumes "\<not> D_IsSpecial v" "1 \<le> r" "r \<le> 120" "conv_ok conv" "exponent_char_ok conv" "1200 \<le> length buffer"
  shows "\<exists>b lit. ToPrecision conv v r (new_builder buffer) = Some (True, b) \<and> holds b (length buffer) (literal_text lit) \<and>
    literal_ok lit \<and> lit_sign lit = sign_text conv (D_Sign v < 0) v \<and>
    rounded_digits (nat r) (D_val (unat (v AND NOT D_kSignMask))) (literal_val lit)"
proof -
  from signed_cases [OF assms(1)] obtain neg u where v: "v = with_sign neg u" and u: "unat u < D_inf_rank"
    and m: "v AND NOT D_kSignMask = u" and sign: "(D_Sign v < 0) = neg" .
  from ToPrecision_literal [OF u assms(2-6), of neg] show ?thesis unfolding m sign unfolding v by blast
qed

theorem to_precision_rounds_witness:
  "\<exists>b lit. ToPrecision \<lparr>dts_flags = 0, dts_infinity_symbol = None, dts_nan_symbol = None,
      dts_exponent_character = CHR ''e'', dts_decimal_in_shortest_low = -6, dts_decimal_in_shortest_high = 21,
      dts_max_leading_padding = 6, dts_max_trailing_padding = 0\<rparr> 0x3FF8000000000000 20 (new_builder (replicate 1200 CHR 0x00)) = Some (True, b) \<and>
    holds b 1200 (literal_text lit) \<and> literal_ok lit \<and> lit_sign lit = [] \<and>
    rounded_digits 20 (D_val (unat (0x3FF8000000000000 :: double))) (literal_val lit)"
proof -
  let ?c = "\<lparr>dts_flags = 0, dts_infinity_symbol = None, dts_nan_symbol = None, dts_exponent_character = CHR ''e'', dts_decimal_in_shortest_low = -6,
      dts_decimal_in_shortest_high = 21, dts_max_leading_padding = 6, dts_max_trailing_padding = 0\<rparr>"
  let ?v = "0x3FF8000000000000 :: double"
  have f: "\<not> D_IsSpecial ?v" "\<not> D_Sign ?v < 0" "?v AND NOT D_kSignMask = ?v"
    by (simp_all add: D_IsSpecial_def D_kExponentMask_def D_Sign_def D_kSignMask_def)
  have s: "sign_text ?c False ?v = []" by (simp add: sign_text_def)
  have "conv_ok ?c" "exponent_char_ok ?c" by (simp_all add: conv_ok_def exponent_char_ok_def has_flag_def)
  from to_precision_rounds [OF f(1) _ _ this, of 20 "replicate 1200 CHR 0x00"] f(2,3) s show ?thesis by simp
qed

end
