(* ===== verification/Builder.thy ===== *)
theory Builder
  imports Utils
begin

text \<open>
  \<open>StringBuilder\<close> as a state machine. Its abstract counterpart is a text of bounded length that is open for more characters or
  closed by \<open>Finalize\<close>. Every call on the concrete builder succeeds exactly when the abstract one does, and leads to a builder
  that represents the abstract result; the sequences of calls that a client can make follow by induction.
\<close>

section \<open>Calls\<close>

datatype builder_call =
    Call_AddCharacter char
  | Call_AddSubstring string int
  | Call_AddString string
  | Call_AddPadding char int
  | Call_Reset
  | Call_Finalize

fun run_call :: "builder_call \<Rightarrow> string_builder \<Rightarrow> string_builder result" where
  "run_call (Call_AddCharacter c) b = AddCharacter c b"
| "run_call (Call_AddSubstring s n) b = AddSubstring s n b"
| "run_call (Call_AddString s) b = AddString s b"
| "run_call (Call_AddPadding c count) b = AddPadding c count b"
| "run_call Call_Reset b = Some (Reset b)"
| "run_call Call_Finalize b = Finalize b"

fun run_calls :: "builder_call list \<Rightarrow> string_builder \<Rightarrow> string_builder result" where
  "run_calls [] b = Some b"
| "run_calls (c # cs) b = do { b \<leftarrow> run_call c b; run_calls cs b }"

section \<open>The abstract machine\<close>

datatype text_state = Open string | Closed string

fun text_call :: "nat \<Rightarrow> builder_call \<Rightarrow> text_state \<Rightarrow> text_state option" where
  "text_call n (Call_AddCharacter c) (Open s) = (if c \<noteq> CHR 0x00 \<and> length s < n then Some (Open (s @ [c])) else None)"
| "text_call n (Call_AddSubstring t k) (Open s) =
     (if 0 \<le> k \<and> k \<le> int (strlen t) \<and> int (length s) + k < int n then Some (Open (s @ take (nat k) t)) else None)"
| "text_call n (Call_AddString t) (Open s) =
     (if strlen t < 2 ^ 31 \<and> length s + strlen t < n then Some (Open (s @ take (strlen t) t)) else None)"
| "text_call n (Call_AddPadding c k) (Open s) =
     (if k \<le> 0 \<or> c \<noteq> CHR 0x00 \<and> int (length s) + k \<le> int n then Some (Open (s @ replicate (nat k) c)) else None)"
| "text_call n Call_Finalize (Open s) = (if length s < n then Some (Closed s) else None)"
| "text_call n Call_Reset _ = Some (Open [])"
| "text_call n (Call_AddPadding c k) (Closed s) = (if k \<le> 0 then Some (Closed s) else None)"
| "text_call n _ (Closed s) = None"

fun text_calls :: "nat \<Rightarrow> builder_call list \<Rightarrow> text_state \<Rightarrow> text_state option" where
  "text_calls n [] t = Some t"
| "text_calls n (c # cs) t = do { t \<leftarrow> text_call n c t; text_calls n cs t }"

fun represents :: "nat \<Rightarrow> string_builder \<Rightarrow> text_state \<Rightarrow> bool" where
  "represents n b (Open s) \<longleftrightarrow> holds b n s"
| "represents n b (Closed s) \<longleftrightarrow> builder_size b = n \<and> is_finalized b \<and> strlen (sb_buffer b) < n \<and>
     take (strlen (sb_buffer b)) (sb_buffer b) = s"

section \<open>Simulation\<close>

lemma rel_returns: "returns m (\<lambda>b. represents n b t) \<Longrightarrow> rel_option (represents n) m (Some t)"
  by (auto elim: returnsE)

lemma holds_facts: "holds b n s \<Longrightarrow> \<not> is_finalized b \<and> builder_size b = n \<and> sb_position b = int (length s)"
  by (simp add: holds_def is_finalized_def)

lemma AddCharacter_fails:
  "holds b n s \<Longrightarrow> c = CHR 0x00 \<or> length s = n \<Longrightarrow> AddCharacter c b = None"
  using holds_facts [of b n s] by (auto simp: AddCharacter_def check_def)

lemma holds_length: "holds b n s \<Longrightarrow> length s \<le> n"
  by (simp add: holds_def)

lemma for_up_fails:
  assumes h: "holds b n s" and k: "i < k" and c: "c = CHR 0x00 \<or> n < length s + (k - i)"
  shows "for_up i k (\<lambda>i b. AddCharacter c b) b = None"
  using assms
proof (induction "k - i" arbitrary: i b s)
  case (Suc d)
  show ?case
  proof (cases "AddCharacter c b")
    case None
    then show ?thesis using Suc.prems(2) by (subst for_up.simps) simp
  next
    case (Some b')
    then have c: "c \<noteq> CHR 0x00" "length s < n" using AddCharacter_fails [OF Suc.prems(1), of c] holds_length [OF Suc.prems(1)] by fastforce+
    from returns_ex [OF AddCharacter_holds [OF c(1) Suc.prems(1) c(2)]] Some have "holds b' n (s @ [c])" by simp
    moreover have "n < length (s @ [c]) + (k - Suc i)" "Suc i < k" "d = k - Suc i" using Suc c by auto
    ultimately have "for_up (Suc i) k (\<lambda>i b. AddCharacter c b) b' = None" using Suc.hyps(1) [of "Suc i" b' "s @ [c]"] c(1) by simp
    then show ?thesis using Some Suc.prems(2) by (subst for_up.simps) simp
  qed
qed simp

lemma AddPadding_simulates: "holds b n s \<Longrightarrow> rel_option (represents n) (AddPadding c k b) (text_call n (Call_AddPadding c k) (Open s))"
proof (cases "k \<le> 0 \<or> c \<noteq> CHR 0x00 \<and> int (length s) + k \<le> int n")
  case True
  assume h: "holds b n s"
  show ?thesis
  proof (cases "k \<le> 0")
    case True
    then have "AddPadding c k b = Some b" by (simp add: AddPadding_def for_up_stop)
    with True h show ?thesis by simp
  next
    case False
    then have "c \<noteq> CHR 0x00" "length s + nat k \<le> n" using True by auto
    from AddPadding_holds [OF this(1) h this(2)] have "returns (AddPadding c k b) (\<lambda>b. represents n b (Open (s @ replicate (nat k) c)))" by simp
    from rel_returns [OF this] show ?thesis using True by simp
  qed
next
  case False
  assume "holds b n s"
  then have "AddPadding c k b = None" unfolding AddPadding_def by (rule for_up_fails) (use False in auto)
  with False show ?thesis by simp
qed

lemma AddSubstring_simulates: "holds b n s \<Longrightarrow> rel_option (represents n) (AddSubstring t k b) (text_call n (Call_AddSubstring t k) (Open s))"
proof (cases "0 \<le> k \<and> k \<le> int (strlen t) \<and> int (length s) + k < int n")
  case True
  assume h: "holds b n s"
  have "0 \<le> k" "nat k \<le> strlen t" "length s + nat k < n" using True by auto
  from AddSubstring_holds [OF this(1,2) h this(3)] have "returns (AddSubstring t k b) (\<lambda>b. represents n b (Open (s @ take (nat k) t)))" by simp
  from rel_returns [OF this] show ?thesis using True by simp
next
  case False
  assume "holds b n s"
  then have "AddSubstring t k b = None" using False holds_facts [of b n s] by (auto simp: AddSubstring_def check_def)
  with False show ?thesis by simp
qed

lemma Finalize_size: "Finalize b = Some b' \<Longrightarrow> builder_size b' = builder_size b \<and> strlen (sb_buffer b') < builder_size b"
  by (auto simp: Finalize_def check_def vset_def builder_size_def is_finalized_def Let_def split: if_splits option.splits)

lemma Finalize_simulates: "holds b n s \<Longrightarrow> rel_option (represents n) (Finalize b) (text_call n Call_Finalize (Open s))"
proof (cases "length s < n")
  case True
  assume h: "holds b n s"
  from returns_ex [OF Finalize_holds [OF h True]] obtain b' where
    f: "Finalize b = Some b'" "is_finalized b'" "take (strlen (sb_buffer b')) (sb_buffer b') = s" by blast
  then show ?thesis using True Finalize_size [OF f(1)] holds_facts [OF h] by simp
next
  case False
  assume "holds b n s"
  then have "Finalize b = None" using False holds_facts [of b n s] by (auto simp: Finalize_def check_def)
  with False show ?thesis by simp
qed

lemma closed_calls:
  assumes "is_finalized b"
  shows "AddCharacter c b = None" "AddSubstring t k b = None" "AddString t b = None" "Finalize b = None" "0 < k \<Longrightarrow> AddPadding c k b = None"
    "k \<le> 0 \<Longrightarrow> AddPadding c k b = Some b"
proof -
  show a: "AddCharacter c b = None" for c using assms by (simp add: AddCharacter_def check_def)
  show s: "AddSubstring t k b = None" for t k using assms by (simp add: AddSubstring_def check_def)
  then show "AddString t b = None" by (simp add: AddString_def StrLength_def check_def)
  show "Finalize b = None" using assms by (simp add: Finalize_def check_def)
  show "0 < k \<Longrightarrow> AddPadding c k b = None" using a by (subst AddPadding_def, subst for_up.simps) simp
  show "k \<le> 0 \<Longrightarrow> AddPadding c k b = Some b" by (simp add: AddPadding_def for_up_stop)
qed

lemma represents_size: "represents n b t \<Longrightarrow> builder_size b = n"
  by (cases t) (simp_all add: holds_def)

lemma call_simulates:
  assumes "represents n b t"
  shows "rel_option (represents n) (run_call c b) (text_call n c t)"
proof (cases t)
  case (Open s)
  then have h: "holds b n s" using assms by simp
  show ?thesis
  proof (cases c)
    case (Call_AddCharacter c')
    have "returns (AddCharacter c' b) (\<lambda>b. represents n b (Open (s @ [c'])))" if "c' \<noteq> CHR 0x00" "length s < n"
      using AddCharacter_holds [OF that(1) h that(2)] by simp
    moreover have "AddCharacter c' b = None" if "\<not> (c' \<noteq> CHR 0x00 \<and> length s < n)"
      using that holds_length [OF h] by (intro AddCharacter_fails [OF h]) auto
    ultimately show ?thesis using Call_AddCharacter Open rel_returns by simp
  next
    case (Call_AddString t')
    then show ?thesis
      using Open AddSubstring_simulates [OF h, of t' "int (strlen t')"] by (auto simp: AddString_def StrLength_def check_def split: if_splits)
  next
    case Call_Reset
    then show ?thesis using Open holds_Reset [OF h] by simp
  qed (use Open AddSubstring_simulates [OF h] AddPadding_simulates [OF h] Finalize_simulates [OF h] in \<open>simp_all del: text_call.simps\<close>)
next
  case (Closed s)
  then have f: "is_finalized b" using assms by simp
  show ?thesis
  proof (cases c)
    case (Call_AddPadding c' k)
    then show ?thesis using Closed closed_calls(5,6) [OF f, of k c'] assms by (cases "k \<le> 0") simp_all
  next
    case Call_Reset
    have "holds (Reset b) n []" using represents_size [OF assms] by (simp add: holds_def Reset_def builder_size_def)
    then show ?thesis using Closed Call_Reset by simp
  qed (use Closed closed_calls [OF f] in simp_all)
qed

lemma calls_simulate:
  "represents n b t \<Longrightarrow> rel_option (represents n) (run_calls cs b) (text_calls n cs t)"
proof (induction cs arbitrary: b t)
  case (Cons c cs)
  then show ?case using call_simulates [OF Cons.prems, of c] by (auto elim!: option.rel_cases)
qed simp

section \<open>Reachable builders\<close>

inductive reachable :: "string \<Rightarrow> string_builder \<Rightarrow> bool" for buffer where
  start: "reachable buffer (new_builder buffer)"
| call: "reachable buffer b \<Longrightarrow> run_call c b = Some b' \<Longrightarrow> reachable buffer b'"

definition builder_inv :: "nat \<Rightarrow> string_builder \<Rightarrow> bool" where
  "builder_inv n b \<longleftrightarrow> builder_size b = n \<and>
     (if is_finalized b then strlen (sb_buffer b) < n
      else sb_position b \<le> int n \<and> CHR 0x00 \<notin> set (take (nat (sb_position b)) (sb_buffer b)))"

lemma represents_inv: "represents n b t \<Longrightarrow> builder_inv n b"
  by (cases t) (auto simp: builder_inv_def holds_def is_finalized_def)

lemma reachable_represents: "reachable buffer b \<Longrightarrow> \<exists>t. represents (length buffer) b t"
proof (induction rule: reachable.induct)
  case start
  show ?case using holds_new [of buffer] by (intro exI [of _ "Open []"]) simp
next
  case (call b c b')
  then obtain t where "represents (length buffer) b t" by blast
  from call_simulates [OF this, of c] call(2) show ?case by (auto elim: option.rel_cases)
qed

section \<open>Properties\<close>

text \<open>
  C25: \<open>StringBuilder\<close> refines a bounded text: any sequence of calls on a new builder succeeds exactly when the same sequence on the
  abstract text does (otherwise one of its assertions fails at the same call), and then the builder represents the abstract text; in
  particular after \<open>Finalize\<close> its buffer holds, as a C string, what was written since the last \<open>Reset\<close>.
\<close>

theorem string_builder_refines_text:
  "rel_option (represents (length buffer)) (run_calls cs (new_builder buffer)) (text_calls (length buffer) cs (Open []))"
  using calls_simulate [of "length buffer" "new_builder buffer" "Open []"] holds_new [of buffer] by simp

text \<open>
  C26: Every builder that calls can reach keeps the buffer that it was given at its size, never has a position beyond its end, has no
  zero character in the text written so far, and is terminated inside the buffer once it is finalized.
\<close>

theorem string_builder_invariant:
  assumes "reachable buffer b"
  shows "builder_inv (length buffer) b"
  using reachable_represents [OF assms] represents_inv by blast

theorem string_builder_invariant_witness:
  "builder_inv 4 \<lparr>sb_buffer = ''no'' @ [CHR 0x00] @ ''x'', sb_position = -1\<rparr>"
proof -
  have c: "run_calls [Call_AddString ''no'', Call_Finalize] (new_builder ''xxxx'') = Some \<lparr>sb_buffer = ''no'' @ [CHR 0x00] @ ''x'', sb_position = -1\<rparr>"
    by (simp add: AddString_def StrLength_def strlen_def check_def AddSubstring_def Finalize_def is_finalized_def builder_size_def new_builder_def vset_def Let_def)
  obtain b1 where b1: "run_call (Call_AddString ''no'') (new_builder ''xxxx'') = Some b1"
    "run_call Call_Finalize b1 = Some \<lparr>sb_buffer = ''no'' @ [CHR 0x00] @ ''x'', sb_position = -1\<rparr>"
    using c by (auto simp: bind_eq_Some_conv simp del: run_call.simps)
  have "reachable ''xxxx'' \<lparr>sb_buffer = ''no'' @ [CHR 0x00] @ ''x'', sb_position = -1\<rparr>"
    by (rule reachable.call [OF reachable.call [OF reachable.start b1(1)] b1(2)])
  from string_builder_invariant [OF this] show ?thesis by (simp add: eval_nat_numeral)
qed

end
