(* ===== verification/Radix_Reader.thy ===== *)
theory Radix_Reader
  imports Parse_Loops
begin

text \<open>
  \<open>RadixStringToIeee\<close>, the reader of hexadecimal and octal numbers: the digits of the text, followed by anything, are read as their
  number rounded to the significand, half to even. The proof is generic in the radix and in the size of the significand.
\<close>

section \<open>Digits\<close>

definition radix_char :: "nat \<Rightarrow> char \<Rightarrow> bool" where
  "radix_char b c \<longleftrightarrow> radix_digit (2 ^ b) (of_char c) \<noteq> None"

definition radix_char_val :: "nat \<Rightarrow> char \<Rightarrow> nat" where
  "radix_char_val b c = nat (the (radix_digit (2 ^ b) (of_char c)))"

definition radix_val :: "nat \<Rightarrow> string \<Rightarrow> nat" where
  "radix_val b w = foldl (\<lambda>n c. n * 2 ^ b + radix_char_val b c) 0 w"

lemma radix_val_Nil [simp]: "radix_val b [] = 0"
  by (simp add: radix_val_def)

lemma radix_val_snoc [simp]: "radix_val b (w @ [c]) = radix_val b w * 2 ^ b + radix_char_val b c"
  by (simp add: radix_val_def)

lemma radix_val_append: "radix_val b (v @ w) = radix_val b v * 2 ^ (b * length w) + radix_val b w"
  by (induction w rule: rev_induct) (simp_all add: append_assoc [symmetric] power_add algebra_simps del: append_assoc)

lemma radix_digit_bounds: "radix_digit (2 ^ b) c = Some d \<Longrightarrow> 0 \<le> d \<and> d < 2 ^ b"
  by (auto simp: radix_digit_def IsDecimalDigitForRadix_def IsCharacterDigitForRadix_def split: if_splits)

lemma radix_char_digit: "radix_char b c \<Longrightarrow> radix_digit (2 ^ b) (of_char c) = Some (int (radix_char_val b c)) \<and> radix_char_val b c < 2 ^ b"
  using radix_digit_bounds [of b "of_char c"] by (auto simp: radix_char_def radix_char_val_def nat_less_iff)

lemma radix_val_less: "list_all (radix_char b) w \<Longrightarrow> radix_val b w < 2 ^ (b * length w)"
proof (induction w rule: rev_induct)
  case (snoc c w)
  have "radix_val b w * 2 ^ b + radix_char_val b c < (radix_val b w + 1) * 2 ^ b"
    using radix_char_digit [of b c] snoc.prems by simp
  also have "\<dots> \<le> 2 ^ (b * length w) * 2 ^ b" using snoc by (intro mult_le_mono1) simp
  finally show ?case by (simp add: power_add mult.commute)
qed simp

lemma radix_char_iff: "radix_char b c \<longleftrightarrow> isDigit (of_char c) (2 ^ b)"
proof -
  have "(0 :: int) < 2 ^ b" by simp
  then show ?thesis
    unfolding radix_char_def radix_digit_def isDigit_def IsDecimalDigitForRadix_def IsCharacterDigitForRadix_def
    by (auto simp del: zero_less_power)
qed

lemma radix_char_val_zero: "0 < b \<Longrightarrow> radix_char b c \<Longrightarrow> radix_char_val b c = 0 \<longleftrightarrow> c = CHR ''0''"
proof -
  assume c: "radix_char b c"
  have "(of_char c :: int) = 48 \<longleftrightarrow> c = CHR ''0''" using inj_of_char [where ?'a = int] by (auto dest: injD [of _ c "CHR ''0''"])
  then show ?thesis using c
    by (auto simp: radix_char_def radix_char_val_def radix_digit_def IsDecimalDigitForRadix_def IsCharacterDigitForRadix_def split: if_splits)
qed

lemma radix_val_zero: "list_all (radix_char b) w \<Longrightarrow> 0 < b \<Longrightarrow> radix_val b w = 0 \<longleftrightarrow> list_all (\<lambda>c. c = CHR ''0'') w"
  by (induction w rule: rev_induct) (auto simp: radix_char_val_zero)

section \<open>Loops\<close>

lemma overflow_bits_correct:
  assumes "0 < x"
  shows "returns (overflow_bits (int x)) (\<lambda>k. 0 < k \<and> 2 ^ (k - 1) \<le> x \<and> x < 2 ^ k)"
  unfolding overflow_bits_def returns_bind
proof (rule returns_while [where I = "\<lambda>(y, k). 0 < k \<and> 0 < y \<and> y = int (x div 2 ^ (k - 1))" and m = "\<lambda>(y, k). nat y"], goal_cases)
  case (2 s)
  obtain y k where s: "s = (y, k)" "0 < k" "0 < y" "y = int (x div 2 ^ (k - 1))" using 2 by (cases s) auto
  obtain j where j: "k = Suc j" using s(2) by (cases k) auto
  show ?case
  proof (cases "1 < y")
    case True
    have "y div 2 = int (x div 2 ^ j div 2)" using s(4) j by simp
    also have "\<dots> = int (x div 2 ^ k)" unfolding j by (simp only: div_mult2_eq [symmetric] power_Suc2)
    finally have "y div 2 = int (x div 2 ^ k)" .
    moreover have "0 < y div 2" "nat (y div 2) < nat y" using True by simp_all
    ultimately show ?thesis using True unfolding s(1) by simp
  next
    case False
    then have "x div 2 ^ j = 1" using s j by simp
    then have "x = 2 ^ j + x mod 2 ^ j" by (metis div_mult_mod_eq mult_1)
    moreover have "x mod 2 ^ j < 2 ^ j" by simp
    ultimately have "2 ^ j \<le> x \<and> x < 2 * 2 ^ j" by linarith
    then show ?thesis using False s j by simp
  qed
qed (use assms in simp)

lemma AdvanceToNonspace_returns:
  "i \<le> length input \<Longrightarrow> returns (AdvanceToNonspace input i) (\<lambda>(ns, p). i \<le> p \<and> p \<le> length input \<and> (ns \<longleftrightarrow> p \<noteq> length input))"
  unfolding AdvanceToNonspace_def returns_bind
proof (rule returns_while [where I = "\<lambda>p. i \<le> p \<and> p \<le> length input" and m = "\<lambda>p. length input - p"], goal_cases)
  case (2 p)
  then show ?case by (cases "p = length input") (auto simp: wp)
qed simp

definition zeros :: "string \<Rightarrow> bool" where
  "zeros w \<longleftrightarrow> list_all (\<lambda>c. c = CHR ''0'') w"

lemma radix_tail_run:
  assumes "input = pre @ c # w @ post" "list_all (radix_char b) w" "post = [] \<or> \<not> radix_char b (hd post)" "i = length pre"
    and e: "0 \<le> e" "in_int32 (e + int (b * length w))"
  shows "radix_tail input (2 ^ b) (int b) i e = Some (Suc i + length w, zeros w, e + int (b * length w))"
proof -
  define T where "T = (\<lambda>(current, zero_tail :: bool, e :: int). if current \<noteq> length input
        then do { c \<leftarrow> vget input current; Some (isDigit (of_char c) (2 ^ b)) } else Some False)"
  define B where "B = (\<lambda>(current, zero_tail, e). do {
        c \<leftarrow> vget input current;
        e \<leftarrow> as_int32 (e + int b);
        Some (current + 1, zero_tail \<and> c = CHR ''0'', e) })"
  have "while_loop T B (length pre', z, e) = Some (length pre' + length v, z \<and> zeros v, e + int (b * length v))"
    if "input = pre' @ v @ post" "list_all (radix_char b) v" "0 \<le> e" "in_int32 (e + int (b * length v))" for pre' v z e
    using that
  proof (induction v arbitrary: pre' z e)
    case Nil
    have "T (length pre', z, e) = Some False"
      using Nil assms(3) by (cases post) (auto simp: vget_def radix_char_iff T_def)
    then show ?case by (subst while_loop_stop) (simp_all add: zeros_def)
  next
    case (Cons c v)
    have at: "vget input (length pre') = Some c" "length pre' \<noteq> length input" using Cons.prems(1) by (simp_all add: vget_def)
    have d: "isDigit (of_char c) (2 ^ b)" using Cons.prems(2) by (simp add: radix_char_iff)
    have "input = (pre' @ [c]) @ v @ post" using Cons.prems(1) by simp
    note IH = Cons.IH [OF this, of "e + int b" "z \<and> c = CHR ''0''"]
    have "0 \<le> int (b * length v)" by simp
    then have room: "in_int32 (e + int b)" "in_int32 (e + int b + int (b * length v))"
      using Cons.prems(3,4) unfolding in_int32_def length_Cons mult_Suc_right of_nat_add by linarith+
    have "T (length pre', z, e) = Some True" "B (length pre', z, e) = Some (length (pre' @ [c]), z \<and> c = CHR ''0'', e + int b)"
      using at d room(1) by (simp_all add: T_def B_def)
    then show ?case by (subst while_loop_step) (use IH Cons.prems(2,3) room(2) in \<open>simp_all add: zeros_def algebra_simps\<close>)
  qed
  from this [of "pre @ [c]" w e True] assms show ?thesis unfolding radix_tail_def T_def B_def by simp
qed

section \<open>Rounding\<close>

lemma to_int_mask: "k < 32 \<Longrightarrow> to_int w AND (push_bit k 1 - 1) = int (unat w mod 2 ^ k)"
proof -
  assume k: "k < 32"
  have u: "uint w = int (unat w)" by (rule of_nat_unat [symmetric])
  have "to_int w AND (push_bit k 1 - 1) = take_bit k (to_int w)" by (simp add: take_bit_eq_mask mask_eq_exp_minus_1 push_bit_eq_mult)
  also have "\<dots> = take_bit k (uint w)"
    using k by (simp add: to_int_def sint_uint take_bit_signed_take_bit unsigned_ucast_eq min_def)
  also have "\<dots> = int (unat w mod 2 ^ k)" by (simp add: take_bit_eq_mod u zmod_int)
  finally show ?thesis .
qed

definition half_even :: "nat \<Rightarrow> nat \<Rightarrow> nat \<Rightarrow> bool" where
  "half_even N q m \<longleftrightarrow> \<bar>real N / 2 ^ q - real m\<bar> \<le> 1 / 2 \<and> (\<bar>real N / 2 ^ q - real m\<bar> = 1 / 2 \<longrightarrow> even m)"

lemma half_evenI:
  assumes N: "N = m0 * 2 ^ q + D" "D < 2 ^ q" and m: "m = (if 2 ^ q < 2 * D \<or> 2 ^ q = 2 * D \<and> odd m0 then m0 + 1 else m0)"
  shows "half_even N q m"
proof -
  define r where "r = real D / 2 ^ q"
  have "real D < real (2 ^ q)" using N(2) by (simp only: of_nat_less_iff)
  then have r: "0 \<le> r" "r < 1" by (simp_all add: r_def)
  have y: "real N / 2 ^ q = real m0 + r" unfolding N(1) r_def by (simp add: add_divide_distrib)
  have c: "2 ^ q < 2 * D \<longleftrightarrow> 1 / 2 < r" "2 ^ q = 2 * D \<longleftrightarrow> r = 1 / 2"
  proof -
    have "2 ^ q < 2 * D \<longleftrightarrow> real (2 ^ q) < real (2 * D)" by (simp only: of_nat_less_iff)
    then show "2 ^ q < 2 * D \<longleftrightarrow> 1 / 2 < r" by (simp add: r_def field_simps)
    have "2 ^ q = 2 * D \<longleftrightarrow> real (2 ^ q) = real (2 * D)" by (simp only: of_nat_eq_iff)
    then show "2 ^ q = 2 * D \<longleftrightarrow> r = 1 / 2" by (auto simp: r_def field_simps)
  qed
  show ?thesis unfolding half_even_def y m c using r by (auto simp: abs_if)
qed

lemma radix_round:
  fixes w :: uint64
  assumes w: "2 ^ sz \<le> unat w" "0 < sz" "sz \<le> 53" and k: "0 < k" "2 ^ (k - 1) \<le> unat w div 2 ^ sz" "unat w div 2 ^ sz < 2 ^ k"
    and T: "T < 2 ^ t" "zt \<longleftrightarrow> T = 0"
  defines "m \<equiv> unat (round_radix (int (unat w mod 2 ^ k)) k zt (drop_bit k w))" and "N \<equiv> unat w * 2 ^ t + T"
  shows "2 ^ (sz - 1) \<le> m" "m \<le> 2 ^ sz" "half_even N (k + t) m" "2 ^ (sz - 1) * 2 ^ (k + t) \<le> N"
proof -
  obtain j where j: "k = Suc j" using k(1) by (cases k) auto
  obtain z where z: "sz = Suc z" using w(2) by (cases sz) auto
  define m0 d where "m0 = unat w div 2 ^ k" and "d = unat w mod 2 ^ k"
  have w0: "unat w = m0 * 2 ^ k + d" "d < 2 ^ k" by (simp_all only: m0_def d_def div_mult_mod_eq mod_less_divisor zero_less_power zero_less_numeral)
  have "2 ^ j * 2 ^ sz \<le> unat w" using k(2) j by (simp add: less_eq_div_iff_mult_less_eq)
  then have "2 ^ z * 2 ^ k \<le> unat w" unfolding j z by (simp add: power_add [symmetric] algebra_simps)
  then have lo: "2 ^ z \<le> m0" unfolding m0_def by (simp add: less_eq_div_iff_mult_less_eq)
  have "unat w < 2 ^ k * 2 ^ sz" using k(3) by (simp add: div_less_iff_less_mult)
  then have hi: "m0 < 2 ^ sz" unfolding m0_def by (simp add: div_less_iff_less_mult mult.commute)
  define D where "D = d * 2 ^ t + T"
  have D: "D < 2 ^ (k + t)"
  proof -
    have "D < (d + 1) * 2 ^ t" using T(1) by (simp add: D_def)
    also have "\<dots> \<le> 2 ^ k * 2 ^ t" using w0(2) by (intro mult_le_mono1) simp
    finally show ?thesis by (simp add: power_add)
  qed
  have N: "N = m0 * 2 ^ (k + t) + D" unfolding N_def w0(1) D_def by (simp add: power_add algebra_simps)
  have up: "(2 ^ j < d \<or> 2 ^ j = d \<and> (odd m0 \<or> \<not> zt)) \<longleftrightarrow> 2 ^ (k + t) < 2 * D \<or> 2 ^ (k + t) = 2 * D \<and> odd m0"
  proof -
    have p: "(2 :: nat) ^ (k + t) = 2 * (2 ^ j * 2 ^ t)" by (simp add: j power_add)
    consider "2 ^ j < d" | "2 ^ j = d" | "d < 2 ^ j" by linarith
    then show ?thesis
    proof cases
      case 1
      then have "2 ^ j * 2 ^ t < d * (2 :: nat) ^ t" by simp
      then have "2 ^ (k + t) < 2 * D" unfolding p D_def by (intro mult_strict_left_mono trans_less_add1) simp_all
      with 1 show ?thesis by simp
    next
      case 2
      then show ?thesis using T(2) unfolding p D_def by auto
    next
      case 3
      have "D < (d + 1) * 2 ^ t" using T(1) by (simp add: D_def)
      also have "\<dots> \<le> 2 ^ j * 2 ^ t" using 3 by (intro mult_le_mono1) simp
      finally show ?thesis using 3 unfolding p by simp
    qed
  qed
  have dr: "unat (drop_bit k w) = m0" by (simp add: m0_def unat_drop_bit)
  have "(2 :: nat) ^ sz \<le> 2 ^ 53" using w(3) by (intro power_increasing) simp_all
  then have inc: "unat (drop_bit k w + 1) = m0 + 1" using hi dr by (subst unat_add_small) simp_all
  have "unat (drop_bit k w AND 1) = m0 mod 2" using unat_and_mask [of "drop_bit k w" 1] dr by simp
  then have odd: "drop_bit k w AND 1 \<noteq> 0 \<longleftrightarrow> odd m0" by (metis odd_iff_mod_2_eq_one parity_cases unat_eq_0_iff zero_neq_one)
  have mid: "push_bit (k - 1) 1 = int (2 ^ j)" by (simp add: j push_bit_eq_mult)
  have m: "m = (if 2 ^ (k + t) < 2 * D \<or> 2 ^ (k + t) = 2 * D \<and> odd m0 then m0 + 1 else m0)"
    unfolding m_def round_radix_def Let_def d_def [symmetric] mid up [symmetric] odd
    by (auto simp: inc dr)
  show "half_even N (k + t) m" by (rule half_evenI [OF N D m])
  show "2 ^ (sz - 1) \<le> m" "m \<le> 2 ^ sz" using lo hi unfolding m z by auto
  show "2 ^ (sz - 1) * 2 ^ (k + t) \<le> N" using lo unfolding N z by (simp add: trans_le_add1)
qed

section \<open>The digit loop\<close>

definition radix_rounded :: "nat \<Rightarrow> nat \<Rightarrow> nat \<Rightarrow> int \<Rightarrow> bool" where
  "radix_rounded sz N n e \<longleftrightarrow> (if N < 2 ^ sz then n = N \<and> e = 0 else
     \<exists>m q. 0 < q \<and> 2 ^ (sz - 1) \<le> m \<and> m \<le> 2 ^ sz \<and> half_even N q m \<and> 2 ^ (sz - 1) * 2 ^ q \<le> N \<and>
       (if m = 2 ^ sz then n = 2 ^ (sz - 1) \<and> e = int q + 1 else n = m \<and> e = int q))"

definition trail :: "string \<Rightarrow> bool \<Rightarrow> nat \<Rightarrow> (bool \<times> nat) result" where
  "trail input allow p = (if allow then Some (False, p) else AdvanceToNonspace input p)"

definition radix_ends :: "nat \<Rightarrow> string \<Rightarrow> bool \<Rightarrow> nat \<Rightarrow> nat \<Rightarrow> radix_state \<Rightarrow> bool" where
  "radix_ends sz input allow p N s \<longleftrightarrow> (\<exists>ns p'. trail input allow p = Some (ns, p') \<and> rx_current s = p' \<and> rx_status s = Some ns \<and>
     (\<not> ns \<longrightarrow> radix_rounded sz N (unat (rx_number s)) (rx_exponent s)))"

lemma trail_returns: "p \<le> length input \<Longrightarrow> \<exists>ns p'. trail input allow p = Some (ns, p') \<and> p \<le> p' \<and> p' \<le> length input"
  using returns_ex [OF AdvanceToNonspace_returns [of p input]] by (auto simp: trail_def)

lemma and_push_bit_1: "w AND push_bit n 1 \<noteq> 0 \<longleftrightarrow> odd (unat w div 2 ^ n)" if "n < 64" for w :: uint64
proof -
  have "unat (w AND push_bit n (mask 1)) = unat w div 2 ^ n mod 2 * 2 ^ n" using that unat_and_field [of n 1 w] by simp
  then show ?thesis by (simp add: unat_eq_0_iff [symmetric] even_iff_mod_2_eq_zero)
qed

lemma radix_overflow_correct:
  assumes input: "input = pre @ w1 @ c # w2 @ post" and dig: "list_all (radix_char b) w2" "post = [] \<or> \<not> radix_char b (hd post)"
    and s: "rx_current s = length (pre @ w1)" "unat (rx_number s) = radix_val b (w1 @ [c])"
    and N: "2 ^ sz \<le> radix_val b (w1 @ [c])" "radix_val b (w1 @ [c]) < 2 ^ sz * 2 ^ b" and sz: "0 < sz" "sz \<le> 53" and b: "0 < b" "b \<le> 5"
    and room: "b * length (w1 @ c # w2) \<le> 2000000000"
  shows "returns (radix_overflow input b allow sz (int (radix_val b (w1 @ [c]) div 2 ^ sz)) s)
    (radix_ends sz input allow (length (pre @ w1 @ c # w2)) (radix_val b (w1 @ c # w2)))"
proof -
  define x where "x = radix_val b (w1 @ [c]) div 2 ^ sz"
  have x: "0 < x" "x < 2 ^ b" using N by (simp_all add: x_def div_greater_zero_iff div_less_iff_less_mult mult.commute)
  from returns_ex [OF overflow_bits_correct [OF x(1)]] obtain k where k: "overflow_bits (int x) = Some k" "0 < k" "2 ^ (k - 1) \<le> x" "x < 2 ^ k" by blast
  have "(2 :: nat) ^ (k - 1) < 2 ^ b" using k(3) x(2) by (rule le_less_trans)
  then have "k - 1 < b" by (rule power_less_imp_less_exp [rotated]) simp
  then have k5: "k < 32" using b(2) by simp
  have "b * length w2 \<le> 2000000000" using room by (rule order_trans [rotated]) (intro mult_le_mono2, simp)
  then have "int (b * length w2) \<le> 2000000000" "0 \<le> int (b * length w2)" by linarith+
  then have fits: "in_int32 (int k + int (b * length w2))" "in_int32 (int k + int (b * length w2) + 1)"
    using k5 by (simp_all add: in_int32_def del: of_nat_mult)
  let ?p = "length (pre @ w1 @ c # w2)"
  have "?p \<le> length input" using input by simp
  from trail_returns [OF this, of allow] obtain ns p' where tr: "trail input allow ?p = Some (ns, p')" by blast
  have tail: "radix_tail input (2 ^ b) (int b) (rx_current s) (int k) = Some (?p, zeros w2, int k + int (b * length w2))"
    using radix_tail_run [of input "pre @ w1" c w2 post b "rx_current s" "int k"] input dig s(1) fits(1) by simp
  define T t where "T = radix_val b w2" and "t = b * length w2"
  have T: "T < 2 ^ t" "zeros w2 \<longleftrightarrow> T = 0"
    using radix_val_less [OF dig(1)] radix_val_zero [OF dig(1) b(1)] by (simp_all add: T_def t_def zeros_def)
  have all: "radix_val b (w1 @ c # w2) = unat (rx_number s) * 2 ^ t + T"
    using radix_val_append [of b "w1 @ [c]" w2] s(2) by (simp add: T_def t_def)
  have n: "2 ^ sz \<le> unat (rx_number s)" "2 ^ (k - 1) \<le> unat (rx_number s) div 2 ^ sz" "unat (rx_number s) div 2 ^ sz < 2 ^ k"
    using N(1) k(3,4) s(2) by (simp_all only: x_def)
  define M where "M = round_radix (int (unat (rx_number s) mod 2 ^ k)) k (zeros w2) (drop_bit k (rx_number s))"
  note r = radix_round [OF n(1) sz k(2) n(2,3) T, folded M_def all]
  have drop: "to_int (rx_number s) AND (push_bit k 1 - 1) = int (unat (rx_number s) mod 2 ^ k)" by (rule to_int_mask [OF k5])
  have "unat M div 2 ^ sz = (if unat M = 2 ^ sz then 1 else 0)" using r(2) by auto
  moreover have "sz < 64" using sz(2) by simp
  ultimately have carry: "M AND push_bit sz 1 \<noteq> 0 \<longleftrightarrow> unat M = 2 ^ sz" by (simp only: and_push_bit_1) simp
  define M' q where "M' = (if unat M = 2 ^ sz then drop_bit 1 M else M)" and "q = (if unat M = 2 ^ sz then int (k + t) + 1 else int (k + t))"
  have big: "\<not> radix_val b (w1 @ c # w2) < 2 ^ sz"
  proof -
    have "2 ^ sz * 1 \<le> unat (rx_number s) * 2 ^ t" using n(1) by (intro mult_le_mono) simp_all
    then show ?thesis unfolding all by simp
  qed
  have "unat (drop_bit 1 M) = 2 ^ (sz - 1)" if "unat M = 2 ^ sz" using that sz(1) by (cases sz) (simp_all add: unat_drop_bit)
  then have "radix_rounded sz (radix_val b (w1 @ c # w2)) (unat M') q"
    unfolding radix_rounded_def if_not_P [OF big] M'_def q_def using r k(2)
    by (intro exI [of _ "unat M"] exI [of _ "k + t"]) auto
  moreover have "radix_overflow input b allow sz (int x) s =
      Some (if ns then s\<lparr>rx_current := p', rx_status := Some True\<rparr> else \<lparr>rx_current = p', rx_number = M', rx_exponent = q, rx_status = Some False\<rparr>)"
    unfolding radix_overflow_def k(1) Option.bind.simps(2) Let_def tail drop prod.case tr [unfolded trail_def] M_def [symmetric] carry
    using fits(2) by (simp add: M'_def q_def t_def)
  ultimately show ?thesis using tr unfolding x_def [symmetric] by (auto simp: radix_ends_def)
qed

text \<open>The state while digits are read, and one round.\<close>

definition radix_reading :: "nat \<Rightarrow> nat \<Rightarrow> string \<Rightarrow> string \<Rightarrow> string \<Rightarrow> radix_state \<Rightarrow> bool" where
  "radix_reading sz b input pre w s \<longleftrightarrow> (\<exists>w1 w2. w = w1 @ w2 \<and> rx_status s = None \<and> rx_current s = length (pre @ w1) \<and>
     length (pre @ w1) < length input \<and> unat (rx_number s) = radix_val b w1 \<and> radix_val b w1 < 2 ^ sz \<and> rx_exponent s = 0)"

lemma radix_number:
  fixes n :: uint64
  assumes n: "unat n < 2 ^ sz" and d: "d < 2 ^ b" and sz: "sz \<le> 53" and b: "b \<le> 5"
  defines "number \<equiv> n * of_int (2 ^ b) + of_int (int d)"
  shows "unat number = unat n * 2 ^ b + d" "unat number < 2 ^ sz * 2 ^ b" "to_int (drop_bit sz number) = int (unat number div 2 ^ sz)"
proof -
  have "unat n * 2 ^ b + d < (unat n + 1) * 2 ^ b" using d by simp
  also have "\<dots> \<le> 2 ^ sz * 2 ^ b" using n by (intro mult_le_mono1) simp
  finally have lt: "unat n * 2 ^ b + d < 2 ^ sz * 2 ^ b" .
  also have "\<dots> \<le> 2 ^ 53 * 2 ^ 5" using sz b by (intro mult_le_mono power_increasing) simp_all
  finally have lim: "unat n * 2 ^ b + d < 2 ^ 58" by simp
  have "number = of_nat (unat n * 2 ^ b + d)" unfolding number_def by (simp add: of_nat_unat)
  then have "unat number = (unat n * 2 ^ b + d) mod 2 ^ 64" by (simp only: unat_of_nat length_64)
  then show num: "unat number = unat n * 2 ^ b + d" using lim by simp
  then show "unat number < 2 ^ sz * 2 ^ b" using lt by simp
  then have "unat number div 2 ^ sz < 2 ^ b" by (simp add: div_less_iff_less_mult mult.commute)
  also have "(2 :: nat) ^ b \<le> 2 ^ 31" using b by (intro power_increasing) simp_all
  finally show "to_int (drop_bit sz number) = int (unat number div 2 ^ sz)" by (simp add: to_int_small unat_drop_bit)
qed

lemma radix_step_stop:
  assumes input: "input = pre @ w @ c # r" "\<not> radix_char b c" and s: "rx_current s = length (pre @ w)"
    and fit: "radix_rounded sz N (unat (rx_number s)) (rx_exponent s)"
  shows "returns (radix_step input b allow sz s) (radix_ends sz input allow (length (pre @ w)) N)"
proof -
  have at: "vget input (rx_current s) = Some c" "radix_digit (2 ^ b) (of_char c) = None"
    using input s by (simp_all add: vget_def radix_char_def)
  have "rx_current s \<le> length input" using input(1) s by simp
  from trail_returns [OF this, of allow] obtain ns p' where tr: "trail input allow (rx_current s) = Some (ns, p')" by blast
  have "radix_step input b allow sz s = Some (s\<lparr>rx_current := p', rx_status := Some ns\<rparr>)"
    using at tr by (cases allow) (simp_all add: radix_step_def trail_def)
  then show ?thesis using tr fit unfolding s by (simp add: radix_ends_def)
qed

lemma radix_step_digit:
  assumes input: "input = pre @ w1 @ c # r @ post" and dig: "radix_char b c" "list_all (radix_char b) r" "post = [] \<or> \<not> radix_char b (hd post)"
    and sz: "0 < sz" "sz \<le> 53" and b: "0 < b" "b \<le> 5"
    and s: "rx_status s = None" "rx_current s = length (pre @ w1)" "unat (rx_number s) = radix_val b w1" "radix_val b w1 < 2 ^ sz" "rx_exponent s = 0"
    and room: "b * length (w1 @ c # r) \<le> 2000000000"
  shows "returns (radix_step input b allow sz s) (\<lambda>s'. radix_ends sz input allow (length (pre @ w1 @ c # r)) (radix_val b (w1 @ c # r)) s' \<or>
    radix_reading sz b input pre (w1 @ c # r) s' \<and> rx_current s' = Suc (rx_current s))"
proof -
  note d = radix_char_digit [OF dig(1)]
  have at: "vget input (rx_current s) = Some c" using input s(2) by (simp add: vget_def nth_append)
  define N1 where "N1 = radix_val b (w1 @ [c])"
  define number where "number = rx_number s * of_int (2 ^ b) + of_int (int (radix_char_val b c))"
  have "unat (rx_number s) < 2 ^ sz" using s(3,4) by simp
  note num = radix_number [OF this d [THEN conjunct2] sz(2) b(2), folded number_def]
  have N1: "unat number = N1" "N1 < 2 ^ sz * 2 ^ b" using num(1,2) s(3) by (simp_all add: N1_def)
  note step = radix_step_def [of input b allow sz s, unfolded at d [THEN conjunct1] Option.bind.simps(2) Let_def option.case
      number_def [symmetric] num(3) N1(1)]
  have cur: "rx_current s + 1 = length (pre @ w1 @ [c])" using s(2) by simp
  show ?thesis
  proof (cases "N1 < 2 ^ sz")
    case True
    then have "N1 div 2 ^ sz = 0" by simp
    then have st: "radix_step input b allow sz s = Some (s\<lparr>rx_number := number, rx_current := rx_current s + 1,
        rx_status := if rx_current s + 1 = length input then Some False else None\<rparr>)" unfolding step by simp
    show ?thesis
    proof (cases "rx_current s + 1 = length input")
      case at_end: True
      then have r: "r = []" "post = []" using at_end cur input by auto
      have "trail input allow (length (pre @ w1 @ [c])) = Some (False, length (pre @ w1 @ [c]))"
        using input r by (simp add: trail_def AdvanceToNonspace_end)
      then show ?thesis using at_end st N1(1) True cur r s(5) unfolding N1_def by (auto simp: radix_ends_def radix_rounded_def)
    next
      case False
      have "length (pre @ w1 @ [c]) < length input" using False cur input by simp
      then have "radix_reading sz b input pre (w1 @ c # r) (s\<lparr>rx_number := number, rx_current := rx_current s + 1, rx_status := None\<rparr>)"
        using True N1(1) cur s(5) unfolding N1_def radix_reading_def by (intro exI [of _ "w1 @ [c]"] exI [of _ r]) simp
      then show ?thesis using False st by simp
    qed
  next
    case False
    then have ov: "int (N1 div 2 ^ sz) \<noteq> 0" by (simp add: div_greater_zero_iff)
    have "returns (radix_overflow input b allow sz (int (N1 div 2 ^ sz)) (s\<lparr>rx_number := number\<rparr>))
        (radix_ends sz input allow (length (pre @ w1 @ c # r)) (radix_val b (w1 @ c # r)))"
      unfolding N1_def by (rule radix_overflow_correct [where post = post])
        (use input dig s(2) N1 False sz b room in \<open>simp_all add: N1_def\<close>)
    then show ?thesis unfolding step if_P [OF ov] by (rule returns_mono) simp
  qed
qed

lemma radix_loop_correct:
  assumes input: "input = pre @ w @ post" "w @ post \<noteq> []" and dig: "list_all (radix_char b) w" "post = [] \<or> \<not> radix_char b (hd post)"
    and sz: "0 < sz" "sz \<le> 53" and b: "0 < b" "b \<le> 5" and room: "b * length w \<le> 2000000000"
  shows "returns (while_loop (\<lambda>s. Some (rx_status s = None)) (radix_step input b allow sz)
      \<lparr>rx_current = length pre, rx_number = 0, rx_exponent = 0, rx_status = None\<rparr>)
    (radix_ends sz input allow (length (pre @ w)) (radix_val b w))"
proof (rule returns_while [where
      I = "\<lambda>s. radix_ends sz input allow (length (pre @ w)) (radix_val b w) s \<or> radix_reading sz b input pre w s"
      and m = "\<lambda>s. if rx_status s = None then Suc (length input - rx_current s) else 0"], goal_cases)
  case 1
  have "length pre < length input" using input by (cases w; cases post) auto
  then show ?case unfolding radix_reading_def by (intro disjI2 exI [of _ "[]"] exI [of _ w]) simp
next
  case (2 s)
  let ?ends = "radix_ends sz input allow (length (pre @ w)) (radix_val b w)"
  have stopped: "rx_status t \<noteq> None" if "?ends t" for t using that by (auto simp: radix_ends_def)
  show ?case
  proof (cases "?ends s")
    case True
    with stopped [OF True] show ?thesis by auto
  next
    case False
    then obtain w1 w2 where w: "w = w1 @ w2" and s: "rx_status s = None" "rx_current s = length (pre @ w1)" "length (pre @ w1) < length input"
      "unat (rx_number s) = radix_val b w1" "radix_val b w1 < 2 ^ sz" "rx_exponent s = 0" using 2 by (auto simp: radix_reading_def)
    have "returns (radix_step input b allow sz s) (\<lambda>s'. ?ends s' \<or> radix_reading sz b input pre w s' \<and> rx_current s' = Suc (rx_current s))"
    proof (cases w2)
      case Nil
      then obtain c r where c: "post = c # r" "\<not> radix_char b c" using s(3) input(1) w dig(2) by (cases post) auto
      have "returns (radix_step input b allow sz s) ?ends"
        by (rule radix_step_stop) (use input c w Nil s in \<open>simp_all add: radix_rounded_def\<close>)
      then show ?thesis by (rule returns_mono) simp
    next
      case (Cons c r)
      show ?thesis
        using radix_step_digit [of input pre w1 c r post b sz s allow] input dig w Cons s sz b room by simp
    qed
    then show ?thesis unfolding returns_Some s(1) if_P [OF refl] simp_thms if_True
      by (rule returns_mono) (use stopped s(2,3) in fastforce)
  qed
qed

end
