(* ===== verification/Radix_Properties.thy ===== *)
theory Radix_Properties
  imports Radix_Reader Parse_Properties
begin

text \<open>
  \<open>RadixStringToIeee\<close> as a whole: hexadecimal and octal numbers of any length are read as the nearest double. The sign is kept only
  for numbers of at most 53 bits.
\<close>

section \<open>The whole reader\<close>

lemma radix_zeros_run:
  assumes "input = pre @ replicate z CHR ''0'' @ rest" "rest = [] \<or> hd rest \<noteq> CHR ''0''"
  shows "while_loop (\<lambda>current. if current \<noteq> length input then do { c \<leftarrow> vget input current; Some (c = CHR ''0'') } else Some False)
       (\<lambda>current. Some (current + 1)) (length pre) = Some (length pre + z)"
proof -
  define T where "T = (\<lambda>current. if current \<noteq> length input then do { c \<leftarrow> vget input current; Some (c = CHR ''0'') } else Some False)"
  have "while_loop T (\<lambda>current. Some (current + 1)) (length pre) = Some (length pre + z)" using assms(1)
  proof (induction z arbitrary: pre)
    case 0
    then have "T (length pre) = Some False" using assms(2) by (cases rest) (auto simp: T_def vget_def)
    then show ?case by (subst while_loop_stop) simp_all
  next
    case (Suc z)
    have "input = (pre @ [CHR ''0'']) @ replicate z CHR ''0'' @ rest" using Suc.prems by simp
    note IH = Suc.IH [OF this]
    have "T (length pre) = Some True" using Suc.prems by (simp add: T_def vget_def)
    then show ?case by (subst while_loop_step [where s' = "length (pre @ [CHR ''0''])"]) (use IH in simp_all)
  qed
  then show ?thesis unfolding T_def .
qed

definition radix_result :: "nat \<Rightarrow> bool \<Rightarrow> nat \<Rightarrow> double \<Rightarrow> bool" where
  "radix_result sz sign N v \<longleftrightarrow> (\<exists>n e. radix_rounded sz N (unat n) e \<and>
     (if e = 0 then v = with_sign sign (double_of_uint64 n) else DiyFpToUint64 (mk_diy n e) = Some v))"

lemma DiyFpToUint64_returns:
  assumes "unat n < 2 ^ 53"
  shows "\<exists>v. DiyFpToUint64 (mk_diy n e) = Some v"
proof -
  let ?d = "mk_diy n e"
  have f: "unat (diy_f ?d) < 2 ^ 53" using assms by (simp add: mk_diy_def)
  consider "diy_e ?d < -1074" | "-1074 \<le> diy_e ?d" "diy_e ?d < 972" | "972 \<le> diy_e ?d" by linarith
  then show ?thesis
    using DiyFpToUint64_small [OF f] DiyFpToUint64_large [OF f] returns_ex [OF DiyFpToUint64_exact_small [OF f]] by cases blast+
qed

lemma radix_rounded_bounds:
  assumes "radix_rounded sz N n e" "0 < sz"
  shows "n < 2 ^ sz" "e = 0 \<longleftrightarrow> N < 2 ^ sz" "e \<noteq> 0 \<Longrightarrow> n \<noteq> 0"
proof -
  have p: "(2 :: nat) ^ (sz - 1) < 2 ^ sz" "(0 :: nat) < 2 ^ (sz - 1)" using assms(2) by (simp_all add: power_strict_increasing)
  show "n < 2 ^ sz" "e = 0 \<longleftrightarrow> N < 2 ^ sz" using assms(1) p by (auto simp: radix_rounded_def split: if_splits)
  show "n \<noteq> 0" if "e \<noteq> 0"
  proof
    assume "n = 0"
    with that assms(1) show False by (auto simp: radix_rounded_def split: if_splits)
  qed
qed

lemma uint64_of_double_of_uint64:
  assumes w: "unat w < 2 ^ 53"
  shows "uint64_of_double (double_of_uint64 w) = w"
proof -
  define d where "d = double_of_uint64 w"
  have d: "unat d < D_inf_rank" "D_val (unat d) = real (unat w)" using double_of_uint64_exact [OF w] by (simp_all only: d_def)
  have val: "real (unat (D_Significand d)) * 2 powi D_Exponent d = real (unat w)" using double.val_rank [OF d(1)] d(2) by simp
  show ?thesis
  proof (cases "D_Exponent d \<ge> 0")
    case True
    define k where "k = nat (D_Exponent d)"
    have "D_Exponent d = int k" using True by (simp add: k_def)
    then have "real (unat (D_Significand d) * 2 ^ k) = real (unat w)" using val by simp
    then have "unat (D_Significand d) * 2 ^ k = unat w" by (simp only: of_nat_eq_iff)
    then have "unat (push_bit k (D_Significand d)) = unat w" using unat_less_64 [of w] by (subst unat_push_bit_small) simp_all
    then show ?thesis using True unfolding uint64_of_double_def d_def [symmetric] k_def by (simp add: word_unat_eq_iff)
  next
    case False
    define k where "k = nat (- D_Exponent d)"
    have "D_Exponent d = - int k" using False by (simp add: k_def)
    then have "real (unat (D_Significand d)) = real (unat w * 2 ^ k)" using val by (simp add: power_int_minus field_simps)
    then have "unat (D_Significand d) = unat w * 2 ^ k" by (simp only: of_nat_eq_iff)
    then have "unat (drop_bit k (D_Significand d)) = unat w" by (simp add: unat_drop_bit)
    then show ?thesis using False unfolding uint64_of_double_def d_def [symmetric] k_def by (simp add: word_unat_eq_iff)
  qed
qed

lemma RadixStringToIeee_run:
  assumes input: "input = pre @ replicate z CHR ''0'' @ w @ post" and w: "w = [] \<or> hd w \<noteq> CHR ''0''"
    and dig: "list_all (radix_char b) w" "post = [] \<or> \<not> radix_char b (hd post)" and b: "0 < b" "b \<le> 5"
    and some: "w @ post \<noteq> []" and room: "b * length w \<le> 2000000000"
  defines "p \<equiv> length (pre @ replicate z CHR ''0'' @ w)"
  shows "\<exists>ns p' v. trail input allow p = Some (ns, p') \<and>
    RadixStringToIeee b input (length pre) sign allow jv dbl = Some (if ns then (jv, None) else (v, Some p')) \<and>
    (\<not> ns \<longrightarrow> radix_result (if dbl then 53 else 24) sign (radix_val b w) v)"
proof -
  define sz :: nat where "sz = (if dbl then 53 else 24)"
  have sz: "0 < sz" "sz \<le> 53" "(if dbl then D_kSignificandSize else S_kSignificandSize) = sz" by (simp_all add: sz_def)
  have "radix_char b CHR ''0''" by (simp add: radix_char_def radix_digit_def IsDecimalDigitForRadix_def)
  then have "w @ post = [] \<or> hd (w @ post) \<noteq> CHR ''0''" using w dig(2) by (cases w) auto
  note zs = radix_zeros_run [OF input this]
  have cur: "length pre \<noteq> length input" "length pre + z \<noteq> length input" using input some by (cases w; cases post; simp)+
  have "input = (pre @ replicate z CHR ''0'') @ w @ post" using input by simp
  from returns_ex [OF radix_loop_correct [OF this some dig sz(1,2) b room, of allow]] obtain s where
    s: "while_loop (\<lambda>s. Some (rx_status s = None)) (radix_step input b allow sz)
        \<lparr>rx_current = length pre + z, rx_number = 0, rx_exponent = 0, rx_status = None\<rparr> = Some s" "radix_ends sz input allow p (radix_val b w) s"
    by (auto simp: p_def)
  then obtain ns p' where e: "trail input allow p = Some (ns, p')" "rx_current s = p'" "rx_status s = Some ns"
    "\<not> ns \<Longrightarrow> radix_rounded sz (radix_val b w) (unat (rx_number s)) (rx_exponent s)" by (auto simp: radix_ends_def)
  note run = RadixStringToIeee_def [of b input "length pre" sign allow jv dbl, unfolded sz(3) Let_def check_def if_P [OF cur(1)] Option.bind.simps(2)
      zs if_not_P [OF cur(2)] s(1) e(3)]
  show ?thesis
  proof (cases ns)
    case True
    then show ?thesis using e(1) unfolding run by auto
  next
    case False
    note r = e(4) [OF False] radix_rounded_bounds [OF e(4) [OF False] sz(1)]
    have "(2 :: nat) ^ sz \<le> 2 ^ 53" using sz(2) by (intro power_increasing) simp_all
    then have n53: "unat (rx_number s) < 2 ^ 53" using r(2) by simp
    have lt: "rx_number s < push_bit sz 1"
    proof -
      have "unat (push_bit sz (1 :: uint64)) = 2 ^ sz" using sz(2) power_strict_increasing [of sz 64 "2 :: nat"] by (subst unat_push_bit_small) simp_all
      then show ?thesis using r(2) by (simp only: word_less_nat_alt)
    qed
    obtain v where v: "DiyFpToUint64 (mk_diy (rx_number s) (rx_exponent s)) = Some v" using DiyFpToUint64_returns [OF n53] by blast
    have zero: "double_of_uint64 0 = 0" by (simp add: double_of_uint64_def round_double_def round_rank_def)
    define v' where "v' = (if rx_exponent s = 0 then with_sign sign (double_of_uint64 (rx_number s)) else v)"
    have "radix_result sz sign (radix_val b w) v'" unfolding radix_result_def using r(1) v
      by (intro exI [of _ "rx_number s"] exI [of _ "rx_exponent s"]) (simp add: v'_def)
    moreover have "rx_exponent s = 0 \<or> rx_number s \<noteq> 0" using r(4) by auto
    then have "RadixStringToIeee b input (length pre) sign allow jv dbl = Some (v', Some p')"
      unfolding run if_P [OF lt] if_P [OF uint64_of_double_of_uint64 [OF n53]] v Option.bind.simps(2) e(2) v'_def
      using False zero by (cases "rx_exponent s = 0"; cases sign; cases "rx_number s = 0") (simp_all only: with_sign_def refl simp_thms if_True if_False option.inject Option.bind.simps)
    ultimately show ?thesis using e(1) False unfolding sz_def [symmetric] by (intro exI [of _ ns] exI [of _ p'] exI [of _ v']) simp
  qed
qed

section \<open>The double\<close>

lemma radix_result_double:
  assumes "radix_result 53 sign N v"
  shows "\<exists>d. D_nearest (real N) (unat d) \<and> v = (if N < 2 ^ 53 then with_sign sign d else d)"
proof -
  obtain n e where r: "radix_rounded 53 N (unat n) e" "if e = 0 then v = with_sign sign (double_of_uint64 n) else DiyFpToUint64 (mk_diy n e) = Some v"
    using assms by (auto simp: radix_result_def)
  show ?thesis
  proof (cases "N < 2 ^ 53")
    case True
    then have n: "unat n = N" "e = 0" using r(1) by (simp_all add: radix_rounded_def)
    have "D_nearest (D_val (unat (double_of_uint64 n))) (unat (double_of_uint64 n))"
      using double_of_uint64_exact(1) [of n] n True by (intro nearest_rank_val) simp
    then have "D_nearest (real N) (unat (double_of_uint64 n))" using double_of_uint64_exact(2) [of n] n True by simp
    then show ?thesis using r(2) n True by auto
  next
    case False
    then obtain m q where m: "0 < q" "2 ^ 52 \<le> m" "m \<le> 2 ^ 53" "half_even N q m" "2 ^ 52 * 2 ^ q \<le> N"
      "if m = 2 ^ 53 then unat n = 2 ^ 52 \<and> e = int q + 1 else unat n = m \<and> e = int q" using r(1) by (auto simp: radix_rounded_def)
    have e0: "e \<noteq> 0" using m(1,6) by (auto split: if_splits)
    have dv: "unat v = min D_inf_rank (scaled_rank 52 (-1074) (int q) m)"
    proof (cases "m = 2 ^ 53")
      case True
      have "returns (DiyFpToUint64 (mk_diy n e)) (\<lambda>r. unat r = min D_inf_rank (scaled_rank 52 (-1074) (int q + 1) (2 ^ 52)))"
        using m(6) True by (intro DiyFpToUint64_scaled) (simp_all add: mk_diy_def)
      moreover have "scaled_rank 52 (-1074) (int q + 1) (2 ^ 52) = scaled_rank 52 (-1074) (int q) m"
      proof -
        have "nat (int q + 1 - -1074) = Suc (nat (int q - -1074))" by simp
        then show ?thesis using True unfolding scaled_rank_def by simp
      qed
      ultimately show ?thesis using r(2) e0 by simp
    next
      case False
      have "returns (DiyFpToUint64 (mk_diy n e)) (\<lambda>r. unat r = min D_inf_rank (scaled_rank 52 (-1074) (int q) m))"
        using m(2,3,6) False by (intro DiyFpToUint64_scaled) (simp_all add: mk_diy_def)
      then show ?thesis using r(2) e0 by simp
    qed
    have y: "real N / 2 ^ q * 2 powi int q = real N" by simp
    have "real (2 ^ 52 * 2 ^ q) \<le> real N" using m(5) by (simp only: of_nat_le_iff)
    then have "2 ^ 52 \<le> real N / 2 ^ q" by (simp add: field_simps)
    then have "2 ^ 52 - 1 / 4 < real N / 2 ^ q" by linarith
    then have "D_nearest (real N / 2 ^ q * 2 powi int q) (min D_inf_rank (scaled_rank 52 (-1074) (int q) m))"
      using m(2,3,4) unfolding half_even_def by (intro nearest_scaled disjI2) simp_all
    then have "D_nearest (real N) (unat v)" unfolding dv y .
    then show ?thesis using False by auto
  qed
qed

lemma RadixStringToIeee_zeros:
  assumes "input = pre @ replicate (Suc z) CHR ''0''"
  shows "RadixStringToIeee b input (length pre) sign allow jv dbl = Some (SignedZero sign, Some (length input))"
proof -
  have "input = pre @ replicate (Suc z) CHR ''0'' @ []" using assms by simp
  note zs = radix_zeros_run [OF this disjI1 [OF refl]]
  have "length pre \<noteq> length input" "length pre + Suc z = length input" using assms by simp_all
  then show ?thesis unfolding RadixStringToIeee_def Let_def zs by (simp add: check_def)
qed

text \<open>A text of digits only.\<close>

lemma RadixStringToIeee_all:
  assumes input: "input = pre @ w" and w: "w \<noteq> []" "list_all (radix_char b) w" and b: "0 < b" "b \<le> 5"
    and room: "b * length w \<le> 2000000000"
  shows "\<exists>v. RadixStringToIeee b input (length pre) sign allow jv dbl = Some (v, Some (length input)) \<and>
    (radix_val b w = 0 \<and> v = SignedZero sign \<or> radix_result (if dbl then 53 else 24) sign (radix_val b w) v)"
proof -
  obtain z u where u: "w = replicate z CHR ''0'' @ u" "u = [] \<or> hd u \<noteq> CHR ''0''" using leading_zeros by blast
  have d: "list_all (radix_char b) u" "list_all (radix_char b) (replicate z CHR ''0'')" using w(2) u(1) by simp_all
  have z0: "radix_val b (replicate z CHR ''0'') = 0" using radix_val_zero [OF d(2) b(1)] by (simp add: list_all_iff)
  have val: "radix_val b w = radix_val b u" unfolding u(1) radix_val_append z0 by simp
  show ?thesis
  proof (cases "u = []")
    case True
    then obtain k where k: "z = Suc k" using w(1) u(1) by (cases z) auto
    have "RadixStringToIeee b input (length pre) sign allow jv dbl = Some (SignedZero sign, Some (length input))"
      using input u(1) True k by (intro RadixStringToIeee_zeros [of _ _ k]) simp
    then show ?thesis using True val by simp
  next
    case False
    have inp: "input = pre @ replicate z CHR ''0'' @ u @ []" using input u(1) by simp
    have ne: "u @ [] \<noteq> []" using False by simp
    have "b * length u \<le> 2000000000" using room by (rule order_trans [rotated]) (simp add: u(1))
    from RadixStringToIeee_run [OF inp u(2) d(1) disjI1 [OF refl] b ne this, of allow sign jv dbl] obtain ns p' v where
      r: "trail input allow (length (pre @ replicate z CHR ''0'' @ u)) = Some (ns, p')"
        "RadixStringToIeee b input (length pre) sign allow jv dbl = Some (if ns then (jv, None) else (v, Some p'))"
        "\<not> ns \<longrightarrow> radix_result (if dbl then 53 else 24) sign (radix_val b u) v" by auto
    have e: "length (pre @ replicate z CHR ''0'' @ u) = length input" using inp by simp
    have "\<not> ns" "p' = length input" using r(1) unfolding e by (auto simp: trail_def AdvanceToNonspace_end split: if_splits)
    then show ?thesis using r(2,3) unfolding val by auto
  qed
qed

lemma RadixStringToIeee_digits:
  assumes "input = pre @ w" "w \<noteq> []" "list_all (radix_char b) w" "0 < b" "b \<le> 5" "b * length w \<le> 2000000000"
  shows "\<exists>d. RadixStringToIeee b input (length pre) sign allow jv True =
      Some (if radix_val b w < 2 ^ 53 then with_sign sign d else d, Some (length input)) \<and> D_nearest (real (radix_val b w)) (unat d)"
proof -
  obtain v where v: "RadixStringToIeee b input (length pre) sign allow jv True = Some (v, Some (length input))"
    "radix_val b w = 0 \<and> v = SignedZero sign \<or> radix_result 53 sign (radix_val b w) v"
    using RadixStringToIeee_all [OF assms, of sign allow jv True] by auto
  from v(2) show ?thesis
  proof
    assume z: "radix_val b w = 0 \<and> v = SignedZero sign"
    have "D_nearest 0 (unat (0 :: double))" using nearest_zero [of 0] by simp
    then show ?thesis using v(1) z by (intro exI [of _ 0]) (simp add: SignedZero_def with_sign_def)
  next
    assume "radix_result 53 sign (radix_val b w) v"
    from radix_result_double [OF this] v(1) show ?thesis by auto
  qed
qed

section \<open>Hexadecimal literals\<close>

definition reads_hex :: "string_to_double_converter \<Rightarrow> bool" where
  "reads_hex conv \<longleftrightarrow> allows conv ALLOW_HEX \<and> symbol_ok (std_infinity_symbol conv) \<and> symbol_ok (std_nan_symbol conv)"

lemma StringToDouble_hex:
  assumes conv: "reads_hex conv" and t: "is_sign t" and x: "x = CHR ''x'' \<or> x = CHR ''X''" and w: "w \<noteq> []" "list_all (radix_char 4) w"
    and room: "length w \<le> 500000000"
  defines "input \<equiv> t @ CHR ''0'' # x # w"
  shows "\<exists>d. StringToDouble conv input = Some (if radix_val 4 w < 2 ^ 53 then with_sign (t = ''-'') d else d, length input) \<and>
    D_nearest (real (radix_val 4 w)) (unat d)"
proof -
  have in1: "input = t @ CHR ''0'' # x # w" by (simp add: input_def)
  have start: "number_start CHR ''0''" by (simp add: number_start_def is_decimal_def)
  define s where "s = initial_state\<lparr>ps_sign := (t = ''-''), ps_current := length t\<rparr>"
  have cur: "ps_current s = length t" by (simp add: s_def)
  have sym: "symbol_ok (std_infinity_symbol conv)" "symbol_ok (std_nan_symbol conv)" and hex: "allows conv ALLOW_HEX"
    using conv by (simp_all add: reads_hex_def)
  have in2: "input = (t @ [CHR ''0'', x]) @ w" using in1 by simp
  from RadixStringToIeee_digits [OF in2 w _ _ _, of "t = ''-''" "allows conv ALLOW_TRAILING_JUNK" "std_junk_string_value conv"] obtain d where
    d: "RadixStringToIeee 4 input (Suc (Suc (length t))) (t = ''-'') (allows conv ALLOW_TRAILING_JUNK) (std_junk_string_value conv) True =
      Some (if radix_val 4 w < 2 ^ 53 then with_sign (t = ''-'') d else d, Some (length input))" "D_nearest (real (radix_val 4 w)) (unat d)" using room by auto
  obtain c r where c: "w = c # r" "radix_char 4 c" using w by (cases w) auto
  have at: "vget input (length t) = Some CHR ''0''" "vget input (Suc (length t)) = Some x" "vget input (Suc (Suc (length t))) = Some c"
    "Suc (length t) \<noteq> length input" "Suc (Suc (length t)) \<noteq> length input" using in1 c(1) by (simp_all add: vget_def nth_append)
  have dig: "isDigit (of_char c) 16" using c(2) by (simp add: radix_char_iff)
  have "parse_leading_zero True conv input s = Some (Return (if radix_val 4 w < 2 ^ 53 then with_sign (t = ''-'') d else d) (length input))"
    using at hex x dig d(1) by (simp add: parse_leading_zero_def parse_hex_def Let_def cur s_def AdvanceToNonspace_end)
  then have "parse_number True conv input = Some (Return (if radix_val 4 w < 2 ^ 53 then with_sign (t = ''-'') d else d) (length input))"
    unfolding parse_number_def skip_leading_spaces_number [OF in1 t start] and_then.simps parse_sign_number [OF in1 t start] s_def [symmetric]
      parse_symbol_number [OF sym(1) in1 cur start] parse_symbol_number [OF sym(2) in1 cur start] by simp
  then show ?thesis using d(2) by (auto simp: StringToDouble_def StringToIeee_def)
qed

section \<open>Properties\<close>

text \<open>
  C27: With \<open>ALLOW_HEX\<close>, \<open>StringToDouble\<close> reads \<open>0x\<close> and up to five hundred million hexadecimal digits, with an optional sign, to
  their end (from about 537 million digits on the binary exponent, an \<open>int\<close>, overflows); the absolute value is the double nearest
  to the number, ties to even, with overflow to infinity. The sign is the one of the text as long as the number has at most 53 bits.
\<close>

theorem string_to_double_reads_hex:
  assumes "reads_hex conv" "is_sign t" "w \<noteq> []" "list_all (radix_char 4) w" "length w \<le> 500000000"
  shows "\<exists>d. StringToDouble conv (t @ ''0x'' @ w) = Some (if radix_val 4 w < 2 ^ 53 then with_sign (t = ''-'') d else d, length (t @ ''0x'' @ w)) \<and>
    D_nearest (real (radix_val 4 w)) (unat d)"
  using StringToDouble_hex [OF assms(1,2) _ assms(3-5), of "CHR ''x''"] by simp

theorem string_to_double_reads_hex_witness:
  "\<exists>d. StringToDouble \<lparr>std_flags = 1, std_empty_string_value = 0, std_junk_string_value = D_kNaN,
        std_infinity_symbol = None, std_nan_symbol = None\<rparr> ''-0x1fF'' = Some (with_sign True d, length ''-0x1fF'') \<and> D_nearest 511 (unat d)"
proof -
  let ?c = "\<lparr>std_flags = 1, std_empty_string_value = 0, std_junk_string_value = D_kNaN, std_infinity_symbol = None, std_nan_symbol = None\<rparr>"
  have h: "reads_hex ?c" by (simp add: reads_hex_def allows_def ALLOW_HEX_def symbol_ok_def)
  have w: "list_all (radix_char 4) ''1fF''" "radix_val 4 ''1fF'' = 511"
    by (simp_all add: radix_char_def radix_val_def radix_char_val_def radix_digit_def IsDecimalDigitForRadix_def IsCharacterDigitForRadix_def)
  show ?thesis using string_to_double_reads_hex [OF h, of "''-''" "''1fF''"] w by (simp add: is_sign_def)
qed

text \<open>
  C28: The sign of a hexadecimal number of more than 53 bits (and up to five hundred million digits) is lost: \<open>RadixStringToIeee\<close>
  returns its rounded value without looking at \<open>sign\<close>, so that \<open>StringToDouble\<close> reads a negative text as a positive number.
\<close>

theorem string_to_double_hex_loses_sign:
  assumes "reads_hex conv" "w \<noteq> []" "list_all (radix_char 4) w" "2 ^ 53 \<le> radix_val 4 w" "length w \<le> 500000000"
  shows "\<exists>d. StringToDouble conv (''-0x'' @ w) = Some (d, length w + 3) \<and> D_nearest (real (radix_val 4 w)) (unat d)"
  using StringToDouble_hex [OF assms(1) _ _ assms(2,3,5), of "''-''" "CHR ''x''"] assms(4) by (auto simp: is_sign_def)

theorem string_to_double_hex_loses_sign_witness:
  "\<exists>d. StringToDouble \<lparr>std_flags = 1, std_empty_string_value = 0, std_junk_string_value = D_kNaN,
        std_infinity_symbol = None, std_nan_symbol = None\<rparr> ''-0x20000000000000'' = Some (d, 17) \<and> D_nearest 9007199254740992 (unat d)"
proof -
  let ?c = "\<lparr>std_flags = 1, std_empty_string_value = 0, std_junk_string_value = D_kNaN, std_infinity_symbol = None, std_nan_symbol = None\<rparr>"
  have h: "reads_hex ?c" by (simp add: reads_hex_def allows_def ALLOW_HEX_def symbol_ok_def)
  have w: "list_all (radix_char 4) ''20000000000000''" "radix_val 4 ''20000000000000'' = 9007199254740992"
    by (simp_all add: radix_char_def radix_val_def radix_char_val_def radix_digit_def IsDecimalDigitForRadix_def IsCharacterDigitForRadix_def)
  show ?thesis using string_to_double_hex_loses_sign [OF h, of "''20000000000000''"] w by simp
qed

end
