(* ===== verification/Parse_Total.thy ===== *)
theory Parse_Total
  imports Radix_Properties
begin

text \<open>
  The parser on any input at all: no assertion of \<open>StringToIeee\<close> and of what it calls fails, nothing is read outside the input, every
  loop ends, and the number of processed characters is at most the length of the input. The proof follows the phases with an invariant
  of the parser's variables.
\<close>

section \<open>The invariant\<close>

definition octal_chars :: "string \<Rightarrow> bool" where
  "octal_chars w \<longleftrightarrow> list_all (\<lambda>c. (of_char c :: int) < of_char CHR ''8'') w"

definition buffer_ok :: "parse_state \<Rightarrow> bool" where
  "buffer_ok s \<longleftrightarrow> list_all is_decimal (ps_buffer s) \<and> length (ps_buffer s) = ps_significant_digits s \<and>
     ps_significant_digits s \<le> kMaxSignificantDigits \<and> (ps_octal s \<longrightarrow> octal_chars (ps_buffer s))"

definition done_ok :: "string \<Rightarrow> parse_state \<Rightarrow> bool" where
  "done_ok input s \<longleftrightarrow> ps_current s \<le> length input \<and> buffer_ok s \<and> (ps_octal s \<longrightarrow> ps_buffer s \<noteq> []) \<and>
     ps_insignificant_digits s \<le> length input \<and> \<bar>ps_exponent s\<bar> \<le> int (length input) + max_exponent"

definition exponent_ok :: "parse_state \<Rightarrow> bool" where
  "exponent_ok s \<longleftrightarrow> - int (ps_current s) \<le> ps_exponent s \<and> ps_exponent s \<le> 0 \<and> ps_insignificant_digits s \<le> ps_current s"

fun flow_ok :: "string \<Rightarrow> (parse_state \<Rightarrow> bool) \<Rightarrow> flow \<Rightarrow> bool" where
  "flow_ok input P (Return v n) \<longleftrightarrow> n \<le> length input"
| "flow_ok input P (Parsing_done s) \<longleftrightarrow> done_ok input s"
| "flow_ok input P (Go_on s) \<longleftrightarrow> P s"

lemma and_then_ok:
  assumes "returns r (flow_ok input P)" "\<And>s. P s \<Longrightarrow> returns (f s) (flow_ok input Q)"
  shows "returns (and_then r f) (flow_ok input Q)"
proof -
  obtain x where x: "r = Some x" "flow_ok input P x" using assms(1) by (auto elim: returnsE)
  then show ?thesis using assms(2) by (cases x) simp_all
qed

section \<open>The phases\<close>

definition fresh :: "string \<Rightarrow> parse_state \<Rightarrow> bool" where
  "fresh input s \<longleftrightarrow> ps_current s < length input \<and> ps_buffer s = [] \<and> ps_significant_digits s = 0 \<and> ps_exponent s = 0 \<and>
     ps_insignificant_digits s = 0"

lemma skip_leading_spaces_ok: "returns (skip_leading_spaces conv input initial_state) (flow_ok input (\<lambda>s. fresh input s \<and> \<not> ps_octal s))"
  using AdvanceToNonspace_returns [of 0 input]
  by (auto simp: skip_leading_spaces_def wp fresh_def initial_state_def junk_def elim!: returns_mono)

lemma parse_sign_ok:
  "fresh input s \<and> \<not> ps_octal s \<Longrightarrow> returns (parse_sign conv input s) (flow_ok input (\<lambda>s. fresh input s \<and> \<not> ps_octal s))"
  using AdvanceToNonspace_returns [of "ps_current s + 1" input]
  by (auto simp: parse_sign_def wp Let_def fresh_def junk_def elim!: returns_mono)

lemma consume_rest_ok:
  "current < length input \<Longrightarrow> returns (consume_rest input current t) (\<lambda>(m, p). p \<le> length input)"
  by (induction t arbitrary: current) (auto simp: Let_def wp)

definition symbol_proper :: "string option \<Rightarrow> bool" where
  "symbol_proper symbol \<longleftrightarrow> symbol \<noteq> Some []"

lemma ConsumeSubString_ok:
  "current < length input \<Longrightarrow> t \<noteq> [] \<Longrightarrow> input ! current = first_char t \<Longrightarrow>
   returns (ConsumeSubString input current t) (\<lambda>(m, p). p \<le> length input)"
  using consume_rest_ok [of current input "tl t"] by (cases t) (simp_all add: ConsumeSubString_def wp first_char_def)

lemma parse_symbol_ok:
  assumes "symbol_proper symbol" "fresh input s \<and> \<not> ps_octal s"
  shows "returns (parse_symbol symbol v conv input s) (flow_ok input (\<lambda>s. fresh input s \<and> \<not> ps_octal s))"
proof (cases symbol)
  case (Some t)
  have cur: "ps_current s < length input" and t: "t \<noteq> []" using assms Some by (auto simp: fresh_def symbol_proper_def)
  show ?thesis
  proof (cases "input ! ps_current s = first_char t")
    case True
    from returns_ex [OF ConsumeSubString_ok [OF cur t True]] obtain m p where
      c: "ConsumeSubString input (ps_current s) t = Some (m, p)" "p \<le> length input" by auto
    show ?thesis using Some True cur c returns_ex [OF AdvanceToNonspace_returns [OF c(2)]]
      by (auto simp: parse_symbol_def wp junk_def)
  next
    case False
    then show ?thesis using Some cur assms(2) by (simp add: parse_symbol_def wp)
  qed
qed (use assms in \<open>simp add: parse_symbol_def\<close>)

lemma skip_zeros_ok:
  assumes "i \<le> length input" "step \<le> 0"
  shows "returns (skip_zeros input step (i, e)) (\<lambda>(j, f). i \<le> j \<and> j \<le> length input \<and> f \<le> e \<and> e + int (j - i) * step \<le> f)"
  unfolding skip_zeros_def
proof (rule returns_while [where I = "\<lambda>(j, f). i \<le> j \<and> j \<le> length input \<and> f \<le> e \<and> e + int (j - i) * step \<le> f"
      and m = "\<lambda>(j, f). length input - j"], goal_cases)
  case (2 s)
  obtain j f where s: "s = (j, f)" "i \<le> j" "j \<le> length input" "f \<le> e" "e + int (j - i) * step \<le> f" using 2 by (cases s) auto
  have "int (Suc j - i) = int (j - i) + 1" using s(2) by simp
  then have d: "e + int (Suc j - i) * step \<le> f + step" using s(5) by (simp add: algebra_simps)
  show ?case using s d assms(2) by (cases "j = length input") (auto simp: wp)
qed (use assms in simp)

lemma digit_loop_ok:
  assumes "I s" and cur: "\<And>s. I s \<Longrightarrow> ps_current s \<le> length input"
    and body: "\<And>s. I s \<Longrightarrow> ps_current s < length input \<Longrightarrow> is_decimal (input ! ps_current s) \<Longrightarrow>
      returns (body (input ! ps_current s) s) (\<lambda>s'. I s' \<and> ps_current s' = Suc (ps_current s))"
  shows "returns (digit_loop body input s) I"
  unfolding digit_loop_def
proof (rule returns_while [where I = I and m = "\<lambda>s. length input - ps_current s"], goal_cases)
  case (2 s)
  show ?case
  proof (cases "ps_current s < length input \<and> is_decimal (input ! ps_current s)")
    case True
    then show ?thesis using body [OF 2] by (auto simp: wp elim!: returns_mono)
  next
    case False
    then show ?thesis using cur [OF 2] 2 by (auto simp: wp)
  qed
qed (rule assms(1))

section \<open>Zeros and digits\<close>

lemma parse_hex_ok:
  assumes "ps_current s < length input" and size: "length input \<le> 500000000"
  shows "returns (parse_hex dbl conv input s) (flow_ok input P)"
proof -
  let ?i = "Suc (ps_current s)"
  show ?thesis
  proof (cases "?i < length input \<and> isDigit (of_char (input ! ?i)) 16")
    case False
    then show ?thesis using assms by (auto simp: parse_hex_def wp Let_def junk_def vget_def)
  next
    case True
    define rest where "rest = drop ?i input"
    obtain z r where zr: "rest = replicate z CHR ''0'' @ r" "r = [] \<or> hd r \<noteq> CHR ''0''" using leading_zeros by blast
    define w post where "w = takeWhile (radix_char 4) r" and "post = dropWhile (radix_char 4) r"
    have wp: "r = w @ post" "list_all (radix_char 4) w" by (auto simp: w_def post_def list_all_iff dest: set_takeWhileD)
    have post: "post = [] \<or> \<not> radix_char 4 (hd post)" unfolding post_def using hd_dropWhile by blast
    have hw: "w = [] \<or> hd w \<noteq> CHR ''0''" using zr(2) wp(1) by (cases w) auto
    have in1: "input = take ?i input @ replicate z CHR ''0'' @ w @ post" using zr(1) wp(1) unfolding rest_def by (metis append_take_drop_id)
    have len: "length (take ?i input) = ?i" using True by simp
    have "\<exists>v tp. RadixStringToIeee 4 input ?i (ps_sign s) (allows conv ALLOW_TRAILING_JUNK) (std_junk_string_value conv) dbl = Some (v, tp) \<and>
        (case tp of None \<Rightarrow> True | Some p \<Rightarrow> p \<le> length input)"
    proof (cases "w @ post = []")
      case True
      then have "input = take ?i input @ replicate z CHR ''0''" using in1 by simp
      moreover have "z \<noteq> 0"
      proof
        assume "z = 0"
        with calculation len have "length input = ?i" by simp
        with \<open>?i < length input \<and> _\<close> show False by simp
      qed
      then obtain k where "z = Suc k" by (cases z) auto
      ultimately show ?thesis using RadixStringToIeee_zeros [of input "take ?i input" k] len by simp
    next
      case False
      have "length (take ?i input @ replicate z CHR ''0'' @ w) \<le> length input" using arg_cong [OF in1, of length] by simp
      moreover from this have "4 * length w \<le> 2000000000" using size by simp
      ultimately
      have "\<exists>ns p'. trail input (allows conv ALLOW_TRAILING_JUNK) (length (take ?i input @ replicate z CHR ''0'' @ w)) = Some (ns, p') \<and> p' \<le> length input"
        and "4 * length w \<le> 2000000000" using trail_returns [of _ input "allows conv ALLOW_TRAILING_JUNK"] by blast+
      with RadixStringToIeee_run [OF in1 hw wp(2) post _ _ False \<open>4 * length w \<le> 2000000000\<close>, of "allows conv ALLOW_TRAILING_JUNK" "ps_sign s" "std_junk_string_value conv" dbl]
      show ?thesis unfolding len by (fastforce split: if_splits)
    qed
    then obtain v tp where v: "RadixStringToIeee 4 input ?i (ps_sign s) (allows conv ALLOW_TRAILING_JUNK) (std_junk_string_value conv) dbl = Some (v, tp)"
      "case tp of None \<Rightarrow> True | Some p \<Rightarrow> p \<le> length input" by blast
    show ?thesis
    proof (cases tp)
      case None
      then show ?thesis using True v by (simp add: parse_hex_def vget_def)
    next
      case (Some p)
      then show ?thesis using True v returns_ex [OF AdvanceToNonspace_returns [of p input]] by (auto simp: parse_hex_def vget_def)
    qed
  qed
qed

lemma parse_leading_zero_ok:
  assumes "fresh input s \<and> \<not> ps_octal s" and size: "length input \<le> 500000000"
  shows "returns (parse_leading_zero dbl conv input s) (flow_ok input (fresh input))"
proof -
  let ?i = "Suc (ps_current s)"
  have cur: "ps_current s < length input" using assms by (simp add: fresh_def)
  show ?thesis
  proof (cases "input ! ps_current s = CHR ''0'' \<and> ?i \<noteq> length input")
    case False
    then show ?thesis using cur assms by (auto simp: parse_leading_zero_def wp Let_def)
  next
    case True
    then have i: "?i < length input" using cur by simp
    then have hex: "returns (parse_hex dbl conv input (s\<lparr>ps_current := ?i, ps_leading_zero := True\<rparr>)) (flow_ok input (fresh input))"
      using size by (intro parse_hex_ok) simp_all
    have "?i \<le> length input" "(0 :: int) \<le> 0" using i by simp_all
    from returns_ex [OF skip_zeros_ok [OF this, of 0]] obtain j f where "skip_zeros input 0 (?i, 0) = Some (j, f)" "j \<le> length input" by auto
    then show ?thesis using True cur i hex assms by (auto simp: parse_leading_zero_def wp Let_def fresh_def vget_def)
  qed
qed

lemma integer_digit_ok:
  assumes "buffer_ok s" "is_decimal c"
  shows "returns (integer_digit c s) (\<lambda>s'. buffer_ok s' \<and> ps_current s' = Suc (ps_current s) \<and> ps_exponent s' = ps_exponent s \<and> ps_buffer s' \<noteq> [] \<and>
    ps_insignificant_digits s' \<le> Suc (ps_insignificant_digits s))"
  using assms by (auto simp: integer_digit_def wp buffer_ok_def kBufferSize_def kMaxSignificantDigits_def octal_chars_def)

lemma fraction_digit_ok:
  assumes "buffer_ok s" "\<not> ps_octal s" "is_decimal c"
  shows "returns (fraction_digit c s) (\<lambda>s'. buffer_ok s' \<and> \<not> ps_octal s' \<and> ps_current s' = Suc (ps_current s) \<and>
    ps_exponent s' \<le> ps_exponent s \<and> ps_exponent s - 1 \<le> ps_exponent s' \<and> ps_insignificant_digits s' = ps_insignificant_digits s)"
  using assms by (auto simp: fraction_digit_def wp buffer_ok_def kBufferSize_def kMaxSignificantDigits_def)

definition number_ok :: "string \<Rightarrow> parse_state \<Rightarrow> bool" where
  "number_ok input s \<longleftrightarrow> done_ok input s \<and> ps_current s < length input \<and> exponent_ok s"

lemma parse_integer_ok:
  assumes "fresh input s"
  shows "returns (parse_integer conv input s) (flow_ok input (number_ok input))"
proof -
  have "returns (digit_loop integer_digit input s) (\<lambda>s'. buffer_ok s' \<and> ps_current s' \<le> length input \<and> ps_exponent s' = 0 \<and>
      ps_insignificant_digits s' \<le> ps_current s' \<and> (ps_buffer s' \<noteq> [] \<or> ps_current s' < length input))"
  proof (rule digit_loop_ok, goal_cases)
    case 1
    then show ?case using assms by (auto simp: fresh_def buffer_ok_def octal_chars_def)
  next
    case (3 s')
    then have "buffer_ok s'" by simp
    from integer_digit_ok [OF this 3(3)] show ?case by (rule returns_mono) (use 3 in auto)
  qed simp
  then show ?thesis unfolding parse_integer_def returns_bind
    by (rule returns_mono) (auto simp: number_ok_def done_ok_def exponent_ok_def buffer_ok_def max_exponent_def)
qed

lemma parse_fraction_ok:
  assumes "number_ok input s"
  shows "returns (parse_fraction conv input s) (flow_ok input (number_ok input))"
proof (cases "input ! ps_current s = CHR ''.'' \<and> \<not> ps_octal s \<and> Suc (ps_current s) \<noteq> length input")
  case False
  then show ?thesis using assms
    by (auto simp: parse_fraction_def wp Let_def junk_def number_ok_def done_ok_def buffer_ok_def)
next
  case True
  let ?i = "Suc (ps_current s)"
  have i: "?i < length input" using True assms by (simp add: number_ok_def)
  have ok: "buffer_ok s" "exponent_ok s" and few: "ps_insignificant_digits s \<le> ps_current s"
    using assms by (simp_all add: number_ok_def done_ok_def exponent_ok_def)
  define z where "z = (if ps_significant_digits s = 0 then skip_zeros input (-1) (?i, ps_exponent s) else Some (?i, ps_exponent s))"
  have "returns z (\<lambda>(j, e). j \<le> length input \<and> ?i \<le> j \<and> - int j \<le> e \<and> e \<le> 0)"
  proof (cases "ps_significant_digits s = 0")
    case True
    have "?i \<le> length input" using i by simp
    from skip_zeros_ok [OF this, of "-1" "ps_exponent s"] show ?thesis
      unfolding z_def using True ok(2) by (auto simp: exponent_ok_def elim!: returns_mono)
  qed (use i ok(2) in \<open>simp add: z_def exponent_ok_def\<close>)
  then obtain j e where j: "z = Some (j, e)" "j \<le> length input" "- int j \<le> e" "e \<le> 0" "?i \<le> j" by (auto elim: returnsE)
  define s1 where "s1 = s\<lparr>ps_current := j, ps_exponent := e\<rparr>"
  have loop: "returns (digit_loop fraction_digit input s1)
      (\<lambda>s'. buffer_ok s' \<and> \<not> ps_octal s' \<and> ps_current s' \<le> length input \<and> exponent_ok s')"
  proof (rule digit_loop_ok, goal_cases)
    case 1
    then show ?case using j ok(1) True few by (simp add: s1_def buffer_ok_def exponent_ok_def)
  next
    case (3 s')
    then have "buffer_ok s'" "\<not> ps_octal s'" by simp_all
    from fraction_digit_ok [OF this 3(3)] show ?case by (rule returns_mono) (use 3 in \<open>auto simp: exponent_ok_def\<close>)
  qed simp
  have run: "parse_fraction conv input s = (if j = length input then Some (Return (SignedZero (ps_sign s)) j) else do {
        s \<leftarrow> digit_loop fraction_digit input s1;
        if ps_current s = length input then Some (Parsing_done s) else Some (Go_on s) })"
    using True i j(1) unfolding z_def by (cases "ps_significant_digits s = 0") (simp_all add: parse_fraction_def vget_def s1_def)
  show ?thesis unfolding run using loop j(2)
    by (auto simp: wp number_ok_def done_ok_def exponent_ok_def max_exponent_def elim!: returns_mono)
qed

section \<open>Exponent and end\<close>

lemma decimal_code: "is_decimal c \<Longrightarrow> 0 \<le> of_char c - (of_char CHR ''0'' :: int) \<and> of_char c - (of_char CHR ''0'' :: int) \<le> 9"
  by (simp add: is_decimal_def)

lemma exponent_loop_ok:
  "i \<le> length input \<Longrightarrow> returns (exponent_loop input i) (\<lambda>(j, n). j \<le> length input \<and> 0 \<le> n \<and> n \<le> max_exponent)"
  unfolding exponent_loop_def
proof (rule returns_while [where I = "\<lambda>(j, n). j \<le> length input \<and> 0 \<le> n \<and> n \<le> max_exponent" and m = "\<lambda>(j, n). length input - j"], goal_cases)
  case (2 s)
  then obtain j n where s: "s = (j, n)" "j \<le> length input" "0 \<le> n" "n \<le> max_exponent" by (cases s) auto
  show ?case
  proof (cases "j < length input \<and> is_decimal (input ! j)")
    case True
    then have "is_decimal (input ! j)" by simp
    from decimal_code [OF this] show ?thesis using s True by (auto simp: wp Let_def max_exponent_def)
  next
    case False
    then show ?thesis using s by (auto simp: wp)
  qed
qed (simp add: max_exponent_def)

lemma check_digits_ok: "number_ok input s \<Longrightarrow> returns (check_digits conv input s) (flow_ok input (number_ok input))"
  by (simp add: check_digits_def junk_def)

lemma no_exponent_ok: "done_ok input s \<Longrightarrow> flow_ok input P (no_exponent conv s)"
  by (simp add: no_exponent_def junk_def)

lemma done_ok_current: "done_ok input s \<Longrightarrow> i \<le> length input \<Longrightarrow> done_ok input (s\<lparr>ps_current := i\<rparr>)"
  "done_ok input s \<Longrightarrow> i \<le> length input \<Longrightarrow> \<bar>e\<bar> \<le> int (length input) + max_exponent \<Longrightarrow>
    done_ok input (s\<lparr>ps_current := i, ps_exponent := e\<rparr>)"
  by (simp_all add: done_ok_def buffer_ok_def)

lemma parse_exponent_ok:
  assumes ok: "number_ok input s" and len: "length input \<le> 500000000"
  shows "returns (parse_exponent conv input s) (flow_ok input (done_ok input))"
proof -
  have d: "done_ok input s" and cur: "ps_current s < length input" and e: "exponent_ok s" using ok by (simp_all add: number_ok_def)
  have lim: "cdiv (- max_exponent) 2 \<le> ps_exponent s \<and> ps_exponent s \<le> max_exponent div 2"
    using e cur len by (simp add: exponent_ok_def cdiv_def max_exponent_def)
  show ?thesis
  proof (cases "(input ! ps_current s = CHR ''e'' \<or> input ! ps_current s = CHR ''E'') \<and> \<not> ps_octal s")
    case False
    then show ?thesis using d cur by (auto simp: parse_exponent_def wp junk_def)
  next
    case True
    let ?i = "Suc (ps_current s)"
    define sg where "sg = (?i < length input \<and> (input ! ?i = CHR ''+'' \<or> input ! ?i = CHR ''-''))"
    define i where "i = (if sg then Suc ?i else ?i)"
    have i: "i \<le> length input" using cur by (auto simp: i_def sg_def)
    define s1 where "s1 = s\<lparr>ps_current := i\<rparr>"
    have s1: "done_ok input s1" unfolding s1_def by (rule done_ok_current [OF d i])
    show ?thesis
    proof (cases "i < length input \<and> is_decimal (input ! i)")
      case False
      have "parse_exponent conv input s = Some (no_exponent conv s1)"
      proof (cases sg)
        case sgn: True
        then have "i = Suc ?i" "?i < length input" "input ! ?i = CHR ''+'' \<or> input ! ?i = CHR ''-''" by (simp_all add: i_def sg_def)
        then show ?thesis using True False cur i by (auto simp: parse_exponent_def vget_def s1_def Let_def)
      next
        case unsigned: False
        then have "i = ?i" "?i = length input \<or> input ! ?i \<noteq> CHR ''+'' \<and> input ! ?i \<noteq> CHR ''-''" using cur by (auto simp: i_def sg_def)
        then show ?thesis using True False cur i by (auto simp: parse_exponent_def vget_def s1_def Let_def)
      qed
      then show ?thesis by (simp add: no_exponent_ok [OF s1])
    next
      case dec: True
      from returns_ex [OF exponent_loop_ok [OF i]] obtain j n where j: "exponent_loop input i = Some (j, n)" "j \<le> length input" "0 \<le> n" "n \<le> max_exponent" by auto
      have chk: "check (cdiv (- max_exponent) 2 \<le> ps_exponent s \<and> ps_exponent s \<le> max_exponent div 2) = Some ()" using lim by (simp add: check_def)
      have "\<exists>e. parse_exponent conv input s = Some (Go_on (s\<lparr>ps_current := j, ps_exponent := e\<rparr>)) \<and> (e = ps_exponent s + n \<or> e = ps_exponent s - n)"
      proof (cases sg)
        case sgn: True
        then have "i = Suc ?i" "?i < length input" "input ! ?i = CHR ''+'' \<or> input ! ?i = CHR ''-''" by (simp_all add: i_def sg_def)
        then show ?thesis using True dec cur j(1) chk by (auto simp: parse_exponent_def vget_def Let_def)
      next
        case unsigned: False
        then have "i = ?i" "input ! ?i \<noteq> CHR ''+'' \<and> input ! ?i \<noteq> CHR ''-''" using dec by (auto simp: i_def sg_def)
        then show ?thesis using True dec cur j(1) chk by (auto simp: parse_exponent_def vget_def Let_def)
      qed
      then obtain e' where e': "parse_exponent conv input s = Some (Go_on (s\<lparr>ps_current := j, ps_exponent := e'\<rparr>))"
        "e' = ps_exponent s + n \<or> e' = ps_exponent s - n" by blast
      have "- int (length input) \<le> ps_exponent s" "ps_exponent s \<le> 0" using e cur by (simp_all add: exponent_ok_def)
      then have "\<bar>e'\<bar> \<le> int (length input) + max_exponent" using e'(2) j(3,4) by linarith
      then show ?thesis using done_ok_current(2) [OF d j(2)] e'(1) by simp
    qed
  qed
qed

lemma check_trailing_ok:
  assumes "done_ok input s"
  shows "returns (check_trailing conv input s) (flow_ok input (done_ok input))"
proof -
  have cur: "ps_current s \<le> length input" using assms by (simp add: done_ok_def)
  from returns_ex [OF AdvanceToNonspace_returns [OF cur]] obtain ns p where
    a: "AdvanceToNonspace input (ps_current s) = Some (ns, p)" "p \<le> length input" by auto
  from returns_ex [OF AdvanceToNonspace_returns [OF a(2)]] obtain ns2 p2 where
    b: "AdvanceToNonspace input p = Some (ns2, p2)" "p2 \<le> length input" by auto
  show ?thesis using assms cur a b by (auto simp: check_trailing_def wp junk_def intro: done_ok_current)
qed

section \<open>The whole parser\<close>

lemma parse_number_ok:
  assumes "symbol_proper (std_infinity_symbol conv)" "symbol_proper (std_nan_symbol conv)" "length input \<le> 500000000"
  shows "returns (parse_number dbl conv input) (flow_ok input (done_ok input))"
  unfolding parse_number_def
  by (rule and_then_ok [OF skip_leading_spaces_ok] and_then_ok [OF parse_sign_ok] and_then_ok [OF parse_symbol_ok] and_then_ok [OF parse_leading_zero_ok]
      and_then_ok [OF parse_integer_ok] and_then_ok [OF parse_fraction_ok] and_then_ok [OF check_digits_ok] and_then_ok [OF parse_exponent_ok]
      check_trailing_ok assms | assumption)+

lemma octal_radix:
  assumes "list_all is_decimal w" "octal_chars w"
  shows "list_all (radix_char 3) w"
proof -
  have "radix_char 3 c" if "is_decimal c" "(of_char c :: int) < of_char CHR ''8''" for c
    using that by (auto simp: radix_char_iff isDigit_def is_decimal_def of_char_def)
  then show ?thesis using assms by (auto simp: list_all_iff octal_chars_def)
qed

lemma parsing_done_ok:
  assumes "done_ok input s" and size: "length input \<le> 500000000"
  shows "returns (parsing_done dbl conv s) (\<lambda>(v, n). n \<le> length input)"
proof -
  define e0 where "e0 = ps_exponent s + int (ps_insignificant_digits s)"
  have "int (ps_insignificant_digits s) \<le> int (length input)" "int (length input) \<le> 500000000"
    "\<bar>ps_exponent s\<bar> \<le> int (length input) + 1073741823" using assms by (simp_all add: done_ok_def max_exponent_def)
  then have e0: "\<bar>e0\<bar> \<le> 2100000000" unfolding e0_def by linarith
  then have "e0 \<le> 2100000000" "- 2100000000 \<le> e0" by linarith+
  then have sums: "as_int32 e0 = Some e0" "as_int32 (e0 - 1) = Some (e0 - 1)" by (simp_all add: in_int32_def)
  note run = parsing_done_def [of dbl conv s, folded e0_def, unfolded sums option_step]
  show ?thesis
  proof (cases "ps_octal s")
    case True
    then have w: "ps_buffer s \<noteq> []" "list_all (radix_char 3) (ps_buffer s)" using assms octal_radix by (auto simp: done_ok_def buffer_ok_def)
    have all: "ps_buffer s = [] @ ps_buffer s" by simp
    have "3 * length (ps_buffer s) \<le> 2000000000" using assms by (simp add: done_ok_def buffer_ok_def kMaxSignificantDigits_def)
    from RadixStringToIeee_all [OF all w _ _ this, of "ps_sign s" "allows conv ALLOW_TRAILING_JUNK" "std_junk_string_value conv" dbl]
    obtain v where "RadixStringToIeee 3 (ps_buffer s) 0 (ps_sign s) (allows conv ALLOW_TRAILING_JUNK) (std_junk_string_value conv) dbl =
      Some (v, Some (length (ps_buffer s)))" by auto
    then show ?thesis using True assms unfolding run by (simp add: wp done_ok_def)
  next
    case False
    define buf e where "buf = (if ps_nonzero_digit_dropped s then ps_buffer s @ ''1'' else ps_buffer s)"
      and "e = e0 - (if ps_nonzero_digit_dropped s then 1 else 0)"
    have buf: "list_all is_decimal buf" "length buf < kBufferSize" using assms
      by (auto simp: buf_def done_ok_def buffer_ok_def kBufferSize_def kMaxSignificantDigits_def is_decimal_def)
    have "e0 - 1 \<le> e" "e \<le> e0" by (simp_all add: e_def)
    then have int: "decimal_ok buf e" using \<open>e0 \<le> 2100000000\<close> \<open>- 2100000000 \<le> e0\<close> buf(2) by (simp add: decimal_ok_def in_int32_def kBufferSize_def kMaxSignificantDigits_def)
    from returns_ex [OF Strtod_correct [OF buf(1) int]] obtain d where "Strtod buf e = Some d" by blast
    moreover from returns_ex [OF Strtof_correct [OF buf(1) int]] obtain f where "Strtof buf e = Some f" by blast
    ultimately show ?thesis using False assms buf(2) sums unfolding run by (auto simp: wp Let_def buf_def e_def done_ok_def split: if_splits)
  qed
qed

lemma StringToIeee_ok:
  assumes "symbol_proper (std_infinity_symbol conv)" "symbol_proper (std_nan_symbol conv)" "length input \<le> 500000000"
  shows "\<exists>v n. StringToIeee conv input dbl = Some (v, n) \<and> n \<le> length input"
proof -
  obtain f where f: "parse_number dbl conv input = Some f" "flow_ok input (done_ok input) f"
    using returns_ex [OF parse_number_ok [OF assms]] by blast
  then show ?thesis using returns_ex [OF parsing_done_ok [OF _ assms(3), of _ dbl conv]] by (cases f) (auto simp: StringToIeee_def)
qed

section \<open>Properties\<close>

text \<open>
  C14: \<open>StringToDouble\<close> and \<open>StringToFloat\<close> accept every input: for any string of up to five hundred million characters, any flags and any
  symbols that are not empty strings, they end, none of their assertions and none of those of the code they call fails, nothing is read
  outside the input, and the number of processed characters is at most the length of the input.
\<close>

theorem string_to_double_always_returns:
  assumes "symbol_proper (std_infinity_symbol conv)" "symbol_proper (std_nan_symbol conv)" "length input \<le> 500000000"
  shows "(\<exists>v n. StringToDouble conv input = Some (v, n) \<and> n \<le> length input) \<and>
    (\<exists>f n. StringToFloat conv input = Some (f, n) \<and> n \<le> length input)"
  using StringToIeee_ok [OF assms, of True] StringToIeee_ok [OF assms, of False]
  by (auto simp: StringToDouble_def StringToFloat_def)

theorem string_to_double_always_returns_witness:
  "(\<exists>v n. StringToDouble \<lparr>std_flags = 63, std_empty_string_value = 0, std_junk_string_value = D_kNaN,
      std_infinity_symbol = Some ''inf'', std_nan_symbol = None\<rparr> '' - 0779.e+x'' = Some (v, n) \<and> n \<le> length '' - 0779.e+x'') \<and>
   (\<exists>f n. StringToFloat \<lparr>std_flags = 63, std_empty_string_value = 0, std_junk_string_value = D_kNaN,
      std_infinity_symbol = Some ''inf'', std_nan_symbol = None\<rparr> '' - 0779.e+x'' = Some (f, n) \<and> n \<le> length '' - 0779.e+x'')"
  by (rule string_to_double_always_returns) (simp_all add: symbol_proper_def)

end
