(* ===== verification/Float_Ascii.thy ===== *)
theory Float_Ascii
  imports Shortest_Ascii Strtof_Properties
begin

text \<open>
  The digits of a float: \<open>DoubleToAscii\<close> in the mode \<open>SHORTEST_SINGLE\<close> is given the float as a double, takes the boundaries of the
  float, which are further apart than those of the double, and so finds digits that are the shortest ones for the float.
\<close>

section \<open>Floats as doubles\<close>

definition is_float :: "double \<Rightarrow> bool" where
  "is_float u \<longleftrightarrow> single_to_double (double_to_single u) = u \<and> unat (double_to_single u) < S_inf_rank"

lemma is_float_cast: "unat f < S_inf_rank \<Longrightarrow> is_float (single_to_double f)"
  using double_to_single_exact(2) [of f] by (simp add: is_float_def)

lemma is_float_facts:
  assumes u: "is_float u"
  shows "unat u < D_inf_rank" "D_val (unat u) = S_val (unat (double_to_single u))" "unat (double_to_single u) < S_inf_rank"
    "single_to_double (double_to_single u) = u"
  using u single_to_double_exact [of "double_to_single u"] by (simp_all add: is_float_def)

lemma single_to_double_0: "single_to_double 0 = 0"
proof -
  have "D_val (unat (single_to_double 0)) = S_val (unat (0 :: single))" by (rule single_to_double_exact) simp
  then have "\<not> 0 < unat (single_to_double 0)"
    using rank_val_less [of 0 "unat (single_to_double 0)" 52 "-1074"] by (auto simp: rank_val_def rank_sig_def)
  then show ?thesis by (simp add: unat_eq_0_iff)
qed

lemma float_pos:
  assumes u: "is_float u" "u \<noteq> 0"
  shows "0 < unat u" "0 < unat (double_to_single u)"
  using u is_float_facts(4) [OF u(1)] single_to_double_0 by (auto simp: unat_gt_0)

section \<open>The conversions\<close>

definition S_shortest :: "single \<Rightarrow> string \<Rightarrow> int \<Rightarrow> bool" where
  "S_shortest f ds point \<longleftrightarrow> (if f = 0 then ds = ''0'' \<and> point = 1 else
     shortest_digits (even (unat f)) (midpoint 23 (-149) (unat f - 1)) (S_val (unat f)) (midpoint 23 (-149) (unat f)) ds point)"

lemma FastDtoa_shortest_single:
  assumes u: "is_float u" "u \<noteq> 0" and buf: "18 \<le> length buffer"
  shows "returns (FastDtoa u FAST_DTOA_SHORTEST_SINGLE digits buffer) (\<lambda>(r, buf, l, point). length buf = length buffer \<and> l \<le> 17 \<and>
    (r \<longrightarrow> buf ! l = CHR 0x00 \<and> l = length (take l buf) \<and> S_shortest (double_to_single u) (take l buf) point))"
proof (rule FastDtoa_of_Grisu3 [OF float_pos(1) [OF u] is_float_facts(1) [OF u(1)] buf])
  let ?f = "double_to_single u"
  note f = float_pos [OF u] is_float_facts [OF u(1)]
  have "17 \<le> length buffer" "?f \<noteq> 0" using buf f(2) by auto
  then show "returns (Grisu3 u FAST_DTOA_SHORTEST_SINGLE buffer) (\<lambda>(r, buf, l, k). length buf = length buffer \<and> l \<le> 17 \<and>
    (r \<longrightarrow> S_shortest ?f (take l buf) (int l + k)))"
    using S_NormalizedBoundaries_correct [OF f(2,5)] f(2) Grisu3_of_rank [OF f(1,3,2) _ f(4), of FAST_DTOA_SHORTEST_SINGLE buffer "even (unat ?f)"]
    by (simp add: S_shortest_def midpoint_def wp)
qed simp

lemma BignumDtoa_shortest_single:
  assumes u: "is_float u" "u \<noteq> 0" and buf: "18 \<le> length buffer"
  shows "returns (BignumDtoa u BIGNUM_DTOA_SHORTEST_SINGLE digits buffer) (\<lambda>(buf, l, point). length buf = length buffer \<and>
    l = length (take l buf) \<and> buf ! l = CHR 0x00 \<and> S_shortest (double_to_single u) (take l buf) point)"
proof -
  let ?f = "double_to_single u" and ?sig = "ucast (S_Significand (double_to_single u)) :: uint64"
  note f = float_pos [OF u] is_float_facts [OF u(1)]
  have f0: "?f \<noteq> 0" using f(2) by auto
  have sig: "unat ?sig = rank_sig 23 (unat ?f)" unfolding unat_ucast_32_64 by (rule S_sig_rank [OF f(5)])
  have "unat ?f div 2 ^ 23 < 0xFF" using f(5) by (intro less_mult_imp_div_less)
  then have e: "-1074 \<le> S_Exponent ?f" "S_Exponent ?f \<le> 971" unfolding S_expo_rank [OF f(5)] by (auto simp: rank_exp_def)
  have "unat (?sig AND mask 1) = unat (S_Significand ?f AND mask 1)" unfolding unat_and_mask unat_ucast_32_64 ..
  then have ev: "?sig AND 1 = 0 \<longleftrightarrow> even (unat ?f)"
    using S_Significand_even [OF f(5)] by (simp add: mask_eq_exp_minus_1 unat_eq_0_iff [symmetric])
  have p: "(23 :: nat) \<le> 52" by simp
  show ?thesis
    by (rule shortest_of_rank [OF f(2) p sig S_expo_rank [OF f(5)] e S_closer_rank [OF f(5)] buf])
      (use f D_rank(2) [OF f(3)] buf f0 in \<open>simp add: BignumDtoa_def wp Let_def D_positive_iff ev S_shortest_def\<close>)
qed

interpretation float_mode: shortest_mode SHORTEST_SINGLE is_float "\<lambda>u. S_shortest (double_to_single u)"
proof (unfold_locales, goal_cases)
  case (2 u)
  then show ?case by (rule is_float_facts)
next
  case 3
  have "double_to_single 0 = 0" using double_to_single_exact(2) [of 0] by (simp add: single_to_double_0)
  then show ?case by (simp add: S_shortest_def)
next
  case (5 u buffer digits)
  then show ?case using FastDtoa_shortest_single [of u buffer 0] by (simp add: fast_conversion_def)
next
  case (6 u buffer digits)
  then show ?case using BignumDtoa_shortest_single [of u buffer digits] by simp
qed (auto simp: S_shortest_def shortest_digits_def split: if_splits)

section \<open>Signs\<close>

definition with_float_sign :: "bool \<Rightarrow> single \<Rightarrow> single" where
  "with_float_sign neg f = (if neg then S_kSignMask OR f else f)"

lemma bit_S_masks:
  "bit S_kSignMask n \<longleftrightarrow> n = 31" "bit S_kExponentMask n \<longleftrightarrow> 23 \<le> n \<and> n < 31" "bit S_kSignificandMask n \<longleftrightarrow> n < 23"
  unfolding S_masks by (simp_all only: bit_push_bit_iff bit_mask_iff possible_bit_word, simp_all) auto

lemma float_sign_clear_iff: "f AND S_kSignMask = 0 \<longleftrightarrow> \<not> bit f 31"
  unfolding bit_eq_iff [of "f AND S_kSignMask" 0] by (auto simp: bit_simps bit_S_masks dest: spec [of _ 31])

lemma float_sign_fields:
  "(S_kSignMask OR f) AND S_kExponentMask = f AND S_kExponentMask"
  "(S_kSignMask OR f) AND S_kSignificandMask = f AND S_kSignificandMask"
  "(S_kSignMask OR f) AND S_kSignMask = S_kSignMask"
  "(S_kSignMask OR f) AND NOT S_kSignMask = f AND NOT S_kSignMask"
  by (rule bit_eqI; auto simp: bit_simps bit_S_masks)+

lemma S_abs_rank: "unat f < 2 ^ 31 \<Longrightarrow> f AND S_kSignMask = 0 \<and> f AND NOT S_kSignMask = f"
proof -
  assume "unat f < 2 ^ 31"
  then have "unat f div 2 ^ 31 = 0" by simp
  then have zero: "f AND S_kSignMask = 0" using S_fields(3) [of f] by (simp only: unat_eq_0_iff [symmetric] mod_0 mult_zero_left)
  moreover have "f = (f AND NOT S_kSignMask) OR (f AND S_kSignMask)" by (rule bit_eqI) (auto simp: bit_simps)
  ultimately show ?thesis by simp
qed

lemma with_float_sign_exhaust:
  assumes "\<not> S_IsSpecial v"
  obtains neg f where "v = with_float_sign neg f" "unat f < S_inf_rank"
proof -
  define f where "f = v AND NOT S_kSignMask"
  have "v = with_float_sign (S_Sign v < 0) f"
    unfolding f_def with_float_sign_def S_Sign_def float_sign_clear_iff by (rule bit_eqI) (auto simp: bit_simps bit_S_masks)
  moreover have "unat f < S_inf_rank"
  proof -
    have "f AND S_kSignMask = 0" unfolding f_def by (rule bit_eqI) (auto simp: bit_simps)
    then have "unat f div 2 ^ 31 mod 2 = 0" using S_fields(3) [of f] by simp
    then have "unat f < 2 ^ 31" using unat_less_32 [of f] by simp
    then have "unat f div 2 ^ 23 < 2 ^ 8" by (intro less_mult_imp_div_less) simp
    moreover have "f AND S_kExponentMask = v AND S_kExponentMask"
      unfolding f_def by (rule bit_eqI) (auto simp: bit_simps bit_S_masks)
    then have "unat (f AND S_kExponentMask) \<noteq> 0xFF * 2 ^ 23"
      using assms by (auto simp: S_IsSpecial_def word_unat_eq_iff S_kExponentMask_def)
    ultimately have "unat f div 2 ^ 23 < 0xFF" using S_fields(1) [of f] by simp
    then show ?thesis by (simp only: div_less_iff_less_mult zero_less_power zero_less_numeral)
  qed
  ultimately show ?thesis by (rule that)
qed

lemma with_float_sign_facts:
  assumes f: "unat f < S_inf_rank"
  shows "S_Sign (with_float_sign neg f) < 0 \<longleftrightarrow> neg" "with_float_sign neg f AND NOT S_kSignMask = f"
    "single_to_double (with_float_sign neg f) = with_sign neg (single_to_double f)"
proof -
  have f31: "unat f < 2 ^ 31" using f by simp
  have "S_kSignMask \<noteq> 0" by (simp add: S_kSignMask_def)
  then have sign: "S_Sign (S_kSignMask OR f) = -1" by (simp add: S_Sign_def float_sign_fields)
  then show "S_Sign (with_float_sign neg f) < 0 \<longleftrightarrow> neg" using S_rank(1) [OF f] by (simp add: with_float_sign_def)
  show "with_float_sign neg f AND NOT S_kSignMask = f" using S_abs_rank [OF f31] by (simp add: with_float_sign_def float_sign_fields)
  have same: "S_IsNan (S_kSignMask OR f) = S_IsNan f" "S_IsInfinite (S_kSignMask OR f) = S_IsInfinite f"
    "S_Significand (S_kSignMask OR f) = S_Significand f" "S_Exponent (S_kSignMask OR f) = S_Exponent f"
    by (simp_all add: S_IsNan_def S_IsInfinite_def S_Significand_def S_Exponent_def S_IsDenormal_def float_sign_fields)
  have "unat (single_to_double f) < 2 ^ 63" using single_to_double_exact(1) [OF f] by simp
  then have "\<not> bit (single_to_double f) 63" using D_abs_rank by (simp add: sign_clear_iff [symmetric])
  then have "D_kSignMask OR single_to_double f = double_minus (single_to_double f)"
    unfolding double_minus_def by (intro bit_eqI) (auto simp: bit_simps bit_D_masks)
  moreover have "single_to_double (S_kSignMask OR f) = D_kSignMask OR single_to_double f"
    using sign S_rank(1) [OF f] unfolding single_to_double_def same by (simp add: Let_def)
  ultimately show "single_to_double (with_float_sign neg f) = with_sign neg (single_to_double f)"
    by (simp add: with_float_sign_def with_sign_def)
qed

section \<open>Properties\<close>

text \<open>
  C20: \<open>DoubleToAscii\<close> in the mode \<open>SHORTEST_SINGLE\<close> always delivers: for every float that is not an infinity or NaN, passed as a
  double, it ends, fails no assertion, and returns the sign, a terminated buffer and digits that are the shortest ones between the
  boundaries of the float, and the closest of these (\<open>0\<close> for a zero), whether the fast conversion worked or the exact one had to follow.
\<close>

theorem float_to_ascii_always_returns_shortest:
  assumes "\<not> S_IsSpecial v" "18 \<le> length vec"
  shows "\<exists>buf l point. DoubleToAscii (single_to_double v) SHORTEST_SINGLE digits vec = Some (S_Sign v < 0, buf, l, point) \<and> 0 < l \<and> l \<le> 17 \<and>
    buf ! l = CHR 0x00 \<and> S_shortest (v AND NOT S_kSignMask) (take l buf) point"
proof -
  from with_float_sign_exhaust [OF assms(1)] obtain neg f where v: "v = with_float_sign neg f" and f: "unat f < S_inf_rank" .
  note facts = with_float_sign_facts [OF f] and cast = double_to_single_exact(2) [OF less_imp_le [OF f]]
  show ?thesis using returns_ex [OF float_mode.to_ascii [OF is_float_cast [OF f] assms(2), of neg digits]] unfolding v facts cast by auto
qed

theorem float_to_ascii_always_returns_shortest_witness:
  "\<exists>buf l point. DoubleToAscii (single_to_double 0xBDCCCCCD) SHORTEST_SINGLE 0 (replicate 18 CHR ''x'') = Some (True, buf, l, point) \<and>
    0 < l \<and> l \<le> 17 \<and> buf ! l = CHR 0x00 \<and> S_shortest 0x3DCCCCCD (take l buf) point"
proof -
  have "\<not> S_IsSpecial 0xBDCCCCCD" "S_Sign 0xBDCCCCCD < 0" "(0xBDCCCCCD :: single) AND NOT S_kSignMask = 0x3DCCCCCD"
    by (simp_all add: S_IsSpecial_def S_kExponentMask_def S_Sign_def S_kSignMask_def)
  then show ?thesis using float_to_ascii_always_returns_shortest [of "0xBDCCCCCD" "replicate 18 CHR ''x''" 0] by simp
qed

end
