(* ===== verification/Parse_Float.thy ===== *)
theory Parse_Float
  imports Parse_Properties Float_Ascii
begin

text \<open>
  \<open>StringToFloat\<close>: the float that \<open>Strtof\<close> finds goes through a double, gets its sign there and is cast back, and nothing of it is lost.
\<close>

lemma double_to_single_minus:
  assumes u: "unat u \<le> D_inf_rank"
  shows "double_to_single (double_minus u) = S_kSignMask OR double_to_single u"
proof -
  have "unat u < 2 ^ 63" using u by simp
  then have "D_kSignMask AND NOT u = D_kSignMask"
    using D_abs_rank [of u] unfolding sign_clear_iff by (intro bit_eqI) (auto simp: bit_simps bit_D_masks)
  moreover have "D_kSignMask \<noteq> 0" by (simp add: D_kSignMask_def)
  ultimately have minus: "D_Sign (double_minus u) = -1" by (simp add: D_Sign_def sign_bit_fields)
  have same: "D_IsNan (double_minus u) = D_IsNan u" "D_IsInfinite (double_minus u) = D_IsInfinite u"
    "D_num (double_minus u) = D_num u" "D_den (double_minus u) = D_den u"
    by (simp_all add: D_IsNan_def D_IsInfinite_def D_num_def D_den_def D_Significand_def D_Exponent_def D_IsDenormal_def sign_bit_fields)
  show ?thesis using D_nonneg(1) [OF u] minus unfolding double_to_single_def same by (simp add: Let_def)
qed

lemma float_through_double: "unat f \<le> S_inf_rank \<Longrightarrow> double_to_single (with_sign neg (single_to_double f)) = with_float_sign neg f"
  using double_to_single_exact [of f] double_to_single_minus [of "single_to_double f"] by (simp add: with_sign_def with_float_sign_def)

lemma StringToFloat_literal:
  assumes "literal_ok l" "reads_decimal conv" "length (literal_text l) \<le> 500000000"
  obtains f where "StringToFloat conv (literal_text l) = Some (with_float_sign (lit_sign l = ''-'') f, length (literal_text l))"
    "S_nearest (literal_val l) (unat f)"
proof -
  obtain d where d: "StringToIeee conv (literal_text l) False = Some (with_sign (lit_sign l = ''-'') d, length (literal_text l))"
    "near_float (literal_val l) d" by (rule to_float.StringToIeee_literal [OF assms])
  then obtain f where f: "d = single_to_double f" "S_nearest (literal_val l) (unat f)" by (auto simp: near_float_def)
  then show thesis using d(1) float_through_double [OF nearest_le [OF f(2)]] by (intro that [of f]) (simp_all add: StringToFloat_def)
qed

section \<open>Properties\<close>

text \<open>
  C4: \<open>StringToFloat\<close> reads every decimal literal, of any number of digits and with any exponent, as the float nearest to the number
  it denotes (ties to even, beyond the range infinity) with the sign of the literal, and reports the whole text as processed: the number
  is rounded once, to a float, although it is carried in a double up to the end.
\<close>

theorem string_to_float_is_nearest:
  assumes "literal_ok l" "reads_decimal conv" "length (literal_text l) \<le> 500000000"
  shows "\<exists>f. StringToFloat conv (literal_text l) = Some (with_float_sign (lit_sign l = ''-'') f, length (literal_text l)) \<and>
    S_nearest (literal_val l) (unat f)"
  by (rule StringToFloat_literal [OF assms]) blast

theorem string_to_float_is_nearest_witness:
  "\<exists>f. StringToFloat \<lparr>std_flags = 0, std_empty_string_value = 0, std_junk_string_value = D_kNaN,
        std_infinity_symbol = Some ''inf'', std_nan_symbol = None\<rparr> ''-16777217.0e0''
      = Some (with_float_sign True f, length ''-16777217.0e0'') \<and> S_nearest (value_of ''167772170'' (-1)) (unat f)"
proof -
  let ?l = "\<lparr>lit_sign = ''-'', lit_int = ''16777217'', lit_frac = Some ''0'', lit_exp = Some (CHR ''e'', '''', ''0'')\<rparr>"
  let ?c = "\<lparr>std_flags = 0, std_empty_string_value = 0, std_junk_string_value = D_kNaN, std_infinity_symbol = Some ''inf'', std_nan_symbol = None\<rparr>"
  have t: "literal_text ?l = ''-16777217.0e0''" by (simp add: literal_text_def frac_text_def exp_text_def)
  have v: "literal_val ?l = value_of ''167772170'' (-1)" by (simp add: literal_val_def frac_digits_def exp_value_def char_digit_def)
  have s: "(lit_sign ?l = ''-'') = True" by simp
  have "literal_ok ?l" "reads_decimal ?c" "length (literal_text ?l) \<le> 500000000"
    by (simp_all add: t literal_ok_def frac_digits_def is_sign_def reads_decimal_def symbol_ok_def allows_def ALLOW_OCTALS_def first_char_def is_decimal_def)
  from string_to_float_is_nearest [OF this] show ?thesis unfolding t v s .
qed

end
