(* ===== verification/Float_Round_Trip.thy ===== *)
theory Float_Round_Trip
  imports Round_Trip Parse_Float
begin

text \<open>
  Printing and parsing floats: what \<open>ToShortestSingle\<close> writes, with as few digits as tell one float from another, \<open>StringToFloat\<close> reads
  as the float that was printed.
\<close>

lemma S_shortest_nearest:
  assumes f: "unat f < S_inf_rank" and d: "S_shortest f ds point"
  shows "list_all is_decimal ds \<and> -400 < point \<and> point \<le> 310 \<and> S_nearest (value_of ds (point - int (length ds))) (unat f)"
proof (cases "f = 0")
  case True
  then have "ds = ''0''" "point = 1" using d by (simp_all add: S_shortest_def)
  moreover have "S_nearest 0 0" using S_tiny_nearest_zero [of 0] by simp
  ultimately show ?thesis using True by (simp add: value_of_def)
next
  case False
  then have f0: "0 < unat f" by (simp add: unat_gt_0)
  have big: "S_nearest y S_inf_rank" if "10 powi 309 \<le> y" for y
  proof (rule S_nearest_infinity)
    have "(2 :: real) ^ 128 \<le> 10 ^ 128" by (rule power_mono) simp_all
    also have "\<dots> \<le> 10 ^ 309" by (rule power_increasing) simp_all
    finally show "2 powi 128 \<le> y" using that unfolding power_int_numeral by (rule order_trans)
  qed
  from False d have "shortest_digits (even (unat f)) (midpoint 23 (-149) (unat f - 1)) (S_val (unat f)) (midpoint 23 (-149) (unat f)) ds point"
    by (simp add: S_shortest_def)
  then show ?thesis by (rule shortest_nearest [OF f0 f]) (rule S_tiny_nearest_zero big; assumption)+
qed

interpretation float_text: shortest_text SHORTEST_SINGLE is_float "\<lambda>u. S_shortest (double_to_single u)"
  "\<lambda>x u. S_nearest x (unat (double_to_single u))"
  by unfold_locales (rule S_shortest_nearest [OF is_float_facts(3)])

section \<open>Round trip\<close>

definition same_or_zero_float :: "double_to_string_converter \<Rightarrow> single \<Rightarrow> single" where
  "same_or_zero_float conv v = (if has_flag (dts_flags conv) UNIQUE_ZERO \<and> single_eq v 0 then 0 else v)"

lemma same_or_zero_float_sign:
  assumes f: "unat f < S_inf_rank"
  shows "with_float_sign (sign_text conv neg (with_sign neg (single_to_double f)) = ''-'') f = same_or_zero_float conv (with_float_sign neg f)"
proof -
  note wf = with_float_sign_facts [OF f]
  have "double_to_single (single_to_double f) = f" "double_to_single (single_to_double 0) = 0"
    using f by (intro double_to_single_exact(2), simp)+
  then have "single_to_double f = 0 \<longleftrightarrow> f = 0" using single_to_double_0 by metis
  then have eqd: "double_eq (with_sign neg (single_to_double f)) 0 \<longleftrightarrow> f = 0"
    using with_sign_facts(3) [OF single_to_double_exact(1) [OF f]] by simp
  have nan: "\<not> S_IsNan (with_float_sign neg f)"
    using S_rank(2) [OF f] by (simp add: with_float_sign_def S_IsNan_def S_IsSpecial_def float_sign_fields)
  have "single_order (with_float_sign neg f) = S_Sign (with_float_sign neg f) * int (unat f)" by (simp add: single_order_def wf(2))
  moreover have "S_Sign (with_float_sign neg f) \<noteq> 0" by (simp add: S_Sign_def)
  moreover have "single_order 0 = 0" "\<not> S_IsNan 0" by (simp_all add: single_order_def S_IsNan_def S_kExponentMask_def)
  ultimately have eqs: "single_eq (with_float_sign neg f) 0 \<longleftrightarrow> f = 0" using nan by (simp add: single_eq_def unat_eq_0_iff)
  show ?thesis unfolding sign_text_def same_or_zero_float_def eqd eqs by (auto simp: with_float_sign_def)
qed

text \<open>
  C2: Printing and parsing floats. For every float that is not an infinity or NaN, \<open>ToShortestSingle\<close> writes a text into the buffer of a
  builder (500 characters always suffice) that \<open>StringToFloat\<close> reads, to its end, as the very same float, bit for bit, but for
  negative zero when the flag \<open>UNIQUE_ZERO\<close> asks to print it as zero. Both pass the float through a double, and neither loses anything of it.
\<close>

theorem to_shortest_single_string_to_float_round_trip:
  assumes "\<not> S_IsSpecial v" "conv_ok conv" "exponent_char_ok conv" "reads_decimal std" "500 \<le> length buffer"
  shows "\<exists>b b'. ToShortestSingle conv v (new_builder buffer) = Some (True, b) \<and> Finalize b = Some b' \<and>
    StringToFloat std (take (strlen (sb_buffer b')) (sb_buffer b')) = Some (same_or_zero_float conv v, strlen (sb_buffer b'))"
proof -
  from with_float_sign_exhaust [OF assms(1)] obtain neg f where v: "v = with_float_sign neg f" and f: "unat f < S_inf_rank" .
  note cast = with_float_sign_facts(3) [OF f, of neg] double_to_single_exact(2) [OF less_imp_le [OF f]]
  obtain b b' lit where b: "ToShortestSingle conv v (new_builder buffer) = Some (True, b)" "Finalize b = Some b'"
    "take (strlen (sb_buffer b')) (sb_buffer b') = literal_text lit" "strlen (sb_buffer b') = length (literal_text lit)"
    "length (literal_text lit) \<le> 500000000" and lit: "literal_ok lit" "lit_sign lit = sign_text conv neg (with_sign neg (single_to_double f))"
    "S_nearest (literal_val lit) (unat (double_to_single (single_to_double f)))"
    unfolding v ToShortestSingle_def cast(1) by (rule float_text.finalized_literal [OF is_float_cast [OF f] assms(2,3,5)])
  from StringToFloat_literal [OF lit(1) assms(4) b(5)] obtain g where
    g: "StringToFloat std (literal_text lit) = Some (with_float_sign (lit_sign lit = ''-'') g, length (literal_text lit))"
      "S_nearest (literal_val lit) (unat g)" .
  have "g = f" using nearest_unique [OF lit(3) g(2)] unfolding cast by (simp add: word_unat_eq_iff)
  then show ?thesis using b g(1) same_or_zero_float_sign [OF f, of conv neg] lit(2) v by auto
qed

theorem to_shortest_single_string_to_float_round_trip_witness:
  "\<exists>b b'. ToShortestSingle \<lparr>dts_flags = 0, dts_infinity_symbol = None, dts_nan_symbol = None, dts_exponent_character = CHR ''e'',
      dts_decimal_in_shortest_low = -6, dts_decimal_in_shortest_high = 21, dts_max_leading_padding = 6, dts_max_trailing_padding = 0\<rparr>
      0x80000000 (new_builder (replicate 500 CHR ''x'')) = Some (True, b) \<and> Finalize b = Some b' \<and>
    StringToFloat \<lparr>std_flags = 0, std_empty_string_value = 0, std_junk_string_value = D_kNaN,
        std_infinity_symbol = None, std_nan_symbol = None\<rparr> (take (strlen (sb_buffer b')) (sb_buffer b')) = Some (0x80000000, strlen (sb_buffer b'))"
proof -
  define conv where "conv = \<lparr>dts_flags = 0, dts_infinity_symbol = None, dts_nan_symbol = None, dts_exponent_character = CHR ''e'',
    dts_decimal_in_shortest_low = -6, dts_decimal_in_shortest_high = 21, dts_max_leading_padding = 6, dts_max_trailing_padding = 0\<rparr>"
  have c: "conv_ok conv" "exponent_char_ok conv" "\<not> S_IsSpecial 0x80000000" "same_or_zero_float conv 0x80000000 = 0x80000000"
    by (simp_all add: conv_def conv_ok_def exponent_char_ok_def has_flag_def S_IsSpecial_def S_kExponentMask_def same_or_zero_float_def
        UNIQUE_ZERO_def EMIT_TRAILING_DECIMAL_POINT_def EMIT_TRAILING_ZERO_AFTER_POINT_def)
  show ?thesis unfolding conv_def [symmetric]
    using to_shortest_single_string_to_float_round_trip [OF c(3,1,2), of
      "\<lparr>std_flags = 0, std_empty_string_value = 0, std_junk_string_value = D_kNaN, std_infinity_symbol = None, std_nan_symbol = None\<rparr>"
      "replicate 500 CHR ''x''"]
    by (simp add: c(4) reads_decimal_def symbol_ok_def allows_def ALLOW_OCTALS_def)
qed

end
