(* ===== verification/Spec2Isabelle.thy ===== *)
theory Spec2Isabelle
  imports Bignum_Properties Bignum_Machine Ieee_Properties Fixed_Text Precision_Text Builder Parse_Total Float_Round_Trip
begin

text \<open>
  CloseApp is a mobile application for meeting people nearby; its iOS build contains, as C++ sources in the repository,
  the libraries that its React Native runtime is built from. This development verifies one of these libraries as a whole:
  double-conversion, under \<open>src/mobile/CloseApp/ios/Pods/DoubleConversion/double-conversion/\<close>. Every number that the
  JavaScript side prints or parses goes through such a library; a wrong digit or a wrong last bit would be silent. All
  its \<open>.cc\<close> files are translated, function by function, with the source's names.

  \<^bold>\<open>Parts and how they interact.\<close> Two chains of components share three foundations.

  \<^item> Foundations: \<open>Bignum\<close> (\<open>bignum.cc\<close>: natural numbers of 128 chunks of 28 bits), \<open>DiyFp\<close> (\<open>diy-fp.cc\<close>: a 64-bit
    significand with an exponent), \<open>Double\<close> and \<open>Single\<close> (\<open>ieee.h\<close>: the fields of a float) and \<open>PowersOfTenCache\<close>
    (\<open>cached-powers.cc\<close>).
  \<^item> Printing: \<open>DoubleToStringConverter\<close> (\<open>double-conversion.cc\<close>) asks \<open>FastDtoa\<close>, \<open>FastFixedDtoa\<close> and, where these give
    up, \<open>BignumDtoa\<close> for digits and writes them with a \<open>StringBuilder\<close> (\<open>utils.h\<close>).
  \<^item> Parsing: \<open>StringToDoubleConverter\<close> reads a text and calls \<open>Strtod\<close> or \<open>Strtof\<close> (\<open>strtod.cc\<close>), which try exact
    \<open>double\<close> arithmetic, then \<open>DiyFp\<close> arithmetic with an error count, then exact comparison of \<open>Bignum\<close> numbers.

  \<^bold>\<open>How the code is modelled.\<close> \<open>Prelude\<close> holds the conventions. A function that may fail an assertion, read outside a
  \<open>Vector\<close>, shift by a negative amount, overflow an \<open>int\<close> or loop forever returns an \<open>option\<close>, with \<open>None\<close> for all of these;
  \<open>returns m P\<close> is total correctness. Machine integers are words where the code relies on their width (\<open>uint64_t\<close>, \<open>uint32_t\<close>,
  \<open>uint16_t\<close>). The 32-bit \<open>int\<close> is the type of integers, and a sum whose operands only the caller or the length of a text
  limits goes through \<open>as_int32\<close>, which is \<open>None\<close> outside the 32 bits: the decimal exponents of \<open>TrimAndCut\<close>,
  \<open>CutToMaxSignificantDigits\<close>, \<open>ComputeGuess\<close> and \<open>parsing_done\<close>, and the binary exponent of \<open>RadixStringToIeee\<close>. The theorems
  on them have the limits as hypotheses (\<open>decimal_ok\<close>, lengths of up to five hundred million characters). The other values of
  type \<open>int\<close> are counters and positions, at most the length of a text or buffer, or limited by tests of the code before they
  are added. A \<open>double\<close> is its 64-bit pattern, and its arithmetic is the correctly rounded one of the theory \<open>FloatOps\<close>. A buffer
  is a list of characters of fixed length, an out-parameter a part of the result. Local arrays that the source leaves
  uninitialised start with zero characters, and \<open>strlen\<close> of an array without a zero character is its length; no result depends on
  either, only the argument of the assertion in \<open>AddSubstring\<close> could.

  \<^bold>\<open>Theories.\<close>

  \<^item> \<open>Bignum\<close> (all of \<open>bignum.cc\<close>), \<open>Bignum_Laws\<close>, \<open>Bignum_Arith\<close>, \<open>Bignum_Mult\<close>, \<open>Bignum_Square\<close>, \<open>Bignum_Div\<close>: the
    representation invariant \<open>bignum_inv\<close>, the abstraction \<open>bignum_val\<close> to natural numbers, and for every operation that it
    keeps the one and computes the arithmetic operation on the other. \<open>Bignum_Numbers\<close> restates the laws for clients;
    \<open>Bignum_Interface\<close> is the interface that the digit generation relies on, a locale interpreted on \<open>Bignum\<close>.
    \<open>Bignum_Machine\<close>: programs over several objects refine programs over natural numbers. \<open>Bignum_Properties\<close> holds the
    properties of the single operations.
  \<^item> \<open>DiyFp\<close>, \<open>CachedPowers\<close>: the rounded product and its error, and that each of the 87 entries is the power of ten rounded
    to 64 bits, by a chain of brackets that never computes a large power.
  \<^item> \<open>Ieee\<close>, \<open>Ieee_Laws\<close>, \<open>Ieee_Properties\<close>: the fields of both formats through one locale, the order of floats by their bit
    pattern (the rank), neighbours and boundaries; \<open>NextDouble\<close> on every double but the NaNs, with the two zeros in order. \<open>Rounding\<close>, \<open>FloatOps\<close>: correctly rounded arithmetic. \<open>Nearest\<close>: what it
    means that a float is the nearest one to a real number, and that there is only one.
  \<^item> \<open>Strtod\<close> (all of \<open>strtod.cc\<close>), \<open>Strtod_Read\<close>, \<open>Strtod_Laws\<close>, \<open>Strtod_Guess\<close>, \<open>Strtod_Diy\<close>, \<open>Strtod_Correct\<close>,
    \<open>Strtod_Properties\<close>: trimming, reading and cutting of digits, the exact comparison, the error analysis of \<open>DiyFpStrtod\<close>
    and the main theorem, that \<open>Strtod\<close> returns the nearest double for all digits and every exponent within the type \<open>int\<close>. \<open>Single_Cast\<close>, \<open>Strtof_Properties\<close>: the
    casts between the formats, and that \<open>Strtof\<close> returns the nearest float although it starts from a guess that is a double.
  \<^item> \<open>Digits\<close>, \<open>FixedDtoa\<close>, \<open>BignumDtoa\<close>, \<open>FastDtoa\<close>: the three ways to digits. \<open>Dtoa_Digits\<close>, \<open>Dtoa_Shortest\<close>: the
    generation of the shortest digits of \<open>BignumDtoa\<close>, on natural numbers and in the code; \<open>Dtoa_Start\<close>: the estimated power
    and the scaled start values; \<open>Dtoa_Properties\<close>: the shortest digits as a whole and that \<open>Strtod\<close> reads them back;
    \<open>Dtoa_Counted\<close>, \<open>Dtoa_Modes\<close>: the modes with a requested number of digits, which round half up.
  \<^item> \<open>Fixed_Digits\<close>, \<open>Fixed_Fraction\<close>, \<open>Fixed_Wide\<close>, \<open>Fixed_Properties\<close>: the fast conversion to a fixed number of digits, with its
    digits of integers, its fractions of 64 and of 128 bits, the rounding and the trimming, and exactly which calls reach the
    undefined shift by \<open>-1\<close> in \<open>FillFractionals\<close> (\<open>shifts_by_minus_one\<close>). \<open>Fixed_Text\<close>: \<open>DoubleToAscii\<close> in the mode
    \<open>FIXED\<close>, where the exact conversion follows, and the text of \<open>ToFixed\<close>. \<open>Precision_Text\<close>: the same for the mode \<open>PRECISION\<close> and the texts of
    \<open>ToExponential\<close> and \<open>ToPrecision\<close>.
  \<^item> \<open>Grisu_Weed\<close>, \<open>Grisu_Digits\<close>, \<open>Grisu_Scale\<close>, \<open>Grisu_Properties\<close>: the fast conversion. The weeding of the last digit on
    natural numbers and in the code; the two loops of \<open>DigitGen\<close> with their invariants; the imprecision of the scaled numbers; and
    \<open>Grisu3\<close> and \<open>FastDtoa\<close> as a whole. \<open>Grisu_Counted\<close>: the same for a requested number
    of digits. \<open>Shortest_Ascii\<close> joins the fast and the exact conversion in \<open>DoubleToAscii\<close>,
    over the locale \<open>shortest_mode\<close>, interpreted there for doubles and in \<open>Float_Ascii\<close> for floats.
  \<^item> \<open>Utils\<close>, \<open>DoubleToString\<close>, \<open>StringToDouble\<close>: the string builder, the converter to text with its formats, and the parser
    in phases. \<open>Formatting\<close>: the number that a written text denotes. \<open>Parse_Loops\<close>, \<open>Parse_Phases\<close>, \<open>Parse_Properties\<close>: the loops
    of the parser, each of its phases on a decimal literal, and the parser as a whole, over the locale \<open>digit_conversion\<close>, which
    is interpreted on \<open>Strtod\<close> and on \<open>Strtof\<close>. \<open>Parse_Float\<close>: the parser for floats. \<open>Round_Trip\<close>, \<open>Float_Round_Trip\<close>: printing and parsing
    together, over the locale \<open>shortest_text\<close>, for doubles and for floats.
    \<open>Radix_Reader\<close>, \<open>Radix_Properties\<close>: hexadecimal and octal numbers. \<open>Parse_Total\<close>: the parser on arbitrary input, with an
    invariant of its variables through all phases. \<open>Builder\<close>: the string builder as a state machine that refines a bounded text.

  \<^bold>\<open>Bounds.\<close> No fuel is used: loops are \<open>while_loop\<close>, a \<open>partial_function\<close>, and every theorem on a loop proves that it ends
  by a measure. The limits in hypotheses are the ones of the code: 128 bigits, 780 digits, decimal exponents of the cache, the
  32 bits of \<open>int\<close>.

  \<^bold>\<open>Where the code and its comments differ.\<close> The comments in \<open>bignum-dtoa.h\<close>, \<open>fixed-dtoa.h\<close> and \<open>double-conversion.h\<close> say
  that \<open>toFixed(0.15, 2)\<close> returns the digits \<open>2\<close> with the point at 0; the conversions return digits for \<open>0.15\<close>, which the witnesses
  of the three theorems evaluate. \<open>FillFractionals\<close> can shift by \<open>-1\<close> (\<open>fixed_shift_by_minus_one\<close>), \<open>DivideModuloIntBignum\<close> can
  fail an assertion within its precondition, and \<open>RadixStringToIeee\<close> loses the sign of a number of more than 53 bits.

  \<^bold>\<open>Not modelled.\<close> The TypeScript, Swift, Kotlin and Python parts of the application are calls of platform services (Bluetooth,
  WebSocket, a web framework, a user interface) around little logic of their own. The other vendored libraries (boost, folly,
  fmt, glog and others) are third-party code that the application only links. Of double-conversion itself the
  preprocessor selection of the platform, the constructors' field initialisations, the destructor of \<open>StringBuilder\<close> (a call of
  \<open>Finalize\<close>, which is modelled), \<open>Vector::first\<close>, \<open>Vector::last\<close>, \<open>Min\<close> and \<open>Max\<close> have no definition of their own.
\<close>

end
